(* ===== verification/Fuzzuf_Prelude.thy ===== *)
theory Fuzzuf_Prelude
  imports Main "HOL-Library.Word" "HOL-Library.Multiset" "HOL-Library.AList"
begin

text \<open>
  Shared vocabulary of the development: the errors the C++ code raises and the result type that
  carries them, checked vector access (\<open>std::vector::at\<close>), the random source of
  \<open>include/fuzzuf/utils/random.hpp\<close>, and the generic list lemmas that the component theories use.
\<close>

named_theorems result_simps \<open>rules that compute with the result type\<close>

section \<open>Errors and results\<close>

text \<open>
  An exception of the source is a value of \<open>err\<close>; \<open>AssertFail\<close> is a \<open>DEBUG_ASSERT\<close> that does not
  hold in a build with \<open>DEFINE_DEBUG_ASSERT\<close>, \<open>Undefined\<close> an access the language leaves undefined, and \<open>OutOfFuel\<close> marks the bound of a recursion that
  the model limits (the theorems show that it is never reached).
\<close>

datatype err =
    OutOfRange                \<comment> \<open>\<open>std::out_of_range\<close>, thrown by \<open>at\<close> and \<open>Choose\<close>\<close>
  | RangeError                \<comment> \<open>\<open>std::range_error\<close>\<close>
  | RuntimeError string       \<comment> \<open>\<open>exceptions::fuzzuf_runtime_error\<close>\<close>
  | FileError string          \<comment> \<open>\<open>FileError\<close>, thrown by \<open>Util::OpenFile\<close>\<close>
  | Exit nat                  \<comment> \<open>\<open>std::exit\<close> with a status\<close>
  | AssertFail
  | Undefined                 \<comment> \<open>undefined behaviour: an unchecked access outside a container\<close>
  | OutOfFuel

type_synonym 'a result = "err + 'a"

definition bindR :: "'a result \<Rightarrow> ('a \<Rightarrow> 'b result) \<Rightarrow> 'b result" where
  "bindR m f = (case m of Inl e \<Rightarrow> Inl e | Inr x \<Rightarrow> f x)"

lemma bindR_Inl [simp, result_simps]: "bindR (Inl e) f = Inl e"
  by (simp add: bindR_def)

lemma bindR_Inr [simp, result_simps]: "bindR (Inr x) f = f x"
  by (simp add: bindR_def)

lemma bindR_eq_Inr [result_simps]: "bindR m f = Inr y \<longleftrightarrow> (\<exists>x. m = Inr x \<and> f x = Inr y)"
  by (cases m) auto

lemma bindR_eq_Inl [result_simps]: "bindR m f = Inl e \<longleftrightarrow> m = Inl e \<or> (\<exists>x. m = Inr x \<and> f x = Inl e)"
  by (cases m) auto

lemma bindR_assoc: "bindR (bindR m f) g = bindR m (\<lambda>x. bindR (f x) g)"
  by (cases m) auto

lemma bindR_cong [fundef_cong]:
  "m = m' \<Longrightarrow> (\<And>x. m' = Inr x \<Longrightarrow> f x = f' x) \<Longrightarrow> bindR m f = bindR m' f'"
  by (cases m') auto

text \<open>A loop that appends the result of a fallible expression for every index.\<close>

fun mapR :: "('a \<Rightarrow> 'b result) \<Rightarrow> 'a list \<Rightarrow> 'b list result" where
  "mapR f [] = Inr []"
| "mapR f (x # xs) = bindR (f x) (\<lambda>y. bindR (mapR f xs) (\<lambda>ys. Inr (y # ys)))"

lemma mapR_Inr: "(\<And>x. x \<in> set xs \<Longrightarrow> f x = Inr (g x)) \<Longrightarrow> mapR f xs = Inr (map g xs)"
  by (induction xs) auto

section \<open>Checked access\<close>

text \<open>\<open>v.at(i)\<close> of a vector and \<open>m.at(k)\<close> of an unordered map.\<close>

definition at_vec :: "'a list \<Rightarrow> nat \<Rightarrow> 'a result" where
  "at_vec xs i = (if i < length xs then Inr (xs ! i) else Inl OutOfRange)"

definition at_map :: "('k \<rightharpoonup> 'v) \<Rightarrow> 'k \<Rightarrow> 'v result" where
  "at_map m k = (case m k of None \<Rightarrow> Inl OutOfRange | Some v \<Rightarrow> Inr v)"

text \<open>\<open>v[i]\<close>, which is not checked.\<close>

definition idx_vec :: "'a list \<Rightarrow> nat \<Rightarrow> 'a result" where
  "idx_vec xs i = (if i < length xs then Inr (xs ! i) else Inl Undefined)"

lemma idx_vec_in [simp]: "i < length xs \<Longrightarrow> idx_vec xs i = Inr (xs ! i)"
  by (simp add: idx_vec_def)

lemma at_vec_Inr [simp]: "at_vec xs i = Inr x \<longleftrightarrow> i < length xs \<and> x = xs ! i"
  by (auto simp: at_vec_def)

lemma at_vec_Inl [simp]: "at_vec xs i = Inl e \<longleftrightarrow> length xs \<le> i \<and> e = OutOfRange"
  by (auto simp: at_vec_def)

lemma at_vec_in [simp]: "i < length xs \<Longrightarrow> at_vec xs i = Inr (xs ! i)"
  by (simp add: at_vec_def)

lemma at_map_Inr [simp]: "at_map m k = Inr v \<longleftrightarrow> m k = Some v"
  by (auto simp: at_map_def split: option.splits)

lemma at_map_Some [simp]: "m k = Some v \<Longrightarrow> at_map m k = Inr v"
  by (simp add: at_map_def)

section \<open>The random source\<close>

text \<open>
  \<open>fuzzuf::utils::random\<close> draws from one global engine. The model threads an explicit source, a list
  of raw draws; every draw is reduced into the requested interval, so that a theorem for all sources
  covers every sequence of outcomes, and only these. A source that has run out yields the lower
  bound.
\<close>

type_synonym rng = "nat list"

fun Random :: "nat \<Rightarrow> nat \<Rightarrow> rng \<Rightarrow> nat \<times> rng" where
  "Random lower upper [] = (lower, [])"
| "Random lower upper (r # rs) = (lower + r mod (upper - lower + 1), rs)"

lemma Random_bounds:
  assumes "Random lower upper rs = (x, rs')" and "lower \<le> upper"
  shows "lower \<le> x" and "x \<le> upper"
proof -
  have "lower + r mod Suc (upper - lower) \<le> upper" for r
    using mod_less_divisor [of "Suc (upper - lower)" r] assms(2) by linarith
  with assms have "lower \<le> x \<and> x \<le> upper"
    by (cases rs) auto
  then show "lower \<le> x" and "x \<le> upper" by simp_all
qed

lemma Random_index: "0 < n \<Longrightarrow> fst (Random 0 (n - 1) rs) < n"
  using Random_bounds(2) [of 0 "n - 1" rs] by (cases "Random 0 (n - 1) rs") fastforce

text \<open>Every value of the interval is a possible outcome.\<close>

lemma Random_onto: "lower \<le> x \<Longrightarrow> x \<le> upper \<Longrightarrow> Random lower upper ((x - lower) # rs) = (x, rs)"
  by simp

text \<open>\<open>Choose\<close>: a random element of a vector, or \<open>std::out_of_range\<close> for an empty one.\<close>

definition Choose :: "'a list \<Rightarrow> rng \<Rightarrow> ('a \<times> rng) result" where
  "Choose v rs =
     (if length v = 0 then Inl OutOfRange
      else (case Random 0 (length v - 1) rs of (i, rs') \<Rightarrow> Inr (v ! i, rs')))"

lemma Choose_eq:
  "v \<noteq> [] \<Longrightarrow> Choose v rs = Inr (v ! fst (Random 0 (length v - 1) rs), snd (Random 0 (length v - 1) rs))"
  by (simp add: Choose_def split: prod.splits)

lemma Choose_in: "Choose v rs = Inr (x, rs') \<Longrightarrow> x \<in> set v"
  by (cases "v = []") (auto simp: Choose_eq Random_index [of "length v" rs, simplified] Choose_def [of "[]"])

lemma Choose_ok: "v \<noteq> [] \<Longrightarrow> \<exists>x rs'. Choose v rs = Inr (x, rs') \<and> x \<in> set v"
  using Choose_in [of v rs] by (auto simp: Choose_eq)

section \<open>Lists\<close>

lemma list_update_append_mid [simp]: "(xs @ x # ys)[length xs := y] = xs @ y # ys"
  by (induction xs) auto

lemma concat_map_length: "length (concat (map f xs)) = sum_list (map (\<lambda>x. length (f x)) xs)"
  by (induction xs) auto

end
