(* ===== verification/Nautilus_Rule.thy ===== *)
theory Nautilus_Rule
  imports Fuzzuf_Prelude
begin

text \<open>
  Grammar rules of Nautilus (\<open>algorithms/nautilus/grammartec/rule.cpp\<close>, \<open>rule.hpp\<close>, \<open>newtypes.hpp\<close>):
  the rule data, the parser of the textual rule format and the printer of rules. The functions
  that look a nonterminal up or register it take the context of \<open>Nautilus_Context\<close> and live there.
  The two regular expressions of the source are written out as scanners.
\<close>

section \<open>Data\<close>

text \<open>\<open>NTermID\<close>, \<open>RuleID\<close> and \<open>NodeID\<close> all wrap one \<open>size_t\<close> (class \<open>IDBase\<close>).\<close>

type_synonym NTermID = nat
type_synonym RuleID = nat
type_synonym NodeID = nat

datatype RuleChild = Term string | NTerm NTermID

datatype RuleIDOrCustom = PlainID RuleID | Custom RuleID string

record PlainRule =
  nonterm :: NTermID
  children :: "RuleChild list"
  nonterms :: "NTermID list"

text \<open>\<open>RuleIDOrCustom::ID\<close> and \<open>RuleIDOrCustom::Data\<close>.\<close>

fun ID :: "RuleIDOrCustom \<Rightarrow> RuleID" where
  "ID (PlainID r) = r"
| "ID (Custom r s) = r"

fun Data :: "RuleIDOrCustom \<Rightarrow> string result" where
  "Data (PlainID r) = Inl (RuntimeError ''Cannot get data on a normal rule'')"
| "Data (Custom r s) = Inr s"

text \<open>\<open>Rule::NumberOfNonterms\<close>.\<close>

definition NumberOfNonterms :: "PlainRule \<Rightarrow> nat" where
  "NumberOfNonterms r = length (nonterms r)"

text \<open>The filter loop of the constructor \<open>Rule::Rule\<close>: only the nonterminals of the children.\<close>

fun nonterms_of :: "RuleChild list \<Rightarrow> NTermID list" where
  "nonterms_of [] = []"
| "nonterms_of (Term s # cs) = nonterms_of cs"
| "nonterms_of (NTerm n # cs) = n # nonterms_of cs"

text \<open>What the constructor establishes for every rule.\<close>

definition rule_wf :: "PlainRule \<Rightarrow> bool" where
  "rule_wf r \<longleftrightarrow> nonterms r = nonterms_of (children r)"

section \<open>Scanning the rule format\<close>

abbreviation lbrace :: char where "lbrace \<equiv> CHR 0x7B"
abbreviation rbrace :: char where "rbrace \<equiv> CHR 0x7D"
abbreviation backslash :: char where "backslash \<equiv> CHR 0x5C"

text \<open>
  \<open>Rule::Unescape\<close>: the loop looks at two characters at a time and the byte that the loop leaves over
  is appended at the end. Strings shorter than two bytes are returned as they are.
\<close>

fun unescape_loop :: "string \<Rightarrow> string" where
  "unescape_loop (a # b # s) =
     (if a = backslash \<and> b = lbrace then lbrace # unescape_loop s
      else if a = backslash \<and> b = rbrace then rbrace # unescape_loop s
      else a # unescape_loop (b # s))"
| "unescape_loop s = s"

definition Unescape :: "string \<Rightarrow> string" where
  "Unescape bytes = (if length bytes < 2 then bytes else unescape_loop bytes)"

text \<open>
  The first group of the tokenizer expression, an opening brace, one or more characters other
  than a closing brace and a backslash, and a closing brace. The character class excludes the
  closing brace, so that the match is unique.
\<close>

definition nt_char :: "char \<Rightarrow> bool" where
  "nt_char c \<longleftrightarrow> c \<noteq> rbrace \<and> c \<noteq> backslash"

fun match_nt :: "string \<Rightarrow> (string \<times> string) option" where
  "match_nt [] = None"
| "match_nt (c # s) =
     (if c = lbrace then
        (case dropWhile nt_char s of
           [] \<Rightarrow> None
         | d # r \<Rightarrow> if d = rbrace \<and> takeWhile nt_char s \<noteq> []
                    then Some (c # takeWhile nt_char s @ [d], r) else None)
      else None)"

text \<open>
  The second group, a maximal run of characters other than an opening brace and a backslash, of
  escaped braces and of single backslashes; the escaped braces are tried before the backslash.
\<close>

fun match_lit :: "string \<Rightarrow> string \<times> string" where
  "match_lit [] = ([], [])"
| "match_lit (c # s) =
     (if c = lbrace then ([], c # s)
      else if c = backslash then
        (case s of
           [] \<Rightarrow> ([c], [])
         | d # s' \<Rightarrow>
             if d = lbrace \<or> d = rbrace
             then (case match_lit s' of (m, r) \<Rightarrow> (c # d # m, r))
             else (case match_lit s of (m, r) \<Rightarrow> (c # m, r)))
      else (case match_lit s of (m, r) \<Rightarrow> (c # m, r)))"

text \<open>
  The matches of the \<open>sregex_iterator\<close> of \<open>Rule::Tokenize\<close> in order: \<open>Inl\<close> a match of the first group,
  \<open>Inr\<close> one of the second. A position where neither group matches is skipped.
\<close>

datatype token = TokNT string | TokLit string

lemma match_nt_shorter: "match_nt s = Some (m, r) \<Longrightarrow> length r < length s"
proof (cases s)
  case (Cons c t)
  assume "match_nt s = Some (m, r)"
  with Cons obtain d where "dropWhile nt_char t = d # r"
    by (auto split: if_splits list.splits)
  then show ?thesis
    using Cons length_dropWhile_le [of nt_char t] by simp
qed simp

lemma match_lit_append: "match_lit s = (m, r) \<Longrightarrow> s = m @ r"
proof (induction s arbitrary: m r rule: match_lit.induct)
  case (2 c s)
  consider "c = lbrace" | "c = backslash" "s = []"
    | d s' where "c = backslash" "s = d # s'" "d = lbrace \<or> d = rbrace"
    | d s' where "c = backslash" "s = d # s'" "\<not> (d = lbrace \<or> d = rbrace)"
    | "c \<noteq> lbrace" "c \<noteq> backslash"
    by (cases s) auto
  then show ?case
    using 2 by cases (auto split: prod.splits)
qed simp

lemma match_lit_shorter: "match_lit s = (m, r) \<Longrightarrow> m \<noteq> [] \<Longrightarrow> length r < length s"
  using match_lit_append [of s m r] by simp

function scan :: "string \<Rightarrow> token list" where
  "scan s =
     (case s of
        [] \<Rightarrow> []
      | c # t \<Rightarrow>
          (case match_nt s of
             Some (m, r) \<Rightarrow> TokNT m # scan r
           | None \<Rightarrow>
               (case match_lit s of
                  (m, r) \<Rightarrow> if m = [] then scan t else TokLit m # scan r)))"
  by pat_completeness auto
termination
proof (relation "measure length", goal_cases)
  case (2 s c t)
  then show ?case by simp
next
  case (3 s c t m r)
  then show ?case
    using match_lit_shorter [of s m r] by simp
next
  case (4 s c t p m r)
  then show ?case
    using match_nt_shorter [of s m r] by simp
qed simp

declare scan.simps [simp del]

lemma scan_Nil [simp]: "scan [] = []"
  by (simp add: scan.simps)

text \<open>
  \<open>RuleChild::SplitNTDescription\<close>: the whole string has to be an opening brace, an identifier that
  starts with a capital letter, an optional comment after a colon, and a closing brace. The result is
  the identifier.
\<close>

definition upper_char :: "char \<Rightarrow> bool" where
  "upper_char c \<longleftrightarrow> 65 \<le> (of_char c :: nat) \<and> (of_char c :: nat) \<le> 90"

definition ident_char :: "char \<Rightarrow> bool" where
  "ident_char c \<longleftrightarrow>
     upper_char c \<or> 97 \<le> (of_char c :: nat) \<and> (of_char c :: nat) \<le> 122
     \<or> 48 \<le> (of_char c :: nat) \<and> (of_char c :: nat) \<le> 57 \<or> c = CHR ''_'' \<or> c = CHR ''-''"

definition SplitNTDescription :: "string \<Rightarrow> string result" where
  "SplitNTDescription s =
     (let body = butlast (tl s); name = takeWhile ident_char body; rest = dropWhile ident_char body in
      if 2 \<le> length s \<and> hd s = lbrace \<and> last s = rbrace
         \<and> name \<noteq> [] \<and> upper_char (hd name)
         \<and> (rest = [] \<or> hd rest = CHR '':'' \<and> list_all ident_char (tl rest))
      then Inr name
      else Inl (RuntimeError (''Could not interpret Nonterminal '' @ s)))"

text \<open>
  \<open>ShowBytes\<close>. A byte of the printable range is written as it is; of the remaining bytes, three are
  written as an escape and the others as a backslash, an x and the byte itself, padded with a zero:
  \<open>std::hex\<close> does not apply to \<open>uint8_t\<close>, which the stream writes as a character.
\<close>

definition show_byte :: "char \<Rightarrow> string" where
  "show_byte c =
     (if 32 \<le> (of_char c :: nat) \<and> (of_char c :: nat) \<le> 126 then [c]
      else if c = CHR 0x09 then [backslash, CHR ''t'']
      else if c = CHR 0x0D then [backslash, CHR ''r'']
      else if c = CHR 0x0A then [backslash, CHR ''n'']
      else if c = CHR 0x27 then [backslash, CHR 0x27]
      else if c = CHR 0x22 then [backslash, CHR 0x22]
      else if c = backslash then [backslash, backslash]
      else [backslash, CHR ''x'', CHR ''0'', c])"

definition ShowBytes :: "string \<Rightarrow> string" where
  "ShowBytes bs = concat (map show_byte bs)"

end
