(* ===== verification/Nautilus_Context.thy ===== *)
theory Nautilus_Context
  imports Nautilus_Rule
begin

text \<open>
  The grammar context of Nautilus (\<open>algorithms/nautilus/grammartec/context.cpp\<close>, \<open>context.hpp\<close>) and the
  parts of \<open>rule.cpp\<close> that need it: registration of nonterminals and rules, the parser of rule
  formats, the fixpoint computations of the minimal tree lengths and of the option counts, and the
  random choice of lengths and rules.
\<close>

section \<open>State\<close>

text \<open>
  The unordered maps are partial functions. \<open>nt_ids_to_name\<close> is an association list, since its size
  gives the next identifier. Lengths and sizes (\<open>size_t\<close> in the source) are natural numbers; the
  option counts, whose overflow the code handles, saturate at \<open>size_max\<close>.
\<close>

record Context =
  rules :: "PlainRule list"
  nts_to_rules :: "NTermID \<rightharpoonup> RuleID list"
  nt_ids_to_name :: "(NTermID \<times> string) list"
  names_to_nt_id :: "string \<rightharpoonup> NTermID"
  rules_to_min_size :: "RuleID \<rightharpoonup> nat"
  nts_to_min_size :: "NTermID \<rightharpoonup> nat"
  rules_to_num_options :: "RuleID \<rightharpoonup> nat"
  nts_to_num_options :: "NTermID \<rightharpoonup> nat"
  max_len :: nat

definition empty_context :: Context where
  "empty_context =
     \<lparr>rules = [], nts_to_rules = Map.empty, nt_ids_to_name = [], names_to_nt_id = Map.empty,
      rules_to_min_size = Map.empty, nts_to_min_size = Map.empty,
      rules_to_num_options = Map.empty, nts_to_num_options = Map.empty, max_len = 0\<rparr>"

definition size_max :: nat where
  "size_max = 2 ^ 64 - 1"

section \<open>Lookups\<close>

definition GetRule :: "Context \<Rightarrow> RuleID \<Rightarrow> PlainRule result" where
  "GetRule ctx r = at_vec (rules ctx) r"

definition GetNT :: "Context \<Rightarrow> RuleIDOrCustom \<Rightarrow> NTermID result" where
  "GetNT ctx r = bindR (GetRule ctx (ID r)) (\<lambda>rule. Inr (nonterm rule))"

definition GetNumChildren :: "Context \<Rightarrow> RuleIDOrCustom \<Rightarrow> nat result" where
  "GetNumChildren ctx r = bindR (GetRule ctx (ID r)) (\<lambda>rule. Inr (NumberOfNonterms rule))"

definition NTIDToString :: "Context \<Rightarrow> NTermID \<Rightarrow> string result" where
  "NTIDToString ctx nt = at_map (map_of (nt_ids_to_name ctx)) nt"

definition GetMinLenForNT :: "Context \<Rightarrow> NTermID \<Rightarrow> nat result" where
  "GetMinLenForNT ctx nt = at_map (nts_to_min_size ctx) nt"

definition NTID :: "Context \<Rightarrow> string \<Rightarrow> NTermID result" where
  "NTID ctx nt = at_map (names_to_nt_id ctx) nt"

definition GetRulesForNT :: "Context \<Rightarrow> NTermID \<Rightarrow> RuleID list result" where
  "GetRulesForNT ctx nt = at_map (nts_to_rules ctx) nt"

definition CheckIfNTermHasMultiplePossibilities :: "Context \<Rightarrow> NTermID \<Rightarrow> bool result" where
  "CheckIfNTermHasMultiplePossibilities ctx nt =
     bindR (GetRulesForNT ctx nt) (\<lambda>rs. Inr (1 < length rs))"

definition GetRandomLenForRuleID :: "Context \<Rightarrow> RuleID \<Rightarrow> nat" where
  "GetRandomLenForRuleID ctx r = max_len ctx"

definition GetRandomLenForNT :: "Context \<Rightarrow> NTermID \<Rightarrow> nat" where
  "GetRandomLenForNT ctx nt = max_len ctx"

section \<open>Printing rules\<close>

fun show_child :: "Context \<Rightarrow> RuleChild \<Rightarrow> string result" where
  "show_child ctx (NTerm n) = NTIDToString ctx n"
| "show_child ctx (Term s) = Inr (ShowBytes s)"

fun show_children :: "Context \<Rightarrow> RuleChild list \<Rightarrow> string result" where
  "show_children ctx [] = Inr []"
| "show_children ctx [c] = show_child ctx c"
| "show_children ctx (c # d # cs) =
     bindR (show_child ctx c) (\<lambda>s. bindR (show_children ctx (d # cs)) (\<lambda>t. Inr (s @ '', '' @ t)))"

definition DebugShow :: "Context \<Rightarrow> PlainRule \<Rightarrow> string result" where
  "DebugShow ctx r =
     bindR (show_children ctx (children r)) (\<lambda>res.
     bindR (NTIDToString ctx (nonterm r)) (\<lambda>nt. Inr (nt @ '' => '' @ res)))"

section \<open>Registration\<close>

definition AquireNTID :: "Context \<Rightarrow> string \<Rightarrow> NTermID \<times> Context" where
  "AquireNTID ctx nt =
     (let next_id = length (nt_ids_to_name ctx);
          ctx1 = (case names_to_nt_id ctx nt of
                    None \<Rightarrow> ctx\<lparr>names_to_nt_id := (names_to_nt_id ctx)(nt \<mapsto> next_id)\<rparr>
                  | Some _ \<Rightarrow> ctx);
          i = the (names_to_nt_id ctx1 nt);
          ctx2 = (case map_of (nt_ids_to_name ctx1) i of
                    None \<Rightarrow> ctx1\<lparr>nt_ids_to_name := AList.update i nt (nt_ids_to_name ctx1)\<rparr>
                  | Some _ \<Rightarrow> ctx1)
      in (i, ctx2))"

text \<open>\<open>RuleChild::RuleChild(nt, ctx)\<close> and the loop of \<open>Rule::Tokenize\<close>.\<close>

definition RuleChild_nt :: "string \<Rightarrow> Context \<Rightarrow> (RuleChild \<times> Context) result" where
  "RuleChild_nt nt ctx =
     bindR (SplitNTDescription nt) (\<lambda>name.
       case AquireNTID ctx name of (i, ctx') \<Rightarrow> Inr (NTerm i, ctx'))"

fun tokens_to_children :: "token list \<Rightarrow> Context \<Rightarrow> (RuleChild list \<times> Context) result" where
  "tokens_to_children [] ctx = Inr ([], ctx)"
| "tokens_to_children (TokNT m # ts) ctx =
     bindR (RuleChild_nt m ctx) (\<lambda>(c, ctx1).
     bindR (tokens_to_children ts ctx1) (\<lambda>(cs, ctx2). Inr (c # cs, ctx2)))"
| "tokens_to_children (TokLit m # ts) ctx =
     bindR (tokens_to_children ts ctx) (\<lambda>(cs, ctx2). Inr (Term (Unescape m) # cs, ctx2))"

definition Tokenize :: "string \<Rightarrow> Context \<Rightarrow> (RuleChild list \<times> Context) result" where
  "Tokenize format ctx = tokens_to_children (scan format) ctx"

text \<open>The constructor \<open>Rule::Rule(ctx, nonterm, format)\<close>.\<close>

definition Rule_new :: "Context \<Rightarrow> string \<Rightarrow> string \<Rightarrow> (PlainRule \<times> Context) result" where
  "Rule_new ctx nt format =
     bindR (Tokenize format ctx) (\<lambda>(cs, ctx1).
       case AquireNTID ctx1 nt of
         (i, ctx2) \<Rightarrow> Inr (\<lparr>nonterm = i, children = cs, nonterms = nonterms_of cs\<rparr>, ctx2))"

definition AddRule :: "Context \<Rightarrow> string \<Rightarrow> string \<Rightarrow> (RuleID \<times> Context) result" where
  "AddRule ctx nt format =
     (let rid = length (rules ctx) in
      case AquireNTID ctx nt of (ntid, ctx1) \<Rightarrow>
        bindR (Rule_new ctx1 nt format) (\<lambda>(rule, ctx2).
          let ctx3 = ctx2\<lparr>rules := rules ctx2 @ [rule]\<rparr>;
              old = (case nts_to_rules ctx3 ntid of None \<Rightarrow> [] | Some rs \<Rightarrow> rs)
          in Inr (rid, ctx3\<lparr>nts_to_rules := (nts_to_rules ctx3)(ntid \<mapsto> old @ [rid])\<rparr>)))"

section \<open>Option counts\<close>

fun num_options_prod :: "(NTermID \<rightharpoonup> nat) \<Rightarrow> NTermID list \<Rightarrow> nat \<Rightarrow> nat" where
  "num_options_prod m [] res = res"
| "num_options_prod m (nt # nts) res =
     (let v = (case m nt of None \<Rightarrow> 1 | Some v \<Rightarrow> v) in
      if size_max < res * v then size_max else num_options_prod m nts (res * v))"

definition CalcNumOptionsForRule :: "Context \<Rightarrow> RuleID \<Rightarrow> nat result" where
  "CalcNumOptionsForRule ctx r =
     bindR (GetRule ctx r) (\<lambda>rule. Inr (num_options_prod (nts_to_num_options ctx) (nonterms rule) 1))"

text \<open>One iteration of the inner \<open>for\<close> loop of \<open>CalcNumOptions\<close>, and the loop itself.\<close>

definition num_options_visit :: "Context \<Rightarrow> bool \<Rightarrow> RuleID \<Rightarrow> (Context \<times> bool) result" where
  "num_options_visit ctx changed rid =
     bindR (CalcNumOptionsForRule ctx rid) (\<lambda>num.
     bindR (GetRule ctx rid) (\<lambda>rule.
       let nt = nonterm rule;
           m = nts_to_num_options ctx;
           m1 = (case m nt of None \<Rightarrow> m(nt \<mapsto> num) | Some _ \<Rightarrow> m);
           upd = (the (m1 nt) < num);
           m2 = (if upd then m1(nt \<mapsto> num) else m1)
       in Inr (ctx\<lparr>nts_to_num_options := m2,
                   rules_to_num_options := (rules_to_num_options ctx)(rid \<mapsto> num)\<rparr>,
               changed \<or> upd)))"

fun num_options_pass :: "Context \<Rightarrow> bool \<Rightarrow> RuleID list \<Rightarrow> (Context \<times> bool) result" where
  "num_options_pass ctx changed [] = Inr (ctx, changed)"
| "num_options_pass ctx changed (r # rs) =
     bindR (num_options_visit ctx changed r) (\<lambda>(ctx', changed'). num_options_pass ctx' changed' rs)"

section \<open>Minimal lengths\<close>

fun min_len_sum :: "(NTermID \<rightharpoonup> nat) \<Rightarrow> NTermID list \<Rightarrow> nat \<Rightarrow> nat option" where
  "min_len_sum m [] res = Some res"
| "min_len_sum m (nt # nts) res =
     (case m nt of None \<Rightarrow> None | Some v \<Rightarrow> min_len_sum m nts (res + v))"

definition CalcMinLenForRule :: "Context \<Rightarrow> RuleID \<Rightarrow> nat option result" where
  "CalcMinLenForRule ctx r =
     bindR (GetRule ctx r) (\<lambda>rule. Inr (min_len_sum (nts_to_min_size ctx) (nonterms rule) 1))"

text \<open>The predicate of \<open>std::remove_if\<close> in \<open>CalcMinLen\<close>, with its side effects on the context.\<close>

definition min_len_visit :: "Context \<Rightarrow> bool \<Rightarrow> RuleID \<Rightarrow> (Context \<times> bool \<times> bool) result" where
  "min_len_visit ctx changed rid =
     bindR (CalcMinLenForRule ctx rid) (\<lambda>o_min.
       case o_min of
         None \<Rightarrow> Inr (ctx, changed, False)
       | Some mn \<Rightarrow>
           bindR (GetRule ctx rid) (\<lambda>rule.
             let nt = nonterm rule;
                 m = nts_to_min_size ctx;
                 m1 = (case m nt of None \<Rightarrow> m(nt \<mapsto> mn) | Some _ \<Rightarrow> m);
                 upd = (mn < the (m1 nt));
                 m2 = (if upd then m1(nt \<mapsto> mn) else m1)
             in Inr (ctx\<lparr>nts_to_min_size := m2,
                         rules_to_min_size := (rules_to_min_size ctx)(rid \<mapsto> mn)\<rparr>,
                     changed \<or> upd, True)))"

text \<open>\<open>std::remove_if\<close> and \<open>erase\<close>: one pass over the unknown rules, keeping those still unknown.\<close>

fun min_len_pass :: "Context \<Rightarrow> bool \<Rightarrow> RuleID list \<Rightarrow> (Context \<times> bool \<times> RuleID list) result" where
  "min_len_pass ctx changed [] = Inr (ctx, changed, [])"
| "min_len_pass ctx changed (r # rs) =
     bindR (min_len_visit ctx changed r) (\<lambda>(ctx', changed', known).
     bindR (min_len_pass ctx' changed' rs) (\<lambda>(ctx'', changed'', unknown).
       Inr (ctx'', changed'', if known then unknown else r # unknown)))"


lemma min_len_pass_length:
  "min_len_pass ctx ch rs = Inr (ctx', ch', unk) \<Longrightarrow> length unk \<le> length rs"
  by (induction ctx ch rs arbitrary: ctx' ch' unk rule: min_len_pass.induct)
     (fastforce simp: bindR_eq_Inr split: if_splits)+

text \<open>The inner \<open>while\<close> loop; every pass removes a rule or the grammar is broken.\<close>

function min_len_inner :: "Context \<Rightarrow> bool \<Rightarrow> RuleID list \<Rightarrow> (Context \<times> bool) result" where
  "min_len_inner ctx changed unknown =
     (if unknown = [] then Inr (ctx, changed)
      else bindR (min_len_pass ctx changed unknown) (\<lambda>(ctx', changed', unknown').
             if length unknown' = length unknown then Inl (RuntimeError ''Broken grammar'')
             else min_len_inner ctx' changed' unknown'))"
  by pat_completeness auto
termination
  by (relation "measure (\<lambda>(ctx, ch, unk). length unk)")
     (auto dest: min_len_pass_length simp: le_neq_implies_less)

declare min_len_inner.simps [simp del]

text \<open>
  \<open>min_refines rls m m'\<close>: from \<open>m\<close> to \<open>m'\<close>, known lengths stay known and only go down, and only entries
  of nonterminals that have a rule are touched. It orders the states of both loops.
\<close>

definition min_refines :: "PlainRule list \<Rightarrow> (NTermID \<rightharpoonup> nat) \<Rightarrow> (NTermID \<rightharpoonup> nat) \<Rightarrow> bool" where
  "min_refines rls m m' \<longleftrightarrow>
     (\<forall>k v. m k = Some v \<longrightarrow> (\<exists>v'. m' k = Some v' \<and> v' \<le> v)) \<and>
     (\<forall>k. k \<notin> nonterm ` set rls \<longrightarrow> m' k = m k)"

lemma min_refines_refl [simp]: "min_refines rls m m"
  by (simp add: min_refines_def)

lemma min_refines_trans: "min_refines rls m m' \<Longrightarrow> min_refines rls m' m'' \<Longrightarrow> min_refines rls m m''"
  unfolding min_refines_def by (metis order_trans)

lemma min_refines_antisym:
  "min_refines rls m m' \<Longrightarrow> min_refines rls m' m'' \<Longrightarrow> m'' = m \<Longrightarrow> m' = m"
proof
  fix k
  assume 1: "min_refines rls m m'" and 2: "min_refines rls m' m''" and 3: "m'' = m"
  show "m' k = m k"
  proof (cases "m k")
    case None
    then show ?thesis
      using 2 3 unfolding min_refines_def by (metis not_Some_eq)
  next
    case (Some v)
    then obtain v' where "m' k = Some v'" "v' \<le> v"
      using 1 unfolding min_refines_def by blast
    then show ?thesis
      using 2 3 Some unfolding min_refines_def by fastforce
  qed
qed

text \<open>What a step of the computation does with the context, the flag and the lengths.\<close>

definition min_frame :: "Context \<Rightarrow> Context \<Rightarrow> bool" where
  "min_frame ctx ctx' \<longleftrightarrow>
     ctx' = ctx\<lparr>nts_to_min_size := nts_to_min_size ctx', rules_to_min_size := rules_to_min_size ctx'\<rparr>"

lemma min_frame_refl [simp]: "min_frame ctx ctx"
  by (simp add: min_frame_def)

lemma min_frame_trans: "min_frame ctx ctx' \<Longrightarrow> min_frame ctx' ctx'' \<Longrightarrow> min_frame ctx ctx''"
  by (cases ctx; cases ctx'; cases ctx'') (simp add: min_frame_def)

lemma min_frame_rules: "min_frame ctx ctx' \<Longrightarrow> rules ctx' = rules ctx"
  by (cases ctx; cases ctx') (simp add: min_frame_def)

definition min_progress :: "Context \<Rightarrow> bool \<Rightarrow> Context \<Rightarrow> bool \<Rightarrow> bool" where
  "min_progress ctx ch ctx' ch' \<longleftrightarrow>
     min_frame ctx ctx' \<and>
     min_refines (rules ctx) (nts_to_min_size ctx) (nts_to_min_size ctx') \<and>
     (ch \<longrightarrow> ch') \<and>
     (ch' \<and> \<not> ch \<longrightarrow> nts_to_min_size ctx' \<noteq> nts_to_min_size ctx)"

lemma min_progress_refl [simp]: "min_progress ctx ch ctx ch"
  by (auto simp: min_progress_def)

lemma min_progress_trans:
  assumes 1: "min_progress ctx ch ctx' ch'" and 2: "min_progress ctx' ch' ctx'' ch''"
  shows "min_progress ctx ch ctx'' ch''"
proof -
  let ?m = nts_to_min_size
  have r: "rules ctx' = rules ctx"
    using 1 by (simp add: min_progress_def min_frame_rules)
  have ref: "min_refines (rules ctx) (?m ctx) (?m ctx')" "min_refines (rules ctx) (?m ctx') (?m ctx'')"
    using 1 2 r by (simp_all add: min_progress_def)
  have "?m ctx'' \<noteq> ?m ctx" if "ch''" "\<not> ch"
    using that 1 2 min_refines_antisym [OF ref] unfolding min_progress_def by metis
  moreover have "min_frame ctx ctx''"
    using 1 2 min_frame_trans unfolding min_progress_def by blast
  ultimately show ?thesis
    using 1 2 min_refines_trans [OF ref] unfolding min_progress_def by blast
qed

text \<open>The entry that a visit of a rule with minimal length \<open>mn\<close> leaves for its nonterminal.\<close>

definition min_upd :: "(NTermID \<rightharpoonup> nat) \<Rightarrow> NTermID \<Rightarrow> nat \<Rightarrow> (NTermID \<rightharpoonup> nat)" where
  "min_upd m nt mn = (case m nt of None \<Rightarrow> m(nt \<mapsto> mn) | Some v \<Rightarrow> if mn < v then m(nt \<mapsto> mn) else m)"

lemma min_upd_refines: "nt \<in> nonterm ` set rls \<Longrightarrow> min_refines rls m (min_upd m nt mn)"
  by (auto simp: min_refines_def min_upd_def split: option.splits)

lemma min_upd_changes: "m nt = Some v \<Longrightarrow> mn < v \<Longrightarrow> min_upd m nt mn \<noteq> m"
  by (auto simp: min_upd_def dest: fun_cong [of _ _ nt])

lemma min_len_visit_eq:
  "min_len_visit ctx ch rid =
     (case GetRule ctx rid of
        Inl e \<Rightarrow> Inl e
      | Inr rule \<Rightarrow>
          (case min_len_sum (nts_to_min_size ctx) (nonterms rule) 1 of
             None \<Rightarrow> Inr (ctx, ch, False)
           | Some mn \<Rightarrow>
               Inr (ctx\<lparr>nts_to_min_size := min_upd (nts_to_min_size ctx) (nonterm rule) mn,
                        rules_to_min_size := (rules_to_min_size ctx)(rid \<mapsto> mn)\<rparr>,
                    ch \<or> (\<exists>v. nts_to_min_size ctx (nonterm rule) = Some v \<and> mn < v), True)))"
  by (simp add: min_len_visit_def CalcMinLenForRule_def min_upd_def Let_def
        split: sum.split option.split)

lemma min_len_visit_progress:
  assumes "min_len_visit ctx ch rid = Inr (ctx', ch', known)"
  shows "min_progress ctx ch ctx' ch'"
proof (cases known)
  case False
  with assms show ?thesis
    by (simp add: min_len_visit_eq split: option.splits sum.splits)
next
  case True
  with assms obtain mn rule where rule: "GetRule ctx rid = Inr rule" and
    c': "ctx' = ctx\<lparr>nts_to_min_size := min_upd (nts_to_min_size ctx) (nonterm rule) mn,
        rules_to_min_size := (rules_to_min_size ctx)(rid \<mapsto> mn)\<rparr>" and
    ch': "ch' \<longleftrightarrow> ch \<or> (\<exists>v. nts_to_min_size ctx (nonterm rule) = Some v \<and> mn < v)"
    by (clarsimp simp: min_len_visit_eq split: option.splits sum.splits)
  have "nonterm rule \<in> nonterm ` set (rules ctx)"
    using rule by (auto simp: GetRule_def)
  then show ?thesis
    unfolding c' ch' min_progress_def min_frame_def
    using min_upd_changes [of "nts_to_min_size ctx" "nonterm rule" _ mn]
    by (auto simp: min_upd_refines)
qed

lemma min_len_pass_progress:
  "min_len_pass ctx ch rs = Inr (ctx', ch', unk) \<Longrightarrow> min_progress ctx ch ctx' ch'"
proof (induction ctx ch rs arbitrary: ctx' ch' unk rule: min_len_pass.induct)
  case (2 ctx ch r rs)
  then obtain c1 ch1 kn u where v: "min_len_visit ctx ch r = Inr (c1, ch1, kn)"
    and p: "min_len_pass c1 ch1 rs = Inr (ctx', ch', u)"
    by (auto simp: bindR_eq_Inr)
  show ?case
    using min_progress_trans [OF min_len_visit_progress [OF v]] 2 v p by fastforce
qed simp

lemma min_len_inner_progress:
  "min_len_inner ctx ch unk = Inr (ctx', ch') \<Longrightarrow> min_progress ctx ch ctx' ch'"
proof (induction ctx ch unk rule: min_len_inner.induct)
  case (1 ctx ch unk)
  show ?case
  proof (cases "unk = []")
    case True
    with 1 show ?thesis by (simp add: min_len_inner.simps)
  next
    case False
    with 1(2) obtain c1 ch1 u where p: "min_len_pass ctx ch unk = Inr (c1, ch1, u)"
      and l: "length u \<noteq> length unk" and i: "min_len_inner c1 ch1 u = Inr (ctx', ch')"
      by (subst (asm) min_len_inner.simps) (auto simp: bindR_eq_Inr split: if_splits)
    show ?thesis
      by (rule min_progress_trans [OF min_len_pass_progress [OF p] 1(1) [OF False p refl refl l i]])
  qed
qed

text \<open>
  The outer loop repeats while a length went down. It terminates: each further round makes a
  nonterminal known or lowers a known length.
\<close>

definition unknown_nts :: "Context \<Rightarrow> nat" where
  "unknown_nts ctx = card {k \<in> nonterm ` set (rules ctx). nts_to_min_size ctx k = None}"

definition known_total :: "Context \<Rightarrow> nat" where
  "known_total ctx =
     (\<Sum>k \<in> nonterm ` set (rules ctx). case nts_to_min_size ctx k of None \<Rightarrow> 0 | Some v \<Rightarrow> v)"

lemma min_progress_decreases:
  assumes "min_progress ctx False ctx' True"
  shows "(ctx', ctx) \<in> measures [unknown_nts, known_total]"
proof -
  let ?m = "nts_to_min_size ctx" and ?m' = "nts_to_min_size ctx'"
  let ?K = "nonterm ` set (rules ctx)"
  have rules: "rules ctx' = rules ctx" and ref: "min_refines (rules ctx) ?m ?m'" and ne: "?m' \<noteq> ?m"
    using assms by (auto simp: min_progress_def min_frame_rules)
  obtain k where k: "?m' k \<noteq> ?m k" "k \<in> ?K"
    using ref ne unfolding min_refines_def by blast
  have sub: "{k \<in> ?K. ?m' k = None} \<subseteq> {k \<in> ?K. ?m k = None}"
    using ref unfolding min_refines_def by force
  show ?thesis
  proof (cases "{k \<in> ?K. ?m' k = None} = {k \<in> ?K. ?m k = None}")
    case False
    with sub have "unknown_nts ctx' < unknown_nts ctx"
      unfolding unknown_nts_def rules by (intro psubset_card_mono) auto
    then show ?thesis by simp
  next
    case True
    have same: "?m' j = None \<longleftrightarrow> ?m j = None" if "j \<in> ?K" for j
      using arg_cong [OF True, of "\<lambda>S. j \<in> S"] that by simp
    have "known_total ctx' < known_total ctx"
      unfolding known_total_def rules
    proof (rule sum_strict_mono_ex1)
      show "\<forall>j\<in>?K. (case ?m' j of None \<Rightarrow> 0 | Some v \<Rightarrow> v) \<le> (case ?m j of None \<Rightarrow> 0 | Some v \<Rightarrow> v)"
        using ref same unfolding min_refines_def by (fastforce split: option.splits)
      show "\<exists>j\<in>?K. (case ?m' j of None \<Rightarrow> 0 | Some v \<Rightarrow> v) < (case ?m j of None \<Rightarrow> 0 | Some v \<Rightarrow> v)"
        using k ref same [OF k(2)] unfolding min_refines_def
        by (intro bexI [OF _ k(2)]) (fastforce split: option.splits)
    qed simp
    with True show ?thesis
      by (simp add: unknown_nts_def rules)
  qed
qed

function CalcMinLen_loop :: "Context \<Rightarrow> Context result" where
  "CalcMinLen_loop ctx =
     bindR (min_len_inner ctx False [0..<length (rules ctx)]) (\<lambda>(ctx', changed).
       if changed then CalcMinLen_loop ctx' else Inr ctx')"
  by pat_completeness auto
termination
  by (relation "measures [unknown_nts, known_total]")
     (auto dest!: min_len_inner_progress min_progress_decreases)

declare CalcMinLen_loop.simps [simp del]

text \<open>
  \<open>CalcRuleOrder\<close>: every rule list is sorted by the minimal size of its rules. \<open>CalcMinLen\<close> calls it
  when every rule has one, so that the \<open>at\<close> of the comparator finds it.
\<close>

definition CalcRuleOrder :: "Context \<Rightarrow> Context" where
  "CalcRuleOrder ctx =
     ctx\<lparr>nts_to_rules :=
       (\<lambda>nt. map_option (sort_key (\<lambda>r. the (rules_to_min_size ctx r))) (nts_to_rules ctx nt))\<rparr>"

definition CalcMinLen :: "Context \<Rightarrow> Context result" where
  "CalcMinLen ctx = bindR (CalcMinLen_loop ctx) (\<lambda>ctx'. Inr (CalcRuleOrder ctx'))"


section \<open>The fixpoint of the option counts\<close>

text \<open>The counts only go up and never beyond \<open>size_max\<close>.\<close>

lemma num_options_prod_le: "res \<le> size_max \<Longrightarrow> num_options_prod m nts res \<le> size_max"
  by (induction m nts res rule: num_options_prod.induct) (auto simp: Let_def)

definition options_room :: "Context \<Rightarrow> NTermID \<Rightarrow> nat" where
  "options_room ctx nt =
     (case nts_to_num_options ctx nt of None \<Rightarrow> Suc size_max | Some v \<Rightarrow> size_max - v)"

definition options_rank :: "Context \<Rightarrow> nat" where
  "options_rank ctx = (\<Sum>nt \<in> nonterm ` set (rules ctx). options_room ctx nt)"

definition options_frame :: "Context \<Rightarrow> Context \<Rightarrow> bool" where
  "options_frame ctx ctx' \<longleftrightarrow>
     ctx' = ctx\<lparr>nts_to_num_options := nts_to_num_options ctx',
                rules_to_num_options := rules_to_num_options ctx'\<rparr>"

lemma options_frame_refl [simp]: "options_frame ctx ctx"
  by (simp add: options_frame_def)

lemma options_frame_trans: "options_frame ctx ctx' \<Longrightarrow> options_frame ctx' ctx'' \<Longrightarrow> options_frame ctx ctx''"
  by (cases ctx; cases ctx'; cases ctx'') (simp add: options_frame_def)

lemma options_frame_fields:
  "options_frame ctx ctx' \<Longrightarrow> rules ctx' = rules ctx"
  "options_frame ctx ctx' \<Longrightarrow> nts_to_rules ctx' = nts_to_rules ctx"
  "options_frame ctx ctx' \<Longrightarrow> nt_ids_to_name ctx' = nt_ids_to_name ctx"
  "options_frame ctx ctx' \<Longrightarrow> names_to_nt_id ctx' = names_to_nt_id ctx"
  "options_frame ctx ctx' \<Longrightarrow> rules_to_min_size ctx' = rules_to_min_size ctx"
  "options_frame ctx ctx' \<Longrightarrow> nts_to_min_size ctx' = nts_to_min_size ctx"
  by (cases ctx; cases ctx'; simp add: options_frame_def)+

definition options_progress :: "Context \<Rightarrow> bool \<Rightarrow> Context \<Rightarrow> bool \<Rightarrow> bool" where
  "options_progress ctx ch ctx' ch' \<longleftrightarrow>
     options_frame ctx ctx' \<and> options_rank ctx' \<le> options_rank ctx \<and> (ch \<longrightarrow> ch') \<and>
     (ch' \<and> \<not> ch \<longrightarrow> options_rank ctx' < options_rank ctx)"

lemma options_progress_refl [simp]: "options_progress ctx ch ctx ch"
  by (simp add: options_progress_def)

lemma options_progress_trans:
  "options_progress ctx ch ctx' ch' \<Longrightarrow> options_progress ctx' ch' ctx'' ch'' \<Longrightarrow>
     options_progress ctx ch ctx'' ch''"
  unfolding options_progress_def using options_frame_trans [of ctx ctx' ctx''] by (metis le_less_trans less_le_trans order_trans)

definition options_upd :: "(NTermID \<rightharpoonup> nat) \<Rightarrow> NTermID \<Rightarrow> nat \<Rightarrow> (NTermID \<rightharpoonup> nat)" where
  "options_upd m nt num =
     (case m nt of None \<Rightarrow> m(nt \<mapsto> num) | Some v \<Rightarrow> if v < num then m(nt \<mapsto> num) else m)"

lemma num_options_visit_eq:
  "num_options_visit ctx ch rid =
     (case GetRule ctx rid of
        Inl e \<Rightarrow> Inl e
      | Inr rule \<Rightarrow>
          (let num = num_options_prod (nts_to_num_options ctx) (nonterms rule) 1 in
           Inr (ctx\<lparr>nts_to_num_options := options_upd (nts_to_num_options ctx) (nonterm rule) num,
                    rules_to_num_options := (rules_to_num_options ctx)(rid \<mapsto> num)\<rparr>,
                ch \<or> (\<exists>v. nts_to_num_options ctx (nonterm rule) = Some v \<and> v < num))))"
  by (simp add: num_options_visit_def CalcNumOptionsForRule_def options_upd_def Let_def
        split: sum.split option.split)

lemma num_options_visit_progress:
  assumes "num_options_visit ctx ch rid = Inr (ctx', ch')"
  shows "options_progress ctx ch ctx' ch'"
proof -
  obtain rule where rule: "GetRule ctx rid = Inr rule"
    using assms by (auto simp: num_options_visit_eq split: sum.splits)
  define num where "num = num_options_prod (nts_to_num_options ctx) (nonterms rule) 1"
  define K where "K = nonterm ` set (rules ctx)"
  have num: "num \<le> size_max"
    unfolding num_def by (rule num_options_prod_le) (simp add: size_max_def)
  have c': "ctx' = ctx\<lparr>nts_to_num_options := options_upd (nts_to_num_options ctx) (nonterm rule) num,
      rules_to_num_options := (rules_to_num_options ctx)(rid \<mapsto> num)\<rparr>" and
    ch': "ch' \<longleftrightarrow> ch \<or> (\<exists>v. nts_to_num_options ctx (nonterm rule) = Some v \<and> v < num)"
    using assms rule by (simp_all add: num_options_visit_eq num_def Let_def)
  have nt: "nonterm rule \<in> K"
    using rule by (auto simp: GetRule_def K_def)
  have le: "options_room ctx' k \<le> options_room ctx k" for k
    using num by (auto simp: c' options_room_def options_upd_def split: option.splits)
  have lt: "options_room ctx' (nonterm rule) < options_room ctx (nonterm rule)" if "ch'" "\<not> ch"
    using that num by (auto simp: ch' c' options_room_def options_upd_def split: option.splits)
  have "options_rank ctx' \<le> options_rank ctx"
    using le by (auto simp: options_rank_def c' intro: sum_mono)
  moreover have "options_rank ctx' < options_rank ctx" if "ch'" "\<not> ch"
  proof -
    have "rules ctx' = rules ctx" by (simp add: c')
    moreover have "sum (options_room ctx') K < sum (options_room ctx) K"
      using le lt [OF that] nt by (intro sum_strict_mono_ex1) (auto simp: K_def)
    ultimately show ?thesis by (simp add: options_rank_def K_def)
  qed
  ultimately show ?thesis
    using ch' by (auto simp: options_progress_def options_frame_def c')
qed

lemma num_options_pass_progress:
  "num_options_pass ctx ch rs = Inr (ctx', ch') \<Longrightarrow> options_progress ctx ch ctx' ch'"
proof (induction ctx ch rs rule: num_options_pass.induct)
  case (2 ctx ch r rs)
  then obtain c1 ch1 where v: "num_options_visit ctx ch r = Inr (c1, ch1)"
    and p: "num_options_pass c1 ch1 rs = Inr (ctx', ch')"
    by (auto simp: bindR_eq_Inr)
  show ?case
    using options_progress_trans [OF num_options_visit_progress [OF v]] 2 v p by fastforce
qed simp

function CalcNumOptions_loop :: "Context \<Rightarrow> Context result" where
  "CalcNumOptions_loop ctx =
     bindR (num_options_pass ctx False [0..<length (rules ctx)]) (\<lambda>(ctx', changed).
       if changed then CalcNumOptions_loop ctx' else Inr ctx')"
  by pat_completeness auto
termination
  by (relation "measure options_rank")
     (auto dest!: num_options_pass_progress simp: options_progress_def)

declare CalcNumOptions_loop.simps [simp del]

definition CalcNumOptions :: "Context \<Rightarrow> Context result" where
  "CalcNumOptions ctx =
     CalcNumOptions_loop
       (ctx\<lparr>nts_to_num_options :=
          (\<lambda>nt. case nts_to_num_options ctx nt of
                  None \<Rightarrow> map_option length (nts_to_rules ctx nt)
                | Some v \<Rightarrow> Some v)\<rparr>)"

definition Initialize :: "Context \<Rightarrow> nat \<Rightarrow> Context result" where
  "Initialize ctx mlen =
     bindR (CalcMinLen ctx) (\<lambda>ctx1.
     bindR (CalcNumOptions ctx1) (\<lambda>ctx2. Inr (ctx2\<lparr>max_len := mlen + 2\<rparr>)))"

section \<open>Random choices\<close>

text \<open>
  \<open>GetRandomLen\<close> draws \<open>number_of_children - 1\<close> proposals from \<open>[0, total_remaining_len + 1]\<close> and takes the
  smallest of them and the remaining length.
\<close>

fun random_len_loop :: "nat \<Rightarrow> nat \<Rightarrow> nat \<Rightarrow> rng \<Rightarrow> nat \<times> rng" where
  "random_len_loop 0 tlen res rs = (res, rs)"
| "random_len_loop (Suc i) tlen res rs =
     (case Random 0 (tlen + 1) rs of
        (proposal, rs') \<Rightarrow> random_len_loop i tlen (if proposal < res then proposal else res) rs')"

definition GetRandomLen :: "nat \<Rightarrow> nat \<Rightarrow> rng \<Rightarrow> nat \<times> rng" where
  "GetRandomLen number_of_children tlen rs =
     random_len_loop (number_of_children - 1) tlen tlen rs"

fun applicable_loop :: "Context \<Rightarrow> nat \<Rightarrow> nat \<Rightarrow> RuleID list \<Rightarrow> rng \<Rightarrow> (RuleID list \<times> rng) result" where
  "applicable_loop ctx mlen p [] rs = Inr ([], rs)"
| "applicable_loop ctx mlen p (rid # rids) rs =
     bindR (at_map (rules_to_min_size ctx) rid) (\<lambda>mn.
       if mlen < mn then Inr ([], rs)
       else bindR (at_map (rules_to_num_options ctx) rid) (\<lambda>opts.
         if 1 < opts then
           bindR (applicable_loop ctx mlen p rids rs) (\<lambda>(res, rs'). Inr (rid # res, rs'))
         else (case Random 0 99 rs of (d, rs1) \<Rightarrow>
           bindR (applicable_loop ctx mlen p rids rs1) (\<lambda>(res, rs').
             Inr (if d \<le> p then rid # res else res, rs')))))"

definition GetApplicableRules :: "Context \<Rightarrow> nat \<Rightarrow> NTermID \<Rightarrow> nat \<Rightarrow> rng \<Rightarrow> (RuleID list \<times> rng) result" where
  "GetApplicableRules ctx mlen nt p rs =
     bindR (at_map (nts_to_rules ctx) nt) (\<lambda>rids. applicable_loop ctx mlen p rids rs)"

definition GetRandomRuleForNT :: "Context \<Rightarrow> NTermID \<Rightarrow> nat \<Rightarrow> rng \<Rightarrow> (RuleID \<times> rng) result" where
  "GetRandomRuleForNT ctx nt mlen rs =
     bindR (at_map (nts_to_num_options ctx) nt) (\<lambda>opts.
       let p = (if opts < 10 then 100 * 0 else if 100 < mlen then 2 * 0
                else if 20 < mlen then 50 * 0 else 100 * 0)
       in bindR (GetApplicableRules ctx mlen nt p rs) (\<lambda>(ar, rs1).
            if 0 < length ar then Choose ar rs1
            else bindR (GetApplicableRules ctx mlen nt 100 rs1) (\<lambda>(ar2, rs2).
              if 0 < length ar2 then Choose ar2 rs2
              else bindR (NTIDToString ctx nt) (\<lambda>name.
                Inl (RuntimeError (''There is no way to derive '' @ name))))))"

end
