(* ===== verification/Nautilus_Derivation.thy ===== *)
theory Nautilus_Derivation
  imports Nautilus_Context
begin

text \<open>
  The specification side of the Nautilus grammar engine: derivation trees of a grammar, and the proof
  that the fixpoint computations of \<open>Context::Initialize\<close> compute what they are meant to, the size of
  a smallest derivation tree of every nonterminal, and fail exactly for grammars with an unproductive
  rule.
\<close>

section \<open>Derivation trees\<close>

datatype dtree = DNode (label: RuleIDOrCustom) (kids: "dtree list")

fun derives :: "PlainRule list \<Rightarrow> NTermID \<Rightarrow> dtree \<Rightarrow> bool"
  and derives_list :: "PlainRule list \<Rightarrow> NTermID list \<Rightarrow> dtree list \<Rightarrow> bool" where
  "derives rls nt (DNode l ts) \<longleftrightarrow>
     ID l < length rls \<and> nonterm (rls ! ID l) = nt \<and> derives_list rls (nonterms (rls ! ID l)) ts"
| "derives_list rls [] [] \<longleftrightarrow> True"
| "derives_list rls (nt # nts) (t # ts) \<longleftrightarrow> derives rls nt t \<and> derives_list rls nts ts"
| "derives_list rls _ _ \<longleftrightarrow> False"

text \<open>The rules of a tree in preorder, which is how \<open>Tree\<close> stores it.\<close>

fun preorder :: "dtree \<Rightarrow> RuleIDOrCustom list"
  and preorders :: "dtree list \<Rightarrow> RuleIDOrCustom list" where
  "preorder (DNode l ts) = l # preorders ts"
| "preorders [] = []"
| "preorders (t # ts) = preorder t @ preorders ts"

definition dsize :: "dtree \<Rightarrow> nat" where
  "dsize t = length (preorder t)"

lemma dsize_DNode: "dsize (DNode l ts) = Suc (sum_list (map dsize ts))"
proof -
  have "length (preorders ts) = sum_list (map dsize ts)" for ts
    by (induction ts) (simp_all add: dsize_def)
  then show ?thesis by (simp add: dsize_def)
qed

lemma dsize_pos [simp]: "0 < dsize t"
  by (cases t) (simp add: dsize_DNode)

lemma preorder_not_Nil [simp]: "preorder t \<noteq> []"
  by (cases t) simp

lemma length_preorders: "length (preorders ts) = sum_list (map dsize ts)"
  by (induction ts) (simp_all add: dsize_def)

lemma preorders_append [simp]: "preorders (ts @ us) = preorders ts @ preorders us"
  by (induction ts) simp_all

lemma derives_list_length: "derives_list rls nts ts \<Longrightarrow> length nts = length ts"
proof (induction nts arbitrary: ts)
  case Nil
  then show ?case by (cases ts) auto
next
  case (Cons a nts)
  then show ?case by (cases ts) auto
qed

lemma derives_list_Nil [simp]: "derives_list rls [] ts \<longleftrightarrow> ts = []"
  by (cases ts) auto

lemma derives_list_Cons [simp]:
  "derives_list rls (nt # nts) ts \<longleftrightarrow> (\<exists>u us. ts = u # us \<and> derives rls nt u \<and> derives_list rls nts us)"
  by (cases ts) auto

definition productive_nt :: "PlainRule list \<Rightarrow> NTermID \<Rightarrow> bool" where
  "productive_nt rls nt \<longleftrightarrow> (\<exists>t. derives rls nt t)"

definition productive_rule :: "PlainRule list \<Rightarrow> PlainRule \<Rightarrow> bool" where
  "productive_rule rls r \<longleftrightarrow> (\<forall>nt \<in> set (nonterms r). productive_nt rls nt)"

lemma derives_list_ex:
  "(\<And>nt. nt \<in> set nts \<Longrightarrow> \<exists>t. derives rls nt t \<and> P nt t) \<Longrightarrow>
     \<exists>ts. derives_list rls nts ts \<and> list_all2 P nts ts"
proof (induction nts)
  case (Cons nt nts)
  from Cons.prems obtain t where "derives rls nt t" "P nt t" by auto
  moreover from Cons obtain ts where "derives_list rls nts ts" "list_all2 P nts ts" by fastforce
  ultimately show ?case by (intro exI [of _ "t # ts"]) auto
qed simp

section \<open>Sums of minimal lengths\<close>

lemma min_len_sum_Some:
  "min_len_sum m nts res = Some v \<longleftrightarrow>
     (\<forall>nt \<in> set nts. m nt \<noteq> None) \<and> v = res + sum_list (map (\<lambda>nt. the (m nt)) nts)"
  by (induction nts arbitrary: res) (auto split: option.splits)

lemma min_len_sum_None: "min_len_sum m nts res = None \<longleftrightarrow> (\<exists>nt \<in> set nts. m nt = None)"
  by (induction nts arbitrary: res) (auto split: option.splits)

lemma min_len_sum_cong:
  "(\<And>nt. nt \<in> set nts \<Longrightarrow> m' nt = m nt) \<Longrightarrow> min_len_sum m' nts res = min_len_sum m nts res"
  by (induction nts arbitrary: res) (auto split: option.splits)

lemma min_len_sum_le:
  assumes "map_le m m'" and "min_len_sum m nts res = Some v"
  shows "min_len_sum m' nts res = Some v"
proof -
  have "m' nt = m nt" if "nt \<in> set nts" for nt
    using assms that unfolding map_le_def min_len_sum_Some by (auto simp: dom_def)
  then show ?thesis
    using assms(2) min_len_sum_cong [of nts m' m res] by simp
qed

section \<open>Every length is attained\<close>

definition attained :: "PlainRule list \<Rightarrow> (NTermID \<rightharpoonup> nat) \<Rightarrow> bool" where
  "attained rls m \<longleftrightarrow> (\<forall>nt v. m nt = Some v \<longrightarrow> (\<exists>t. derives rls nt t \<and> dsize t = v))"

lemma attained_sum:
  assumes "attained rls m" and "min_len_sum m nts 1 = Some v"
  shows "\<exists>ts. derives_list rls nts ts \<and> Suc (sum_list (map dsize ts)) = v"
proof -
  have "\<exists>ts. derives_list rls nts ts \<and> list_all2 (\<lambda>nt t. dsize t = the (m nt)) nts ts"
    using assms unfolding attained_def min_len_sum_Some by (intro derives_list_ex) fastforce
  then obtain ts where "derives_list rls nts ts" and "map dsize ts = map (\<lambda>nt. the (m nt)) nts"
    by (auto simp: list_all2_conv_all_nth list_eq_iff_nth_eq)
  then show ?thesis
    using assms unfolding min_len_sum_Some by (metis add.commute plus_1_eq_Suc)
qed

lemma attained_upd:
  assumes "attained rls m" and "rid < length rls"
    and "min_len_sum m (nonterms (rls ! rid)) 1 = Some mn"
  shows "attained rls (min_upd m (nonterm (rls ! rid)) mn)"
proof -
  obtain ts where "derives_list rls (nonterms (rls ! rid)) ts" "Suc (sum_list (map dsize ts)) = mn"
    using attained_sum [OF assms(1,3)] by blast
  then have "\<exists>t. derives rls (nonterm (rls ! rid)) t \<and> dsize t = mn"
    using assms(2) by (intro exI [of _ "DNode (PlainID rid) ts"]) (simp add: dsize_DNode)
  then show ?thesis
    using assms(1) by (auto simp: attained_def min_upd_def split: option.splits)
qed

lemma min_len_visit_attained:
  "min_len_visit ctx ch rid = Inr (ctx', ch', known) \<Longrightarrow> attained (rules ctx) (nts_to_min_size ctx) \<Longrightarrow>
     attained (rules ctx) (nts_to_min_size ctx')"
  by (auto simp: min_len_visit_eq GetRule_def intro: attained_upd simp del: One_nat_def
        split: sum.splits option.splits)

lemma min_len_pass_attained:
  "min_len_pass ctx ch rs = Inr (ctx', ch', unk) \<Longrightarrow> attained (rules ctx) (nts_to_min_size ctx) \<Longrightarrow>
     attained (rules ctx) (nts_to_min_size ctx')"
proof (induction ctx ch rs arbitrary: ctx' ch' unk rule: min_len_pass.induct)
  case (2 ctx ch r rs)
  then obtain c1 ch1 kn u where v: "min_len_visit ctx ch r = Inr (c1, ch1, kn)"
    and p: "min_len_pass c1 ch1 rs = Inr (ctx', ch', u)"
    by (auto simp: bindR_eq_Inr)
  have "rules c1 = rules ctx"
    using min_len_visit_progress [OF v] by (simp add: min_progress_def min_frame_rules)
  then show ?case
    using 2 v p min_len_visit_attained [OF v] by fastforce
qed simp


lemma min_len_inner_attained:
  "min_len_inner ctx ch unk = Inr (ctx', ch') \<Longrightarrow> attained (rules ctx) (nts_to_min_size ctx) \<Longrightarrow>
     attained (rules ctx) (nts_to_min_size ctx')"
proof (induction ctx ch unk rule: min_len_inner.induct)
  case (1 ctx ch unk)
  show ?case
  proof (cases "unk = []")
    case True
    with 1 show ?thesis by (simp add: min_len_inner.simps)
  next
    case False
    with 1(2) obtain c1 ch1 u where p: "min_len_pass ctx ch unk = Inr (c1, ch1, u)"
      and l: "length u \<noteq> length unk" and i: "min_len_inner c1 ch1 u = Inr (ctx', ch')"
      by (subst (asm) min_len_inner.simps) (auto simp: bindR_eq_Inr split: if_splits)
    have "rules c1 = rules ctx"
      using min_len_pass_progress [OF p] by (simp add: min_progress_def min_frame_rules)
    then show ?thesis
      using 1(1) [OF False p refl refl l i] min_len_pass_attained [OF p 1(3)] by simp
  qed
qed

section \<open>A round without a change settles every rule\<close>

definition settled :: "Context \<Rightarrow> RuleID \<Rightarrow> bool" where
  "settled ctx r \<longleftrightarrow>
     (\<exists>mn v. min_len_sum (nts_to_min_size ctx) (nonterms (rules ctx ! r)) 1 = Some mn \<and>
        nts_to_min_size ctx (nonterm (rules ctx ! r)) = Some v \<and> v \<le> mn \<and>
        rules_to_min_size ctx r = Some mn)"

lemma min_upd_map_le:
  "\<not> (\<exists>v. m nt = Some v \<and> mn < v) \<Longrightarrow> map_le m (min_upd m nt mn)"
  by (auto simp: min_upd_def map_le_def split: option.splits)

lemma min_len_visit_settled:
  assumes v: "min_len_visit ctx ch rid = Inr (ctx', False, known)" and s: "settled ctx r"
  shows "settled ctx' r"
proof (cases known)
  case False
  with assms show ?thesis by (simp add: min_len_visit_eq split: sum.splits option.splits)
next
  case True
  with v obtain mn where rid: "rid < length (rules ctx)"
    and mn: "min_len_sum (nts_to_min_size ctx) (nonterms (rules ctx ! rid)) 1 = Some mn"
    and le: "map_le (nts_to_min_size ctx) (nts_to_min_size ctx')"
    and c': "rules ctx' = rules ctx" "rules_to_min_size ctx' = (rules_to_min_size ctx)(rid \<mapsto> mn)"
    by (auto simp: min_len_visit_eq GetRule_def min_upd_map_le simp del: One_nat_def
          split: sum.splits option.splits)
  from s obtain mr w where
    mr: "min_len_sum (nts_to_min_size ctx) (nonterms (rules ctx ! r)) 1 = Some mr"
    and w: "nts_to_min_size ctx (nonterm (rules ctx ! r)) = Some w" "w \<le> mr"
    and rm: "rules_to_min_size ctx r = Some mr"
    unfolding settled_def by blast
  have "min_len_sum (nts_to_min_size ctx') (nonterms (rules ctx ! r)) 1 = Some mr"
    by (rule min_len_sum_le [OF le mr])
  moreover have "nts_to_min_size ctx' (nonterm (rules ctx ! r)) = Some w"
    using le w(1) unfolding map_le_def by (metis domI)
  moreover have "rules_to_min_size ctx' r = Some mr"
    using mn mr rm by (auto simp: c')
  ultimately show ?thesis
    using w(2) unfolding settled_def c' by blast
qed

lemma min_len_visit_known:
  assumes v: "min_len_visit ctx ch rid = Inr (ctx', False, True)"
  shows "settled ctx' rid"
proof -
  from v obtain mn where rid: "rid < length (rules ctx)"
    and mn: "min_len_sum (nts_to_min_size ctx) (nonterms (rules ctx ! rid)) 1 = Some mn"
    and m': "nts_to_min_size ctx' = min_upd (nts_to_min_size ctx) (nonterm (rules ctx ! rid)) mn"
    and nu: "\<not> (\<exists>v. nts_to_min_size ctx (nonterm (rules ctx ! rid)) = Some v \<and> mn < v)"
    and c': "rules ctx' = rules ctx" "rules_to_min_size ctx' rid = Some mn"
    by (auto simp: min_len_visit_eq GetRule_def simp del: One_nat_def
          split: sum.splits option.splits)
  have "min_len_sum (nts_to_min_size ctx') (nonterms (rules ctx ! rid)) 1 = Some mn"
    unfolding m' by (rule min_len_sum_le [OF min_upd_map_le mn]) (rule nu)
  moreover have "\<exists>w. nts_to_min_size ctx' (nonterm (rules ctx ! rid)) = Some w \<and> w \<le> mn"
    using nu by (cases "nts_to_min_size ctx (nonterm (rules ctx ! rid))") (auto simp: m' min_upd_def)
  ultimately show ?thesis
    using c' by (auto simp: settled_def)
qed

lemma min_len_pass_settled:
  "min_len_pass ctx ch rs = Inr (ctx', False, unk) \<Longrightarrow>
     (\<forall>r. settled ctx r \<longrightarrow> settled ctx' r) \<and> (\<forall>r \<in> set rs. r \<in> set unk \<or> settled ctx' r)"
proof (induction ctx ch rs arbitrary: ctx' unk rule: min_len_pass.induct)
  case (2 ctx ch r rs)
  then obtain c1 ch1 kn u where v: "min_len_visit ctx ch r = Inr (c1, ch1, kn)"
    and p: "min_len_pass c1 ch1 rs = Inr (ctx', False, u)" and unk: "unk = (if kn then u else r # u)"
    by (auto simp: bindR_eq_Inr)
  have f: "\<not> ch1"
    using min_len_pass_progress [OF p] by (simp add: min_progress_def)
  note IH = "2.IH" [OF v refl refl p [folded v]]
  show ?case
  proof (intro conjI allI impI ballI)
    fix q assume "settled ctx q"
    then show "settled ctx' q"
      using min_len_visit_settled [of ctx ch r c1 kn q] v f IH by simp
  next
    fix q assume "q \<in> set (r # rs)"
    then show "q \<in> set unk \<or> settled ctx' q"
      using min_len_visit_known [of ctx ch r c1] v f IH unk by (cases kn) auto
  qed
qed simp

lemma min_len_inner_settled:
  "min_len_inner ctx ch unk = Inr (ctx', False) \<Longrightarrow>
     (\<forall>r. settled ctx r \<longrightarrow> settled ctx' r) \<and> (\<forall>r \<in> set unk. settled ctx' r)"
proof (induction ctx ch unk rule: min_len_inner.induct)
  case (1 ctx ch unk)
  show ?case
  proof (cases "unk = []")
    case True
    with 1 show ?thesis by (simp add: min_len_inner.simps)
  next
    case False
    with 1(2) obtain c1 ch1 u where p: "min_len_pass ctx ch unk = Inr (c1, ch1, u)"
      and l: "length u \<noteq> length unk" and i: "min_len_inner c1 ch1 u = Inr (ctx', False)"
      by (subst (asm) min_len_inner.simps) (auto simp: bindR_eq_Inr split: if_splits)
    have "\<not> ch1"
      using min_len_inner_progress [OF i] by (simp add: min_progress_def)
    then show ?thesis
      using 1(1) [OF False p refl refl l i] min_len_pass_settled [of ctx ch unk c1 u] p by auto
  qed
qed

text \<open>Settled lengths are lower bounds: no derivation tree is smaller.\<close>

lemma settled_lower_bound:
  assumes "\<forall>r < length (rules ctx). settled ctx r"
  shows "derives (rules ctx) nt t \<Longrightarrow> \<exists>v. nts_to_min_size ctx nt = Some v \<and> v \<le> dsize t"
    and "derives_list (rules ctx) nts ts \<Longrightarrow>
      \<exists>v. min_len_sum (nts_to_min_size ctx) nts 1 = Some v \<and> v \<le> Suc (sum_list (map dsize ts))"
proof (induction "rules ctx" nt t and "rules ctx" nts ts rule: derives_derives_list.induct)
  case (1 nt l ts)
  then obtain v where v: "min_len_sum (nts_to_min_size ctx) (nonterms (rules ctx ! ID l)) 1 = Some v"
    "v \<le> Suc (sum_list (map dsize ts))" and r: "ID l < length (rules ctx)" "nonterm (rules ctx ! ID l) = nt"
    by auto
  then show ?case
    using assms [rule_format, OF r(1)] by (auto simp: settled_def dsize_DNode)
next
  case (3 nt nts t ts)
  then show ?case
    by (auto simp: min_len_sum_Some)
qed (auto simp: min_len_sum_Some)

section \<open>Failure\<close>

text \<open>
  A pass that settles nothing leaves the context as it is; then every nonterminal without a length is
  unproductive.
\<close>

lemma min_len_pass_stuck:
  "min_len_pass ctx ch rs = Inr (ctx', ch', unk) \<Longrightarrow> length unk = length rs \<Longrightarrow>
     ctx' = ctx \<and> unk = rs \<and> (\<forall>r \<in> set rs. r < length (rules ctx) \<and>
       min_len_sum (nts_to_min_size ctx) (nonterms (rules ctx ! r)) 1 = None)"
proof (induction ctx ch rs arbitrary: ctx' ch' unk rule: min_len_pass.induct)
  case (2 ctx ch r rs)
  then obtain c1 ch1 kn u where v: "min_len_visit ctx ch r = Inr (c1, ch1, kn)"
    and p: "min_len_pass c1 ch1 rs = Inr (ctx', ch', u)" and unk: "unk = (if kn then u else r # u)"
    by (auto simp: bindR_eq_Inr)
  have "length u \<le> length rs"
    by (rule min_len_pass_length [OF p])
  then have "\<not> kn" and l: "length u = length rs"
    using unk "2.prems"(2) by (auto split: if_splits)
  then have "c1 = ctx" and "r < length (rules ctx)"
    and "min_len_sum (nts_to_min_size ctx) (nonterms (rules ctx ! r)) 1 = None"
    using v by (auto simp: min_len_visit_eq GetRule_def simp del: One_nat_def split: sum.splits option.splits)
  then show ?case
    using "2.IH" [OF v refl refl p [folded v] l] unk \<open>\<not> kn\<close> by auto
qed simp

definition covered :: "Context \<Rightarrow> RuleID list \<Rightarrow> bool" where
  "covered ctx unk \<longleftrightarrow>
     (\<forall>r < length (rules ctx). r \<in> set unk \<or> nts_to_min_size ctx (nonterm (rules ctx ! r)) \<noteq> None)"

lemma min_len_visit_covers:
  "min_len_visit ctx ch r = Inr (ctx', ch', True) \<Longrightarrow> nts_to_min_size ctx' (nonterm (rules ctx ! r)) \<noteq> None"
  by (auto simp: min_len_visit_eq GetRule_def min_upd_def split: sum.splits option.splits if_splits)

lemma min_progress_known:
  "min_progress ctx ch ctx' ch' \<Longrightarrow> nts_to_min_size ctx nt \<noteq> None \<Longrightarrow> nts_to_min_size ctx' nt \<noteq> None"
  unfolding min_progress_def min_refines_def by fastforce

lemma min_len_pass_covers:
  "min_len_pass ctx ch rs = Inr (ctx', ch', unk) \<Longrightarrow>
     \<forall>r \<in> set rs. r \<in> set unk \<or> nts_to_min_size ctx' (nonterm (rules ctx ! r)) \<noteq> None"
proof (induction ctx ch rs arbitrary: ctx' ch' unk rule: min_len_pass.induct)
  case (2 ctx ch r rs)
  then obtain c1 ch1 kn u where v: "min_len_visit ctx ch r = Inr (c1, ch1, kn)"
    and p: "min_len_pass c1 ch1 rs = Inr (ctx', ch', u)" and unk: "unk = (if kn then u else r # u)"
    by (auto simp: bindR_eq_Inr)
  have "rules c1 = rules ctx"
    using min_len_visit_progress [OF v] by (simp add: min_progress_def min_frame_rules)
  then show ?case
    using "2.IH" [OF v refl refl p [folded v]] unk min_len_visit_covers [of ctx ch r c1 ch1] v
      min_progress_known [OF min_len_pass_progress [OF p]] by (cases kn) auto
qed simp

lemma stuck_unproductive:
  assumes "covered ctx unk"
    and "\<forall>r \<in> set unk. min_len_sum (nts_to_min_size ctx) (nonterms (rules ctx ! r)) 1 = None"
  shows "derives (rules ctx) nt t \<Longrightarrow> nts_to_min_size ctx nt \<noteq> None"
    and "derives_list (rules ctx) nts ts \<Longrightarrow> \<forall>nt \<in> set nts. nts_to_min_size ctx nt \<noteq> None"
proof (induction "rules ctx" nt t and "rules ctx" nts ts rule: derives_derives_list.induct)
  case (1 nt l ts)
  then have "\<forall>nt \<in> set (nonterms (rules ctx ! ID l)). nts_to_min_size ctx nt \<noteq> None"
    by simp
  then have "ID l \<notin> set unk"
    using assms(2) unfolding min_len_sum_None by blast
  then show ?case
    using 1 assms(1) by (auto simp: covered_def)
qed auto

end
