(* ===== verification/Nautilus_Ready.thy ===== *)
theory Nautilus_Ready
  imports Nautilus_Derivation
begin

text \<open>
  Results on the grammar context: registration keeps names and identifiers in bijection and files
  every rule under its nonterminal, \<open>CalcMinLen\<close> is the least derivation size, \<open>CalcNumOptions\<close> reaches
  its fixpoint, and on a context that \<open>Initialize\<close> returned, the random choice of a rule succeeds
  whenever the length limit leaves room for a smallest tree.
\<close>

section \<open>A demonstration grammar\<close>

text \<open>
  The grammar with the rules \<open>S => a{S}b\<close>, \<open>S => {T}\<close>, \<open>T => c\<close> and \<open>T => d\<close>, entered through \<open>AddRule\<close>.
  The closed instances of the theorems of the Nautilus theories are stated for it.
\<close>

definition demo1 :: Context where
  "demo1 = empty_context\<lparr>
     rules := [\<lparr>nonterm = 0, children = [Term ''a'', NTerm 0, Term ''b''], nonterms = [0]\<rparr>],
     nts_to_rules := [0 \<mapsto> [0]], nt_ids_to_name := [(0, ''S'')], names_to_nt_id := [''S'' \<mapsto> 0]\<rparr>"

definition demo2 :: Context where
  "demo2 = demo1\<lparr>
     rules := rules demo1 @ [\<lparr>nonterm = 0, children = [NTerm 1], nonterms = [1]\<rparr>],
     nts_to_rules := [0 \<mapsto> [0, 1]], nt_ids_to_name := [(0, ''S''), (1, ''T'')],
     names_to_nt_id := [''S'' \<mapsto> 0, ''T'' \<mapsto> 1]\<rparr>"

definition demo3 :: Context where
  "demo3 = demo2\<lparr>
     rules := rules demo2 @ [\<lparr>nonterm = 1, children = [Term ''c''], nonterms = []\<rparr>],
     nts_to_rules := [0 \<mapsto> [0, 1], 1 \<mapsto> [2]]\<rparr>"

definition demo_grammar :: Context where
  "demo_grammar = demo3\<lparr>
     rules := rules demo3 @ [\<lparr>nonterm = 1, children = [Term ''d''], nonterms = []\<rparr>],
     nts_to_rules := [0 \<mapsto> [0, 1], 1 \<mapsto> [2, 3]]\<rparr>"

definition demo_ctx :: Context where
  "demo_ctx = demo_grammar\<lparr>
     nts_to_rules := [0 \<mapsto> [1, 0], 1 \<mapsto> [2, 3]],
     nts_to_min_size := [0 \<mapsto> 2, 1 \<mapsto> 1],
     rules_to_min_size := [0 \<mapsto> 3, 1 \<mapsto> 2, 2 \<mapsto> 1, 3 \<mapsto> 1],
     nts_to_num_options := [0 \<mapsto> 2, 1 \<mapsto> 2],
     rules_to_num_options := [0 \<mapsto> 2, 1 \<mapsto> 2, 2 \<mapsto> 1, 3 \<mapsto> 1], max_len := 12\<rparr>"

lemmas demo_defs = demo1_def demo2_def demo3_def demo_grammar_def empty_context_def

lemma demo_scans:
  "scan ''a{S}b'' = [TokLit ''a'', TokNT ''{S}'', TokLit ''b'']" "scan ''{T}'' = [TokNT ''{T}'']"
  "scan ''c'' = [TokLit ''c'']" "scan ''d'' = [TokLit ''d'']"
  "SplitNTDescription ''{S}'' = Inr ''S''" "SplitNTDescription ''{T}'' = Inr ''T''"
  "Unescape ''a'' = ''a''" "Unescape ''b'' = ''b''" "Unescape ''c'' = ''c''" "Unescape ''d'' = ''d''"
  by code_simp+

lemmas demo_add_simps = AddRule_def Rule_new_def Tokenize_def demo_scans RuleChild_nt_def AquireNTID_def

lemma demo_adds:
  "AddRule empty_context ''S'' ''a{S}b'' = Inr (0, demo1)"
  "AddRule demo1 ''S'' ''{T}'' = Inr (1, demo2)"
  "AddRule demo2 ''T'' ''c'' = Inr (2, demo3)"
  "AddRule demo3 ''T'' ''d'' = Inr (3, demo_grammar)"
  by (simp_all add: demo_add_simps demo_defs fun_upd_twist numeral_2_eq_2 numeral_3_eq_3)

lemma demo_grammar_fresh: "nts_to_min_size demo_grammar = Map.empty"
  by (simp add: demo_defs)

lemma demo_init: "Initialize demo_grammar 10 = Inr demo_ctx"
  by (simp add: demo_ctx_def demo_defs Initialize_def CalcMinLen_def CalcMinLen_loop.simps min_len_inner.simps
     min_len_visit_eq GetRule_def min_upd_def CalcRuleOrder_def fun_eq_iff upt_rec CalcNumOptions_def 
     CalcNumOptions_loop.simps num_options_visit_eq options_upd_def size_max_def Let_def)

definition demo_sized :: Context where
  "demo_sized = demo_grammar\<lparr>nts_to_rules := [0 \<mapsto> [1, 0], 1 \<mapsto> [2, 3]],
     nts_to_min_size := [0 \<mapsto> 2, 1 \<mapsto> 1],
     rules_to_min_size := [0 \<mapsto> 3, 1 \<mapsto> 2, 2 \<mapsto> 1, 3 \<mapsto> 1]\<rparr>"

lemma demo_calc: "CalcMinLen demo_grammar = Inr demo_sized"
  by (simp add: demo_sized_def demo_defs CalcMinLen_def CalcMinLen_loop.simps min_len_inner.simps
     min_len_visit_eq GetRule_def min_upd_def CalcRuleOrder_def fun_eq_iff upt_rec)

section \<open>Minimal lengths: success and failure\<close>

lemma min_len_visit_ok: "r < length (rules ctx) \<Longrightarrow> \<exists>c ch' kn. min_len_visit ctx ch r = Inr (c, ch', kn)"
  by (cases "min_len_sum (nts_to_min_size ctx) (nonterms (rules ctx ! r)) 1")
     (auto simp: min_len_visit_eq GetRule_def)

lemma min_len_pass_ok:
  "\<forall>r \<in> set rs. r < length (rules ctx) \<Longrightarrow> \<exists>c ch' u. min_len_pass ctx ch rs = Inr (c, ch', u)"
proof (induction ctx ch rs rule: min_len_pass.induct)
  case (2 ctx ch r rs)
  then obtain c1 ch1 kn where v: "min_len_visit ctx ch r = Inr (c1, ch1, kn)"
    using min_len_visit_ok [of r ctx ch] by auto
  have "rules c1 = rules ctx"
    using min_len_visit_progress [OF v] by (simp add: min_progress_def min_frame_rules)
  then show ?case
    using 2 v by fastforce
qed simp

lemma min_len_pass_subset:
  "min_len_pass ctx ch rs = Inr (ctx', ch', unk) \<Longrightarrow> set unk \<subseteq> set rs"
proof (induction ctx ch rs arbitrary: ctx' ch' unk rule: min_len_pass.induct)
  case (2 ctx ch r rs)
  then obtain c1 ch1 kn u where v: "min_len_visit ctx ch r = Inr (c1, ch1, kn)"
    and p: "min_len_pass c1 ch1 rs = Inr (ctx', ch', u)" and unk: "unk = (if kn then u else r # u)"
    by (auto simp: bindR_eq_Inr)
  then show ?case
    using "2.IH" [OF v refl refl p [folded v]] by auto
qed simp

lemma min_len_inner_fails:
  assumes "min_len_inner ctx ch unk = Inl e" and "covered ctx unk" and "\<forall>r \<in> set unk. r < length (rules ctx)"
  shows "\<exists>r \<in> set (rules ctx). \<not> productive_rule (rules ctx) r"
  using assms
proof (induction ctx ch unk rule: min_len_inner.induct)
  case (1 ctx ch unk)
  have ne: "unk \<noteq> []"
    using "1.prems"(1) by (auto simp: min_len_inner.simps)
  obtain c1 ch1 u where p: "min_len_pass ctx ch unk = Inr (c1, ch1, u)"
    using min_len_pass_ok [OF "1.prems"(3)] by blast
  have rules: "rules c1 = rules ctx"
    using min_len_pass_progress [OF p] by (simp add: min_progress_def min_frame_rules)
  show ?case
  proof (cases "length u = length unk")
    case True
    then have stuck: "\<forall>r \<in> set unk. r < length (rules ctx) \<and>
        min_len_sum (nts_to_min_size ctx) (nonterms (rules ctx ! r)) 1 = None"
      using min_len_pass_stuck [OF p] by simp
    obtain r where r: "r \<in> set unk"
      using ne by (cases unk) auto
    then obtain nt where nt: "nt \<in> set (nonterms (rules ctx ! r))" "nts_to_min_size ctx nt = None"
      using stuck unfolding min_len_sum_None by blast
    then have "\<not> productive_nt (rules ctx) nt"
      using stuck_unproductive(1) [OF "1.prems"(2)] stuck unfolding productive_nt_def by blast
    then show ?thesis
      using nt r stuck unfolding productive_rule_def by (meson nth_mem)
  next
    case False
    then have i: "min_len_inner c1 ch1 u = Inl e"
      using "1.prems"(1) ne p by (subst (asm) min_len_inner.simps) simp
    have "covered c1 u"
      unfolding covered_def
    proof (intro allI impI)
      fix r assume "r < length (rules c1)"
      then consider "r \<in> set unk" | "nts_to_min_size ctx (nonterm (rules ctx ! r)) \<noteq> None"
        using "1.prems"(2) rules unfolding covered_def by auto
      then show "r \<in> set u \<or> nts_to_min_size c1 (nonterm (rules c1 ! r)) \<noteq> None"
        using min_len_pass_covers [OF p] min_progress_known [OF min_len_pass_progress [OF p]] rules
        by cases auto
    qed
    then show ?thesis
      using "1.IH" [OF ne p refl refl False i] min_len_pass_subset [OF p] "1.prems"(3) rules by auto
  qed
qed

lemma CalcMinLen_loop_spec:
  "attained (rules ctx) (nts_to_min_size ctx) \<Longrightarrow>
     (case CalcMinLen_loop ctx of
        Inl e \<Rightarrow> \<exists>r \<in> set (rules ctx). \<not> productive_rule (rules ctx) r
      | Inr ctx' \<Rightarrow> min_frame ctx ctx' \<and> attained (rules ctx) (nts_to_min_size ctx') \<and>
          (\<forall>r < length (rules ctx). settled ctx' r))"
proof (induction ctx rule: CalcMinLen_loop.induct)
  case (1 ctx)
  let ?all = "[0..<length (rules ctx)]"
  show ?case
  proof (cases "min_len_inner ctx False ?all")
    case (Inl e)
    have "covered ctx ?all" by (simp add: covered_def)
    then show ?thesis
      using min_len_inner_fails [OF Inl] Inl by (simp add: CalcMinLen_loop.simps)
  next
    case (Inr res)
    then obtain c1 ch1 where i: "min_len_inner ctx False ?all = Inr (c1, ch1)"
      by (cases res) auto
    have f: "min_frame ctx c1" and rules: "rules c1 = rules ctx"
      using min_len_inner_progress [OF i] by (simp_all add: min_progress_def min_frame_rules)
    have a: "attained (rules ctx) (nts_to_min_size c1)"
      by (rule min_len_inner_attained [OF i 1(2)])
    show ?thesis
    proof (cases ch1)
      case True
      then have "CalcMinLen_loop ctx = CalcMinLen_loop c1"
        by (subst CalcMinLen_loop.simps) (simp add: i)
      then show ?thesis
        using 1(1) [OF i refl True] a rules min_frame_trans [OF f] by (auto split: sum.splits)
    next
      case False
      then have "CalcMinLen_loop ctx = Inr c1"
        by (subst CalcMinLen_loop.simps) (simp add: i)
      then show ?thesis
        using f a min_len_inner_settled [of ctx False ?all c1] i False by auto
    qed
  qed
qed

lemma attained_empty [simp]: "attained rls Map.empty"
  by (simp add: attained_def)

lemma CalcMinLen_result:
  assumes "nts_to_min_size ctx = Map.empty" and "CalcMinLen ctx = Inr ctx'"
  obtains c where "min_frame ctx c" and "ctx' = CalcRuleOrder c"
    and "attained (rules ctx) (nts_to_min_size c)" and "\<forall>r < length (rules ctx). settled c r"
proof -
  obtain c where c: "CalcMinLen_loop ctx = Inr c" and c': "ctx' = CalcRuleOrder c"
    using assms(2) by (auto simp: CalcMinLen_def bindR_eq_Inr)
  show thesis
    using that [OF _ c'] CalcMinLen_loop_spec [of ctx] assms(1) c by simp
qed

lemma settled_order [simp]: "settled (CalcRuleOrder c) r \<longleftrightarrow> settled c r"
  by (simp add: settled_def CalcRuleOrder_def)

lemma CalcRuleOrder_fields [simp]:
  "rules (CalcRuleOrder c) = rules c"
  "nts_to_min_size (CalcRuleOrder c) = nts_to_min_size c"
  "rules_to_min_size (CalcRuleOrder c) = rules_to_min_size c"
  "nt_ids_to_name (CalcRuleOrder c) = nt_ids_to_name c"
  "names_to_nt_id (CalcRuleOrder c) = names_to_nt_id c"
  by (simp_all add: CalcRuleOrder_def)

lemma settled_productive:
  assumes "attained (rules ctx) (nts_to_min_size ctx)" and "settled ctx r" and "r < length (rules ctx)"
  shows "productive_rule (rules ctx) (rules ctx ! r)"
  using assms unfolding settled_def min_len_sum_Some attained_def productive_rule_def productive_nt_def
  by (metis option.exhaust)






section \<open>Registration\<close>

definition names_wf :: "Context \<Rightarrow> bool" where
  "names_wf ctx \<longleftrightarrow>
     (\<forall>nm i. names_to_nt_id ctx nm = Some i \<longleftrightarrow> map_of (nt_ids_to_name ctx) i = Some nm) \<and>
     map fst (nt_ids_to_name ctx) = [0..<length (nt_ids_to_name ctx)]"

definition rules_filed :: "Context \<Rightarrow> bool" where
  "rules_filed ctx \<longleftrightarrow>
     (\<forall>nt. nts_to_rules ctx nt =
        (let rs = filter (\<lambda>r. nonterm (rules ctx ! r) = nt) [0..<length (rules ctx)]
         in if rs = [] then None else Some rs))"

definition rules_known :: "Context \<Rightarrow> bool" where
  "rules_known ctx \<longleftrightarrow>
     (\<forall>r \<in> set (rules ctx). rule_wf r \<and>
        (\<forall>nt \<in> insert (nonterm r) (set (nonterms r)). nt < length (nt_ids_to_name ctx)))"

text \<open>The invariant of a context under construction.\<close>

definition reg_wf :: "Context \<Rightarrow> bool" where
  "reg_wf ctx \<longleftrightarrow> names_wf ctx \<and> rules_filed ctx \<and> rules_known ctx"

lemma empty_context_wf: "reg_wf empty_context"
  by (simp add: reg_wf_def names_wf_def rules_filed_def rules_known_def empty_context_def)

definition names_frame :: "Context \<Rightarrow> Context \<Rightarrow> bool" where
  "names_frame ctx ctx' \<longleftrightarrow>
     ctx' = ctx\<lparr>names_to_nt_id := names_to_nt_id ctx', nt_ids_to_name := nt_ids_to_name ctx'\<rparr> \<and>
     map_le (names_to_nt_id ctx) (names_to_nt_id ctx') \<and>
     length (nt_ids_to_name ctx) \<le> length (nt_ids_to_name ctx')"

lemma names_frame_refl [simp]: "names_frame ctx ctx"
  by (simp add: names_frame_def)

lemma names_frame_trans: "names_frame ctx ctx' \<Longrightarrow> names_frame ctx' ctx'' \<Longrightarrow> names_frame ctx ctx''"
  by (cases ctx; cases ctx'; cases ctx'') (auto simp: names_frame_def intro: map_le_trans)

lemma names_frame_fields:
  "names_frame ctx ctx' \<Longrightarrow> rules ctx' = rules ctx"
  "names_frame ctx ctx' \<Longrightarrow> nts_to_rules ctx' = nts_to_rules ctx"
  "names_frame ctx ctx' \<Longrightarrow> nts_to_min_size ctx' = nts_to_min_size ctx"
  by (cases ctx; cases ctx'; simp add: names_frame_def)+

lemma names_wf_inv:
  "names_wf ctx \<Longrightarrow> names_to_nt_id ctx nm = Some i \<longleftrightarrow> map_of (nt_ids_to_name ctx) i = Some nm"
  unfolding names_wf_def by blast

lemma AquireNTID_old:
  "names_wf ctx \<Longrightarrow> names_to_nt_id ctx nt = Some i \<Longrightarrow> AquireNTID ctx nt = (i, ctx)"
  using names_wf_inv [of ctx nt i] by (simp add: AquireNTID_def)

lemma map_of_fresh: "map fst xs = [0..<length xs] \<Longrightarrow> map_of xs (length xs) = None"
  by (metis atLeastLessThan_iff image_set less_irrefl map_of_eq_None_iff set_upt)

lemma alist_update_new: "k \<notin> fst ` set al \<Longrightarrow> AList.update k v al = al @ [(k, v)]"
  by (induction al) auto

lemma AquireNTID_new:
  assumes "names_wf ctx" and "names_to_nt_id ctx nt = None"
  shows "AquireNTID ctx nt =
    (length (nt_ids_to_name ctx),
     ctx\<lparr>names_to_nt_id := (names_to_nt_id ctx)(nt \<mapsto> length (nt_ids_to_name ctx)),
         nt_ids_to_name := nt_ids_to_name ctx @ [(length (nt_ids_to_name ctx), nt)]\<rparr>)"
proof -
  have f: "map_of (nt_ids_to_name ctx) (length (nt_ids_to_name ctx)) = None"
    using assms(1) by (simp add: names_wf_def map_of_fresh)
  moreover have "AList.update (length (nt_ids_to_name ctx)) nt (nt_ids_to_name ctx) =
      nt_ids_to_name ctx @ [(length (nt_ids_to_name ctx), nt)]"
    using f by (intro alist_update_new) (simp add: map_of_eq_None_iff)
  ultimately show ?thesis
    using assms(2) by (simp add: AquireNTID_def Let_def)
qed

lemma AquireNTID_spec:
  assumes "names_wf ctx" and "AquireNTID ctx nt = (i, ctx')"
  shows "names_wf ctx'" and "names_frame ctx ctx'" and "names_to_nt_id ctx' nt = Some i"
    and "i < length (nt_ids_to_name ctx')"
proof -
  have "names_wf ctx' \<and> names_frame ctx ctx' \<and> names_to_nt_id ctx' nt = Some i"
  proof (cases "names_to_nt_id ctx nt")
    case (Some j)
    then show ?thesis
      using AquireNTID_old [OF assms(1) Some] assms by simp
  next
    case None
    let ?n = "length (nt_ids_to_name ctx)"
    have f: "map_of (nt_ids_to_name ctx) ?n = None"
      using assms(1) by (simp add: names_wf_def map_of_fresh)
    have c': "i = ?n" "ctx' = ctx\<lparr>names_to_nt_id := (names_to_nt_id ctx)(nt \<mapsto> ?n),
         nt_ids_to_name := nt_ids_to_name ctx @ [(?n, nt)]\<rparr>"
      using AquireNTID_new [OF assms(1) None] assms(2) by simp_all
    have "names_wf ctx'"
      unfolding names_wf_def
    proof (intro conjI allI)
      fix nm j
      show "names_to_nt_id ctx' nm = Some j \<longleftrightarrow> map_of (nt_ids_to_name ctx') j = Some nm"
        using names_wf_inv [OF assms(1), of nm j] names_wf_inv [OF assms(1), of nt j]
          names_wf_inv [OF assms(1), of nm ?n] None f
        by (auto simp: c' map_add_def split: option.splits)
      show "map fst (nt_ids_to_name ctx') = [0..<length (nt_ids_to_name ctx')]"
        using assms(1) by (simp add: c' names_wf_def)
    qed
    then show ?thesis
      using None by (auto simp: c' names_frame_def map_le_def)
  qed
  then show "names_wf ctx'" and "names_frame ctx ctx'" and n: "names_to_nt_id ctx' nt = Some i"
    by auto
  then have "i \<in> set (map fst (nt_ids_to_name ctx'))"
    unfolding names_wf_def by (metis domI dom_map_of_conv_image_fst image_set)
  moreover have "set (map fst (nt_ids_to_name ctx')) = {0..<length (nt_ids_to_name ctx')}"
    using \<open>names_wf ctx'\<close> unfolding names_wf_def by (metis atLeast_upt atLeastLessThan_upt)
  ultimately show "i < length (nt_ids_to_name ctx')"
    by simp
qed


lemma tokens_to_children_spec:
  "names_wf ctx \<Longrightarrow> tokens_to_children ts ctx = Inr (cs, ctx') \<Longrightarrow>
     names_wf ctx' \<and> names_frame ctx ctx' \<and>
     (\<forall>nt \<in> set (nonterms_of cs). nt < length (nt_ids_to_name ctx'))"
proof (induction ts ctx arbitrary: cs ctx' rule: tokens_to_children.induct)
  case (2 m ts ctx)
  then obtain nm where nm: "SplitNTDescription m = Inr nm"
    by (auto simp: bindR_eq_Inr RuleChild_nt_def)
  obtain i c1 where q: "AquireNTID ctx nm = (i, c1)" by fastforce
  have r: "RuleChild_nt m ctx = Inr (NTerm i, c1)"
    by (simp add: RuleChild_nt_def nm q)
  obtain cs1 where t: "tokens_to_children ts c1 = Inr (cs1, ctx')" and cs: "cs = NTerm i # cs1"
    using "2.prems"(2) r by (auto simp: bindR_eq_Inr)
  note q' = AquireNTID_spec [OF "2.prems"(1) q]
  have "names_wf ctx' \<and> names_frame c1 ctx' \<and>
      (\<forall>nt \<in> set (nonterms_of cs1). nt < length (nt_ids_to_name ctx'))"
    using "2.IH" [OF r refl q'(1) t] .
  then show ?case
    using q' names_frame_trans [OF q'(2)] by (auto simp: cs names_frame_def)
next
  case (3 m ts ctx)
  then show ?case by (fastforce simp: bindR_eq_Inr)
qed simp

lemma names_frame_name:
  "names_frame ctx ctx' \<Longrightarrow> names_to_nt_id ctx nm = Some i \<Longrightarrow> names_to_nt_id ctx' nm = Some i"
  unfolding names_frame_def map_le_def by (metis domI)

lemma AddRule_result:
  assumes "names_wf ctx" and "AddRule ctx nt format = Inr (rid, ctx')"
  obtains c2 rule old where "names_wf c2" and "names_frame ctx c2" and "rule_wf rule"
    and "names_to_nt_id c2 nt = Some (nonterm rule)" and "nonterm rule < length (nt_ids_to_name c2)"
    and "\<forall>k \<in> set (nonterms rule). k < length (nt_ids_to_name c2)"
    and "rid = length (rules ctx)"
    and "ctx' = c2\<lparr>rules := rules ctx @ [rule],
           nts_to_rules := (nts_to_rules ctx)(nonterm rule \<mapsto>
             (case nts_to_rules ctx (nonterm rule) of None \<Rightarrow> [] | Some rs \<Rightarrow> rs) @ [rid])\<rparr>"
proof -
  obtain i c1 where a: "AquireNTID ctx nt = (i, c1)" by fastforce
  obtain cs cx where t: "tokens_to_children (scan format) c1 = Inr (cs, cx)"
    using assms(2) a by (auto simp: AddRule_def Rule_new_def Tokenize_def Let_def bindR_eq_Inr)
  note a' = AquireNTID_spec [OF assms(1) a] and t' = tokens_to_children_spec [OF AquireNTID_spec(1) [OF assms(1) a] t]
  have old: "names_to_nt_id cx nt = Some i"
    using names_frame_name [of c1 cx] t' a'(3) by blast
  have b: "AquireNTID cx nt = (i, cx)"
    using AquireNTID_old t' old by blast
  have f: "names_frame ctx cx"
    using names_frame_trans [OF a'(2)] t' by blast
  define rule where "rule = \<lparr>nonterm = i, children = cs, nonterms = nonterms_of cs\<rparr>"
  have "rid = length (rules ctx)" and "ctx' = cx\<lparr>rules := rules ctx @ [rule],
           nts_to_rules := (nts_to_rules ctx)(nonterm rule \<mapsto>
             (case nts_to_rules ctx (nonterm rule) of None \<Rightarrow> [] | Some rs \<Rightarrow> rs) @ [rid])\<rparr>"
    using assms(2) a t b names_frame_fields [OF f]
    by (auto simp: AddRule_def Rule_new_def Tokenize_def Let_def rule_def)
  moreover have "i < length (nt_ids_to_name cx)"
    using a'(4) t' by (simp add: names_frame_def)
  ultimately show thesis
    using t' f old by (intro that [of cx rule]) (simp_all add: rule_def rule_wf_def)
qed

lemma AddRule_wf:
  assumes "reg_wf ctx" and "AddRule ctx nt format = Inr (rid, ctx')"
  shows "reg_wf ctx' \<and> rid = length (rules ctx) \<and> length (rules ctx') = Suc rid \<and>
         take rid (rules ctx') = rules ctx \<and> NTID ctx' nt = Inr (nonterm (rules ctx' ! rid))"
proof -
  have n: "names_wf ctx" and fi: "rules_filed ctx" and k: "rules_known ctx"
    using assms(1) by (simp_all add: reg_wf_def)
  obtain c2 rule where w: "names_wf c2" and f: "names_frame ctx c2" and wr: "rule_wf rule"
    and nm: "names_to_nt_id c2 nt = Some (nonterm rule)" "nonterm rule < length (nt_ids_to_name c2)"
    and ks: "\<forall>k \<in> set (nonterms rule). k < length (nt_ids_to_name c2)"
    and rid: "rid = length (rules ctx)"
    and c': "ctx' = c2\<lparr>rules := rules ctx @ [rule],
           nts_to_rules := (nts_to_rules ctx)(nonterm rule \<mapsto>
             (case nts_to_rules ctx (nonterm rule) of None \<Rightarrow> [] | Some rs \<Rightarrow> rs) @ [rid])\<rparr>"
    by (rule AddRule_result [OF n assms(2)])
  have "names_wf ctx'"
    using w by (simp add: names_wf_def c')
  moreover have "rules_known ctx'"
    using k f wr nm(2) ks unfolding rules_known_def names_frame_def by (fastforce simp: c')
  moreover have "rules_filed ctx'"
    unfolding rules_filed_def
  proof
    fix m
    let ?old = "filter (\<lambda>r. nonterm (rules ctx ! r) = m) [0..<length (rules ctx)]"
    have "filter (\<lambda>r. nonterm ((rules ctx @ [rule]) ! r) = m) [0..<length (rules ctx)] = ?old"
      by (rule filter_cong) (auto simp: nth_append)
    then have "filter (\<lambda>r. nonterm (rules ctx' ! r) = m) [0..<length (rules ctx')] =
        ?old @ (if nonterm rule = m then [rid] else [])"
      by (simp add: c' rid)
    then show "nts_to_rules ctx' m =
        (let rs = filter (\<lambda>r. nonterm (rules ctx' ! r) = m) [0..<length (rules ctx')]
         in if rs = [] then None else Some rs)"
      using fi unfolding rules_filed_def by (auto simp: c' Let_def)
  qed
  ultimately show ?thesis
    using nm(1) rid by (simp add: reg_wf_def c' NTID_def)
qed


text \<open>
  \<open>Context::AddRule\<close> keeps the registration invariant: names and nonterminal identifiers stay in
  bijection with the identifiers \<open>0, 1, ...\<close>, every rule is filed exactly once under its nonterminal in
  the order of insertion, the recorded nonterminals of a rule are those of its children, and the rule
  gets the next rule identifier.
\<close>

theorem AddRule_keeps_registration:
  assumes "reg_wf ctx" and "AddRule ctx nt format = Inr (rid, ctx')"
  shows "reg_wf ctx' \<and> rid = length (rules ctx) \<and> length (rules ctx') = Suc rid \<and>
         take rid (rules ctx') = rules ctx \<and> NTID ctx' nt = Inr (nonterm (rules ctx' ! rid))"
  by (rule AddRule_wf [OF assms])

theorem AddRule_keeps_registration_witness:
  "reg_wf demo1 \<and> length (rules demo1) = 1 \<and> NTID demo1 ''S'' = Inr (nonterm (rules demo1 ! 0))"
  using AddRule_keeps_registration [OF empty_context_wf demo_adds(1)] by simp

lemma demo_grammar_wf: "reg_wf demo_grammar"
proof -
  have "reg_wf demo1" using AddRule_wf [OF empty_context_wf demo_adds(1)] by blast
  then have "reg_wf demo2" using AddRule_wf [OF _ demo_adds(2)] by blast
  then have "reg_wf demo3" using AddRule_wf [OF _ demo_adds(3)] by blast
  then show ?thesis using AddRule_wf [OF _ demo_adds(4)] by blast
qed

section \<open>Option counts\<close>

definition options_total :: "Context \<Rightarrow> bool" where
  "options_total ctx \<longleftrightarrow> (\<forall>r \<in> set (rules ctx). nts_to_num_options ctx (nonterm r) \<noteq> None)"

definition options_closed :: "Context \<Rightarrow> RuleID \<Rightarrow> bool" where
  "options_closed ctx r \<longleftrightarrow>
     (\<exists>v. nts_to_num_options ctx (nonterm (rules ctx ! r)) = Some v \<and>
        num_options_prod (nts_to_num_options ctx) (nonterms (rules ctx ! r)) 1 \<le> v \<and>
        rules_to_num_options ctx r =
          Some (num_options_prod (nts_to_num_options ctx) (nonterms (rules ctx ! r)) 1))"

lemma num_options_pass_total:
  "options_total ctx \<Longrightarrow> \<forall>r \<in> set rs. r < length (rules ctx) \<Longrightarrow>
     \<exists>c ch'. num_options_pass ctx ch rs = Inr (c, ch') \<and> options_total c"
proof (induction ctx ch rs rule: num_options_pass.induct)
  case (2 ctx ch r rs)
  then obtain c1 ch1 where v: "num_options_visit ctx ch r = Inr (c1, ch1)" and t: "options_total c1"
    by (simp add: num_options_visit_eq GetRule_def options_total_def options_upd_def Let_def
          split: option.splits)
  have "rules c1 = rules ctx"
    using num_options_visit_progress [OF v] by (simp add: options_progress_def options_frame_fields)
  then show ?case
    using 2 v t by simp
qed simp

lemma num_options_pass_stable:
  "num_options_pass ctx ch rs = Inr (ctx', False) \<Longrightarrow> options_total ctx \<Longrightarrow>
     nts_to_num_options ctx' = nts_to_num_options ctx \<and>
     (\<forall>r. options_closed ctx r \<longrightarrow> options_closed ctx' r) \<and> (\<forall>r \<in> set rs. options_closed ctx' r)"
proof (induction ctx ch rs arbitrary: ctx' rule: num_options_pass.induct)
  case (2 ctx ch r rs)
  then obtain c1 ch1 where v: "num_options_visit ctx ch r = Inr (c1, ch1)"
    and p: "num_options_pass c1 ch1 rs = Inr (ctx', False)"
    by (auto simp: bindR_eq_Inr)
  have "\<not> ch1"
    using num_options_pass_progress [OF p] by (simp add: options_progress_def)
  define num where "num = num_options_prod (nts_to_num_options ctx) (nonterms (rules ctx ! r)) 1"
  have r: "r < length (rules ctx)"
    and nv: "\<not> (\<exists>v. nts_to_num_options ctx (nonterm (rules ctx ! r)) = Some v \<and> v < num)"
    and c1: "c1 = ctx\<lparr>nts_to_num_options :=
          options_upd (nts_to_num_options ctx) (nonterm (rules ctx ! r)) num,
        rules_to_num_options := (rules_to_num_options ctx)(r \<mapsto> num)\<rparr>"
    using v \<open>\<not> ch1\<close> by (auto simp: num_options_visit_eq GetRule_def num_def Let_def split: sum.splits)
  obtain w where w: "nts_to_num_options ctx (nonterm (rules ctx ! r)) = Some w" "num \<le> w"
    using "2.prems"(2) r nv unfolding options_total_def by (metis not_less nth_mem option.exhaust)
  have same: "nts_to_num_options c1 = nts_to_num_options ctx"
    using w by (simp add: c1 options_upd_def)
  have "options_total c1"
    using "2.prems"(2) by (simp add: options_total_def same) (simp add: c1)
  then have IH: "nts_to_num_options ctx' = nts_to_num_options c1 \<and>
     (\<forall>r. options_closed c1 r \<longrightarrow> options_closed ctx' r) \<and> (\<forall>r \<in> set rs. options_closed ctx' r)"
    using "2.IH" [OF v refl p [folded v]] by blast
  have "options_closed c1 q" if "options_closed ctx q \<or> q = r" for q
    using that w unfolding options_closed_def same by (auto simp: c1 num_def)
  then show ?case
    using IH same by auto
qed simp

lemma CalcNumOptions_loop_spec:
  "options_total ctx \<Longrightarrow>
     \<exists>ctx'. CalcNumOptions_loop ctx = Inr ctx' \<and> options_frame ctx ctx' \<and>
       (\<forall>r < length (rules ctx). options_closed ctx' r)"
proof (induction ctx rule: CalcNumOptions_loop.induct)
  case (1 ctx)
  let ?all = "[0..<length (rules ctx)]"
  obtain c1 ch1 where p: "num_options_pass ctx False ?all = Inr (c1, ch1)" and t: "options_total c1"
    using num_options_pass_total [OF 1(2), of ?all False] by auto
  have f: "options_frame ctx c1"
    using num_options_pass_progress [OF p] by (simp add: options_progress_def)
  show ?case
  proof (cases ch1)
    case True
    then have "CalcNumOptions_loop ctx = CalcNumOptions_loop c1"
      by (subst CalcNumOptions_loop.simps) (simp add: p)
    then show ?thesis
      using 1(1) [OF p refl True t] options_frame_trans [OF f] options_frame_fields(1) [OF f] by auto
  next
    case False
    then have "CalcNumOptions_loop ctx = Inr c1"
      by (subst CalcNumOptions_loop.simps) (simp add: p)
    then show ?thesis
      using f num_options_pass_stable [of ctx False ?all c1] p False 1(2) by auto
  qed
qed

text \<open>
  \<open>Context::CalcNumOptions\<close> terminates with a fixpoint: for every rule the recorded count is the
  product of the counts of its nonterminals, saturated at the largest \<open>size_t\<close>, and it does not exceed
  the count of the rule's own nonterminal.
\<close>

theorem CalcNumOptions_fixpoint:
  assumes "\<forall>r \<in> set (rules ctx). nts_to_rules ctx (nonterm r) \<noteq> None"
  shows "\<exists>ctx'. CalcNumOptions ctx = Inr ctx' \<and> rules ctx' = rules ctx \<and>
    (\<forall>r < length (rules ctx).
       \<exists>v. CalcNumOptionsForRule ctx' r = Inr v \<and> rules_to_num_options ctx' r = Some v \<and>
           v \<le> size_max \<and> v \<le> the (nts_to_num_options ctx' (nonterm (rules ctx ! r))))"
proof -
  define c0 where "c0 = ctx\<lparr>nts_to_num_options := (\<lambda>nt. case nts_to_num_options ctx nt of
      None \<Rightarrow> map_option length (nts_to_rules ctx nt) | Some v \<Rightarrow> Some v)\<rparr>"
  have "options_total c0"
    using assms by (auto simp: options_total_def c0_def split: option.splits)
  then obtain ctx' where c': "CalcNumOptions_loop c0 = Inr ctx'" "options_frame c0 ctx'"
    and cl: "\<forall>r < length (rules c0). options_closed ctx' r"
    using CalcNumOptions_loop_spec by blast
  have rules: "rules ctx' = rules ctx" "rules c0 = rules ctx"
    using options_frame_fields(1) [OF c'(2)] by (simp_all add: c0_def)
  have "num_options_prod m nts 1 \<le> size_max" for m nts
    by (rule num_options_prod_le) (simp add: size_max_def)
  then show ?thesis
    using c' cl rules unfolding CalcNumOptions_def c0_def [symmetric]
    by (intro exI [of _ ctx']) (fastforce simp: options_closed_def CalcNumOptionsForRule_def GetRule_def)
qed


theorem CalcNumOptions_fixpoint_witness:
  "\<exists>ctx'. CalcNumOptions demo_sized = Inr ctx' \<and>
     (\<exists>v. CalcNumOptionsForRule ctx' 0 = Inr v \<and> rules_to_num_options ctx' 0 = Some v \<and>
          v \<le> the (nts_to_num_options ctx' 0))"
proof -
  have "\<forall>r \<in> set (rules demo_sized). nts_to_rules demo_sized (nonterm r) \<noteq> None"
    by (simp add: demo_sized_def demo_defs)
  from CalcNumOptions_fixpoint [OF this] obtain ctx' where c: "CalcNumOptions demo_sized = Inr ctx'"
    and r: "\<And>r. r < length (rules demo_sized) \<Longrightarrow> \<exists>v. CalcNumOptionsForRule ctx' r = Inr v \<and>
      rules_to_num_options ctx' r = Some v \<and> v \<le> size_max \<and>
      v \<le> the (nts_to_num_options ctx' (nonterm (rules demo_sized ! r)))"
    by blast
  have "0 < length (rules demo_sized)" "nonterm (rules demo_sized ! 0) = 0"
    by (simp_all add: demo_sized_def demo_defs)
  with r [of 0] c show ?thesis by auto
qed

section \<open>Initialised contexts\<close>

definition rule_min :: "Context \<Rightarrow> RuleID \<Rightarrow> nat" where
  "rule_min ctx r = the (rules_to_min_size ctx r)"

definition ready :: "Context \<Rightarrow> bool" where
  "ready ctx \<longleftrightarrow>
     attained (rules ctx) (nts_to_min_size ctx) \<and>
     (\<forall>r < length (rules ctx). settled ctx r \<and> rule_wf (rules ctx ! r) \<and>
        rules_to_num_options ctx r \<noteq> None \<and>
        nts_to_num_options ctx (nonterm (rules ctx ! r)) \<noteq> None \<and>
        nts_to_rules ctx (nonterm (rules ctx ! r)) \<noteq> None) \<and>
     (\<forall>nt rids. nts_to_rules ctx nt = Some rids \<longrightarrow>
        set rids = {r. r < length (rules ctx) \<and> nonterm (rules ctx ! r) = nt} \<and>
        sorted (map (rule_min ctx) rids))"

lemma rules_filed_SomeD:
  "rules_filed ctx \<Longrightarrow> nts_to_rules ctx nt = Some rids \<Longrightarrow>
     set rids = {r. r < length (rules ctx) \<and> nonterm (rules ctx ! r) = nt}"
  unfolding rules_filed_def Let_def by (auto split: if_splits)

lemma rules_filed_ex:
  "rules_filed ctx \<Longrightarrow> r < length (rules ctx) \<Longrightarrow> nts_to_rules ctx (nonterm (rules ctx ! r)) \<noteq> None"
  unfolding rules_filed_def Let_def by (auto simp: filter_empty_conv)

lemma Initialize_result:
  assumes "reg_wf ctx" and "nts_to_min_size ctx = Map.empty" and "Initialize ctx mlen = Inr ctx'"
  shows "ready ctx'" and "rules ctx' = rules ctx" and "max_len ctx' = mlen + 2"
    and "nt_ids_to_name ctx' = nt_ids_to_name ctx"
proof -
  obtain c1 c2 where c1: "CalcMinLen ctx = Inr c1" and c2: "CalcNumOptions c1 = Inr c2"
    and c': "ctx' = c2\<lparr>max_len := mlen + 2\<rparr>"
    using assms(3) by (auto simp: Initialize_def bindR_eq_Inr)
  obtain c where c: "min_frame ctx c" "c1 = CalcRuleOrder c"
    and a: "attained (rules ctx) (nts_to_min_size c)"
    and st: "\<forall>r < length (rules ctx). settled c r"
    by (rule CalcMinLen_result [OF assms(2) c1])
  have rc: "rules c = rules ctx" "nts_to_rules c = nts_to_rules ctx" "nt_ids_to_name c = nt_ids_to_name ctx"
    using c(1) by (cases ctx; cases c; simp add: min_frame_def)+
  have filed: "rules_filed ctx" and wf: "\<forall>r \<in> set (rules ctx). rule_wf r"
    using assms(1) by (auto simp: reg_wf_def rules_known_def)
  have nts: "nts_to_rules c1 nt = map_option (sort_key (rule_min c)) (nts_to_rules ctx nt)" for nt
    by (simp add: c(2) CalcRuleOrder_def rc rule_min_def [abs_def])
  define c0 where "c0 = c1\<lparr>nts_to_num_options := (\<lambda>nt. case nts_to_num_options c1 nt of
      None \<Rightarrow> map_option length (nts_to_rules c1 nt) | Some v \<Rightarrow> Some v)\<rparr>"
  have "options_total c0"
    using rules_filed_ex [OF filed] nts
    by (auto simp: options_total_def c0_def in_set_conv_nth c(2) rc split: option.splits)
  then have f2: "options_frame c0 c2" and cl: "\<forall>r < length (rules c0). options_closed c2 r"
    using CalcNumOptions_loop_spec [of c0] c2 by (auto simp: CalcNumOptions_def c0_def)
  have fields: "rules c2 = rules ctx" "nts_to_min_size c2 = nts_to_min_size c"
    "rules_to_min_size c2 = rules_to_min_size c" "nts_to_rules c2 = nts_to_rules c1"
    "nt_ids_to_name c2 = nt_ids_to_name ctx"
    using options_frame_fields [OF f2] rc by (simp_all add: c0_def c(2))
  have "rules c0 = rules ctx" by (simp add: c0_def c(2) rc)
  then show "ready ctx'"
    using a st cl wf rules_filed_SomeD [OF filed] rules_filed_ex [OF filed] nts
    unfolding ready_def settled_def options_closed_def c'
    by (auto simp: fields rc rule_min_def [abs_def])
  show "rules ctx' = rules ctx" "max_len ctx' = mlen + 2" "nt_ids_to_name ctx' = nt_ids_to_name ctx"
    by (simp_all add: c' fields)
qed

lemma ready_rule_min:
  "ready ctx \<Longrightarrow> r < length (rules ctx) \<Longrightarrow>
     rules_to_min_size ctx r = Some (rule_min ctx r) \<and>
     min_len_sum (nts_to_min_size ctx) (nonterms (rules ctx ! r)) 1 = Some (rule_min ctx r)"
  unfolding ready_def settled_def rule_min_def by fastforce

lemma ready_min_rule:
  assumes "ready ctx" and "nts_to_min_size ctx nt = Some v"
  shows "\<exists>r < length (rules ctx). nonterm (rules ctx ! r) = nt \<and> rule_min ctx r \<le> v"
    and "r < length (rules ctx) \<Longrightarrow> nonterm (rules ctx ! r) = nt \<Longrightarrow> v \<le> rule_min ctx r"
proof -
  have s: "\<forall>r < length (rules ctx). settled ctx r"
    using assms(1) by (simp add: ready_def)
  obtain t where t: "derives (rules ctx) nt t" "dsize t = v"
    using assms unfolding ready_def attained_def by blast
  obtain l ts where lt: "t = DNode l ts" by (cases t)
  then show "\<exists>r < length (rules ctx). nonterm (rules ctx ! r) = nt \<and> rule_min ctx r \<le> v"
    using t settled_lower_bound(2) [OF s, of "nonterms (rules ctx ! ID l)" ts] ready_rule_min [OF assms(1), of "ID l"]
    by (intro exI [of _ "ID l"]) (auto simp: dsize_DNode)
  assume "r < length (rules ctx)" "nonterm (rules ctx ! r) = nt"
  then show "v \<le> rule_min ctx r"
    using s assms(2) unfolding settled_def rule_min_def by fastforce
qed

lemma ready_min_known: "ready ctx \<Longrightarrow> r < length (rules ctx) \<Longrightarrow>
    nt \<in> insert (nonterm (rules ctx ! r)) (set (nonterms (rules ctx ! r))) \<Longrightarrow> \<exists>v > 0. nts_to_min_size ctx nt = Some v"
proof -
  assume rd: "ready ctx" and r: "r < length (rules ctx)"
    and nt: "nt \<in> insert (nonterm (rules ctx ! r)) (set (nonterms (rules ctx ! r)))"
  have "settled ctx r" using rd r by (simp add: ready_def)
  then obtain v where v: "nts_to_min_size ctx nt = Some v"
    using nt unfolding settled_def min_len_sum_Some by blast
  then have "\<exists>t. dsize t = v"
    using rd unfolding ready_def attained_def by blast
  then show ?thesis
    using v dsize_pos by blast
qed

section \<open>Choosing a rule\<close>

lemma applicable_loop_ok:
  "\<forall>r \<in> set rids. rules_to_min_size ctx r \<noteq> None \<and> rules_to_num_options ctx r \<noteq> None \<Longrightarrow>
     \<exists>res rs'. applicable_loop ctx mlen p rids rs = Inr (res, rs') \<and>
       set res \<subseteq> {r \<in> set rids. rule_min ctx r \<le> mlen} \<and>
       (99 \<le> p \<longrightarrow> res = takeWhile (\<lambda>r. rule_min ctx r \<le> mlen) rids)"
proof (induction rids arbitrary: rs)
  case (Cons rid rids)
  obtain mn opts where mn: "rules_to_min_size ctx rid = Some mn" and opts: "rules_to_num_options ctx rid = Some opts"
    using Cons.prems by auto
  obtain d rs1 where d: "Random 0 99 rs = (d, rs1)" by fastforce
  then have "d \<le> 99" using Random_bounds(2) by blast
  show ?case
    using Cons.IH [of rs] Cons.IH [of rs1] Cons.prems mn opts d \<open>d \<le> 99\<close>
    by (cases "mlen < mn"; cases "1 < opts") (auto simp: rule_min_def)
qed simp

lemma GetRandomRuleForNT_ready:
  assumes rd: "ready ctx" and v: "nts_to_min_size ctx nt = Some v" "v \<le> mlen"
  shows "\<exists>rid rs'. GetRandomRuleForNT ctx nt mlen rs = Inr (rid, rs') \<and>
    rid < length (rules ctx) \<and> nonterm (rules ctx ! rid) = nt \<and> rule_min ctx rid \<le> mlen"
proof -
  obtain r0 where r0: "r0 < length (rules ctx)" "nonterm (rules ctx ! r0) = nt" "rule_min ctx r0 \<le> mlen"
    using ready_min_rule(1) [OF rd v(1)] v(2) by fastforce
  obtain opts rids where opts: "nts_to_num_options ctx nt = Some opts" and rids: "nts_to_rules ctx nt = Some rids"
    using rd r0 unfolding ready_def by blast
  have set: "set rids = {r. r < length (rules ctx) \<and> nonterm (rules ctx ! r) = nt}"
    and sorted: "sorted (map (rule_min ctx) rids)"
    using rd rids unfolding ready_def by blast+
  have known: "\<forall>r \<in> set rids. rules_to_min_size ctx r \<noteq> None \<and> rules_to_num_options ctx r \<noteq> None"
    using rd ready_rule_min [OF rd] unfolding set ready_def by auto
  define p where "p = (if opts < 10 then 100 * 0 else if 100 < mlen then 2 * 0
                else if 20 < mlen then 50 * 0 else 100 * (0::nat))"
  obtain ar rs1 where ar: "GetApplicableRules ctx mlen nt p rs = Inr (ar, rs1)"
    and ar_in: "set ar \<subseteq> {r \<in> set rids. rule_min ctx r \<le> mlen}"
    using applicable_loop_ok [OF known, of mlen p rs] by (auto simp: GetApplicableRules_def rids)
  obtain ar2 rs2 where ar2: "GetApplicableRules ctx mlen nt 100 rs1 = Inr (ar2, rs2)"
    and ar2_in: "set ar2 \<subseteq> {r \<in> set rids. rule_min ctx r \<le> mlen}"
    and ar2_eq: "ar2 = takeWhile (\<lambda>r. rule_min ctx r \<le> mlen) rids"
    using applicable_loop_ok [OF known, of mlen 100 rs1] by (auto simp: GetApplicableRules_def rids)
  have "r0 \<in> set rids" using r0 set by simp
  then have "ar2 \<noteq> []"
    using r0(3) sorted unfolding ar2_eq by (cases rids) (auto dest: order_trans)
  then obtain x rs3 where "GetRandomRuleForNT ctx nt mlen rs = Inr (x, rs3)"
    and "x \<in> set ar \<or> x \<in> set ar2"
    using ar ar2 Choose_ok [of ar rs1] Choose_ok [of ar2 rs2]
    by (cases "ar = []") (auto simp: GetRandomRuleForNT_def opts p_def [symmetric] Let_def)
  then show ?thesis
    using ar_in ar2_in set by blast
qed

text \<open>
  On an initialised context, \<open>Context::GetRandomRuleForNT\<close> succeeds for every random source as
  soon as the length limit admits a smallest tree, and returns a rule of the nonterminal that can be
  completed within the limit.
\<close>

theorem GetRandomRuleForNT_ok:
  assumes "reg_wf ctx0" and "nts_to_min_size ctx0 = Map.empty" and "Initialize ctx0 n = Inr ctx"
    and "nts_to_min_size ctx nt = Some v" and "v \<le> mlen"
  shows "\<exists>rid rs'. GetRandomRuleForNT ctx nt mlen rs = Inr (rid, rs') \<and>
    rid < length (rules ctx) \<and> nonterm (rules ctx ! rid) = nt \<and>
    (\<exists>mn. rules_to_min_size ctx rid = Some mn \<and> v \<le> mn \<and> mn \<le> mlen)"
proof -
  have rd: "ready ctx" by (rule Initialize_result(1) [OF assms(1-3)])
  show ?thesis
    using GetRandomRuleForNT_ready [OF rd assms(4,5), of rs] ready_rule_min [OF rd] ready_min_rule(2) [OF rd assms(4)]
    by blast
qed

theorem GetRandomRuleForNT_ok_witness:
  "\<exists>rid rs'. GetRandomRuleForNT demo_ctx 0 2 [7, 3] = Inr (rid, rs') \<and>
    rid < length (rules demo_ctx) \<and> nonterm (rules demo_ctx ! rid) = 0 \<and>
    (\<exists>mn. rules_to_min_size demo_ctx rid = Some mn \<and> 2 \<le> mn \<and> mn \<le> 2)"
proof -
  have "nts_to_min_size demo_ctx 0 = Some 2"
    by (simp add: demo_ctx_def)
  then show ?thesis
    using GetRandomRuleForNT_ok [OF demo_grammar_wf demo_grammar_fresh demo_init, of 0 2 2] by blast
qed

lemma demo_ready: "ready demo_ctx"
  by (rule Initialize_result(1) [OF demo_grammar_wf demo_grammar_fresh demo_init])

end
