(* ===== verification/Nautilus_Tree.thy ===== *)
theory Nautilus_Tree
  imports Nautilus_Ready
begin

text \<open>
  Trees of Nautilus (\<open>algorithms/nautilus/grammartec/tree.cpp\<close>, \<open>tree.hpp\<close>): the flat representation by
  rules, subtree sizes and parents, its recomputation, subtree replacement, and the unparser. The
  abstract class \<open>TreeLike\<close> is the locale \<open>tree_like\<close>; \<open>Tree\<close> and \<open>TreeMutation\<close> are its instances.
\<close>

section \<open>Tree\<close>

record Tree =
  tree_rules :: "RuleIDOrCustom list"
  tree_sizes :: "nat list"
  tree_paren :: "NodeID list"

definition Tree_Size :: "Tree \<Rightarrow> nat" where
  "Tree_Size T = length (tree_rules T)"

definition Tree_GetRuleOrCustom :: "Tree \<Rightarrow> NodeID \<Rightarrow> RuleIDOrCustom result" where
  "Tree_GetRuleOrCustom T n = at_vec (tree_rules T) n"

definition Tree_GetRuleID :: "Tree \<Rightarrow> NodeID \<Rightarrow> RuleID result" where
  "Tree_GetRuleID T n = bindR (at_vec (tree_rules T) n) (\<lambda>r. Inr (ID r))"

definition Tree_GetRule :: "Tree \<Rightarrow> NodeID \<Rightarrow> Context \<Rightarrow> PlainRule result" where
  "Tree_GetRule T n ctx = bindR (Tree_GetRuleID T n) (\<lambda>r. GetRule ctx r)"

definition Tree_GetCustomRuleData :: "Tree \<Rightarrow> NodeID \<Rightarrow> string result" where
  "Tree_GetCustomRuleData T n = bindR (at_vec (tree_rules T) n) Data"

definition SubTreeSize :: "Tree \<Rightarrow> NodeID \<Rightarrow> nat result" where
  "SubTreeSize T n = at_vec (tree_sizes T) n"

definition GetParent :: "Tree \<Rightarrow> NodeID \<Rightarrow> NodeID option result" where
  "GetParent T n = (if n \<noteq> 0 then bindR (at_vec (tree_paren T) n) (\<lambda>p. Inr (Some p)) else Inr None)"

definition Slice :: "Tree \<Rightarrow> NodeID \<Rightarrow> NodeID \<Rightarrow> RuleIDOrCustom list" where
  "Slice T from to = take (to - from) (drop from (tree_rules T))"

definition Tree_ToTree :: "Tree \<Rightarrow> Tree" where
  "Tree_ToTree T = \<lparr>tree_rules = tree_rules T, tree_sizes = tree_sizes T, tree_paren = tree_paren T\<rparr>"

definition Truncate :: "Tree \<Rightarrow> Tree" where
  "Truncate T = \<lparr>tree_rules = [], tree_sizes = [], tree_paren = []\<rparr>"

text \<open>
  \<open>CalcParents\<close>: the loop over the rules with a stack of expected nonterminals and the nodes that
  expect them; the head of the list is the back of the vector.
\<close>

fun calc_parents_loop ::
  "Context \<Rightarrow> RuleIDOrCustom list \<Rightarrow> nat \<Rightarrow> (NTermID \<times> NodeID) list \<Rightarrow> NodeID list \<Rightarrow> NodeID list result" where
  "calc_parents_loop ctx [] i stack par = Inr par"
| "calc_parents_loop ctx (r # rs) i stack par =
     bindR (GetRule ctx (ID r)) (\<lambda>rule.
       case stack of
         [] \<Rightarrow> Inl (RuntimeError ''Not a valid tree for unparsing!'')
       | (nterm_id, node) # stack' \<Rightarrow>
           if nterm_id \<noteq> nonterm rule then Inl (RuntimeError ''Not a valid tree for unparsing!'')
           else calc_parents_loop ctx rs (Suc i) (map (\<lambda>nt. (nt, i)) (nonterms rule) @ stack') (par[i := node]))"

definition CalcParents :: "Context \<Rightarrow> Tree \<Rightarrow> Tree result" where
  "CalcParents ctx T =
     (if Tree_Size T = 0 then Inr T
      else bindR (Tree_GetRule T 0 ctx) (\<lambda>rule.
           bindR (calc_parents_loop ctx (tree_rules T) 0 [(nonterm rule, 0)] (tree_paren T)) (\<lambda>par.
             Inr (T\<lparr>tree_paren := par\<rparr>))))"

text \<open>
  \<open>CalcSizes\<close>: all sizes start at one, and from the last node down to the first child each size is
  added to the parent's. On an empty tree the index wraps around and \<open>at\<close> throws.
\<close>

fun calc_sizes_loop :: "nat \<Rightarrow> NodeID list \<Rightarrow> nat list \<Rightarrow> nat list result" where
  "calc_sizes_loop 0 par sizes = Inr sizes"
| "calc_sizes_loop (Suc i) par sizes =
     bindR (at_vec par (Suc i)) (\<lambda>p.
     bindR (at_vec sizes p) (\<lambda>v. calc_sizes_loop i par (sizes[p := v + sizes ! Suc i])))"

definition CalcSizes :: "Tree \<Rightarrow> Tree result" where
  "CalcSizes T =
     (if Tree_Size T = 0 then Inl OutOfRange
      else bindR (calc_sizes_loop (Tree_Size T - 1) (tree_paren T) (map (\<lambda>_. 1) (tree_sizes T)))
             (\<lambda>sizes. Inr (T\<lparr>tree_sizes := sizes\<rparr>)))"

definition CalcSubTreeSizesAndParents :: "Context \<Rightarrow> Tree \<Rightarrow> Tree result" where
  "CalcSubTreeSizesAndParents ctx T = bindR (CalcParents ctx T) CalcSizes"

text \<open>The constructor \<open>Tree(rules, ctx)\<close>.\<close>

definition Tree_new :: "RuleIDOrCustom list \<Rightarrow> Context \<Rightarrow> Tree result" where
  "Tree_new rs ctx =
     (let T = \<lparr>tree_rules = rs, tree_sizes = replicate (length rs) 0, tree_paren = replicate (length rs) 0\<rparr>
      in if 0 < length rs then CalcSubTreeSizesAndParents ctx T else Inr T)"

section \<open>TreeMutation\<close>

record TreeMutation =
  mut_prefix :: "RuleIDOrCustom list"
  mut_repl :: "RuleIDOrCustom list"
  mut_postfix :: "RuleIDOrCustom list"

definition GetAt :: "TreeMutation \<Rightarrow> NodeID \<Rightarrow> RuleIDOrCustom result" where
  "GetAt M i =
     (let end0 = length (mut_prefix M);
          end1 = end0 + length (mut_repl M);
          end2 = end1 + length (mut_postfix M)
      in if i < end0 then Inr (mut_prefix M ! i)
         else if i < end1 then Inr (mut_repl M ! (i - end0))
         else if i < end2 then Inr (mut_postfix M ! (i - end1))
         else Inl (RuntimeError ''Index out of bound for rule access''))"

definition Mut_GetRuleID :: "TreeMutation \<Rightarrow> NodeID \<Rightarrow> RuleID result" where
  "Mut_GetRuleID M n = bindR (GetAt M n) (\<lambda>r. Inr (ID r))"

definition Mut_GetRule :: "TreeMutation \<Rightarrow> NodeID \<Rightarrow> Context \<Rightarrow> PlainRule result" where
  "Mut_GetRule M n ctx = bindR (Mut_GetRuleID M n) (\<lambda>r. GetRule ctx r)"

definition Mut_GetCustomRuleData :: "TreeMutation \<Rightarrow> NodeID \<Rightarrow> string result" where
  "Mut_GetCustomRuleData M n = bindR (GetAt M n) Data"

definition Mut_Size :: "TreeMutation \<Rightarrow> nat" where
  "Mut_Size M = length (mut_prefix M) + length (mut_repl M) + length (mut_postfix M)"

definition Mut_ToTree :: "TreeMutation \<Rightarrow> Context \<Rightarrow> Tree result" where
  "Mut_ToTree M ctx = Tree_new (mut_prefix M @ mut_repl M @ mut_postfix M) ctx"

definition MutateReplaceFromTree :: "Tree \<Rightarrow> NodeID \<Rightarrow> Tree \<Rightarrow> NodeID \<Rightarrow> TreeMutation result" where
  "MutateReplaceFromTree T n other other_node =
     bindR (SubTreeSize T n) (\<lambda>old_size.
     bindR (SubTreeSize other other_node) (\<lambda>new_size.
       Inr \<lparr>mut_prefix = Slice T 0 n,
            mut_repl = Slice other other_node (other_node + new_size),
            mut_postfix = Slice T (n + old_size) (length (tree_rules T))\<rparr>))"

section \<open>Unparser\<close>

text \<open>
  The unparser works on any \<open>TreeLike\<close>; the virtual accessor \<open>GetRuleOrCustom\<close>, through which both
  subclasses define \<open>GetRule\<close>, is a parameter. Elements of the stack are terminals and nonterminals,
  the head of the list is the back of the vector.
\<close>

record Unparser =
  up_stack :: "RuleChild list"
  up_buffers :: "string list"
  up_w :: string
  up_i :: nat

definition like_GetRule :: "(NodeID \<Rightarrow> RuleIDOrCustom result) \<Rightarrow> NodeID \<Rightarrow> Context \<Rightarrow> PlainRule result" where
  "like_GetRule get n ctx = bindR (get n) (\<lambda>r. GetRule ctx (ID r))"

definition Unparser_new :: "(NodeID \<Rightarrow> RuleIDOrCustom result) \<Rightarrow> NodeID \<Rightarrow> string \<Rightarrow> Context \<Rightarrow> Unparser result" where
  "Unparser_new get nid w ctx =
     bindR (like_GetRule get nid ctx) (\<lambda>rule.
       Inr \<lparr>up_stack = [NTerm (nonterm rule)], up_buffers = [], up_w = w, up_i = nid\<rparr>)"

definition Write :: "string \<Rightarrow> Unparser \<Rightarrow> Unparser" where
  "Write data u =
     (if 0 < length (up_buffers u)
      then u\<lparr>up_buffers := butlast (up_buffers u) @ [last (up_buffers u) @ data]\<rparr>
      else u\<lparr>up_w := up_w u @ data\<rparr>)"

definition NextPlain :: "PlainRule \<Rightarrow> Unparser \<Rightarrow> Unparser" where
  "NextPlain r u = u\<lparr>up_stack := children r @ up_stack u\<rparr>"

definition NextRule :: "(NodeID \<Rightarrow> RuleIDOrCustom result) \<Rightarrow> Context \<Rightarrow> NTermID \<Rightarrow> Unparser \<Rightarrow> Unparser result" where
  "NextRule get ctx nt u =
     bindR (like_GetRule get (up_i u) ctx) (\<lambda>rule.
       if nt \<noteq> nonterm rule then Inl AssertFail
       else Inr (NextPlain rule (u\<lparr>up_i := Suc (up_i u)\<rparr>)))"

definition UnparseOneStep :: "(NodeID \<Rightarrow> RuleIDOrCustom result) \<Rightarrow> Context \<Rightarrow> Unparser \<Rightarrow> (Unparser \<times> bool) result" where
  "UnparseOneStep get ctx u =
     (case up_stack u of
        [] \<Rightarrow> Inr (u, False)
      | Term s # stack \<Rightarrow> Inr (Write s (u\<lparr>up_stack := stack\<rparr>), True)
      | NTerm nt # stack \<Rightarrow>
          bindR (NextRule get ctx nt (u\<lparr>up_stack := stack\<rparr>)) (\<lambda>u'. Inr (u', True)))"

text \<open>\<open>Unparser::Unparse\<close>: step until the stack is empty; \<open>None\<close> would be a run that never ends.\<close>

partial_function (option) unparse_loop ::
  "(NodeID \<Rightarrow> RuleIDOrCustom result) \<Rightarrow> Context \<Rightarrow> Unparser \<Rightarrow> Unparser result option" where
  "unparse_loop get ctx u =
     (case UnparseOneStep get ctx u of
        Inl e \<Rightarrow> Some (Inl e)
      | Inr (u', continue) \<Rightarrow> if continue then unparse_loop get ctx u' else Some (Inr u'))"

declare unparse_loop.simps [code]

text \<open>
  \<open>TreeLike::Unparse\<close> appends the text of the subtree at a node to \<open>data\<close>; the result holds the text
  and the node identifier that \<open>Unparser::Unparse\<close> returns.
\<close>

definition Unparse :: "(NodeID \<Rightarrow> RuleIDOrCustom result) \<Rightarrow> NodeID \<Rightarrow> Context \<Rightarrow> string \<Rightarrow> (string \<times> NodeID) result option" where
  "Unparse get n ctx data =
     (case Unparser_new get n data ctx of
        Inl e \<Rightarrow> Some (Inl e)
      | Inr u \<Rightarrow> map_option (\<lambda>r. bindR r (\<lambda>u'. Inr (up_w u', up_i u'))) (unparse_loop get ctx u))"

definition UnparseTo :: "(NodeID \<Rightarrow> RuleIDOrCustom result) \<Rightarrow> Context \<Rightarrow> string \<Rightarrow> (string \<times> NodeID) result option" where
  "UnparseTo get ctx data = Unparse get 0 ctx data"

definition UnparseNodeToVec :: "(NodeID \<Rightarrow> RuleIDOrCustom result) \<Rightarrow> NodeID \<Rightarrow> Context \<Rightarrow> string result option" where
  "UnparseNodeToVec get n ctx = map_option (\<lambda>r. bindR r (\<lambda>(w, i). Inr w)) (Unparse get n ctx [])"

definition UnparseToVec :: "(NodeID \<Rightarrow> RuleIDOrCustom result) \<Rightarrow> Context \<Rightarrow> string result option" where
  "UnparseToVec get ctx = UnparseNodeToVec get 0 ctx"

end
