(* ===== verification/Nautilus_Tree_Props.thy ===== *)
theory Nautilus_Tree_Props
  imports Nautilus_Tree
begin

text \<open>
  What the flat representation of \<open>Tree\<close> means: the constructor recovers sizes and parents of a
  derivation tree from its rules alone, replacing a subtree by one of the same nonterminal gives a
  derivation again, and the unparser writes the text that the tree derives.
\<close>

section \<open>Subtrees in preorder\<close>

fun subtrees :: "dtree \<Rightarrow> dtree list"
  and subtreess :: "dtree list \<Rightarrow> dtree list" where
  "subtrees (DNode l ts) = DNode l ts # subtreess ts"
| "subtreess [] = []"
| "subtreess (t # ts) = subtrees t @ subtreess ts"

lemma preorder_subtrees:
  "preorder t = map label (subtrees t)" "preorders ts = map label (subtreess ts)"
  by (induction t and ts rule: subtrees_subtreess.induct) simp_all

lemma length_subtrees: "length (subtrees t) = dsize t"
  by (simp add: dsize_def preorder_subtrees)

lemma subtrees_0 [simp]: "subtrees t ! 0 = t"
  by (cases t) simp

abbreviation psizes :: "dtree \<Rightarrow> nat list" where
  "psizes t \<equiv> map dsize (subtrees t)"

fun pparen :: "nat \<Rightarrow> nat \<Rightarrow> dtree \<Rightarrow> nat list"
  and pparens :: "nat \<Rightarrow> nat \<Rightarrow> dtree list \<Rightarrow> nat list" where
  "pparen p i (DNode l ts) = p # pparens i (Suc i) ts"
| "pparens p i [] = []"
| "pparens p i (t # ts) = pparen p i t @ pparens p (i + dsize t) ts"

lemma length_pparen:
  "length (pparen p i t) = dsize t" "length (pparens p i ts) = length (preorders ts)"
  by (induction p i t and p i ts rule: pparen_pparens.induct) (simp_all add: dsize_def)

text \<open>The representation of a derivation tree, and the trees of a grammar.\<close>

definition flat :: "dtree \<Rightarrow> Tree" where
  "flat t = \<lparr>tree_rules = preorder t, tree_sizes = psizes t, tree_paren = pparen 0 0 t\<rparr>"

definition nt_of :: "Context \<Rightarrow> dtree \<Rightarrow> NTermID" where
  "nt_of ctx t = nonterm (rules ctx ! ID (label t))"

definition valid_tree :: "Context \<Rightarrow> NTermID \<Rightarrow> Tree \<Rightarrow> bool" where
  "valid_tree ctx nt T \<longleftrightarrow> (\<exists>t. derives (rules ctx) nt t \<and> T = flat t)"

lemma derives_nt_of: "derives (rules ctx) nt t \<Longrightarrow> nt_of ctx t = nt"
  by (cases t) (simp add: nt_of_def)

lemma derives_subtrees:
  "derives (rules ctx) nt t \<Longrightarrow> \<forall>s \<in> set (subtrees t). derives (rules ctx) (nt_of ctx s) s"
  "derives_list (rules ctx) nts ts \<Longrightarrow> \<forall>s \<in> set (subtreess ts). derives (rules ctx) (nt_of ctx s) s"
  by (induction "rules ctx" nt t and "rules ctx" nts ts rule: derives_derives_list.induct)
     (auto simp: nt_of_def)

lemma derives_sub:
  fixes ctx :: Context
  shows "derives (rules ctx) nt t \<Longrightarrow> n < dsize t \<Longrightarrow>
     derives (rules ctx) (nonterm (rules ctx ! ID (preorder t ! n))) (subtrees t ! n)"
  using derives_subtrees(1) [of ctx nt t] by (fastforce simp: preorder_subtrees nt_of_def length_subtrees)

lemma derives_rule_known:
  "derives rls nt t \<Longrightarrow> \<forall>r \<in> set (preorder t). ID r < length rls"
  "derives_list rls nts ts \<Longrightarrow> \<forall>r \<in> set (preorders ts). ID r < length rls"
  by (induction rls nt t and rls nts ts rule: derives_derives_list.induct) auto

lemma preorder_sub:
  "n < dsize t \<Longrightarrow> take (dsize (subtrees t ! n)) (drop n (preorder t)) = preorder (subtrees t ! n) \<and>
     n + dsize (subtrees t ! n) \<le> dsize t"
  "n < length (preorders ts) \<Longrightarrow>
     take (dsize (subtreess ts ! n)) (drop n (preorders ts)) = preorder (subtreess ts ! n) \<and>
     n + dsize (subtreess ts ! n) \<le> length (preorders ts)"
proof (induction t and ts arbitrary: n and n rule: subtrees_subtreess.induct)
  case (1 l ts)
  then show ?case
    by (cases n) (auto simp: dsize_def)
next
  case (3 t ts)
  show ?case
  proof (cases "n < dsize t")
    case True
    then show ?thesis
      using 3(1) [of n] by (simp add: nth_append length_subtrees dsize_def)
  next
    case False
    then have "n - dsize t < length (preorders ts)"
      using 3(3) by (simp add: dsize_def)
    then show ?thesis
      using 3(2) [of "n - dsize t"] False by (auto simp: nth_append length_subtrees dsize_def)
  qed
qed simp

section \<open>Replacing a subtree\<close>

fun repl :: "nat \<Rightarrow> dtree \<Rightarrow> dtree \<Rightarrow> dtree"
  and repls :: "nat \<Rightarrow> dtree \<Rightarrow> dtree list \<Rightarrow> dtree list" where
  "repl n s (DNode l ts) = (case n of 0 \<Rightarrow> s | Suc m \<Rightarrow> DNode l (repls m s ts))"
| "repls n s [] = []"
| "repls n s (t # ts) = (if n < dsize t then repl n s t # ts else t # repls (n - dsize t) s ts)"

lemma preorder_repl:
  "n < dsize t \<Longrightarrow> preorder (repl n s t) =
     take n (preorder t) @ preorder s @ drop (n + dsize (subtrees t ! n)) (preorder t)"
  "n < length (preorders ts) \<Longrightarrow> preorders (repls n s ts) =
     take n (preorders ts) @ preorder s @ drop (n + dsize (subtreess ts ! n)) (preorders ts)"
proof (induction n s t and n s ts rule: repl_repls.induct)
  case (1 n s l ts)
  then show ?case
    by (cases n) (auto simp: dsize_def)
next
  case (3 n s t ts)
  show ?case
  proof (cases "n < dsize t")
    case True
    then show ?thesis
      using 3 preorder_sub(1) [of n t] by (simp add: nth_append length_subtrees dsize_def)
  next
    case False
    then show ?thesis
      using 3 by (simp add: nth_append length_subtrees dsize_def)
  qed
qed simp

lemma derives_repl:
  "derives (rules ctx) nt t \<Longrightarrow> n < dsize t \<Longrightarrow> derives (rules ctx) (nt_of ctx (subtrees t ! n)) s \<Longrightarrow>
     derives (rules ctx) nt (repl n s t)"
  "derives_list (rules ctx) nts ts \<Longrightarrow> n < length (preorders ts) \<Longrightarrow>
     derives (rules ctx) (nt_of ctx (subtreess ts ! n)) s \<Longrightarrow>
     derives_list (rules ctx) nts (repls n s ts)"
proof (induction n s t and n s ts arbitrary: nt and nts rule: repl_repls.induct)
  case (1 n s l ts)
  then show ?case
    by (cases n) (auto simp: dsize_def nt_of_def)
next
  case (3 n s t ts)
  show ?case
  proof (cases "n < dsize t")
    case True
    then show ?thesis
      using 3 by (cases nts) (auto simp: nth_append length_subtrees dsize_def)
  next
    case False
    then show ?thesis
      using 3 by (cases nts) (auto simp: nth_append length_subtrees dsize_def)
  qed
qed simp

section \<open>Parents and sizes are recovered from the rules\<close>

lemma calc_parents_loop_tree:
  "derives (rules ctx) nt t \<Longrightarrow> length a = i \<Longrightarrow> length b = dsize t \<Longrightarrow>
     calc_parents_loop ctx (preorder t @ rest) i ((nt, p) # st) (a @ b @ c) =
     calc_parents_loop ctx rest (i + dsize t) st (a @ pparen p i t @ c)"
  "derives_list (rules ctx) nts ts \<Longrightarrow> length a = i \<Longrightarrow> length b = length (preorders ts) \<Longrightarrow>
     calc_parents_loop ctx (preorders ts @ rest) i (map (\<lambda>nt. (nt, p)) nts @ st) (a @ b @ c) =
     calc_parents_loop ctx rest (i + length (preorders ts)) st (a @ pparens p i ts @ c)"
proof (induction p i t and p i ts arbitrary: nt a b c rest st and nts a b c rest st rule: pparen_pparens.induct)
  case (1 p i l ts)
  obtain x b' where b: "b = x # b'" "length b' = length (preorders ts)"
    using 1(4) by (cases b) (auto simp: dsize_def)
  have d: "ID l < length (rules ctx)" "nonterm (rules ctx ! ID l) = nt"
    "derives_list (rules ctx) (nonterms (rules ctx ! ID l)) ts"
    using 1(2) by simp_all
  have "calc_parents_loop ctx (preorder (DNode l ts) @ rest) i ((nt, p) # st) (a @ b @ c) =
     calc_parents_loop ctx (preorders ts @ rest) (Suc i)
       (map (\<lambda>nt. (nt, i)) (nonterms (rules ctx ! ID l)) @ st) ((a @ [p]) @ b' @ c)"
    using d 1(3) by (auto simp: GetRule_def b)
  also have "\<dots> = calc_parents_loop ctx rest (Suc i + length (preorders ts)) st ((a @ [p]) @ pparens i (Suc i) ts @ c)"
    using 1(3) by (intro 1(1) d b) simp
  finally show ?case by (simp add: dsize_def)
next
  case (3 p i t ts)
  obtain m ms where nts: "nts = m # ms" "derives (rules ctx) m t" "derives_list (rules ctx) ms ts"
    using 3(3) by (cases nts) auto
  obtain b1 b2 where b: "b = b1 @ b2" and l: "length b1 = dsize t" "length b2 = length (preorders ts)"
    using 3(5) that [of "take (dsize t) b" "drop (dsize t) b"] by (simp add: dsize_def)
  have "calc_parents_loop ctx (preorder t @ preorders ts @ rest) i ((m, p) # map (\<lambda>nt. (nt, p)) ms @ st) (a @ b1 @ b2 @ c) =
     calc_parents_loop ctx (preorders ts @ rest) (i + dsize t) (map (\<lambda>nt. (nt, p)) ms @ st) (a @ pparen p i t @ b2 @ c)"
    by (rule 3(1) [OF nts(2) 3(4) l(1)])
  also have "\<dots> = calc_parents_loop ctx rest (i + dsize t + length (preorders ts)) st
      ((a @ pparen p i t) @ pparens p (i + dsize t) ts @ c)"
    using 3(2) [OF nts(3) _ l(2), of "a @ pparen p i t"] 3(4) by (simp add: length_pparen)
  finally show ?case
    by (simp add: nts(1) b dsize_def add.assoc)
next
  case (2 p i)
  then show ?case by (cases nts) simp_all
qed

lemma replicate_add_Cons: "replicate (Suc m + n) x = x # replicate m x @ replicate n x"
  by (simp add: replicate_add)

lemma calc_sizes_loop_tree:
  "length a = Suc i \<Longrightarrow> p < Suc i \<Longrightarrow> length pa = Suc i \<Longrightarrow>
     par = pa @ pparen p (Suc i) t @ pc \<Longrightarrow>
     calc_sizes_loop (i + dsize t) par (a @ replicate (dsize t) 1 @ c) =
     calc_sizes_loop i par (a[p := a ! p + dsize t] @ psizes t @ c)"
  "length a = Suc i \<Longrightarrow> p < Suc i \<Longrightarrow> length pa = Suc i \<Longrightarrow>
     par = pa @ pparens p (Suc i) ts @ pc \<Longrightarrow>
     calc_sizes_loop (i + length (preorders ts)) par (a @ replicate (length (preorders ts)) 1 @ c) =
     calc_sizes_loop i par (a[p := a ! p + length (preorders ts)] @ map dsize (subtreess ts) @ c)"
proof (induction t and ts arbitrary: i p a c pa pc and i p a c pa pc rule: subtrees_subtreess.induct)
  case (1 l ts)
  have d: "dsize (DNode l ts) = Suc (length (preorders ts))" by (simp add: dsize_def)
  have "calc_sizes_loop (Suc i + length (preorders ts)) par ((a @ [1]) @ replicate (length (preorders ts)) 1 @ c) =
    calc_sizes_loop (Suc i) par ((a @ [1])[Suc i := (a @ [1]) ! Suc i + length (preorders ts)] @ map dsize (subtreess ts) @ c)"
    by (rule 1(1) [where pa = "pa @ [p]" and pc = pc]) (use 1(2-5) in simp_all)
  also have "\<dots> = calc_sizes_loop (Suc i) par (a @ [dsize (DNode l ts)] @ map dsize (subtreess ts) @ c)"
    using 1(2) by (simp add: d list_update_append nth_append)
  also have "\<dots> = calc_sizes_loop i par (a[p := a ! p + dsize (DNode l ts)] @ psizes (DNode l ts) @ c)"
    using 1(2-5) by (simp add: nth_append list_update_append)
  finally show ?case by (simp add: d)
next
  case (3 t ts)
  let ?n = "length (preorders ts)"
  have e: "length (preorders (t # ts)) = dsize t + ?n" by (simp add: dsize_def)
  have "calc_sizes_loop ((i + dsize t) + ?n) par ((a @ replicate (dsize t) 1) @ replicate ?n 1 @ c) =
    calc_sizes_loop (i + dsize t) par
      ((a @ replicate (dsize t) 1)[p := (a @ replicate (dsize t) 1) ! p + ?n] @ map dsize (subtreess ts) @ c)"
    by (rule 3(2) [where pa = "pa @ pparen p (Suc i) t" and pc = pc])
       (use 3(3-6) in \<open>simp_all add: length_pparen\<close>)
  also have "\<dots> = calc_sizes_loop (i + dsize t) par
      (a[p := a ! p + ?n] @ replicate (dsize t) 1 @ map dsize (subtreess ts) @ c)"
    using 3(3,4) by (simp add: list_update_append nth_append)
  also have "\<dots> = calc_sizes_loop i par
      ((a[p := a ! p + ?n])[p := a[p := a ! p + ?n] ! p + dsize t] @ psizes t @ map dsize (subtreess ts) @ c)"
    by (rule 3(1) [where pa = pa and pc = "pparens p (Suc i + dsize t) ts @ pc"])
       (use 3(3-6) in simp_all)
  finally show ?case
    unfolding e using 3(3,4) by (simp add: replicate_add ac_simps)
qed simp

lemma CalcParents_flat:
  assumes "derives (rules ctx) nt t" and "tree_rules T = preorder t" and "length (tree_paren T) = dsize t"
  shows "CalcParents ctx T = Inr (T\<lparr>tree_paren := pparen 0 0 t\<rparr>)"
proof -
  obtain l ts where t: "t = DNode l ts" by (cases t)
  have "calc_parents_loop ctx (preorder t) 0 [(nt, 0)] (tree_paren T) = Inr (pparen 0 0 t)"
    using calc_parents_loop_tree(1) [OF assms(1), of "[]" 0 "tree_paren T" "[]" 0 "[]" "[]"] assms(3) by simp
  then show ?thesis
    using assms(1,2) by (simp add: CalcParents_def Tree_Size_def Tree_GetRule_def Tree_GetRuleID_def GetRule_def t)
qed

lemma CalcSizes_flat:
  assumes "tree_rules T = preorder t" and "length (tree_sizes T) = dsize t" and "tree_paren T = pparen 0 0 t"
  shows "CalcSizes T = Inr (T\<lparr>tree_sizes := psizes t\<rparr>)"
proof -
  obtain l ts where t: "t = DNode l ts" by (cases t)
  let ?n = "length (preorders ts)"
  have "calc_sizes_loop (0 + ?n) (pparen 0 0 t) ([1] @ replicate ?n 1 @ []) =
      calc_sizes_loop 0 (pparen 0 0 t) ([1::nat][0 := [1] ! 0 + ?n] @ map dsize (subtreess ts) @ [])"
    by (rule calc_sizes_loop_tree(2) [where pa = "[0]" and pc = "[]" and p = 0]) (simp_all add: t)
  then have "calc_sizes_loop ?n (pparen 0 0 t) (replicate (Suc ?n) 1) = Inr (psizes t)"
    by (simp add: t dsize_def)
  then show ?thesis
    using assms by (simp add: CalcSizes_def Tree_Size_def t dsize_def map_replicate_const)
qed

lemma Tree_new_flat: "derives (rules ctx) nt t \<Longrightarrow> Tree_new (preorder t) ctx = Inr (flat t)"
  by (simp add: Tree_new_def CalcSubTreeSizesAndParents_def Let_def dsize_def CalcParents_flat CalcSizes_flat flat_def)

text \<open>
  C33. The constructor \<open>Tree(rules, ctx)\<close>, given the rules of a derivation tree in preorder, returns
  without an error the tree whose sizes are the sizes of the subtrees and whose parents are the
  positions of the parent nodes.
\<close>

theorem Tree_new_recovers_structure:
  fixes ctx :: Context
  assumes "derives (rules ctx) nt t"
  shows "Tree_new (preorder t) ctx =
    Inr \<lparr>tree_rules = preorder t, tree_sizes = map dsize (subtrees t), tree_paren = pparen 0 0 t\<rparr>"
  using Tree_new_flat [OF assms] by (simp add: flat_def)

definition demo_tree :: dtree where
  "demo_tree = DNode (PlainID 0) [DNode (PlainID 0) [DNode (PlainID 1) [DNode (PlainID 2) []]]]"

lemma demo_rules: "rules demo_ctx = rules demo_grammar"
  by (simp add: demo_ctx_def)

lemma demo_tree_derives: "derives (rules demo_ctx) 0 demo_tree"
  by (simp add: demo_rules demo_defs demo_tree_def)

theorem Tree_new_recovers_structure_witness:
  "Tree_new [PlainID 0, PlainID 0, PlainID 1, PlainID 2] demo_ctx =
     Inr \<lparr>tree_rules = [PlainID 0, PlainID 0, PlainID 1, PlainID 2], tree_sizes = [4, 3, 2, 1], tree_paren = [0, 0, 1, 2]\<rparr>"
  using Tree_new_recovers_structure [OF demo_tree_derives] by (simp add: demo_tree_def dsize_def)

section \<open>Subtree replacement\<close>

lemma flat_fields [simp]:
  "tree_rules (flat t) = preorder t" "tree_sizes (flat t) = psizes t" "tree_paren (flat t) = pparen 0 0 t"
  by (simp_all add: flat_def)

lemma SubTreeSize_flat [simp]: "n < dsize t \<Longrightarrow> SubTreeSize (flat t) n = Inr (dsize (subtrees t ! n))"
  by (simp add: SubTreeSize_def length_subtrees)

lemma MutateReplaceFromTree_flat:
  assumes "n < dsize t" and "m < dsize u"
  shows "MutateReplaceFromTree (flat t) n (flat u) m =
    Inr \<lparr>mut_prefix = take n (preorder t), mut_repl = preorder (subtrees u ! m),
         mut_postfix = drop (n + dsize (subtrees t ! n)) (preorder t)\<rparr>"
  using assms preorder_sub(1) [of m u] preorder_sub(1) [of n t]
  by (simp add: MutateReplaceFromTree_def Slice_def dsize_def)

lemma Mut_ToTree_flat:
  assumes "derives (rules ctx) nt t" and "n < dsize t" and "derives (rules ctx) (nt_of ctx (subtrees t ! n)) s"
  shows "Mut_ToTree \<lparr>mut_prefix = take n (preorder t), mut_repl = preorder s,
      mut_postfix = drop (n + dsize (subtrees t ! n)) (preorder t)\<rparr> ctx = Inr (flat (repl n s t))"
  using Tree_new_flat [OF derives_repl(1) [OF assms]] preorder_repl(1) [OF assms(2)]
  by (simp add: Mut_ToTree_def)

text \<open>
  C34. \<open>Tree::MutateReplaceFromTree\<close> followed by \<open>TreeMutation::ToTree\<close>: replacing the subtree at a node
  by a subtree of another tree with the same nonterminal gives the tree of a derivation again, with
  correct sizes and parents, whose rules are the spliced ones.
\<close>

theorem MutateReplaceFromTree_valid:
  assumes "valid_tree ctx nt T" and "valid_tree ctx nt' U" and "n < Tree_Size T" and "m < Tree_Size U"
    and "Tree_GetRule T n ctx = Inr r1" and "Tree_GetRule U m ctx = Inr r2" and "nonterm r1 = nonterm r2"
  shows "\<exists>M V. MutateReplaceFromTree T n U m = Inr M \<and> Mut_ToTree M ctx = Inr V \<and> valid_tree ctx nt V \<and>
    tree_rules V = take n (tree_rules T) @ take (tree_sizes U ! m) (drop m (tree_rules U)) @
      drop (n + tree_sizes T ! n) (tree_rules T)"
proof -
  obtain t u where t: "derives (rules ctx) nt t" "T = flat t" and u: "derives (rules ctx) nt' u" "U = flat u"
    using assms(1,2) by (auto simp: valid_tree_def)
  have n: "n < dsize t" and m: "m < dsize u"
    using assms(3,4) by (simp_all add: t(2) u(2) Tree_Size_def dsize_def)
  have "nt_of ctx (subtrees t ! n) = nt_of ctx (subtrees u ! m)"
    using assms(5-7) n m
    by (auto simp: nt_of_def t(2) u(2) Tree_GetRule_def Tree_GetRuleID_def GetRule_def bindR_eq_Inr
        preorder_subtrees length_subtrees)
  then have d: "derives (rules ctx) (nt_of ctx (subtrees t ! n)) (subtrees u ! m)"
    using derives_sub [OF u(1) m] m by (simp add: nt_of_def preorder_subtrees length_subtrees)
  show ?thesis
    using MutateReplaceFromTree_flat [OF n m] Mut_ToTree_flat [OF t(1) n d] derives_repl(1) [OF t(1) n d]
      preorder_repl(1) [OF n, of "subtrees u ! m"] preorder_sub(1) [OF m] n m
    by (auto simp: t(2) u(2) valid_tree_def length_subtrees)
qed

theorem MutateReplaceFromTree_valid_witness:
  "\<exists>M V. MutateReplaceFromTree (flat demo_tree) 1 (flat demo_tree) 2 = Inr M \<and> Mut_ToTree M demo_ctx = Inr V \<and>
     valid_tree demo_ctx 0 V \<and> tree_rules V = [PlainID 0, PlainID 1, PlainID 2]"
proof -
  have v: "valid_tree demo_ctx 0 (flat demo_tree)"
    using demo_tree_derives by (auto simp: valid_tree_def)
  have r: "1 < Tree_Size (flat demo_tree)" "2 < Tree_Size (flat demo_tree)"
    "Tree_GetRule (flat demo_tree) 1 demo_ctx = Inr (rules demo_ctx ! 0)"
    "Tree_GetRule (flat demo_tree) 2 demo_ctx = Inr (rules demo_ctx ! 1)"
    "nonterm (rules demo_ctx ! 0) = nonterm (rules demo_ctx ! 1)"
    by (simp_all add: demo_tree_def Tree_Size_def Tree_GetRule_def Tree_GetRuleID_def GetRule_def demo_rules demo_defs)
  show ?thesis
    using MutateReplaceFromTree_valid [OF v v r] by (simp add: demo_tree_def dsize_def numeral_2_eq_2)
qed

section \<open>Unparsing any tree-like object\<close>

text \<open>The text that a tree derives: literals in order, nonterminals replaced by the children's texts.\<close>

fun fill :: "RuleChild list \<Rightarrow> string list \<Rightarrow> string" where
  "fill [] ss = []"
| "fill (Term s # cs) ss = s @ fill cs ss"
| "fill (NTerm n # cs) (s # ss) = s @ fill cs ss"
| "fill (NTerm n # cs) [] = fill cs []"

fun dyield :: "PlainRule list \<Rightarrow> dtree \<Rightarrow> string" where
  "dyield rls (DNode l ts) = fill (children (rls ! ID l)) (map (dyield rls) ts)"

text \<open>
  The contract of \<open>TreeLike\<close>: an accessor that returns the stored rules in range and fails outside.
\<close>

locale tree_like =
  fixes get :: "'t \<Rightarrow> NodeID \<Rightarrow> RuleIDOrCustom result"
    and size_of :: "'t \<Rightarrow> nat"
    and rules_of :: "'t \<Rightarrow> RuleIDOrCustom list"
  assumes get_in: "n < size_of T \<Longrightarrow> get T n = Inr (rules_of T ! n)"
    and get_out: "size_of T \<le> n \<Longrightarrow> isl (get T n)"
    and size_rules: "size_of T = length (rules_of T)"
begin

lemma like_GetRule_in:
  "n < size_of T \<Longrightarrow> ID (rules_of T ! n) < length (rules ctx) \<Longrightarrow>
     like_GetRule (get T) n ctx = Inr (rules ctx ! ID (rules_of T ! n))"
  by (simp add: like_GetRule_def get_in GetRule_def)

lemma like_GetRule_out: "size_of T \<le> n \<Longrightarrow> \<exists>e. like_GetRule (get T) n ctx = Inl e"
  using get_out [of T n] by (auto simp: like_GetRule_def isl_def)

text \<open>Unparsing comes to an end on every object, well-formed or not: a rule is consumed or the stack shrinks.\<close>

lemma unparse_loop_terminates: "\<exists>r. unparse_loop (get T) ctx u = Some r"
proof (induction u rule: wf_induct_rule [OF wf_measures [of "[\<lambda>u. size_of T - up_i u, \<lambda>u. length (up_stack u)]"]])
  case (1 u)
  show ?case
  proof (cases "UnparseOneStep (get T) ctx u")
    case (Inl e)
    then show ?thesis by (subst unparse_loop.simps) simp
  next
    case (Inr res)
    obtain u' b where res: "res = (u', b)" by (cases res)
    have "(u', u) \<in> measures [\<lambda>u. size_of T - up_i u, \<lambda>u. length (up_stack u)]" if b
    proof (cases "up_i u < size_of T")
      case True
      then show ?thesis
        using Inr that by (auto simp: res UnparseOneStep_def NextRule_def NextPlain_def Write_def bindR_eq_Inr
            split: list.splits RuleChild.splits if_splits)
    next
      case False
      then obtain e where "like_GetRule (get T) (up_i u) ctx = Inl e"
        using like_GetRule_out [of T "up_i u" ctx] by auto
      then show ?thesis
        using Inr that by (auto simp: res UnparseOneStep_def NextRule_def Write_def
            split: list.splits RuleChild.splits)
    qed
    then show ?thesis
      using 1 [of u'] Inr by (subst unparse_loop.simps) (simp add: res)
  qed
qed

lemma Unparse_terminates: "\<exists>r. Unparse (get T) n ctx d = Some r"
  using unparse_loop_terminates [of T ctx] by (auto simp: Unparse_def split: sum.splits)

definition at_rules :: "'t \<Rightarrow> nat \<Rightarrow> RuleIDOrCustom list \<Rightarrow> bool" where
  "at_rules T i rs \<longleftrightarrow> i + length rs \<le> size_of T \<and> take (length rs) (drop i (rules_of T)) = rs"

lemma at_rules_Cons: "at_rules T i (r # rs) \<longleftrightarrow> i < size_of T \<and> rules_of T ! i = r \<and> at_rules T (Suc i) rs"
proof (cases "i < size_of T")
  case True
  then have "drop i (rules_of T) = rules_of T ! i # drop (Suc i) (rules_of T)"
    by (simp add: Cons_nth_drop_Suc size_rules)
  then show ?thesis
    using True by (auto simp: at_rules_def)
qed (simp add: at_rules_def)

lemma at_rules_append: "at_rules T i (rs @ qs) \<longleftrightarrow> at_rules T i rs \<and> at_rules T (i + length rs) qs"
  by (induction rs arbitrary: i) (auto simp: at_rules_Cons, auto simp: at_rules_def)

lemma unparse_loop_yield:
  assumes "\<forall>r \<in> set (rules ctx). rule_wf r"
  shows "derives (rules ctx) nt t \<Longrightarrow> at_rules T i (preorder t) \<Longrightarrow>
     unparse_loop (get T) ctx \<lparr>up_stack = NTerm nt # st, up_buffers = [], up_w = w, up_i = i\<rparr> =
     unparse_loop (get T) ctx \<lparr>up_stack = st, up_buffers = [], up_w = w @ dyield (rules ctx) t, up_i = i + dsize t\<rparr>"
  and "derives_list (rules ctx) (nonterms_of cs) ts \<Longrightarrow> at_rules T i (preorders ts) \<Longrightarrow>
     unparse_loop (get T) ctx \<lparr>up_stack = cs @ st, up_buffers = [], up_w = w, up_i = i\<rparr> =
     unparse_loop (get T) ctx \<lparr>up_stack = st, up_buffers = [], up_w = w @ fill cs (map (dyield (rules ctx)) ts),
       up_i = i + length (preorders ts)\<rparr>"
proof (induction t and ts arbitrary: nt i w st and cs i w st rule: subtrees_subtreess.induct)
  case (1 l ts)
  let ?r = "rules ctx ! ID l"
  have d: "ID l < length (rules ctx)" "nonterm ?r = nt" "derives_list (rules ctx) (nonterms ?r) ts"
    and i: "i < size_of T" "rules_of T ! i = l" "at_rules T (Suc i) (preorders ts)"
    using 1(2,3) by (simp_all add: at_rules_Cons)
  have wf: "nonterms ?r = nonterms_of (children ?r)"
    using assms d(1) by (simp add: rule_wf_def)
  show ?case
    using 1(1) [OF d(3) [unfolded wf] i(3), of st w] d i
    by (subst unparse_loop.simps)
       (simp add: UnparseOneStep_def NextRule_def NextPlain_def like_GetRule_in dsize_def)
next
  case 2
  then show ?case
  proof (induction cs arbitrary: w)
    case (Cons c cs)
    then show ?case
      by (cases c; subst unparse_loop.simps) (simp_all add: UnparseOneStep_def Write_def)
  qed simp
next
  case (3 t ts)
  note IHs = 3(1,2)
  show ?case
    using 3(3,4)
  proof (induction cs arbitrary: w)
    case (Cons c cs)
    show ?case
    proof (cases c)
      case (Term s)
      then show ?thesis
        using Cons by (subst unparse_loop.simps) (simp add: UnparseOneStep_def Write_def)
    next
      case (NTerm m)
      then show ?thesis
        using Cons(2,3) IHs(1) [of m i "cs @ st" w] IHs(2) [of cs "i + dsize t" st "w @ dyield (rules ctx) t"]
        by (simp add: at_rules_append dsize_def add.assoc)
    qed
  qed simp
qed

lemma Unparse_yield:
  assumes "\<forall>r \<in> set (rules ctx). rule_wf r" and "derives (rules ctx) nt t" and "at_rules T n (preorder t)"
  shows "Unparse (get T) n ctx d = Some (Inr (d @ dyield (rules ctx) t, n + dsize t))"
proof -
  obtain l ts where t: "t = DNode l ts" by (cases t)
  have "like_GetRule (get T) n ctx = Inr (rules ctx ! ID l)" "nonterm (rules ctx ! ID l) = nt"
    using assms(2,3) like_GetRule_in by (auto simp: t at_rules_Cons)
  moreover have "unparse_loop (get T) ctx \<lparr>up_stack = [], up_buffers = [], up_w = w, up_i = i\<rparr> =
      Some (Inr \<lparr>up_stack = [], up_buffers = [], up_w = w, up_i = i\<rparr>)" for w i
    by (subst unparse_loop.simps) (simp add: UnparseOneStep_def)
  ultimately show ?thesis
    using unparse_loop_yield(1) [OF assms] by (simp add: Unparse_def Unparser_new_def)
qed

end

interpretation tl: tree_like Tree_GetRuleOrCustom Tree_Size tree_rules
  by unfold_locales (auto simp: Tree_GetRuleOrCustom_def Tree_Size_def isl_def at_vec_def)

lemma GetAt_append:
  "i < Mut_Size M \<Longrightarrow> GetAt M i = Inr ((mut_prefix M @ mut_repl M @ mut_postfix M) ! i)"
  by (auto simp: GetAt_def Mut_Size_def nth_append Let_def)

interpretation ml: tree_like GetAt Mut_Size "\<lambda>M. mut_prefix M @ mut_repl M @ mut_postfix M"
  by unfold_locales (auto simp: GetAt_append, auto simp: GetAt_def Mut_Size_def isl_def Let_def)

text \<open>
  \<open>TreeLike::Unparse\<close> comes to an end on every tree mutation and every node, also where the spliced
  rules do not form a tree.
\<close>

theorem Unparse_always_ends: "\<exists>r. Unparse (GetAt M) n ctx d = Some r"
  by (rule ml.Unparse_terminates)

lemma valid_at_rules:
  "n < dsize t \<Longrightarrow> tl.at_rules (flat t) n (preorder (subtrees t ! n))"
  using preorder_sub(1) [of n t] by (simp add: tl.at_rules_def Tree_Size_def dsize_def)

text \<open>
  On a tree of the grammar, \<open>TreeLike::UnparseNodeToVec\<close> returns at every node exactly the text
  that the derivation below the node yields.
\<close>

theorem UnparseNodeToVec_yield:
  fixes ctx :: Context
  assumes "\<forall>r \<in> set (rules ctx). rule_wf r" and "derives (rules ctx) nt t" and "n < dsize t"
  shows "UnparseNodeToVec (Tree_GetRuleOrCustom (flat t)) n ctx =
    Some (Inr (dyield (rules ctx) (subtrees t ! n)))"
  using tl.Unparse_yield [OF assms(1) derives_sub [OF assms(2,3)] valid_at_rules [OF assms(3)], of "[]"]
  by (simp add: UnparseNodeToVec_def)

lemma demo_rules_wf: "\<forall>r \<in> set (rules demo_ctx). rule_wf r"
  by (simp add: demo_rules demo_defs rule_wf_def)

theorem UnparseNodeToVec_yield_witness:
  "UnparseNodeToVec (Tree_GetRuleOrCustom (flat demo_tree)) 1 demo_ctx = Some (Inr ''acb'')"
  using UnparseNodeToVec_yield [OF demo_rules_wf demo_tree_derives, of 1]
  by (simp add: demo_tree_def dsize_def demo_rules demo_defs)

text \<open>
  C35. A tree mutation and the tree that \<open>ToTree\<close> makes of it unparse to the same text: what is
  executed during mutation is what is stored afterwards.
\<close>

theorem mutation_unparses_as_tree:
  fixes ctx :: Context
  assumes "\<forall>r \<in> set (rules ctx). rule_wf r" and "derives (rules ctx) nt t"
    and "mut_prefix M @ mut_repl M @ mut_postfix M = preorder t"
  shows "\<exists>V. Mut_ToTree M ctx = Inr V \<and>
    UnparseToVec (GetAt M) ctx = UnparseToVec (Tree_GetRuleOrCustom V) ctx \<and>
    UnparseToVec (GetAt M) ctx = Some (Inr (dyield (rules ctx) t))"
proof -
  have "ml.at_rules M 0 (preorder t)"
    by (simp add: ml.at_rules_def Mut_Size_def flip: assms(3))
  then show ?thesis
    using ml.Unparse_yield [OF assms(1,2), of M 0 "[]"] Tree_new_flat [OF assms(2)]
      tl.Unparse_yield [OF assms(1,2), of "flat t" 0 "[]"] valid_at_rules [of 0 t]
    by (simp add: Mut_ToTree_def assms(3) UnparseToVec_def UnparseNodeToVec_def)
qed

theorem mutation_unparses_as_tree_witness:
  "UnparseToVec (GetAt \<lparr>mut_prefix = [PlainID 0], mut_repl = [PlainID 0, PlainID 1], mut_postfix = [PlainID 2]\<rparr>) demo_ctx =
     Some (Inr ''aacbb'')"
  using mutation_unparses_as_tree [OF demo_rules_wf demo_tree_derives,
      of "\<lparr>mut_prefix = [PlainID 0], mut_repl = [PlainID 0, PlainID 1], mut_postfix = [PlainID 2]\<rparr>"]
  by (auto simp: demo_tree_def demo_rules demo_defs)

end
