(* ===== verification/Nautilus_Generate.thy ===== *)
theory Nautilus_Generate
  imports Nautilus_Tree_Props
begin

text \<open>
  Random generation of trees: \<open>Rule::Generate\<close> (\<open>rule.cpp\<close>), \<open>Tree::GenerateFromRule\<close> and \<open>GenerateFromNT\<close>
  (\<open>tree.cpp\<close>), \<open>Context::GenerateTreeFromRule\<close> and \<open>GenerateTreeFromNT\<close> (\<open>context.cpp\<close>). The recursion of
  \<open>Generate\<close> is bounded by fuel; the length limit drops at every level, so \<open>len + 1\<close> is enough, and the
  theorems show that the bound is never reached and that no \<open>DEBUG_ASSERT\<close> fails.
\<close>

section \<open>Generate\<close>

fun minimal_needed :: "Context \<Rightarrow> NTermID list \<Rightarrow> nat \<Rightarrow> nat result" where
  "minimal_needed ctx [] acc = Inr acc"
| "minimal_needed ctx (nt # nts) acc = bindR (GetMinLenForNT ctx nt) (\<lambda>v. minimal_needed ctx nts (acc + v))"

text \<open>The loop over the nonterminals of a rule; \<open>gen\<close> is the recursive call.\<close>

fun generate_loop ::
  "(PlainRule \<Rightarrow> Tree \<Rightarrow> nat \<Rightarrow> rng \<Rightarrow> (nat \<times> Tree \<times> rng) result) \<Rightarrow> Context \<Rightarrow> NodeID \<Rightarrow> NTermID list \<Rightarrow>
     nat \<Rightarrow> nat \<Rightarrow> Tree \<Rightarrow> rng \<Rightarrow> (nat \<times> Tree \<times> rng) result" where
  "generate_loop gen ctx paren [] remaining total_size T rs = Inr (total_size, T, rs)"
| "generate_loop gen ctx paren (nt # nts) remaining total_size T rs =
     (case GetRandomLen (length (nt # nts)) remaining rs of (rlen, rs1) \<Rightarrow>
      bindR (GetMinLenForNT ctx nt) (\<lambda>mn.
      let cur = rlen + mn in
      bindR (GetRandomRuleForNT ctx nt cur rs1) (\<lambda>(rid, rs2).
        if length (tree_rules T) \<noteq> length (tree_sizes T) \<or> length (tree_paren T) \<noteq> length (tree_sizes T)
        then Inl AssertFail
        else
          let offset = Tree_Size T;
              T1 = \<lparr>tree_rules = tree_rules T @ [PlainID rid], tree_sizes = tree_sizes T @ [0],
                    tree_paren = tree_paren T @ [0]\<rparr>
          in bindR (GetRule ctx rid) (\<lambda>rule.
             bindR (gen rule T1 (cur - 1) rs2) (\<lambda>(consumed, T2, rs3).
               let T3 = T2\<lparr>tree_sizes := (tree_sizes T2)[offset := consumed],
                           tree_paren := (tree_paren T2)[offset := paren]\<rparr>
               in if cur < consumed \<or> consumed < mn then Inl AssertFail
                  else generate_loop gen ctx paren nts (remaining + mn - consumed) (total_size + consumed) T3 rs3)))))"

fun Generate :: "nat \<Rightarrow> Context \<Rightarrow> PlainRule \<Rightarrow> Tree \<Rightarrow> nat \<Rightarrow> rng \<Rightarrow> (nat \<times> Tree \<times> rng) result" where
  "Generate 0 ctx rule T len rs = Inl OutOfFuel"
| "Generate (Suc fuel) ctx rule T len rs =
     bindR (minimal_needed ctx (nonterms rule) 0) (\<lambda>needed.
       if len < needed then Inl AssertFail
       else generate_loop (Generate fuel ctx) ctx (Tree_Size T - 1) (nonterms rule) (len - needed) 1 T rs)"

definition GenerateFromRule :: "Tree \<Rightarrow> RuleID \<Rightarrow> nat \<Rightarrow> Context \<Rightarrow> rng \<Rightarrow> (Tree \<times> rng) result" where
  "GenerateFromRule T ruleid mlen ctx rs =
     bindR (GetRule ctx ruleid) (\<lambda>rule.
       let T0 = Truncate T;
           T1 = \<lparr>tree_rules = tree_rules T0 @ [PlainID ruleid], tree_sizes = tree_sizes T0 @ [0],
                 tree_paren = tree_paren T0 @ [0]\<rparr>
       in bindR (Generate (Suc mlen) ctx rule T1 mlen rs) (\<lambda>(_, T2, rs').
            Inr (T2\<lparr>tree_sizes := (tree_sizes T2)[0 := length (tree_rules T2)]\<rparr>, rs')))"

definition GenerateFromNT :: "Tree \<Rightarrow> NTermID \<Rightarrow> nat \<Rightarrow> Context \<Rightarrow> rng \<Rightarrow> (Tree \<times> rng) result" where
  "GenerateFromNT T start len ctx rs =
     bindR (GetRandomRuleForNT ctx start len rs) (\<lambda>(rid, rs'). GenerateFromRule T rid (len - 1) ctx rs')"

definition GenerateTreeFromRule :: "Context \<Rightarrow> RuleID \<Rightarrow> nat \<Rightarrow> rng \<Rightarrow> (Tree \<times> rng) result" where
  "GenerateTreeFromRule ctx r len rs =
     bindR (Tree_new [] ctx) (\<lambda>T. GenerateFromRule T r len ctx rs)"

definition GenerateTreeFromNT :: "Context \<Rightarrow> NTermID \<Rightarrow> nat \<Rightarrow> rng \<Rightarrow> (Tree \<times> rng) result" where
  "GenerateTreeFromNT ctx nt mlen rs =
     bindR (GetRandomRuleForNT ctx nt mlen rs) (\<lambda>(rid, rs'). GenerateTreeFromRule ctx rid (mlen - 1) rs')"

section \<open>Correctness\<close>

lemma random_len_loop_le: "fst (random_len_loop n tlen res rs) \<le> res"
proof (induction n tlen res rs rule: random_len_loop.induct)
  case (2 i tlen res rs)
  obtain x rs' where r: "Random 0 (tlen + 1) rs = (x, rs')" by fastforce
  show ?case
    using 2 [OF r [symmetric]] r by (auto split: if_splits)
qed simp

lemma GetRandomLen_le: "GetRandomLen n tlen rs = (x, rs') \<Longrightarrow> x \<le> tlen"
  using random_len_loop_le [of "n - 1" tlen tlen rs] by (simp add: GetRandomLen_def)

lemma minimal_needed_eq:
  "\<forall>nt \<in> set nts. nts_to_min_size ctx nt \<noteq> None \<Longrightarrow>
     minimal_needed ctx nts acc = Inr (acc + sum_list (map (\<lambda>nt. the (nts_to_min_size ctx nt)) nts))"
  by (induction nts arbitrary: acc) (auto simp: GetMinLenForNT_def)

text \<open>A tree under construction, extended by the subtrees of \<open>ts\<close> below its node \<open>p\<close>.\<close>

definition graft :: "Tree \<Rightarrow> NodeID \<Rightarrow> dtree list \<Rightarrow> Tree" where
  "graft T p ts = \<lparr>tree_rules = tree_rules T @ preorders ts, tree_sizes = tree_sizes T @ map dsize (subtreess ts),
     tree_paren = tree_paren T @ pparens p (Tree_Size T) ts\<rparr>"

definition even_tree :: "Tree \<Rightarrow> bool" where
  "even_tree T \<longleftrightarrow> length (tree_rules T) = length (tree_sizes T) \<and> length (tree_paren T) = length (tree_sizes T)"

lemma graft_Nil [simp]: "graft T p [] = T"
  by (simp add: graft_def)

lemma length_subtreess: "length (subtreess ts) = length (preorders ts)"
  by (simp add: preorder_subtrees)

lemma graft_even [simp]: "even_tree T \<Longrightarrow> even_tree (graft T p ts)"
  by (simp add: even_tree_def graft_def length_pparen length_subtreess)

lemma Tree_Size_graft [simp]: "Tree_Size (graft T p ts) = Tree_Size T + length (preorders ts)"
  by (simp add: Tree_Size_def graft_def)

lemma graft_graft: "graft (graft T p [t]) p ts = graft T p (t # ts)"
  by (simp add: graft_def Tree_Size_def dsize_def)

lemma graft_child:
  assumes "even_tree T" and T1_def: "T1 = \<lparr>tree_rules = tree_rules T @ [l], tree_sizes = tree_sizes T @ [0], tree_paren = tree_paren T @ [0]\<rparr>"
  shows "(graft T1 (Tree_Size T) us)\<lparr>tree_sizes := (tree_sizes (graft T1 (Tree_Size T) us))[Tree_Size T := dsize (DNode l us)],
      tree_paren := (tree_paren (graft T1 (Tree_Size T) us))[Tree_Size T := p]\<rparr> = graft T p [DNode l us]"
  using assms by (simp add: graft_def T1_def Tree_Size_def even_tree_def list_update_append)

definition generates :: "Context \<Rightarrow> (PlainRule \<Rightarrow> Tree \<Rightarrow> nat \<Rightarrow> rng \<Rightarrow> (nat \<times> Tree \<times> rng) result) \<Rightarrow> nat \<Rightarrow> bool" where
  "generates ctx gen len \<longleftrightarrow>
     (\<forall>rid T rs. rid < length (rules ctx) \<longrightarrow> rule_min ctx rid \<le> Suc len \<longrightarrow> even_tree T \<longrightarrow> 0 < Tree_Size T \<longrightarrow>
       (\<exists>us rs'. derives_list (rules ctx) (nonterms (rules ctx ! rid)) us \<and> length (preorders us) \<le> len \<and>
          gen (rules ctx ! rid) T len rs = Inr (Suc (length (preorders us)), graft T (Tree_Size T - 1) us, rs')))"

lemma ready_least:
  "ready ctx \<Longrightarrow> derives (rules ctx) nt t \<Longrightarrow> nts_to_min_size ctx nt = Some v \<Longrightarrow> v \<le> dsize t"
  using settled_lower_bound(1) [of ctx nt t] by (auto simp: ready_def)

lemma generate_loop_ok:
  assumes rd: "ready ctx" and gen: "\<And>len. len < L \<Longrightarrow> generates ctx gen len"
  shows "\<forall>nt \<in> set nts. \<exists>v > 0. nts_to_min_size ctx nt = Some v \<Longrightarrow>
    remaining + sum_list (map (\<lambda>nt. the (nts_to_min_size ctx nt)) nts) \<le> L \<Longrightarrow> even_tree T \<Longrightarrow> 0 < Tree_Size T \<Longrightarrow>
    \<exists>ts rs'. derives_list (rules ctx) nts ts \<and>
      length (preorders ts) \<le> remaining + sum_list (map (\<lambda>nt. the (nts_to_min_size ctx nt)) nts) \<and>
      generate_loop gen ctx p nts remaining total_size T rs = Inr (total_size + length (preorders ts), graft T p ts, rs')"
proof (induction nts arbitrary: remaining total_size T rs)
  case (Cons nt nts)
  obtain mn where mn: "nts_to_min_size ctx nt = Some mn" "0 < mn"
    using Cons.prems(1) by auto
  obtain rl rs1 where rl: "GetRandomLen (length (nt # nts)) remaining rs = (rl, rs1)" by fastforce
  then have "rl \<le> remaining" by (rule GetRandomLen_le)
  let ?cur = "rl + mn"
  obtain rid rs2 where rid: "GetRandomRuleForNT ctx nt ?cur rs1 = Inr (rid, rs2)"
    "rid < length (rules ctx)" "nonterm (rules ctx ! rid) = nt" "rule_min ctx rid \<le> ?cur"
    using GetRandomRuleForNT_ready [OF rd mn(1), of ?cur rs1] by auto
  define T1 where "T1 = \<lparr>tree_rules = tree_rules T @ [PlainID rid], tree_sizes = tree_sizes T @ [0], tree_paren = tree_paren T @ [0]\<rparr>"
  have T1: "even_tree T1" "0 < Tree_Size T1" "Tree_Size T1 - 1 = Tree_Size T"
    using Cons.prems(3) by (simp_all add: even_tree_def T1_def Tree_Size_def)
  have "generates ctx gen (?cur - 1)"
    using gen [of "?cur - 1"] Cons.prems(2) mn \<open>rl \<le> remaining\<close> by simp
  then obtain us rs3 where us: "derives_list (rules ctx) (nonterms (rules ctx ! rid)) us" "length (preorders us) \<le> ?cur - 1"
    and g: "gen (rules ctx ! rid) T1 (?cur - 1) rs2 = Inr (Suc (length (preorders us)), graft T1 (Tree_Size T) us, rs3)"
    using rid T1 mn(2) unfolding generates_def by fastforce
  define t where "t = DNode (PlainID rid) us"
  have t: "derives (rules ctx) nt t" "dsize t = Suc (length (preorders us))" "dsize t \<le> ?cur"
    using us rid mn(2) by (auto simp: t_def dsize_def)
  have "mn \<le> dsize t" by (rule ready_least [OF rd t(1) mn(1)])
  moreover from this have "remaining + mn - dsize t + sum_list (map (\<lambda>nt. the (nts_to_min_size ctx nt)) nts) \<le> L"
    using Cons.prems(2) mn by simp
  ultimately obtain ts rs' where ts: "derives_list (rules ctx) nts ts"
      "length (preorders ts) \<le> remaining + mn - dsize t + sum_list (map (\<lambda>nt. the (nts_to_min_size ctx nt)) nts)"
    and l: "generate_loop gen ctx p nts (remaining + mn - dsize t) (total_size + dsize t) (graft T p [t]) rs3 =
      Inr (total_size + dsize t + length (preorders ts), graft (graft T p [t]) p ts, rs')"
    using Cons.IH [of "remaining + mn - dsize t" "graft T p [t]" "total_size + dsize t" rs3] Cons.prems mn by auto
  have "generate_loop gen ctx p (nt # nts) remaining total_size T rs =
      generate_loop gen ctx p nts (remaining + mn - dsize t) (total_size + dsize t) (graft T p [t]) rs3"
    using Cons.prems(3) rid g t \<open>mn \<le> dsize t\<close> graft_child [OF Cons.prems(3) T1_def, of us p]
    by (simp add: rl [simplified] mn GetMinLenForNT_def Let_def T1_def [symmetric] GetRule_def even_tree_def t_def [symmetric])
  then show ?case
    using t ts l mn \<open>rl \<le> remaining\<close>
    by (intro exI [of _ "t # ts"]) (auto simp: graft_graft dsize_def)
qed simp

lemma Generate_ok:
  assumes rd: "ready ctx"
  shows "len < fuel \<Longrightarrow> generates ctx (Generate fuel ctx) len"
proof (induction fuel arbitrary: len)
  case (Suc fuel)
  show ?case
    unfolding generates_def
  proof (intro allI impI)
    fix rid :: RuleID and T :: Tree and rs :: rng
    assume rid: "rid < length (rules ctx)" "rule_min ctx rid \<le> Suc len" and T: "even_tree T" "0 < Tree_Size T"
    let ?nts = "nonterms (rules ctx ! rid)"
    let ?sum = "sum_list (map (\<lambda>nt. the (nts_to_min_size ctx nt)) ?nts)"
    have known: "\<forall>nt \<in> set ?nts. \<exists>v > 0. nts_to_min_size ctx nt = Some v"
      using ready_min_known [OF rd rid(1)] by blast
    then have "minimal_needed ctx ?nts 0 = Inr ?sum"
      by (subst minimal_needed_eq) fastforce+
    moreover have s: "?sum \<le> len"
      using ready_rule_min [OF rd rid(1)] rid(2) unfolding min_len_sum_Some by simp
    moreover obtain ts rs' where "derives_list (rules ctx) ?nts ts" "length (preorders ts) \<le> len"
      "generate_loop (Generate fuel ctx) ctx (Tree_Size T - 1) ?nts (len - ?sum) 1 T rs =
         Inr (1 + length (preorders ts), graft T (Tree_Size T - 1) ts, rs')"
      using generate_loop_ok [OF rd, of len "Generate fuel ctx" ?nts "len - ?sum" T "Tree_Size T - 1" 1 rs]
        Suc known s T by auto
    ultimately show "\<exists>us rs'. derives_list (rules ctx) ?nts us \<and> length (preorders us) \<le> len \<and>
        Generate (Suc fuel) ctx (rules ctx ! rid) T len rs =
          Inr (Suc (length (preorders us)), graft T (Tree_Size T - 1) us, rs')"
      by auto
  qed
qed simp

lemma GenerateFromRule_ok:
  assumes rd: "ready ctx" and rid: "rid < length (rules ctx)" "rule_min ctx rid \<le> Suc len"
  shows "\<exists>t rs'. GenerateFromRule T rid len ctx rs = Inr (flat t, rs') \<and> dsize t \<le> Suc len \<and>
    derives (rules ctx) (nonterm (rules ctx ! rid)) t \<and> label t = PlainID rid"
proof -
  define T1 where "T1 = \<lparr>tree_rules = [PlainID rid], tree_sizes = [0], tree_paren = [0]\<rparr>"
  have "even_tree T1" "Tree_Size T1 = 1"
    by (simp_all add: T1_def even_tree_def Tree_Size_def)
  then obtain us rs' where us: "derives_list (rules ctx) (nonterms (rules ctx ! rid)) us" "length (preorders us) \<le> len"
    "Generate (Suc len) ctx (rules ctx ! rid) T1 len rs = Inr (Suc (length (preorders us)), graft T1 0 us, rs')"
    using Generate_ok [OF rd, of len "Suc len"] rid unfolding generates_def by fastforce
  then show ?thesis
    using rid(1) us(1,2)
    by (intro exI [of _ "DNode (PlainID rid) us"] exI [of _ rs'])
       (simp add: GenerateFromRule_def GetRule_def Truncate_def T1_def graft_def flat_def dsize_def Tree_Size_def)
qed

lemma GenerateFromNT_ok:
  assumes "ready ctx" and "nts_to_min_size ctx nt = Some v" and "v \<le> len"
  shows "\<exists>t rs'. GenerateFromNT T nt len ctx rs = Inr (flat t, rs') \<and> dsize t \<le> len \<and> derives (rules ctx) nt t"
proof -
  obtain rid rs1 where rid: "GetRandomRuleForNT ctx nt len rs = Inr (rid, rs1)" "rid < length (rules ctx)"
    "nonterm (rules ctx ! rid) = nt" "rule_min ctx rid \<le> len"
    using GetRandomRuleForNT_ready [OF assms] by blast
  have "0 < len"
    using ready_min_known [OF assms(1) rid(2), of nt] rid(3) assms(2,3) by auto
  then show ?thesis
    using GenerateFromRule_ok [OF assms(1) rid(2), of "len - 1" T rs1] rid by (auto simp: GenerateFromNT_def)
qed

lemma GenerateTreeFromRule_eq: "GenerateTreeFromRule ctx r len rs = GenerateFromRule (Truncate T) r len ctx rs"
  by (simp add: GenerateTreeFromRule_def Tree_new_def GenerateFromRule_def Truncate_def)

lemma GenerateTreeFromNT_eq: "GenerateTreeFromNT ctx nt len rs = GenerateFromNT (Truncate T) nt len ctx rs"
  by (simp add: GenerateTreeFromNT_def GenerateFromNT_def GenerateTreeFromRule_eq [of _ _ _ _ T])

text \<open>
  C36. On an initialised context, \<open>Context::GenerateTreeFromNT\<close> succeeds for every random source as
  soon as the limit admits a smallest tree: no \<open>DEBUG_ASSERT\<close> fires, the recursion stays within its
  bound, and the result is a tree of the nonterminal with correct sizes and parents whose size does
  not exceed the limit.
\<close>

theorem GenerateTreeFromNT_valid:
  assumes "ready ctx" and "nts_to_min_size ctx nt = Some v" and "v \<le> len"
  shows "\<exists>T rs'. GenerateTreeFromNT ctx nt len rs = Inr (T, rs') \<and> valid_tree ctx nt T \<and>
    v \<le> Tree_Size T \<and> Tree_Size T \<le> len"
  using GenerateFromNT_ok [OF assms] ready_least [OF assms(1) _ assms(2)]
  unfolding GenerateTreeFromNT_eq [of _ _ _ _ undefined] valid_tree_def
  by (fastforce simp: Tree_Size_def dsize_def)

theorem GenerateTreeFromNT_valid_witness:
  "\<exists>T rs'. GenerateTreeFromNT demo_ctx 0 5 [3, 1, 4, 1, 5] = Inr (T, rs') \<and> valid_tree demo_ctx 0 T \<and>
     2 \<le> Tree_Size T \<and> Tree_Size T \<le> 5"
proof -
  have "nts_to_min_size demo_ctx 0 = Some 2"
    by (simp add: demo_ctx_def)
  then show ?thesis
    using GenerateTreeFromNT_valid [OF demo_ready] by simp
qed

end
