(* ===== verification/Fuzzuf_Random.thy ===== *)
theory Fuzzuf_Random
  imports Complex_Main Fuzzuf_Prelude
begin

text \<open>
  Weighted sampling (\<open>WalkerDiscreteDistribution\<close> in \<open>include/fuzzuf/utils/random.hpp\<close>): the construction
  of the alias table, and the proof that a sample of the table has exactly the distribution of the
  weights. The \<open>double\<close> arithmetic of the source is exact rational arithmetic here; infinite and
  not-a-number weights do not exist.
\<close>

section \<open>The alias table\<close>

record Walker =
  w_index :: "nat list"
  w_threshold :: "rat list"

text \<open>The split of the weights into the groups \<open>small\<close> and \<open>large\<close>; the head of a list is the back of a vector.\<close>

fun walker_split :: "nat \<Rightarrow> rat list \<Rightarrow> nat list \<Rightarrow> nat list \<Rightarrow> nat list \<times> nat list" where
  "walker_split i [] small large = (small, large)"
| "walker_split i (p # ps) small large =
     (if p < 1 then walker_split (Suc i) ps (i # small) large
      else walker_split (Suc i) ps small (i # large))"

function walker_loop :: "nat list \<Rightarrow> nat list \<Rightarrow> Walker \<Rightarrow> Walker" where
  "walker_loop (j # small) (k # large) W =
     (let thr = (w_threshold W)[k := w_threshold W ! k - (1 - w_threshold W ! j)];
          W' = \<lparr>w_index = (w_index W)[j := k], w_threshold = thr\<rparr>
      in if thr ! k < 1 then walker_loop (k # small) large W'
         else walker_loop small (k # large) W')"
| "walker_loop [] large W = W"
| "walker_loop small [] W = W"
  by pat_completeness auto
termination
  by (relation "measure (\<lambda>(s, l, W). length s + length l)") auto

definition Walker_new :: "rat list \<Rightarrow> Walker result" where
  "Walker_new ws =
     (if length ws = 0 then Inl OutOfRange
      else if \<exists>p \<in> set ws. p < 0 then Inl RangeError
      else let n = of_nat (length ws); total = sum_list ws in
        if total \<le> 0 then Inl RangeError
        else
          let thr = map (\<lambda>p. (p / total) * n) ws in
          case walker_split 0 thr [] [] of (small, large) \<Rightarrow>
            Inr (walker_loop small large \<lparr>w_index = [0..<length ws], w_threshold = thr\<rparr>))"

text \<open>\<open>Random<double>(0.0, 1.0)\<close>: a multiple of \<open>2^-53\<close> in the half-open unit interval.\<close>

fun RandomUnit :: "rng \<Rightarrow> rat \<times> rng" where
  "RandomUnit [] = (0, [])"
| "RandomUnit (r # rs) = (of_nat (r mod 2 ^ 53) / 2 ^ 53, rs)"

text \<open>\<open>operator()\<close>, with the drawn slot \<open>i\<close> and the drawn real \<open>u\<close>, and with both drawn from the source.\<close>

definition walker_pick :: "Walker \<Rightarrow> nat \<Rightarrow> rat \<Rightarrow> nat" where
  "walker_pick W i u = (if u < w_threshold W ! i then i else w_index W ! i)"

definition Walker_sample :: "Walker \<Rightarrow> rng \<Rightarrow> nat \<times> rng" where
  "Walker_sample W rs =
     (case Random 0 (length (w_index W) - 1) rs of (i, rs1) \<Rightarrow>
      case RandomUnit rs1 of (u, rs2) \<Rightarrow> (walker_pick W i u, rs2))"

section \<open>Correctness of the table\<close>

text \<open>
  The share of the unit interval on which slot \<open>i\<close> returns \<open>k\<close>, and the probability of \<open>k\<close> times the
  number of slots.
\<close>

definition slot_share :: "Walker \<Rightarrow> nat \<Rightarrow> nat \<Rightarrow> rat" where
  "slot_share W k i =
     (if i = k then min 1 (w_threshold W ! i) else 0) +
     (if w_index W ! i = k then 1 - min 1 (w_threshold W ! i) else 0)"

definition walker_mass :: "Walker \<Rightarrow> nat \<Rightarrow> rat" where
  "walker_mass W k = (\<Sum>i < length (w_index W). slot_share W k i)"

definition moved :: "nat set \<Rightarrow> Walker \<Rightarrow> nat \<Rightarrow> nat \<Rightarrow> rat" where
  "moved U W k i = (if i \<notin> U \<and> w_index W ! i = k then 1 - w_threshold W ! i else 0)"

definition walker_inv :: "rat list \<Rightarrow> nat list \<Rightarrow> nat list \<Rightarrow> Walker \<Rightarrow> bool" where
  "walker_inv thr0 small large W \<longleftrightarrow>
     length (w_index W) = length thr0 \<and> length (w_threshold W) = length thr0 \<and>
     distinct (small @ large) \<and> set (small @ large) \<subseteq> {..<length thr0} \<and>
     (\<forall>i < length thr0. w_index W ! i < length thr0 \<and>
        (i \<in> set (small @ large) \<longrightarrow> w_index W ! i = i) \<and> 0 \<le> w_threshold W ! i \<and>
        (i \<notin> set large \<longrightarrow> w_threshold W ! i < 1)) \<and>
     (\<forall>k \<in> set large. 1 \<le> w_threshold W ! k) \<and>
     (\<forall>k < length thr0. thr0 ! k = w_threshold W ! k + (\<Sum>i < length thr0. moved (set (small @ large)) W k i)) \<and>
     (\<Sum>i \<in> set (small @ large). w_threshold W ! i) = of_nat (length (small @ large))"

lemma walker_step:
  assumes inv: "walker_inv thr0 (j # small) (k # large) W"
  defines "W' \<equiv> \<lparr>w_index = (w_index W)[j := k],
      w_threshold = (w_threshold W)[k := w_threshold W ! k - (1 - w_threshold W ! j)]\<rparr>"
  assumes s: "(s', l') = (if w_threshold W' ! k < 1 then (k # small, large) else (small, k # large))"
  shows "walker_inv thr0 s' l' W'"
proof -
  let ?n = "length thr0" and ?t = "w_threshold W" and ?ix = "w_index W"
  let ?U = "set (j # small @ k # large)" and ?U' = "set (s' @ l')"
  have len: "length ?ix = ?n" "length ?t = ?n" and dist: "distinct ((j # small) @ k # large)"
    and sub: "?U \<subseteq> {..<?n}"
    and ent: "\<And>i. i < ?n \<Longrightarrow> ?ix ! i < ?n \<and> (i \<in> ?U \<longrightarrow> ?ix ! i = i) \<and> 0 \<le> ?t ! i \<and> (i \<notin> set (k # large) \<longrightarrow> ?t ! i < 1)"
    and big: "\<And>i. i \<in> set (k # large) \<Longrightarrow> 1 \<le> ?t ! i"
    and split: "\<And>m. m < ?n \<Longrightarrow> thr0 ! m = ?t ! m + (\<Sum>i<?n. moved ?U W m i)"
    and total: "(\<Sum>i \<in> ?U. ?t ! i) = of_nat (length (j # small @ k # large))"
    using inv unfolding walker_inv_def by auto
  have jk: "j < ?n" "k < ?n" "j \<noteq> k" using sub dist by auto
  have tj: "0 \<le> ?t ! j" "?t ! j < 1" using ent [OF jk(1)] dist by auto
  have tk: "1 \<le> ?t ! k" using big by simp
  have W': "w_index W' = ?ix[j := k]" "w_threshold W' = ?t[k := ?t ! k - (1 - ?t ! j)]"
    by (simp_all add: W'_def)
  have U': "?U' = ?U - {j}" and dist': "distinct (s' @ l')" and len': "Suc (length (s' @ l')) = length (j # small @ k # large)"
    using s dist by (auto split: if_splits)
  have mv: "moved ?U' W' m i = moved ?U W m i + (if i = j \<and> m = k then 1 - ?t ! j else 0)" if "i < ?n" for m i
    using that jk unfolding moved_def W' U' by (auto simp: len nth_list_update)
  have "thr0 ! m = w_threshold W' ! m + (\<Sum>i<?n. moved ?U' W' m i)" if m: "m < ?n" for m
  proof -
    have "(\<Sum>i<?n. moved ?U' W' m i) = (\<Sum>i<?n. moved ?U W m i) + (\<Sum>i<?n. if i = j \<and> m = k then 1 - ?t ! j else 0)"
      using mv by (simp add: sum.distrib)
    also have "(\<Sum>i<?n. if i = j \<and> m = k then 1 - ?t ! j else 0) = (if m = k then 1 - ?t ! j else 0)"
      using jk(1) by (cases "m = k") simp_all
    finally show ?thesis
      using split [OF m] m jk by (auto simp: W' len nth_list_update)
  qed
  moreover have "(\<Sum>i \<in> ?U'. w_threshold W' ! i) = of_nat (length (s' @ l'))"
  proof -
    have k: "k \<in> ?U'" using jk(3) U' by simp
    have "(\<Sum>i \<in> ?U'. w_threshold W' ! i) = ?t ! k - (1 - ?t ! j) + (\<Sum>i \<in> ?U' - {k}. w_threshold W' ! i)"
      using k jk by (subst sum.remove [of _ k]) (simp_all add: W' len)
    also have "(\<Sum>i \<in> ?U' - {k}. w_threshold W' ! i) = (\<Sum>i \<in> ?U' - {k}. ?t ! i)"
      by (intro sum.cong) (auto simp: W')
    also have "?t ! k - (1 - ?t ! j) + (\<Sum>i \<in> ?U' - {k}. ?t ! i) = (\<Sum>i \<in> ?U'. ?t ! i) - (1 - ?t ! j)"
      using k by (subst (2) sum.remove [of _ k]) simp_all
    also have "(\<Sum>i \<in> ?U'. ?t ! i) = of_nat (length (j # small @ k # large)) - ?t ! j"
      using total sum.remove [of ?U j "(!) ?t"] unfolding U' by simp
    finally show ?thesis using len' by (simp flip: len')
  qed
  moreover have "\<forall>i<?n. w_index W' ! i < ?n \<and> (i \<in> ?U' \<longrightarrow> w_index W' ! i = i) \<and> 0 \<le> w_threshold W' ! i \<and>
      (i \<notin> set l' \<longrightarrow> w_threshold W' ! i < 1)"
  proof (intro allI impI)
    fix i assume i: "i < ?n"
    consider "i = j" | "i = k" | "i \<noteq> j" "i \<noteq> k" by blast
    then show "w_index W' ! i < ?n \<and> (i \<in> ?U' \<longrightarrow> w_index W' ! i = i) \<and> 0 \<le> w_threshold W' ! i \<and>
        (i \<notin> set l' \<longrightarrow> w_threshold W' ! i < 1)"
    proof cases
      case 1
      then show ?thesis using jk tj unfolding U' by (simp add: W' len)
    next
      case 2
      moreover have "w_threshold W' ! k < 1" if "k \<notin> set l'"
        using that s by (auto split: if_splits)
      ultimately show ?thesis using jk tj tk ent [OF i] unfolding U' by (simp add: W' len)
    next
      case 3
      moreover have "set l' \<subseteq> set (k # large) \<and> set (k # large) \<subseteq> insert k (set l')"
        using s by (auto split: if_splits)
      ultimately show ?thesis using ent [OF i] unfolding U' by (auto simp: W')
    qed
  qed
  moreover have "\<forall>i \<in> set l'. 1 \<le> w_threshold W' ! i"
    using big s jk len dist by (auto simp: W' nth_list_update split: if_splits)
  ultimately show ?thesis
    unfolding walker_inv_def using sub U' dist' len by (auto simp: W')
qed

lemma walker_loop_inv:
  "walker_inv thr0 small large W \<Longrightarrow>
     \<exists>s l. walker_inv thr0 s l (walker_loop small large W) \<and> (s = [] \<or> l = [])"
proof (induction small large W rule: walker_loop.induct)
  case (1 j small k large W)
  let ?thr = "(w_threshold W)[k := w_threshold W ! k - (1 - w_threshold W ! j)]"
  show ?case
    using 1(1) [OF refl refl _ walker_step [OF 1(3)]] 1(2) [OF refl refl _ walker_step [OF 1(3)]]
    by (cases "?thr ! k < 1") (simp_all add: Let_def)
qed (auto intro: exI)

text \<open>With exact arithmetic, what is left over has weight one.\<close>

lemma sum_extreme:
  fixes f :: "nat \<Rightarrow> rat"
  assumes "finite A" and "sum f A = of_nat (card A)"
  shows "(\<forall>i \<in> A. 1 \<le> f i) \<Longrightarrow> i \<in> A \<Longrightarrow> f i = 1" and "(\<forall>i \<in> A. f i < 1) \<Longrightarrow> A = {}"
proof -
  have z: "(\<Sum>i \<in> A. f i - 1) = 0"
    using assms by (simp add: sum_subtractf)
  show "f i = 1" if "\<forall>i \<in> A. 1 \<le> f i" "i \<in> A"
    using sum_nonneg_eq_0_iff [of A "\<lambda>i. f i - 1"] z that assms(1) by auto
  show "A = {}" if "\<forall>i \<in> A. f i < 1"
  proof (rule ccontr)
    assume "A \<noteq> {}"
    then have "sum f A < (\<Sum>i \<in> A. 1)"
      using that assms(1) by (intro sum_strict_mono) auto
    then show False using assms by simp
  qed
qed

lemma walker_inv_mass:
  assumes inv: "walker_inv thr0 s l W" and e: "s = [] \<or> l = []" and k: "k < length thr0"
  shows "walker_mass W k = thr0 ! k" and "w_index W ! k < length thr0" and "length (w_index W) = length thr0"
proof -
  let ?U = "set (s @ l)" and ?t = "w_threshold W"
  have total: "sum ((!) ?t) ?U = of_nat (card ?U)"
    and ent: "\<And>i. i < length thr0 \<Longrightarrow> (i \<in> ?U \<longrightarrow> w_index W ! i = i) \<and> (i \<notin> set l \<longrightarrow> ?t ! i < 1)"
    and big: "\<forall>i \<in> set l. 1 \<le> ?t ! i" and sub: "?U \<subseteq> {..<length thr0}" and len: "length (w_index W) = length thr0"
    using inv distinct_card [of "s @ l"] unfolding walker_inv_def by auto
  have one: "?t ! i = 1" if "i \<in> ?U" for i
  proof (cases "s = []")
    case True
    then show ?thesis
      using sum_extreme(1) [OF _ total] that big by auto
  next
    case False
    then have "\<forall>i \<in> ?U. ?t ! i < 1"
      using e ent sub by auto
    then have "?U = {}"
      by (rule sum_extreme(2) [OF finite_set total])
    then show ?thesis
      using that by simp
  qed
  have "slot_share W k i = (if i = k then ?t ! i else 0) + moved ?U W k i" if "i < length thr0" for i
  proof (cases "i \<in> ?U")
    case True
    then show ?thesis using one [OF True] by (auto simp: slot_share_def moved_def)
  next
    case False
    then have "min 1 (?t ! i) = ?t ! i" using ent [OF that] by simp
    then show ?thesis using False by (auto simp: slot_share_def moved_def)
  qed
  then have "walker_mass W k = (\<Sum>i<length thr0. if i = k then ?t ! i else 0) + (\<Sum>i<length thr0. moved ?U W k i)"
    unfolding walker_mass_def by (simp add: len sum.distrib)
  then show "walker_mass W k = thr0 ! k"
    using inv k unfolding walker_inv_def by simp
  show "w_index W ! k < length thr0" "length (w_index W) = length thr0"
    using inv k unfolding walker_inv_def by auto
qed

lemma walker_split_groups:
  "walker_split i ps small large = (s, l) \<Longrightarrow> ps = drop i thr \<Longrightarrow> i \<le> length thr \<Longrightarrow>
     set small = {j. j < i \<and> thr ! j < 1} \<Longrightarrow> set large = {j. j < i \<and> \<not> thr ! j < 1} \<Longrightarrow> distinct (small @ large) \<Longrightarrow>
     set s = {j. j < length thr \<and> thr ! j < 1} \<and> set l = {j. j < length thr \<and> \<not> thr ! j < 1} \<and> distinct (s @ l)"
proof (induction i ps small large rule: walker_split.induct)
  case (2 i p ps small large)
  have "i < length thr"
    using 2(4) by (metis drop_all list.distinct(1) not_less)
  then have p: "p = thr ! i" "ps = drop (Suc i) thr"
    using 2(4) by (metis Cons_nth_drop_Suc list.inject)+
  have "{j. j < Suc i \<and> P (thr ! j)} = {j. j < i \<and> P (thr ! j)} \<union> (if P p then {i} else {})" for P
    by (auto simp: less_Suc_eq p)
  note Suc_set = this [of "\<lambda>x. x < 1"] this [of "\<lambda>x. \<not> x < 1"]
  show ?case
  proof (cases "p < 1")
    case True
    show ?thesis
      by (rule 2(1) [OF True]) (use True 2(3-) \<open>i < length thr\<close> p Suc_set in auto)
  next
    case False
    show ?thesis
      by (rule 2(2) [OF False]) (use False 2(3-) \<open>i < length thr\<close> p Suc_set in auto)
  qed
qed auto

lemma walker_init_inv:
  assumes "\<forall>p \<in> set thr. 0 \<le> p" and "sum_list thr = of_nat (length thr)" and "walker_split 0 thr [] [] = (s, l)"
  shows "walker_inv thr s l \<lparr>w_index = [0..<length thr], w_threshold = thr\<rparr>"
proof -
  have sl: "set s = {j. j < length thr \<and> thr ! j < 1}" "set l = {j. j < length thr \<and> \<not> thr ! j < 1}"
    and d: "distinct (s @ l)"
    using walker_split_groups [OF assms(3), of thr] by auto
  have U: "set (s @ l) = {..<length thr}" by (auto simp: sl)
  then have "length (s @ l) = length thr"
    using distinct_card [OF d] by simp
  moreover have "(\<Sum>i<length thr. thr ! i) = of_nat (length thr)"
    using assms(2) by (simp add: sum_list_sum_nth atLeast0LessThan)
  ultimately show ?thesis
    using assms(1) d unfolding walker_inv_def U by (auto simp: sl moved_def not_less)
qed

lemma Walker_new_mass:
  assumes "ws \<noteq> []" and "\<forall>p \<in> set ws. 0 \<le> p" and "0 < sum_list ws"
  shows "\<exists>W. Walker_new ws = Inr W \<and> length (w_index W) = length ws \<and> (\<forall>i < length ws. w_index W ! i < length ws) \<and>
    (\<forall>i < length ws. 0 \<le> w_threshold W ! i) \<and>
    (\<forall>k < length ws. walker_mass W k = of_nat (length ws) * (ws ! k / sum_list ws))"
proof -
  define thr where "thr = map (\<lambda>p. (p / sum_list ws) * of_nat (length ws)) ws"
  have "sum_list (map (\<lambda>p. (p / c) * d) xs) = (sum_list xs / c) * d" for xs and c d :: rat
    by (induction xs) (simp_all add: add_divide_distrib distrib_right)
  then have "sum_list thr = (sum_list ws / sum_list ws) * of_nat (length ws)"
    by (simp add: thr_def)
  then have total: "sum_list thr = of_nat (length thr)"
    using assms(3) by (simp add: thr_def)
  have nn: "\<forall>p \<in> set thr. 0 \<le> p"
    using assms(2,3) by (auto simp: thr_def)
  obtain s l where sl: "walker_split 0 thr [] [] = (s, l)" by fastforce
  define W where "W = walker_loop s l \<lparr>w_index = [0..<length thr], w_threshold = thr\<rparr>"
  obtain s' l' where inv: "walker_inv thr s' l' W" and e: "s' = [] \<or> l' = []"
    using walker_loop_inv [OF walker_init_inv [OF nn total sl]] W_def by blast
  have new: "Walker_new ws = Inr W"
    using assms sl by (auto simp: Walker_new_def W_def thr_def [symmetric] Let_def) (auto simp: thr_def)
  have "length thr = length ws" by (simp add: thr_def)
  moreover have "\<forall>i < length thr. 0 \<le> w_threshold W ! i" "length (w_index W) = length thr"
    using inv unfolding walker_inv_def by blast+
  ultimately show ?thesis
    using walker_inv_mass [OF inv e] assms(1) by (intro exI [of _ W] conjI new) (auto simp: thr_def neq_Nil_conv)
qed



lemma Walker_new_errors:
  "Walker_new [] = Inl OutOfRange"
  "ws \<noteq> [] \<Longrightarrow> p \<in> set ws \<Longrightarrow> p < 0 \<Longrightarrow> Walker_new ws = Inl RangeError"
  "ws \<noteq> [] \<Longrightarrow> sum_list ws \<le> 0 \<Longrightarrow> Walker_new ws = Inl RangeError"
  by (auto simp: Walker_new_def Let_def)

lemma Walker_sample_in_range:
  assumes "ws \<noteq> []" and "\<forall>p \<in> set ws. 0 \<le> p" and "0 < sum_list ws" and "Walker_new ws = Inr W"
  shows "fst (Walker_sample W rs) < length ws"
proof -
  have W: "length (w_index W) = length ws" "\<forall>i < length ws. w_index W ! i < length ws"
    using Walker_new_mass [OF assms(1-3)] assms(4) by auto
  have "fst (Random 0 (length ws - 1) rs) < length ws"
    by (rule Random_index) (use assms(1) in simp)
  then show ?thesis
    using W by (auto simp: Walker_sample_def walker_pick_def split: prod.splits)
qed

text \<open>A sample never returns an index of weight zero.\<close>

lemma RandomUnit_bounds: "RandomUnit rs = (u, rs') \<Longrightarrow> 0 \<le> u \<and> u < 1"
proof -
  have "(of_nat (r mod 2 ^ 53) :: rat) < 2 ^ 53" for r
    by (metis mod_less_divisor of_nat_less_numeral_power_cancel_iff zero_less_numeral zero_less_power)
  then have "(of_nat (r mod 2 ^ 53) :: rat) / 2 ^ 53 < 1" for r
    by (simp add: divide_less_eq)
  then show "RandomUnit rs = (u, rs') \<Longrightarrow> 0 \<le> u \<and> u < 1"
    by (cases rs) auto
qed

lemma walker_pick_share:
  assumes "walker_pick W i u = k" and "0 \<le> u" and "u < 1" and "0 \<le> w_threshold W ! i"
  shows "0 < slot_share W k i"
  using assms by (auto simp: walker_pick_def slot_share_def min_def split: if_splits)

lemma Walker_sample_positive:
  assumes "ws \<noteq> []" and "\<forall>p \<in> set ws. 0 \<le> p" and "0 < sum_list ws" and "Walker_new ws = Inr W"
    and s: "Walker_sample W rs = (k, rs')"
  shows "k < length ws \<and> 0 < ws ! k"
proof -
  have k: "k < length ws"
    using Walker_sample_in_range [OF assms(1-4), of rs] s by simp
  have W: "length (w_index W) = length ws" "\<forall>i < length ws. 0 \<le> w_threshold W ! i"
    and m: "walker_mass W k = of_nat (length ws) * (ws ! k / sum_list ws)"
    using Walker_new_mass [OF assms(1-3)] assms(4) k by auto
  obtain i u where p: "walker_pick W i u = k" and i: "i < length ws" and u: "0 \<le> u" "u < 1"
    using s Random_index [of "length ws" rs] RandomUnit_bounds assms(1) W(1)
    by (auto simp: Walker_sample_def split: prod.splits)
  have nn: "0 \<le> slot_share W k j" if "j < length ws" for j
    using W(2) that by (auto simp: slot_share_def min_def)
  have "0 < slot_share W k i"
    using walker_pick_share [OF p u] W(2) i by blast
  also have "slot_share W k i \<le> walker_mass W k"
    unfolding walker_mass_def W(1) by (rule member_le_sum) (use nn i in auto)
  finally have "0 < ws ! k / sum_list ws"
    unfolding m using zero_less_mult_iff [of "of_nat (length ws)" "ws ! k / sum_list ws"] by linarith
  then show ?thesis
    using k assms(3) by (simp add: zero_less_divide_iff)
qed

end
