(* ===== verification/Nautilus_Recursion.thy ===== *)
theory Nautilus_Recursion
  imports Nautilus_Generate Fuzzuf_Random
begin

text \<open>
  Recursions of a tree (\<open>algorithms/nautilus/grammartec/recursion_info.cpp\<close>, \<open>Tree::CalcRecursions\<close> in
  \<open>tree.cpp\<close>) and the search for a parent with the same nonterminal (\<open>Mutator::FindParentWithNT\<close> in
  \<open>mutator.cpp\<close>), with the proof that the one-pass collection and the upward search agree.
\<close>

section \<open>RecursionInfo\<close>

type_synonym Parent = "(NodeID \<rightharpoonup> NodeID) \<times> NodeID list \<times> nat list"

record RecursionInfo =
  recursive_parents :: "NodeID \<rightharpoonup> NodeID"
  sampler :: Walker
  depth_by_offset :: "nat list"
  node_by_offset :: "NodeID list"

text \<open>
  The loop of \<open>FindParents\<close>; the stack holds, for every node still to come, the nearest ancestor with
  the nonterminal and the depth. \<open>back\<close> of an empty stack is undefined.
\<close>

fun find_parents_loop ::
  "Context \<Rightarrow> NTermID \<Rightarrow> RuleIDOrCustom list \<Rightarrow> nat \<Rightarrow> (NodeID option \<times> nat) list \<Rightarrow> Parent option \<Rightarrow> Parent option result" where
  "find_parents_loop ctx nt [] i stack res = Inr res"
| "find_parents_loop ctx nt (r # rs) i [] res = Inl Undefined"
| "find_parents_loop ctx nt (r # rs) i ((maybe_parent, depth) # stack) res =
     bindR (GetNT ctx r) (\<lambda>k.
       let res' = (if k = nt then
                     (case maybe_parent of
                        None \<Rightarrow> res
                      | Some p \<Rightarrow>
                          (case (case res of None \<Rightarrow> (Map.empty, [], []) | Some q \<Rightarrow> q) of (parents, ids, weights) \<Rightarrow>
                             Some (parents(i \<mapsto> p), ids @ [i], weights @ [depth])))
                   else res);
           maybe_parent' = (if k = nt then Some i else maybe_parent)
       in bindR (GetNumChildren ctx r) (\<lambda>n_children.
            find_parents_loop ctx nt rs (Suc i) (replicate n_children (maybe_parent', depth + 1) @ stack) res'))"

definition FindParents :: "Tree \<Rightarrow> NTermID \<Rightarrow> Context \<Rightarrow> Parent option result" where
  "FindParents T nt ctx = find_parents_loop ctx nt (tree_rules T) 0 [(None, 0)] None"

definition RecursionInfo_New :: "Tree \<Rightarrow> NTermID \<Rightarrow> Context \<Rightarrow> RecursionInfo option result" where
  "RecursionInfo_New T n ctx =
     bindR (FindParents T n ctx) (\<lambda>r.
       case r of
         None \<Rightarrow> Inr None
       | Some (parents, nodes, depths) \<Rightarrow>
           bindR (Walker_new (map of_nat depths)) (\<lambda>W.
             Inr (Some \<lparr>recursive_parents = parents, sampler = W, depth_by_offset = depths,
                        node_by_offset = nodes\<rparr>)))"

fun recursion_pair_loop :: "nat \<Rightarrow> (NodeID \<rightharpoonup> NodeID) \<Rightarrow> NodeID \<Rightarrow> NodeID \<Rightarrow> NodeID result" where
  "recursion_pair_loop 0 parents node1 node2 = Inr node2"
| "recursion_pair_loop (Suc i) parents node1 node2 =
     bindR (at_map parents node1) (\<lambda>node2'. recursion_pair_loop i parents node1 node2')"

definition GetRecursionPairByOffset :: "RecursionInfo \<Rightarrow> nat \<Rightarrow> (NodeID \<times> NodeID) result" where
  "GetRecursionPairByOffset R offset =
     bindR (at_vec (node_by_offset R) offset) (\<lambda>node1.
     bindR (at_vec (depth_by_offset R) offset) (\<lambda>depth.
     bindR (recursion_pair_loop depth (recursive_parents R) node1 node1) (\<lambda>node2. Inr (node2, node1))))"

definition GetRandomRecursionPair :: "RecursionInfo \<Rightarrow> rng \<Rightarrow> ((NodeID \<times> NodeID) \<times> rng) result" where
  "GetRandomRecursionPair R rs =
     (case Walker_sample (sampler R) rs of (offset, rs') \<Rightarrow>
        bindR (GetRecursionPairByOffset R offset) (\<lambda>pair. Inr (pair, rs')))"

definition GetNumberOfRecursions :: "RecursionInfo \<Rightarrow> nat" where
  "GetNumberOfRecursions R = length (node_by_offset R)"

text \<open>\<open>Tree::CalcRecursions\<close>: one entry per nonterminal of the tree that is recursive.\<close>

fun calc_recursions_loop ::
  "Tree \<Rightarrow> Context \<Rightarrow> RuleIDOrCustom list \<Rightarrow> NTermID list \<Rightarrow> RecursionInfo list \<Rightarrow> RecursionInfo list result" where
  "calc_recursions_loop T ctx [] done_nterms ret = Inr ret"
| "calc_recursions_loop T ctx (r # rs) done_nterms ret =
     bindR (GetNT ctx r) (\<lambda>nterm.
       if nterm \<in> set done_nterms then calc_recursions_loop T ctx rs done_nterms ret
       else bindR (RecursionInfo_New T nterm ctx) (\<lambda>ri.
              calc_recursions_loop T ctx rs (nterm # done_nterms)
                (case ri of None \<Rightarrow> ret | Some i \<Rightarrow> ret @ [i])))"

definition CalcRecursions :: "Tree \<Rightarrow> Context \<Rightarrow> RecursionInfo list option result" where
  "CalcRecursions T ctx =
     bindR (calc_recursions_loop T ctx (tree_rules T) [] []) (\<lambda>ret.
       Inr (if ret = [] then None else Some ret))"

section \<open>FindParentWithNT\<close>

partial_function (option) find_parent_loop ::
  "Tree \<Rightarrow> Context \<Rightarrow> NTermID \<Rightarrow> NodeID \<Rightarrow> NodeID option result option" where
  "find_parent_loop T ctx nt cur =
     (case GetParent T cur of
        Inl e \<Rightarrow> Some (Inl e)
      | Inr None \<Rightarrow> Some (Inr None)
      | Inr (Some parent) \<Rightarrow>
          (case Tree_GetRule T parent ctx of
             Inl e \<Rightarrow> Some (Inl e)
           | Inr rule \<Rightarrow>
               if nonterm rule = nt then Some (Inr (Some parent))
               else find_parent_loop T ctx nt parent))"

declare find_parent_loop.simps [code]

definition FindParentWithNT :: "Tree \<Rightarrow> NodeID \<Rightarrow> Context \<Rightarrow> NodeID option result option" where
  "FindParentWithNT T node ctx =
     (case Tree_GetRule T node ctx of
        Inl e \<Rightarrow> Some (Inl e)
      | Inr rule \<Rightarrow> find_parent_loop T ctx (nonterm rule) node)"

section \<open>Recursions of a derivation tree\<close>

text \<open>
  The recursions of a nonterminal in preorder, as triples of a node, its nearest ancestor with the
  nonterminal and its depth.
\<close>

fun recs :: "Context \<Rightarrow> NTermID \<Rightarrow> NodeID option \<Rightarrow> nat \<Rightarrow> nat \<Rightarrow> dtree \<Rightarrow> (NodeID \<times> NodeID \<times> nat) list"
  and recss :: "Context \<Rightarrow> NTermID \<Rightarrow> NodeID option \<Rightarrow> nat \<Rightarrow> nat \<Rightarrow> dtree list \<Rightarrow> (NodeID \<times> NodeID \<times> nat) list" where
  "recs ctx nt mp d i (DNode l ts) =
     (if nonterm (rules ctx ! ID l) = nt
      then (case mp of None \<Rightarrow> [] | Some p \<Rightarrow> [(i, p, d)]) @ recss ctx nt (Some i) (Suc d) (Suc i) ts
      else recss ctx nt mp (Suc d) (Suc i) ts)"
| "recss ctx nt mp d i [] = []"
| "recss ctx nt mp d i (t # ts) = recs ctx nt mp d i t @ recss ctx nt mp d (i + dsize t) ts"

definition add_recs :: "(NodeID \<times> NodeID \<times> nat) list \<Rightarrow> Parent option \<Rightarrow> Parent option" where
  "add_recs xs res =
     (if xs = [] then res
      else case (case res of None \<Rightarrow> (Map.empty, [], []) | Some q \<Rightarrow> q) of (parents, ids, weights) \<Rightarrow>
        Some (parents ++ map_of (rev (map (\<lambda>(n, p, d). (n, p)) xs)), ids @ map fst xs, weights @ map (snd \<circ> snd) xs))"

lemma add_recs_Nil [simp]: "add_recs [] res = res"
  by (simp add: add_recs_def)

lemma add_recs_append: "add_recs (xs @ ys) res = add_recs ys (add_recs xs res)"
  by (auto simp: add_recs_def split: option.splits prod.splits)

lemma find_parents_loop_tree:
  "derives (rules ctx) m t \<Longrightarrow>
     find_parents_loop ctx nt (preorder t @ rest) i ((mp, d) # st) res =
     find_parents_loop ctx nt rest (i + dsize t) st (add_recs (recs ctx nt mp d i t) res)"
  "derives_list (rules ctx) ms ts \<Longrightarrow>
     find_parents_loop ctx nt (preorders ts @ rest) i (replicate (length ms) (mp, d) @ st) res =
     find_parents_loop ctx nt rest (i + length (preorders ts)) st (add_recs (recss ctx nt mp d i ts) res)"
proof (induction t and ts arbitrary: m i mp d rest st res and ms i mp d rest st res rule: subtrees_subtreess.induct)
  case (1 l ts)
  let ?r = "rules ctx ! ID l"
  have d: "ID l < length (rules ctx)" "derives_list (rules ctx) (nonterms ?r) ts"
    using 1(2) by simp_all
  show ?case
    using d 1(1) [OF d(2), of rest "Suc i" _ "Suc d" st]
    by (simp add: GetNT_def GetNumChildren_def GetRule_def NumberOfNonterms_def dsize_def add_recs_append
        Let_def split: option.split) (auto simp: add_recs_def split: option.splits)
next
  case 2
  then show ?case by (cases ms) simp_all
next
  case (3 t ts)
  then obtain m ms' where "ms = m # ms'" "derives (rules ctx) m t" "derives_list (rules ctx) ms' ts"
    by (cases ms) auto
  then show ?case
    using 3 by (simp add: add_recs_append dsize_def add.assoc)
qed

lemma FindParents_flat:
  "derives (rules ctx) m t \<Longrightarrow> FindParents (flat t) nt ctx = Inr (add_recs (recs ctx nt None 0 0 t) None)"
  using find_parents_loop_tree(1) [of ctx m t nt "[]" 0 None 0 "[]" None] by (simp add: FindParents_def)

lemma subtrees_sub:
  "n < dsize t \<Longrightarrow> k < dsize (subtrees t ! n) \<Longrightarrow> subtrees (subtrees t ! n) ! k = subtrees t ! (n + k)"
  "n < length (preorders ts) \<Longrightarrow> k < dsize (subtreess ts ! n) \<Longrightarrow>
     subtrees (subtreess ts ! n) ! k = subtreess ts ! (n + k)"
proof (induction t and ts arbitrary: n and n rule: subtrees_subtreess.induct)
  case (1 l ts)
  then show ?case by (cases n) (simp_all add: dsize_def)
next
  case (3 t ts)
  show ?case
  proof (cases "n < dsize t")
    case True
    then have "n + k < dsize t"
      using 3(4) preorder_sub(1) [OF True] by (simp add: nth_append length_subtrees)
    then show ?thesis
      using True 3 by (simp add: nth_append length_subtrees)
  next
    case False
    then show ?thesis
      using 3 by (simp add: nth_append length_subtrees dsize_def)
  qed
qed simp

text \<open>Where the nodes of a recursion lie: the ancestor's subtree holds the node, and both have the nonterminal.\<close>

definition rec_place :: "Context \<Rightarrow> NTermID \<Rightarrow> dtree list \<Rightarrow> nat \<Rightarrow> NodeID \<Rightarrow> NodeID \<Rightarrow> bool" where
  "rec_place ctx nt subs i n q \<longleftrightarrow>
     i \<le> q \<and> q < n \<and> n < q + dsize (subs ! (q - i)) \<and> nt_of ctx (subs ! (q - i)) = nt"

lemma recs_place:
  "(n, q, e) \<in> set (recs ctx nt mp d i t) \<Longrightarrow>
     d \<le> e \<and> i \<le> n \<and> n < i + dsize t \<and> nt_of ctx (subtrees t ! (n - i)) = nt \<and>
     (mp = Some q \<or> d < e \<and> rec_place ctx nt (subtrees t) i n q)"
  "(n, q, e) \<in> set (recss ctx nt mp d i ts) \<Longrightarrow>
     d \<le> e \<and> i \<le> n \<and> n < i + length (preorders ts) \<and> nt_of ctx (subtreess ts ! (n - i)) = nt \<and>
     (mp = Some q \<or> d < e \<and> rec_place ctx nt (subtreess ts) i n q)"
proof (induction t and ts arbitrary: mp d i and mp d i rule: subtrees_subtreess.induct)
  case (1 l ts)
  show ?case
  proof (cases "nonterm (rules ctx ! ID l) = nt \<and> mp = Some q \<and> n = i \<and> e = d")
    case True
    then show ?thesis by (simp add: nt_of_def)
  next
    case False
    define mp' where "mp' = (if nonterm (rules ctx ! ID l) = nt then Some i else mp)"
    have m: "(n, q, e) \<in> set (recss ctx nt mp' (Suc d) (Suc i) ts)"
      using 1(2) False by (auto simp: mp'_def split: if_splits option.splits)
    then have IH: "Suc d \<le> e" "Suc i \<le> n" "n < Suc i + length (preorders ts)" "nt_of ctx (subtreess ts ! (n - Suc i)) = nt"
      "mp' = Some q \<or> Suc d < e \<and> rec_place ctx nt (subtreess ts) (Suc i) n q"
      using 1(1) by blast+
    have sh: "subtrees (DNode l ts) ! (j - i) = subtreess ts ! (j - Suc i)" if "Suc i \<le> j" for j
      using that by (simp add: nth_Cons' Suc_diff_Suc diff_Suc split: nat.splits)
    from IH(5) show ?thesis
    proof
      assume "mp' = Some q"
      then show ?thesis
        using IH sh [OF IH(2)] by (cases "nonterm (rules ctx ! ID l) = nt") (auto simp: mp'_def rec_place_def nt_of_def dsize_def)
    next
      assume "Suc d < e \<and> rec_place ctx nt (subtreess ts) (Suc i) n q"
      then show ?thesis
        using IH sh [OF IH(2)] sh [of q] by (auto simp: rec_place_def dsize_def)
    qed
  qed
next
  case (3 t ts)
  show ?case
  proof (cases "(n, q, e) \<in> set (recs ctx nt mp d i t)")
    case True
    from 3(1) [OF True] show ?thesis
      by (auto simp: nth_append length_subtrees dsize_def [symmetric] rec_place_def)
  next
    case False
    with 3(3) have m: "(n, q, e) \<in> set (recss ctx nt mp d (i + dsize t) ts)" by simp
    from 3(2) [OF m] show ?thesis
      by (auto simp: nth_append length_subtrees rec_place_def dsize_def [symmetric])
  qed
qed simp

lemma recs_distinct:
  "distinct (map fst (recs ctx nt mp d i t))" "distinct (map fst (recss ctx nt mp d i ts))"
proof (induction t and ts arbitrary: mp d i and mp d i rule: subtrees_subtreess.induct)
  case (1 l ts)
  then show ?case
    using recs_place(2) by (fastforce split: option.split)
next
  case (3 t ts)
  then show ?case
    using recs_place by fastforce
qed simp

lemma FindParents_lookup:
  assumes "derives (rules ctx) m t" and "recs ctx nt None 0 0 t = xs"
  shows "FindParents (flat t) nt ctx =
    Inr (if xs = [] then None
         else Some (map_of (map (\<lambda>(n, p, d). (n, p)) xs), map fst xs, map (snd \<circ> snd) xs))"
proof -
  have "distinct (map fst (map (\<lambda>(n, p, d). (n, p)) xs))"
    using recs_distinct(1) [of ctx nt None 0 0 t] assms(2) by (simp add: comp_def case_prod_beta)
  then have "map_of (rev (map (\<lambda>(n, p, d). (n, p)) xs)) = map_of (map (\<lambda>(n, p, d). (n, p)) xs)"
    by (subst map_of_inject_set) (simp_all only: rev_map [symmetric] distinct_rev set_rev)
  then show ?thesis
    using FindParents_flat [OF assms(1)] assms(2) by (simp add: add_recs_def)
qed

section \<open>The upward search agrees with the collection\<close>

abbreviation rec_parents :: "(NodeID \<times> NodeID \<times> nat) list \<Rightarrow> NodeID \<rightharpoonup> NodeID" where
  "rec_parents xs \<equiv> map_of (map (\<lambda>(n, p, d). (n, p)) xs)"

lemma rec_parents_None: "(\<And>q e. (n, q, e) \<notin> set xs) \<Longrightarrow> rec_parents xs n = None"
  by (auto simp: map_of_eq_None_iff)

text \<open>What the search from a child of node \<open>p\<close> returns.\<close>

definition climb :: "Tree \<Rightarrow> Context \<Rightarrow> NTermID \<Rightarrow> NodeID \<Rightarrow> NodeID option result option" where
  "climb T ctx nt p =
     (case Tree_GetRule T p ctx of
        Inl e \<Rightarrow> Some (Inl e)
      | Inr rule \<Rightarrow> if nonterm rule = nt then Some (Inr (Some p)) else find_parent_loop T ctx nt p)"

lemma find_parent_loop_step:
  "tree_paren T = a @ p # c \<Longrightarrow> 0 < length a \<Longrightarrow> find_parent_loop T ctx nt (length a) = climb T ctx nt p"
  by (subst find_parent_loop.simps) (simp add: GetParent_def climb_def)

lemma find_parent_loop_recs:
  "derives (rules ctx) m t \<Longrightarrow> tree_paren T = a @ pparen p i t @ c \<Longrightarrow> tree_rules T = a' @ preorder t @ c' \<Longrightarrow>
     length a = i \<Longrightarrow> length a' = i \<Longrightarrow> 0 < i \<Longrightarrow> climb T ctx nt p = Some (Inr mp) \<Longrightarrow>
     i \<le> n \<Longrightarrow> n < i + dsize t \<Longrightarrow> nt_of ctx (subtrees t ! (n - i)) = nt \<Longrightarrow>
     find_parent_loop T ctx nt n = Some (Inr (rec_parents (recs ctx nt mp d i t) n))"
  "derives_list (rules ctx) ms ts \<Longrightarrow> tree_paren T = a @ pparens p i ts @ c \<Longrightarrow> tree_rules T = a' @ preorders ts @ c' \<Longrightarrow>
     length a = i \<Longrightarrow> length a' = i \<Longrightarrow> 0 < i \<Longrightarrow> climb T ctx nt p = Some (Inr mp) \<Longrightarrow>
     i \<le> n \<Longrightarrow> n < i + length (preorders ts) \<Longrightarrow> nt_of ctx (subtreess ts ! (n - i)) = nt \<Longrightarrow>
     find_parent_loop T ctx nt n = Some (Inr (rec_parents (recss ctx nt mp d i ts) n))"
proof (induction t and ts arbitrary: m a a' c c' p i mp d and ms a a' c c' p i mp d rule: subtrees_subtreess.induct)
  case (1 l ts)
  let ?r = "rules ctx ! ID l"
  have loop: "find_parent_loop T ctx nt i = Some (Inr mp)"
    using find_parent_loop_step [of T a p] 1(3,5,7,8) by simp
  have none: "rec_parents (recss ctx nt mp' d' (Suc i) ts) i = None" for mp' d'
    by (rule rec_parents_None) (use recs_place(2) in fastforce)
  show ?case
  proof (cases "n = i")
    case True
    then show ?thesis
      using loop none 1(11) by (simp add: nt_of_def split: option.split)
  next
    case False
    define mp' where "mp' = (if nonterm ?r = nt then Some i else mp)"
    have r: "Tree_GetRule T i ctx = Inr ?r"
      using 1(2,4,6) by (auto simp: Tree_GetRule_def Tree_GetRuleID_def GetRule_def)
    have "climb T ctx nt i = Some (Inr mp')"
      using loop by (simp add: climb_def r mp'_def)
    then have "find_parent_loop T ctx nt n = Some (Inr (rec_parents (recss ctx nt mp' (Suc d) (Suc i) ts) n))"
      using 1(2-11) False
      by (intro 1(1) [where a = "a @ [p]" and a' = "a' @ [l]" and c = c and c' = c'])
         (auto simp: dsize_def nth_Cons' Suc_diff_Suc)
    then show ?thesis
      using False by (auto simp: mp'_def split: option.split)
  qed
next
  case (3 t ts)
  obtain m1 ms1 where ms: "derives (rules ctx) m1 t" "derives_list (rules ctx) ms1 ts"
    using 3(3) by (cases ms) auto
  show ?case
  proof (cases "n < i + dsize t")
    case True
    have "find_parent_loop T ctx nt n = Some (Inr (rec_parents (recs ctx nt mp d i t) n))"
      using 3(4-12) True ms(1)
      by (intro 3(1) [where a = a and a' = a' and c = "pparens p (i + dsize t) ts @ c" and c' = "preorders ts @ c'"])
         (auto simp: nth_append length_subtrees)
    moreover have "rec_parents (recss ctx nt mp d (i + dsize t) ts) n = None"
      by (rule rec_parents_None) (use recs_place(2) True in fastforce)
    ultimately show ?thesis by (simp add: map_add_def split: option.split)
  next
    case False
    have "find_parent_loop T ctx nt n = Some (Inr (rec_parents (recss ctx nt mp d (i + dsize t) ts) n))"
      using 3(4-12) False ms(2)
      by (intro 3(2) [where a = "a @ pparen p i t" and a' = "a' @ preorder t" and c = c and c' = c'])
         (auto simp: nth_append length_subtrees length_pparen dsize_def)
    moreover have "rec_parents (recs ctx nt mp d i t) n = None"
      by (rule rec_parents_None) (use recs_place(1) False in fastforce)
    ultimately show ?thesis by (simp add: map_add_def split: option.split)
  qed
qed simp

lemma FindParentWithNT_recs:
  assumes "derives (rules ctx) m t" and "n < dsize t"
  shows "FindParentWithNT (flat t) n ctx =
    Some (Inr (rec_parents (recs ctx (nt_of ctx (subtrees t ! n)) None 0 0 t) n))"
proof -
  obtain l ts where t: "t = DNode l ts" by (cases t)
  let ?nt = "nt_of ctx (subtrees t ! n)" and ?T = "flat t"
  have rule: "Tree_GetRule ?T k ctx = Inr (rules ctx ! ID (label (subtrees t ! k)))" if "k < dsize t" for k
    using that derives_rule_known(1) [OF assms(1)]
    by (simp add: Tree_GetRule_def Tree_GetRuleID_def GetRule_def preorder_subtrees length_subtrees)
  have loop0: "find_parent_loop ?T ctx nt 0 = Some (Inr None)" for nt
    by (subst find_parent_loop.simps) (simp add: GetParent_def)
  have find: "FindParentWithNT ?T n ctx = find_parent_loop ?T ctx ?nt n"
    by (simp add: FindParentWithNT_def rule [OF assms(2)] nt_of_def)
  show ?thesis
  proof (cases "n = 0")
    case True
    have "rec_parents (recs ctx ?nt None 0 0 t) 0 = None"
      by (rule rec_parents_None) (use recs_place(1) in \<open>fastforce simp: rec_place_def\<close>)
    then show ?thesis using find loop0 True by simp
  next
    case False
    define mp' where "mp' = (if nonterm (rules ctx ! ID l) = ?nt then Some (0::nat) else None)"
    have "climb ?T ctx ?nt 0 = Some (Inr mp')"
      using rule [of 0] loop0 by (simp add: climb_def mp'_def) (simp add: t)
    then have "find_parent_loop ?T ctx ?nt n = Some (Inr (rec_parents (recss ctx ?nt mp' 1 1 ts) n))"
      using assms False
      by (intro find_parent_loop_recs(2) [where a = "[0]" and a' = "[l]" and p = 0 and c = "[]" and c' = "[]"])
         (auto simp: t dsize_def nth_Cons' Suc_diff_Suc)
    then show ?thesis
      using find by (simp add: mp'_def t)
  qed
qed

text \<open>
  C38. \<open>RecursionInfo::FindParents\<close>, which collects the recursions of a nonterminal in one pass with a
  stack, and \<open>Mutator::FindParentWithNT\<close>, which walks up the parent links, agree on every node of a
  tree of the grammar; the upward walk comes to an end.
\<close>

theorem FindParents_agrees:
  fixes ctx :: Context
  assumes "valid_tree ctx m T" and "n < Tree_Size T" and "Tree_GetRule T n ctx = Inr rule"
  shows "\<exists>r. FindParents T (nonterm rule) ctx = Inr r \<and>
    FindParentWithNT T n ctx = Some (Inr (case r of None \<Rightarrow> None | Some (parents, ids, depths) \<Rightarrow> parents n))"
proof -
  obtain t where t: "derives (rules ctx) m t" "T = flat t"
    using assms(1) by (auto simp: valid_tree_def)
  have n: "n < dsize t"
    using assms(2) by (simp add: t(2) Tree_Size_def dsize_def)
  have "nonterm rule = nt_of ctx (subtrees t ! n)"
    using assms(3) n by (auto simp: t(2) nt_of_def Tree_GetRule_def Tree_GetRuleID_def GetRule_def bindR_eq_Inr
        preorder_subtrees length_subtrees)
  then show ?thesis
    using FindParents_lookup [OF t(1) refl, of "nonterm rule"] FindParentWithNT_recs [OF t(1) n] by (simp add: t(2))
qed

theorem FindParents_agrees_witness:
  "\<exists>r. FindParents (flat demo_tree) 0 demo_ctx = Inr r \<and>
    FindParentWithNT (flat demo_tree) 2 demo_ctx =
      Some (Inr (case r of None \<Rightarrow> None | Some (parents, ids, depths) \<Rightarrow> parents 2))"
proof -
  have v: "valid_tree demo_ctx 0 (flat demo_tree)"
    using demo_tree_derives by (auto simp: valid_tree_def)
  have r: "2 < Tree_Size (flat demo_tree)" "Tree_GetRule (flat demo_tree) 2 demo_ctx = Inr (rules demo_ctx ! 1)"
    "nonterm (rules demo_ctx ! 1) = 0"
    by (simp_all add: demo_tree_def Tree_Size_def Tree_GetRule_def Tree_GetRuleID_def GetRule_def demo_rules demo_defs)
  show ?thesis
    using FindParents_agrees [OF v r(1,2)] r(3) by simp
qed

section \<open>Recursion pairs\<close>

text \<open>A pair of nodes with the same nonterminal, the second strictly below the first.\<close>

definition rec_pair :: "Context \<Rightarrow> dtree \<Rightarrow> NodeID \<Rightarrow> NodeID \<Rightarrow> bool" where
  "rec_pair ctx t p n \<longleftrightarrow>
     p < n \<and> n < p + dsize (subtrees t ! p) \<and> n < dsize t \<and>
     nt_of ctx (subtrees t ! p) = nt_of ctx (subtrees t ! n)"

lemma recs_rec_pair:
  "(n, q, e) \<in> set (recs ctx nt None 0 0 t) \<Longrightarrow> rec_pair ctx t q n \<and> 0 < e"
  using recs_place(1) [of n q e ctx nt None 0 0 t] by (auto simp: rec_place_def rec_pair_def)

lemma sum_list_pos: "(\<And>x. x \<in> set xs \<Longrightarrow> 0 < x) \<Longrightarrow> xs \<noteq> [] \<Longrightarrow> 0 < sum_list (xs :: rat list)"
proof (induction xs)
  case (Cons x xs)
  then show ?case by (cases xs) (auto intro: add_pos_pos)
qed simp

lemma RecursionInfo_New_ok:
  assumes "derives (rules ctx) m t"
  shows "\<exists>ri. RecursionInfo_New (flat t) nt ctx = Inr ri \<and>
    (\<forall>R. ri = Some R \<longrightarrow> 0 < GetNumberOfRecursions R \<and>
       (\<forall>rs. \<exists>p n rs'. GetRandomRecursionPair R rs = Inr ((p, n), rs') \<and> rec_pair ctx t p n))"
proof (cases "recs ctx nt None 0 0 t = []")
  case True
  then show ?thesis
    using FindParents_lookup [OF assms True] by (simp add: RecursionInfo_New_def)
next
  case False
  define xs where "xs = recs ctx nt None 0 0 t"
  have ne: "xs \<noteq> []" using False by (simp add: xs_def)
  have pos: "0 < e" if "(n, q, e) \<in> set xs" for n q e
    using recs_rec_pair that unfolding xs_def by blast
  define ws :: "rat list" where "ws = map of_nat (map (snd \<circ> snd) xs)"
  have w: "ws \<noteq> []" "\<forall>p \<in> set ws. 0 \<le> p" "0 < sum_list ws"
    using ne pos by (auto simp: ws_def intro!: sum_list_pos)
  obtain W where W: "Walker_new ws = Inr W"
    using Walker_new_mass [OF w] by blast
  define R where "R = \<lparr>recursive_parents = rec_parents xs, sampler = W, depth_by_offset = map (snd \<circ> snd) xs,
      node_by_offset = map fst xs\<rparr>"
  have R: "RecursionInfo_New (flat t) nt ctx = Inr (Some R)"
    using FindParents_lookup [OF assms xs_def [symmetric]] W ne by (simp add: RecursionInfo_New_def R_def ws_def)
  have "\<exists>p n rs'. GetRandomRecursionPair R rs = Inr ((p, n), rs') \<and> rec_pair ctx t p n" for rs
  proof -
    obtain k rs' where k: "Walker_sample W rs = (k, rs')" by fastforce
    then have "k < length xs"
      using Walker_sample_in_range [OF w W, of rs] by (simp add: ws_def)
    obtain n p e where x: "xs ! k = (n, p, e)" by (cases "xs ! k") auto
    have mem: "(n, p, e) \<in> set xs" using x \<open>k < length xs\<close> by (metis nth_mem)
    have "rec_parents xs n = Some p"
      using recs_distinct(1) [of ctx nt None 0 0 t] mem
      by (intro map_of_is_SomeI) (force simp: xs_def comp_def case_prod_beta)+
    then have "recursion_pair_loop j (rec_parents xs) n q = Inr (if j = 0 then q else p)" for j q
      by (induction j arbitrary: q) simp_all
    then have "GetRandomRecursionPair R rs = Inr ((p, n), rs')"
      using k x \<open>k < length xs\<close> pos [OF mem] by (simp add: GetRandomRecursionPair_def GetRecursionPairByOffset_def R_def)
    then show ?thesis
      using recs_rec_pair [of n p e] mem by (auto simp: xs_def)
  qed
  then show ?thesis
    using R ne by (simp add: GetNumberOfRecursions_def R_def)
qed

definition recursions_ok :: "Context \<Rightarrow> dtree \<Rightarrow> RecursionInfo list \<Rightarrow> bool" where
  "recursions_ok ctx t Rs \<longleftrightarrow>
     (\<forall>R \<in> set Rs. \<forall>rs. \<exists>p n rs'. GetRandomRecursionPair R rs = Inr ((p, n), rs') \<and> rec_pair ctx t p n)"

lemma calc_recursions_loop_ok:
  assumes "derives (rules ctx) m t"
  shows "\<forall>r \<in> set rls. ID r < length (rules ctx) \<Longrightarrow> recursions_ok ctx t ret \<Longrightarrow>
    \<exists>ret'. calc_recursions_loop (flat t) ctx rls dn ret = Inr ret' \<and> recursions_ok ctx t ret'"
proof (induction rls arbitrary: dn ret)
  case (Cons r rls)
  let ?nt = "nonterm (rules ctx ! ID r)"
  have nt: "GetNT ctx r = Inr ?nt" using Cons.prems(1) by (simp add: GetNT_def GetRule_def)
  obtain ri where ri: "RecursionInfo_New (flat t) ?nt ctx = Inr ri"
    "\<forall>R. ri = Some R \<longrightarrow> (\<forall>rs. \<exists>p n rs'. GetRandomRecursionPair R rs = Inr ((p, n), rs') \<and> rec_pair ctx t p n)"
    using RecursionInfo_New_ok [OF assms, of ?nt] by blast
  define ret1 where "ret1 = (case ri of None \<Rightarrow> ret | Some i \<Rightarrow> ret @ [i])"
  have "recursions_ok ctx t ret1"
    using Cons.prems(2) ri(2) by (auto simp: recursions_ok_def ret1_def split: option.split)
  then show ?case
    using Cons.IH [of ret dn] Cons.IH [of ret1 "?nt # dn"] Cons.prems nt ri(1) by (simp add: ret1_def [symmetric])
qed simp

lemma CalcRecursions_ok:
  assumes "derives (rules ctx) m t"
  shows "\<exists>r. CalcRecursions (flat t) ctx = Inr r \<and> (\<forall>Rs. r = Some Rs \<longrightarrow> Rs \<noteq> [] \<and> recursions_ok ctx t Rs)"
  using calc_recursions_loop_ok [OF assms, of "preorder t" "[]" "[]"] derives_rule_known(1) [OF assms]
  by (auto simp: CalcRecursions_def recursions_ok_def)

text \<open>
  \<open>Tree::CalcRecursions\<close> succeeds on every tree of the grammar, and whatever the random source,
  every recursion it returns yields a pair of nodes with the same nonterminal of which the second lies
  strictly inside the subtree of the first.
\<close>

theorem CalcRecursions_pairs:
  fixes ctx :: Context
  assumes "derives (rules ctx) m t"
  shows "\<exists>r. CalcRecursions (flat t) ctx = Inr r \<and>
    (\<forall>Rs R rs. r = Some Rs \<and> R \<in> set Rs \<longrightarrow>
       (\<exists>p n rs'. GetRandomRecursionPair R rs = Inr ((p, n), rs') \<and> rec_pair ctx t p n))"
  using CalcRecursions_ok [OF assms] by (auto simp: recursions_ok_def)

lemma demo_recursions: "\<exists>R Rs. CalcRecursions (flat demo_tree) demo_ctx = Inr (Some (R # Rs))"
  by (simp add: CalcRecursions_def RecursionInfo_New_def FindParents_def demo_tree_def demo_rules demo_defs
      GetNT_def GetNumChildren_def NumberOfNonterms_def GetRule_def Walker_new_def)

theorem CalcRecursions_pairs_witness:
  "\<exists>R Rs p n rs'. CalcRecursions (flat demo_tree) demo_ctx = Inr (Some (R # Rs)) \<and>
     GetRandomRecursionPair R [1, 7] = Inr ((p, n), rs') \<and> rec_pair demo_ctx demo_tree p n"
proof -
  obtain R Rs where R: "CalcRecursions (flat demo_tree) demo_ctx = Inr (Some (R # Rs))"
    using demo_recursions by blast
  then show ?thesis
    using CalcRecursions_pairs [OF demo_tree_derives] by fastforce
qed

end
