(* ===== verification/Fuzzuf_Files.thy ===== *)
theory Fuzzuf_Files
  imports Fuzzuf_Prelude
begin

text \<open>
  The part of \<open>utils/common.cpp\<close> that the fuzzers use to save test cases: \<open>OpenFile\<close> with
  \<open>O_WRONLY | O_CREAT | O_TRUNC\<close>, \<open>WriteFile\<close>, \<open>CloseFile\<close>, \<open>DeleteFileOrDirectory\<close>, and the decimal
  conversions of the file names.
\<close>

section \<open>File names\<close>

function decimal :: "nat \<Rightarrow> string" where
  "decimal n = (if n < 10 then [char_of (48 + n)] else decimal (n div 10) @ [char_of (48 + n mod 10)])"
  by pat_completeness auto
termination
  by (relation "measure id") auto

declare decimal.simps [simp del]

text \<open>The conversion \<open>%09ld\<close>.\<close>

definition decimal9 :: "nat \<Rightarrow> string" where
  "decimal9 n = replicate (9 - length (decimal n)) (CHR ''0'') @ decimal n"

fun digits_value :: "string \<Rightarrow> nat" where
  "digits_value [] = 0"
| "digits_value (c # cs) = (of_char c - 48) * 10 ^ length cs + digits_value cs"

lemma digits_value_snoc: "digits_value (cs @ [c]) = 10 * digits_value cs + (of_char c - 48)"
  by (induction cs) (simp_all add: algebra_simps)

lemma digits_value_decimal [simp]: "digits_value (decimal n) = n"
proof (induction n rule: decimal.induct)
  case (1 n)
  show ?case
  proof (cases "n < 10")
    case True
    then show ?thesis by (subst decimal.simps) (simp add: of_char_of)
  next
    case False
    then show ?thesis
      using 1 by (subst decimal.simps) (simp add: digits_value_snoc of_char_of)
  qed
qed

lemma digits_value_decimal9 [simp]: "digits_value (decimal9 n) = n"
proof -
  have "digits_value (replicate k (CHR ''0'') @ cs) = digits_value cs" for k cs
    by (induction k) simp_all
  then show ?thesis by (simp add: decimal9_def)
qed

text \<open>Two identifiers never share a file name.\<close>

lemma decimal9_inj: "decimal9 m = decimal9 n \<longleftrightarrow> m = n"
  by (metis digits_value_decimal9)

section \<open>Saving and deleting\<close>

text \<open>
  A file system is a map from paths to contents with a predicate for the paths that can be opened for
  writing; a failing \<open>open\<close> makes \<open>OpenFile\<close> throw \<open>FileError\<close>.
\<close>

record FS =
  fs_files :: "string \<rightharpoonup> string"
  fs_writable :: "string \<Rightarrow> bool"

definition OpenFile :: "string \<Rightarrow> FS \<Rightarrow> FS result" where
  "OpenFile path fs =
     (if fs_writable fs path then Inr (fs\<lparr>fs_files := (fs_files fs)(path \<mapsto> [])\<rparr>) else Inl (FileError path))"

definition WriteFile :: "string \<Rightarrow> string \<Rightarrow> FS \<Rightarrow> FS" where
  "WriteFile path buf fs =
     fs\<lparr>fs_files := (fs_files fs)(path \<mapsto> (case fs_files fs path of None \<Rightarrow> [] | Some old \<Rightarrow> old) @ buf)\<rparr>"

definition save_file :: "string \<Rightarrow> string \<Rightarrow> FS \<Rightarrow> FS result" where
  "save_file path buf fs = bindR (OpenFile path fs) (\<lambda>fs'. Inr (WriteFile path buf fs'))"

definition DeleteFileOrDirectory :: "string \<Rightarrow> FS \<Rightarrow> FS" where
  "DeleteFileOrDirectory path fs = fs\<lparr>fs_files := (fs_files fs)(path := None)\<rparr>"

lemma save_file_eq:
  "save_file path buf fs =
     (if fs_writable fs path then Inr (fs\<lparr>fs_files := (fs_files fs)(path \<mapsto> buf)\<rparr>) else Inl (FileError path))"
  by (simp add: save_file_def OpenFile_def WriteFile_def)

definition writable_all :: "FS \<Rightarrow> bool" where
  "writable_all fs \<longleftrightarrow> fs_writable fs = (\<lambda>_. True)"

lemma save_file_ok: "writable_all fs \<Longrightarrow> \<exists>fs'. save_file path buf fs = Inr fs' \<and> writable_all fs'"
  by (simp add: save_file_eq writable_all_def)

lemma DeleteFileOrDirectory_writable [simp]: "writable_all (DeleteFileOrDirectory path fs) = writable_all fs"
  by (simp add: DeleteFileOrDirectory_def writable_all_def)

end
