(* ===== verification/Nautilus_ChunkStore.thy ===== *)
theory Nautilus_ChunkStore
  imports Nautilus_Recursion Fuzzuf_Files
begin

text \<open>
  The chunk store (\<open>algorithms/nautilus/grammartec/chunkstore.cpp\<close>): subtrees seen so far, filed by
  nonterminal, and the choice of an alternative to a rule.
\<close>

section \<open>State and operations\<close>

type_synonym Chunk = "nat \<times> NodeID"

record ChunkStore =
  nts_to_chunks :: "NTermID \<rightharpoonup> Chunk list"
  seen_outputs :: "string set"
  cs_trees :: "Tree list"
  cs_work_dir :: string
  number_of_chunks :: nat

definition ChunkStore_new :: "string \<Rightarrow> ChunkStore" where
  "ChunkStore_new dir =
     \<lparr>nts_to_chunks = Map.empty, seen_outputs = {}, cs_trees = [], cs_work_dir = dir, number_of_chunks = 0\<rparr>"

text \<open>A run of the unparser as a result; the missing value of a run that does not end never occurs.\<close>

definition ran :: "'a result option \<Rightarrow> 'a result" where
  "ran r = (case r of None \<Rightarrow> Inl OutOfFuel | Some x \<Rightarrow> x)"

lemma ran_Some [simp]: "ran (Some x) = x"
  by (simp add: ran_def)

definition chunk_path :: "ChunkStore \<Rightarrow> string" where
  "chunk_path cs = cs_work_dir cs @ ''/chunks/chunk_'' @ decimal9 (number_of_chunks cs)"

text \<open>The body of the loop of \<open>AddTree\<close> for a node, and the loop.\<close>

definition add_chunk ::
  "Tree \<Rightarrow> Context \<Rightarrow> nat \<Rightarrow> NodeID \<Rightarrow> ChunkStore \<Rightarrow> FS \<Rightarrow> bool \<Rightarrow> (ChunkStore \<times> FS \<times> bool) result" where
  "add_chunk T ctx tid i cs fs new =
     bindR (idx_vec (tree_sizes T) i) (\<lambda>size.
       if 30 < size then Inr (cs, fs, new)
       else bindR (ran (Unparse (Tree_GetRuleOrCustom T) i ctx [])) (\<lambda>(buffer, _).
         if buffer \<in> seen_outputs cs then Inr (cs, fs, new)
         else bindR (Tree_GetRule T i ctx) (\<lambda>rule.
           let nt = nonterm rule;
               chunks = (case nts_to_chunks cs nt of None \<Rightarrow> [(tid, i)] | Some old \<Rightarrow> old @ [(tid, i)])
           in bindR (save_file (chunk_path cs) buffer fs) (\<lambda>fs'.
                Inr (cs\<lparr>seen_outputs := insert buffer (seen_outputs cs),
                        nts_to_chunks := (nts_to_chunks cs)(nt \<mapsto> chunks),
                        number_of_chunks := Suc (number_of_chunks cs)\<rparr>, fs', True)))))"

fun add_tree_loop ::
  "Tree \<Rightarrow> Context \<Rightarrow> nat \<Rightarrow> NodeID list \<Rightarrow> ChunkStore \<Rightarrow> FS \<Rightarrow> bool \<Rightarrow> (ChunkStore \<times> FS \<times> bool) result" where
  "add_tree_loop T ctx tid [] cs fs new = Inr (cs, fs, new)"
| "add_tree_loop T ctx tid (i # is) cs fs new =
     bindR (add_chunk T ctx tid i cs fs new) (\<lambda>(cs', fs', new'). add_tree_loop T ctx tid is cs' fs' new')"

definition AddTree :: "ChunkStore \<Rightarrow> Tree \<Rightarrow> Context \<Rightarrow> FS \<Rightarrow> (ChunkStore \<times> FS) result" where
  "AddTree cs T ctx fs =
     bindR (add_tree_loop T ctx (length (cs_trees cs)) [0..<Tree_Size T] cs fs False) (\<lambda>(cs', fs', new).
       Inr (if new then cs'\<lparr>cs_trees := cs_trees cs' @ [T]\<rparr> else cs', fs'))"

fun relevant_chunks :: "ChunkStore \<Rightarrow> RuleID \<Rightarrow> Chunk list \<Rightarrow> Chunk list result" where
  "relevant_chunks cs r [] = Inr []"
| "relevant_chunks cs r ((tid, nid) # chunks) =
     bindR (at_vec (cs_trees cs) tid) (\<lambda>T.
     bindR (Tree_GetRuleID T nid) (\<lambda>q.
     bindR (relevant_chunks cs r chunks) (\<lambda>rest. Inr (if q \<noteq> r then (tid, nid) # rest else rest))))"

definition GetAlternativeTo :: "ChunkStore \<Rightarrow> RuleID \<Rightarrow> Context \<Rightarrow> rng \<Rightarrow> ((Tree \<times> NodeID) option \<times> rng) result" where
  "GetAlternativeTo cs r ctx rs =
     bindR (GetNT ctx (PlainID r)) (\<lambda>nt.
       case nts_to_chunks cs nt of
         None \<Rightarrow> Inr (None, rs)
       | Some chunks \<Rightarrow>
           bindR (relevant_chunks cs r chunks) (\<lambda>relevant.
             if length relevant = 0 then Inr (None, rs)
             else bindR (Choose relevant rs) (\<lambda>((tid, nid), rs').
               bindR (at_vec (cs_trees cs) tid) (\<lambda>T. Inr (Some (T, nid), rs')))))"

section \<open>Invariant\<close>

definition chunk_ok :: "Context \<Rightarrow> Tree list \<Rightarrow> NTermID \<Rightarrow> Chunk \<Rightarrow> bool" where
  "chunk_ok ctx Ts nt c \<longleftrightarrow>
     fst c < length Ts \<and> (\<exists>m t. derives (rules ctx) m t \<and> Ts ! fst c = flat t \<and> snd c < dsize t \<and>
       nt_of ctx (subtrees t ! snd c) = nt)"

definition chunks_ok :: "Context \<Rightarrow> Tree list \<Rightarrow> (NTermID \<rightharpoonup> Chunk list) \<Rightarrow> bool" where
  "chunks_ok ctx Ts m \<longleftrightarrow> (\<forall>nt cks. m nt = Some cks \<longrightarrow> (\<forall>c \<in> set cks. chunk_ok ctx Ts nt c))"

definition store_wf :: "Context \<Rightarrow> ChunkStore \<Rightarrow> bool" where
  "store_wf ctx cs \<longleftrightarrow>
     chunks_ok ctx (cs_trees cs) (nts_to_chunks cs) \<and> finite (seen_outputs cs) \<and>
     number_of_chunks cs = card (seen_outputs cs)"

lemma ChunkStore_new_wf: "store_wf ctx (ChunkStore_new dir)"
  by (simp add: store_wf_def ChunkStore_new_def chunks_ok_def)

text \<open>The outputs that \<open>AddTree\<close> records for a node.\<close>

definition small_outputs :: "Context \<Rightarrow> dtree \<Rightarrow> NodeID set \<Rightarrow> string set" where
  "small_outputs ctx t A = {dyield (rules ctx) (subtrees t ! n) |n. n \<in> A \<and> dsize (subtrees t ! n) \<le> 30}"

lemma Unparse_flat:
  assumes "\<forall>r \<in> set (rules ctx). rule_wf r" and "derives (rules ctx) m t" and "n < dsize t"
  shows "Unparse (Tree_GetRuleOrCustom (flat t)) n ctx d =
    Some (Inr (d @ dyield (rules ctx) (subtrees t ! n), n + dsize (subtrees t ! n)))"
  by (rule tl.Unparse_yield [OF assms(1) derives_sub [OF assms(2,3)] valid_at_rules [OF assms(3)]])

lemma Tree_GetRule_flat:
  "derives (rules ctx) m t \<Longrightarrow> n < dsize t \<Longrightarrow>
     Tree_GetRule (flat t) n ctx = Inr (rules ctx ! ID (label (subtrees t ! n)))"
  using derives_rule_known(1) [of "rules ctx" m t]
  by (simp add: Tree_GetRule_def Tree_GetRuleID_def GetRule_def preorder_subtrees length_subtrees)

lemma add_chunk_ok:
  fixes ctx :: Context
  assumes wf: "\<forall>r \<in> set (rules ctx). rule_wf r" and t: "derives (rules ctx) m t" and n: "n < dsize t"
    and w: "writable_all fs" and c: "chunks_ok ctx (Ts @ [flat t]) (nts_to_chunks cs)"
    and f: "finite (seen_outputs cs)" and k: "number_of_chunks cs = card (seen_outputs cs)"
  shows "\<exists>cs' fs' new'. add_chunk (flat t) ctx (length Ts) n cs fs new = Inr (cs', fs', new') \<and> writable_all fs' \<and>
    chunks_ok ctx (Ts @ [flat t]) (nts_to_chunks cs') \<and> finite (seen_outputs cs') \<and>
    number_of_chunks cs' = card (seen_outputs cs') \<and> cs_trees cs' = cs_trees cs \<and>
    seen_outputs cs' = seen_outputs cs \<union> small_outputs ctx t {n} \<and>
    (new \<longrightarrow> new') \<and> (\<not> new' \<longrightarrow> nts_to_chunks cs' = nts_to_chunks cs)"
proof -
  let ?s = "subtrees t ! n" and ?b = "dyield (rules ctx) (subtrees t ! n)"
  have size: "idx_vec (tree_sizes (flat t)) n = Inr (dsize ?s)"
    using n by (simp add: length_subtrees)
  show ?thesis
  proof (cases "30 < dsize ?s \<or> ?b \<in> seen_outputs cs")
    case True
    then show ?thesis
      using assms size Unparse_flat [OF wf t n, of "[]"] by (auto simp: add_chunk_def small_outputs_def)
  next
    case False
    obtain fs' where fs': "save_file (chunk_path cs) ?b fs = Inr fs'" "writable_all fs'"
      using save_file_ok [OF w] by blast
    let ?nt = "nt_of ctx ?s"
    define chunks where "chunks = (case nts_to_chunks cs ?nt of None \<Rightarrow> [(length Ts, n)] | Some old \<Rightarrow> old @ [(length Ts, n)])"
    have "chunk_ok ctx (Ts @ [flat t]) ?nt (length Ts, n)"
      using t n by (auto simp: chunk_ok_def)
    then have "chunks_ok ctx (Ts @ [flat t]) ((nts_to_chunks cs)(?nt \<mapsto> chunks))"
      using c by (auto simp: chunks_ok_def chunks_def split: option.splits)
    then show ?thesis
      using False fs' size Unparse_flat [OF wf t n, of "[]"] Tree_GetRule_flat [OF t n] f k
      by (auto simp: add_chunk_def small_outputs_def Let_def nt_of_def chunks_def)
  qed
qed

lemma small_outputs_Un: "small_outputs ctx t (A \<union> B) = small_outputs ctx t A \<union> small_outputs ctx t B"
  by (auto simp: small_outputs_def)

lemma small_outputs_empty [simp]: "small_outputs ctx t {} = {}"
  by (simp add: small_outputs_def)

lemma add_tree_loop_ok:
  fixes ctx :: Context
  assumes wf: "\<forall>r \<in> set (rules ctx). rule_wf r" and t: "derives (rules ctx) m t"
  shows "\<forall>n \<in> set ns. n < dsize t \<Longrightarrow> writable_all fs \<Longrightarrow> chunks_ok ctx (Ts @ [flat t]) (nts_to_chunks cs) \<Longrightarrow>
    finite (seen_outputs cs) \<Longrightarrow> number_of_chunks cs = card (seen_outputs cs) \<Longrightarrow>
    \<exists>cs' fs' new'. add_tree_loop (flat t) ctx (length Ts) ns cs fs new = Inr (cs', fs', new') \<and> writable_all fs' \<and>
      chunks_ok ctx (Ts @ [flat t]) (nts_to_chunks cs') \<and> finite (seen_outputs cs') \<and>
      number_of_chunks cs' = card (seen_outputs cs') \<and> cs_trees cs' = cs_trees cs \<and>
      seen_outputs cs' = seen_outputs cs \<union> small_outputs ctx t (set ns) \<and>
      (new \<longrightarrow> new') \<and> (\<not> new' \<longrightarrow> nts_to_chunks cs' = nts_to_chunks cs)"
proof (induction ns arbitrary: cs fs new)
  case (Cons n ns)
  have n: "n < dsize t" using Cons.prems(1) by simp
  obtain cs1 fs1 new1 where 1: "add_chunk (flat t) ctx (length Ts) n cs fs new = Inr (cs1, fs1, new1)"
    "writable_all fs1" "chunks_ok ctx (Ts @ [flat t]) (nts_to_chunks cs1)" "finite (seen_outputs cs1)"
    "number_of_chunks cs1 = card (seen_outputs cs1)" "cs_trees cs1 = cs_trees cs"
    "seen_outputs cs1 = seen_outputs cs \<union> small_outputs ctx t {n}"
    "new \<longrightarrow> new1" "\<not> new1 \<longrightarrow> nts_to_chunks cs1 = nts_to_chunks cs"
    using add_chunk_ok [OF wf t n Cons.prems(2-5)] by blast
  obtain cs2 fs2 new2 where 2: "add_tree_loop (flat t) ctx (length Ts) ns cs1 fs1 new1 = Inr (cs2, fs2, new2)"
    "writable_all fs2" "chunks_ok ctx (Ts @ [flat t]) (nts_to_chunks cs2)" "finite (seen_outputs cs2)"
    "number_of_chunks cs2 = card (seen_outputs cs2)" "cs_trees cs2 = cs_trees cs1"
    "seen_outputs cs2 = seen_outputs cs1 \<union> small_outputs ctx t (set ns)"
    "new1 \<longrightarrow> new2" "\<not> new2 \<longrightarrow> nts_to_chunks cs2 = nts_to_chunks cs1"
    using Cons.IH [OF _ 1(2-5), of new1] Cons.prems(1) by auto
  have "seen_outputs cs2 = seen_outputs cs \<union> small_outputs ctx t (set (n # ns))"
    using 1(7) 2(7) small_outputs_Un [of ctx t "{n}" "set ns"] by auto
  moreover have "add_tree_loop (flat t) ctx (length Ts) (n # ns) cs fs new = Inr (cs2, fs2, new2)"
    using 1(1) 2(1) by simp
  moreover have "(new \<longrightarrow> new2) \<and> (\<not> new2 \<longrightarrow> nts_to_chunks cs2 = nts_to_chunks cs)"
    using 1(8,9) 2(8,9) by metis
  moreover have "cs_trees cs2 = cs_trees cs"
    using 1(6) 2(6) by simp
  ultimately show ?case
    using 2(2-5) by blast
qed simp

lemma chunk_ok_append: "chunk_ok ctx Ts nt c \<Longrightarrow> chunk_ok ctx (Ts @ Us) nt c"
  by (auto simp: chunk_ok_def nth_append)

lemma AddTree_ok:
  fixes ctx :: Context
  assumes wf: "\<forall>r \<in> set (rules ctx). rule_wf r" and t: "derives (rules ctx) m t"
    and w: "writable_all fs" and cs: "store_wf ctx cs"
  shows "\<exists>cs' fs'. AddTree cs (flat t) ctx fs = Inr (cs', fs') \<and> writable_all fs' \<and> store_wf ctx cs' \<and>
    seen_outputs cs' = seen_outputs cs \<union> small_outputs ctx t {..<dsize t}"
proof -
  have c: "chunks_ok ctx (cs_trees cs @ [flat t]) (nts_to_chunks cs)"
    using cs by (auto simp: store_wf_def chunks_ok_def intro: chunk_ok_append)
  obtain cs' fs' new' where 1: "add_tree_loop (flat t) ctx (length (cs_trees cs)) [0..<dsize t] cs fs False = Inr (cs', fs', new')"
    "writable_all fs'" "chunks_ok ctx (cs_trees cs @ [flat t]) (nts_to_chunks cs')" "finite (seen_outputs cs')"
    "number_of_chunks cs' = card (seen_outputs cs')" "cs_trees cs' = cs_trees cs"
    "seen_outputs cs' = seen_outputs cs \<union> small_outputs ctx t (set [0..<dsize t])"
    "\<not> new' \<longrightarrow> nts_to_chunks cs' = nts_to_chunks cs"
    using add_tree_loop_ok [OF wf t _ w c, of "[0..<dsize t]" False] cs by (auto simp: store_wf_def)
  have "Tree_Size (flat t) = dsize t" by (simp add: Tree_Size_def dsize_def)
  then show ?thesis
    using 1 cs by (cases new') (auto simp: AddTree_def store_wf_def atLeast0LessThan)
qed

text \<open>
  \<open>ChunkStore::AddTree\<close> on a tree of the grammar keeps the invariant of the store (every chunk
  names a stored tree and a node of it whose nonterminal is the one it is filed under, and there are as
  many chunk files as distinct outputs) and records exactly the outputs of the subtrees of at most 30
  nodes.
\<close>

theorem AddTree_keeps_store:
  fixes ctx :: Context
  assumes "\<forall>r \<in> set (rules ctx). rule_wf r" and "derives (rules ctx) m t"
    and "writable_all fs" and "store_wf ctx cs"
  shows "\<exists>cs' fs'. AddTree cs (flat t) ctx fs = Inr (cs', fs') \<and> store_wf ctx cs' \<and>
    seen_outputs cs' = seen_outputs cs \<union>
      {dyield (rules ctx) (subtrees t ! n) |n. n < dsize t \<and> dsize (subtrees t ! n) \<le> 30}"
  using AddTree_ok [OF assms] by (auto simp: small_outputs_def)

definition demo_fs :: FS where
  "demo_fs = \<lparr>fs_files = Map.empty, fs_writable = (\<lambda>_. True)\<rparr>"

lemma demo_fs_writable: "writable_all demo_fs"
  by (simp add: demo_fs_def writable_all_def)

theorem AddTree_keeps_store_witness:
  "\<exists>cs' fs'. AddTree (ChunkStore_new ''w'') (flat demo_tree) demo_ctx demo_fs = Inr (cs', fs') \<and> store_wf demo_ctx cs' \<and>
     ''acb'' \<in> seen_outputs cs'"
proof -
  have "''acb'' \<in> {dyield (rules demo_ctx) (subtrees demo_tree ! n) |n. n < dsize demo_tree \<and> dsize (subtrees demo_tree ! n) \<le> 30}"
    by (simp, intro exI [of _ 1]) (simp add: demo_tree_def dsize_def demo_rules demo_defs)
  then show ?thesis
    using AddTree_keeps_store [OF demo_rules_wf demo_tree_derives demo_fs_writable ChunkStore_new_wf, of "''w''"] by auto
qed

section \<open>Alternatives\<close>

lemma relevant_chunks_ok:
  assumes "\<forall>c \<in> set cks. chunk_ok ctx (cs_trees cs) nt c"
  shows "\<exists>rel. relevant_chunks cs r cks = Inr rel \<and>
    (\<forall>c \<in> set rel. c \<in> set cks \<and> Tree_GetRuleID (cs_trees cs ! fst c) (snd c) \<noteq> Inr r)"
  using assms
proof (induction cs r cks rule: relevant_chunks.induct)
  case (2 cs r tid nid cks)
  then obtain m t where t: "tid < length (cs_trees cs)" "cs_trees cs ! tid = flat t" "nid < dsize t"
    by (auto simp: chunk_ok_def)
  then have q: "Tree_GetRuleID (cs_trees cs ! tid) nid = Inr (ID (preorder t ! nid))"
    by (simp add: Tree_GetRuleID_def dsize_def)
  then show ?case
    using 2 t(1) q by (fastforce split: if_splits)
qed simp

lemma GetAlternativeTo_ok:
  assumes "store_wf ctx cs" and "r < length (rules ctx)"
  shows "\<exists>alt rs'. GetAlternativeTo cs r ctx rs = Inr (alt, rs') \<and>
    (\<forall>T n. alt = Some (T, n) \<longrightarrow> (\<exists>m t. derives (rules ctx) m t \<and> T = flat t \<and> n < dsize t \<and>
       nt_of ctx (subtrees t ! n) = nonterm (rules ctx ! r) \<and> ID (label (subtrees t ! n)) \<noteq> r))"
proof -
  let ?nt = "nonterm (rules ctx ! r)"
  have nt: "GetNT ctx (PlainID r) = Inr ?nt"
    using assms(2) by (simp add: GetNT_def GetRule_def)
  show ?thesis
  proof (cases "nts_to_chunks cs ?nt")
    case None
    then show ?thesis by (simp add: GetAlternativeTo_def nt)
  next
    case (Some cks)
    have ok: "\<forall>c \<in> set cks. chunk_ok ctx (cs_trees cs) ?nt c"
      using assms(1) Some by (auto simp: store_wf_def chunks_ok_def)
    then obtain rel where rel: "relevant_chunks cs r cks = Inr rel"
      "\<forall>c \<in> set rel. c \<in> set cks \<and> Tree_GetRuleID (cs_trees cs ! fst c) (snd c) \<noteq> Inr r"
      using relevant_chunks_ok by blast
    show ?thesis
    proof (cases "rel = []")
      case True
      then show ?thesis by (simp add: GetAlternativeTo_def nt Some rel(1))
    next
      case False
      then obtain tid nid rs' where ch: "Choose rel rs = Inr ((tid, nid), rs')" "(tid, nid) \<in> set rel"
        using Choose_ok [OF False, of rs] by auto
      then have "chunk_ok ctx (cs_trees cs) ?nt (tid, nid)" "Tree_GetRuleID (cs_trees cs ! tid) nid \<noteq> Inr r"
        using ok rel(2) by auto
      then obtain m t where t: "tid < length (cs_trees cs)" "cs_trees cs ! tid = flat t" "derives (rules ctx) m t"
        "nid < dsize t" "nt_of ctx (subtrees t ! nid) = ?nt" "ID (label (subtrees t ! nid)) \<noteq> r"
        by (auto simp: chunk_ok_def Tree_GetRuleID_def preorder_subtrees length_subtrees)
      have "GetAlternativeTo cs r ctx rs = Inr (Some (flat t, nid), rs')"
        using False ch(1) t(1,2) by (simp add: GetAlternativeTo_def nt Some rel(1))
      then show ?thesis
        using t(3-6) by blast
    qed
  qed
qed

text \<open>
  \<open>ChunkStore::GetAlternativeTo\<close> never fails on a well-formed store, and an alternative it returns
  is a node of a tree of the grammar with the nonterminal of the given rule and with another rule.
\<close>

theorem GetAlternativeTo_fits:
  assumes "store_wf ctx cs" and "r < length (rules ctx)"
  shows "\<exists>alt rs'. GetAlternativeTo cs r ctx rs = Inr (alt, rs') \<and>
    (\<forall>T n. alt = Some (T, n) \<longrightarrow> (\<exists>m. valid_tree ctx m T) \<and>
       (\<exists>rule. Tree_GetRule T n ctx = Inr rule \<and> nonterm rule = nonterm (rules ctx ! r)) \<and>
       Tree_GetRuleID T n \<noteq> Inr r)"
proof -
  obtain alt rs' where a: "GetAlternativeTo cs r ctx rs = Inr (alt, rs')"
    and t: "\<And>T n. alt = Some (T, n) \<Longrightarrow> \<exists>m t. derives (rules ctx) m t \<and> T = flat t \<and> n < dsize t \<and>
       nt_of ctx (subtrees t ! n) = nonterm (rules ctx ! r) \<and> ID (label (subtrees t ! n)) \<noteq> r"
    using GetAlternativeTo_ok [OF assms, of rs] by blast
  have "(\<exists>m. valid_tree ctx m T) \<and> (\<exists>rule. Tree_GetRule T n ctx = Inr rule \<and> nonterm rule = nonterm (rules ctx ! r)) \<and>
      Tree_GetRuleID T n \<noteq> Inr r" if "alt = Some (T, n)" for T n
    using t [OF that]
    by (fastforce simp: valid_tree_def nt_of_def Tree_GetRule_flat Tree_GetRuleID_def preorder_subtrees length_subtrees)
  then show ?thesis
    using a by blast
qed

definition demo_store :: ChunkStore where
  "demo_store = \<lparr>nts_to_chunks = [0 \<mapsto> [(0, 0), (0, 2)]], seen_outputs = {''aacbb'', ''c''},
     cs_trees = [flat demo_tree], cs_work_dir = ''w'', number_of_chunks = 2\<rparr>"

lemma demo_store_wf: "store_wf demo_ctx demo_store"
proof -
  have "chunk_ok demo_ctx [flat demo_tree] 0 (0, n)" if "n = 0 \<or> n = 2" for n
    using demo_tree_derives that unfolding chunk_ok_def
    by (intro conjI exI [of _ 0] exI [of _ demo_tree]) (auto simp: demo_tree_def dsize_def nt_of_def demo_rules demo_defs)
  then show ?thesis
    by (auto simp: store_wf_def demo_store_def chunks_ok_def)
qed

theorem GetAlternativeTo_fits_witness:
  "\<exists>rs'. GetAlternativeTo demo_store 0 demo_ctx [] = Inr (Some (flat demo_tree, 2), rs') \<and>
     Tree_GetRuleID (flat demo_tree) 2 \<noteq> Inr 0"
proof -
  have "0 < length (rules demo_ctx)"
    by (simp add: demo_rules demo_defs)
  moreover have "GetAlternativeTo demo_store 0 demo_ctx [] = Inr (Some (flat demo_tree, 2), [])"
    by (simp add: GetAlternativeTo_def GetNT_def GetRule_def demo_rules demo_defs demo_store_def Tree_GetRuleID_def
        demo_tree_def Choose_def)
  ultimately show ?thesis
    using GetAlternativeTo_fits [OF demo_store_wf, of 0 "[]"] by auto
qed

end
