(* ===== verification/Nautilus_Mutator.thy ===== *)
theory Nautilus_Mutator
  imports Nautilus_ChunkStore
begin

text \<open>
  The mutation and minimisation engine of Nautilus (\<open>algorithms/nautilus/grammartec/mutator.cpp\<close>). A tester,
  a \<open>std::function\<close> in the source, is a parameter that transforms a state of any type; \<open>pad\<close> is the member
  \<open>_scratchpad\<close> of the mutator, which the operations overwrite.
\<close>

type_synonym 's FTester = "TreeMutation \<Rightarrow> nat set \<Rightarrow> Context \<Rightarrow> 's \<Rightarrow> (bool \<times> 's) result"
type_synonym 's FTesterMut = "TreeMutation \<Rightarrow> Context \<Rightarrow> 's \<Rightarrow> 's result"

section \<open>Operations\<close>

definition TestAndConvert ::
  "Tree \<Rightarrow> NodeID \<Rightarrow> Tree \<Rightarrow> NodeID \<Rightarrow> Context \<Rightarrow> nat set \<Rightarrow> 's FTester \<Rightarrow> 's \<Rightarrow> (Tree option \<times> 's) result" where
  "TestAndConvert tree_a n_a tree_b n_b ctx fresh_bits tester s =
     bindR (MutateReplaceFromTree tree_a n_a tree_b n_b) (\<lambda>repl.
     bindR (tester repl fresh_bits ctx s) (\<lambda>(ok, s').
       if ok then bindR (Mut_ToTree repl ctx) (\<lambda>T. Inr (Some T, s')) else Inr (None, s')))"

subsection \<open>MinimizeTree\<close>

definition minimize_tree_step ::
  "'s FTester \<Rightarrow> nat set \<Rightarrow> Context \<Rightarrow> Tree \<Rightarrow> Tree \<Rightarrow> NodeID \<Rightarrow> rng \<Rightarrow> 's \<Rightarrow> (Tree \<times> Tree \<times> rng \<times> 's) result" where
  "minimize_tree_step tester bits ctx tree pad n rs s =
     bindR (Tree_GetRule tree n ctx) (\<lambda>rule.
     bindR (SubTreeSize tree n) (\<lambda>size.
     bindR (GetMinLenForNT ctx (nonterm rule)) (\<lambda>mn.
       if mn < size then
         bindR (GenerateFromNT pad (nonterm rule) mn ctx rs) (\<lambda>(pad', rs').
         bindR (TestAndConvert tree n pad' 0 ctx bits tester s) (\<lambda>(t, s').
           Inr (case t of Some tree' \<Rightarrow> tree' | None \<Rightarrow> tree, pad', rs', s')))
       else Inr (tree, pad, rs, s))))"

partial_function (option) minimize_tree_loop ::
  "'s FTester \<Rightarrow> nat set \<Rightarrow> Context \<Rightarrow> nat \<Rightarrow> nat \<Rightarrow> Tree \<Rightarrow> Tree \<Rightarrow> rng \<Rightarrow> 's \<Rightarrow>
     (bool \<times> Tree \<times> Tree \<times> rng \<times> 's) result option" where
  "minimize_tree_loop tester bits ctx end_index i tree pad rs s =
     (if i < Tree_Size tree then
        (case minimize_tree_step tester bits ctx tree pad i rs s of
           Inl e \<Rightarrow> Some (Inl e)
         | Inr (tree', pad', rs', s') \<Rightarrow>
             if Suc i = end_index then Some (Inr (False, tree', pad', rs', s'))
             else minimize_tree_loop tester bits ctx end_index (Suc i) tree' pad' rs' s')
      else Some (Inr (True, tree, pad, rs, s)))"

declare minimize_tree_loop.simps [code]

definition MinimizeTree ::
  "Tree \<Rightarrow> nat set \<Rightarrow> Context \<Rightarrow> nat \<Rightarrow> nat \<Rightarrow> 's FTester \<Rightarrow> Tree \<Rightarrow> rng \<Rightarrow> 's \<Rightarrow>
     (bool \<times> Tree \<times> Tree \<times> rng \<times> 's) result option" where
  "MinimizeTree tree bits ctx start_index end_index tester pad rs s =
     minimize_tree_loop tester bits ctx end_index start_index tree pad rs s"

subsection \<open>MinimizeRec\<close>

partial_function (option) minimize_rec_loop ::
  "'s FTester \<Rightarrow> nat set \<Rightarrow> Context \<Rightarrow> nat \<Rightarrow> nat \<Rightarrow> Tree \<Rightarrow> 's \<Rightarrow> (bool \<times> Tree \<times> 's) result option" where
  "minimize_rec_loop tester bits ctx end_index i tree s =
     (if i < Tree_Size tree then
        (case FindParentWithNT tree i ctx of
           None \<Rightarrow> None
         | Some (Inl e) \<Rightarrow> Some (Inl e)
         | Some (Inr None) \<Rightarrow>
             if Suc i = end_index then Some (Inr (False, tree, s))
             else minimize_rec_loop tester bits ctx end_index (Suc i) tree s
         | Some (Inr (Some parent)) \<Rightarrow>
             (case TestAndConvert tree parent tree i ctx bits tester s of
                Inl e \<Rightarrow> Some (Inl e)
              | Inr (None, s') \<Rightarrow>
                  if Suc i = end_index then Some (Inr (False, tree, s'))
                  else minimize_rec_loop tester bits ctx end_index (Suc i) tree s'
              | Inr (Some tree', s') \<Rightarrow>
                  if Suc parent = end_index then Some (Inr (False, tree', s'))
                  else minimize_rec_loop tester bits ctx end_index (Suc parent) tree' s'))
      else Some (Inr (True, tree, s)))"

declare minimize_rec_loop.simps [code]

definition MinimizeRec ::
  "Tree \<Rightarrow> nat set \<Rightarrow> Context \<Rightarrow> nat \<Rightarrow> nat \<Rightarrow> 's FTester \<Rightarrow> 's \<Rightarrow> (bool \<times> Tree \<times> 's) result option" where
  "MinimizeRec tree bits ctx start_index end_index tester s =
     minimize_rec_loop tester bits ctx end_index start_index tree s"

subsection \<open>MutRules\<close>

fun mut_rules_inner ::
  "'s FTesterMut \<Rightarrow> Context \<Rightarrow> Tree \<Rightarrow> NodeID \<Rightarrow> RuleID \<Rightarrow> RuleID list \<Rightarrow> Tree \<Rightarrow> rng \<Rightarrow> 's \<Rightarrow> (Tree \<times> rng \<times> 's) result" where
  "mut_rules_inner tester ctx tree n old_rule_id [] pad rs s = Inr (pad, rs, s)"
| "mut_rules_inner tester ctx tree n old_rule_id (new_rule_id # ids) pad rs s =
     (if old_rule_id \<noteq> new_rule_id then
        bindR (GenerateFromRule pad new_rule_id (GetRandomLenForRuleID ctx new_rule_id) ctx rs) (\<lambda>(pad', rs').
        bindR (MutateReplaceFromTree tree n pad' 0) (\<lambda>repl.
        bindR (tester repl ctx s) (\<lambda>s'. mut_rules_inner tester ctx tree n old_rule_id ids pad' rs' s')))
      else mut_rules_inner tester ctx tree n old_rule_id ids pad rs s)"

fun mut_rules_loop ::
  "'s FTesterMut \<Rightarrow> Context \<Rightarrow> Tree \<Rightarrow> nat list \<Rightarrow> Tree \<Rightarrow> rng \<Rightarrow> 's \<Rightarrow> (bool \<times> Tree \<times> rng \<times> 's) result" where
  "mut_rules_loop tester ctx tree [] pad rs s = Inr (False, pad, rs, s)"
| "mut_rules_loop tester ctx tree (i # is) pad rs s =
     (if i = Tree_Size tree then Inr (True, pad, rs, s)
      else bindR (Tree_GetRuleID tree i) (\<lambda>old_rule_id.
           bindR (GetNT ctx (PlainID old_rule_id)) (\<lambda>nt.
           bindR (GetRulesForNT ctx nt) (\<lambda>rule_ids.
           bindR (mut_rules_inner tester ctx tree i old_rule_id rule_ids pad rs s) (\<lambda>(pad', rs', s').
             mut_rules_loop tester ctx tree is pad' rs' s')))))"

definition MutRules ::
  "Tree \<Rightarrow> Context \<Rightarrow> nat \<Rightarrow> nat \<Rightarrow> 's FTesterMut \<Rightarrow> Tree \<Rightarrow> rng \<Rightarrow> 's \<Rightarrow> (bool \<times> Tree \<times> rng \<times> 's) result" where
  "MutRules tree ctx start_index end_index tester pad rs s =
     mut_rules_loop tester ctx tree [start_index..<end_index] pad rs s"

subsection \<open>MutSplice and MutRandom\<close>

definition MutSplice :: "Tree \<Rightarrow> Context \<Rightarrow> ChunkStore \<Rightarrow> 's FTesterMut \<Rightarrow> rng \<Rightarrow> 's \<Rightarrow> (rng \<times> 's) result" where
  "MutSplice tree ctx cks tester rs s =
     (case Random 0 (Tree_Size tree - 1) rs of (n, rs1) \<Rightarrow>
      bindR (Tree_GetRuleID tree n) (\<lambda>old_rule_id.
      bindR (GetAlternativeTo cks old_rule_id ctx rs1) (\<lambda>(r, rs2).
        case r of
          None \<Rightarrow> Inr (rs2, s)
        | Some (repl_tree, repl_node) \<Rightarrow>
            bindR (MutateReplaceFromTree tree n repl_tree repl_node) (\<lambda>repl.
            bindR (tester repl ctx s) (\<lambda>s'. Inr (rs2, s'))))))"

definition MutRandom :: "Tree \<Rightarrow> Context \<Rightarrow> 's FTesterMut \<Rightarrow> Tree \<Rightarrow> rng \<Rightarrow> 's \<Rightarrow> (Tree \<times> rng \<times> 's) result" where
  "MutRandom tree ctx tester pad rs s =
     (case Random 0 (Tree_Size tree - 1) rs of (n, rs1) \<Rightarrow>
      bindR (Tree_GetRule tree n ctx) (\<lambda>rule.
      bindR (CheckIfNTermHasMultiplePossibilities ctx (nonterm rule)) (\<lambda>multiple.
        if multiple then
          bindR (GenerateFromNT pad (nonterm rule) (GetRandomLenForNT ctx (nonterm rule)) ctx rs1) (\<lambda>(pad', rs2).
          bindR (MutateReplaceFromTree tree n pad' 0) (\<lambda>repl.
          bindR (tester repl ctx s) (\<lambda>s'. Inr (pad', rs2, s'))))
        else Inr (pad, rs1, s))))"

subsection \<open>MutRandomRecursion\<close>

text \<open>
  The construction of the repeated tree. Differences of \<open>size_t\<close> are integers here: a negative one is the
  case that the three \<open>DEBUG_ASSERT\<close>s reject, and a division by zero is undefined.
\<close>

definition repeat_recursion :: "Tree \<Rightarrow> nat \<Rightarrow> NodeID \<Rightarrow> NodeID \<Rightarrow> Tree result" where
  "repeat_recursion tree mlen rec0 rec1 =
     bindR (SubTreeSize tree rec0) (\<lambda>size0.
     bindR (SubTreeSize tree rec1) (\<lambda>size1.
       if size0 = size1 then Inl Undefined
       else if rec1 < rec0 \<or> size0 < size1 \<or> size0 - size1 < rec1 - rec0 then Inl AssertFail
       else
         let pre = rec1 - rec0;
             len_total = size0 - size1;
             post = len_total - pre;
             num = mlen div len_total;
             postfix = size1
         in bindR (mapR (\<lambda>i. Tree_GetRuleOrCustom tree (rec0 + i mod pre)) [0..<num * pre]) (\<lambda>rules1.
            bindR (mapR (\<lambda>i. at_vec (tree_sizes tree) (rec0 + i mod pre)) [0..<num * pre]) (\<lambda>sizes1.
            bindR (mapR (\<lambda>i. Tree_GetRuleOrCustom tree (rec1 + i)) [0..<postfix]) (\<lambda>rules2.
            bindR (mapR (\<lambda>i. at_vec (tree_sizes tree) (rec1 + i)) [0..<postfix]) (\<lambda>sizes2.
            bindR (mapR (\<lambda>i. Tree_GetRuleOrCustom tree (rec1 + postfix + i mod post)) [0..<num * post]) (\<lambda>rules3.
            bindR (mapR (\<lambda>i. at_vec (tree_sizes tree) (rec1 + postfix + i mod post)) [0..<num * post]) (\<lambda>sizes3.
              let adjusted = map (\<lambda>i. if pre \<le> sizes1 ! i then sizes1 ! i + (num - i div pre - 1) * len_total
                                      else sizes1 ! i) [0..<num * pre]
              in Inr \<lparr>tree_rules = rules1 @ rules2 @ rules3, tree_sizes = adjusted @ sizes2 @ sizes3,
                      tree_paren = []\<rparr>))))))))"

definition MutRandomRecursion ::
  "Tree \<Rightarrow> RecursionInfo list \<Rightarrow> Context \<Rightarrow> 's FTesterMut \<Rightarrow> rng \<Rightarrow> 's \<Rightarrow> (rng \<times> 's) result" where
  "MutRandomRecursion tree recursions ctx tester rs s =
     (if length recursions = 0 then Inr (rs, s)
      else case Random 1 10 rs of (k, rs1) \<Rightarrow>
        let max_len_of_recursions = push_bit k 2 in
        bindR (Choose recursions rs1) (\<lambda>(recursion_info, rs2).
        bindR (GetRandomRecursionPair recursion_info rs2) (\<lambda>((rec0, rec1), rs3).
        bindR (repeat_recursion tree max_len_of_recursions rec0 rec1) (\<lambda>recursion_tree.
        bindR (MutateReplaceFromTree tree rec1 recursion_tree 0) (\<lambda>repl.
        bindR (tester repl ctx s) (\<lambda>s'. Inr (rs3, s')))))))"

end
