(* ===== verification/Nautilus_Mutator_Props.thy ===== *)
theory Nautilus_Mutator_Props
  imports Nautilus_Mutator
begin

text \<open>
  Correctness of the Nautilus mutator: every tree mutation that reaches a tester is a derivation of the
  grammar, no operation fails on a tree of the grammar, and minimisation ends, never grows the tree and
  keeps what the tester checks. What is required of a tester is stated in the locales \<open>mut_tester\<close> and
  \<open>min_tester\<close>.
\<close>

section \<open>Mutations that are derivations\<close>

definition mut_rules :: "TreeMutation \<Rightarrow> RuleIDOrCustom list" where
  "mut_rules M = mut_prefix M @ mut_repl M @ mut_postfix M"

definition valid_mut :: "Context \<Rightarrow> NTermID \<Rightarrow> TreeMutation \<Rightarrow> bool" where
  "valid_mut ctx m M \<longleftrightarrow> (\<exists>t. derives (rules ctx) m t \<and> mut_rules M = preorder t)"

text \<open>A length limit that admits every rule.\<close>

definition roomy :: "Context \<Rightarrow> bool" where
  "roomy ctx \<longleftrightarrow> (\<forall>r < length (rules ctx). rule_min ctx r \<le> max_len ctx)"

lemma Tree_Size_flat [simp]: "Tree_Size (flat t) = dsize t"
  by (simp add: Tree_Size_def dsize_def)

lemma Tree_GetRuleID_flat [simp]: "n < dsize t \<Longrightarrow> Tree_GetRuleID (flat t) n = Inr (ID (label (subtrees t ! n)))"
  by (simp add: Tree_GetRuleID_def preorder_subtrees length_subtrees)

lemma sub_rule_known:
  fixes ctx :: Context
  assumes "derives (rules ctx) m t" and "n < dsize t"
  shows "ID (label (subtrees t ! n)) < length (rules ctx)"
    and "derives (rules ctx) (nt_of ctx (subtrees t ! n)) (subtrees t ! n)"
  using derives_subtrees(1) [OF assms(1)] assms(2) derives_rule_known(1) [OF assms(1)]
  by (simp_all add: length_subtrees preorder_subtrees)

lemma replace_flat:
  assumes "derives (rules ctx) m t" and "n < dsize t" and "k < dsize u"
    and "derives (rules ctx) (nt_of ctx (subtrees t ! n)) (subtrees u ! k)"
  obtains M where "MutateReplaceFromTree (flat t) n (flat u) k = Inr M"
    and "mut_rules M = preorder (repl n (subtrees u ! k) t)" and "valid_mut ctx m M"
    and "Mut_ToTree M ctx = Inr (flat (repl n (subtrees u ! k) t))"
proof -
  let ?M = "\<lparr>mut_prefix = take n (preorder t), mut_repl = preorder (subtrees u ! k),
         mut_postfix = drop (n + dsize (subtrees t ! n)) (preorder t)\<rparr>"
  have "mut_rules ?M = preorder (repl n (subtrees u ! k) t)"
    using preorder_repl(1) [OF assms(2)] by (simp add: mut_rules_def)
  then show thesis
    using that [of ?M] MutateReplaceFromTree_flat [OF assms(2,3)] Mut_ToTree_flat [OF assms(1,2,4)]
      derives_repl(1) [OF assms(1,2,4)] by (auto simp: valid_mut_def)
qed

lemma dsize_repl:
  assumes "n < dsize t"
  shows "dsize (repl n s t) + dsize (subtrees t ! n) = dsize t + dsize s"
  using preorder_repl(1) [OF assms, of s] preorder_sub(1) [OF assms] assms by (simp add: dsize_def)

section \<open>Repeating a recursion\<close>

text \<open>The tree that repeats \<open>j\<close> times what lies between the root of \<open>s0\<close> and its node \<open>k\<close>.\<close>

fun unroll :: "dtree \<Rightarrow> nat \<Rightarrow> nat \<Rightarrow> dtree" where
  "unroll s0 k 0 = subtrees s0 ! k"
| "unroll s0 k (Suc j) = repl k (unroll s0 k j) s0"

lemma preorder_unroll:
  assumes "k < dsize s0"
  shows "preorder (unroll s0 k j) = concat (replicate j (take k (preorder s0))) @ preorder (subtrees s0 ! k) @
    concat (replicate j (drop (k + dsize (subtrees s0 ! k)) (preorder s0)))"
proof (induction j)
  case (Suc j)
  have "concat (replicate j B) @ B = concat (replicate (Suc j) B)" for B :: "'a list"
    by (induction j) simp_all
  then show ?case
    using Suc preorder_repl(1) [OF assms] by simp
qed simp

lemma dsize_unroll:
  assumes "k < dsize s0"
  shows "dsize (unroll s0 k j) = dsize (subtrees s0 ! k) + j * (dsize s0 - dsize (subtrees s0 ! k))"
proof (induction j)
  case (Suc j)
  have "dsize (subtrees s0 ! k) \<le> dsize s0"
    using preorder_sub(1) [OF assms] by simp
  then show ?case
    using Suc dsize_repl [OF assms, of "unroll s0 k j"] by simp
qed simp

lemma derives_unroll:
  fixes ctx :: Context
  assumes "derives (rules ctx) nt s0" and "k < dsize s0" and "nt_of ctx (subtrees s0 ! k) = nt"
  shows "derives (rules ctx) nt (unroll s0 k j)"
proof (induction j)
  case 0
  then show ?case using sub_rule_known(2) [OF assms(1,2)] assms(3) by simp
next
  case (Suc j)
  then show ?case using derives_repl(1) [OF assms(1,2)] assms(3) by simp
qed

lemma map_cycle: "length A = k \<Longrightarrow> map (\<lambda>i. A ! (i mod k)) [0..<num * k] = concat (replicate num A)"
proof (induction num)
  case (Suc num)
  have up: "[0..<Suc num * k] = [0..<k] @ map (\<lambda>i. i + k) [0..<num * k]"
    by (simp add: map_add_upt upt_add_eq_append [of 0 k "num * k", simplified] add.commute)
  have "map (\<lambda>i. A ! (i mod k)) [0..<k] = A"
    using Suc.prems by (intro nth_equalityI) auto
  moreover have "map (\<lambda>i. A ! (i mod k)) (map (\<lambda>i. i + k) [0..<num * k]) = map (\<lambda>i. A ! (i mod k)) [0..<num * k]"
    by (simp add: comp_def)
  ultimately show ?case
    unfolding up map_append using Suc by simp
qed simp

lemma rec_pair_geometry:
  assumes "rec_pair ctx t p n"
  defines "s0 \<equiv> subtrees t ! p" and "s1 \<equiv> subtrees t ! n" and "k \<equiv> n - p"
  shows "0 < k" and "k < dsize s0" and "n = p + k" and "s1 = subtrees s0 ! k" and "p + dsize s0 \<le> dsize t"
    and "k + dsize s1 \<le> dsize s0"
proof -
  have p: "p < n" "n < p + dsize s0" "p < dsize t"
    using assms(1) by (auto simp: rec_pair_def s0_def)
  then show k: "0 < k" "k < dsize s0" "n = p + k" by (auto simp: k_def)
  show s1: "s1 = subtrees s0 ! k"
    using subtrees_sub(1) [OF p(3), of k] k by (simp add: s0_def s1_def)
  show "p + dsize s0 \<le> dsize t"
    using preorder_sub(1) [OF p(3)] by (simp add: s0_def)
  show "k + dsize s1 \<le> dsize s0"
    using preorder_sub(1) [OF k(2)] by (simp add: s1)
qed

lemma preorder_nth_sub:
  "p < dsize t \<Longrightarrow> i < dsize (subtrees t ! p) \<Longrightarrow> preorder t ! (p + i) = preorder (subtrees t ! p) ! i"
  using preorder_sub(1) [of p t] by (metis dsize_def le_add1 nth_drop nth_take order_trans)

text \<open>The three loops of the construction read the part before the inner node, its subtree, and the part after it.\<close>

lemma repeat_parts:
  assumes pr: "rec_pair ctx t p n"
  defines "s0 \<equiv> subtrees t ! p" and "s1 \<equiv> subtrees t ! n" and "k \<equiv> n - p"
  shows "mapR (\<lambda>i. Tree_GetRuleOrCustom (flat t) (p + i mod k)) [0..<num * k] =
      Inr (concat (replicate num (take k (preorder s0))))"
    and "mapR (\<lambda>i. Tree_GetRuleOrCustom (flat t) (n + i)) [0..<dsize s1] = Inr (preorder s1)"
    and "mapR (\<lambda>i. Tree_GetRuleOrCustom (flat t) (n + dsize s1 + i mod (dsize s0 - dsize s1 - k))) [0..<num * (dsize s0 - dsize s1 - k)] =
      Inr (concat (replicate num (drop (k + dsize s1) (preorder s0))))"
proof -
  note g = rec_pair_geometry [OF pr, folded s0_def s1_def k_def]
  have pt: "p < dsize t" "n < dsize t" using pr by (auto simp: rec_pair_def)
  define post where "post = dsize s0 - dsize s1 - k"
  define A B where "A = take k (preorder s0)" and "B = drop (k + dsize s1) (preorder s0)"
  have lAB: "length A = k" "length B = post"
    using g by (simp_all add: A_def B_def post_def dsize_def)
  have get: "Tree_GetRuleOrCustom (flat t) j = Inr (preorder t ! j)" if "j < dsize t" for j
    using that by (simp add: Tree_GetRuleOrCustom_def dsize_def)
  have nth0: "preorder t ! (p + i) = preorder s0 ! i" if "i < dsize s0" for i
    using preorder_nth_sub [OF pt(1)] that by (simp add: s0_def)
  have "Tree_GetRuleOrCustom (flat t) (p + i mod k) = Inr (A ! (i mod k))" for i
    using nth0 [of "i mod k"] get [of "p + i mod k"] mod_less_divisor [OF g(1), of i] g by (simp add: A_def)
  then show "mapR (\<lambda>i. Tree_GetRuleOrCustom (flat t) (p + i mod k)) [0..<num * k] = Inr (concat (replicate num A))"
    using mapR_Inr [of "[0..<num * k]" _ "\<lambda>i. A ! (i mod k)"] map_cycle [OF lAB(1)] by simp
  have "Tree_GetRuleOrCustom (flat t) (n + i) = Inr (preorder s1 ! i)" if "i < dsize s1" for i
    using get [of "n + i"] preorder_nth_sub [OF pt(2), of i] that g by (simp add: s1_def)
  moreover have "map ((!) (preorder s1)) [0..<dsize s1] = preorder s1"
    by (simp add: dsize_def map_nth)
  ultimately show "mapR (\<lambda>i. Tree_GetRuleOrCustom (flat t) (n + i)) [0..<dsize s1] = Inr (preorder s1)"
    using mapR_Inr [of "[0..<dsize s1]" _ "(!) (preorder s1)"] by simp
  have "Tree_GetRuleOrCustom (flat t) (n + dsize s1 + i mod post) = Inr (B ! (i mod post))" if "i < num * post" for i
  proof -
    have "0 < post" using that by (cases post) auto
    then have "k + dsize s1 + i mod post < dsize s0"
      using mod_less_divisor [of post i] unfolding post_def by linarith
    then show ?thesis
      using nth0 [of "k + dsize s1 + i mod post"] get [of "n + dsize s1 + i mod post"] g
      by (simp add: B_def dsize_def add.assoc)
  qed
  then show "mapR (\<lambda>i. Tree_GetRuleOrCustom (flat t) (n + dsize s1 + i mod (dsize s0 - dsize s1 - k))) [0..<num * (dsize s0 - dsize s1 - k)] =
      Inr (concat (replicate num B))"
    using mapR_Inr [of "[0..<num * post]" _ "\<lambda>i. B ! (i mod post)"] map_cycle [OF lAB(2)]
    unfolding post_def [symmetric] by simp
qed

lemma repeat_sizes:
  assumes pr: "rec_pair ctx t p n"
  defines "s0 \<equiv> subtrees t ! p" and "s1 \<equiv> subtrees t ! n" and "k \<equiv> n - p"
  shows "mapR (\<lambda>i. at_vec (tree_sizes (flat t)) (p + i mod k)) [0..<num * k] =
      Inr (map (\<lambda>i. dsize (subtrees t ! (p + i mod k))) [0..<num * k])"
    and "mapR (\<lambda>i. at_vec (tree_sizes (flat t)) (n + i)) [0..<dsize s1] = Inr (map (\<lambda>i. dsize (subtrees t ! (n + i))) [0..<dsize s1])"
    and "\<exists>zs. mapR (\<lambda>i. at_vec (tree_sizes (flat t)) (n + dsize s1 + i mod (dsize s0 - dsize s1 - k)))
        [0..<num * (dsize s0 - dsize s1 - k)] = Inr zs"
proof -
  note g = rec_pair_geometry [OF pr, folded s0_def s1_def k_def]
  have siz: "at_vec (tree_sizes (flat t)) j = Inr (dsize (subtrees t ! j))" if "j < dsize t" for j
    using that by (simp add: length_subtrees)
  have "p + i mod k < dsize t" for i
    using g mod_less_divisor [OF g(1), of i] by linarith
  then show "mapR (\<lambda>i. at_vec (tree_sizes (flat t)) (p + i mod k)) [0..<num * k] =
      Inr (map (\<lambda>i. dsize (subtrees t ! (p + i mod k))) [0..<num * k])"
    by (intro mapR_Inr siz)
  show "mapR (\<lambda>i. at_vec (tree_sizes (flat t)) (n + i)) [0..<dsize s1] = Inr (map (\<lambda>i. dsize (subtrees t ! (n + i))) [0..<dsize s1])"
    using g by (intro mapR_Inr siz) simp
  define post where "post = dsize s0 - dsize s1 - k"
  have "n + dsize s1 + i mod post < dsize t" if "i < num * post" for i
  proof -
    have "0 < post" using that by (cases post) auto
    then show ?thesis using g mod_less_divisor [of post i] unfolding post_def by linarith
  qed
  then show "\<exists>zs. mapR (\<lambda>i. at_vec (tree_sizes (flat t)) (n + dsize s1 + i mod (dsize s0 - dsize s1 - k)))
        [0..<num * (dsize s0 - dsize s1 - k)] = Inr zs"
    unfolding post_def [symmetric]
    by (intro exI [of _ "map (\<lambda>i. dsize (subtrees t ! (n + dsize s1 + i mod post))) [0..<num * post]"] mapR_Inr siz) simp
qed

lemma repeat_recursion_flat:
  assumes pr: "rec_pair ctx t p n"
    and s0: "s0 = subtrees t ! p" and s1: "s1 = subtrees t ! n" and num: "num = mlen div (dsize s0 - dsize s1)"
  shows "\<exists>R. repeat_recursion (flat t) mlen p n = Inr R \<and> tree_rules R = preorder (unroll s0 (n - p) num) \<and>
    SubTreeSize R 0 = Inr (dsize (unroll s0 (n - p) num))"
proof -
  define k where "k = n - p"
  note g = rec_pair_geometry [OF pr, folded s0 s1 k_def]
  note parts = repeat_parts [OF pr, folded s0 s1 k_def] and sizes = repeat_sizes [OF pr, folded s0 s1 k_def]
  obtain zs where zs: "mapR (\<lambda>i. at_vec (tree_sizes (flat t)) (n + dsize s1 + i mod (dsize s0 - dsize s1 - k)))
        [0..<num * (dsize s0 - dsize s1 - k)] = Inr zs"
    using sizes(3) by blast
  have st: "SubTreeSize (flat t) p = Inr (dsize s0)" "SubTreeSize (flat t) n = Inr (dsize s1)"
    using pr by (simp_all add: s0 s1 rec_pair_def)
  define zs1 where "zs1 = map (\<lambda>i. dsize (subtrees t ! (p + i mod k))) [0..<num * k]"
  define adj where "adj = map (\<lambda>i. if k \<le> zs1 ! i then zs1 ! i + (num - i div k - 1) * (dsize s0 - dsize s1)
      else zs1 ! i) [0..<num * k]"
  define R where "R = \<lparr>tree_rules = preorder (unroll s0 k num),
      tree_sizes = adj @ map (\<lambda>i. dsize (subtrees t ! (n + i))) [0..<dsize s1] @ zs, tree_paren = []\<rparr>"
  have "repeat_recursion (flat t) mlen p n = Inr R"
    unfolding repeat_recursion_def st bindR_Inr Let_def k_def [symmetric] num [symmetric] parts sizes zs zs1_def [symmetric]
    using g preorder_unroll [OF g(2), of num] by (simp add: R_def adj_def)
  moreover have "SubTreeSize R 0 = Inr (dsize (unroll s0 k num))"
  proof (cases num)
    case 0
    then show ?thesis
      using dsize_unroll [OF g(2), of 0] by (simp add: SubTreeSize_def R_def adj_def nth_append g(4) [symmetric] s1 [symmetric])
  next
    case (Suc j)
    then have "adj ! 0 = dsize s0 + (num - 1) * (dsize s0 - dsize s1)" "0 < length adj"
      using g by (simp_all add: adj_def zs1_def flip: s0)
    then show ?thesis
      using dsize_unroll [OF g(2), of num] g Suc by (simp add: SubTreeSize_def R_def nth_append)
  qed
  ultimately show ?thesis by (auto simp: k_def R_def)
qed

text \<open>The mutation of \<open>MutRandomRecursion\<close>: the inner node is replaced by the repeated recursion.\<close>

lemma repeat_recursion_replace:
  fixes ctx :: Context
  assumes t: "derives (rules ctx) m t" and pr: "rec_pair ctx t p n"
  shows "\<exists>R M. repeat_recursion (flat t) mlen p n = Inr R \<and> MutateReplaceFromTree (flat t) n R 0 = Inr M \<and> valid_mut ctx m M"
proof -
  define s0 where "s0 = subtrees t ! p"
  define s1 where "s1 = subtrees t ! n"
  define num where "num = mlen div (dsize s0 - dsize s1)"
  define u where "u = unroll s0 (n - p) num"
  note g = rec_pair_geometry [OF pr, folded s0_def s1_def]
  have n: "n < dsize t" "p < dsize t" "nt_of ctx s0 = nt_of ctx s1"
    using pr by (auto simp: rec_pair_def s0_def s1_def)
  have "derives (rules ctx) (nt_of ctx s1) s0"
    using sub_rule_known(2) [OF t n(2)] n(3) by (simp add: s0_def)
  then have u: "derives (rules ctx) (nt_of ctx (subtrees t ! n)) u"
    using derives_unroll [OF _ g(2)] g(4) by (simp add: u_def s1_def)
  obtain R where R: "repeat_recursion (flat t) mlen p n = Inr R" "tree_rules R = preorder u" "SubTreeSize R 0 = Inr (dsize u)"
    using repeat_recursion_flat [OF pr s0_def s1_def num_def] by (auto simp: u_def)
  obtain M where M: "MutateReplaceFromTree (flat t) n (flat u) 0 = Inr M" "valid_mut ctx m M"
    using replace_flat [OF t n(1), of 0 u] u by auto
  have "MutateReplaceFromTree (flat t) n R 0 = MutateReplaceFromTree (flat t) n (flat u) 0"
    using R(2,3) n(1) by (simp add: MutateReplaceFromTree_def Slice_def)
  then show ?thesis
    using R(1) M by auto
qed

section \<open>The contract of a mutation tester\<close>

locale mut_tester =
  fixes tester :: "'s FTesterMut" and ok :: "Context \<Rightarrow> NTermID \<Rightarrow> 's \<Rightarrow> bool"
  assumes tester_ok: "ok ctx m s \<Longrightarrow> valid_mut ctx m M \<Longrightarrow> \<exists>s'. tester M ctx s = Inr s' \<and> ok ctx m s'"
begin

lemma mut_rules_inner_ok:
  assumes rd: "ready ctx" and ro: "roomy ctx" and t: "derives (rules ctx) m t" and n: "n < dsize t"
  shows "\<forall>r \<in> set ids. r < length (rules ctx) \<and> nonterm (rules ctx ! r) = nt_of ctx (subtrees t ! n) \<Longrightarrow> ok ctx m s \<Longrightarrow>
    \<exists>pad' rs' s'. mut_rules_inner tester ctx (flat t) n old ids pad rs s = Inr (pad', rs', s') \<and> ok ctx m s'"
proof (induction ids arbitrary: pad rs s)
  case (Cons r ids)
  show ?case
  proof (cases "old = r")
    case True
    then show ?thesis using Cons by simp
  next
    case False
    have r: "r < length (rules ctx)" "rule_min ctx r \<le> Suc (max_len ctx)"
      using Cons.prems(1) ro by (auto simp: roomy_def le_SucI)
    obtain u rs1 where u: "GenerateFromRule pad r (max_len ctx) ctx rs = Inr (flat u, rs1)"
      "derives (rules ctx) (nonterm (rules ctx ! r)) u"
      using GenerateFromRule_ok [OF rd r] by blast
    have "derives (rules ctx) (nt_of ctx (subtrees t ! n)) (subtrees u ! 0)"
      using u(2) Cons.prems(1) by simp
    then obtain M where M: "MutateReplaceFromTree (flat t) n (flat u) 0 = Inr M" "valid_mut ctx m M"
      using replace_flat [OF t n, of 0 u] by auto
    obtain s1 where s1: "tester M ctx s = Inr s1" "ok ctx m s1"
      using tester_ok [OF Cons.prems(2) M(2)] by blast
    show ?thesis
      using Cons.IH [OF _ s1(2), of "flat u" rs1] Cons.prems(1) False u(1) M(1) s1(1)
      by (simp add: GetRandomLenForRuleID_def)
  qed
qed simp

lemma mut_rules_loop_ok:
  assumes rd: "ready ctx" and ro: "roomy ctx" and t: "derives (rules ctx) m t"
  shows "\<forall>i \<in> set is. i \<le> dsize t \<Longrightarrow> ok ctx m s \<Longrightarrow>
    \<exists>pad' rs' s'. mut_rules_loop tester ctx (flat t) is pad rs s = Inr (dsize t \<in> set is, pad', rs', s') \<and> ok ctx m s'"
proof (induction "is" arbitrary: pad rs s)
  case (Cons i "is")
  show ?case
  proof (cases "i = dsize t")
    case True
    then show ?thesis using Cons by simp
  next
    case False
    then have i: "i < dsize t" using Cons.prems(1) by simp
    let ?r = "ID (label (subtrees t ! i))"
    have r: "?r < length (rules ctx)" by (rule sub_rule_known(1) [OF t i])
    obtain ids where ids: "nts_to_rules ctx (nt_of ctx (subtrees t ! i)) = Some ids"
      "set ids = {r. r < length (rules ctx) \<and> nonterm (rules ctx ! r) = nt_of ctx (subtrees t ! i)}"
      using rd r unfolding ready_def nt_of_def by blast
    then obtain pad1 rs1 s1 where 1: "mut_rules_inner tester ctx (flat t) i ?r ids pad rs s = Inr (pad1, rs1, s1)" "ok ctx m s1"
      using mut_rules_inner_ok [OF rd ro t i _ Cons.prems(2)] by blast
    show ?thesis
      using Cons.IH [OF _ 1(2), of pad1 rs1] Cons.prems(1) False i r ids(1) 1(1)
      by (simp add: GetNT_def GetRule_def GetRulesForNT_def nt_of_def)
  qed
qed simp

lemma MutRules_ok:
  assumes "ready ctx" and "roomy ctx" and "derives (rules ctx) m t" and "end_index \<le> Suc (dsize t)" and "ok ctx m s"
  shows "\<exists>pad' rs' s'. MutRules (flat t) ctx start_index end_index tester pad rs s =
      Inr (start_index \<le> dsize t \<and> dsize t < end_index, pad', rs', s') \<and> ok ctx m s'"
proof -
  have "\<forall>i \<in> set [start_index..<end_index]. i \<le> dsize t" using assms(4) by auto
  from mut_rules_loop_ok [OF assms(1-3) this assms(5), of pad rs] show ?thesis
    by (simp add: MutRules_def)
qed

lemma MutSplice_ok:
  assumes "ready ctx" and t: "derives (rules ctx) m t" and cs: "store_wf ctx cks" and "ok ctx m s"
  shows "\<exists>rs' s'. MutSplice (flat t) ctx cks tester rs s = Inr (rs', s') \<and> ok ctx m s'"
proof -
  obtain n rs1 where n: "Random 0 (dsize t - 1) rs = (n, rs1)" by fastforce
  then have nt: "n < dsize t"
    using Random_index [of "dsize t" rs] by simp
  let ?r = "ID (label (subtrees t ! n))"
  have r: "?r < length (rules ctx)" by (rule sub_rule_known(1) [OF t nt])
  obtain alt rs2 where alt: "GetAlternativeTo cks ?r ctx rs1 = Inr (alt, rs2)"
    "\<forall>T k. alt = Some (T, k) \<longrightarrow> (\<exists>q u. derives (rules ctx) q u \<and> T = flat u \<and> k < dsize u \<and>
       nt_of ctx (subtrees u ! k) = nonterm (rules ctx ! ?r) \<and> ID (label (subtrees u ! k)) \<noteq> ?r)"
    using GetAlternativeTo_ok [OF cs r] by blast
  show ?thesis
  proof (cases alt)
    case None
    then show ?thesis using alt(1) n nt assms(4) by (simp add: MutSplice_def)
  next
    case (Some a)
    then obtain T k where a: "a = (T, k)" by (cases a)
    then obtain q u where u: "derives (rules ctx) q u" "T = flat u" "k < dsize u"
      "nt_of ctx (subtrees u ! k) = nt_of ctx (subtrees t ! n)"
      using alt(2) Some by (auto simp: nt_of_def)
    have "derives (rules ctx) (nt_of ctx (subtrees t ! n)) (subtrees u ! k)"
      using sub_rule_known(2) [OF u(1,3)] u(4) by simp
    then obtain M where M: "MutateReplaceFromTree (flat t) n (flat u) k = Inr M" "valid_mut ctx m M"
      using replace_flat [OF t nt u(3)] by auto
    then show ?thesis
      using tester_ok [OF assms(4) M(2)] alt(1) n nt Some a u(2) by (auto simp: MutSplice_def)
  qed
qed

lemma MutRandom_ok:
  assumes rd: "ready ctx" and ro: "roomy ctx" and t: "derives (rules ctx) m t" and "ok ctx m s"
  shows "\<exists>pad' rs' s'. MutRandom (flat t) ctx tester pad rs s = Inr (pad', rs', s') \<and> ok ctx m s'"
proof -
  obtain n rs1 where n: "Random 0 (dsize t - 1) rs = (n, rs1)" by fastforce
  then have nt: "n < dsize t"
    using Random_index [of "dsize t" rs] by simp
  let ?r = "ID (label (subtrees t ! n))" and ?nt = "nt_of ctx (subtrees t ! n)"
  have r: "?r < length (rules ctx)" by (rule sub_rule_known(1) [OF t nt])
  obtain ids where ids: "nts_to_rules ctx ?nt = Some ids"
    using rd r unfolding ready_def nt_of_def by blast
  obtain v where v: "nts_to_min_size ctx ?nt = Some v"
    using ready_min_known [OF rd r, of ?nt] by (auto simp: nt_of_def)
  have "v \<le> rule_min ctx ?r"
    by (rule ready_min_rule(2) [OF rd v r]) (simp add: nt_of_def)
  then have "v \<le> max_len ctx"
    using ro r by (auto simp: roomy_def intro: order_trans)
  then obtain u rs2 where u: "GenerateFromNT pad ?nt (max_len ctx) ctx rs1 = Inr (flat u, rs2)" "derives (rules ctx) ?nt u"
    using GenerateFromNT_ok [OF rd v] by blast
  obtain M where M: "MutateReplaceFromTree (flat t) n (flat u) 0 = Inr M" "valid_mut ctx m M"
    using replace_flat [OF t nt, of 0 u] u(2) by auto
  show ?thesis
    using tester_ok [OF assms(4) M(2)] n nt Tree_GetRule_flat [OF t nt] ids u(1) M(1) assms(4)
    by (auto simp: MutRandom_def CheckIfNTermHasMultiplePossibilities_def GetRulesForNT_def GetRandomLenForNT_def nt_of_def)
qed

lemma MutRandomRecursion_ok:
  assumes t: "derives (rules ctx) m t" and Rs: "recursions_ok ctx t Rs" and "ok ctx m s"
  shows "\<exists>rs' s'. MutRandomRecursion (flat t) Rs ctx tester rs s = Inr (rs', s') \<and> ok ctx m s'"
proof (cases "Rs = []")
  case True
  then show ?thesis using assms(3) by (simp add: MutRandomRecursion_def)
next
  case False
  obtain k rs1 where k: "Random 1 10 rs = (k, rs1)" by fastforce
  obtain R rs2 where R: "Choose Rs rs1 = Inr (R, rs2)" "R \<in> set Rs"
    using Choose_ok [OF False] by blast
  obtain p n rs3 where pn: "GetRandomRecursionPair R rs2 = Inr ((p, n), rs3)" "rec_pair ctx t p n"
    using Rs R(2) by (fastforce simp: recursions_ok_def)
  obtain U M where U: "repeat_recursion (flat t) (push_bit k 2) p n = Inr U"
    "MutateReplaceFromTree (flat t) n U 0 = Inr M" "valid_mut ctx m M"
    using repeat_recursion_replace [OF t pn(2)] by blast
  obtain s' where "tester M ctx s = Inr s'" "ok ctx m s'"
    using tester_ok [OF assms(3) U(3)] by blast
  then show ?thesis
    using False k R(1) pn(1) U(1,2) by (simp add: MutRandomRecursion_def)
qed

end

section \<open>The contract of a minimisation tester\<close>

locale min_tester =
  fixes tester :: "'s FTester" and ok :: "Context \<Rightarrow> NTermID \<Rightarrow> nat set \<Rightarrow> 's \<Rightarrow> bool"
    and good :: "Context \<Rightarrow> nat set \<Rightarrow> RuleIDOrCustom list \<Rightarrow> bool"
  assumes tester_ok: "ok ctx m bits s \<Longrightarrow> valid_mut ctx m M \<Longrightarrow>
    \<exists>b s'. tester M bits ctx s = Inr (b, s') \<and> ok ctx m bits s' \<and> (b \<longrightarrow> good ctx bits (mut_rules M))"
begin

lemma TestAndConvert_ok:
  assumes t: "derives (rules ctx) m t" and n: "n < dsize t" and k: "k < dsize u"
    and d: "derives (rules ctx) (nt_of ctx (subtrees t ! n)) (subtrees u ! k)" and "ok ctx m bits s"
  shows "\<exists>r s'. TestAndConvert (flat t) n (flat u) k ctx bits tester s = Inr (r, s') \<and> ok ctx m bits s' \<and>
    (r = None \<or> r = Some (flat (repl n (subtrees u ! k) t)) \<and> good ctx bits (preorder (repl n (subtrees u ! k) t)))"
proof -
  obtain M where M: "MutateReplaceFromTree (flat t) n (flat u) k = Inr M"
    "mut_rules M = preorder (repl n (subtrees u ! k) t)" "valid_mut ctx m M"
    "Mut_ToTree M ctx = Inr (flat (repl n (subtrees u ! k) t))"
    using replace_flat [OF t n k d] by blast
  obtain b s' where "tester M bits ctx s = Inr (b, s')" "ok ctx m bits s'" "b \<longrightarrow> good ctx bits (mut_rules M)"
    using tester_ok [OF assms(5) M(3)] by blast
  then show ?thesis
    using M by (cases b) (auto simp: TestAndConvert_def)
qed

lemma minimize_tree_step_ok:
  assumes rd: "ready ctx" and t: "derives (rules ctx) m t" and n: "n < dsize t" and "ok ctx m bits s" and g: "good ctx bits (preorder t)"
  shows "\<exists>t' pad' rs' s'. minimize_tree_step tester bits ctx (flat t) pad n rs s = Inr (flat t', pad', rs', s') \<and>
    ok ctx m bits s' \<and> derives (rules ctx) m t' \<and> dsize t' \<le> dsize t \<and> good ctx bits (preorder t')"
proof -
  let ?s = "subtrees t ! n" and ?nt = "nt_of ctx (subtrees t ! n)"
  obtain v where v: "nts_to_min_size ctx ?nt = Some v"
    using ready_min_known [OF rd sub_rule_known(1) [OF t n], of ?nt] by (auto simp: nt_of_def)
  show ?thesis
  proof (cases "v < dsize ?s")
    case False
    then show ?thesis
      using assms Tree_GetRule_flat [OF t n] v by (auto simp: minimize_tree_step_def GetMinLenForNT_def nt_of_def)
  next
    case True
    obtain u rs1 where u: "GenerateFromNT pad ?nt v ctx rs = Inr (flat u, rs1)" "dsize u \<le> v" "derives (rules ctx) ?nt u"
      using GenerateFromNT_ok [OF rd v order_refl] by blast
    obtain r s1 where r: "TestAndConvert (flat t) n (flat u) 0 ctx bits tester s = Inr (r, s1)" "ok ctx m bits s1"
      "r = None \<or> r = Some (flat (repl n u t)) \<and> good ctx bits (preorder (repl n u t))"
      using TestAndConvert_ok [OF t n, of 0 u bits s] u(3) assms(4) by auto
    have "dsize (repl n u t) \<le> dsize t"
      using dsize_repl [OF n, of u] u(2) True by simp
    then show ?thesis
      using r(3) r(1,2) u(1,3) v True n Tree_GetRule_flat [OF t n] t g derives_repl(1) [OF t n u(3)]
      by (auto simp: minimize_tree_step_def GetMinLenForNT_def nt_of_def)
  qed
qed

lemma minimize_tree_loop_ok:
  assumes rd: "ready ctx"
  shows "derives (rules ctx) m t \<Longrightarrow> ok ctx m bits s \<Longrightarrow> good ctx bits (preorder t) \<Longrightarrow>
    \<exists>b t' pad' rs' s'. minimize_tree_loop tester bits ctx end_index i (flat t) pad rs s = Some (Inr (b, flat t', pad', rs', s')) \<and>
      ok ctx m bits s' \<and> derives (rules ctx) m t' \<and> dsize t' \<le> dsize t \<and> good ctx bits (preorder t')"
proof (induction "dsize t - i" arbitrary: i t pad rs s rule: less_induct)
  case less
  show ?case
  proof (cases "i < dsize t")
    case False
    then show ?thesis
      using less.prems by (subst minimize_tree_loop.simps) auto
  next
    case True
    obtain t1 pad1 rs1 s1 where 1: "minimize_tree_step tester bits ctx (flat t) pad i rs s = Inr (flat t1, pad1, rs1, s1)"
      "ok ctx m bits s1" "derives (rules ctx) m t1" "dsize t1 \<le> dsize t" "good ctx bits (preorder t1)"
      using minimize_tree_step_ok [OF rd less.prems(1) True less.prems(2,3)] by blast
    have "dsize t1 - Suc i < dsize t - i" using 1(4) True by linarith
    from less.hyps [OF this 1(3,2,5), of pad1 rs1] obtain b t2 pad2 rs2 s2 where
      2: "minimize_tree_loop tester bits ctx end_index (Suc i) (flat t1) pad1 rs1 s1 = Some (Inr (b, flat t2, pad2, rs2, s2))"
      "ok ctx m bits s2" "derives (rules ctx) m t2" "dsize t2 \<le> dsize t" "good ctx bits (preorder t2)"
      using 1(4) by (meson order_trans)
    show ?thesis
    proof (cases "Suc i = end_index")
      case e: True
      show ?thesis using 1 True e by (subst minimize_tree_loop.simps) auto
    next
      case False
      then have "minimize_tree_loop tester bits ctx end_index i (flat t) pad rs s = Some (Inr (b, flat t2, pad2, rs2, s2))"
        using 1(1) True 2(1) by (subst minimize_tree_loop.simps) simp
      then show ?thesis using 2(2-5) by blast
    qed
  qed
qed

lemma rec_pair_shrinks:
  assumes "rec_pair ctx t p n"
  shows "dsize (repl p (subtrees t ! n) t) < dsize t"
proof -
  have p: "p < dsize t" using assms by (auto simp: rec_pair_def)
  then show ?thesis
    using rec_pair_geometry [OF assms] dsize_repl [OF p, of "subtrees t ! n"] by linarith
qed

lemma FindParentWithNT_pair:
  assumes "derives (rules ctx) m t" and "n < dsize t"
  obtains r where "FindParentWithNT (flat t) n ctx = Some (Inr r)" and "\<And>p. r = Some p \<Longrightarrow> rec_pair ctx t p n"
proof -
  let ?xs = "recs ctx (nt_of ctx (subtrees t ! n)) None 0 0 t"
  have "rec_pair ctx t p n" if "rec_parents ?xs n = Some p" for p
  proof -
    have "\<exists>d. (n, p, d) \<in> set ?xs"
      using map_of_SomeD [OF that] by auto
    then show ?thesis
      using recs_rec_pair by blast
  qed
  then show thesis
    using that FindParentWithNT_recs [OF assms] by blast
qed

lemma minimize_rec_loop_ok:
  "derives (rules ctx) m t \<Longrightarrow> ok ctx m bits s \<Longrightarrow> good ctx bits (preorder t) \<Longrightarrow>
    \<exists>b t' s'. minimize_rec_loop tester bits ctx end_index i (flat t) s = Some (Inr (b, flat t', s')) \<and>
      ok ctx m bits s' \<and> derives (rules ctx) m t' \<and> dsize t' \<le> dsize t \<and> good ctx bits (preorder t')"
proof (induction "(t, i)" arbitrary: i t s rule: wf_induct_rule [OF wf_measures [of "[\<lambda>(t, i). dsize t, \<lambda>(t, i). dsize t - i]"]])
  case 1
  note IH = 1(1) and t = 1(2) and s = 1(3) and g = 1(4)
  show ?case
  proof (cases "i < dsize t")
    case False
    then show ?thesis using t s g by (subst minimize_rec_loop.simps) auto
  next
    case i: True
    have next': "\<exists>b t' s''. (if Suc i = end_index then Some (Inr (False, flat t, s'))
          else minimize_rec_loop tester bits ctx end_index (Suc i) (flat t) s') = Some (Inr (b, flat t', s'')) \<and>
        ok ctx m bits s'' \<and> derives (rules ctx) m t' \<and> dsize t' \<le> dsize t \<and> good ctx bits (preorder t')"
      if "ok ctx m bits s'" for s'
      using IH [of t "Suc i" s'] t that g i by auto
    obtain r where r: "FindParentWithNT (flat t) i ctx = Some (Inr r)" "\<And>p. r = Some p \<Longrightarrow> rec_pair ctx t p i"
      using FindParentWithNT_pair [OF t i] by blast
    show ?thesis
    proof (cases r)
      case None
      then show ?thesis
        using next' [OF s] r(1) i by (subst minimize_rec_loop.simps) simp
    next
      case (Some p)
      then have pr: "rec_pair ctx t p i" using r(2) by blast
      then have p: "p < dsize t" "nt_of ctx (subtrees t ! p) = nt_of ctx (subtrees t ! i)"
        by (auto simp: rec_pair_def)
      have d: "derives (rules ctx) (nt_of ctx (subtrees t ! p)) (subtrees t ! i)"
        using sub_rule_known(2) [OF t i] p(2) by simp
      define t1 where "t1 = repl p (subtrees t ! i) t"
      obtain q s1 where q: "TestAndConvert (flat t) p (flat t) i ctx bits tester s = Inr (q, s1)" "ok ctx m bits s1"
        "q = None \<or> q = Some (flat t1) \<and> good ctx bits (preorder t1)"
        using TestAndConvert_ok [OF t p(1) i d s] by (auto simp: t1_def)
      have t1: "derives (rules ctx) m t1" "dsize t1 < dsize t"
        using derives_repl(1) [OF t p(1) d] rec_pair_shrinks [OF pr] by (simp_all add: t1_def)
      show ?thesis
      proof (cases q)
        case None
        then show ?thesis
          using next' [OF q(2)] r(1) Some q(1) i by (subst minimize_rec_loop.simps) simp
      next
        case (Some T1)
        then have T1: "T1 = flat t1" "good ctx bits (preorder t1)" using q(3) by auto
        obtain b t2 s2 where 2: "minimize_rec_loop tester bits ctx end_index (Suc p) (flat t1) s1 = Some (Inr (b, flat t2, s2))"
            "ok ctx m bits s2" "derives (rules ctx) m t2" "dsize t2 \<le> dsize t" "good ctx bits (preorder t2)"
          using IH [of t1 "Suc p" s1] t1 q(2) T1(2) by (simp, meson less_imp_le order_trans)
        have "minimize_rec_loop tester bits ctx end_index i (flat t) s =
            (if Suc p = end_index then Some (Inr (False, flat t1, s1)) else Some (Inr (b, flat t2, s2)))"
          using r(1) \<open>r = Some p\<close> q(1) Some T1(1) i 2(1) by (subst minimize_rec_loop.simps) simp
        then show ?thesis
          using 2(2-5) q(2) t1 T1(2) less_imp_le [OF t1(2)] by (cases "Suc p = end_index") auto
      qed
    qed
  qed
qed

end

section \<open>What the testers see\<close>

text \<open>A tester that records the mutations it is given, and a tester that decides by a pure function of the rules.\<close>

definition record_mut :: "TreeMutation list FTesterMut" where
  "record_mut M ctx seen = Inr (seen @ [M])"

definition pure_tester :: "(nat set \<Rightarrow> RuleIDOrCustom list \<Rightarrow> bool) \<Rightarrow> unit FTester" where
  "pure_tester test M bits ctx s = Inr (test bits (mut_rules M), s)"

interpretation obs: mut_tester record_mut "\<lambda>ctx m seen. \<forall>M \<in> set seen. valid_mut ctx m M"
  by unfold_locales (auto simp: record_mut_def)

interpretation pt: min_tester "pure_tester test" "\<lambda>_ _ _ _. True" "\<lambda>_. test" for test
  by unfold_locales (auto simp: pure_tester_def)

text \<open>
  C17. \<open>Mutator::MinimizeTree\<close> comes to an end on every tree of the grammar, whatever node range it is
  given and whatever the random source; the tree stays a tree of the grammar, does not grow, and still
  passes the test it passed before.
\<close>

theorem MinimizeTree_sound:
  assumes "ready ctx" and "valid_tree ctx m T" and "test bits (tree_rules T)"
  shows "\<exists>b T' pad' rs'. MinimizeTree T bits ctx start_index end_index (pure_tester test) pad rs () =
      Some (Inr (b, T', pad', rs', ())) \<and>
    valid_tree ctx m T' \<and> Tree_Size T' \<le> Tree_Size T \<and> test bits (tree_rules T')"
proof -
  obtain t where t: "derives (rules ctx) m t" "T = flat t"
    using assms(2) by (auto simp: valid_tree_def)
  show ?thesis
    using pt.minimize_tree_loop_ok [OF assms(1) t(1) TrueI, of test bits end_index start_index pad rs "()"] assms(3)
    by (auto simp: MinimizeTree_def t(2) valid_tree_def)
qed

theorem MinimizeTree_sound_witness:
  "\<exists>b T' pad' rs'. MinimizeTree (flat demo_tree) {} demo_ctx 0 200 (pure_tester (\<lambda>_ rs. PlainID 2 \<in> set rs)) (flat demo_tree) [] () =
      Some (Inr (b, T', pad', rs', ())) \<and>
    valid_tree demo_ctx 0 T' \<and> Tree_Size T' \<le> Tree_Size (flat demo_tree) \<and> PlainID 2 \<in> set (tree_rules T')"
proof -
  have "valid_tree demo_ctx 0 (flat demo_tree)"
    using demo_tree_derives by (auto simp: valid_tree_def)
  moreover have "PlainID 2 \<in> set (tree_rules (flat demo_tree))"
    by (simp add: demo_tree_def)
  ultimately show ?thesis
    using MinimizeTree_sound [OF demo_ready, of 0 "flat demo_tree" "\<lambda>_ rs. PlainID 2 \<in> set rs"] by blast
qed

text \<open>
  C18. \<open>Mutator::MinimizeRec\<close>, which moves back to the parent after every replacement, comes to an end
  on every tree of the grammar; the tree stays a tree of the grammar, does not grow, and still passes the
  test it passed before.
\<close>

theorem MinimizeRec_sound:
  assumes "valid_tree ctx m T" and "test bits (tree_rules T)"
  shows "\<exists>b T'. MinimizeRec T bits ctx start_index end_index (pure_tester test) () = Some (Inr (b, T', ())) \<and>
    valid_tree ctx m T' \<and> Tree_Size T' \<le> Tree_Size T \<and> test bits (tree_rules T')"
proof -
  obtain t where t: "derives (rules ctx) m t" "T = flat t"
    using assms(1) by (auto simp: valid_tree_def)
  show ?thesis
    using pt.minimize_rec_loop_ok [OF t(1) TrueI, of test bits end_index start_index "()"] assms(2)
    by (auto simp: MinimizeRec_def t(2) valid_tree_def)
qed

theorem MinimizeRec_sound_witness:
  "\<exists>b T'. MinimizeRec (flat demo_tree) {} demo_ctx 0 200 (pure_tester (\<lambda>_ rs. PlainID 2 \<in> set rs)) () = Some (Inr (b, T', ())) \<and>
    valid_tree demo_ctx 0 T' \<and> Tree_Size T' \<le> Tree_Size (flat demo_tree) \<and> PlainID 2 \<in> set (tree_rules T')"
proof -
  have "valid_tree demo_ctx 0 (flat demo_tree)"
    using demo_tree_derives by (auto simp: valid_tree_def)
  moreover have "PlainID 2 \<in> set (tree_rules (flat demo_tree))"
    by (simp add: demo_tree_def)
  ultimately show ?thesis
    using MinimizeRec_sound [of demo_ctx 0 "flat demo_tree" "\<lambda>_ rs. PlainID 2 \<in> set rs"] by blast
qed

section \<open>Rules mutation is exhaustive\<close>

lemma mut_rules_inner_record:
  fixes ctx :: Context
  assumes rd: "ready ctx" and ro: "roomy ctx" and t: "derives (rules ctx) m t" and n: "n < dsize t"
  shows "\<forall>r \<in> set ids. r < length (rules ctx) \<and> nonterm (rules ctx ! r) = nt_of ctx (subtrees t ! n) \<Longrightarrow>
    \<exists>pad' rs' Ms. mut_rules_inner record_mut ctx (flat t) n old ids pad rs seen = Inr (pad', rs', seen @ Ms) \<and>
      (\<forall>M \<in> set Ms. valid_mut ctx m M) \<and> map (\<lambda>M. hd (mut_repl M)) Ms = map PlainID (filter (\<lambda>r. old \<noteq> r) ids)"
proof (induction ids arbitrary: pad rs seen)
  case (Cons r ids)
  show ?case
  proof (cases "old = r")
    case True
    then show ?thesis using Cons by simp
  next
    case False
    have r: "r < length (rules ctx)" "rule_min ctx r \<le> Suc (max_len ctx)"
      using Cons.prems(1) ro by (auto simp: roomy_def le_SucI)
    obtain u rs1 where u: "GenerateFromRule pad r (max_len ctx) ctx rs = Inr (flat u, rs1)"
      "derives (rules ctx) (nonterm (rules ctx ! r)) u" "label u = PlainID r"
      using GenerateFromRule_ok [OF rd r] by blast
    have d: "derives (rules ctx) (nt_of ctx (subtrees t ! n)) (subtrees u ! 0)"
      using u(2) Cons.prems(1) by simp
    then obtain M where M: "MutateReplaceFromTree (flat t) n (flat u) 0 = Inr M" "valid_mut ctx m M"
      using replace_flat [OF t n, of 0 u] by auto
    have "mut_repl M = preorder u"
      using MutateReplaceFromTree_flat [OF n, of 0 u] M(1) by auto
    then have h: "hd (mut_repl M) = PlainID r"
      using u(3) by (cases u) simp
    obtain pad' rs' Ms where "mut_rules_inner record_mut ctx (flat t) n old ids (flat u) rs1 (seen @ [M]) = Inr (pad', rs', (seen @ [M]) @ Ms)"
      "\<forall>M \<in> set Ms. valid_mut ctx m M" "map (\<lambda>M. hd (mut_repl M)) Ms = map PlainID (filter (\<lambda>r. old \<noteq> r) ids)"
      using Cons.IH [of "flat u" rs1 "seen @ [M]"] Cons.prems by auto
    moreover have "record_mut M ctx seen = Inr (seen @ [M])"
      by (simp add: record_mut_def)
    ultimately show ?thesis
      using False u(1) M h
      by (intro exI [of _ pad'] exI [of _ rs'] exI [of _ "M # Ms"]) (auto simp: GetRandomLenForRuleID_def)
  qed
qed simp

text \<open>
  \<open>Mutator::MutRules\<close> for one node hands the tester, for every other rule of the node's nonterminal
  and in their order, one mutation whose new subtree starts with that rule; every mutation is a
  derivation of the grammar, and nothing fails as long as the length limit admits every rule.
\<close>

theorem MutRules_exhaustive:
  assumes "ready ctx" and "roomy ctx" and "valid_tree ctx m T" and "n < Tree_Size T"
    and "Tree_GetRuleID T n = Inr old" and "GetNT ctx (PlainID old) = Inr nt" and "GetRulesForNT ctx nt = Inr ids"
  shows "\<exists>pad' rs' seen. MutRules T ctx n (Suc n) record_mut pad rs [] = Inr (False, pad', rs', seen) \<and>
    (\<forall>M \<in> set seen. valid_mut ctx m M) \<and>
    map (\<lambda>M. hd (mut_repl M)) seen = map PlainID (filter (\<lambda>r. old \<noteq> r) ids)"
proof -
  obtain t where t: "derives (rules ctx) m t" "T = flat t"
    using assms(3) by (auto simp: valid_tree_def)
  have n: "n < dsize t" using assms(4) by (simp add: t(2))
  have old: "old = ID (label (subtrees t ! n))" "nt = nt_of ctx (subtrees t ! n)"
    using assms(5,6) n sub_rule_known(1) [OF t(1) n] by (auto simp: t(2) GetNT_def GetRule_def nt_of_def bindR_eq_Inr)
  have "\<forall>r \<in> set ids. r < length (rules ctx) \<and> nonterm (rules ctx ! r) = nt_of ctx (subtrees t ! n)"
    using assms(1,7) old by (auto simp: GetRulesForNT_def ready_def)
  from mut_rules_inner_record [OF assms(1,2) t(1) n this, of old pad rs "[]"] show ?thesis
    using assms(5-7) n by (auto simp: MutRules_def t(2))
qed

lemma demo_roomy: "roomy demo_ctx"
proof -
  have "\<forall>r < 4. rule_min demo_ctx r \<le> 12"
    by (simp add: rule_min_def demo_ctx_def numeral_eq_Suc less_Suc_eq all_conj_distrib)
  then show ?thesis
    by (simp add: roomy_def demo_ctx_def demo_rules) (simp add: demo_defs demo_ctx_def)
qed

theorem MutRules_exhaustive_witness:
  "\<exists>pad' rs' seen. MutRules (flat demo_tree) demo_ctx 3 (Suc 3) record_mut (flat demo_tree) [] [] = Inr (False, pad', rs', seen) \<and>
     map (\<lambda>M. hd (mut_repl M)) seen = [PlainID 3]"
proof -
  have v: "valid_tree demo_ctx 0 (flat demo_tree)"
    using demo_tree_derives by (auto simp: valid_tree_def)
  have r: "3 < Tree_Size (flat demo_tree)" "Tree_GetRuleID (flat demo_tree) 3 = Inr 2"
    "GetNT demo_ctx (PlainID 2) = Inr 1" "GetRulesForNT demo_ctx 1 = Inr [2, 3]"
    by (simp_all add: Tree_Size_def Tree_GetRuleID_def demo_tree_def GetNT_def GetRule_def GetRulesForNT_def
        demo_rules demo_defs, simp add: demo_ctx_def)
  show ?thesis
    using MutRules_exhaustive [OF demo_ready demo_roomy v r] by fastforce
qed

section \<open>Random mutations\<close>

text \<open>
  \<open>Mutator::MutSplice\<close> and \<open>Mutator::MutRandom\<close> never fail on a tree of the grammar, and the
  mutations that reach the tester are derivations of the grammar.
\<close>

theorem MutSplice_MutRandom_valid:
  assumes "ready ctx" and "roomy ctx" and "store_wf ctx cks" and "valid_tree ctx m T"
  shows "(\<exists>rs' seen. MutSplice T ctx cks record_mut rs [] = Inr (rs', seen) \<and> (\<forall>M \<in> set seen. valid_mut ctx m M)) \<and>
    (\<exists>pad' rs' seen. MutRandom T ctx record_mut pad rs [] = Inr (pad', rs', seen) \<and> (\<forall>M \<in> set seen. valid_mut ctx m M))"
proof -
  obtain t where t: "derives (rules ctx) m t" "T = flat t"
    using assms(4) by (auto simp: valid_tree_def)
  show ?thesis
    using obs.MutSplice_ok [OF assms(1) t(1) assms(3), of "[]" rs] obs.MutRandom_ok [OF assms(1,2) t(1), of "[]" pad rs]
    by (simp add: t(2))
qed

theorem MutSplice_MutRandom_valid_witness:
  "(\<exists>rs' seen. MutSplice (flat demo_tree) demo_ctx demo_store record_mut [1, 1] [] = Inr (rs', seen) \<and> list_all (valid_mut demo_ctx 0) seen) \<and>
   (\<exists>pad' rs' seen. MutRandom (flat demo_tree) demo_ctx record_mut (flat demo_tree) [1, 1] [] = Inr (pad', rs', seen) \<and>
      list_all (valid_mut demo_ctx 0) seen)"
proof -
  have v: "valid_tree demo_ctx 0 (flat demo_tree)"
    using demo_tree_derives by (auto simp: valid_tree_def)
  show ?thesis
    using MutSplice_MutRandom_valid [OF demo_ready demo_roomy demo_store_wf v] unfolding list_all_iff by blast
qed

text \<open>
  The tree that \<open>Mutator::MutRandomRecursion\<close> builds from a recursion pair consists of the part
  before the inner node, repeated, the inner subtree, and the part after it, repeated equally often; the
  size recorded for its root is the number of its nodes, which exceeds the inner subtree by at most the
  drawn limit.
\<close>

theorem repeat_recursion_shape:
  assumes "rec_pair ctx t p n" and "k = n - p"
    and "s0 = subtrees t ! p" and "s1 = subtrees t ! n" and "num = mlen div (dsize s0 - dsize s1)"
  shows "\<exists>R. repeat_recursion (flat t) mlen p n = Inr R \<and>
    tree_rules R = concat (replicate num (take k (preorder s0))) @ preorder s1 @
      concat (replicate num (drop (k + dsize s1) (preorder s0))) \<and>
    SubTreeSize R 0 = Inr (Tree_Size R) \<and> Tree_Size R \<le> dsize s1 + mlen"
proof -
  note g = rec_pair_geometry [OF assms(1), folded assms(2-4)]
  obtain R where R: "repeat_recursion (flat t) mlen p n = Inr R" "tree_rules R = preorder (unroll s0 k num)"
    "SubTreeSize R 0 = Inr (dsize (unroll s0 k num))"
    using repeat_recursion_flat [OF assms(1,3-5)] assms(2) by blast
  have "num * (dsize s0 - dsize s1) \<le> mlen"
    by (simp add: assms(5))
  then show ?thesis
    using R preorder_unroll [OF g(2), of num] dsize_unroll [OF g(2), of num] g(4)
    by (auto simp: Tree_Size_def dsize_def)
qed

theorem repeat_recursion_shape_witness:
  "\<exists>R. repeat_recursion (flat demo_tree) 2 0 1 = Inr R \<and>
     tree_rules R = concat (replicate 2 [PlainID 0]) @ [PlainID 0, PlainID 1, PlainID 2] @ concat (replicate 2 [])"
proof -
  have "rec_pair demo_ctx demo_tree 0 1"
    by (simp add: rec_pair_def demo_tree_def dsize_def nt_of_def demo_rules demo_defs)
  from repeat_recursion_shape [OF this refl refl refl refl, of 2] show ?thesis
    by (simp add: demo_tree_def dsize_def) blast
qed

text \<open>
  \<open>Mutator::MutRandomRecursion\<close>, on the recursions that \<open>CalcRecursions\<close> returned for the tree,
  never fails, and the mutation that reaches the tester is a derivation of the grammar.
\<close>

theorem MutRandomRecursion_valid:
  assumes "valid_tree ctx m T" and "CalcRecursions T ctx = Inr (Some Rs)"
  shows "\<exists>rs' seen. MutRandomRecursion T Rs ctx record_mut rs [] = Inr (rs', seen) \<and> (\<forall>M \<in> set seen. valid_mut ctx m M)"
proof -
  obtain t where t: "derives (rules ctx) m t" "T = flat t"
    using assms(1) by (auto simp: valid_tree_def)
  have "recursions_ok ctx t Rs"
    using CalcRecursions_ok [OF t(1)] assms(2) by (auto simp: t(2))
  then show ?thesis
    using obs.MutRandomRecursion_ok [OF t(1), of Rs "[]" rs] by (simp add: t(2))
qed

theorem MutRandomRecursion_valid_witness:
  "\<exists>Rs rs' seen. CalcRecursions (flat demo_tree) demo_ctx = Inr (Some Rs) \<and>
     MutRandomRecursion (flat demo_tree) Rs demo_ctx record_mut [3, 0, 1, 0] [] = Inr (rs', seen) \<and>
     list_all (valid_mut demo_ctx 0) seen"
proof -
  have v: "valid_tree demo_ctx 0 (flat demo_tree)"
    using demo_tree_derives by (auto simp: valid_tree_def)
  obtain R Rs where R: "CalcRecursions (flat demo_tree) demo_ctx = Inr (Some (R # Rs))"
    using demo_recursions by blast
  show ?thesis
    using R MutRandomRecursion_valid [OF v R] unfolding list_all_iff by blast
qed

end
