(* ===== verification/Fuzzuf_Feedback.thy ===== *)
theory Fuzzuf_Feedback
  imports Fuzzuf_Prelude
begin

text \<open>
  What an execution of the program under test reports (\<open>include/fuzzuf/feedback\<close>): the reason for which it
  ended, and the coverage map, with the checksum and the count of non-zero bytes that the feedback classes
  compute from it (\<open>Util::Hash32\<close> and \<open>Util::CountBytes\<close> of \<open>utils/common.cpp\<close>, the former in its variant for
  64-bit machines).
\<close>

unbundle bit_operations_syntax

datatype PUTExitReasonType = FAULT_NONE | FAULT_TMOUT | FAULT_CRASH | FAULT_ERROR | FAULT_NOINST | FAULT_NOBITS

section \<open>Checksums of a coverage map\<close>

definition ROL64 :: "64 word \<Rightarrow> nat \<Rightarrow> 64 word" where
  "ROL64 x r = push_bit r x OR drop_bit (64 - r) x"

text \<open>A 64-bit word read from memory, lowest byte first.\<close>

fun le64 :: "8 word list \<Rightarrow> 64 word" where
  "le64 [] = 0"
| "le64 (b # bs) = ucast b OR push_bit 8 (le64 bs)"

fun hash_loop :: "nat \<Rightarrow> 8 word list \<Rightarrow> 64 word \<Rightarrow> 64 word" where
  "hash_loop 0 data h1 = h1"
| "hash_loop (Suc len) data h1 =
     (let k1 = le64 (take 8 data) * 0x87c37b91114253d5;
          k1 = ROL64 k1 31 * 0x4cf5ad432745937f;
          h1 = ROL64 (h1 XOR k1) 27 * 5 + 0x52dce729
      in hash_loop len (drop 8 data) h1)"

definition hash_mix :: "64 word \<Rightarrow> 64 word" where
  "hash_mix h1 =
     (let h1 = (h1 XOR drop_bit 33 h1) * 0xff51afd7ed558ccd;
          h1 = (h1 XOR drop_bit 33 h1) * 0xc4ceb9fe1a85ec53
      in h1 XOR drop_bit 33 h1)"

text \<open>The result is cut to 32 bits by the return type.\<close>

definition Hash32 :: "8 word list \<Rightarrow> 32 word \<Rightarrow> 32 word" where
  "Hash32 key seed =
     ucast (hash_mix (hash_loop (length key div 8) key (ucast (seed XOR of_nat (length key)))))"

definition HashConst :: "32 word" where "HashConst = 0xa5b35705"

definition CalcCksum32 :: "8 word list \<Rightarrow> nat" where
  "CalcCksum32 mem = unat (Hash32 mem HashConst)"

definition CountBytes :: "8 word list \<Rightarrow> nat" where
  "CountBytes mem = length mem - count_list mem 0"

lemma CountBytes_filter: "CountBytes mem = length (filter (\<lambda>b. b \<noteq> 0) mem)"
proof -
  have "count_list mem 0 + length (filter (\<lambda>b. b \<noteq> 0) mem) = length mem"
    by (induction mem) auto
  then show ?thesis by (simp add: CountBytes_def)
qed

end
