(* ===== verification/Nautilus_Queue.thy ===== *)
theory Nautilus_Queue
  imports Nautilus_Mutator_Props Fuzzuf_Feedback
begin

text \<open>
  The queue of Nautilus (\<open>algorithms/nautilus/fuzzer/queue.cpp\<close>, \<open>queue.hpp\<close>): test cases with the coverage
  bits they trigger, and an index from bits to the test cases that trigger them. The queue and the items
  that the fuzzer holds between \<open>Pop\<close> and \<open>Finished\<close> form a transition system.
\<close>

section \<open>State\<close>

fun exit_code :: "PUTExitReasonType \<Rightarrow> nat" where
  "exit_code FAULT_NONE = 0"
| "exit_code FAULT_TMOUT = 1"
| "exit_code FAULT_CRASH = 2"
| "exit_code FAULT_ERROR = 3"
| "exit_code FAULT_NOINST = 4"
| "exit_code FAULT_NOBITS = 5"

datatype ItemState = InitState nat | DetState nat nat | RandomState

type_synonym bitmap = "8 word list"

record QueueItem =
  item_id :: nat
  item_tree :: Tree
  fresh_bits :: "nat set"
  all_bits :: bitmap
  exit_reason :: PUTExitReasonType
  item_state :: ItemState
  recursions :: "RecursionInfo list option"
  execution_time :: nat

definition QueueItem_new :: "nat \<Rightarrow> Tree \<Rightarrow> nat set \<Rightarrow> bitmap \<Rightarrow> PUTExitReasonType \<Rightarrow> nat \<Rightarrow> QueueItem" where
  "QueueItem_new i T fresh bits er time =
     \<lparr>item_id = i, item_tree = T, fresh_bits = fresh, all_bits = bits, exit_reason = er,
      item_state = InitState 0, recursions = None, execution_time = time\<rparr>"

record Queue =
  q_inputs :: "QueueItem list"
  q_processed :: "QueueItem list"
  bit_to_inputs :: "nat \<rightharpoonup> nat list"
  current_id :: nat
  q_work_dir :: string

definition Queue_new :: "string \<Rightarrow> Queue" where
  "Queue_new dir = \<lparr>q_inputs = [], q_processed = [], bit_to_inputs = Map.empty, current_id = 0, q_work_dir = dir\<rparr>"

section \<open>Operations\<close>

text \<open>The first loop of \<open>Add\<close> and \<open>Finished\<close>: whether every set bit is already in the index.\<close>

definition all_known :: "(nat \<rightharpoonup> nat list) \<Rightarrow> bitmap \<Rightarrow> bool" where
  "all_known m bits \<longleftrightarrow> list_all (\<lambda>i. bits ! i \<noteq> 0 \<longrightarrow> m i \<noteq> None) [0..<length bits]"

text \<open>The second loop: enter an identifier for every set bit and collect the fresh ones.\<close>

fun enter_bits :: "bitmap \<Rightarrow> nat \<Rightarrow> nat list \<Rightarrow> nat set \<times> (nat \<rightharpoonup> nat list) \<Rightarrow> nat set \<times> (nat \<rightharpoonup> nat list)" where
  "enter_bits bits ident [] st = st"
| "enter_bits bits ident (i # is) (fresh, m) =
     (if bits ! i \<noteq> 0 then
        (let (fresh1, m1) = (case m i of None \<Rightarrow> (insert i fresh, m(i \<mapsto> [])) | Some _ \<Rightarrow> (fresh, m))
         in enter_bits bits ident is (fresh1, m1(i \<mapsto> the (m1 i) @ [ident])))
      else enter_bits bits ident is (fresh, m))"

definition queue_path :: "Queue \<Rightarrow> nat \<Rightarrow> PUTExitReasonType \<Rightarrow> string" where
  "queue_path q ident er = q_work_dir q @ ''/queue/id:'' @ decimal9 ident @ '',er:'' @ decimal (exit_code er)"

definition Add ::
  "Queue \<Rightarrow> Tree \<Rightarrow> bitmap \<Rightarrow> PUTExitReasonType \<Rightarrow> Context \<Rightarrow> nat \<Rightarrow> FS \<Rightarrow> (Queue \<times> FS) result" where
  "Add q tree bits er ctx time fs =
     (if all_known (bit_to_inputs q) bits then Inr (q, fs)
      else case enter_bits bits (current_id q) [0..<length bits] ({}, bit_to_inputs q) of (fresh, m) \<Rightarrow>
        bindR (ran (UnparseTo (Tree_GetRuleOrCustom tree) ctx [])) (\<lambda>(buffer, _).
        bindR (save_file (queue_path q (current_id q) er) buffer fs) (\<lambda>fs'.
          Inr (q\<lparr>bit_to_inputs := m,
                 q_inputs := q_inputs q @ [QueueItem_new (current_id q) tree fresh bits er time],
                 current_id := (if current_id q = size_max then 0 else Suc (current_id q))\<rparr>, fs'))))"

definition IsEmpty :: "Queue \<Rightarrow> bool" where
  "IsEmpty q \<longleftrightarrow> length (q_inputs q) = 0"

definition drop_id :: "nat \<Rightarrow> (nat \<rightharpoonup> nat list) \<Rightarrow> (nat \<rightharpoonup> nat list)" where
  "drop_id ident m = (\<lambda>k. case m k of
     None \<Rightarrow> None
   | Some v \<Rightarrow> (let v' = filter (\<lambda>vid. vid \<noteq> ident) v in if v' = [] then None else Some v'))"

definition Pop :: "Queue \<Rightarrow> (QueueItem \<times> Queue) result" where
  "Pop q =
     (if IsEmpty q then Inl AssertFail
      else let item = last (q_inputs q) in
        Inr (item, q\<lparr>q_inputs := butlast (q_inputs q), bit_to_inputs := drop_id (item_id item) (bit_to_inputs q)\<rparr>))"

definition Finished :: "Queue \<Rightarrow> QueueItem \<Rightarrow> FS \<Rightarrow> Queue \<times> FS" where
  "Finished q item fs =
     (if all_known (bit_to_inputs q) (all_bits item) then
        (q, DeleteFileOrDirectory (q_work_dir q @ ''/outputs/queue/id:'' @ decimal9 (item_id item) @ '',er:'' @
              decimal (exit_code (exit_reason item))) fs)
      else case enter_bits (all_bits item) (item_id item) [0..<length (all_bits item)] ({}, bit_to_inputs q) of (fresh, m) \<Rightarrow>
        (q\<lparr>bit_to_inputs := m, q_processed := q_processed q @ [item]\<rparr>, fs))"

definition NewRound :: "Queue \<Rightarrow> Queue" where
  "NewRound q = q\<lparr>q_inputs := q_inputs q @ q_processed q, q_processed := []\<rparr>"

section \<open>The index loops\<close>

definition set_bits :: "bitmap \<Rightarrow> nat set" where
  "set_bits bits = {i. i < length bits \<and> bits ! i \<noteq> 0}"

lemma set_bits_filter: "set_bits bits = set (filter (\<lambda>i. bits ! i \<noteq> 0) [0..<length bits])"
  by (auto simp: set_bits_def)

lemma all_known_iff: "all_known m bits \<longleftrightarrow> set_bits bits \<subseteq> dom m"
  by (auto simp: all_known_def set_bits_def list_all_iff dom_def)

lemma enter_bits_result:
  "distinct is \<Longrightarrow> enter_bits bits ident is (fresh, m) =
     (fresh \<union> {i \<in> set is. bits ! i \<noteq> 0 \<and> m i = None},
      \<lambda>i. if i \<in> set is \<and> bits ! i \<noteq> 0 then Some ((case m i of None \<Rightarrow> [] | Some v \<Rightarrow> v) @ [ident]) else m i)"
proof (induction "is" arbitrary: fresh m)
  case (Cons i "is")
  show ?case
  proof (cases "bits ! i \<noteq> 0")
    case True
    define fresh1 where "fresh1 = (case m i of None \<Rightarrow> insert i fresh | Some _ \<Rightarrow> fresh)"
    define m1 where "m1 = m(i \<mapsto> (case m i of None \<Rightarrow> [] | Some v \<Rightarrow> v) @ [ident])"
    have "enter_bits bits ident (i # is) (fresh, m) = enter_bits bits ident is (fresh1, m1)"
      using True by (cases "m i") (simp_all add: fresh1_def m1_def)
    also have "\<dots> = (fresh1 \<union> {j \<in> set is. bits ! j \<noteq> 0 \<and> m1 j = None},
      \<lambda>j. if j \<in> set is \<and> bits ! j \<noteq> 0 then Some ((case m1 j of None \<Rightarrow> [] | Some v \<Rightarrow> v) @ [ident]) else m1 j)"
      using Cons by simp
    finally show ?thesis
      using True Cons.prems by (auto simp: fresh1_def m1_def fun_eq_iff split: option.splits)
  next
    case False
    then show ?thesis
      using Cons by (auto simp: fun_eq_iff)
  qed
qed (simp add: fun_eq_iff)

definition entered :: "bitmap \<Rightarrow> nat \<Rightarrow> (nat \<rightharpoonup> nat list) \<Rightarrow> (nat \<rightharpoonup> nat list)" where
  "entered bits ident m =
     (\<lambda>i. if i \<in> set_bits bits then Some ((case m i of None \<Rightarrow> [] | Some v \<Rightarrow> v) @ [ident]) else m i)"

lemma enter_bits_all:
  "enter_bits bits ident [0..<length bits] ({}, m) = (set_bits bits - dom m, entered bits ident m)"
  by (subst enter_bits_result) (auto simp: set_bits_def entered_def fun_eq_iff dom_def)

lemma dom_entered: "dom (entered bits ident m) = dom m \<union> set_bits bits"
  by (auto simp: entered_def split: if_splits)

section \<open>Invariant\<close>

definition q_items :: "Queue \<Rightarrow> QueueItem list" where
  "q_items q = q_inputs q @ q_processed q"

definition index_ok :: "QueueItem list \<Rightarrow> (nat \<rightharpoonup> nat list) \<Rightarrow> bool" where
  "index_ok items m \<longleftrightarrow>
     (\<forall>i. (case m i of None \<Rightarrow> {} | Some v \<Rightarrow> set v) = {item_id x |x. x \<in> set items \<and> i \<in> set_bits (all_bits x)} \<and>
          m i \<noteq> Some [])"

text \<open>
  The queue together with the items taken out of it: identifiers are unique and below the next one, and
  the index lists for every bit exactly the items of the queue that trigger it.
\<close>

definition queue_wf :: "Queue \<times> QueueItem list \<Rightarrow> bool" where
  "queue_wf s = (case s of (q, held) \<Rightarrow>
     distinct (map item_id (q_items q @ held)) \<and> (\<forall>x \<in> set (q_items q @ held). item_id x < current_id q) \<and>
     current_id q \<le> size_max \<and> index_ok (q_items q) (bit_to_inputs q))"

lemma Queue_new_wf: "queue_wf (Queue_new dir, [])"
  by (simp add: queue_wf_def Queue_new_def q_items_def index_ok_def)

lemma index_ok_dom: "index_ok items m \<Longrightarrow> dom m = (\<Union>x \<in> set items. set_bits (all_bits x))"
proof -
  assume ok: "index_ok items m"
  have "m i \<noteq> None \<longleftrightarrow> (\<exists>x \<in> set items. i \<in> set_bits (all_bits x))" for i
  proof (cases "m i")
    case (Some v)
    then have "set v = {item_id x |x. x \<in> set items \<and> i \<in> set_bits (all_bits x)}" "v \<noteq> []"
      using ok unfolding index_ok_def by (auto dest!: spec [of _ i])
    moreover from this(2) obtain a where "a \<in> set v" by (cases v) auto
    ultimately show ?thesis using Some by auto
  qed (use ok in \<open>auto simp: index_ok_def dest!: spec [of _ i]\<close>)
  then show ?thesis by auto
qed

lemma index_ok_perm: "set items = set items' \<Longrightarrow> index_ok items m = index_ok items' m"
  by (simp add: index_ok_def)

lemma index_ok_enter:
  assumes "index_ok items m" and "item_id x = ident"
  shows "index_ok (x # items) (entered (all_bits x) ident m)"
  unfolding index_ok_def
proof (intro allI conjI)
  fix i
  let ?S = "\<lambda>xs. {item_id x |x. x \<in> set xs \<and> i \<in> set_bits (all_bits x)}"
  have "(case m i of None \<Rightarrow> {} | Some v \<Rightarrow> set v) = ?S items" "m i \<noteq> Some []"
    using assms(1) by (simp_all add: index_ok_def)
  moreover have "?S (x # items) = (if i \<in> set_bits (all_bits x) then insert ident (?S items) else ?S items)"
    using assms(2) by auto
  ultimately show "(case entered (all_bits x) ident m i of None \<Rightarrow> {} | Some v \<Rightarrow> set v) = ?S (x # items)"
    and "entered (all_bits x) ident m i \<noteq> Some []"
    by (auto simp: entered_def split: option.splits)
qed

lemma index_ok_drop:
  assumes "index_ok (x # items) m" and "item_id x \<notin> item_id ` set items"
  shows "index_ok items (drop_id (item_id x) m)"
  unfolding index_ok_def
proof (intro allI conjI)
  fix i
  let ?S = "\<lambda>xs. {item_id x |x. x \<in> set xs \<and> i \<in> set_bits (all_bits x)}"
  have m: "(case m i of None \<Rightarrow> {} | Some v \<Rightarrow> set v) = ?S (x # items)"
    using assms(1) by (simp add: index_ok_def)
  have "item_id y \<noteq> item_id x" if "y \<in> set items" for y
    using that assms(2) by (metis imageI)
  then have "?S (x # items) - {item_id x} = ?S items"
    by auto
  then show "(case drop_id (item_id x) m i of None \<Rightarrow> {} | Some v \<Rightarrow> set v) = ?S items"
    using m by (cases "m i") (auto simp: drop_id_def Let_def filter_empty_conv)
  show "drop_id (item_id x) m i \<noteq> Some []"
    by (simp add: drop_id_def Let_def split: option.split)
qed

section \<open>The transition system\<close>

inductive queue_step :: "Queue \<times> QueueItem list \<Rightarrow> Queue \<times> QueueItem list \<Rightarrow> bool" where
  add: "Add q tree bits er ctx time fs = Inr (q', fs') \<Longrightarrow> current_id q < size_max \<Longrightarrow> queue_step (q, held) (q', held)"
| pop: "Pop q = Inr (item, q') \<Longrightarrow> queue_step (q, held) (q', item # held)"
| work: "item_id item' = item_id item \<Longrightarrow> all_bits item' = all_bits item \<Longrightarrow>
     queue_step (q, held1 @ item # held2) (q, held1 @ item' # held2)"
| finished: "Finished q item fs = (q', fs') \<Longrightarrow> queue_step (q, held1 @ item # held2) (q', held1 @ held2)"
| new_round: "queue_step (q, held) (NewRound q, held)"

inductive_cases queue_stepE: "queue_step s s'"

text \<open>The bits that some item of the queue or in the fuzzer's hands triggers.\<close>

definition coverage :: "Queue \<times> QueueItem list \<Rightarrow> nat set" where
  "coverage s = (case s of (q, held) \<Rightarrow> dom (bit_to_inputs q) \<union> (\<Union>x \<in> set held. set_bits (all_bits x)))"

lemma Add_cases:
  assumes "Add q tree bits er ctx time fs = Inr (q', fs')"
  obtains "set_bits bits \<subseteq> dom (bit_to_inputs q)" "q' = q" "fs' = fs"
  | buffer n where "\<not> set_bits bits \<subseteq> dom (bit_to_inputs q)"
      "UnparseTo (Tree_GetRuleOrCustom tree) ctx [] = Some (Inr (buffer, n))"
      "save_file (queue_path q (current_id q) er) buffer fs = Inr fs'"
      "q' = q\<lparr>bit_to_inputs := entered bits (current_id q) (bit_to_inputs q),
        q_inputs := q_inputs q @ [QueueItem_new (current_id q) tree (set_bits bits - dom (bit_to_inputs q)) bits er time],
        current_id := (if current_id q = size_max then 0 else Suc (current_id q))\<rparr>"
proof (cases "set_bits bits \<subseteq> dom (bit_to_inputs q)")
  case True
  then show thesis
    using assms by (intro that(1)) (simp_all add: Add_def all_known_iff)
next
  case False
  let ?k = "\<lambda>buffer. bindR (save_file (queue_path q (current_id q) er) buffer fs) (\<lambda>fs'.
      Inr (q\<lparr>bit_to_inputs := entered bits (current_id q) (bit_to_inputs q),
        q_inputs := q_inputs q @ [QueueItem_new (current_id q) tree (set_bits bits - dom (bit_to_inputs q)) bits er time],
        current_id := (if current_id q = size_max then 0 else Suc (current_id q))\<rparr>, fs'))"
  have eq: "bindR (ran (UnparseTo (Tree_GetRuleOrCustom tree) ctx [])) (\<lambda>(buffer, _). ?k buffer) = Inr (q', fs')"
    using assms False by (simp add: Add_def all_known_iff enter_bits_all)
  then obtain buffer n where u: "ran (UnparseTo (Tree_GetRuleOrCustom tree) ctx []) = Inr (buffer, n)"
    and k: "?k buffer = Inr (q', fs')"
    by (cases "ran (UnparseTo (Tree_GetRuleOrCustom tree) ctx [])") auto
  obtain fs1 where f: "save_file (queue_path q (current_id q) er) buffer fs = Inr fs1"
    using k unfolding bindR_eq_Inr by blast
  have "UnparseTo (Tree_GetRuleOrCustom tree) ctx [] = Some (Inr (buffer, n))"
    using u by (simp add: ran_def split: option.splits)
  then show thesis
    using k f by (intro that(2) [OF False, of buffer n]) simp_all
qed

lemma Add_step_wf:
  assumes "Add q tree bits er ctx time fs = Inr (q', fs')" and "current_id q < size_max" and wf: "queue_wf (q, held)"
  shows "queue_wf (q', held) \<and> coverage (q, held) \<subseteq> coverage (q', held)"
  using assms(1)
proof (cases rule: Add_cases)
  case 1
  then show ?thesis using wf by simp
next
  case (2 buffer n)
  let ?x = "QueueItem_new (current_id q) tree (set_bits bits - dom (bit_to_inputs q)) bits er time"
  have x: "item_id ?x = current_id q" "all_bits ?x = bits" by (simp_all add: QueueItem_new_def)
  have "index_ok (?x # q_items q) (entered bits (current_id q) (bit_to_inputs q))"
    using index_ok_enter [of "q_items q" "bit_to_inputs q" ?x] wf x by (simp add: queue_wf_def)
  then have "index_ok (q_items q') (bit_to_inputs q')"
    using 2(4) by (subst index_ok_perm [of _ "?x # q_items q"]) (auto simp: q_items_def)
  then show ?thesis
    using wf assms(2) 2(4) x by (auto simp: queue_wf_def q_items_def coverage_def dom_entered less_Suc_eq)
qed

lemma Pop_step_wf:
  assumes "Pop q = Inr (item, q')" and wf: "queue_wf (q, held)"
  shows "queue_wf (q', item # held) \<and> coverage (q, held) \<subseteq> coverage (q', item # held)"
proof -
  have ne: "q_inputs q \<noteq> []" and item: "item = last (q_inputs q)"
    and q': "q' = q\<lparr>q_inputs := butlast (q_inputs q), bit_to_inputs := drop_id (item_id item) (bit_to_inputs q)\<rparr>"
    using assms(1) by (auto simp: Pop_def IsEmpty_def Let_def split: if_splits)
  obtain xs where xs: "q_inputs q = xs @ [item]"
    using ne item by (metis append_butlast_last_id)
  have items: "set (q_items q) = set (item # q_items q')" "q_items q' = xs @ q_processed q"
    by (auto simp: q_items_def q' xs)
  have fresh: "item_id item \<notin> item_id ` set (q_items q')"
    using wf by (auto simp: queue_wf_def q_items_def q' xs)
  have ok: "index_ok (item # q_items q') (bit_to_inputs q)"
    using wf index_ok_perm [OF items(1)] by (simp add: queue_wf_def)
  have ok': "index_ok (q_items q') (bit_to_inputs q')"
    using index_ok_drop [OF ok fresh] by (simp add: q')
  have "coverage (q, held) \<subseteq> coverage (q', item # held)"
    using index_ok_dom [OF ok] index_ok_dom [OF ok'] by (auto simp: coverage_def)
  moreover have "queue_wf (q', item # held)"
    using wf ok' by (auto simp: queue_wf_def q_items_def q' xs)
  ultimately show ?thesis by simp
qed

lemma Finished_step_wf:
  assumes "Finished q item fs = (q', fs')" and wf: "queue_wf (q, held1 @ item # held2)"
  shows "queue_wf (q', held1 @ held2) \<and> coverage (q, held1 @ item # held2) \<subseteq> coverage (q', held1 @ held2)"
proof (cases "set_bits (all_bits item) \<subseteq> dom (bit_to_inputs q)")
  case True
  then have "q' = q"
    using assms(1) by (simp add: Finished_def all_known_iff)
  then show ?thesis
    using wf True by (auto simp: queue_wf_def coverage_def)
next
  case False
  then have q': "q' = q\<lparr>bit_to_inputs := entered (all_bits item) (item_id item) (bit_to_inputs q),
      q_processed := q_processed q @ [item]\<rparr>"
    using assms(1) by (auto simp: Finished_def all_known_iff enter_bits_all)
  have "index_ok (item # q_items q) (entered (all_bits item) (item_id item) (bit_to_inputs q))"
    using index_ok_enter [of "q_items q" "bit_to_inputs q" item] wf by (simp add: queue_wf_def)
  then have "index_ok (q_items q') (bit_to_inputs q')"
    using q' by (subst index_ok_perm [of _ "item # q_items q"]) (auto simp: q_items_def)
  then show ?thesis
    using wf by (auto simp: queue_wf_def q_items_def coverage_def dom_entered q')
qed

lemma NewRound_step_wf: "queue_wf (q, held) \<Longrightarrow> queue_wf (NewRound q, held) \<and> coverage (q, held) \<subseteq> coverage (NewRound q, held)"
  by (auto simp: queue_wf_def q_items_def NewRound_def coverage_def)

lemma queue_step_wf: "queue_step s s' \<Longrightarrow> queue_wf s \<Longrightarrow> queue_wf s' \<and> coverage s \<subseteq> coverage s'"
proof (induction rule: queue_step.induct)
  case (add q tree bits er ctx time fs q' fs' held)
  then show ?case by (rule Add_step_wf)
next
  case (pop q item q' held)
  then show ?case by (rule Pop_step_wf)
next
  case (work item' item q held1 held2)
  then show ?case by (auto simp: queue_wf_def coverage_def)
next
  case (finished q item fs q' fs' held1 held2)
  then show ?case by (rule Finished_step_wf)
next
  case (new_round q held)
  then show ?case by (rule NewRound_step_wf)
qed

lemma queue_steps_wf: "queue_step\<^sup>*\<^sup>* s s' \<Longrightarrow> queue_wf s \<Longrightarrow> queue_wf s' \<and> coverage s \<subseteq> coverage s'"
proof (induction rule: rtranclp_induct)
  case (step s1 s2)
  then show ?case using queue_step_wf [of s1 s2] by auto
qed simp

text \<open>
  C19. Over any sequence of \<open>Queue::Add\<close>, \<open>Pop\<close>, \<open>Finished\<close> and \<open>NewRound\<close>, interleaved with work on the
  items taken out, the index stays exact (for every bit it lists the items of the queue that trigger it,
  and no bit has an empty list), identifiers stay unique, and coverage is never lost: a bit triggered by
  an item of the queue or in hand stays so, although \<open>Finished\<close> drops items.
\<close>

theorem queue_never_loses_coverage:
  assumes "queue_step\<^sup>*\<^sup>* s s'" and "queue_wf s"
  shows "queue_wf s' \<and> coverage s \<subseteq> coverage s'"
  by (rule queue_steps_wf [OF assms])

definition demo_bits :: bitmap where
  "demo_bits = [0, 1, 0, 3]"

definition demo_item :: QueueItem where
  "demo_item = QueueItem_new 0 (flat demo_tree) {1, 3} demo_bits FAULT_NONE 5"

definition demo_queue :: Queue where
  "demo_queue = (Queue_new ''w'')\<lparr>q_inputs := [demo_item], bit_to_inputs := [1 \<mapsto> [0], 3 \<mapsto> [0]], current_id := 1\<rparr>"

lemma demo_unparse: "UnparseTo (Tree_GetRuleOrCustom (flat demo_tree)) demo_ctx [] = Some (Inr (''aacbb'', 4))"
  using Unparse_flat [OF demo_rules_wf demo_tree_derives, of 0 "[]"]
  by (simp add: UnparseTo_def) (simp add: demo_tree_def dsize_def demo_rules demo_defs)

lemma demo_set_bits: "set_bits demo_bits = {1, 3}"
  by (simp add: set_bits_filter demo_bits_def upt_rec numeral_3_eq_3)

lemma demo_add:
  "\<exists>fs'. Add (Queue_new ''w'') (flat demo_tree) demo_bits FAULT_NONE demo_ctx 5 demo_fs = Inr (demo_queue, fs')"
proof -
  have "entered demo_bits 0 Map.empty = [1 \<mapsto> [0], 3 \<mapsto> [0]]"
    by (auto simp: entered_def demo_set_bits fun_eq_iff)
  then show ?thesis
    using demo_unparse by (simp add: Add_def Queue_new_def all_known_iff enter_bits_all demo_set_bits save_file_eq
        demo_fs_def demo_queue_def demo_item_def size_max_def)
qed

theorem queue_never_loses_coverage_witness:
  "queue_wf (demo_queue, []) \<and> coverage (Queue_new ''w'', []) \<subseteq> coverage (demo_queue, [])"
proof -
  obtain fs' where "Add (Queue_new ''w'') (flat demo_tree) demo_bits FAULT_NONE demo_ctx 5 demo_fs = Inr (demo_queue, fs')"
    using demo_add by blast
  then have "queue_step (Queue_new ''w'', []) (demo_queue, [])"
    by (rule queue_step.add) (simp add: Queue_new_def size_max_def)
  then show ?thesis
    using queue_never_loses_coverage [OF r_into_rtranclp Queue_new_wf] by blast
qed

text \<open>
  \<open>Queue::Add\<close> on a tree of the grammar: a test case whose bits are all in the index changes
  nothing; otherwise it is appended with the next identifier and exactly the new bits as fresh bits, its
  text is saved, and afterwards all its bits are in the index.
\<close>

theorem Add_behaviour:
  fixes ctx :: Context
  assumes "\<forall>r \<in> set (rules ctx). rule_wf r" and "derives (rules ctx) m t" and "writable_all fs"
    and "p = queue_path q (current_id q) er" and "fresh = set_bits bits - dom (bit_to_inputs q)"
  shows "\<exists>q' fs'. Add q (flat t) bits er ctx time fs = Inr (q', fs') \<and>
    (if fresh = {} then q' = q \<and> fs' = fs
     else q_inputs q' = q_inputs q @ [QueueItem_new (current_id q) (flat t) fresh bits er time] \<and>
       q_processed q' = q_processed q \<and> dom (bit_to_inputs q') = dom (bit_to_inputs q) \<union> set_bits bits \<and>
       fs_files fs' = (fs_files fs)(p \<mapsto> dyield (rules ctx) t))"
proof (cases "fresh = {}")
  case True
  then show ?thesis by (auto simp: Add_def all_known_iff assms(5))
next
  case False
  then have "\<not> set_bits bits \<subseteq> dom (bit_to_inputs q)" by (auto simp: assms(5))
  moreover have "UnparseTo (Tree_GetRuleOrCustom (flat t)) ctx [] = Some (Inr (dyield (rules ctx) t, dsize t))"
    using Unparse_flat [OF assms(1,2), of 0 "[]"] by (simp add: UnparseTo_def)
  ultimately show ?thesis
    using False assms(3-5) by (simp add: Add_def all_known_iff enter_bits_all save_file_eq writable_all_def dom_entered)
qed

theorem Add_behaviour_witness:
  "\<exists>q' fs'. Add demo_queue (flat demo_tree) [4, 1] FAULT_NONE demo_ctx 9 demo_fs = Inr (q', fs') \<and>
     dom (bit_to_inputs q') = {0, 1, 3} \<and> length (q_inputs q') = 2"
proof -
  have d: "set_bits [4, 1] = {0, 1}"
    by (simp add: set_bits_filter upt_rec)
  have b: "dom (bit_to_inputs demo_queue) = {1, 3}"
    by (auto simp: demo_queue_def)
  have f: "set_bits [4, 1] - dom (bit_to_inputs demo_queue) \<noteq> {}"
    by (auto simp: d b)
  show ?thesis
    using Add_behaviour [OF demo_rules_wf demo_tree_derives demo_fs_writable refl refl, of demo_queue "[4, 1]" FAULT_NONE 9]
    unfolding if_not_P [OF f] by (fastforce simp: d b demo_queue_def)
qed

end
