(* ===== verification/Nautilus_State.thy ===== *)
theory Nautilus_State
  imports Nautilus_Queue
begin

text \<open>
  The state of the Nautilus fuzzer and its operations (\<open>algorithms/nautilus/fuzzer/state.cpp\<close>, \<open>state.hpp\<close>),
  and the routines of its fuzzing loop (\<open>mutation_hierarflow_routines.cpp\<close>,
  \<open>other_hierarflow_routines.cpp\<close>), composed in the order of \<open>BuildFuzzFlow\<close> in \<open>fuzzer.cpp\<close>.
\<close>

unbundle bit_operations_syntax

section \<open>The executor\<close>

text \<open>
  The executor runs the program under test; it and the clock are outside of the model. An environment
  gives what the fuzzer observes of an executor state: \<open>Run\<close>, the coverage bitmap of \<open>GetAFLFeedback\<close>,
  \<open>GetExitStatusFeedback\<close>, the measured time of the last run, the formatted date, and the floating-point
  update of the average speed.
\<close>

record 'e Env =
  env_run :: "string \<Rightarrow> nat \<Rightarrow> 'e \<Rightarrow> 'e"
  env_bitmap :: "'e \<Rightarrow> bitmap"
  env_exit :: "'e \<Rightarrow> PUTExitReasonType \<times> nat"
  env_elapsed :: "'e \<Rightarrow> nat"
  env_date :: "'e \<Rightarrow> string"
  env_average :: "nat \<Rightarrow> nat \<Rightarrow> nat"

section \<open>State\<close>

datatype ExecutionReason = ER_Havoc | ER_HavocRec | ER_Min | ER_MinRec | ER_Splice | ER_Det | ER_Gen

record NautilusSetting =
  path_to_workdir :: string
  exec_timeout_ms :: nat
  number_of_generate_inputs :: nat
  number_of_deterministic_mutations :: nat
  max_tree_size :: nat
  bitmap_size :: nat

text \<open>
  \<open>bitmaps\<close> is the map from \<open>is_crash\<close> to the shared bitmaps, \<open>bits_found_by\<close> the seven counters of that
  name. The random engine and the file system, global in the source, are components here. The
  \<open>asan\<close> counters and strings are never updated and left out.
\<close>

record 'e NautilusState =
  st_setting :: NautilusSetting
  st_exec :: 'e
  st_ctx :: Context
  st_cks :: ChunkStore
  st_pad :: Tree
  st_queue :: Queue
  bitmaps :: "bool \<Rightarrow> bitmap"
  execution_count :: nat
  average_executions_per_sec :: nat
  bits_found_by :: "ExecutionReason \<Rightarrow> nat"
  last_found_sig :: string
  last_timeout :: string
  total_found_sig :: nat
  total_found_hang :: nat
  cycles_done :: nat
  last_tried_inputs :: "string set"
  last_inputs_ring_buffer :: "string list"
  st_fs :: FS
  st_rng :: rng

definition NautilusState_new :: "NautilusSetting \<Rightarrow> 'e \<Rightarrow> FS \<Rightarrow> rng \<Rightarrow> 'e NautilusState" where
  "NautilusState_new s e fs rs =
     \<lparr>st_setting = s, st_exec = e, st_ctx = empty_context, st_cks = ChunkStore_new (path_to_workdir s),
      st_pad = \<lparr>tree_rules = [], tree_sizes = [], tree_paren = []\<rparr>, st_queue = Queue_new (path_to_workdir s),
      bitmaps = (\<lambda>_. replicate (bitmap_size s) 0), execution_count = 0, average_executions_per_sec = 0,
      bits_found_by = (\<lambda>_. 0), last_found_sig = ''Not found yet.'', last_timeout = ''No timeout yet.'',
      total_found_sig = 0, total_found_hang = 0, cycles_done = 0, last_tried_inputs = {},
      last_inputs_ring_buffer = [], st_fs = fs, st_rng = rs\<rparr>"

text \<open>The two subclasses of \<open>TreeLike\<close> with their virtual functions.\<close>

datatype TreeLike = LTree Tree | LMut TreeMutation

fun like_get :: "TreeLike \<Rightarrow> NodeID \<Rightarrow> RuleIDOrCustom result" where
  "like_get (LTree T) = Tree_GetRuleOrCustom T"
| "like_get (LMut M) = GetAt M"

fun like_ToTree :: "TreeLike \<Rightarrow> Context \<Rightarrow> Tree result" where
  "like_ToTree (LTree T) ctx = Inr (Tree_ToTree T)"
| "like_ToTree (LMut M) ctx = Mut_ToTree M ctx"

section \<open>Running the target\<close>

text \<open>
  \<open>ExecRaw\<close>; the condition \<open>u32 tmout = setting->exec_timeout_ms == 0\<close> assigns the result of the comparison,
  and \<open>Run\<close> without a third argument has the timeout 0.
\<close>

definition ExecRaw :: "'e Env \<Rightarrow> 'e NautilusState \<Rightarrow> string \<Rightarrow> nat \<times> 'e NautilusState" where
  "ExecRaw env st code =
     (let tmout = (if exec_timeout_ms (st_setting st) = 0 then 1 else 0);
          e = (if tmout \<noteq> 0 then env_run env code 0 (st_exec st) else env_run env code tmout (st_exec st));
          time = env_elapsed env e
      in (time, st\<lparr>execution_count := Suc (execution_count st), st_exec := e,
                   average_executions_per_sec := env_average env (average_executions_per_sec st) time\<rparr>))"

text \<open>One of the five further runs of \<open>CheckForDeterministicBehavior\<close>, and all of them.\<close>

definition retain_bits :: "bitmap \<Rightarrow> nat list \<Rightarrow> nat list result" where
  "retain_bits bm bits =
     (if \<exists>b \<in> set bits. length bm \<le> b then Inl Undefined else Inr (filter (\<lambda>b. bm ! b \<noteq> 0) bits))"

fun check_runs :: "nat \<Rightarrow> 'e Env \<Rightarrow> 'e NautilusState \<Rightarrow> nat list \<Rightarrow> string \<Rightarrow> (nat list \<times> 'e NautilusState) result" where
  "check_runs 0 env st bits code = Inr (bits, st)"
| "check_runs (Suc n) env st bits code =
     (case ExecRaw env st code of (_, st1) \<Rightarrow>
        bindR (retain_bits (env_bitmap env (st_exec st1)) bits) (\<lambda>bits'. check_runs n env st1 bits' code))"

definition CheckForDeterministicBehavior ::
  "'e Env \<Rightarrow> 'e NautilusState \<Rightarrow> nat list \<Rightarrow> string \<Rightarrow> (nat list \<times> 'e NautilusState) result" where
  "CheckForDeterministicBehavior env st new_bits code = check_runs 5 env st new_bits code"

text \<open>The search for new bits in \<open>RunOn\<close>: \<open>shared.at(i)\<close> is checked, and found bits are entered.\<close>

fun scan_bits :: "bitmap \<Rightarrow> nat list \<Rightarrow> bitmap \<Rightarrow> nat list \<Rightarrow> (bitmap \<times> nat list) result" where
  "scan_bits old [] shared new = Inr (shared, new)"
| "scan_bits old (i # is) shared new =
     (if old ! i \<noteq> 0 then
        bindR (at_vec shared i) (\<lambda>v.
          if v = 0 then scan_bits old is (shared[i := shared ! i OR old ! i]) (new @ [i])
          else scan_bits old is shared new)
      else scan_bits old is shared new)"

text \<open>Saving a test case to a file named after the execution count.\<close>

definition save_case :: "string \<Rightarrow> TreeLike \<Rightarrow> Context \<Rightarrow> 'e NautilusState \<Rightarrow> 'e NautilusState result" where
  "save_case name like ctx st =
     bindR (ran (UnparseTo (like_get like) ctx [])) (\<lambda>(buffer, _).
     bindR (save_file (path_to_workdir (st_setting st) @ name @ decimal9 (execution_count st)) buffer (st_fs st)) (\<lambda>fs'.
       Inr (st\<lparr>st_fs := fs'\<rparr>)))"

text \<open>The \<open>switch\<close> over the exit reason at the end of \<open>RunOn\<close>.\<close>

definition account_exit ::
  "'e Env \<Rightarrow> PUTExitReasonType \<Rightarrow> nat \<Rightarrow> nat list \<Rightarrow> TreeLike \<Rightarrow> ExecutionReason \<Rightarrow> Context \<Rightarrow> 'e NautilusState \<Rightarrow> 'e NautilusState result" where
  "account_exit env er signal new_bits like reason ctx st =
     (case er of
        FAULT_NONE \<Rightarrow>
          if length new_bits = 0 then Inr st
          else Inr (st\<lparr>bits_found_by := (bits_found_by st)(reason := Suc (bits_found_by st reason))\<rparr>)
      | FAULT_TMOUT \<Rightarrow>
          save_case ''/timeout/'' like ctx
            (st\<lparr>last_timeout := env_date env (st_exec st), total_found_hang := Suc (total_found_hang st)\<rparr>)
      | FAULT_CRASH \<Rightarrow>
          if length new_bits = 0 then Inr st
          else save_case (''/signaled/'' @ decimal signal @ ''_'') like ctx
            (st\<lparr>total_found_sig := Suc (total_found_sig st), last_found_sig := env_date env (st_exec st)\<rparr>)
      | _ \<Rightarrow> Inr st)"

text \<open>The check of new bits and the entry into the queue in the middle of \<open>RunOn\<close>.\<close>

definition enqueue_new ::
  "'e Env \<Rightarrow> 'e NautilusState \<Rightarrow> string \<Rightarrow> TreeLike \<Rightarrow> Context \<Rightarrow> PUTExitReasonType \<Rightarrow> bitmap \<Rightarrow> nat \<Rightarrow> nat list \<Rightarrow>
     (nat list \<times> 'e NautilusState) result" where
  "enqueue_new env st code like ctx er old_bitmap time new_bits =
     (if length new_bits \<noteq> 0 \<and> er \<noteq> FAULT_CRASH then
        bindR (CheckForDeterministicBehavior env st new_bits code) (\<lambda>(new_bits', st1).
          if length new_bits' \<noteq> 0 then
            bindR (like_ToTree like ctx) (\<lambda>tree.
            bindR (Add (st_queue st1) tree old_bitmap er ctx time (st_fs st1)) (\<lambda>(q, fs).
              Inr (new_bits', st1\<lparr>st_queue := q, st_fs := fs\<rparr>)))
          else Inr (new_bits', st1))
      else Inr (new_bits, st))"

definition RunOn ::
  "'e Env \<Rightarrow> 'e NautilusState \<Rightarrow> string \<Rightarrow> TreeLike \<Rightarrow> ExecutionReason \<Rightarrow> Context \<Rightarrow> 'e NautilusState result" where
  "RunOn env st code like reason ctx =
     (case ExecRaw env st code of (time, st1) \<Rightarrow>
      case env_exit env (st_exec st1) of (er, signal) \<Rightarrow>
      let old_bitmap = env_bitmap env (st_exec st1);
          is_crash = (er = FAULT_CRASH)
      in bindR (scan_bits old_bitmap [0..<length old_bitmap] (bitmaps st1 is_crash) []) (\<lambda>(shared, new_bits).
         bindR (enqueue_new env (st1\<lparr>bitmaps := (bitmaps st1)(is_crash := shared)\<rparr>) code like ctx er old_bitmap time new_bits)
           (\<lambda>(new_bits', st2). account_exit env er signal new_bits' like reason ctx st2)))"

definition RunOnWithoutDedup ::
  "'e Env \<Rightarrow> 'e NautilusState \<Rightarrow> TreeLike \<Rightarrow> ExecutionReason \<Rightarrow> Context \<Rightarrow> 'e NautilusState result" where
  "RunOnWithoutDedup env st like reason ctx =
     bindR (ran (UnparseToVec (like_get like) ctx)) (\<lambda>code. RunOn env st code like reason ctx)"

definition RunOnWithDedup ::
  "'e Env \<Rightarrow> 'e NautilusState \<Rightarrow> TreeLike \<Rightarrow> ExecutionReason \<Rightarrow> Context \<Rightarrow> (bool \<times> 'e NautilusState) result" where
  "RunOnWithDedup env st like reason ctx =
     bindR (ran (UnparseToVec (like_get like) ctx)) (\<lambda>code.
       if code \<in> last_tried_inputs st then Inr (False, st)
       else
         let st1 = st\<lparr>last_tried_inputs := insert code (last_tried_inputs st)\<rparr>;
             st2 = (if length (last_inputs_ring_buffer st1) = 10000 then
                      st1\<lparr>last_tried_inputs := last_tried_inputs st1 - {last (last_inputs_ring_buffer st1)},
                          last_inputs_ring_buffer := code # butlast (last_inputs_ring_buffer st1)\<rparr>
                    else st1)
         in bindR (RunOn env st2 code like reason ctx) (\<lambda>st3. Inr (True, st3)))"

definition HasBits ::
  "'e Env \<Rightarrow> 'e NautilusState \<Rightarrow> TreeLike \<Rightarrow> nat set \<Rightarrow> ExecutionReason \<Rightarrow> Context \<Rightarrow> (bool \<times> 'e NautilusState) result" where
  "HasBits env st like bits reason ctx =
     bindR (RunOnWithoutDedup env st like reason ctx) (\<lambda>st'.
       let run_bitmap = env_bitmap env (st_exec st') in
       if \<exists>b \<in> bits. length run_bitmap \<le> b then Inl AssertFail
       else Inr (\<forall>b \<in> bits. run_bitmap ! b \<noteq> 0, st'))"

section \<open>Minimisation and deterministic mutation\<close>

definition tester_min :: "'e Env \<Rightarrow> ExecutionReason \<Rightarrow> 'e NautilusState FTester" where
  "tester_min env reason M bits ctx st = HasBits env st (LMut M) bits reason ctx"

definition Minimize :: "'e Env \<Rightarrow> 'e NautilusState \<Rightarrow> QueueItem \<Rightarrow> nat \<Rightarrow> nat \<Rightarrow> (bool \<times> QueueItem \<times> 'e NautilusState) result" where
  "Minimize env st input start_index end_index =
     bindR (ran (MinimizeTree (item_tree input) (fresh_bits input) (st_ctx st) start_index end_index
               (tester_min env ER_Min) (st_pad st) (st_rng st) st)) (\<lambda>(min_simple, tree1, pad1, rs1, st1).
     bindR (ran (MinimizeRec tree1 (fresh_bits input) (st_ctx st) start_index end_index
               (tester_min env ER_MinRec) (st1\<lparr>st_pad := pad1, st_rng := rs1\<rparr>))) (\<lambda>(min_rec, tree2, st2).
       let input1 = input\<lparr>item_tree := tree2\<rparr> in
       if min_simple \<and> min_rec then
         bindR (AddTree (st_cks st2) tree2 (st_ctx st2) (st_fs st2)) (\<lambda>(cks, fs1).
         bindR (CalcRecursions tree2 (st_ctx st2)) (\<lambda>recs.
         bindR (ran (UnparseTo (Tree_GetRuleOrCustom tree2) (st_ctx st2) [])) (\<lambda>(buffer, _).
         bindR (save_file (path_to_workdir (st_setting st2) @ ''/queue/id:'' @ decimal9 (item_id input) @ '',er:'' @
                  decimal (exit_code (exit_reason input)) @ ''.min'') buffer fs1) (\<lambda>fs2.
           Inr (True, input1\<lparr>recursions := recs\<rparr>, st2\<lparr>st_cks := cks, st_fs := fs2\<rparr>)))))
       else Inr (False, input1, st2)))"

definition run_tester :: "'e Env \<Rightarrow> ExecutionReason \<Rightarrow> 'e NautilusState FTesterMut" where
  "run_tester env reason M ctx st = bindR (RunOnWithDedup env st (LMut M) reason ctx) (\<lambda>(_, st'). Inr st')"

definition DeterministicTreeMutation ::
  "'e Env \<Rightarrow> 'e NautilusState \<Rightarrow> QueueItem \<Rightarrow> nat \<Rightarrow> nat \<Rightarrow> (bool \<times> 'e NautilusState) result" where
  "DeterministicTreeMutation env st input start_index end_index =
     bindR (MutRules (item_tree input) (st_ctx st) start_index end_index (run_tester env ER_Det) (st_pad st) (st_rng st) st)
       (\<lambda>(done, pad, rs, st'). Inr (done, st'\<lparr>st_pad := pad, st_rng := rs\<rparr>))"

section \<open>The routines of the fuzzing loop\<close>

definition InitializeState :: "'e Env \<Rightarrow> 'e NautilusState \<Rightarrow> QueueItem \<Rightarrow> (QueueItem \<times> 'e NautilusState) result" where
  "InitializeState env st inp =
     (case item_state inp of
        InitState start_index \<Rightarrow>
          let end_index = start_index + 200 in
          bindR (Minimize env st inp start_index end_index) (\<lambda>(complete, inp', st').
            Inr (inp'\<lparr>item_state := (if complete then DetState 0 0 else InitState end_index)\<rparr>, st'))
      | _ \<Rightarrow> Inl AssertFail)"

definition MutRules_routine :: "'e Env \<Rightarrow> 'e NautilusState \<Rightarrow> QueueItem \<Rightarrow> (QueueItem \<times> 'e NautilusState) result" where
  "MutRules_routine env st inp =
     (case item_state inp of
        DetState cycle start_index \<Rightarrow>
          let end_index = start_index + 1 in
          bindR (DeterministicTreeMutation env st inp start_index end_index) (\<lambda>(done, st').
            Inr (inp\<lparr>item_state :=
                   (if done then
                      (if cycle = number_of_deterministic_mutations (st_setting st') then RandomState
                       else DetState (cycle + 1) 0)
                    else DetState cycle end_index)\<rparr>, st'))
      | _ \<Rightarrow> Inl Undefined)"

fun repeatR :: "nat \<Rightarrow> ('s \<Rightarrow> 's result) \<Rightarrow> 's \<Rightarrow> 's result" where
  "repeatR 0 f s = Inr s"
| "repeatR (Suc n) f s = bindR (f s) (repeatR n f)"

definition MutSplice_routine :: "'e Env \<Rightarrow> 'e NautilusState \<Rightarrow> QueueItem \<Rightarrow> 'e NautilusState result" where
  "MutSplice_routine env st inp =
     repeatR 100 (\<lambda>st. bindR (MutSplice (item_tree inp) (st_ctx st) (st_cks st) (run_tester env ER_Splice) (st_rng st) st)
       (\<lambda>(rs, st'). Inr (st'\<lparr>st_rng := rs\<rparr>))) st"

definition MutHavoc_routine :: "'e Env \<Rightarrow> 'e NautilusState \<Rightarrow> QueueItem \<Rightarrow> 'e NautilusState result" where
  "MutHavoc_routine env st inp =
     repeatR 100 (\<lambda>st. bindR (MutRandom (item_tree inp) (st_ctx st) (run_tester env ER_Havoc) (st_pad st) (st_rng st) st)
       (\<lambda>(pad, rs, st'). Inr (st'\<lparr>st_pad := pad, st_rng := rs\<rparr>))) st"

definition MutHavocRec_routine :: "'e Env \<Rightarrow> 'e NautilusState \<Rightarrow> QueueItem \<Rightarrow> 'e NautilusState result" where
  "MutHavocRec_routine env st inp =
     (case recursions inp of
        None \<Rightarrow> Inr st
      | Some Rs \<Rightarrow>
          repeatR 20 (\<lambda>st. bindR (MutRandomRecursion (item_tree inp) Rs (st_ctx st) (run_tester env ER_HavocRec) (st_rng st) st)
            (\<lambda>(rs, st'). Inr (st'\<lparr>st_rng := rs\<rparr>))) st)"

text \<open>\<open>splice || havoc || havoc_rec\<close>, the common tail of both mutation flows.\<close>

definition random_flow :: "'e Env \<Rightarrow> 'e NautilusState \<Rightarrow> QueueItem \<Rightarrow> 'e NautilusState result" where
  "random_flow env st inp =
     bindR (MutSplice_routine env st inp) (\<lambda>st1.
     bindR (MutHavoc_routine env st1 inp) (\<lambda>st2. MutHavocRec_routine env st2 inp))"

definition ApplyDetMuts :: "'e Env \<Rightarrow> 'e NautilusState \<Rightarrow> QueueItem \<Rightarrow> (QueueItem \<times> 'e NautilusState) result" where
  "ApplyDetMuts env st inp =
     (case item_state inp of
        DetState _ _ \<Rightarrow> bindR (MutRules_routine env st inp) (\<lambda>(inp', st1).
          bindR (random_flow env st1 inp') (\<lambda>st2. Inr (inp', st2)))
      | _ \<Rightarrow> Inl AssertFail)"

definition ApplyRandMuts :: "'e Env \<Rightarrow> 'e NautilusState \<Rightarrow> QueueItem \<Rightarrow> (QueueItem \<times> 'e NautilusState) result" where
  "ApplyRandMuts env st inp =
     (case item_state inp of
        RandomState \<Rightarrow> bindR (random_flow env st inp) (\<lambda>st'. Inr (inp, st'))
      | _ \<Rightarrow> Inl AssertFail)"

definition ProcessInput :: "'e Env \<Rightarrow> 'e NautilusState \<Rightarrow> QueueItem \<Rightarrow> 'e NautilusState result" where
  "ProcessInput env st inp =
     bindR (case item_state inp of
              InitState _ \<Rightarrow> InitializeState env st inp
            | DetState _ _ \<Rightarrow> ApplyDetMuts env st inp
            | RandomState \<Rightarrow> ApplyRandMuts env st inp)
       (\<lambda>(inp', st1). case Finished (st_queue st1) inp' (st_fs st1) of
          (q, fs) \<Rightarrow> Inr (st1\<lparr>st_queue := q, st_fs := fs\<rparr>))"

definition generate_one :: "'e Env \<Rightarrow> 'e NautilusState \<Rightarrow> 'e NautilusState result" where
  "generate_one env st =
     bindR (NTID (st_ctx st) ''START'') (\<lambda>nonterm.
     bindR (GenerateTreeFromNT (st_ctx st) nonterm (GetRandomLenForNT (st_ctx st) nonterm) (st_rng st)) (\<lambda>(tree, rs).
     bindR (RunOnWithDedup env (st\<lparr>st_rng := rs\<rparr>) (LTree tree) ER_Gen (st_ctx st)) (\<lambda>(_, st'). Inr st')))"

definition GenerateInput :: "'e Env \<Rightarrow> 'e NautilusState \<Rightarrow> 'e NautilusState result" where
  "GenerateInput env st =
     bindR (repeatR (number_of_generate_inputs (st_setting st)) (generate_one env) st) (\<lambda>st'.
       Inr (st'\<lparr>st_queue := NewRound (st_queue st')\<rparr>))"

definition SelectInput :: "'e Env \<Rightarrow> 'e NautilusState \<Rightarrow> 'e NautilusState result" where
  "SelectInput env st =
     (if IsEmpty (st_queue st) then GenerateInput env st
      else bindR (Pop (st_queue st)) (\<lambda>(inp, q). ProcessInput env (st\<lparr>st_queue := q\<rparr>) inp))"

text \<open>\<open>FuzzLoop\<close>, and with it \<open>NautilusFuzzer::OneLoop\<close>; \<open>update_state\<close> only draws the screen.\<close>

definition FuzzLoop :: "'e Env \<Rightarrow> 'e NautilusState \<Rightarrow> 'e NautilusState result" where
  "FuzzLoop env st = bindR (SelectInput env st) (\<lambda>st'. Inr (st'\<lparr>cycles_done := Suc (cycles_done st')\<rparr>))"

end
