(* ===== verification/Nautilus_Loop_Props.thy ===== *)
theory Nautilus_Loop_Props
  imports Nautilus_State
begin

text \<open>
  The fuzzing loop of Nautilus keeps its invariant: it never fails, the program under test only ever sees
  texts of the grammar's language, and every test case in the queue is a derivation tree whose text was
  observed to trigger its fresh bits, also after minimisation.
\<close>

section \<open>The invariant\<close>

definition lang :: "Context \<Rightarrow> NTermID \<Rightarrow> string set" where
  "lang ctx m = {dyield (rules ctx) t |t. derives (rules ctx) m t}"

text \<open>A grammar that \<open>Initialize\<close> accepted, with a start symbol and a length limit that admits every rule.\<close>

definition grammar_ok :: "Context \<Rightarrow> NTermID \<Rightarrow> bool" where
  "grammar_ok ctx m \<longleftrightarrow>
     ready ctx \<and> roomy ctx \<and> NTID ctx ''START'' = Inr m \<and> (\<exists>r < length (rules ctx). nonterm (rules ctx ! r) = m)"

text \<open>
  What is required of the executor: bitmaps have the configured size, and \<open>J\<close> is any property of its
  state that running a text of the language keeps.
\<close>

definition env_ok :: "'e Env \<Rightarrow> ('e \<Rightarrow> bool) \<Rightarrow> nat \<Rightarrow> string set \<Rightarrow> bool" where
  "env_ok env J bs L \<longleftrightarrow>
     (\<forall>e. length (env_bitmap env e) = bs) \<and> (\<forall>e code tmout. J e \<longrightarrow> code \<in> L \<longrightarrow> J (env_run env code tmout e))"

text \<open>Some run of the text triggered all of the bits.\<close>

definition observed :: "'e Env \<Rightarrow> string \<Rightarrow> nat set \<Rightarrow> bool" where
  "observed env code bits \<longleftrightarrow> (\<exists>e. bits \<subseteq> set_bits (env_bitmap env (env_run env code 0 e)))"

definition item_ok :: "'e Env \<Rightarrow> nat \<Rightarrow> Context \<Rightarrow> NTermID \<Rightarrow> QueueItem \<Rightarrow> bool" where
  "item_ok env bs ctx m x \<longleftrightarrow>
     (\<exists>t. derives (rules ctx) m t \<and> item_tree x = flat t \<and> fresh_bits x \<subseteq> {..<bs} \<and>
        observed env (dyield (rules ctx) t) (fresh_bits x) \<and>
        (\<forall>Rs. recursions x = Some Rs \<longrightarrow> recursions_ok ctx t Rs) \<and>
        (\<forall>i. item_state x = InitState i \<longrightarrow> recursions x = None) \<and>
        (\<forall>c i. item_state x = DetState c i \<longrightarrow> i \<le> dsize t))"

definition st_inv :: "'e Env \<Rightarrow> ('e \<Rightarrow> bool) \<Rightarrow> nat \<Rightarrow> Context \<Rightarrow> NTermID \<Rightarrow> 'e NautilusState \<Rightarrow> bool" where
  "st_inv env J bs ctx m st \<longleftrightarrow>
     st_ctx st = ctx \<and> grammar_ok ctx m \<and> env_ok env J bs (lang ctx m) \<and>
     (\<forall>b. length (bitmaps st b) = bs) \<and> store_wf ctx (st_cks st) \<and>
     (\<forall>x \<in> set (q_items (st_queue st)). item_ok env bs ctx m x) \<and> writable_all (st_fs st) \<and> J (st_exec st)"

lemma st_inv_update [simp]:
  "st_inv env J bs ctx m (st\<lparr>st_pad := p\<rparr>) = st_inv env J bs ctx m st"
  "st_inv env J bs ctx m (st\<lparr>st_rng := rs\<rparr>) = st_inv env J bs ctx m st"
  "st_inv env J bs ctx m (st\<lparr>cycles_done := k\<rparr>) = st_inv env J bs ctx m st"
  "st_inv env J bs ctx m (st\<lparr>last_tried_inputs := X\<rparr>) = st_inv env J bs ctx m st"
  "st_inv env J bs ctx m (st\<lparr>last_inputs_ring_buffer := r\<rparr>) = st_inv env J bs ctx m st"
  "st_inv env J bs ctx m (st\<lparr>bits_found_by := f\<rparr>) = st_inv env J bs ctx m st"
  "st_inv env J bs ctx m (st\<lparr>last_timeout := s\<rparr>) = st_inv env J bs ctx m st"
  "st_inv env J bs ctx m (st\<lparr>last_found_sig := s\<rparr>) = st_inv env J bs ctx m st"
  "st_inv env J bs ctx m (st\<lparr>total_found_hang := k\<rparr>) = st_inv env J bs ctx m st"
  "st_inv env J bs ctx m (st\<lparr>total_found_sig := k\<rparr>) = st_inv env J bs ctx m st"
  by (simp_all add: st_inv_def)

lemma grammar_ok_wf: "grammar_ok ctx m \<Longrightarrow> \<forall>r \<in> set (rules ctx). rule_wf r"
  by (auto simp: grammar_ok_def ready_def in_set_conv_nth)

lemma st_invD:
  assumes "st_inv env J bs ctx m st"
  shows "st_ctx st = ctx" "grammar_ok ctx m" "ready ctx" "roomy ctx" "\<forall>r \<in> set (rules ctx). rule_wf r"
    "store_wf ctx (st_cks st)" "writable_all (st_fs st)" "\<And>e. length (env_bitmap env e) = bs"
  using assms grammar_ok_wf by (auto simp: st_inv_def grammar_ok_def env_ok_def)

section \<open>Tree-like objects that are derivations\<close>

fun like_derives :: "Context \<Rightarrow> NTermID \<Rightarrow> TreeLike \<Rightarrow> dtree \<Rightarrow> bool" where
  "like_derives ctx m (LTree T) t \<longleftrightarrow> derives (rules ctx) m t \<and> T = flat t"
| "like_derives ctx m (LMut M) t \<longleftrightarrow> derives (rules ctx) m t \<and> mut_rules M = preorder t"

lemma like_derivesD: "like_derives ctx m like t \<Longrightarrow> derives (rules ctx) m t"
  by (cases like) auto

lemma like_UnparseTo:
  assumes "\<forall>r \<in> set (rules ctx). rule_wf r" and "like_derives ctx m like t"
  shows "UnparseTo (like_get like) ctx [] = Some (Inr (dyield (rules ctx) t, dsize t))"
proof (cases like)
  case (LTree T)
  then show ?thesis
    using assms(2) Unparse_flat [OF assms(1), of m t 0 "[]"] by (auto simp: UnparseTo_def)
next
  case (LMut M)
  then have d: "derives (rules ctx) m t" and r: "mut_prefix M @ mut_repl M @ mut_postfix M = preorder t"
    using assms(2) by (auto simp: mut_rules_def)
  have "ml.at_rules M 0 (preorder t)"
    by (simp add: ml.at_rules_def Mut_Size_def flip: r)
  then show ?thesis
    using ml.Unparse_yield [OF assms(1) d, of M 0 "[]"] LMut by (simp add: UnparseTo_def)
qed

lemma like_UnparseToVec:
  "\<forall>r \<in> set (rules ctx). rule_wf r \<Longrightarrow> like_derives ctx m like t \<Longrightarrow>
     UnparseToVec (like_get like) ctx = Some (Inr (dyield (rules ctx) t))"
  using like_UnparseTo [of ctx m like t] by (simp add: UnparseTo_def UnparseToVec_def UnparseNodeToVec_def)

lemma like_ToTree_ok: "like_derives ctx m like t \<Longrightarrow> like_ToTree like ctx = Inr (flat t)"
  by (cases like) (auto simp: Tree_ToTree_def mut_rules_def Mut_ToTree_def Tree_new_flat)

section \<open>Running the target\<close>

definition ran_last :: "'e Env \<Rightarrow> string \<Rightarrow> 'e NautilusState \<Rightarrow> bool" where
  "ran_last env code st \<longleftrightarrow> (\<exists>e. st_exec st = env_run env code 0 e)"

lemma ExecRaw_inv:
  assumes "st_inv env J bs ctx m st" and "code \<in> lang ctx m" and "ExecRaw env st code = (time, st')"
  shows "st_inv env J bs ctx m st' \<and> ran_last env code st'"
  using assms by (auto simp: ExecRaw_def Let_def st_inv_def env_ok_def ran_last_def split: if_splits)

lemma check_runs_inv:
  "st_inv env J bs ctx m st \<Longrightarrow> code \<in> lang ctx m \<Longrightarrow> ran_last env code st \<Longrightarrow> set bits \<subseteq> {..<bs} \<Longrightarrow>
     \<exists>bits' st'. check_runs n env st bits code = Inr (bits', st') \<and> st_inv env J bs ctx m st' \<and> ran_last env code st'"
proof (induction n arbitrary: st bits)
  case (Suc n)
  obtain time st1 where e: "ExecRaw env st code = (time, st1)" by fastforce
  have 1: "st_inv env J bs ctx m st1" "ran_last env code st1"
    using ExecRaw_inv [OF Suc.prems(1,2) e] by auto
  have "retain_bits (env_bitmap env (st_exec st1)) bits = Inr (filter (\<lambda>b. env_bitmap env (st_exec st1) ! b \<noteq> 0) bits)"
    using Suc.prems(4) st_invD(8) [OF 1(1)] by (auto simp: retain_bits_def not_le)
  then show ?case
    using Suc.IH [OF 1(1) Suc.prems(2) 1(2), of "filter (\<lambda>b. env_bitmap env (st_exec st1) ! b \<noteq> 0) bits"] Suc.prems(4) e
    by auto
qed auto

lemma scan_bits_result:
  "\<forall>i \<in> set is. i < length shared \<Longrightarrow> distinct is \<Longrightarrow>
     \<exists>shared'. scan_bits old is shared new = Inr (shared', new @ filter (\<lambda>i. old ! i \<noteq> 0 \<and> shared ! i = 0) is) \<and>
       length shared' = length shared \<and>
       (\<forall>i < length shared. shared' ! i = (if i \<in> set is \<and> shared ! i = 0 then old ! i else shared ! i))"
proof (induction "is" arbitrary: shared new)
  case (Cons i "is")
  have i: "i < length shared" using Cons.prems(1) by simp
  show ?case
  proof (cases "old ! i \<noteq> 0 \<and> shared ! i = 0")
    case True
    let ?s = "shared[i := old ! i]"
    have f: "filter (\<lambda>j. old ! j \<noteq> 0 \<and> ?s ! j = 0) is = filter (\<lambda>j. old ! j \<noteq> 0 \<and> shared ! j = 0) is"
    proof (intro filter_cong refl)
      fix j assume "j \<in> set is"
      then have "j \<noteq> i" using Cons.prems(2) by auto
      then show "(old ! j \<noteq> 0 \<and> ?s ! j = 0) = (old ! j \<noteq> 0 \<and> shared ! j = 0)" by simp
    qed
    obtain s' where "scan_bits old is ?s (new @ [i]) = Inr (s', (new @ [i]) @ filter (\<lambda>j. old ! j \<noteq> 0 \<and> ?s ! j = 0) is)"
      "length s' = length shared" "\<forall>j < length shared. s' ! j = (if j \<in> set is \<and> ?s ! j = 0 then old ! j else ?s ! j)"
      using Cons.IH [of ?s "new @ [i]"] Cons.prems by auto
    then show ?thesis
      using True i Cons.prems(2) unfolding f by (auto simp: nth_list_update)
  next
    case False
    then show ?thesis
      using Cons.IH [of shared new] Cons.prems i by auto
  qed
qed simp

lemma Add_ok:
  assumes wf: "\<forall>r \<in> set (rules ctx). rule_wf r" and t: "derives (rules ctx) m t" and w: "writable_all fs"
  shows "\<exists>q' fs'. Add q (flat t) bits er ctx time fs = Inr (q', fs') \<and> writable_all fs' \<and>
    set (q_items q') \<subseteq> insert (QueueItem_new (current_id q) (flat t) (set_bits bits - dom (bit_to_inputs q)) bits er time) (set (q_items q))"
proof -
  have u: "UnparseTo (Tree_GetRuleOrCustom (flat t)) ctx [] = Some (Inr (dyield (rules ctx) t, dsize t))"
    using Unparse_flat [OF wf t, of 0 "[]"] by (simp add: UnparseTo_def)
  obtain fs' where "save_file (queue_path q (current_id q) er) (dyield (rules ctx) t) fs = Inr fs'" "writable_all fs'"
    using save_file_ok [OF w] by blast
  then show ?thesis
    using u w by (auto simp: Add_def enter_bits_all q_items_def)
qed

lemma save_case_inv:
  assumes "st_inv env J bs ctx m st" and "like_derives ctx m like t"
  shows "\<exists>st'. save_case name like ctx st = Inr st' \<and> st_inv env J bs ctx m st' \<and> st_exec st' = st_exec st"
proof -
  note i = st_invD [OF assms(1)]
  obtain fs' where "save_file (path_to_workdir (st_setting st) @ name @ decimal9 (execution_count st)) (dyield (rules ctx) t) (st_fs st) = Inr fs'"
    "writable_all fs'"
    using save_file_ok [OF i(7)] by blast
  then show ?thesis
    using assms(1) like_UnparseTo [OF i(5) assms(2)] by (auto simp: save_case_def st_inv_def)
qed

lemma account_exit_inv:
  assumes "st_inv env J bs ctx m st" and "like_derives ctx m like t"
  shows "\<exists>st'. account_exit env er signal bits like reason ctx st = Inr st' \<and> st_inv env J bs ctx m st' \<and> st_exec st' = st_exec st"
proof (cases er)
  case FAULT_TMOUT
  then show ?thesis
    using save_case_inv [OF _ assms(2), of env J bs "st\<lparr>last_timeout := env_date env (st_exec st), total_found_hang := Suc (total_found_hang st)\<rparr>"] assms(1)
    by (simp add: account_exit_def)
next
  case FAULT_CRASH
  then show ?thesis
    using save_case_inv [OF _ assms(2), of env J bs "st\<lparr>total_found_sig := Suc (total_found_sig st), last_found_sig := env_date env (st_exec st)\<rparr>"] assms(1)
    by (simp add: account_exit_def)
qed (use assms(1) in \<open>simp_all add: account_exit_def\<close>)

text \<open>Entering a test case after a run of its text.\<close>

lemma new_item_ok:
  assumes "derives (rules ctx) m t" and "length bits = bs" and "bits = env_bitmap env (env_run env (dyield (rules ctx) t) 0 e)"
  shows "item_ok env bs ctx m (QueueItem_new ident (flat t) (set_bits bits - D) bits er time)"
proof -
  have "observed env (dyield (rules ctx) t) (set_bits bits - D)"
    unfolding observed_def using assms(3) by blast
  then show ?thesis
    using assms(1,2) unfolding item_ok_def by (intro exI [of _ t]) (auto simp: QueueItem_new_def set_bits_def)
qed

lemma enqueue_inv:
  assumes inv: "st_inv env J bs ctx m st" and like: "like_derives ctx m like t"
    and bm: "length bm = bs" "bm = env_bitmap env (env_run env (dyield (rules ctx) t) 0 e)"
  shows "\<exists>q fs. bindR (like_ToTree like ctx) (\<lambda>tree. Add (st_queue st) tree bm er ctx time (st_fs st)) = Inr (q, fs) \<and>
    st_inv env J bs ctx m (st\<lparr>st_queue := q, st_fs := fs\<rparr>)"
proof -
  note i = st_invD [OF inv] and t = like_derivesD [OF like]
  obtain q fs where q: "Add (st_queue st) (flat t) bm er ctx time (st_fs st) = Inr (q, fs)" "writable_all fs"
    "set (q_items q) \<subseteq> insert (QueueItem_new (current_id (st_queue st)) (flat t) (set_bits bm - dom (bit_to_inputs (st_queue st))) bm er time)
       (set (q_items (st_queue st)))"
    using Add_ok [OF i(5) t i(7)] by blast
  have "\<forall>x \<in> set (q_items q). item_ok env bs ctx m x"
    using q(3) inv new_item_ok [OF t bm] by (auto simp: st_inv_def)
  then show ?thesis
    using q(1,2) inv like_ToTree_ok [OF like] by (simp add: st_inv_def)
qed

lemma enqueue_new_inv:
  assumes inv: "st_inv env J bs ctx m st" and like: "like_derives ctx m like t"
    and last: "ran_last env (dyield (rules ctx) t) st" and new: "set new \<subseteq> {..<bs}"
    and bm: "length bm = bs" "bm = env_bitmap env (env_run env (dyield (rules ctx) t) 0 e)"
  shows "\<exists>bits' st'. enqueue_new env st (dyield (rules ctx) t) like ctx er bm time new = Inr (bits', st') \<and>
    st_inv env J bs ctx m st' \<and> ran_last env (dyield (rules ctx) t) st'"
proof (cases "length new \<noteq> 0 \<and> er \<noteq> FAULT_CRASH")
  case False
  then show ?thesis using inv last by (auto simp: enqueue_new_def)
next
  case True
  let ?code = "dyield (rules ctx) t"
  have L: "?code \<in> lang ctx m" using like_derivesD [OF like] by (auto simp: lang_def)
  obtain bits3 st3 where 3: "check_runs 5 env st new ?code = Inr (bits3, st3)" "st_inv env J bs ctx m st3" "ran_last env ?code st3"
    using check_runs_inv [OF inv L last new, of 5] by blast
  obtain q fs where q: "bindR (like_ToTree like ctx) (\<lambda>tree. Add (st_queue st3) tree bm er ctx time (st_fs st3)) = Inr (q, fs)"
    "st_inv env J bs ctx m (st3\<lparr>st_queue := q, st_fs := fs\<rparr>)"
    using enqueue_inv [OF 3(2) like bm] by blast
  then show ?thesis
    using True 3 like_ToTree_ok [OF like] by (auto simp: enqueue_new_def CheckForDeterministicBehavior_def ran_last_def)
qed

lemma RunOn_inv:
  assumes inv: "st_inv env J bs ctx m st" and like: "like_derives ctx m like t"
  shows "\<exists>st'. RunOn env st (dyield (rules ctx) t) like reason ctx = Inr st' \<and> st_inv env J bs ctx m st' \<and>
    ran_last env (dyield (rules ctx) t) st'"
proof -
  let ?code = "dyield (rules ctx) t"
  have L: "?code \<in> lang ctx m" using like_derivesD [OF like] by (auto simp: lang_def)
  obtain time st1 where e: "ExecRaw env st ?code = (time, st1)" by fastforce
  have 1: "st_inv env J bs ctx m st1" "ran_last env ?code st1"
    using ExecRaw_inv [OF inv L e] by auto
  obtain e0 where e0: "st_exec st1 = env_run env ?code 0 e0" using 1(2) by (auto simp: ran_last_def)
  obtain er signal where x: "env_exit env (st_exec st1) = (er, signal)" by fastforce
  define bm where "bm = env_bitmap env (st_exec st1)"
  have bm: "length bm = bs" "bm = env_bitmap env (env_run env ?code 0 e0)"
    by (simp_all add: bm_def st_invD(8) [OF 1(1)] e0)
  define c where "c = (er = FAULT_CRASH)"
  have lb: "length (bitmaps st1 c) = bs" using 1(1) by (simp add: st_inv_def)
  define new where "new = filter (\<lambda>i. bm ! i \<noteq> 0 \<and> bitmaps st1 c ! i = 0) [0..<length bm]"
  obtain shared where sc: "scan_bits bm [0..<length bm] (bitmaps st1 c) [] = Inr (shared, new)" "length shared = bs"
    using scan_bits_result [of "[0..<length bm]" "bitmaps st1 c" bm "[]"] bm lb by (auto simp: new_def)
  define st2 where "st2 = st1\<lparr>bitmaps := (bitmaps st1)(c := shared)\<rparr>"
  have 2: "st_inv env J bs ctx m st2" "ran_last env ?code st2" "set new \<subseteq> {..<bs}"
    using 1 sc(2) bm(1) by (auto simp: st2_def st_inv_def ran_last_def new_def)
  obtain bits4 st4 where 4: "enqueue_new env st2 ?code like ctx er bm time new = Inr (bits4, st4)"
    "st_inv env J bs ctx m st4" "ran_last env ?code st4"
    using enqueue_new_inv [OF 2(1) like 2(2,3) bm] by blast
  obtain st5 where 5: "account_exit env er signal bits4 like reason ctx st4 = Inr st5" "st_inv env J bs ctx m st5" "st_exec st5 = st_exec st4"
    using account_exit_inv [OF 4(2) like] by blast
  have "RunOn env st ?code like reason ctx = Inr st5"
    using e x sc(1) 4(1) 5(1) by (simp add: RunOn_def bm_def [symmetric] c_def [symmetric] st2_def [symmetric])
  then show ?thesis
    using 5 4(3) by (auto simp: ran_last_def)
qed

lemma RunOnWithDedup_inv:
  assumes inv: "st_inv env J bs ctx m st" and like: "like_derives ctx m like t"
  shows "\<exists>b st'. RunOnWithDedup env st like reason ctx = Inr (b, st') \<and> st_inv env J bs ctx m st'"
proof -
  let ?code = "dyield (rules ctx) t"
  define st1 where "st1 = st\<lparr>last_tried_inputs := insert ?code (last_tried_inputs st)\<rparr>"
  define st2 where "st2 = (if length (last_inputs_ring_buffer st1) = 10000 then
      st1\<lparr>last_tried_inputs := last_tried_inputs st1 - {last (last_inputs_ring_buffer st1)},
          last_inputs_ring_buffer := ?code # butlast (last_inputs_ring_buffer st1)\<rparr>
    else st1)"
  have "st_inv env J bs ctx m st2" using inv by (simp add: st1_def st2_def)
  then obtain st3 where "RunOn env st2 ?code like reason ctx = Inr st3" "st_inv env J bs ctx m st3"
    using RunOn_inv [OF _ like] by blast
  moreover have "RunOnWithDedup env st like reason ctx =
      (if ?code \<in> last_tried_inputs st then Inr (False, st) else bindR (RunOn env st2 ?code like reason ctx) (\<lambda>st3. Inr (True, st3)))"
    using like_UnparseToVec [OF st_invD(5) [OF inv] like] by (simp add: RunOnWithDedup_def st1_def st2_def Let_def)
  ultimately show ?thesis using inv by auto
qed

lemma HasBits_inv:
  assumes inv: "st_inv env J bs ctx m st" and like: "like_derives ctx m like t" and bits: "bits \<subseteq> {..<bs}"
  shows "\<exists>b st'. HasBits env st like bits reason ctx = Inr (b, st') \<and> st_inv env J bs ctx m st' \<and>
    (b \<longrightarrow> observed env (dyield (rules ctx) t) bits)"
proof -
  obtain st1 where 1: "RunOn env st (dyield (rules ctx) t) like reason ctx = Inr st1" "st_inv env J bs ctx m st1"
    "ran_last env (dyield (rules ctx) t) st1"
    using RunOn_inv [OF inv like] by blast
  let ?bm = "env_bitmap env (st_exec st1)"
  have len: "length ?bm = bs" by (rule st_invD(8) [OF inv])
  have "HasBits env st like bits reason ctx = Inr (\<forall>b \<in> bits. ?bm ! b \<noteq> 0, st1)"
    using like_UnparseToVec [OF st_invD(5) [OF inv] like] 1(1) bits len
    by (auto simp: HasBits_def RunOnWithoutDedup_def Let_def subset_iff not_le)
  moreover have "observed env (dyield (rules ctx) t) bits" if "\<forall>b \<in> bits. ?bm ! b \<noteq> 0"
  proof -
    have "bits \<subseteq> set_bits ?bm" using that bits len by (auto simp: set_bits_def)
    then show ?thesis using 1(3) unfolding observed_def ran_last_def by metis
  qed
  ultimately show ?thesis using 1(2) by auto
qed

section \<open>The testers meet their contracts\<close>

interpretation run: mut_tester "run_tester env reason" "st_inv env J bs" for env reason J bs
proof
  fix ctx m s M
  assume inv: "st_inv env J bs ctx m s" and "valid_mut ctx m M"
  then obtain t where "like_derives ctx m (LMut M) t" by (auto simp: valid_mut_def)
  then show "\<exists>s'. run_tester env reason M ctx s = Inr s' \<and> st_inv env J bs ctx m s'"
    using RunOnWithDedup_inv [OF inv, of "LMut M" t reason] by (auto simp: run_tester_def)
qed

interpretation has: min_tester "tester_min env reason" "\<lambda>ctx m bits st. st_inv env J bs ctx m st \<and> bits \<subseteq> {..<bs}"
  "\<lambda>ctx bits rls. \<exists>t m. rls = preorder t \<and> derives (rules ctx) m t \<and> observed env (dyield (rules ctx) t) bits" for env reason J bs
proof
  fix ctx m bits s M
  assume inv: "st_inv env J bs ctx m s \<and> bits \<subseteq> {..<bs}" and "valid_mut ctx m M"
  then obtain t where t: "derives (rules ctx) m t" "mut_rules M = preorder t" by (auto simp: valid_mut_def)
  then show "\<exists>b s'. tester_min env reason M bits ctx s = Inr (b, s') \<and> (st_inv env J bs ctx m s' \<and> bits \<subseteq> {..<bs}) \<and>
      (b \<longrightarrow> (\<exists>t m. mut_rules M = preorder t \<and> derives (rules ctx) m t \<and> observed env (dyield (rules ctx) t) bits))"
    using HasBits_inv [of env J bs ctx m s "LMut M" t bits reason] inv unfolding tester_min_def by (fastforce simp: tester_min_def)
qed

section \<open>The routines\<close>

text \<open>The rules of a tree determine the tree.\<close>

lemma preorder_inj_rest:
  "derives rls m t \<Longrightarrow> derives rls m' t' \<Longrightarrow> preorder t @ r = preorder t' @ r' \<Longrightarrow> t = t' \<and> r = r'"
  "derives_list rls ms ts \<Longrightarrow> derives_list rls ms ts' \<Longrightarrow> preorders ts @ r = preorders ts' @ r' \<Longrightarrow> ts = ts' \<and> r = r'"
proof (induction t and ts arbitrary: m m' t' r r' and ms ts' r r' rule: subtrees_subtreess.induct)
  case (1 l ts)
  then show ?case by (cases t') auto
next
  case 2
  then show ?case by (cases ms) auto
next
  case (3 t ts)
  obtain k ks where ms: "derives rls k t" "derives_list rls ks ts" "ms = k # ks"
    using 3(3) by (cases ms) auto
  then obtain u us where ts': "ts' = u # us" "derives rls k u" "derives_list rls ks us"
    using 3(4) by auto
  then have "t = u \<and> preorders ts @ r = preorders us @ r'"
    using 3(1) [OF ms(1) ts'(2), of "preorders ts @ r" "preorders us @ r'"] 3(5) by simp
  then show ?case
    using 3(2) [OF ms(2) ts'(3), of r r'] ts'(1) by simp
qed

lemma preorder_inj: "derives rls m t \<Longrightarrow> derives rls m' t' \<Longrightarrow> preorder t = preorder t' \<Longrightarrow> t = t'"
  using preorder_inj_rest(1) [of rls m t m' t' "[]" "[]"] by simp

lemma repeatR_inv:
  "(\<And>s. P s \<Longrightarrow> \<exists>s'. f s = Inr s' \<and> P s') \<Longrightarrow> P s \<Longrightarrow> \<exists>s'. repeatR n f s = Inr s' \<and> P s'"
proof (induction n arbitrary: s)
  case (Suc n)
  then obtain s1 where "f s = Inr s1" "P s1" by blast
  then show ?case using Suc.IH [OF Suc.prems(1)] by auto
qed simp

lemma random_flow_inv:
  assumes inv: "st_inv env J bs ctx m st" and it: "item_ok env bs ctx m inp"
  shows "\<exists>st'. random_flow env st inp = Inr st' \<and> st_inv env J bs ctx m st'"
proof -
  obtain t where t: "derives (rules ctx) m t" "item_tree inp = flat t"
    and Rs: "\<And>Rs. recursions inp = Some Rs \<Longrightarrow> recursions_ok ctx t Rs"
    using it by (auto simp: item_ok_def)
  have "\<exists>st'. MutSplice_routine env st inp = Inr st' \<and> st_inv env J bs ctx m st'" if "st_inv env J bs ctx m st" for st
    unfolding MutSplice_routine_def
  proof (rule repeatR_inv [where P = "st_inv env J bs ctx m", OF _ that])
    fix s assume s: "st_inv env J bs ctx m s"
    show "\<exists>s'. bindR (MutSplice (item_tree inp) (st_ctx s) (st_cks s) (run_tester env ER_Splice) (st_rng s) s)
        (\<lambda>(rs, st'). Inr (st'\<lparr>st_rng := rs\<rparr>)) = Inr s' \<and> st_inv env J bs ctx m s'"
      using run.MutSplice_ok [OF st_invD(3) [OF s] t(1) st_invD(6) [OF s] s, of ER_Splice "st_rng s"] st_invD(1) [OF s] t(2)
      by auto
  qed
  moreover have "\<exists>st'. MutHavoc_routine env st inp = Inr st' \<and> st_inv env J bs ctx m st'" if "st_inv env J bs ctx m st" for st
    unfolding MutHavoc_routine_def
  proof (rule repeatR_inv [where P = "st_inv env J bs ctx m", OF _ that])
    fix s assume s: "st_inv env J bs ctx m s"
    show "\<exists>s'. bindR (MutRandom (item_tree inp) (st_ctx s) (run_tester env ER_Havoc) (st_pad s) (st_rng s) s)
        (\<lambda>(pad, rs, st'). Inr (st'\<lparr>st_pad := pad, st_rng := rs\<rparr>)) = Inr s' \<and> st_inv env J bs ctx m s'"
      using run.MutRandom_ok [OF st_invD(3,4) [OF s] t(1) s, of ER_Havoc "st_pad s" "st_rng s"] st_invD(1) [OF s] t(2)
      by auto
  qed
  moreover have "\<exists>st'. MutHavocRec_routine env st inp = Inr st' \<and> st_inv env J bs ctx m st'" if "st_inv env J bs ctx m st" for st
  proof (cases "recursions inp")
    case None
    then show ?thesis using that by (simp add: MutHavocRec_routine_def)
  next
    case (Some R)
    show ?thesis
      unfolding MutHavocRec_routine_def Some option.case
    proof (rule repeatR_inv [where P = "st_inv env J bs ctx m", OF _ that])
      fix s assume s: "st_inv env J bs ctx m s"
      show "\<exists>s'. bindR (MutRandomRecursion (item_tree inp) R (st_ctx s) (run_tester env ER_HavocRec) (st_rng s) s)
          (\<lambda>(rs, st'). Inr (st'\<lparr>st_rng := rs\<rparr>)) = Inr s' \<and> st_inv env J bs ctx m s'"
        using run.MutRandomRecursion_ok [OF t(1) Rs [OF Some] s, of ER_HavocRec "st_rng s"] st_invD(1) [OF s] t(2) by auto
    qed
  qed
  ultimately show ?thesis
    using inv unfolding random_flow_def by (metis bindR_Inr)
qed

lemma MutRules_routine_inv:
  assumes inv: "st_inv env J bs ctx m st" and it: "item_ok env bs ctx m inp" and d: "item_state inp = DetState c i"
  shows "\<exists>inp' st'. MutRules_routine env st inp = Inr (inp', st') \<and> st_inv env J bs ctx m st' \<and> item_ok env bs ctx m inp'"
proof -
  obtain t where t: "derives (rules ctx) m t" "item_tree inp = flat t" and i: "i \<le> dsize t"
    and f: "fresh_bits inp \<subseteq> {..<bs}" "observed env (dyield (rules ctx) t) (fresh_bits inp)"
      "\<forall>Rs. recursions inp = Some Rs \<longrightarrow> recursions_ok ctx t Rs"
    using it d by (auto simp: item_ok_def)
  obtain pad rs st1 where 1: "MutRules (flat t) ctx i (Suc i) (run_tester env ER_Det) (st_pad st) (st_rng st) st =
      Inr (i \<le> dsize t \<and> dsize t < Suc i, pad, rs, st1)" "st_inv env J bs ctx m st1"
    using run.MutRules_ok [OF st_invD(3,4) [OF inv] t(1) _ inv, of "Suc i"] i by blast
  define s' where "s' = (if i = dsize t then (if c = number_of_deterministic_mutations (st_setting st1) then RandomState
      else DetState (c + 1) 0) else DetState c (i + 1))"
  have "MutRules_routine env st inp = Inr (inp\<lparr>item_state := s'\<rparr>, st1\<lparr>st_pad := pad, st_rng := rs\<rparr>)"
    using 1(1) i st_invD(1) [OF inv] t(2) by (auto simp: MutRules_routine_def d DeterministicTreeMutation_def s'_def)
  moreover have "item_ok env bs ctx m (inp\<lparr>item_state := s'\<rparr>)"
    using t i f unfolding item_ok_def by (intro exI [of _ t]) (auto simp: s'_def)
  ultimately show ?thesis using 1(2) by simp
qed

lemma Minimize_trees:
  assumes inv: "st_inv env J bs ctx m st" and t: "derives (rules ctx) m t" and f: "F \<subseteq> {..<bs}"
    and o: "observed env (dyield (rules ctx) t) F"
  shows "\<exists>b1 t1 pad rs st1 b2 t2 st2.
    MinimizeTree (flat t) F ctx i j (tester_min env ER_Min) (st_pad st) (st_rng st) st = Some (Inr (b1, flat t1, pad, rs, st1)) \<and>
    MinimizeRec (flat t1) F ctx i j (tester_min env ER_MinRec) (st1\<lparr>st_pad := pad, st_rng := rs\<rparr>) = Some (Inr (b2, flat t2, st2)) \<and>
    st_inv env J bs ctx m st2 \<and> derives (rules ctx) m t2 \<and> dsize t2 \<le> dsize t \<and> observed env (dyield (rules ctx) t2) F"
proof -
  obtain b1 t1 pad rs st1 where 1: "MinimizeTree (flat t) F ctx i j (tester_min env ER_Min) (st_pad st) (st_rng st) st =
      Some (Inr (b1, flat t1, pad, rs, st1))" "st_inv env J bs ctx m st1" "derives (rules ctx) m t1" "dsize t1 \<le> dsize t"
    and g1: "\<exists>u k. preorder t1 = preorder u \<and> derives (rules ctx) k u \<and> observed env (dyield (rules ctx) u) F"
    using has.minimize_tree_loop_ok [OF st_invD(3) [OF inv] t, where env = env and J = J and bs = bs and bits = F and s = st
        and reason = ER_Min and end_index = j and i = i and pad = "st_pad st" and rs = "st_rng st"] inv f t o
    unfolding MinimizeTree_def by blast
  let ?st1 = "st1\<lparr>st_pad := pad, st_rng := rs\<rparr>"
  have inv1: "st_inv env J bs ctx m ?st1" using 1(2) by simp
  obtain b2 t2 st2 where 2: "MinimizeRec (flat t1) F ctx i j (tester_min env ER_MinRec) ?st1 = Some (Inr (b2, flat t2, st2))"
    "st_inv env J bs ctx m st2" "derives (rules ctx) m t2" "dsize t2 \<le> dsize t1"
    and g2: "\<exists>u k. preorder t2 = preorder u \<and> derives (rules ctx) k u \<and> observed env (dyield (rules ctx) u) F"
    using has.minimize_rec_loop_ok [OF 1(3), where env = env and J = J and bs = bs and bits = F and s = ?st1
        and reason = ER_MinRec and end_index = j and i = i] inv1 f g1
    unfolding MinimizeRec_def by blast
  have "observed env (dyield (rules ctx) t2) F"
    using g2 preorder_inj [OF 2(3)] by blast
  then show ?thesis
    using 1 2 by (meson order_trans)
qed

lemma Minimize_inv:
  assumes inv: "st_inv env J bs ctx m st" and it: "item_ok env bs ctx m inp" and s: "item_state inp = InitState k"
  shows "\<exists>b inp' st'. Minimize env st inp i j = Inr (b, inp', st') \<and> st_inv env J bs ctx m st' \<and>
    item_ok env bs ctx m (inp'\<lparr>item_state := (if b then DetState 0 0 else InitState j)\<rparr>)"
proof -
  obtain t where t: "derives (rules ctx) m t" "item_tree inp = flat t" and f: "fresh_bits inp \<subseteq> {..<bs}"
      "observed env (dyield (rules ctx) t) (fresh_bits inp)" and none: "recursions inp = None"
    using it s by (auto simp: item_ok_def)
  obtain b1 t1 pad rs st1 b2 t2 st2 where
    1: "MinimizeTree (flat t) (fresh_bits inp) ctx i j (tester_min env ER_Min) (st_pad st) (st_rng st) st = Some (Inr (b1, flat t1, pad, rs, st1))"
    and 2: "MinimizeRec (flat t1) (fresh_bits inp) ctx i j (tester_min env ER_MinRec) (st1\<lparr>st_pad := pad, st_rng := rs\<rparr>) = Some (Inr (b2, flat t2, st2))"
    and inv2: "st_inv env J bs ctx m st2" and t2: "derives (rules ctx) m t2" and o2: "observed env (dyield (rules ctx) t2) (fresh_bits inp)"
    using Minimize_trees [OF inv t(1) f, of i j] by blast
  note d = st_invD [OF inv2]
  obtain cks fs1 where a: "AddTree (st_cks st2) (flat t2) ctx (st_fs st2) = Inr (cks, fs1)" "writable_all fs1" "store_wf ctx cks"
    using AddTree_ok [OF d(5) t2 d(7,6)] by blast
  obtain r where r: "CalcRecursions (flat t2) ctx = Inr r" "\<forall>Rs. r = Some Rs \<longrightarrow> recursions_ok ctx t2 Rs"
    using CalcRecursions_ok [OF t2] by blast
  have u: "UnparseTo (Tree_GetRuleOrCustom (flat t2)) ctx [] = Some (Inr (dyield (rules ctx) t2, dsize t2))"
    using Unparse_flat [OF d(5) t2, of 0 "[]"] by (simp add: UnparseTo_def)
  obtain fs2 where s2: "save_file (path_to_workdir (st_setting st2) @ ''/queue/id:'' @ decimal9 (item_id inp) @ '',er:'' @
      decimal (exit_code (exit_reason inp)) @ ''.min'') (dyield (rules ctx) t2) fs1 = Inr fs2" "writable_all fs2"
    using save_file_ok [OF a(2)] by blast
  define b where "b = (b1 \<and> b2)"
  define inp' where "inp' = (if b then inp\<lparr>item_tree := flat t2, recursions := r\<rparr> else inp\<lparr>item_tree := flat t2\<rparr>)"
  define st' where "st' = (if b then st2\<lparr>st_cks := cks, st_fs := fs2\<rparr> else st2)"
  have "Minimize env st inp i j = Inr (b, inp', st')"
    using 1 2 a(1) r(1) u s2(1) by (simp add: Minimize_def st_invD(1) [OF inv] t(2) d(1) b_def inp'_def st'_def Let_def)
  moreover have "st_inv env J bs ctx m st'"
    using inv2 a(3) s2(2) by (simp add: st'_def st_inv_def)
  moreover have "item_ok env bs ctx m (inp'\<lparr>item_state := (if b then DetState 0 0 else InitState j)\<rparr>)"
    using t2 f(1) o2 r(2) none unfolding item_ok_def by (intro exI [of _ t2]) (auto simp: inp'_def)
  ultimately show ?thesis by blast
qed

lemma ProcessInput_inv:
  assumes inv: "st_inv env J bs ctx m st" and it: "item_ok env bs ctx m inp"
  shows "\<exists>st'. ProcessInput env st inp = Inr st' \<and> st_inv env J bs ctx m st'"
proof -
  have "\<exists>inp' st'. (case item_state inp of
          InitState _ \<Rightarrow> InitializeState env st inp
        | DetState _ _ \<Rightarrow> ApplyDetMuts env st inp
        | RandomState \<Rightarrow> ApplyRandMuts env st inp) = Inr (inp', st') \<and> st_inv env J bs ctx m st' \<and> item_ok env bs ctx m inp'"
  proof (cases "item_state inp")
    case (InitState k)
    then show ?thesis
      using Minimize_inv [OF inv it InitState, of k "k + 200"] by (auto simp: InitializeState_def Let_def)
  next
    case (DetState c i)
    obtain inp1 st1 where 1: "MutRules_routine env st inp = Inr (inp1, st1)" "st_inv env J bs ctx m st1" "item_ok env bs ctx m inp1"
      using MutRules_routine_inv [OF inv it DetState] by blast
    then show ?thesis
      using random_flow_inv [OF 1(2,3)] DetState by (auto simp: ApplyDetMuts_def)
  next
    case RandomState
    then show ?thesis
      using random_flow_inv [OF inv it] it by (auto simp: ApplyRandMuts_def)
  qed
  then obtain inp1 st1 where 1: "(case item_state inp of
          InitState _ \<Rightarrow> InitializeState env st inp
        | DetState _ _ \<Rightarrow> ApplyDetMuts env st inp
        | RandomState \<Rightarrow> ApplyRandMuts env st inp) = Inr (inp1, st1)" "st_inv env J bs ctx m st1" "item_ok env bs ctx m inp1"
    by blast
  obtain q fs where q: "Finished (st_queue st1) inp1 (st_fs st1) = (q, fs)" by fastforce
  then have "set (q_items q) \<subseteq> insert inp1 (set (q_items (st_queue st1)))" "writable_all fs"
    using st_invD(7) [OF 1(2)] by (auto simp: Finished_def enter_bits_all q_items_def split: if_splits)
  then have "st_inv env J bs ctx m (st1\<lparr>st_queue := q, st_fs := fs\<rparr>)"
    using 1(2,3) by (auto simp: st_inv_def)
  then show ?thesis
    using 1(1) q by (simp add: ProcessInput_def)
qed

lemma GenerateInput_inv:
  assumes inv: "st_inv env J bs ctx m st"
  shows "\<exists>st'. GenerateInput env st = Inr st' \<and> st_inv env J bs ctx m st'"
proof -
  have one: "\<exists>s'. generate_one env s = Inr s' \<and> st_inv env J bs ctx m s'" if s: "st_inv env J bs ctx m s" for s
  proof -
    note d = st_invD [OF s]
    obtain r where r: "r < length (rules ctx)" "nonterm (rules ctx ! r) = m" and st: "NTID ctx ''START'' = Inr m"
      using d(2) by (auto simp: grammar_ok_def)
    obtain v where v: "nts_to_min_size ctx m = Some v"
      using ready_min_known [OF d(3) r(1), of m] r(2) by auto
    have "v \<le> max_len ctx"
      using ready_min_rule(2) [OF d(3) v r] d(4) r(1) by (auto simp: roomy_def intro: order_trans)
    then obtain t rs where t: "GenerateTreeFromNT ctx m (max_len ctx) (st_rng s) = Inr (flat t, rs)" "derives (rules ctx) m t"
      using GenerateFromNT_ok [OF d(3) v] unfolding GenerateTreeFromNT_eq [of _ _ _ _ undefined] by blast
    have "st_inv env J bs ctx m (s\<lparr>st_rng := rs\<rparr>)" using s by simp
    from RunOnWithDedup_inv [OF this, of "LTree (flat t)" t ER_Gen] show ?thesis
      using t st d(1) by (auto simp: generate_one_def GetRandomLenForNT_def)
  qed
  obtain st1 where 1: "repeatR (number_of_generate_inputs (st_setting st)) (generate_one env) st = Inr st1" "st_inv env J bs ctx m st1"
    using repeatR_inv [where P = "st_inv env J bs ctx m" and f = "generate_one env", OF _ inv] one by blast
  have "set (q_items (NewRound (st_queue st1))) = set (q_items (st_queue st1))"
    by (simp add: NewRound_def q_items_def)
  then show ?thesis
    using 1 by (simp add: GenerateInput_def st_inv_def)
qed

lemma FuzzLoop_inv:
  assumes inv: "st_inv env J bs ctx m st"
  shows "\<exists>st'. FuzzLoop env st = Inr st' \<and> st_inv env J bs ctx m st'"
proof -
  have "\<exists>st'. SelectInput env st = Inr st' \<and> st_inv env J bs ctx m st'"
  proof (cases "IsEmpty (st_queue st)")
    case True
    then show ?thesis using GenerateInput_inv [OF inv] by (simp add: SelectInput_def)
  next
    case False
    then obtain item q where p: "Pop (st_queue st) = Inr (item, q)" "item \<in> set (q_items (st_queue st))"
      "set (q_items q) \<subseteq> set (q_items (st_queue st))"
      by (auto simp: Pop_def IsEmpty_def Let_def q_items_def dest: in_set_butlastD)
    have "st_inv env J bs ctx m (st\<lparr>st_queue := q\<rparr>)" "item_ok env bs ctx m item"
      using inv p(2,3) by (auto simp: st_inv_def)
    then show ?thesis
      using ProcessInput_inv [of env J bs ctx m "st\<lparr>st_queue := q\<rparr>" item] False p(1) by (simp add: SelectInput_def)
  qed
  then show ?thesis by (auto simp: FuzzLoop_def)
qed

section \<open>Main results\<close>

text \<open>
  C1. Any number of iterations of the fuzzing loop (\<open>FuzzLoop\<close>, \<open>SelectInput\<close>, \<open>GenerateInput\<close>,
  \<open>ProcessInput\<close> with all mutation and minimisation routines) run without an error from a state that
  satisfies the invariant, and keep it: every test case in the queue is a derivation tree of the start
  symbol, its text was observed to trigger its fresh bits, the chunk store is well-formed, and every
  property of the executor that runs of texts of the language keep still holds, so the program under
  test never sees a text outside of the language.
\<close>

theorem FuzzLoop_safe:
  assumes "st_inv env J bs ctx m st"
  shows "\<exists>st'. repeatR n (FuzzLoop env) st = Inr st' \<and> J (st_exec st') \<and> store_wf ctx (st_cks st') \<and>
    (\<forall>x \<in> set (q_items (st_queue st')). \<exists>t. derives (rules ctx) m t \<and> item_tree x = flat t \<and>
       observed env (dyield (rules ctx) t) (fresh_bits x))"
proof -
  obtain st' where "repeatR n (FuzzLoop env) st = Inr st'" "st_inv env J bs ctx m st'"
    using repeatR_inv [where P = "st_inv env J bs ctx m" and f = "FuzzLoop env", OF _ assms] FuzzLoop_inv by blast
  then show ?thesis
    by (fastforce simp: st_inv_def item_ok_def)
qed

text \<open>An executor that records the texts it is given and reports two bits for a text with a \<open>c\<close>.\<close>

definition demo_env :: "string list Env" where
  "demo_env = \<lparr>env_run = (\<lambda>code tmout e. code # e),
     env_bitmap = (\<lambda>e. case e of [] \<Rightarrow> [0, 0] | c # cs \<Rightarrow> if CHR ''c'' \<in> set c then [1, 1] else [1, 0]),
     env_exit = (\<lambda>e. (FAULT_NONE, 0)), env_elapsed = (\<lambda>e. 1), env_date = (\<lambda>e. ''now''), env_average = (\<lambda>a t. a)\<rparr>"

definition start_grammar :: Context where
  "start_grammar = \<lparr>
     rules = [\<lparr>nonterm = 0, children = [Term ''c''], nonterms = []\<rparr>],
     nts_to_rules = [0 \<mapsto> [0]], nt_ids_to_name = [(0, ''START'')], names_to_nt_id = [''START'' \<mapsto> 0],
     rules_to_min_size = Map.empty, nts_to_min_size = Map.empty, rules_to_num_options = Map.empty,
     nts_to_num_options = Map.empty, max_len = 0\<rparr>"

definition start_ctx :: Context where
  "start_ctx = start_grammar\<lparr>rules_to_min_size := [0 \<mapsto> 1], nts_to_min_size := [0 \<mapsto> 1],
     rules_to_num_options := [0 \<mapsto> 1], nts_to_num_options := [0 \<mapsto> 1], max_len := 5\<rparr>"

lemma start_add: "AddRule empty_context ''START'' ''c'' = Inr (0, start_grammar)"
  by (simp add: demo_add_simps start_grammar_def empty_context_def)

lemma start_init: "Initialize start_grammar 3 = Inr start_ctx"
  by (simp add: start_ctx_def start_grammar_def Initialize_def CalcMinLen_def CalcMinLen_loop.simps min_len_inner.simps
     min_len_visit_eq GetRule_def min_upd_def CalcRuleOrder_def fun_eq_iff upt_rec CalcNumOptions_def
     CalcNumOptions_loop.simps num_options_visit_eq options_upd_def size_max_def Let_def)

lemma start_ready: "ready start_ctx"
proof -
  have "reg_wf start_grammar" using AddRule_wf [OF empty_context_wf start_add] by blast
  moreover have "nts_to_min_size start_grammar = Map.empty" by (simp add: start_grammar_def)
  ultimately show ?thesis using Initialize_result(1) start_init by blast
qed

lemma start_grammar_ok: "grammar_ok start_ctx 0"
  using start_ready by (auto simp: grammar_ok_def roomy_def rule_min_def NTID_def start_ctx_def start_grammar_def)

definition demo_setting :: NautilusSetting where
  "demo_setting = \<lparr>path_to_workdir = ''w'', exec_timeout_ms = 10, number_of_generate_inputs = 2,
     number_of_deterministic_mutations = 1, max_tree_size = 3, bitmap_size = 2\<rparr>"

definition demo_state :: "string list NautilusState" where
  "demo_state = (NautilusState_new demo_setting [] demo_fs [])\<lparr>st_ctx := start_ctx\<rparr>"

lemma demo_env_ok: "env_ok demo_env (\<lambda>e. set e \<subseteq> L) 2 L"
  by (auto simp: env_ok_def demo_env_def split: list.splits)

lemma new_state_inv:
  assumes "grammar_ok ctx m" and "env_ok env J (bitmap_size s) (lang ctx m)" and "writable_all fs" and "J e"
  shows "st_inv env J (bitmap_size s) ctx m ((NautilusState_new s e fs rs)\<lparr>st_ctx := ctx\<rparr>)"
  using assms ChunkStore_new_wf by (auto simp: st_inv_def NautilusState_new_def Queue_new_def q_items_def)

lemma demo_state_inv: "st_inv demo_env (\<lambda>e. set e \<subseteq> lang start_ctx 0) 2 start_ctx 0 demo_state"
  using new_state_inv [OF start_grammar_ok, of demo_env _ demo_setting demo_fs "[]" "[]"] demo_env_ok demo_fs_writable
  by (simp add: demo_state_def demo_setting_def)

theorem FuzzLoop_safe_witness:
  "\<exists>st'. repeatR 10 (FuzzLoop demo_env) demo_state = Inr st' \<and> set (st_exec st') \<subseteq> lang start_ctx 0 \<and> store_wf start_ctx (st_cks st')"
  using FuzzLoop_safe [OF demo_state_inv, of 10] by blast

text \<open>
  \<open>NautilusState::RunOn\<close> enters into the shared bitmap exactly the bits that the run set and that were
  not set before, and these, in increasing order, are the new bits; no other entry changes.
\<close>

theorem scan_bits_new:
  assumes "length old = length shared"
  shows "\<exists>shared'. scan_bits old [0..<length old] shared [] =
      Inr (shared', filter (\<lambda>i. old ! i \<noteq> 0 \<and> shared ! i = 0) [0..<length old]) \<and>
    length shared' = length shared \<and>
    (\<forall>i < length shared. shared' ! i = (if shared ! i = 0 then old ! i else shared ! i))"
proof -
  have "\<forall>i \<in> set [0..<length old]. i < length shared" using assms by simp
  from scan_bits_result [OF this distinct_upt, of old "[]"] show ?thesis
    using assms by auto
qed

theorem scan_bits_new_witness:
  "\<exists>shared'. scan_bits [1, 0, 2] [0..<length [1, 0, 2 :: 8 word]] [0, 5, 7] [] =
      Inr (shared', filter (\<lambda>i. [1, 0, 2 :: 8 word] ! i \<noteq> 0 \<and> [0, 5, 7 :: 8 word] ! i = 0) [0..<length [1, 0, 2 :: 8 word]])"
proof -
  have "length [1, 0, 2 :: 8 word] = length [0, 5, 7 :: 8 word]" by simp
  from scan_bits_new [OF this] show ?thesis by blast
qed

text \<open>
  \<open>NautilusState::ExecRaw\<close> never passes the configured timeout to the executor: whatever
  \<open>exec_timeout_ms\<close> is, the run is the same as with a timeout of zero.
\<close>

theorem ExecRaw_ignores_timeout:
  "st_exec (snd (ExecRaw env st code)) = env_run env code 0 (st_exec st)"
  by (simp add: ExecRaw_def Let_def)

section \<open>The ring buffer of tried inputs\<close>

definition same_tried :: "'e NautilusState \<Rightarrow> 'e NautilusState \<Rightarrow> bool" where
  "same_tried st st' \<longleftrightarrow>
     last_tried_inputs st' = last_tried_inputs st \<and> last_inputs_ring_buffer st' = last_inputs_ring_buffer st"

lemma ExecRaw_tried: "ExecRaw env st code = (time, st') \<Longrightarrow> same_tried st st'"
  by (auto simp: ExecRaw_def Let_def same_tried_def)

lemma check_runs_tried: "check_runs n env st bits code = Inr (bits', st') \<Longrightarrow> same_tried st st'"
proof (induction n arbitrary: st bits)
  case (Suc n)
  obtain time st1 where e: "ExecRaw env st code = (time, st1)" by fastforce
  then have "\<exists>bits1. check_runs n env st1 bits1 code = Inr (bits', st')"
    using Suc.prems by (auto simp: bindR_eq_Inr)
  then show ?case
    using Suc.IH ExecRaw_tried [OF e] by (auto simp: same_tried_def)
qed (simp add: same_tried_def)

lemma enqueue_new_tried:
  "enqueue_new env st code like ctx er bm time new = Inr (new', st') \<Longrightarrow> same_tried st st'"
  unfolding enqueue_new_def CheckForDeterministicBehavior_def
  by (auto simp: bindR_eq_Inr same_tried_def split: if_splits dest!: check_runs_tried)

lemma save_case_tried: "save_case name like ctx st = Inr st' \<Longrightarrow> same_tried st st'"
  by (auto simp: save_case_def bindR_eq_Inr same_tried_def split: prod.splits)

lemma account_exit_tried: "account_exit env er signal new like reason ctx st = Inr st' \<Longrightarrow> same_tried st st'"
  by (auto simp: account_exit_def same_tried_def split: PUTExitReasonType.splits if_splits dest!: save_case_tried)

lemma RunOn_tried:
  assumes "RunOn env st code like reason ctx = Inr st'"
  shows "same_tried st st'"
proof -
  obtain time st1 where e: "ExecRaw env st code = (time, st1)" by fastforce
  obtain er signal where x: "env_exit env (st_exec st1) = (er, signal)" by fastforce
  obtain shared new new' st2 where
    q: "enqueue_new env (st1\<lparr>bitmaps := (bitmaps st1)(er = FAULT_CRASH := shared)\<rparr>) code like ctx er (env_bitmap env (st_exec st1)) time new = Inr (new', st2)"
    and a: "account_exit env er signal new' like reason ctx st2 = Inr st'"
    using assms by (auto simp: RunOn_def e x Let_def bindR_eq_Inr)
  show ?thesis
    using ExecRaw_tried [OF e] enqueue_new_tried [OF q] account_exit_tried [OF a] by (simp add: same_tried_def)
qed

text \<open>
  \<open>NautilusState::RunOnWithDedup\<close> pushes to its ring buffer only when the buffer already has 10000
  entries. It starts empty, so it stays empty and nothing is ever taken out of the set of tried inputs.
\<close>

theorem ring_buffer_stays_empty:
  assumes "RunOnWithDedup env st like reason ctx = Inr (b, st')" and "last_inputs_ring_buffer st = []"
  shows "last_inputs_ring_buffer st' = [] \<and> last_tried_inputs st \<subseteq> last_tried_inputs st'"
proof -
  obtain code where c: "ran (UnparseToVec (like_get like) ctx) = Inr code"
    using assms(1) by (auto simp: RunOnWithDedup_def bindR_eq_Inr)
  show ?thesis
  proof (cases "code \<in> last_tried_inputs st")
    case True
    then show ?thesis using assms c by (auto simp: RunOnWithDedup_def)
  next
    case False
    then have "RunOn env (st\<lparr>last_tried_inputs := insert code (last_tried_inputs st)\<rparr>) code like reason ctx = Inr st'"
      using assms c by (auto simp: RunOnWithDedup_def bindR_eq_Inr)
    from RunOn_tried [OF this] show ?thesis
      using assms(2) by (auto simp: same_tried_def)
  qed
qed

theorem ring_buffer_stays_empty_witness:
  "\<exists>b st'. RunOnWithDedup demo_env demo_state (LTree (flat (DNode (PlainID 0) []))) ER_Gen start_ctx = Inr (b, st') \<and>
     last_inputs_ring_buffer st' = []"
proof -
  have "like_derives start_ctx 0 (LTree (flat (DNode (PlainID 0) []))) (DNode (PlainID 0) [])"
    by (simp add: start_ctx_def start_grammar_def)
  then obtain b st' where r: "RunOnWithDedup demo_env demo_state (LTree (flat (DNode (PlainID 0) []))) ER_Gen start_ctx = Inr (b, st')"
    using RunOnWithDedup_inv [OF demo_state_inv] by blast
  have "last_inputs_ring_buffer demo_state = []"
    by (simp add: demo_state_def NautilusState_new_def)
  then show ?thesis
    using ring_buffer_stays_empty [OF r] r by blast
qed

end
