(* ===== verification/Nautilus_Grammar.thy ===== *)
theory Nautilus_Grammar
  imports Nautilus_Loop_Props
begin

text \<open>
  Loading a grammar (\<open>NautilusFuzzer::ParseAndAddRule\<close> and \<open>LoadGrammar\<close> in
  \<open>algorithms/nautilus/fuzzer/fuzzer.cpp\<close>) and the constructor of the fuzzer. The JSON library parses the
  file; the model starts from the parsed document. \<open>std::exit(1)\<close> is the error \<open>Exit 1\<close>.
\<close>

section \<open>Rules in JSON\<close>

datatype json = JString string | JInt int | JArray "json list" | JOther

fun int_or_string :: "json \<Rightarrow> bool" where
  "int_or_string (JInt _) = True"
| "int_or_string (JString _) = True"
| "int_or_string _ = False"

text \<open>The text of a binary rule; a negative integer read as \<open>size_t\<close> is out of range as well.\<close>

fun binary_text :: "json list \<Rightarrow> string result" where
  "binary_text [] = Inr []"
| "binary_text (JString s # es) = bindR (binary_text es) (\<lambda>r. Inr (s @ r))"
| "binary_text (JInt i # es) =
     (let c = nat (i mod 2 ^ 64) in
      if 256 \<le> c then Inl (Exit 1) else bindR (binary_text es) (\<lambda>r. Inr (char_of c # r)))"
| "binary_text (_ # es) = Inl Undefined"

function (sequential)
  ParseAndAddRule :: "Context \<Rightarrow> string \<Rightarrow> json \<Rightarrow> bool \<Rightarrow> (bool \<times> Context) result" and
  union_loop :: "Context \<Rightarrow> string \<Rightarrow> json list \<Rightarrow> (bool \<times> Context) result" where
  "ParseAndAddRule ctx nt (JString r) recursive = bindR (AddRule ctx nt r) (\<lambda>(_, ctx'). Inr (True, ctx'))"
| "ParseAndAddRule ctx nt (JArray es) recursive =
     (if list_all int_or_string es then
        bindR (binary_text es) (\<lambda>r. bindR (AddRule ctx nt r) (\<lambda>(_, ctx'). Inr (True, ctx')))
      else if \<not> recursive then union_loop ctx nt es
      else Inr (False, ctx))"
| "ParseAndAddRule ctx nt _ recursive = Inl (Exit 1)"
| "union_loop ctx nt [] = Inr (True, ctx)"
| "union_loop ctx nt (e # es) =
     bindR (ParseAndAddRule ctx nt e True) (\<lambda>(ok, ctx').
       if ok then union_loop ctx' nt es else Inl (Exit 1))"
  by pat_completeness auto
termination
  by (relation "measure (\<lambda>x. case x of
        Inl (ctx, nt, rule, recursive) \<Rightarrow> if recursive then 0 else (case rule of JArray es \<Rightarrow> 2 + length es | _ \<Rightarrow> 1)
      | Inr (ctx, nt, es) \<Rightarrow> Suc (length es))") auto

section \<open>LoadGrammar\<close>

fun add_rules :: "Context \<Rightarrow> json list \<Rightarrow> Context result" where
  "add_rules ctx [] = Inr ctx"
| "add_rules ctx (JArray [JString nt, rule] # rls) =
     bindR (ParseAndAddRule ctx nt rule False) (\<lambda>(_, ctx'). add_rules ctx' rls)"
| "add_rules ctx (_ # rls) = Inl (Exit 1)"

text \<open>An exception inside of the \<open>try\<close> block ends the process as well.\<close>

definition exit_on_exception :: "'a result \<Rightarrow> 'a result" where
  "exit_on_exception r = (case r of Inl e \<Rightarrow> Inl (Exit 1) | Inr x \<Rightarrow> Inr x)"

fun load_document :: "Context \<Rightarrow> json \<Rightarrow> Context result" where
  "load_document ctx (JArray []) = Inl (Exit 1)"
| "load_document ctx (JArray (JArray [JString root_nt, rule] # rls)) =
     bindR (ParseAndAddRule ctx ''START'' (JString (''{'' @ root_nt @ ''}'')) False) (\<lambda>(_, ctx').
       add_rules ctx' (JArray [JString root_nt, rule] # rls))"
| "load_document ctx _ = Inl (Exit 1)"

definition LoadGrammar :: "Context \<Rightarrow> string \<Rightarrow> bool \<Rightarrow> json option \<Rightarrow> Context result" where
  "LoadGrammar ctx extension is_file parsed =
     (if extension = ''.json'' then
        (if \<not> is_file then Inl (Exit 1)
         else case parsed of None \<Rightarrow> Inl (Exit 1) | Some doc \<Rightarrow> exit_on_exception (load_document ctx doc))
      else if extension = ''.py'' then Inl (RuntimeError ''Grammar defined in Python is not supported yet'')
      else Inl (RuntimeError ''Unknown grammar type ('.json' expected)''))"

text \<open>The constructor of the fuzzer after the checks of the paths.\<close>

definition NautilusFuzzer_new :: "'e NautilusState \<Rightarrow> string \<Rightarrow> bool \<Rightarrow> json option \<Rightarrow> 'e NautilusState result" where
  "NautilusFuzzer_new st extension is_file parsed =
     bindR (LoadGrammar (st_ctx st) extension is_file parsed) (\<lambda>ctx1.
     bindR (Initialize ctx1 (max_tree_size (st_setting st))) (\<lambda>ctx2. Inr (st\<lparr>st_ctx := ctx2\<rparr>)))"

section \<open>Loaded grammars are well-formed\<close>

definition loading :: "Context \<Rightarrow> bool" where
  "loading ctx \<longleftrightarrow> reg_wf ctx \<and> nts_to_min_size ctx = Map.empty"

definition has_rule_for :: "string \<Rightarrow> NTermID \<Rightarrow> Context \<Rightarrow> bool" where
  "has_rule_for nm i ctx \<longleftrightarrow>
     names_to_nt_id ctx nm = Some i \<and> (\<exists>r < length (rules ctx). nonterm (rules ctx ! r) = i)"

lemma AddRule_loading:
  assumes "loading ctx" and "AddRule ctx nt format = Inr (rid, ctx')"
  shows "loading ctx'" and "\<exists>i. has_rule_for nt i ctx'" and "has_rule_for nm j ctx \<Longrightarrow> has_rule_for nm j ctx'"
proof -
  have wf: "reg_wf ctx" and n: "names_wf ctx" using assms(1) by (simp_all add: loading_def reg_wf_def)
  obtain c2 rule where f: "names_frame ctx c2" and nm: "names_to_nt_id c2 nt = Some (nonterm rule)"
    and c': "ctx' = c2\<lparr>rules := rules ctx @ [rule],
           nts_to_rules := (nts_to_rules ctx)(nonterm rule \<mapsto>
             (case nts_to_rules ctx (nonterm rule) of None \<Rightarrow> [] | Some rs \<Rightarrow> rs) @ [rid])\<rparr>"
    by (rule AddRule_result [OF n assms(2)])
  have "nts_to_min_size ctx' = nts_to_min_size ctx"
    using names_frame_fields(3) [OF f] by (simp add: c')
  then show "loading ctx'"
    using AddRule_wf [OF wf assms(2)] assms(1) by (simp add: loading_def)
  have "names_to_nt_id ctx' nt = Some (nonterm rule)" "length (rules ctx) < length (rules ctx')"
    "nonterm (rules ctx' ! length (rules ctx)) = nonterm rule"
    using nm by (simp_all add: c')
  then show "\<exists>i. has_rule_for nt i ctx'"
    unfolding has_rule_for_def by blast
  show "has_rule_for nm j ctx'" if h: "has_rule_for nm j ctx"
  proof -
    obtain r where r: "r < length (rules ctx)" "nonterm (rules ctx ! r) = j" and k: "names_to_nt_id ctx nm = Some j"
      using h by (auto simp: has_rule_for_def)
    have "r < length (rules ctx')" "nonterm (rules ctx' ! r) = j" "names_to_nt_id ctx' nm = Some j"
      using r names_frame_name [OF f k] by (simp_all add: c' nth_append)
    then show ?thesis
      unfolding has_rule_for_def by blast
  qed
qed

lemma ParseAndAddRule_loading:
  "ParseAndAddRule ctx nt rule recursive = Inr (ok, ctx') \<Longrightarrow> loading ctx \<Longrightarrow>
     loading ctx' \<and> (\<forall>nm j. has_rule_for nm j ctx \<longrightarrow> has_rule_for nm j ctx')"
  "union_loop ctx nt es = Inr (ok, ctx') \<Longrightarrow> loading ctx \<Longrightarrow>
     loading ctx' \<and> (\<forall>nm j. has_rule_for nm j ctx \<longrightarrow> has_rule_for nm j ctx')"
proof (induction ctx nt rule recursive and ctx nt es arbitrary: ok ctx' and ok ctx' rule: ParseAndAddRule_union_loop.induct)
  case (1 ctx nt r recursive)
  then show ?case using AddRule_loading by (fastforce simp: bindR_eq_Inr)
next
  case (2 ctx nt es recursive)
  show ?case
  proof (cases "list_all int_or_string es")
    case True
    then show ?thesis using 2(2,3) AddRule_loading by (fastforce simp: bindR_eq_Inr)
  next
    case False
    then show ?thesis using 2 by (auto split: if_splits)
  qed
next
  case (5 ctx nt e es)
  obtain ctx1 where 1: "ParseAndAddRule ctx nt e True = Inr (True, ctx1)" "union_loop ctx1 nt es = Inr (ok, ctx')"
    using 5(3) by (auto simp: bindR_eq_Inr split: if_splits)
  show ?case
    using 5(1) [OF 1(1) 5(4)] 5(2) [OF 1(1) refl _ 1(2)] by auto
qed simp_all

lemma add_rules_loading:
  "add_rules ctx rls = Inr ctx' \<Longrightarrow> loading ctx \<Longrightarrow>
     loading ctx' \<and> (\<forall>nm j. has_rule_for nm j ctx \<longrightarrow> has_rule_for nm j ctx')"
proof (induction ctx rls rule: add_rules.induct)
  case (2 ctx nt rule rls)
  obtain ok ctx1 where 1: "ParseAndAddRule ctx nt rule False = Inr (ok, ctx1)" "add_rules ctx1 rls = Inr ctx'"
    using 2(2) by (auto simp: bindR_eq_Inr)
  show ?case
    using 2(1) [OF 1(1) refl 1(2)] ParseAndAddRule_loading(1) [OF 1(1) 2(3)] by blast
qed simp_all

lemma load_document_loading:
  assumes "load_document ctx doc = Inr ctx'" and "loading ctx"
  shows "loading ctx' \<and> (\<exists>m. has_rule_for ''START'' m ctx')"
  using assms
proof (induction ctx doc rule: load_document.induct)
  case (2 ctx root_nt rule rls)
  obtain rid ctx1 where 1: "AddRule ctx ''START'' (''{'' @ root_nt @ ''}'') = Inr (rid, ctx1)"
    "add_rules ctx1 (JArray [JString root_nt, rule] # rls) = Inr ctx'"
    using 2(1) by (auto simp: bindR_eq_Inr)
  have l1: "loading ctx1" and "\<exists>m. has_rule_for ''START'' m ctx1"
    using AddRule_loading(1,2) [OF 2(2) 1(1)] by blast+
  then show ?case
    using add_rules_loading [OF 1(2) l1] by blast
qed simp_all

lemma LoadGrammar_loading:
  assumes "LoadGrammar ctx extension is_file parsed = Inr ctx'" and "loading ctx"
  shows "loading ctx' \<and> (\<exists>m. has_rule_for ''START'' m ctx')"
  using assms load_document_loading [of ctx _ ctx']
  by (auto simp: LoadGrammar_def exit_on_exception_def split: if_splits option.splits sum.splits)

lemma CalcNumOptions_loop_frame: "CalcNumOptions_loop ctx = Inr ctx' \<Longrightarrow> options_frame ctx ctx'"
proof (induction ctx rule: CalcNumOptions_loop.induct)
  case (1 ctx)
  obtain c1 ch where p: "num_options_pass ctx False [0..<length (rules ctx)] = Inr (c1, ch)"
    and r: "(if ch then CalcNumOptions_loop c1 else Inr c1) = Inr ctx'"
    using 1(2) by (subst (asm) CalcNumOptions_loop.simps) (auto simp: bindR_eq_Inr)
  have "options_frame ctx c1"
    using num_options_pass_progress [OF p] by (simp add: options_progress_def)
  then show ?case
    using 1(1) [OF p refl] r options_frame_trans by (cases ch) auto
qed

lemma CalcNumOptions_names: "CalcNumOptions ctx = Inr ctx' \<Longrightarrow> names_to_nt_id ctx' = names_to_nt_id ctx"
  unfolding CalcNumOptions_def by (drule CalcNumOptions_loop_frame, drule options_frame_fields(4)) simp

lemma Initialize_names:
  assumes "Initialize ctx n = Inr ctx'" and "nts_to_min_size ctx = Map.empty"
  shows "names_to_nt_id ctx' = names_to_nt_id ctx"
proof -
  obtain c1 c2 where c1: "CalcMinLen ctx = Inr c1" and c2: "CalcNumOptions c1 = Inr c2" and c': "ctx' = c2\<lparr>max_len := n + 2\<rparr>"
    using assms(1) by (auto simp: Initialize_def bindR_eq_Inr)
  obtain c where c: "min_frame ctx c" "c1 = CalcRuleOrder c"
    by (rule CalcMinLen_result [OF assms(2) c1])
  have "names_to_nt_id c1 = names_to_nt_id ctx"
    using c by (cases ctx; cases c) (simp add: min_frame_def)
  moreover have "names_to_nt_id c2 = names_to_nt_id c1"
    using c2 CalcNumOptions_names by blast
  ultimately show ?thesis by (simp add: c')
qed

section \<open>From a grammar file to fuzzing\<close>

text \<open>The length limit admits every rule of a loaded grammar.\<close>

lemma NautilusFuzzer_new_inv:
  assumes new: "NautilusFuzzer_new (NautilusState_new s e fs rs) extension is_file parsed = Inr st"
    and ro: "roomy (st_ctx st)" and w: "writable_all fs"
    and env: "\<And>m. NTID (st_ctx st) ''START'' = Inr m \<Longrightarrow> env_ok env J (bitmap_size s) (lang (st_ctx st) m)" and J: "J e"
  shows "\<exists>m. NTID (st_ctx st) ''START'' = Inr m \<and> st_inv env J (bitmap_size s) (st_ctx st) m st"
proof -
  obtain ctx1 ctx2 where 1: "LoadGrammar empty_context extension is_file parsed = Inr ctx1"
    and 2: "Initialize ctx1 (max_tree_size s) = Inr ctx2" and st: "st = (NautilusState_new s e fs rs)\<lparr>st_ctx := ctx2\<rparr>"
    using new by (auto simp: NautilusFuzzer_new_def NautilusState_new_def bindR_eq_Inr)
  have l: "loading empty_context"
    using empty_context_wf by (simp add: loading_def empty_context_def)
  obtain m where ld: "reg_wf ctx1" "nts_to_min_size ctx1 = Map.empty" "has_rule_for ''START'' m ctx1"
    using LoadGrammar_loading [OF 1 l] by (auto simp: loading_def)
  have r: "ready ctx2" "rules ctx2 = rules ctx1"
    using Initialize_result [OF ld(1,2) 2] by simp_all
  have s: "NTID ctx2 ''START'' = Inr m" "\<exists>r < length (rules ctx2). nonterm (rules ctx2 ! r) = m"
    using ld(3) Initialize_names [OF 2 ld(2)] r(2) by (auto simp: NTID_def has_rule_for_def)
  have c: "st_ctx st = ctx2" by (simp add: st)
  have "grammar_ok ctx2 m"
    using r(1) ro s c by (simp add: grammar_ok_def)
  then have "st_inv env J (bitmap_size s) ctx2 m st"
    unfolding st using env [unfolded c, OF s(1)] w J by (rule new_state_inv)
  then show ?thesis
    using s(1) c by auto
qed

text \<open>
  C14. From a grammar file to fuzzing: if \<open>LoadGrammar\<close> and \<open>Initialize\<close> accept the grammar, the length
  limit admits every rule, files can be written and bitmaps have the configured size, then any number of
  iterations of the fuzzing loop run without an error, and every text that the program under test is run
  on is a text of the grammar.
\<close>

theorem nautilus_runs_grammar_texts:
  assumes "NautilusFuzzer_new (NautilusState_new s e fs rs) extension is_file parsed = Inr st"
    and "roomy (st_ctx st)" and "writable_all fs" and "\<forall>e. length (env_bitmap env e) = bitmap_size s"
    and "runs e = []" and "\<forall>code tmout e. runs (env_run env code tmout e) = code # runs e"
  shows "\<exists>m st'. NTID (st_ctx st) ''START'' = Inr m \<and> repeatR n (FuzzLoop env) st = Inr st' \<and>
    set (runs (st_exec st')) \<subseteq> lang (st_ctx st) m"
proof -
  define L where "L = {code. \<forall>m. NTID (st_ctx st) ''START'' = Inr m \<longrightarrow> code \<in> lang (st_ctx st) m}"
  have "env_ok env (\<lambda>e. set (runs e) \<subseteq> L) (bitmap_size s) (lang (st_ctx st) m)" if "NTID (st_ctx st) ''START'' = Inr m" for m
    using assms(4,6) that by (auto simp: env_ok_def L_def)
  then obtain m where m: "NTID (st_ctx st) ''START'' = Inr m" "st_inv env (\<lambda>e. set (runs e) \<subseteq> L) (bitmap_size s) (st_ctx st) m st"
    using NautilusFuzzer_new_inv [OF assms(1-3), of env "\<lambda>e. set (runs e) \<subseteq> L"] assms(5) by auto
  obtain st' where "repeatR n (FuzzLoop env) st = Inr st'" "st_inv env (\<lambda>e. set (runs e) \<subseteq> L) (bitmap_size s) (st_ctx st) m st'"
    using repeatR_inv [where P = "st_inv env (\<lambda>e. set (runs e) \<subseteq> L) (bitmap_size s) (st_ctx st) m" and f = "FuzzLoop env", OF _ m(2)]
      FuzzLoop_inv by blast
  then show ?thesis
    using m(1) by (auto simp: st_inv_def L_def)
qed

definition demo_doc :: json where
  "demo_doc = JArray [JArray [JString ''S'', JArray [JInt 99]]]"

definition loaded_grammar :: Context where
  "loaded_grammar = empty_context\<lparr>
     rules := [\<lparr>nonterm = 0, children = [NTerm 1], nonterms = [1]\<rparr>, \<lparr>nonterm = 1, children = [Term ''c''], nonterms = []\<rparr>],
     nts_to_rules := [0 \<mapsto> [0], 1 \<mapsto> [1]], nt_ids_to_name := [(0, ''START''), (1, ''S'')],
     names_to_nt_id := [''START'' \<mapsto> 0, ''S'' \<mapsto> 1]\<rparr>"

definition loaded_ctx :: Context where
  "loaded_ctx = loaded_grammar\<lparr>rules_to_min_size := [0 \<mapsto> 2, 1 \<mapsto> 1], nts_to_min_size := [0 \<mapsto> 2, 1 \<mapsto> 1],
     rules_to_num_options := [0 \<mapsto> 1, 1 \<mapsto> 1], nts_to_num_options := [0 \<mapsto> 1, 1 \<mapsto> 1], max_len := 5\<rparr>"

lemma demo_load: "LoadGrammar empty_context ''.json'' True (Some demo_doc) = Inr loaded_grammar"
proof -
  have "scan ''{S}'' = [TokNT ''{S}'']" by code_simp
  moreover have "char_of (99 :: nat) = CHR ''c''" by code_simp
  ultimately show ?thesis
    by (simp add: LoadGrammar_def demo_doc_def exit_on_exception_def demo_add_simps empty_context_def loaded_grammar_def fun_upd_twist)
qed

lemma demo_loaded_init: "Initialize loaded_grammar 3 = Inr loaded_ctx"
  by (simp add: loaded_ctx_def loaded_grammar_def empty_context_def Initialize_def CalcMinLen_def CalcMinLen_loop.simps min_len_inner.simps
     min_len_visit_eq GetRule_def min_upd_def CalcRuleOrder_def fun_eq_iff upt_rec CalcNumOptions_def
     CalcNumOptions_loop.simps num_options_visit_eq options_upd_def size_max_def Let_def)

theorem nautilus_runs_grammar_texts_witness:
  "\<exists>m st'. NTID loaded_ctx ''START'' = Inr m \<and>
     repeatR 3 (FuzzLoop demo_env) ((NautilusState_new demo_setting [] demo_fs [])\<lparr>st_ctx := loaded_ctx\<rparr>) = Inr st' \<and>
     set (st_exec st') \<subseteq> lang loaded_ctx m"
proof -
  let ?st = "(NautilusState_new demo_setting [] demo_fs [])\<lparr>st_ctx := loaded_ctx\<rparr>"
  have 1: "NautilusFuzzer_new (NautilusState_new demo_setting [] demo_fs []) ''.json'' True (Some demo_doc) = Inr ?st"
    using demo_load demo_loaded_init by (simp add: NautilusFuzzer_new_def NautilusState_new_def demo_setting_def)
  have 2: "roomy (st_ctx ?st)"
    by (auto simp: roomy_def rule_min_def loaded_ctx_def loaded_grammar_def empty_context_def less_Suc_eq)
  have 3: "\<forall>e. length (env_bitmap demo_env e) = bitmap_size demo_setting"
    by (simp add: demo_env_def demo_setting_def split: list.splits)
  have 4: "\<forall>code tmout e. id (env_run demo_env code tmout e) = code # id e"
    by (simp add: demo_env_def)
  show ?thesis
    using nautilus_runs_grammar_texts [where runs = id, OF 1 2 demo_fs_writable 3 _ 4, of 3] by simp
qed

end
