(* ===== verification/AFL_Util.thy ===== *)
theory AFL_Util
  imports Fuzzuf_Random
begin

text \<open>
  Utilities of the AFL part (\<open>include/fuzzuf/algorithms/afl/afl_util.hpp\<close>, \<open>algorithms/afl/afl_util.cpp\<close>): the
  random numbers of AFL, the geometry of the effector map, the classification of hit counts in a
  coverage map, and the distribution of the havoc operators. Values of type \<open>u32\<close> that count bytes are
  natural numbers with the reduction modulo \<open>2^32\<close> written out.
\<close>

unbundle bit_operations_syntax

section \<open>Machine integers\<close>

type_synonym u8 = "8 word"

definition u32 :: "nat \<Rightarrow> nat" where
  "u32 x = x mod 2 ^ 32"

definition u32_sub :: "nat \<Rightarrow> nat \<Rightarrow> nat" where
  "u32_sub x y = (x + 2 ^ 32 - y) mod 2 ^ 32"

lemma u32_small [simp]: "x < 4294967296 \<Longrightarrow> u32 x = x"
  by (simp add: u32_def)

lemma u32_sub_small [simp]: "y \<le> x \<Longrightarrow> x < 4294967296 \<Longrightarrow> u32_sub x y = x - y"
  by (simp add: u32_sub_def) (metis Nat.diff_add_assoc2 add.commute less_imp_diff_less mod_add_self2 mod_less)

text \<open>\<open>UR\<close>: \<open>random() % limit\<close>. A limit of zero divides by zero.\<close>

fun UR :: "nat \<Rightarrow> rng \<Rightarrow> (nat \<times> rng) result" where
  "UR limit rs =
     (if limit = 0 then Inl Undefined
      else case rs of [] \<Rightarrow> Inr (0, []) | r # rs' \<Rightarrow> Inr ((r mod 2 ^ 31) mod limit, rs'))"

declare UR.simps [simp del]

lemma UR_zero [simp]: "UR 0 rs = Inl Undefined"
  by (simp add: UR.simps)

lemma UR_ok: "0 < limit \<Longrightarrow> \<exists>x rs'. UR limit rs = Inr (x, rs') \<and> x < limit"
  by (cases rs) (auto simp: UR.simps)

lemma UR_less: "UR limit rs = Inr (x, rs') \<Longrightarrow> x < limit"
  by (cases "limit = 0") (use UR_ok [of limit rs] in auto)

section \<open>The effector map\<close>

definition EffMapScale2 :: nat where "EffMapScale2 = 3"

definition EFF_APOS :: "nat \<Rightarrow> nat" where
  "EFF_APOS p = drop_bit EffMapScale2 p"

definition EFF_REM :: "nat \<Rightarrow> nat" where
  "EFF_REM x = x AND (push_bit EffMapScale2 1 - 1)"

definition EFF_ALEN :: "nat \<Rightarrow> nat" where
  "EFF_ALEN l = u32 (EFF_APOS l + (if EFF_REM l \<noteq> 0 then 1 else 0))"

definition EFF_SPAN_ALEN :: "nat \<Rightarrow> nat \<Rightarrow> nat" where
  "EFF_SPAN_ALEN p l = u32 (u32_sub (EFF_APOS (u32_sub (u32 (p + l)) 1)) (EFF_APOS p) + 1)"

lemma EFF_APOS_div: "EFF_APOS p = p div 8"
  by (simp add: EFF_APOS_def EffMapScale2_def drop_bit_eq_div)

lemma EFF_REM_mod: "EFF_REM x = x mod 8"
  using take_bit_eq_mask [of 3 x] by (simp add: EFF_REM_def EffMapScale2_def mask_eq_exp_minus_1 take_bit_eq_mod push_bit_eq_mult)

lemma EFF_ALEN_ceil:
  assumes "l < 2 ^ 32"
  shows "EFF_ALEN l = (l + 7) div 8"
proof -
  have "(l + 7) div 8 = l div 8 + (if l mod 8 \<noteq> 0 then 1 else 0)"
    by (auto simp: div_add1_eq [of l 7 8])
  moreover have "l div 8 + 1 < 2 ^ 32"
    using assms by (simp add: div_less_iff_less_mult)
  ultimately show ?thesis
    by (simp add: EFF_ALEN_def EFF_APOS_div EFF_REM_mod)
qed

lemma EFF_APOS_less: "p < l \<Longrightarrow> l < 2 ^ 32 \<Longrightarrow> EFF_APOS p < EFF_ALEN l"
  by (simp add: EFF_ALEN_ceil EFF_APOS_div)

text \<open>
  The span of a block: for a non-empty block the cells from the first to the last byte. An empty block
  at position 0 wraps around.
\<close>

lemma EFF_SPAN_ALEN_block:
  assumes "0 < l" and "p + l \<le> n" and "n < 2 ^ 32"
  shows "EFF_SPAN_ALEN p l = EFF_APOS (p + l - 1) - EFF_APOS p + 1" and "EFF_APOS p + EFF_SPAN_ALEN p l \<le> EFF_ALEN n"
proof -
  have 1: "u32_sub (u32 (p + l)) 1 = p + l - 1"
    using assms by simp
  have 2: "EFF_APOS p \<le> EFF_APOS (p + l - 1)" "EFF_APOS (p + l - 1) < 2 ^ 29"
    using assms by (simp_all add: EFF_APOS_div div_le_mono)
  then show e: "EFF_SPAN_ALEN p l = EFF_APOS (p + l - 1) - EFF_APOS p + 1"
    unfolding EFF_SPAN_ALEN_def 1 by simp
  show "EFF_APOS p + EFF_SPAN_ALEN p l \<le> EFF_ALEN n"
    using EFF_APOS_less [of "p + l - 1" n] assms 2 unfolding e by linarith
qed

lemma EFF_SPAN_ALEN_empty: "EFF_SPAN_ALEN 0 0 = 2 ^ 29"
  by (simp add: EFF_SPAN_ALEN_def u32_sub_def u32_def EFF_APOS_div)

section \<open>Classification of hit counts\<close>

definition InitCountClass8 :: "u8 list" where
  "InitCountClass8 =
     [0, 1, 2, 4] @ replicate 4 8 @ replicate 8 16 @ replicate 16 32 @ replicate 96 64 @ replicate 128 128"

definition InitCountClass16 :: "u8 list \<Rightarrow> 16 word list" where
  "InitCountClass16 lookup8 =
     concat (map (\<lambda>b1. map (\<lambda>b2. push_bit 8 (ucast (lookup8 ! b1)) OR ucast (lookup8 ! b2)) [0..<256]) [0..<256])"

text \<open>A memory is its bytes; the words of the source are read and written in the byte order of the machine.\<close>

definition read16 :: "u8 list \<Rightarrow> nat \<Rightarrow> 16 word result" where
  "read16 mem k =
     (if 2 * k + 1 < length mem then Inr (ucast (mem ! (2 * k)) OR push_bit 8 (ucast (mem ! (2 * k + 1)))) else Inl Undefined)"

definition write16 :: "u8 list \<Rightarrow> nat \<Rightarrow> 16 word \<Rightarrow> u8 list result" where
  "write16 mem k v =
     (if 2 * k + 1 < length mem then Inr (mem[2 * k := ucast v, 2 * k + 1 := ucast (drop_bit 8 v)]) else Inl Undefined)"

definition word_nonzero :: "u8 list \<Rightarrow> nat \<Rightarrow> nat \<Rightarrow> bool result" where
  "word_nonzero mem width p =
     (if (p + 1) * width \<le> length mem then Inr (\<exists>b \<in> set (take width (drop (p * width) mem)). b \<noteq> 0)
      else Inl Undefined)"

text \<open>The inner loop over the 16-bit halves \<open>j\<close>, \<open>j + 1\<close>, ... of a word, and the loop over the words.\<close>

fun classify_word :: "16 word list \<Rightarrow> u8 list \<Rightarrow> nat list \<Rightarrow> u8 list result" where
  "classify_word lookup16 mem [] = Inr mem"
| "classify_word lookup16 mem (j # js) =
     bindR (read16 mem j) (\<lambda>v.
     bindR (idx_vec lookup16 (unat v)) (\<lambda>c.
     bindR (write16 mem j c) (\<lambda>mem'. classify_word lookup16 mem' js)))"

fun classify_loop :: "16 word list \<Rightarrow> nat \<Rightarrow> nat \<Rightarrow> nat \<Rightarrow> u8 list \<Rightarrow> u8 list result" where
  "classify_loop lookup16 width 0 p mem = Inr mem"
| "classify_loop lookup16 width (Suc i) p mem =
     bindR (word_nonzero mem width p) (\<lambda>nz.
     bindR (if nz then classify_word lookup16 mem [p * (width div 2)..<(p + 1) * (width div 2)] else Inr mem) (\<lambda>mem'.
     classify_loop lookup16 width i (Suc p) mem'))"

definition ClassifyCounts :: "nat \<Rightarrow> u8 list \<Rightarrow> nat \<Rightarrow> u8 list result" where
  "ClassifyCounts width mem map_size =
     (let wlog = (if width = 4 then 2 else 3)
      in classify_loop (InitCountClass16 InitCountClass8) width (drop_bit wlog map_size) 0 mem)"

definition simplify_lookup :: "u8 list" where
  "simplify_lookup = (replicate 256 128)[0 := 1]"

fun simplify_word :: "u8 list \<Rightarrow> nat list \<Rightarrow> u8 list result" where
  "simplify_word mem [] = Inr mem"
| "simplify_word mem (j # js) =
     bindR (idx_vec mem j) (\<lambda>b.
     bindR (idx_vec simplify_lookup (unat b)) (\<lambda>c. simplify_word (mem[j := c]) js))"

fun simplify_loop :: "nat \<Rightarrow> nat \<Rightarrow> nat \<Rightarrow> u8 list \<Rightarrow> u8 list result" where
  "simplify_loop width 0 p mem = Inr mem"
| "simplify_loop width (Suc i) p mem =
     bindR (word_nonzero mem width p) (\<lambda>nz.
     bindR (if nz then simplify_word mem [p * width..<(p + 1) * width]
            else Inr (take (p * width) mem @ replicate width 1 @ drop ((p + 1) * width) mem)) (\<lambda>mem'.
     simplify_loop width i (Suc p) mem'))"

definition SimplifyTrace :: "nat \<Rightarrow> u8 list \<Rightarrow> nat \<Rightarrow> u8 list result" where
  "SimplifyTrace width mem map_size =
     (let wlog = (if width = 4 then 2 else 3) in simplify_loop width (drop_bit wlog map_size) 0 mem)"

text \<open>What the two functions are for, on one byte.\<close>

definition count_class :: "u8 \<Rightarrow> u8" where
  "count_class b =
     (if b = 0 then 0 else if b = 1 then 1 else if b = 2 then 2 else if b = 3 then 4
      else if b < 8 then 8 else if b < 16 then 16 else if b < 32 then 32 else if b < 128 then 64 else 128)"

definition hit_mark :: "u8 \<Rightarrow> u8" where
  "hit_mark b = (if b = 0 then 1 else 128)"

lemma u8_less: "unat (b :: u8) < 256"
  by (rule order_less_le_trans [OF unsigned_less]) simp

lemma lookup8_all: "list_all (\<lambda>n. InitCountClass8 ! n = count_class (of_nat n)) [0..<256]"
  by code_simp

lemma lookup8_count_class: "InitCountClass8 ! unat b = count_class b"
  using lookup8_all u8_less [of b] by (auto simp: list_all_iff)

lemma nth_concat_rows:
  "i < n \<Longrightarrow> j < m \<Longrightarrow> concat (map (\<lambda>i. map (f i) [0..<m]) [0..<n]) ! (i * m + j) = f i j"
proof (induction n)
  case (Suc n)
  have len: "length (concat (map (\<lambda>i. map (f i) [0..<m]) [0..<n])) = n * m" for n
    by (induction n) simp_all
  have "i * m + j < n * m" if "i < n"
    using that Suc.prems(2) by (metis Suc_leI add.commute add_less_cancel_left less_le_trans mult_Suc mult_le_mono1)
  then show ?case
    using Suc by (cases "i = n") (auto simp: nth_append len)
qed simp

definition pair16 :: "u8 \<Rightarrow> u8 \<Rightarrow> 16 word" where
  "pair16 lo hi = ucast lo OR push_bit 8 (ucast hi)"

lemma u8_bit: "bit (b :: u8) n \<Longrightarrow> n < 8"
  using bit_imp_le_length [of b n] by simp

lemma pair16_split: "ucast (pair16 lo hi) = lo" "ucast (drop_bit 8 (pair16 lo hi)) = hi"
  by (auto intro!: bit_eqI simp: pair16_def bit_simps dest: u8_bit)

lemma unat_pair16: "unat (pair16 lo hi) = unat hi * 256 + unat lo"
proof -
  have "ucast lo AND push_bit 8 (ucast hi) = (0 :: 16 word)"
    by (rule bit_eqI) (auto simp: bit_simps dest: u8_bit)
  then have "pair16 lo hi = ucast lo + push_bit 8 (ucast hi)"
    unfolding pair16_def by (simp add: disjunctive_add_eq_or)
  then show ?thesis
    using u8_less [of lo] u8_less [of hi]
    by (simp add: unat_word_ariths push_bit_eq_mult unsigned_ucast_eq take_bit_eq_mod)
qed

lemma length_lookup16: "length (InitCountClass16 l) = 65536"
  by (simp add: InitCountClass16_def length_concat comp_def sum_list_triv)

lemma lookup16_pair: "idx_vec (InitCountClass16 InitCountClass8) (unat (pair16 lo hi)) = Inr (pair16 (count_class lo) (count_class hi))"
  using u8_less [of lo] u8_less [of hi] unfolding idx_vec_def length_lookup16 unat_pair16
  by (simp add: InitCountClass16_def nth_concat_rows lookup8_count_class pair16_def or.commute)

lemma classify_half:
  assumes "2 * k + 1 < length mem"
  shows "bindR (read16 mem k) (\<lambda>v. bindR (idx_vec (InitCountClass16 InitCountClass8) (unat v)) (write16 mem k)) =
    Inr (mem[2 * k := count_class (mem ! (2 * k)), 2 * k + 1 := count_class (mem ! (2 * k + 1))])"
  using assms by (simp add: read16_def write16_def pair16_def [symmetric] lookup16_pair pair16_split)

text \<open>Both loops apply a function to every byte of a range, a word at a time.\<close>

definition on_range :: "('a \<Rightarrow> 'a) \<Rightarrow> nat \<Rightarrow> nat \<Rightarrow> 'a list \<Rightarrow> 'a list" where
  "on_range f a b xs = take a xs @ map f (take (b - a) (drop a xs)) @ drop b xs"

lemma length_on_range [simp]: "a \<le> b \<Longrightarrow> b \<le> length xs \<Longrightarrow> length (on_range f a b xs) = length xs"
  by (simp add: on_range_def)

lemma nth_on_range:
  "a \<le> b \<Longrightarrow> b \<le> length xs \<Longrightarrow> i < length xs \<Longrightarrow> on_range f a b xs ! i = (if a \<le> i \<and> i < b then f (xs ! i) else xs ! i)"
  by (auto simp: on_range_def nth_append min_def)

lemma on_range_eqI:
  assumes "a \<le> b" "b \<le> length xs" "length ys = length xs"
    "\<And>i. i < length xs \<Longrightarrow> ys ! i = (if a \<le> i \<and> i < b then f (xs ! i) else xs ! i)"
  shows "ys = on_range f a b xs"
  using assms by (intro nth_equalityI) (simp_all add: nth_on_range)

lemma on_range_empty [simp]: "on_range f a a xs = xs"
  by (simp add: on_range_def)

lemma on_range_trans:
  "a \<le> b \<Longrightarrow> b \<le> c \<Longrightarrow> c \<le> length xs \<Longrightarrow> on_range f b c (on_range f a b xs) = on_range f a c xs"
  by (rule on_range_eqI) (auto simp: nth_on_range)

lemma on_range_id: "a \<le> b \<Longrightarrow> b \<le> length xs \<Longrightarrow> (\<And>i. a \<le> i \<Longrightarrow> i < b \<Longrightarrow> f (xs ! i) = xs ! i) \<Longrightarrow> on_range f a b xs = xs"
  by (rule on_range_eqI [symmetric]) auto

lemma classify_word_range:
  "a \<le> b \<Longrightarrow> 2 * b \<le> length mem \<Longrightarrow>
   classify_word (InitCountClass16 InitCountClass8) mem [a..<b] = Inr (on_range count_class (2 * a) (2 * b) mem)"
proof (induction "b - a" arbitrary: a mem)
  case (Suc d)
  let ?mem = "mem[2 * a := count_class (mem ! (2 * a)), 2 * a + 1 := count_class (mem ! (2 * a + 1))]"
  have ab: "a < b" and "[a..<b] = a # [Suc a..<b]"
    using Suc.hyps(2) by (simp_all add: upt_conv_Cons)
  then have "classify_word (InitCountClass16 InitCountClass8) mem [a..<b] =
      classify_word (InitCountClass16 InitCountClass8) ?mem [Suc a..<b]"
    using classify_half [of a mem] Suc.prems(2) by (simp add: bindR_assoc [symmetric])
  also have "\<dots> = Inr (on_range count_class (2 * Suc a) (2 * b) ?mem)"
    by (rule Suc.hyps(1)) (use Suc ab in auto)
  also have "?mem = on_range count_class (2 * a) (2 * Suc a) mem"
    by (rule on_range_eqI) (use Suc.prems ab in \<open>auto simp: nth_list_update less_Suc_eq\<close>)
  finally show ?case
    using ab Suc.prems by (simp add: on_range_trans)
qed simp

lemma word_nonzero_range:
  assumes "(p + 1) * width \<le> length mem"
  shows "word_nonzero mem width p = Inr (\<exists>i. p * width \<le> i \<and> i < (p + 1) * width \<and> mem ! i \<noteq> 0)"
proof -
  have "take width (drop (p * width) mem) = map (\<lambda>i. mem ! (p * width + i)) [0..<width]"
    by (rule nth_equalityI) (use assms in auto)
  then have "(\<exists>b \<in> set (take width (drop (p * width) mem)). b \<noteq> 0) \<longleftrightarrow> (\<exists>i < width. mem ! (p * width + i) \<noteq> 0)"
    by auto
  also have "\<dots> \<longleftrightarrow> (\<exists>i. p * width \<le> i \<and> i < (p + 1) * width \<and> mem ! i \<noteq> 0)" (is "?A \<longleftrightarrow> ?B")
  proof
    assume ?A
    then obtain i where "i < width" "mem ! (p * width + i) \<noteq> 0" by blast
    then show ?B by (intro exI [of _ "p * width + i"]) simp
  next
    assume ?B
    then obtain i where "p * width \<le> i" "i < p * width + width" "mem ! i \<noteq> 0" by auto
    then show ?A by (intro exI [of _ "i - p * width"]) auto
  qed
  finally show ?thesis
    using assms by (simp add: word_nonzero_def)
qed

lemma classify_loop_range:
  "even width \<Longrightarrow> (p + i) * width \<le> length mem \<Longrightarrow>
   classify_loop (InitCountClass16 InitCountClass8) width i p mem = Inr (on_range count_class (p * width) ((p + i) * width) mem)"
proof (induction i arbitrary: p mem)
  case (Suc i)
  let ?R = "on_range count_class (p * width) ((p + 1) * width)"
  have b: "(p + 1) * width \<le> length mem"
    using Suc.prems(2) by (metis add_le_cancel_left le_trans mult_le_mono1 One_nat_def Suc_le_mono zero_le)
  have "(if \<exists>i. p * width \<le> i \<and> i < (p + 1) * width \<and> mem ! i \<noteq> 0
      then classify_word (InitCountClass16 InitCountClass8) mem [p * (width div 2)..<(p + 1) * (width div 2)] else Inr mem) = Inr (?R mem)"
    using Suc.prems(1) b classify_word_range [of "p * (width div 2)" "(p + 1) * (width div 2)" mem]
      on_range_id [of "p * width" "(p + 1) * width" mem count_class]
    by (auto simp: count_class_def mult.left_commute elim!: evenE)
  then have "classify_loop (InitCountClass16 InitCountClass8) width (Suc i) p mem =
      classify_loop (InitCountClass16 InitCountClass8) width i (Suc p) (?R mem)"
    by (simp add: word_nonzero_range [OF b] del: mult_Suc)
  also have "\<dots> = Inr (on_range count_class (Suc p * width) ((Suc p + i) * width) (?R mem))"
    by (rule Suc.IH) (use Suc.prems b in auto)
  finally show ?case
    using b Suc.prems(2) on_range_trans [of "p * width" "Suc p * width" "(Suc p + i) * width" mem count_class] by simp
qed simp

lemma simplify_lookup_hit: "idx_vec simplify_lookup (unat b) = Inr (hit_mark b)"
  using u8_less [of b] by (auto simp: idx_vec_def simplify_lookup_def hit_mark_def nth_list_update unat_eq_0)

lemma simplify_word_range:
  "a \<le> b \<Longrightarrow> b \<le> length mem \<Longrightarrow> simplify_word mem [a..<b] = Inr (on_range hit_mark a b mem)"
proof (induction "b - a" arbitrary: a mem)
  case (Suc d)
  let ?mem = "mem[a := hit_mark (mem ! a)]"
  have ab: "a < b" and "[a..<b] = a # [Suc a..<b]"
    using Suc.hyps(2) by (simp_all add: upt_conv_Cons)
  then have "simplify_word mem [a..<b] = simplify_word ?mem [Suc a..<b]"
    using Suc.prems(2) by (simp add: simplify_lookup_hit)
  also have "\<dots> = Inr (on_range hit_mark (Suc a) b ?mem)"
    by (rule Suc.hyps(1)) (use Suc ab in auto)
  also have "?mem = on_range hit_mark a (Suc a) mem"
    by (rule on_range_eqI) (use Suc.prems ab in \<open>auto simp: nth_list_update less_Suc_eq\<close>)
  finally show ?case
    using ab Suc.prems by (simp add: on_range_trans)
qed simp

lemma simplify_loop_range:
  "(p + i) * width \<le> length mem \<Longrightarrow>
   simplify_loop width i p mem = Inr (on_range hit_mark (p * width) ((p + i) * width) mem)"
proof (induction i arbitrary: p mem)
  case (Suc i)
  let ?a = "p * width" and ?b = "(p + 1) * width"
  have b: "?b \<le> length mem"
    using Suc.prems by (metis add_le_cancel_left le_trans mult_le_mono1 One_nat_def Suc_le_mono zero_le)
  have "take ?a mem @ replicate width 1 @ drop ?b mem = on_range hit_mark ?a ?b mem"
    if "\<forall>i. ?a \<le> i \<and> i < ?b \<longrightarrow> mem ! i = 0"
    by (rule on_range_eqI) (use b that in \<open>auto simp: nth_append min_def hit_mark_def\<close>)
  then have "(if \<exists>i. ?a \<le> i \<and> i < ?b \<and> mem ! i \<noteq> 0 then simplify_word mem [?a..<?b]
      else Inr (take ?a mem @ replicate width 1 @ drop ?b mem)) = Inr (on_range hit_mark ?a ?b mem)"
    using simplify_word_range [of ?a ?b mem] b by auto
  then have "simplify_loop width (Suc i) p mem = simplify_loop width i (Suc p) (on_range hit_mark ?a ?b mem)"
    by (simp add: word_nonzero_range [OF b] del: mult_Suc)
  also have "\<dots> = Inr (on_range hit_mark (Suc p * width) ((Suc p + i) * width) (on_range hit_mark ?a ?b mem))"
    by (rule Suc.IH) (use Suc.prems b in auto)
  finally show ?case
    using b Suc.prems on_range_trans [of ?a "Suc p * width" "(Suc p + i) * width" mem hit_mark] by simp
qed simp

lemma word_count:
  assumes "width = 4 \<or> width = 8" and "width dvd map_size"
  shows "drop_bit (if width = 4 then 2 else 3) map_size * width = (map_size :: nat)"
  using assms by (auto simp: drop_bit_eq_div)

lemma coverage_passes:
  assumes "width = 4 \<or> width = 8" and "width dvd map_size" and "map_size \<le> length mem"
  shows "ClassifyCounts width mem map_size = Inr (map count_class (take map_size mem) @ drop map_size mem) \<and>
    SimplifyTrace width mem map_size = Inr (map hit_mark (take map_size mem) @ drop map_size mem)"
proof -
  have "even width"
    using assms(1) by auto
  then show ?thesis
    using classify_loop_range [of width 0 "drop_bit (if width = 4 then 2 else 3) map_size" mem]
      simplify_loop_range [of 0 "drop_bit (if width = 4 then 2 else 3) map_size" width mem] word_count [OF assms(1,2)] assms(3)
    unfolding ClassifyCounts_def SimplifyTrace_def Let_def by (simp add: on_range_def)
qed

text \<open>
  C32. The optimised passes over a coverage map, which look at a machine word at a time, skip words of
  zeros and use a table for two bytes at once, do what they mean to do byte by byte:
  \<open>ClassifyCounts\<close> replaces every hit count by its bucket, \<open>SimplifyTrace\<close> by 1 or 128, over the whole
  map, for both word sizes, and neither accesses memory outside of it.
\<close>

theorem coverage_passes_bytewise:
  assumes "width = 4 \<or> width = 8" and "width dvd map_size" and "map_size \<le> length mem"
  shows "ClassifyCounts width mem map_size = Inr (map count_class (take map_size mem) @ drop map_size mem) \<and>
    SimplifyTrace width mem map_size = Inr (map hit_mark (take map_size mem) @ drop map_size mem)"
  by (rule coverage_passes [OF assms])

theorem coverage_passes_bytewise_witness:
  "ClassifyCounts 4 [0, 1, 3, 200, 0, 0, 0, 0, 5] 8 = Inr [0, 1, 4, 128, 0, 0, 0, 0, 5] \<and>
   SimplifyTrace 4 [0, 1, 3, 200, 0, 0, 0, 0, 5] 8 = Inr [1, 128, 128, 128, 1, 1, 1, 1, 5]"
  using coverage_passes_bytewise [of 4 8 "[0, 1, 3, 200, 0, 0, 0, 0, 5]"] by (simp add: count_class_def hit_mark_def)

section \<open>Havoc operators\<close>

datatype HavocCase =
    FLIP1 | FLIP2 | FLIP4 | FLIP8 | FLIP16 | FLIP32
  | ADD8 | ADD16_LE | ADD16_BE | ADD32_LE | ADD32_BE
  | SUB8 | SUB16_LE | SUB16_BE | SUB32_LE | SUB32_BE
  | INT8 | INT16_LE | INT16_BE | INT32_LE | INT32_BE
  | XOR_BYTE | DELETE_BYTES | CLONE_BYTES
  | INSERT_SAME_BYTE | INSERT_EXTRA | INSERT_AEXTRA
  | OVERWRITE_WITH_CHUNK | OVERWRITE_WITH_SAME_BYTE
  | OVERWRITE_WITH_EXTRA | OVERWRITE_WITH_AEXTRA
  | SUBADD8 | SUBADD16 | SUBADD32

text \<open>The enumeration in the order of its values.\<close>

definition havoc_cases :: "HavocCase list" where
  "havoc_cases =
     [FLIP1, FLIP2, FLIP4, FLIP8, FLIP16, FLIP32,
      ADD8, ADD16_LE, ADD16_BE, ADD32_LE, ADD32_BE,
      SUB8, SUB16_LE, SUB16_BE, SUB32_LE, SUB32_BE,
      INT8, INT16_LE, INT16_BE, INT32_LE, INT32_BE,
      XOR_BYTE, DELETE_BYTES, CLONE_BYTES,
      INSERT_SAME_BYTE, INSERT_EXTRA, INSERT_AEXTRA,
      OVERWRITE_WITH_CHUNK, OVERWRITE_WITH_SAME_BYTE,
      OVERWRITE_WITH_EXTRA, OVERWRITE_WITH_AEXTRA,
      SUBADD8, SUBADD16, SUBADD32]"

definition NUM_CASE :: nat where
  "NUM_CASE = length havoc_cases"

fun case_weight :: "bool \<Rightarrow> bool \<Rightarrow> HavocCase \<Rightarrow> rat" where
  "case_weight has_extras has_a_extras FLIP1 = 2"
| "case_weight has_extras has_a_extras XOR_BYTE = 2"
| "case_weight has_extras has_a_extras DELETE_BYTES = 4"
| "case_weight has_extras has_a_extras CLONE_BYTES = 3 / 2"
| "case_weight has_extras has_a_extras INSERT_SAME_BYTE = 1 / 2"
| "case_weight has_extras has_a_extras OVERWRITE_WITH_CHUNK = 3 / 2"
| "case_weight has_extras has_a_extras OVERWRITE_WITH_SAME_BYTE = 1 / 2"
| "case_weight has_extras has_a_extras INT8 = 2"
| "case_weight has_extras has_a_extras INT16_LE = 1"
| "case_weight has_extras has_a_extras INT16_BE = 1"
| "case_weight has_extras has_a_extras INT32_LE = 1"
| "case_weight has_extras has_a_extras INT32_BE = 1"
| "case_weight has_extras has_a_extras SUB8 = 2"
| "case_weight has_extras has_a_extras SUB16_LE = 1"
| "case_weight has_extras has_a_extras SUB16_BE = 1"
| "case_weight has_extras has_a_extras SUB32_LE = 1"
| "case_weight has_extras has_a_extras SUB32_BE = 1"
| "case_weight has_extras has_a_extras ADD8 = 2"
| "case_weight has_extras has_a_extras ADD16_LE = 1"
| "case_weight has_extras has_a_extras ADD16_BE = 1"
| "case_weight has_extras has_a_extras ADD32_LE = 1"
| "case_weight has_extras has_a_extras ADD32_BE = 1"
| "case_weight has_extras has_a_extras INSERT_EXTRA =
     (if has_extras \<and> has_a_extras then 1 else if has_extras then 2 else 0)"
| "case_weight has_extras has_a_extras OVERWRITE_WITH_EXTRA =
     (if has_extras \<and> has_a_extras then 1 else if has_extras then 2 else 0)"
| "case_weight has_extras has_a_extras INSERT_AEXTRA =
     (if has_extras \<and> has_a_extras then 1 else if has_extras then 0 else if has_a_extras then 2 else 0)"
| "case_weight has_extras has_a_extras OVERWRITE_WITH_AEXTRA =
     (if has_extras \<and> has_a_extras then 1 else if has_extras then 0 else if has_a_extras then 2 else 0)"
| "case_weight has_extras has_a_extras _ = 0"

definition AFLGetCaseWeights :: "bool \<Rightarrow> bool \<Rightarrow> rat list" where
  "AFLGetCaseWeights has_extras has_a_extras = map (case_weight has_extras has_a_extras) havoc_cases"

definition AFLHavocCaseDistrib :: "'e list \<Rightarrow> 'e list \<Rightarrow> rng \<Rightarrow> (nat \<times> rng) result" where
  "AFLHavocCaseDistrib extras a_extras rs =
     bindR (Walker_new (AFLGetCaseWeights (extras \<noteq> []) (a_extras \<noteq> []))) (\<lambda>W. Inr (Walker_sample W rs))"

text \<open>The operators that \<open>Mutator::Havoc\<close> may be asked for, given which dictionaries have entries.\<close>

definition case_allowed :: "bool \<Rightarrow> bool \<Rightarrow> HavocCase \<Rightarrow> bool" where
  "case_allowed has_extras has_a_extras c =
     (if c \<in> {INSERT_EXTRA, OVERWRITE_WITH_EXTRA} then has_extras
      else if c \<in> {INSERT_AEXTRA, OVERWRITE_WITH_AEXTRA} then has_a_extras else True)"

lemma havoc_distrib_ok:
  "\<exists>r rs'. AFLHavocCaseDistrib extras a_extras rs = Inr (r, rs') \<and> r < NUM_CASE \<and>
     0 < case_weight (extras \<noteq> []) (a_extras \<noteq> []) (havoc_cases ! r) \<and>
     case_allowed (extras \<noteq> []) (a_extras \<noteq> []) (havoc_cases ! r)"
proof -
  let ?e = "extras \<noteq> []" and ?a = "a_extras \<noteq> []"
  let ?ws = "AFLGetCaseWeights ?e ?a"
  have len: "length ?ws = NUM_CASE" "?ws \<noteq> []"
    by (simp_all add: AFLGetCaseWeights_def NUM_CASE_def havoc_cases_def)
  have nn: "\<forall>p \<in> set ?ws. 0 \<le> p"
    by (simp add: AFLGetCaseWeights_def havoc_cases_def)
  have pos: "0 < sum_list ?ws"
    by (simp add: AFLGetCaseWeights_def havoc_cases_def)
  obtain W where W: "Walker_new ?ws = Inr W"
    using Walker_new_mass [OF len(2) nn pos] by blast
  obtain r rs' where r: "Walker_sample W rs = (r, rs')"
    by fastforce
  have rn: "r < NUM_CASE" and "0 < ?ws ! r"
    using Walker_sample_positive [OF len(2) nn pos W r] len(1) by simp_all
  then have w: "0 < case_weight ?e ?a (havoc_cases ! r)"
    by (simp add: AFLGetCaseWeights_def NUM_CASE_def)
  have "AFLHavocCaseDistrib extras a_extras rs = Inr (r, rs')"
    by (simp add: AFLHavocCaseDistrib_def W r)
  then show ?thesis
    using rn w by (auto simp: case_allowed_def split: if_splits)
qed

text \<open>
  \<open>AFLHavocCaseDistrib\<close> never fails, and whatever the random source, it returns the number of a
  havoc operator of positive weight; in particular it selects the operators on a dictionary only when
  that dictionary has entries, which \<open>Mutator::Havoc\<close> requires of it.
\<close>

theorem AFLHavocCaseDistrib_contract:
  "\<exists>r rs'. AFLHavocCaseDistrib extras a_extras rs = Inr (r, rs') \<and> r < NUM_CASE \<and>
     0 < case_weight (extras \<noteq> []) (a_extras \<noteq> []) (havoc_cases ! r) \<and>
     case_allowed (extras \<noteq> []) (a_extras \<noteq> []) (havoc_cases ! r)"
  by (rule havoc_distrib_ok)

end
