(* ===== verification/AFL_Mutator.thy ===== *)
theory AFL_Mutator
  imports AFL_Util
begin

text \<open>
  The mutators of the AFL family: \<open>Mutator\<close> (\<open>include/fuzzuf/mutator/mutator.hpp\<close> and
  \<open>include/fuzzuf/mutator/templates/mutator.hpp\<close>) and \<open>AFLMutatorTemplate\<close>
  (\<open>include/fuzzuf/algorithms/afl/afl_mutator.hpp\<close>, \<open>templates/afl_mutator.hpp\<close>). Buffers are allocations:
  every access outside of an allocation, or through a null pointer, is the error \<open>Undefined\<close>, so that a
  theorem that an operation succeeds is a theorem about memory safety. This theory holds the definitions.
\<close>

section \<open>Memory\<close>

type_synonym buffer = "u8 list option"

text \<open>Reading and writing a block at a position of a buffer: \<open>memcpy\<close>, \<open>memmove\<close> and \<open>memset\<close>.\<close>

definition rd :: "buffer \<Rightarrow> nat \<Rightarrow> nat \<Rightarrow> u8 list result" where
  "rd b pos n =
     (case b of None \<Rightarrow> Inl Undefined
      | Some bs \<Rightarrow> if pos + n \<le> length bs then Inr (take n (drop pos bs)) else Inl Undefined)"

definition wr :: "buffer \<Rightarrow> nat \<Rightarrow> u8 list \<Rightarrow> buffer result" where
  "wr b pos xs =
     (case b of None \<Rightarrow> Inl Undefined
      | Some bs \<Rightarrow>
          if pos + length xs \<le> length bs then Inr (Some (take pos bs @ xs @ drop (pos + length xs) bs))
          else Inl Undefined)"

text \<open>\<open>new u8[n]\<close> whose bytes are all set by the copies that follow it.\<close>

definition new_filled :: "nat \<Rightarrow> u8 list \<Rightarrow> buffer result" where
  "new_filled n xs = (if length xs = n then Inr (Some xs) else Inl Undefined)"

section \<open>Values of type \<open>u8\<close>, \<open>u16\<close> and \<open>u32\<close>\<close>

text \<open>A value of an unsigned type of \<open>n\<close> bytes is kept in 32 bits.\<close>

type_synonym uint = "32 word"

definition trunc :: "nat \<Rightarrow> uint \<Rightarrow> uint" where
  "trunc n v = take_bit (8 * n) v"

definition le_bytes :: "nat \<Rightarrow> uint \<Rightarrow> u8 list" where
  "le_bytes n v = map (\<lambda>i. ucast (drop_bit (8 * i) v)) [0..<n]"

fun of_le :: "u8 list \<Rightarrow> uint" where
  "of_le [] = 0"
| "of_le (b # bs) = ucast b OR push_bit 8 (of_le bs)"

definition SWAP16 :: "uint \<Rightarrow> uint" where
  "SWAP16 x = (let r = take_bit 16 x in take_bit 16 (push_bit 8 r OR drop_bit 8 r))"

definition SWAP32 :: "uint \<Rightarrow> uint" where
  "SWAP32 r =
     push_bit 24 r OR drop_bit 24 r OR (push_bit 8 r AND 0x00FF0000) OR (drop_bit 8 r AND 0x0000FF00)"

definition interesting_8 :: "int list" where
  "interesting_8 = [-128, -1, 0, 1, 16, 32, 64, 100, 127]"

definition interesting_16 :: "int list" where
  "interesting_16 = interesting_8 @ [-32768, -129, 128, 255, 256, 512, 1000, 1024, 4096, 32767]"

definition interesting_32 :: "int list" where
  "interesting_32 =
     interesting_16 @ [-2147483648, -100663046, -32769, 32768, 65535, 65536, 100663045, 2147483647]"

section \<open>The base mutator\<close>

record Mutator =
  input :: "u8 list"
  outbuf :: buffer
  len :: nat
  tmpbuf :: buffer
  temp_len :: nat
  splbuf :: buffer
  spl_len :: nat
  val_for_restore :: uint
  pos_for_restore :: nat

text \<open>
  The constructor; the last two fields belong to the derived class and are set before they are read.
\<close>

definition Mutator_new :: "u8 list \<Rightarrow> Mutator" where
  "Mutator_new inp =
     \<lparr>input = inp, outbuf = Some inp, len = length inp, tmpbuf = None, temp_len = 0, splbuf = None, spl_len = 0,
      val_for_restore = 0, pos_for_restore = 0\<rparr>"

definition GetBuf :: "Mutator \<Rightarrow> u8 list result" where
  "GetBuf m = rd (outbuf m) 0 (len m)"

definition ReadMem :: "nat \<Rightarrow> Mutator \<Rightarrow> nat \<Rightarrow> uint result" where
  "ReadMem n m pos = bindR (rd (outbuf m) pos n) (\<lambda>bs. Inr (of_le bs))"

definition Overwrite :: "nat \<Rightarrow> Mutator \<Rightarrow> nat \<Rightarrow> uint \<Rightarrow> Mutator result" where
  "Overwrite n m pos v = bindR (wr (outbuf m) pos (le_bytes n v)) (\<lambda>b. Inr (m\<lparr>outbuf := b\<rparr>))"

text \<open>The arithmetic of \<open>AddN\<close> and \<open>SubN\<close>, with \<open>f\<close> the addition or the subtraction.\<close>

definition arith_val :: "(uint \<Rightarrow> uint \<Rightarrow> uint) \<Rightarrow> nat \<Rightarrow> uint \<Rightarrow> uint \<Rightarrow> bool \<Rightarrow> uint" where
  "arith_val f n orig val be =
     (if n = 2 then (if be then SWAP16 (f (SWAP16 orig) val) else trunc 2 (f orig val))
      else if n = 4 then (if be then SWAP32 (f (SWAP32 orig) val) else trunc 4 (f orig val))
      else trunc 1 (f orig val))"

definition AddN :: "nat \<Rightarrow> Mutator \<Rightarrow> nat \<Rightarrow> nat \<Rightarrow> bool \<Rightarrow> Mutator result" where
  "AddN n m pos val be =
     bindR (ReadMem n m pos) (\<lambda>orig. Overwrite n m pos (arith_val (+) n orig (of_nat val) be))"

definition SubN :: "nat \<Rightarrow> Mutator \<Rightarrow> nat \<Rightarrow> nat \<Rightarrow> bool \<Rightarrow> Mutator result" where
  "SubN n m pos val be =
     bindR (ReadMem n m pos) (\<lambda>orig. Overwrite n m pos (arith_val (-) n orig (of_nat val) be))"

definition interest_val :: "nat \<Rightarrow> nat \<Rightarrow> bool \<Rightarrow> uint result" where
  "interest_val n idx be =
     (if n = 1 then bindR (idx_vec interesting_8 idx) (\<lambda>v. Inr (trunc 1 (word_of_int v)))
      else if n = 2 then
        bindR (idx_vec interesting_16 idx) (\<lambda>v. Inr (if be then SWAP16 (word_of_int v) else trunc 2 (word_of_int v)))
      else bindR (idx_vec interesting_32 idx) (\<lambda>v. Inr (if be then SWAP32 (word_of_int v) else word_of_int v)))"

definition InterestN :: "nat \<Rightarrow> Mutator \<Rightarrow> nat \<Rightarrow> nat \<Rightarrow> bool \<Rightarrow> Mutator result" where
  "InterestN n m pos idx be = bindR (interest_val n idx be) (\<lambda>v. Overwrite n m pos v)"

definition flip_mask :: "nat \<Rightarrow> u8" where
  "flip_mask b = drop_bit (b AND 7) 128"

definition FLIP_BIT :: "buffer \<Rightarrow> nat \<Rightarrow> buffer result" where
  "FLIP_BIT b bf =
     bindR (rd b (drop_bit 3 bf) 1) (\<lambda>bs. wr b (drop_bit 3 bf) [hd bs XOR flip_mask bf])"

fun flip_loop :: "buffer \<Rightarrow> nat \<Rightarrow> nat list \<Rightarrow> buffer result" where
  "flip_loop b pos [] = Inr b"
| "flip_loop b pos (i # is) = bindR (FLIP_BIT b (u32 (pos + i))) (\<lambda>b'. flip_loop b' pos is)"

definition FlipBit :: "Mutator \<Rightarrow> nat \<Rightarrow> nat \<Rightarrow> Mutator result" where
  "FlipBit m pos n = bindR (flip_loop (outbuf m) pos [0..<n]) (\<lambda>b. Inr (m\<lparr>outbuf := b\<rparr>))"

definition FlipByte :: "Mutator \<Rightarrow> nat \<Rightarrow> nat \<Rightarrow> Mutator result" where
  "FlipByte m pos n =
     (if n = 1 then bindR (ReadMem 1 m pos) (\<lambda>v. Overwrite 1 m pos (v XOR 0xFF))
      else if n = 2 then bindR (ReadMem 2 m pos) (\<lambda>v. Overwrite 2 m pos (v XOR 0xFFFF))
      else if n = 4 then bindR (ReadMem 4 m pos) (\<lambda>v. Overwrite 4 m pos (v XOR 0xFFFFFFFF))
      else Inr m)"

definition Replace :: "Mutator \<Rightarrow> nat \<Rightarrow> buffer \<Rightarrow> nat \<Rightarrow> nat \<Rightarrow> Mutator result" where
  "Replace m pos src off n =
     bindR (rd src off n) (\<lambda>xs. bindR (wr (outbuf m) pos xs) (\<lambda>b. Inr (m\<lparr>outbuf := b\<rparr>)))"

text \<open>Insertion of the bytes \<open>xs\<close> at a position, as \<open>Insert\<close> and three cases of \<open>Havoc\<close> write it out.\<close>

definition insert_bytes :: "Mutator \<Rightarrow> nat \<Rightarrow> u8 list \<Rightarrow> Mutator result" where
  "insert_bytes m pos xs =
     bindR (rd (outbuf m) 0 pos) (\<lambda>head.
     bindR (rd (outbuf m) pos (u32_sub (len m) pos)) (\<lambda>tail.
     bindR (new_filled (u32 (len m + length xs)) (head @ xs @ tail)) (\<lambda>b.
     Inr (m\<lparr>outbuf := b, len := u32 (len m + length xs)\<rparr>))))"

definition Insert :: "Mutator \<Rightarrow> nat \<Rightarrow> buffer \<Rightarrow> nat \<Rightarrow> Mutator result" where
  "Insert m pos buf extra_len = bindR (rd buf 0 extra_len) (\<lambda>xs. insert_bytes m pos xs)"

definition Delete :: "Mutator \<Rightarrow> nat \<Rightarrow> nat \<Rightarrow> Mutator result" where
  "Delete m pos n =
     bindR (rd (outbuf m) (pos + n) (u32_sub (u32_sub (len m) pos) n)) (\<lambda>xs.
     bindR (wr (outbuf m) pos xs) (\<lambda>b. Inr (m\<lparr>outbuf := b, len := u32_sub (len m) n\<rparr>)))"

text \<open>\<open>std::sample\<close> of one element is a uniform choice; from an empty set it returns nothing, and \<open>out[0]\<close> is undefined.\<close>

definition OverwriteWithSet :: "Mutator \<Rightarrow> nat \<Rightarrow> u8 list \<Rightarrow> rng \<Rightarrow> (Mutator \<times> rng) result" where
  "OverwriteWithSet m pos char_set rs =
     (if char_set = [] then Inl Undefined
      else case Random 0 (length char_set - 1) rs of (i, rs') \<Rightarrow>
        bindR (wr (outbuf m) pos [char_set ! i]) (\<lambda>b. Inr (m\<lparr>outbuf := b\<rparr>, rs')))"

definition RestoreHavoc :: "Mutator \<Rightarrow> Mutator" where
  "RestoreHavoc m = m\<lparr>outbuf := tmpbuf m, tmpbuf := outbuf m, len := temp_len m, temp_len := len m\<rparr>"

definition RestoreSplice :: "Mutator \<Rightarrow> Mutator" where
  "RestoreSplice m = m\<lparr>outbuf := splbuf m, splbuf := outbuf m, len := spl_len m, spl_len := len m\<rparr>"

section \<open>Block lengths\<close>

definition HavocBlkSmall :: nat where "HavocBlkSmall = 32"
definition HavocBlkMedium :: nat where "HavocBlkMedium = 128"
definition HavocBlkLarge :: nat where "HavocBlkLarge = 1500"
definition HavocBlkXl :: nat where "HavocBlkXl = 32768"
definition ArithMax :: nat where "ArithMax = 35"
definition MaxFile :: nat where "MaxFile = 1 * 1024 * 1024"

text \<open>The two versions of \<open>ChooseBlockLen\<close> differ in \<open>rlim\<close> only.\<close>

definition block_range :: "nat \<Rightarrow> rng \<Rightarrow> ((nat \<times> nat) \<times> rng) result" where
  "block_range rlim rs =
     bindR (UR rlim rs) (\<lambda>(k, rs).
       if k = 0 then Inr ((1, HavocBlkSmall), rs)
       else if k = 1 then Inr ((HavocBlkSmall, HavocBlkMedium), rs)
       else bindR (UR 10 rs) (\<lambda>(b, rs).
         Inr (if b \<noteq> 0 then (HavocBlkMedium, HavocBlkLarge) else (HavocBlkLarge, HavocBlkXl), rs)))"

definition block_len :: "nat \<Rightarrow> nat \<Rightarrow> rng \<Rightarrow> (nat \<times> rng) result" where
  "block_len rlim limit rs =
     bindR (block_range rlim rs) (\<lambda>((min_value, max_value), rs).
       let min_value = (if limit \<le> min_value then 1 else min_value)
       in bindR (UR (u32 (u32_sub (min max_value limit) min_value + 1)) rs) (\<lambda>(x, rs). Inr (u32 (min_value + x), rs)))"

definition ChooseBlockLen :: "nat \<Rightarrow> rng \<Rightarrow> (nat \<times> rng) result" where
  "ChooseBlockLen limit rs = block_len 3 limit rs"

definition AFL_ChooseBlockLen :: "nat \<Rightarrow> bool \<Rightarrow> nat \<Rightarrow> rng \<Rightarrow> (nat \<times> rng) result" where
  "AFL_ChooseBlockLen queue_cycle run_over10m limit rs =
     block_len (if \<not> run_over10m then 1 else min queue_cycle 3) limit rs"

section \<open>Havoc\<close>

record AFLDictData =
  data :: "u8 list"
  hit_cnt :: nat

type_synonym block_chooser = "nat \<Rightarrow> rng \<Rightarrow> (nat \<times> rng) result"

text \<open>The cases for an arithmetic operation and for an interesting value, of a width and an endianness.\<close>

definition havoc_arith ::
  "(nat \<Rightarrow> Mutator \<Rightarrow> nat \<Rightarrow> nat \<Rightarrow> bool \<Rightarrow> Mutator result) \<Rightarrow> nat \<Rightarrow> bool \<Rightarrow> Mutator \<Rightarrow> rng \<Rightarrow> (Mutator \<times> rng) result" where
  "havoc_arith f n be m rs =
     bindR (UR (u32_sub (len m) (n - 1)) rs) (\<lambda>(pos, rs).
     bindR (UR ArithMax rs) (\<lambda>(v, rs). bindR (f n m pos (1 + v) be) (\<lambda>m. Inr (m, rs))))"

text \<open>\<open>SubN\<close> or \<open>AddN\<close> in a random byte order, for MOpt.\<close>

definition havoc_arith_any ::
  "(nat \<Rightarrow> Mutator \<Rightarrow> nat \<Rightarrow> nat \<Rightarrow> bool \<Rightarrow> Mutator result) \<Rightarrow> nat \<Rightarrow> Mutator \<Rightarrow> rng \<Rightarrow> (Mutator \<times> rng) result" where
  "havoc_arith_any f n m rs =
     bindR (UR (u32_sub (len m) (n - 1)) rs) (\<lambda>(pos, rs).
     bindR (UR ArithMax rs) (\<lambda>(v, rs).
     bindR (UR 2 rs) (\<lambda>(be, rs). bindR (f n m pos (1 + v) (be \<noteq> 0)) (\<lambda>m. Inr (m, rs)))))"

definition havoc_interest :: "nat \<Rightarrow> nat \<Rightarrow> bool \<Rightarrow> Mutator \<Rightarrow> rng \<Rightarrow> (Mutator \<times> rng) result" where
  "havoc_interest n num be m rs =
     bindR (UR (u32_sub (len m) (n - 1)) rs) (\<lambda>(pos, rs).
     bindR (UR num rs) (\<lambda>(idx, rs). bindR (InterestN n m pos idx be) (\<lambda>m. Inr (m, rs))))"

definition havoc_flip :: "nat \<Rightarrow> nat \<Rightarrow> Mutator \<Rightarrow> rng \<Rightarrow> (Mutator \<times> rng) result" where
  "havoc_flip limit n m rs = bindR (UR limit rs) (\<lambda>(pos, rs). bindR (FlipBit m pos n) (\<lambda>m. Inr (m, rs)))"

definition havoc_flip_bytes :: "nat \<Rightarrow> Mutator \<Rightarrow> rng \<Rightarrow> (Mutator \<times> rng) result" where
  "havoc_flip_bytes n m rs =
     bindR (UR (u32_sub (len m) (n - 1)) rs) (\<lambda>(pos, rs). bindR (FlipByte m pos n) (\<lambda>m. Inr (m, rs)))"

text \<open>\<open>UR(2) ? UR(256) : outbuf[UR(len)]\<close>.\<close>

definition same_byte :: "Mutator \<Rightarrow> rng \<Rightarrow> (u8 \<times> rng) result" where
  "same_byte m rs =
     bindR (UR 2 rs) (\<lambda>(b, rs).
       if b \<noteq> 0 then bindR (UR 256 rs) (\<lambda>(v, rs). Inr (of_nat v, rs))
       else bindR (UR (len m) rs) (\<lambda>(i, rs). bindR (rd (outbuf m) i 1) (\<lambda>bs. Inr (hd bs, rs))))"

definition havoc_xor :: "Mutator \<Rightarrow> rng \<Rightarrow> (Mutator \<times> rng) result" where
  "havoc_xor m rs =
     bindR (UR 255 rs) (\<lambda>(v, rs).
     bindR (UR (len m) rs) (\<lambda>(i, rs).
     bindR (rd (outbuf m) i 1) (\<lambda>bs.
     bindR (wr (outbuf m) i [hd bs XOR of_nat (1 + v)]) (\<lambda>b. Inr (m\<lparr>outbuf := b\<rparr>, rs)))))"

definition havoc_delete :: "block_chooser \<Rightarrow> Mutator \<Rightarrow> rng \<Rightarrow> (Mutator \<times> rng) result" where
  "havoc_delete cbl m rs =
     bindR (cbl (u32_sub (len m) 1) rs) (\<lambda>(del_len, rs).
     bindR (UR (u32 (u32_sub (len m) del_len + 1)) rs) (\<lambda>(del_from, rs).
     bindR (Delete m del_from del_len) (\<lambda>m. Inr (m, rs))))"

definition havoc_clone :: "block_chooser \<Rightarrow> Mutator \<Rightarrow> rng \<Rightarrow> (Mutator \<times> rng) result" where
  "havoc_clone cbl m rs =
     bindR (cbl (len m) rs) (\<lambda>(clone_len, rs).
     bindR (UR (u32 (u32_sub (len m) clone_len + 1)) rs) (\<lambda>(clone_from, rs).
     bindR (UR (len m) rs) (\<lambda>(clone_to, rs).
     bindR (rd (outbuf m) clone_from clone_len) (\<lambda>xs.
     bindR (insert_bytes m clone_to xs) (\<lambda>m. Inr (m, rs))))))"

definition havoc_insert_same :: "block_chooser \<Rightarrow> Mutator \<Rightarrow> rng \<Rightarrow> (Mutator \<times> rng) result" where
  "havoc_insert_same cbl m rs =
     bindR (cbl HavocBlkXl rs) (\<lambda>(clone_len, rs).
     bindR (UR (len m) rs) (\<lambda>(clone_to, rs).
     bindR (same_byte m rs) (\<lambda>(v, rs).
     bindR (insert_bytes m clone_to (replicate clone_len v)) (\<lambda>m. Inr (m, rs)))))"

definition havoc_overwrite_chunk :: "block_chooser \<Rightarrow> Mutator \<Rightarrow> rng \<Rightarrow> (Mutator \<times> rng) result" where
  "havoc_overwrite_chunk cbl m rs =
     bindR (cbl (u32_sub (len m) 1) rs) (\<lambda>(copy_len, rs).
     bindR (UR (u32 (u32_sub (len m) copy_len + 1)) rs) (\<lambda>(copy_from, rs).
     bindR (UR (u32 (u32_sub (len m) copy_len + 1)) rs) (\<lambda>(copy_to, rs).
       if copy_from \<noteq> copy_to then
         bindR (rd (outbuf m) copy_from copy_len) (\<lambda>xs.
         bindR (wr (outbuf m) copy_to xs) (\<lambda>b. Inr (m\<lparr>outbuf := b\<rparr>, rs)))
       else Inr (m, rs))))"

definition havoc_overwrite_same :: "block_chooser \<Rightarrow> Mutator \<Rightarrow> rng \<Rightarrow> (Mutator \<times> rng) result" where
  "havoc_overwrite_same cbl m rs =
     bindR (cbl (u32_sub (len m) 1) rs) (\<lambda>(copy_len, rs).
     bindR (UR (u32 (u32_sub (len m) copy_len + 1)) rs) (\<lambda>(copy_to, rs).
     bindR (same_byte m rs) (\<lambda>(v, rs).
     bindR (wr (outbuf m) copy_to (replicate copy_len v)) (\<lambda>b. Inr (m\<lparr>outbuf := b\<rparr>, rs)))))"

text \<open>The two operators on a dictionary, after the choice between the user's and the automatic one.\<close>

definition havoc_overwrite_extra :: "AFLDictData list \<Rightarrow> Mutator \<Rightarrow> rng \<Rightarrow> (Mutator \<times> rng) result" where
  "havoc_overwrite_extra extras m rs =
     (if extras = [] then Inl AssertFail
      else
        bindR (UR (u32 (length extras)) rs) (\<lambda>(idx, rs).
        bindR (idx_vec extras idx) (\<lambda>extra.
          let extra_len = u32 (length (data extra)) in
          if len m < extra_len then Inr (m, rs)
          else
            bindR (UR (u32 (u32_sub (len m) extra_len + 1)) rs) (\<lambda>(insert_at, rs).
            bindR (rd (Some (data extra)) 0 extra_len) (\<lambda>xs.
            bindR (wr (outbuf m) insert_at xs) (\<lambda>b. Inr (m\<lparr>outbuf := b\<rparr>, rs)))))))"

definition havoc_insert_extra :: "AFLDictData list \<Rightarrow> Mutator \<Rightarrow> rng \<Rightarrow> (Mutator \<times> rng) result" where
  "havoc_insert_extra extras m rs =
     bindR (UR (u32 (len m + 1)) rs) (\<lambda>(insert_at, rs).
       if extras = [] then Inl AssertFail
       else
         bindR (UR (u32 (length extras)) rs) (\<lambda>(idx, rs).
         bindR (idx_vec extras idx) (\<lambda>extra.
           let extra_len = u32 (length (data extra)) in
           if MaxFile \<le> u32 (len m + extra_len) then Inr (m, rs)
           else
             bindR (rd (Some (data extra)) 0 extra_len) (\<lambda>xs.
             bindR (insert_bytes m insert_at xs) (\<lambda>m. Inr (m, rs))))))"

fun havoc_op ::
  "block_chooser \<Rightarrow> AFLDictData list \<Rightarrow> AFLDictData list \<Rightarrow> HavocCase \<Rightarrow> Mutator \<Rightarrow> rng \<Rightarrow> (Mutator \<times> rng) result" where
  "havoc_op cbl ex aex FLIP1 m rs = havoc_flip (u32 (push_bit 3 (len m))) 1 m rs"
| "havoc_op cbl ex aex FLIP2 m rs = havoc_flip (u32_sub (u32 (push_bit 3 (len m))) 1) 2 m rs"
| "havoc_op cbl ex aex FLIP4 m rs = havoc_flip (u32_sub (u32 (push_bit 3 (len m))) 3) 4 m rs"
| "havoc_op cbl ex aex FLIP8 m rs = havoc_flip_bytes 1 m rs"
| "havoc_op cbl ex aex FLIP16 m rs = (if len m < 2 then Inr (m, rs) else havoc_flip_bytes 2 m rs)"
| "havoc_op cbl ex aex FLIP32 m rs = (if len m < 4 then Inr (m, rs) else havoc_flip_bytes 4 m rs)"
| "havoc_op cbl ex aex INT8 m rs = havoc_interest 1 (length interesting_8) False m rs"
| "havoc_op cbl ex aex INT16_LE m rs = (if len m < 2 then Inr (m, rs) else havoc_interest 2 (length interesting_16) False m rs)"
| "havoc_op cbl ex aex INT16_BE m rs = (if len m < 2 then Inr (m, rs) else havoc_interest 2 (length interesting_16) True m rs)"
| "havoc_op cbl ex aex INT32_LE m rs = (if len m < 4 then Inr (m, rs) else havoc_interest 4 (length interesting_32) False m rs)"
| "havoc_op cbl ex aex INT32_BE m rs = (if len m < 4 then Inr (m, rs) else havoc_interest 4 (length interesting_32) True m rs)"
| "havoc_op cbl ex aex SUB8 m rs = havoc_arith SubN 1 False m rs"
| "havoc_op cbl ex aex ADD8 m rs = havoc_arith AddN 1 False m rs"
| "havoc_op cbl ex aex SUB16_LE m rs = (if len m < 2 then Inr (m, rs) else havoc_arith SubN 2 False m rs)"
| "havoc_op cbl ex aex SUB16_BE m rs = (if len m < 2 then Inr (m, rs) else havoc_arith SubN 2 True m rs)"
| "havoc_op cbl ex aex ADD16_LE m rs = (if len m < 2 then Inr (m, rs) else havoc_arith AddN 2 False m rs)"
| "havoc_op cbl ex aex ADD16_BE m rs = (if len m < 2 then Inr (m, rs) else havoc_arith AddN 2 True m rs)"
| "havoc_op cbl ex aex SUB32_LE m rs = (if len m < 4 then Inr (m, rs) else havoc_arith SubN 4 False m rs)"
| "havoc_op cbl ex aex SUB32_BE m rs = (if len m < 4 then Inr (m, rs) else havoc_arith SubN 4 True m rs)"
| "havoc_op cbl ex aex ADD32_LE m rs = (if len m < 4 then Inr (m, rs) else havoc_arith AddN 4 False m rs)"
| "havoc_op cbl ex aex ADD32_BE m rs = (if len m < 4 then Inr (m, rs) else havoc_arith AddN 4 True m rs)"
| "havoc_op cbl ex aex SUBADD8 m rs =
     bindR (havoc_arith SubN 1 False m rs) (\<lambda>(m, rs). havoc_arith AddN 1 False m rs)"
| "havoc_op cbl ex aex SUBADD16 m rs =
     (if len m < 2 then Inr (m, rs)
      else bindR (havoc_arith_any SubN 2 m rs) (\<lambda>(m, rs). havoc_arith_any AddN 2 m rs))"
| "havoc_op cbl ex aex SUBADD32 m rs =
     (if len m < 4 then Inr (m, rs)
      else bindR (havoc_arith_any SubN 4 m rs) (\<lambda>(m, rs). havoc_arith_any AddN 4 m rs))"
| "havoc_op cbl ex aex XOR_BYTE m rs = havoc_xor m rs"
| "havoc_op cbl ex aex DELETE_BYTES m rs = (if len m < 2 then Inr (m, rs) else havoc_delete cbl m rs)"
| "havoc_op cbl ex aex CLONE_BYTES m rs =
     (if u32 (len m + HavocBlkXl) < MaxFile then havoc_clone cbl m rs else Inr (m, rs))"
| "havoc_op cbl ex aex INSERT_SAME_BYTE m rs =
     (if u32 (len m + HavocBlkXl) < MaxFile then havoc_insert_same cbl m rs else Inr (m, rs))"
| "havoc_op cbl ex aex OVERWRITE_WITH_CHUNK m rs = (if len m < 2 then Inr (m, rs) else havoc_overwrite_chunk cbl m rs)"
| "havoc_op cbl ex aex OVERWRITE_WITH_SAME_BYTE m rs = (if len m < 2 then Inr (m, rs) else havoc_overwrite_same cbl m rs)"
| "havoc_op cbl ex aex OVERWRITE_WITH_EXTRA m rs = havoc_overwrite_extra ex m rs"
| "havoc_op cbl ex aex OVERWRITE_WITH_AEXTRA m rs = havoc_overwrite_extra aex m rs"
| "havoc_op cbl ex aex INSERT_EXTRA m rs = havoc_insert_extra ex m rs"
| "havoc_op cbl ex aex INSERT_AEXTRA m rs = havoc_insert_extra aex m rs"

type_synonym case_distrib = "AFLDictData list \<Rightarrow> AFLDictData list \<Rightarrow> rng \<Rightarrow> (nat \<times> rng) result"

text \<open>\<open>CustomCases\<close> gets references to \<open>outbuf\<close> and \<open>len\<close>.\<close>

type_synonym custom_cases =
  "nat \<Rightarrow> buffer \<times> nat \<Rightarrow> AFLDictData list \<Rightarrow> AFLDictData list \<Rightarrow> rng \<Rightarrow> ((buffer \<times> nat) \<times> rng) result"

definition havoc_step ::
  "block_chooser \<Rightarrow> case_distrib \<Rightarrow> custom_cases \<Rightarrow> AFLDictData list \<Rightarrow> AFLDictData list \<Rightarrow>
   Mutator \<Rightarrow> rng \<Rightarrow> (Mutator \<times> rng) result" where
  "havoc_step cbl distrib custom ex aex m rs =
     bindR (distrib ex aex rs) (\<lambda>(r, rs).
       if r < NUM_CASE then havoc_op cbl ex aex (havoc_cases ! r) m rs
       else bindR (custom r (outbuf m, len m) ex aex rs) (\<lambda>((b, l), rs). Inr (m\<lparr>outbuf := b, len := l\<rparr>, rs)))"

fun havoc_loop ::
  "block_chooser \<Rightarrow> case_distrib \<Rightarrow> custom_cases \<Rightarrow> AFLDictData list \<Rightarrow> AFLDictData list \<Rightarrow> nat \<Rightarrow>
   Mutator \<Rightarrow> rng \<Rightarrow> (Mutator \<times> rng) result" where
  "havoc_loop cbl distrib custom ex aex 0 m rs = Inr (m, rs)"
| "havoc_loop cbl distrib custom ex aex (Suc i) m rs =
     bindR (havoc_step cbl distrib custom ex aex m rs) (\<lambda>(m, rs). havoc_loop cbl distrib custom ex aex i m rs)"

text \<open>The copy of the buffer that \<open>Havoc\<close> works on, swapped with the original.\<close>

definition havoc_prepare :: "Mutator \<Rightarrow> Mutator result" where
  "havoc_prepare m =
     (let tmp = (if temp_len m < len m then None else tmpbuf m);
          tmp = (case tmp of None \<Rightarrow> Some (replicate (len m) 0) | Some b \<Rightarrow> Some b)
      in bindR (rd (outbuf m) 0 (len m)) (\<lambda>xs.
         bindR (wr tmp 0 xs) (\<lambda>b. Inr (m\<lparr>outbuf := b, tmpbuf := outbuf m, temp_len := len m\<rparr>))))"

definition Havoc ::
  "block_chooser \<Rightarrow> case_distrib \<Rightarrow> custom_cases \<Rightarrow> nat \<Rightarrow> AFLDictData list \<Rightarrow> AFLDictData list \<Rightarrow>
   Mutator \<Rightarrow> rng \<Rightarrow> (Mutator \<times> rng) result" where
  "Havoc cbl distrib custom stacking ex aex m rs =
     bindR (havoc_prepare m) (\<lambda>m. havoc_loop cbl distrib custom ex aex stacking m rs)"

text \<open>AFL has no custom cases: the lambda that the havoc and splicing routines pass does nothing.\<close>

definition no_custom :: custom_cases where
  "no_custom r bl ex aex rs = Inr (bl, rs)"

section \<open>Splicing\<close>

text \<open>\<open>Util::LocateDiffs\<close>: the first and the last position where two buffers differ; none is -1 in the source.\<close>

fun locate_loop :: "nat \<Rightarrow> (u8 \<times> u8) list \<Rightarrow> (nat \<times> nat) option \<Rightarrow> (nat \<times> nat) option" where
  "locate_loop pos [] acc = acc"
| "locate_loop pos ((a, b) # ps) acc =
     locate_loop (Suc pos) ps
       (if a \<noteq> b then (case acc of None \<Rightarrow> Some (pos, pos) | Some (f, l) \<Rightarrow> Some (f, pos)) else acc)"

definition LocateDiffs :: "buffer \<Rightarrow> buffer \<Rightarrow> nat \<Rightarrow> (nat \<times> nat) option result" where
  "LocateDiffs p q n = bindR (rd p 0 n) (\<lambda>xs. bindR (rd q 0 n) (\<lambda>ys. Inr (locate_loop 0 (zip xs ys) None)))"

definition Splice :: "Mutator \<Rightarrow> u8 list \<Rightarrow> rng \<Rightarrow> ((bool \<times> Mutator) \<times> rng) result" where
  "Splice m target rs =
     (let cmp_len = min (len m) (length target) in
      bindR (LocateDiffs (outbuf m) (Some target) cmp_len) (\<lambda>d.
        case d of None \<Rightarrow> Inr ((False, m), rs)
        | Some (f_diff, l_diff) \<Rightarrow>
            if l_diff < 2 \<or> f_diff = l_diff then Inr ((False, m), rs)
            else
              bindR (UR (l_diff - f_diff) rs) (\<lambda>(x, rs).
                let split_at = f_diff + x;
                    spl = (case splbuf m of None \<Rightarrow> Some (replicate (length target) 0)
                           | Some b \<Rightarrow> if spl_len m < length target then Some (replicate (length target) 0) else Some b)
                in
                bindR (rd (outbuf m) 0 split_at) (\<lambda>xs.
                bindR (wr spl 0 xs) (\<lambda>spl.
                bindR (rd (Some target) split_at (length target - split_at)) (\<lambda>ys.
                bindR (wr spl split_at ys) (\<lambda>spl.
                Inr ((True, m\<lparr>outbuf := spl, splbuf := outbuf m, len := length target, spl_len := len m\<rparr>), rs))))))))"

section \<open>The AFL mutator\<close>

text \<open>
  The loop of \<open>CouldBeBitflip\<close> that shifts until the lowest bit is set; it is entered with a value other
  than zero only, where it ends.
\<close>

function shift_loop :: "nat \<Rightarrow> uint \<Rightarrow> nat \<times> uint" where
  "shift_loop sh val = (if val = 0 \<or> bit val 0 then (sh, val) else shift_loop (sh + 1) (drop_bit 1 val))"
  by pat_completeness auto
termination
proof (relation "measure (\<lambda>(sh, val). unat val)")
  fix sh :: nat and val :: uint
  assume "\<not> (val = 0 \<or> bit val 0)"
  then show "((sh + 1, drop_bit 1 val), sh, val) \<in> measure (\<lambda>(sh, val). unat val)"
    by (simp add: drop_bit_eq_div unat_div unat_gt_0)
qed simp

declare shift_loop.simps [simp del]

definition CouldBeBitflip :: "uint \<Rightarrow> bool" where
  "CouldBeBitflip val =
     (if val = 0 then True
      else case shift_loop 0 val of (sh, v) \<Rightarrow>
        if v = 1 \<or> v = 3 \<or> v = 15 then True
        else if sh AND 7 \<noteq> 0 then False
        else v = 0xff \<or> v = 0xffff \<or> v = 0xffffffff)"

text \<open>The loops of \<open>CouldBeArith\<close> over the units of \<open>w\<close> bits: the number of units that differ, and the last pair.\<close>

fun diff_loop :: "nat \<Rightarrow> uint \<Rightarrow> uint \<Rightarrow> nat list \<Rightarrow> nat \<times> uint \<times> uint \<Rightarrow> nat \<times> uint \<times> uint" where
  "diff_loop w old_val new_val [] acc = acc"
| "diff_loop w old_val new_val (i # is) (d, ov, nv) =
     (let a = take_bit w (drop_bit (w * i) old_val); b = take_bit w (drop_bit (w * i) new_val)
      in diff_loop w old_val new_val is (if a \<noteq> b then (d + 1, a, b) else (d, ov, nv)))"

definition arith_near :: "nat \<Rightarrow> uint \<Rightarrow> uint \<Rightarrow> bool" where
  "arith_near w ov nv = (take_bit w (ov - nv) \<le> of_nat ArithMax \<or> take_bit w (nv - ov) \<le> of_nat ArithMax)"

definition CouldBeArith :: "uint \<Rightarrow> uint \<Rightarrow> nat \<Rightarrow> bool" where
  "CouldBeArith old_val new_val blen =
     (if old_val = new_val then True
      else case diff_loop 8 old_val new_val [0..<blen] (0, 0, 0) of (d8, ov, nv) \<Rightarrow>
        if d8 = 1 \<and> arith_near 8 ov nv then True
        else if blen = 1 then False
        else case diff_loop 16 old_val new_val [0..<blen div 2] (0, ov, nv) of (d16, ov, nv) \<Rightarrow>
          if d16 = 1 \<and> (arith_near 16 ov nv \<or> arith_near 16 (SWAP16 ov) (SWAP16 nv)) then True
          else blen = 4 \<and> (arith_near 32 old_val new_val \<or> arith_near 32 (SWAP32 old_val) (SWAP32 new_val)))"

text \<open>\<open>old_val\<close> with \<open>n\<close> bytes at byte \<open>i\<close> replaced by \<open>v\<close>.\<close>

definition insert_at :: "nat \<Rightarrow> uint \<Rightarrow> nat \<Rightarrow> uint \<Rightarrow> uint" where
  "insert_at n old_val i v = (old_val AND NOT (push_bit (8 * i) (mask (8 * n)))) OR push_bit (8 * i) v"

definition CouldBeInterest :: "uint \<Rightarrow> uint \<Rightarrow> nat \<Rightarrow> bool \<Rightarrow> bool" where
  "CouldBeInterest old_val new_val blen check_le =
     (if old_val = new_val then True
      else if \<exists>i \<in> set [0..<blen]. \<exists>v \<in> set interesting_8. new_val = insert_at 1 old_val i (trunc 1 (word_of_int v)) then True
      else if blen = 2 \<and> \<not> check_le then False
      else if \<exists>i \<in> set [0..<blen - 1]. \<exists>v \<in> set interesting_16.
          new_val = insert_at 2 old_val i (trunc 2 (word_of_int v)) \<or>
          (2 < blen \<and> new_val = insert_at 2 old_val i (SWAP16 (trunc 2 (word_of_int v)))) then True
      else blen = 4 \<and> check_le \<and> (\<exists>v \<in> set interesting_32. new_val = word_of_int v))"

text \<open>The common end of \<open>AddN\<close>, \<open>SubN\<close> and \<open>InterestN\<close>: the buffer is changed only if the change is needed.\<close>

definition overwrite_if :: "bool \<Rightarrow> nat \<Rightarrow> Mutator \<Rightarrow> nat \<Rightarrow> uint \<Rightarrow> uint \<Rightarrow> (bool \<times> Mutator) result" where
  "overwrite_if need n m pos orig r =
     (if need then
        bindR (Overwrite n m pos r) (\<lambda>m. Inr (True, m\<lparr>val_for_restore := orig, pos_for_restore := pos\<rparr>))
      else Inr (False, m))"

definition add_need :: "nat \<Rightarrow> uint \<Rightarrow> uint \<Rightarrow> bool \<Rightarrow> bool" where
  "add_need n orig val be =
     (if n = 1 then \<not> be
      else if n = 2 then (if be then 0xff < drop_bit 8 orig + val else 0xff < (orig AND 0xff) + val)
      else if be then 0xffff < (SWAP32 orig AND 0xffff) + val else 0xffff < (orig AND 0xffff) + val)"

definition sub_need :: "nat \<Rightarrow> uint \<Rightarrow> uint \<Rightarrow> bool \<Rightarrow> bool" where
  "sub_need n orig val be =
     (if n = 1 then \<not> be
      else if n = 2 then (if be then drop_bit 8 orig < val else (orig AND 0xff) < val)
      else if be then (SWAP32 orig AND 0xffff) < val else (orig AND 0xffff) < val)"

definition AFL_AddN :: "nat \<Rightarrow> Mutator \<Rightarrow> nat \<Rightarrow> nat \<Rightarrow> bool \<Rightarrow> (bool \<times> Mutator) result" where
  "AFL_AddN n m pos val be =
     bindR (ReadMem n m pos) (\<lambda>orig.
       let r = arith_val (+) n orig (of_nat val) be
       in overwrite_if (add_need n orig (of_nat val) be \<and> \<not> CouldBeBitflip (orig XOR r)) n m pos orig r)"

definition AFL_SubN :: "nat \<Rightarrow> Mutator \<Rightarrow> nat \<Rightarrow> nat \<Rightarrow> bool \<Rightarrow> (bool \<times> Mutator) result" where
  "AFL_SubN n m pos val be =
     bindR (ReadMem n m pos) (\<lambda>orig.
       let r = arith_val (-) n orig (of_nat val) be
       in overwrite_if (sub_need n orig (of_nat val) be \<and> \<not> CouldBeBitflip (orig XOR r)) n m pos orig r)"

definition AFL_InterestN :: "nat \<Rightarrow> Mutator \<Rightarrow> nat \<Rightarrow> nat \<Rightarrow> bool \<Rightarrow> (bool \<times> Mutator) result" where
  "AFL_InterestN n m pos idx be =
     bindR (ReadMem n m pos) (\<lambda>orig.
     bindR (interest_val n idx be) (\<lambda>r.
     bindR (interest_val n idx False) (\<lambda>le.
       let need =
         (if n = 1 then \<not> be \<and> \<not> CouldBeBitflip (orig XOR r) \<and> \<not> CouldBeArith orig r 1
          else (be \<longrightarrow> le \<noteq> r) \<and> \<not> CouldBeBitflip (orig XOR r) \<and> \<not> CouldBeArith orig r n \<and>
               \<not> CouldBeInterest orig r n be)
       in overwrite_if need n m pos orig r)))"

definition RestoreOverwrite :: "nat \<Rightarrow> Mutator \<Rightarrow> Mutator result" where
  "RestoreOverwrite n m = Overwrite n m (pos_for_restore m) (val_for_restore m)"

end
