(* ===== verification/AFL_Mutator_Props.thy ===== *)
theory AFL_Mutator_Props
  imports AFL_Mutator
begin

text \<open>
  Memory safety and restoration of the havoc stage: whatever operators are drawn, and however often,
  \<open>Mutator::Havoc\<close> stays within its allocations, keeps the length within bounds, and leaves the
  original buffer where \<open>RestoreHavoc\<close> finds it.
\<close>

section \<open>Memory\<close>

lemma rd_ok [simp]: "pos + n \<le> length bs \<Longrightarrow> rd (Some bs) pos n = Inr (take n (drop pos bs))"
  by (simp add: rd_def)

lemma wr_ok [simp]:
  "pos + length xs \<le> length bs \<Longrightarrow> wr (Some bs) pos xs = Inr (Some (take pos bs @ xs @ drop (pos + length xs) bs))"
  by (simp add: wr_def)

lemma length_le_bytes [simp]: "length (le_bytes n v) = n"
  by (simp add: le_bytes_def)

text \<open>A pointer with the length that goes with it.\<close>

fun buf_ok :: "buffer \<Rightarrow> nat \<Rightarrow> bool" where
  "buf_ok None n = (n = 0)"
| "buf_ok (Some bs) n = (n \<le> length bs)"

text \<open>
  The invariant of a mutator, and the bounds under which the havoc stage runs: the buffer is neither
  empty nor larger than the maximal file.
\<close>

definition mut_ok :: "Mutator \<Rightarrow> bool" where
  "mut_ok m \<longleftrightarrow> outbuf m \<noteq> None \<and> buf_ok (outbuf m) (len m) \<and> buf_ok (tmpbuf m) (temp_len m) \<and> buf_ok (splbuf m) (spl_len m)"

definition hav_ok :: "Mutator \<Rightarrow> bool" where
  "hav_ok m \<longleftrightarrow> mut_ok m \<and> 0 < len m \<and> len m \<le> MaxFile"

text \<open>The operators leave everything but the buffer and its length alone.\<close>

definition same_rest :: "Mutator \<Rightarrow> Mutator \<Rightarrow> bool" where
  "same_rest m m' \<longleftrightarrow> m' = m\<lparr>outbuf := outbuf m', len := len m'\<rparr>"

definition op_ok :: "Mutator \<Rightarrow> (Mutator \<times> rng) result \<Rightarrow> bool" where
  "op_ok m r \<longleftrightarrow> (\<exists>m' rs'. r = Inr (m', rs') \<and> hav_ok m' \<and> same_rest m m')"

definition inplace :: "Mutator \<Rightarrow> Mutator result \<Rightarrow> bool" where
  "inplace m r \<longleftrightarrow> (\<exists>ob ob'. outbuf m = Some ob \<and> r = Inr (m\<lparr>outbuf := Some ob'\<rparr>) \<and> length ob' = length ob)"

lemma hav_okE:
  assumes "hav_ok m"
  obtains ob where "outbuf m = Some ob" "len m \<le> length ob" "0 < len m" "len m \<le> MaxFile" "mut_ok m"
  using assms unfolding hav_ok_def mut_ok_def by (cases "outbuf m") auto

lemma same_rest_refl [simp]: "same_rest m m"
  by (simp add: same_rest_def)

lemma same_rest_trans: "same_rest m m' \<Longrightarrow> same_rest m' m'' \<Longrightarrow> same_rest m m''"
  by (simp add: same_rest_def) (metis Mutator.surjective Mutator.update_convs(2,3))

lemma op_ok_skip [simp]: "hav_ok m \<Longrightarrow> op_ok m (Inr (m, rs))"
  by (auto simp: op_ok_def)

lemma op_ok_bind:
  assumes "op_ok m r" and "\<And>m' rs'. r = Inr (m', rs') \<Longrightarrow> hav_ok m' \<Longrightarrow> op_ok m' (f m' rs')"
  shows "op_ok m (bindR r (case_prod f))"
  using assms unfolding op_ok_def by (fastforce intro: same_rest_trans)

lemma op_ok_inplace:
  assumes "hav_ok m" and "inplace m r"
  shows "op_ok m (bindR r (\<lambda>m. Inr (m, rs)))"
  using assms unfolding op_ok_def inplace_def hav_ok_def mut_ok_def same_rest_def by fastforce

text \<open>Drawing a number: the rest of an operator has to work for every outcome.\<close>

lemma UR_op: "0 < n \<Longrightarrow> (\<And>x rs'. x < n \<Longrightarrow> op_ok m (f x rs')) \<Longrightarrow> op_ok m (bindR (UR n rs) (case_prod f))"
  using UR_ok [of n rs] by auto

section \<open>Operators that work in place\<close>

lemma wr_inplace:
  assumes "outbuf m = Some ob" and "pos + length xs \<le> length ob"
  shows "inplace m (bindR (wr (outbuf m) pos xs) (\<lambda>b. Inr (m\<lparr>outbuf := b\<rparr>)))"
  using assms by (auto simp: inplace_def)

lemma Overwrite_inplace: "outbuf m = Some ob \<Longrightarrow> pos + n \<le> length ob \<Longrightarrow> inplace m (Overwrite n m pos v)"
  unfolding Overwrite_def by (rule wr_inplace) simp_all

lemma inplace_refl: "outbuf m = Some ob \<Longrightarrow> inplace m (Inr m)"
  unfolding inplace_def by (intro exI [of _ ob]) (simp add: Mutator.surjective)

lemma ReadMem_ok: "outbuf m = Some ob \<Longrightarrow> pos + n \<le> length ob \<Longrightarrow> ReadMem n m pos = Inr (of_le (take n (drop pos ob)))"
  by (simp add: ReadMem_def)

lemma AddN_inplace: "outbuf m = Some ob \<Longrightarrow> pos + n \<le> length ob \<Longrightarrow> inplace m (AddN n m pos val be)"
  by (simp add: AddN_def ReadMem_ok Overwrite_inplace)

lemma SubN_inplace: "outbuf m = Some ob \<Longrightarrow> pos + n \<le> length ob \<Longrightarrow> inplace m (SubN n m pos val be)"
  by (simp add: SubN_def ReadMem_ok Overwrite_inplace)

definition interest_table :: "nat \<Rightarrow> int list" where
  "interest_table n = (if n = 1 then interesting_8 else if n = 2 then interesting_16 else interesting_32)"

lemma InterestN_inplace:
  assumes "outbuf m = Some ob" and "pos + n \<le> length ob" and "idx < length (interest_table n)"
  shows "inplace m (InterestN n m pos idx be)"
  using assms by (auto simp: InterestN_def interest_val_def interest_table_def Overwrite_inplace split: if_splits)

lemma FlipByte_inplace: "outbuf m = Some ob \<Longrightarrow> pos + n \<le> length ob \<Longrightarrow> inplace m (FlipByte m pos n)"
  by (simp add: FlipByte_def ReadMem_ok Overwrite_inplace inplace_refl)

lemma FLIP_BIT_ok:
  assumes "bf < 8 * length bs"
  shows "FLIP_BIT (Some bs) bf = Inr (Some (bs[bf div 8 := bs ! (bf div 8) XOR flip_mask bf]))"
proof -
  have i: "bf div 8 < length bs" and e: "drop_bit 3 bf = bf div 8"
    using assms by (simp_all add: drop_bit_eq_div)
  have h: "hd (take (Suc 0) (drop (bf div 8) bs)) = bs ! (bf div 8)"
    using i by (simp add: take_Suc hd_drop_conv_nth)
  show ?thesis
    using i unfolding FLIP_BIT_def e by (simp add: h upd_conv_take_nth_drop)
qed

lemma flip_loop_ok:
  "(\<And>i. i \<in> set is \<Longrightarrow> pos + i < 8 * length bs \<and> pos + i < 2 ^ 32) \<Longrightarrow>
   \<exists>bs'. flip_loop (Some bs) pos is = Inr (Some bs') \<and> length bs' = length bs"
proof (induction "is" arbitrary: bs)
  case (Cons i js)
  then show ?case
    using Cons.IH [of "bs[(pos + i) div 8 := bs ! ((pos + i) div 8) XOR flip_mask (pos + i)]"] by (simp add: FLIP_BIT_ok)
qed simp

lemma FlipBit_inplace:
  assumes "outbuf m = Some ob" and "pos + n \<le> 8 * length ob" and "pos + n \<le> 2 ^ 32"
  shows "inplace m (FlipBit m pos n)"
  using flip_loop_ok [of "[0..<n]" pos ob] assms by (auto simp: FlipBit_def inplace_def)

section \<open>Operators that change the length\<close>

lemma insert_bytes_ok:
  assumes m: "outbuf m = Some ob" "len m \<le> length ob" and "pos \<le> len m" and "len m + length xs < 2 ^ 32"
  shows "insert_bytes m pos xs =
    Inr (m\<lparr>outbuf := Some (take pos ob @ xs @ take (len m - pos) (drop pos ob)), len := len m + length xs\<rparr>)"
  using assms by (simp add: insert_bytes_def new_filled_def)

lemma Delete_ok:
  assumes m: "outbuf m = Some ob" "len m \<le> length ob" and "pos + n \<le> len m" and "len m < 2 ^ 32"
  shows "Delete m pos n =
    Inr (m\<lparr>outbuf := Some (take pos ob @ take (len m - pos - n) (drop (pos + n) ob) @ drop (len m - n) ob), len := len m - n\<rparr>)"
  using assms by (simp add: Delete_def)

lemma Delete_op:
  assumes "hav_ok m" and "pos + n \<le> len m" and "n < len m"
  shows "op_ok m (bindR (Delete m pos n) (\<lambda>m. Inr (m, rs)))"
proof -
  from assms(1) obtain ob where m: "outbuf m = Some ob" "len m \<le> length ob" "len m \<le> MaxFile" "mut_ok m"
    by (rule hav_okE)
  have "len m < 2 ^ 32"
    using m(3) by (simp add: MaxFile_def)
  then show ?thesis
    using Delete_ok [OF m(1,2) assms(2)] m assms
    by (auto simp: op_ok_def hav_ok_def mut_ok_def same_rest_def)
qed

lemma insert_bytes_op:
  assumes "hav_ok m" and "pos \<le> len m" and "len m + length xs \<le> MaxFile"
  shows "op_ok m (bindR (insert_bytes m pos xs) (\<lambda>m. Inr (m, rs)))"
proof -
  from assms(1) obtain ob where m: "outbuf m = Some ob" "len m \<le> length ob" "0 < len m" "mut_ok m"
    by (rule hav_okE)
  have "len m + length xs < 2 ^ 32"
    using assms(3) by (simp add: MaxFile_def)
  then show ?thesis
    using insert_bytes_ok [OF m(1,2) assms(2)] m assms
    by (auto simp: op_ok_def hav_ok_def mut_ok_def same_rest_def)
qed

section \<open>The operators, with the numbers they draw\<close>

lemma havoc_len: "hav_ok m \<Longrightarrow> 0 < len m \<and> len m \<le> 1048576"
  by (simp add: hav_ok_def MaxFile_def)

text \<open>An operation of \<open>n\<close> bytes at a drawn position.\<close>

lemma at_random_pos:
  assumes m: "hav_ok m" and n: "0 < n" "n \<le> len m"
    and f: "\<And>ob pos rs'. outbuf m = Some ob \<Longrightarrow> pos + n \<le> length ob \<Longrightarrow> op_ok m (f pos rs')"
  shows "op_ok m (bindR (UR (u32_sub (len m) (n - 1)) rs) (case_prod f))"
proof (rule UR_op)
  from m obtain ob where ob: "outbuf m = Some ob" "len m \<le> length ob" by (rule hav_okE)
  have e: "u32_sub (len m) (n - 1) = len m - (n - 1)"
    using n havoc_len [OF m] by simp
  then show "0 < u32_sub (len m) (n - 1)"
    using n by simp
  show "op_ok m (f x rs')" if "x < u32_sub (len m) (n - 1)" for x rs'
    by (rule f [OF ob(1)]) (use that e n ob(2) in simp)
qed

lemma havoc_arith_op:
  assumes "hav_ok m" "0 < n" "n \<le> len m"
    and "\<And>ob pos val be. outbuf m = Some ob \<Longrightarrow> pos + n \<le> length ob \<Longrightarrow> inplace m (f n m pos val be)"
  shows "op_ok m (havoc_arith f n be m rs)" and "op_ok m (havoc_arith_any f n m rs)"
  unfolding havoc_arith_def havoc_arith_any_def
  by (intro at_random_pos UR_op op_ok_inplace assms; simp add: ArithMax_def)+

lemma arith_keeps_len:
  "AddN n m pos val be = Inr m' \<Longrightarrow> len m' = len m" "SubN n m pos val be = Inr m' \<Longrightarrow> len m' = len m"
  by (auto simp: AddN_def SubN_def Overwrite_def result_simps)

lemma havoc_arith_keeps_len:
  assumes "\<And>m pos val be m'. f n m pos val be = Inr m' \<Longrightarrow> len m' = len m"
  shows "havoc_arith f n be m rs = Inr (m', rs') \<Longrightarrow> len m' = len m"
    and "havoc_arith_any f n m rs = Inr (m', rs') \<Longrightarrow> len m' = len m"
  using assms by (auto simp: havoc_arith_def havoc_arith_any_def result_simps split: prod.splits)

lemma havoc_interest_op:
  assumes "hav_ok m" "0 < n" "n \<le> len m" "k = length (interest_table n)" "0 < k"
  shows "op_ok m (havoc_interest n k be m rs)"
  unfolding havoc_interest_def using assms
  by (intro at_random_pos UR_op op_ok_inplace InterestN_inplace) simp_all

lemma havoc_flip_bytes_op: "hav_ok m \<Longrightarrow> 0 < n \<Longrightarrow> n \<le> len m \<Longrightarrow> op_ok m (havoc_flip_bytes n m rs)"
  unfolding havoc_flip_bytes_def by (intro at_random_pos op_ok_inplace FlipByte_inplace) simp_all

lemma havoc_flip_op:
  assumes m: "hav_ok m" and "k + n = 8 * len m + 1" and "0 < k"
  shows "op_ok m (havoc_flip k n m rs)"
proof -
  from m obtain ob where ob: "outbuf m = Some ob" "len m \<le> length ob" by (rule hav_okE)
  have "x + n \<le> 8 * length ob" "x + n \<le> 2 ^ 32" if "x < k" for x
    using that assms(2) ob(2) havoc_len [OF m] by simp_all
  then show ?thesis
    unfolding havoc_flip_def by (intro UR_op op_ok_inplace FlipBit_inplace [OF ob(1)] assms)
qed

lemma same_byte_op:
  assumes "hav_ok m" and f: "\<And>v rs'. op_ok m (f v rs')"
  shows "op_ok m (bindR (same_byte m rs) (case_prod f))"
proof -
  from assms(1) obtain ob where ob: "outbuf m = Some ob" "len m \<le> length ob" "0 < len m" by (rule hav_okE)
  obtain b rs1 where b: "UR 2 rs = Inr (b, rs1)" using UR_ok [of 2 rs] by auto
  obtain v rs2 where v: "UR 256 rs1 = Inr (v, rs2)" using UR_ok [of 256 rs1] by auto
  obtain i rs3 where i: "UR (len m) rs1 = Inr (i, rs3)" "i < len m" using UR_ok [of "len m" rs1] ob(3) by auto
  show ?thesis
    using f ob i by (simp add: same_byte_def b v)
qed

lemma wr_op:
  assumes m: "hav_ok m" and "pos + length xs \<le> len m"
  shows "op_ok m (bindR (wr (outbuf m) pos xs) (\<lambda>c. Inr (m\<lparr>outbuf := c\<rparr>, rs)))"
proof -
  from m obtain ob where ob: "outbuf m = Some ob" "len m \<le> length ob" by (rule hav_okE)
  show ?thesis
    using op_ok_inplace [OF m wr_inplace [OF ob(1), of pos xs]] assms(2) ob(2) by (simp add: bindR_assoc)
qed

lemma rd_op:
  assumes "hav_ok m" and "pos + n \<le> len m" and "\<And>xs. length xs = n \<Longrightarrow> op_ok m (f xs)"
  shows "op_ok m (bindR (rd (outbuf m) pos n) f)"
proof -
  from assms(1) obtain ob where "outbuf m = Some ob" "len m \<le> length ob" by (rule hav_okE)
  then show ?thesis using assms(2,3) by simp
qed

lemma havoc_xor_op: "hav_ok m \<Longrightarrow> op_ok m (havoc_xor m rs)"
  unfolding havoc_xor_def by (intro UR_op rd_op wr_op) (auto dest: havoc_len)

text \<open>A draw of a position for a block of \<open>n\<close> bytes within the buffer.\<close>

lemma block_pos_op:
  assumes "hav_ok m" and "n \<le> len m" and "\<And>pos rs'. pos + n \<le> len m \<Longrightarrow> op_ok m (f pos rs')"
  shows "op_ok m (bindR (UR (u32 (u32_sub (len m) n + 1)) rs) (case_prod f))"
proof (rule UR_op)
  have "len m - n + 1 < 4294967296" "len m < 4294967296"
    using havoc_len [OF assms(1)] by linarith+
  then have e: "u32 (u32_sub (len m) n + 1) = len m - n + 1"
    using assms(2) by simp
  show "0 < u32 (u32_sub (len m) n + 1)" using e by simp
  show "op_ok m (f x rs')" if "x < u32 (u32_sub (len m) n + 1)" for x rs'
    by (rule assms(3)) (use that e assms(2) in simp)
qed

text \<open>Dictionaries whose number and length of entries fit into 31 bits.\<close>

definition dict_ok :: "AFLDictData list \<Rightarrow> bool" where
  "dict_ok ex \<longleftrightarrow> length ex < 2 ^ 31 \<and> list_all (\<lambda>e. length (data e) < 2 ^ 31) ex"

lemma havoc_overwrite_extra_op:
  assumes "hav_ok m" "dict_ok ex" "ex \<noteq> []"
  shows "op_ok m (havoc_overwrite_extra ex m rs)"
proof -
  have "op_ok m (bindR (idx_vec ex idx) (\<lambda>extra.
          let extra_len = u32 (length (data extra)) in
          if len m < extra_len then Inr (m, rs)
          else
            bindR (UR (u32 (u32_sub (len m) extra_len + 1)) rs) (\<lambda>(insert_at, rs).
            bindR (rd (Some (data extra)) 0 extra_len) (\<lambda>xs.
            bindR (wr (outbuf m) insert_at xs) (\<lambda>b. Inr (m\<lparr>outbuf := b\<rparr>, rs))))))" if "idx < length ex" for idx rs
  proof -
    have "length (data (ex ! idx)) < 2 ^ 31"
      using assms(2) that by (simp add: dict_ok_def list_all_length)
    then show ?thesis
      using that assms(1) block_pos_op [OF assms(1), of "length (data (ex ! idx))"
          "\<lambda>pos rs. bindR (wr (outbuf m) pos (data (ex ! idx))) (\<lambda>b. Inr (m\<lparr>outbuf := b\<rparr>, rs))" rs]
      by (simp add: Let_def wr_op)
  qed
  then show ?thesis
    using assms unfolding havoc_overwrite_extra_def by (simp only: if_False) (intro UR_op; simp add: dict_ok_def)
qed

lemma havoc_insert_extra_op:
  assumes "hav_ok m" "dict_ok ex" "ex \<noteq> []"
  shows "op_ok m (havoc_insert_extra ex m rs)"
proof -
  have "op_ok m (bindR (idx_vec ex idx) (\<lambda>extra.
           let extra_len = u32 (length (data extra)) in
           if MaxFile \<le> u32 (len m + extra_len) then Inr (m, rs)
           else
             bindR (rd (Some (data extra)) 0 extra_len) (\<lambda>xs.
             bindR (insert_bytes m pos xs) (\<lambda>m. Inr (m, rs)))))" if "idx < length ex" "pos < len m + 1" for idx pos rs
  proof -
    have "length (data (ex ! idx)) < 2 ^ 31"
      using assms(2) that(1) by (simp add: dict_ok_def list_all_length)
    then show ?thesis
      using that assms(1) havoc_len [OF assms(1)] by (auto simp: Let_def MaxFile_def intro!: insert_bytes_op)
  qed
  then show ?thesis
    using assms havoc_len [OF assms(1)] unfolding havoc_insert_extra_def
    by (intro UR_op) (simp_all only: if_False, auto simp: dict_ok_def intro!: UR_op)
qed

lemma add_op:
  assumes "hav_ok m" "0 < n" "n \<le> len m"
  shows "op_ok m (havoc_arith AddN n be m rs)" and "op_ok m (havoc_arith_any AddN n m rs)"
  using havoc_arith_op [OF assms] AddN_inplace by blast+

lemma sub_op:
  assumes "hav_ok m" "0 < n" "n \<le> len m"
  shows "op_ok m (havoc_arith SubN n be m rs)" and "op_ok m (havoc_arith_any SubN n m rs)"
  using havoc_arith_op [OF assms] SubN_inplace by blast+

lemma sub_any_len: "havoc_arith_any SubN n m rs = Inr (m', rs') \<Longrightarrow> len m' = len m"
  by (rule havoc_arith_keeps_len(2)) (rule arith_keeps_len(2))

lemma interest_tables:
  "interesting_8 \<noteq> []" "interesting_16 \<noteq> []" "interesting_32 \<noteq> []"
  by (simp_all add: interesting_8_def interesting_16_def interesting_32_def)

lemma same_rest_fields: "same_rest m m' \<Longrightarrow> tmpbuf m' = tmpbuf m \<and> temp_len m' = temp_len m \<and> splbuf m' = splbuf m \<and>
    spl_len m' = spl_len m \<and> input m' = input m"
  unfolding same_rest_def by (cases m; cases m') simp

section \<open>The contracts of the havoc stage\<close>

text \<open>
  What \<open>Havoc\<close> relies on: the virtual function \<open>ChooseBlockLen\<close> returns a block that is neither empty
  nor larger than the limit or than \<open>HAVOC_BLK_XL\<close>; the distribution selects an operator on a dictionary
  only if it has entries; the custom cases keep the buffer allocated and within its bounds.
\<close>

locale block_choice =
  fixes cbl :: block_chooser
  assumes cbl_ok: "0 < limit \<Longrightarrow> limit \<le> MaxFile \<Longrightarrow>
    \<exists>n rs'. cbl limit rs = Inr (n, rs') \<and> 0 < n \<and> n \<le> limit \<and> n \<le> HavocBlkXl"
begin

lemma cbl_op:
  assumes "0 < limit" and "limit \<le> MaxFile"
    and "\<And>n rs'. 0 < n \<Longrightarrow> n \<le> limit \<Longrightarrow> n \<le> HavocBlkXl \<Longrightarrow> op_ok m (f n rs')"
  shows "op_ok m (bindR (cbl limit rs) (case_prod f))"
  using cbl_ok [OF assms(1,2), of rs] assms(3) by auto

lemma block_of_rest_op:
  assumes m: "hav_ok m" and "2 \<le> len m"
    and "\<And>n rs'. 0 < n \<Longrightarrow> n < len m \<Longrightarrow> op_ok m (f n rs')"
  shows "op_ok m (bindR (cbl (u32_sub (len m) 1) rs) (case_prod f))"
proof -
  have "u32_sub (len m) 1 = len m - 1"
    using assms(2) havoc_len [OF m] by simp
  then show ?thesis
    using assms havoc_len [OF m] by (intro cbl_op) (simp_all add: MaxFile_def)
qed

lemma havoc_delete_op: "hav_ok m \<Longrightarrow> 2 \<le> len m \<Longrightarrow> op_ok m (havoc_delete cbl m rs)"
  unfolding havoc_delete_def by (intro block_of_rest_op block_pos_op Delete_op) simp_all

lemma havoc_overwrite_chunk_op: "hav_ok m \<Longrightarrow> 2 \<le> len m \<Longrightarrow> op_ok m (havoc_overwrite_chunk cbl m rs)"
  unfolding havoc_overwrite_chunk_def by (intro block_of_rest_op block_pos_op) (simp_all add: rd_op wr_op)

lemma havoc_overwrite_same_op: "hav_ok m \<Longrightarrow> 2 \<le> len m \<Longrightarrow> op_ok m (havoc_overwrite_same cbl m rs)"
  unfolding havoc_overwrite_same_def by (intro block_of_rest_op block_pos_op same_byte_op wr_op) simp_all

lemma havoc_clone_op:
  assumes "hav_ok m" and "u32 (len m + HavocBlkXl) < MaxFile"
  shows "op_ok m (havoc_clone cbl m rs)"
proof -
  have "len m + HavocBlkXl < MaxFile"
    using assms havoc_len [OF assms(1)] by (simp add: HavocBlkXl_def)
  then show ?thesis
    using assms(1) havoc_len [OF assms(1)] unfolding havoc_clone_def
    by (intro cbl_op block_pos_op UR_op rd_op insert_bytes_op) simp_all
qed

lemma havoc_insert_same_op:
  assumes "hav_ok m" and "u32 (len m + HavocBlkXl) < MaxFile"
  shows "op_ok m (havoc_insert_same cbl m rs)"
proof -
  have "len m + HavocBlkXl < MaxFile"
    using assms havoc_len [OF assms(1)] by (simp add: HavocBlkXl_def)
  then show ?thesis
    using assms(1) havoc_len [OF assms(1)] unfolding havoc_insert_same_def
    by (intro cbl_op UR_op same_byte_op insert_bytes_op) (simp_all add: HavocBlkXl_def)
qed

lemmas havoc_ops =
  havoc_flip_bytes_op add_op sub_op havoc_xor_op havoc_delete_op havoc_clone_op
  havoc_insert_same_op havoc_overwrite_chunk_op havoc_overwrite_same_op havoc_overwrite_extra_op havoc_insert_extra_op

lemma havoc_op_ok:
  assumes m: "hav_ok m" and d: "dict_ok ex" "dict_ok aex" and c: "case_allowed (ex \<noteq> []) (aex \<noteq> []) c"
  shows "op_ok m (havoc_op cbl ex aex c m rs)"
proof (cases c)
  case SUBADD8
  then show ?thesis
    unfolding SUBADD8 havoc_op.simps using m
    by (intro op_ok_bind sub_op add_op) (simp_all add: Suc_le_eq havoc_len)
next
  case SUBADD16
  then show ?thesis
    using m havoc_len [OF m] by (auto intro!: op_ok_bind sub_op add_op dest: sub_any_len)
next
  case SUBADD32
  then show ?thesis
    using m havoc_len [OF m] by (auto intro!: op_ok_bind sub_op add_op dest: sub_any_len)
qed (use m d c havoc_len [OF m] in \<open>auto simp: case_allowed_def push_bit_eq_mult interest_table_def interest_tables
       intro!: havoc_ops havoc_interest_op havoc_flip_op\<close>)

end

section \<open>The whole stage\<close>

locale havoc_env = block_choice cbl for cbl :: block_chooser +
  fixes distrib :: case_distrib and custom :: custom_cases
  assumes distrib_ok: "\<exists>r rs'. distrib ex aex rs = Inr (r, rs') \<and>
      (r < NUM_CASE \<longrightarrow> case_allowed (ex \<noteq> []) (aex \<noteq> []) (havoc_cases ! r))"
    and custom_ok: "hav_ok m \<Longrightarrow> dict_ok ex \<Longrightarrow> dict_ok aex \<Longrightarrow>
      \<exists>b l rs'. custom r (outbuf m, len m) ex aex rs = Inr ((b, l), rs') \<and> hav_ok (m\<lparr>outbuf := b, len := l\<rparr>)"
begin

lemma havoc_step_ok:
  assumes "hav_ok m" "dict_ok ex" "dict_ok aex"
  shows "op_ok m (havoc_step cbl distrib custom ex aex m rs)"
proof -
  obtain r rs1 where r: "distrib ex aex rs = Inr (r, rs1)"
    "r < NUM_CASE \<longrightarrow> case_allowed (ex \<noteq> []) (aex \<noteq> []) (havoc_cases ! r)"
    using distrib_ok by blast
  show ?thesis
  proof (cases "r < NUM_CASE")
    case True
    then show ?thesis
      using r havoc_op_ok [OF assms] by (simp add: havoc_step_def)
  next
    case False
    then show ?thesis
      using r(1) custom_ok [OF assms, of r rs1] by (auto simp: havoc_step_def op_ok_def same_rest_def)
  qed
qed

lemma havoc_loop_ok:
  "hav_ok m \<Longrightarrow> dict_ok ex \<Longrightarrow> dict_ok aex \<Longrightarrow> op_ok m (havoc_loop cbl distrib custom ex aex i m rs)"
  by (induction i arbitrary: m rs) (simp_all add: op_ok_bind havoc_step_ok)

lemma havoc_prepare_ok:
  assumes "hav_ok m"
  shows "\<exists>m'. havoc_prepare m = Inr m' \<and> hav_ok m' \<and> tmpbuf m' = outbuf m \<and> temp_len m' = len m \<and>
    len m' = len m \<and> GetBuf m' = GetBuf m \<and> input m' = input m \<and> splbuf m' = splbuf m \<and> spl_len m' = spl_len m"
proof -
  from assms obtain ob where m: "outbuf m = Some ob" "len m \<le> length ob" "0 < len m" "len m \<le> MaxFile" "mut_ok m"
    by (rule hav_okE)
  have "\<exists>tb. (case if temp_len m < len m then None else tmpbuf m of None \<Rightarrow> Some (replicate (len m) 0) | Some b \<Rightarrow> Some b) = Some tb \<and>
    len m \<le> length tb"
    using m(5) by (cases "tmpbuf m") (auto simp: mut_ok_def)
  then obtain tb where "(case if temp_len m < len m then None else tmpbuf m of None \<Rightarrow> Some (replicate (len m) 0) | Some b \<Rightarrow> Some b) = Some tb"
    "len m \<le> length tb"
    by blast
  then show ?thesis
    using m by (auto simp: havoc_prepare_def Let_def hav_ok_def mut_ok_def GetBuf_def min_def)
qed

lemma Havoc_restores:
  assumes "hav_ok m" "dict_ok ex" "dict_ok aex"
  shows "\<exists>m' rs'. Havoc cbl distrib custom stacking ex aex m rs = Inr (m', rs') \<and> hav_ok m' \<and>
    hav_ok (RestoreHavoc m') \<and> outbuf (RestoreHavoc m') = outbuf m \<and> len (RestoreHavoc m') = len m \<and>
    splbuf (RestoreHavoc m') = splbuf m \<and> spl_len (RestoreHavoc m') = spl_len m \<and> input (RestoreHavoc m') = input m"
proof -
  obtain m1 where m1: "havoc_prepare m = Inr m1" "hav_ok m1" "tmpbuf m1 = outbuf m" "temp_len m1 = len m"
    "input m1 = input m" "splbuf m1 = splbuf m" "spl_len m1 = spl_len m"
    using havoc_prepare_ok [OF assms(1)] by blast
  obtain m2 rs2 where m2: "havoc_loop cbl distrib custom ex aex stacking m1 rs = Inr (m2, rs2)" "hav_ok m2" "same_rest m1 m2"
    using havoc_loop_ok [OF m1(2) assms(2,3)] unfolding op_ok_def by blast
  have f: "tmpbuf m2 = outbuf m" "temp_len m2 = len m" "input m2 = input m" "splbuf m2 = splbuf m" "spl_len m2 = spl_len m"
    using same_rest_fields [OF m2(3)] m1 by simp_all
  then have "hav_ok (RestoreHavoc m2)"
    using m2(2) assms(1) unfolding hav_ok_def mut_ok_def RestoreHavoc_def by simp
  then show ?thesis
    using m1 m2 f by (auto simp: Havoc_def RestoreHavoc_def)
qed

end

section \<open>The block lengths of the two classes\<close>

lemma block_range_ok:
  assumes "0 < rlim"
  shows "\<exists>lo hi rs'. block_range rlim rs = Inr ((lo, hi), rs') \<and> 0 < lo \<and> lo < hi \<and> hi \<le> HavocBlkXl"
proof -
  obtain k rs1 where k: "UR rlim rs = Inr (k, rs1)" using UR_ok [OF assms, of rs] by blast
  obtain b rs2 where b: "UR 10 rs1 = Inr (b, rs2)" using UR_ok [of 10 rs1] by auto
  show ?thesis
    by (simp add: block_range_def k b HavocBlkSmall_def HavocBlkMedium_def HavocBlkLarge_def HavocBlkXl_def)
qed

lemma block_len_ok:
  assumes "0 < rlim" and "0 < limit" and "limit \<le> MaxFile"
  shows "\<exists>n rs'. block_len rlim limit rs = Inr (n, rs') \<and> 0 < n \<and> n \<le> limit \<and> n \<le> HavocBlkXl"
proof -
  obtain lo hi rs1 where r: "block_range rlim rs = Inr ((lo, hi), rs1)" "0 < lo" "lo < hi" "hi \<le> HavocBlkXl"
    using block_range_ok [OF assms(1)] by blast
  define lo' where "lo' = (if limit \<le> lo then 1 else lo)"
  define d where "d = min hi limit - lo' + 1"
  have lo': "0 < lo'" "lo' \<le> min hi limit" "min hi limit < 2 ^ 31"
    using r assms(2,3) by (auto simp: lo'_def MaxFile_def)
  have e: "u32 (u32_sub (min hi limit) lo' + 1) = d"
    using lo' by (simp add: d_def)
  obtain x rs2 where x: "UR d rs1 = Inr (x, rs2)" "x < d"
    using UR_ok [of d rs1] by (auto simp: d_def)
  have "lo' + x \<le> min hi limit"
    using x(2) lo'(2) unfolding d_def by linarith
  then have "u32 (lo' + x) = lo' + x" "0 < lo' + x" "lo' + x \<le> limit" "lo' + x \<le> HavocBlkXl"
    using lo' r(4) by auto
  then show ?thesis
    using r(1) x e by (simp add: block_len_def lo'_def [symmetric] Let_def)
qed

interpretation base_block: block_choice ChooseBlockLen
  by unfold_locales (unfold ChooseBlockLen_def, rule block_len_ok, simp_all)

interpretation afl_block: block_choice "AFL_ChooseBlockLen (Suc cycle) over" for cycle over
  by unfold_locales (unfold AFL_ChooseBlockLen_def, rule block_len_ok, simp_all)

lemma no_custom_ok: "hav_ok m \<Longrightarrow>
    \<exists>b l rs'. no_custom r (outbuf m, len m) ex aex rs = Inr ((b, l), rs') \<and> hav_ok (m\<lparr>outbuf := b, len := l\<rparr>)"
  by (simp add: no_custom_def)

interpretation base_havoc: havoc_env ChooseBlockLen AFLHavocCaseDistrib no_custom
  by unfold_locales (use havoc_distrib_ok no_custom_ok in \<open>blast+\<close>)

interpretation afl_havoc: havoc_env "AFL_ChooseBlockLen (Suc cycle) over" AFLHavocCaseDistrib no_custom for cycle over
  by unfold_locales (use havoc_distrib_ok no_custom_ok in \<open>blast+\<close>)

text \<open>
  C10. The havoc stage of AFL is memory safe and can be undone. From a buffer that is neither empty nor
  larger than the maximal file, \<open>Mutator::Havoc\<close> with the operators of AFL, for any number of stacked
  operators, any dictionaries and any random numbers, never leaves its allocations and never divides by
  zero; the result is again neither empty nor larger than the maximal file, and \<open>RestoreHavoc\<close> brings
  back the buffer and the length from before. The queue cycle is at least 1, as it is while fuzzing.
\<close>

theorem Havoc_safe_and_restores:
  assumes "hav_ok m" and "dict_ok ex" and "dict_ok aex" and "0 < queue_cycle"
  shows "\<exists>m' rs'. Havoc (AFL_ChooseBlockLen queue_cycle over) AFLHavocCaseDistrib no_custom stacking ex aex m rs = Inr (m', rs') \<and>
    0 < len m' \<and> len m' \<le> MaxFile \<and> (\<exists>xs. GetBuf m' = Inr xs \<and> length xs = len m') \<and>
    GetBuf (RestoreHavoc m') = GetBuf m \<and> len (RestoreHavoc m') = len m \<and> hav_ok (RestoreHavoc m')"
proof -
  obtain cycle where c: "queue_cycle = Suc cycle"
    using assms(4) by (cases queue_cycle) auto
  obtain m' rs' where h: "Havoc (AFL_ChooseBlockLen (Suc cycle) over) AFLHavocCaseDistrib no_custom stacking ex aex m rs = Inr (m', rs')"
    "hav_ok m'" "hav_ok (RestoreHavoc m')" "outbuf (RestoreHavoc m') = outbuf m" "len (RestoreHavoc m') = len m"
    using afl_havoc.Havoc_restores [OF assms(1-3)] by blast
  from h(2) obtain ob where "outbuf m' = Some ob" "len m' \<le> length ob" "0 < len m'" "len m' \<le> MaxFile"
    by (rule hav_okE)
  then show ?thesis
    using h c by (auto simp: GetBuf_def)
qed

definition demo_buffer :: Mutator where
  "demo_buffer = Mutator_new [1, 2, 3, 4, 5]"

lemma demo_buffer_ok: "hav_ok demo_buffer"
  by (simp add: demo_buffer_def Mutator_new_def hav_ok_def mut_ok_def MaxFile_def)

theorem Havoc_safe_and_restores_witness:
  "\<exists>m' rs'. Havoc (AFL_ChooseBlockLen 1 True) AFLHavocCaseDistrib no_custom 4 [\<lparr>data = [7, 8], hit_cnt = 0\<rparr>] [] demo_buffer [3, 1, 4, 1, 5, 9, 2, 6] =
     Inr (m', rs') \<and> 0 < len m' \<and> GetBuf (RestoreHavoc m') = Inr [1, 2, 3, 4, 5]"
proof -
  have d: "dict_ok [\<lparr>data = [7, 8], hit_cnt = 0\<rparr>]" "dict_ok []"
    by (simp_all add: dict_ok_def)
  have "GetBuf demo_buffer = Inr [1, 2, 3, 4, 5]"
    by (simp add: demo_buffer_def Mutator_new_def GetBuf_def)
  then show ?thesis
    using Havoc_safe_and_restores [OF demo_buffer_ok d, of 1 True 4 "[3, 1, 4, 1, 5, 9, 2, 6]"] by auto
qed

end
