(* ===== verification/AFL_Dedup.thy ===== *)
theory AFL_Dedup
  imports AFL_Mutator_Props
begin

text \<open>
  The filters of the deterministic stages of AFL (\<open>AFLMutatorTemplate::CouldBeBitflip\<close>,
  \<open>CouldBeArith\<close>): exactly which changes they recognise as the work of an earlier stage.
\<close>

section \<open>Bit flips\<close>

lemma drop_push_eq:
  assumes "bit w 0" and "drop_bit s (push_bit s w) = (w :: uint)"
  shows "shift_loop sh (push_bit s w) = (sh + s, w)"
  using assms(2)
proof (induction s arbitrary: sh)
  case 0
  then show ?case using assms(1) by (simp add: shift_loop.simps)
next
  case (Suc s)
  have e: "drop_bit 1 (push_bit (Suc s) w) = push_bit s w"
  proof (rule bit_word_eqI)
    fix n assume n: "n < LENGTH(32)"
    have "bit (drop_bit (Suc s) (push_bit (Suc s) w)) k = bit w k" for k
      using Suc.prems by simp
    then have "bit w k \<Longrightarrow> Suc s + k < 32" for k
      by (auto simp: bit_simps simp del: push_bit_Suc)
    from this [of "n - s"] show "bit (drop_bit 1 (push_bit (Suc s) w)) n = bit (push_bit s w) n"
      using n by (auto simp: bit_simps Suc_diff_le simp del: push_bit_Suc)
  qed
  have "drop_bit s (push_bit s w) = drop_bit s (drop_bit 1 (push_bit (Suc s) w))"
    by (simp only: e)
  also have "\<dots> = w"
    using Suc.prems by (simp add: drop_bit_drop_bit)
  finally have IH: "shift_loop (Suc sh) (push_bit s w) = (Suc sh + s, w)"
    by (rule Suc.IH)
  have "push_bit (Suc s) w \<noteq> 0"
    using Suc.prems assms(1) by auto
  then show ?case
    using IH e by (subst shift_loop.simps) (simp add: bit_simps del: push_bit_Suc)
qed

lemma shift_loop_split:
  "v \<noteq> 0 \<Longrightarrow> \<exists>s w. shift_loop sh v = (sh + s, w) \<and> v = push_bit s w \<and> bit w 0 \<and> drop_bit s v = w"
proof (induction sh v rule: shift_loop.induct)
  case (1 sh v)
  show ?case
  proof (cases "bit v 0")
    case True
    then show ?thesis by (intro exI [of _ 0] exI [of _ v]) (simp add: shift_loop.simps)
  next
    case False
    let ?v = "drop_bit 1 v"
    have pv: "push_bit 1 ?v = v"
    proof (rule bit_word_eqI)
      fix n
      show "bit (push_bit 1 ?v) n = bit v n"
        using False by (cases n) (auto simp: bit_simps simp del: push_bit_Suc dest: bit_imp_le_length)
    qed
    then have "?v \<noteq> 0"
      using 1(2) by (metis push_bit_of_0)
    then obtain s w where w: "shift_loop (sh + 1) ?v = (sh + 1 + s, w)" "?v = push_bit s w" "bit w 0" "drop_bit s ?v = w"
      using 1 False by blast
    have "v = push_bit (Suc s) w"
      using pv w(2) by (metis add.commute plus_1_eq_Suc push_bit_push_bit)
    moreover have "shift_loop sh v = (sh + Suc s, w)"
      using w(1) 1(2) False by (subst shift_loop.simps) simp
    moreover have "drop_bit (Suc s) v = w"
      using w(4) by (simp add: drop_bit_drop_bit)
    ultimately show ?thesis
      using w(3) by blast
  qed
qed

text \<open>
  A run of \<open>k\<close> bits that starts at bit \<open>s\<close>.
\<close>

definition bit_run :: "nat \<Rightarrow> nat \<Rightarrow> uint" where
  "bit_run s k = push_bit s (mask k)"

lemma mask_values: "mask 1 = (1 :: uint)" "mask 2 = (3 :: uint)" "mask 4 = (15 :: uint)" "mask 8 = (0xff :: uint)"
  "mask 16 = (0xffff :: uint)" "mask 32 = (0xffffffff :: uint)"
  by (simp_all add: mask_numeral)

lemma bit_run_fits:
  assumes "0 < k" and "s + k \<le> 32"
  shows "bit_run s k \<noteq> 0" and "shift_loop 0 (bit_run s k) = (s, mask k)"
proof -
  have d: "drop_bit s (push_bit s (mask k)) = (mask k :: uint)"
    by (rule bit_word_eqI) (use assms in \<open>auto simp: bit_simps\<close>)
  show "shift_loop 0 (bit_run s k) = (s, mask k)"
    using drop_push_eq [of "mask k" s 0] d assms by (simp add: bit_run_def bit_simps)
  show "bit_run s k \<noteq> 0"
    using d assms by (metis bit_run_def bit_mask_iff drop_bit_of_0 bit_0_eq bot_apply bot_bool_def possible_bit_0)
qed

lemma shifted_mask:
  assumes "v \<noteq> 0" and "shift_loop 0 v = (s, mask k)" and "k \<le> 32"
  shows "v = bit_run s k" and "s + k \<le> 32"
proof -
  obtain s' w where w: "shift_loop 0 v = (0 + s', w)" "v = push_bit s' w" "bit w 0" "drop_bit s' v = w"
    using shift_loop_split [OF assms(1)] by blast
  have e: "s' = s" "w = mask k"
    using w(1) assms(2) by auto
  then show "v = bit_run s k"
    using w(2) by (simp add: bit_run_def)
  show "s + k \<le> 32"
  proof (cases k)
    case (Suc i)
    have "bit (drop_bit s v) i"
      using w(4) e Suc assms(3) by (simp add: bit_simps)
    then have "bit v (s + i)"
      by (simp add: bit_simps)
    then show ?thesis
      using bit_imp_le_length [of v "s + i"] Suc by simp
  next
    case 0
    then show ?thesis using w(3) e by simp
  qed
qed

lemma CouldBeBitflip_cases:
  assumes "v \<noteq> 0" and "shift_loop 0 v = (s, w)"
  shows "CouldBeBitflip v \<longleftrightarrow> w \<in> {mask 1, mask 2, mask 4} \<or> 8 dvd s \<and> w \<in> {mask 8, mask 16, mask 32}"
proof -
  have "s AND 7 = s mod 8"
    using take_bit_eq_mask [of 3 s] by (simp add: mask_eq_exp_minus_1 take_bit_eq_mod)
  then show ?thesis
    using assms by (auto simp: CouldBeBitflip_def mask_values dvd_eq_mod_eq_0)
qed

text \<open>
  \<open>CouldBeBitflip\<close> recognises exactly the differences that are zero or a run of 1, 2 or 4 bits
  anywhere in the word, or a run of 8, 16 or 32 bits at a multiple of 8. Its loop ends for every value.
\<close>

theorem CouldBeBitflip_runs:
  "CouldBeBitflip v \<longleftrightarrow> v = 0 \<or>
     (\<exists>s k. v = bit_run s k \<and> s + k \<le> 32 \<and> (k \<in> {1, 2, 4} \<or> k \<in> {8, 16, 32} \<and> 8 dvd s))"
proof (cases "v = 0")
  case False
  obtain s w where sw: "shift_loop 0 v = (s, w)" by fastforce
  show ?thesis
  proof
    assume "CouldBeBitflip v"
    then obtain k where k: "w = mask k" "k \<in> {1, 2, 4} \<or> k \<in> {8, 16, 32} \<and> 8 dvd s"
      using CouldBeBitflip_cases [OF False sw] by blast
    then have "k \<le> 32" by auto
    then show "v = 0 \<or> (\<exists>s k. v = bit_run s k \<and> s + k \<le> 32 \<and> (k \<in> {1, 2, 4} \<or> k \<in> {8, 16, 32} \<and> 8 dvd s))"
      using shifted_mask [OF False, of s k] sw k by auto
  next
    assume "v = 0 \<or> (\<exists>s k. v = bit_run s k \<and> s + k \<le> 32 \<and> (k \<in> {1, 2, 4} \<or> k \<in> {8, 16, 32} \<and> 8 dvd s))"
    then obtain t k where k: "v = bit_run t k" "t + k \<le> 32" "k \<in> {1, 2, 4} \<or> k \<in> {8, 16, 32} \<and> 8 dvd t"
      using False by blast
    then have "0 < k" by auto
    then have "s = t" "w = mask k"
      using bit_run_fits(2) [OF _ k(2)] sw k(1) by auto
    then show "CouldBeBitflip v"
      using CouldBeBitflip_cases [OF False sw] k(3) by auto
  qed
qed (simp add: CouldBeBitflip_def)

text \<open>
  A run of two bits that crosses a byte boundary is such a difference, but no bit flip of AFL produces it: the
  flips count the bits of a byte from the most significant one, the word is read in little-endian order.
\<close>

definition flip_results :: "u8 list \<Rightarrow> u8 list result list" where
  "flip_results bs =
     map (\<lambda>(pos, n). bindR (FlipBit (Mutator_new bs) pos n) GetBuf)
       (concat (map (\<lambda>n. map (\<lambda>pos. (pos, n)) [0..<8 * length bs + 1 - n]) [1, 2, 4])) @
     map (\<lambda>(pos, n). bindR (FlipByte (Mutator_new bs) pos n) GetBuf)
       (concat (map (\<lambda>n. map (\<lambda>pos. (pos, n)) [0..<length bs + 1 - n]) [1, 2]))"

lemma bitflip_filter_accepts: "CouldBeBitflip (of_le [0, 0] XOR of_le [0x80, 1])"
proof -
  have "of_le [0, 0] XOR of_le [0x80, 1] = bit_run 7 2"
    by (simp add: bit_run_def mask_values push_bit_eq_mult)
  then show ?thesis
    using CouldBeBitflip_cases [OF bit_run_fits, of 2 7] by simp
qed

lemma bitflip_filter_too_wide:
  "CouldBeBitflip (of_le [0, 0] XOR of_le [0x80, 1]) \<and> list_all (\<lambda>r. r \<noteq> Inr [0x80, 1]) (flip_results [0, 0])"
  using bitflip_filter_accepts
  by (simp add: flip_results_def FlipBit_def FlipByte_def Mutator_new_def GetBuf_def FLIP_BIT_ok upt_rec
      ReadMem_def Overwrite_def le_bytes_def flip_mask_def) (simp add: numeral_2_eq_2 [symmetric])

end
