(* ===== verification/AFL_Arith.thy ===== *)
theory AFL_Arith
  imports AFL_Dedup
begin

text \<open>
  \<open>AFLMutatorTemplate::CouldBeArith\<close>: exactly which changes it takes for the work of an arithmetic stage,
  in terms of the operation that \<open>AddN\<close> and \<open>SubN\<close> perform on one byte, word or double word.
\<close>

section \<open>Units of a value\<close>

definition unit_of :: "nat \<Rightarrow> nat \<Rightarrow> uint \<Rightarrow> uint" where
  "unit_of n i v = take_bit (8 * n) (drop_bit (8 * n * i) v)"

lemma bit_unit_of: "bit (unit_of n i v) k \<longleftrightarrow> k < 8 * n \<and> bit v (8 * n * i + k)"
  by (auto simp: unit_of_def bit_simps)

lemma unit_of_trunc [simp]: "take_bit (8 * n) (unit_of n i v) = unit_of n i v"
  by (simp add: unit_of_def)

lemma bit_insert_at:
  assumes "take_bit (8 * n) x = x"
  shows "bit (insert_at n v p x) k \<longleftrightarrow> k < 32 \<and> (if 8 * p \<le> k \<and> k < 8 * p + 8 * n then bit x (k - 8 * p) else bit v k)"
proof -
  have x: "bit x j \<Longrightarrow> j < 8 * n" for j
    by (subst (asm) assms [symmetric]) (simp add: bit_simps)
  show ?thesis
    using x [of "k - 8 * p"] bit_imp_le_length [of v k] by (auto simp: insert_at_def bit_simps)
qed

lemma unit_of_insert_at:
  assumes "take_bit (8 * n) x = x" and "n * (i + 1) \<le> 4" and "n * (j + 1) \<le> 4"
  shows "unit_of n j (insert_at n v (n * i) x) = (if j = i then x else unit_of n j v)"
proof (rule bit_word_eqI)
  fix k assume "k < LENGTH(32)"
  have "8 * n * j + k < 32" if "k < 8 * n"
    using that assms(3) by (simp add: algebra_simps)
  moreover have "8 * n * i \<le> 8 * n * j + k \<and> 8 * n * j + k < 8 * n * i + 8 * n \<longleftrightarrow> j = i" if "k < 8 * n"
  proof
    assume a: "8 * n * i \<le> 8 * n * j + k \<and> 8 * n * j + k < 8 * n * i + 8 * n"
    then have "8 * n * i < 8 * n * Suc j" "8 * n * j < 8 * n * Suc i"
      using that unfolding mult_Suc_right by linarith+
    then have "i < Suc j" "j < Suc i"
      unfolding mult_less_cancel1 by simp_all
    then show "j = i"
      by simp
  qed (use that in auto)
  moreover have "bit x k \<Longrightarrow> k < 8 * n"
    by (subst (asm) assms(1) [symmetric]) (simp add: bit_simps)
  ultimately show "bit (unit_of n j (insert_at n v (n * i) x)) k = bit (if j = i then x else unit_of n j v) k"
    unfolding bit_unit_of bit_insert_at [OF assms(1)] by (auto simp: bit_unit_of mult.assoc)
qed

text \<open>A value of \<open>blen\<close> bytes is determined by its units.\<close>

lemma units_ext:
  assumes v: "take_bit (8 * blen) v = v" and w: "take_bit (8 * blen) w = w" and n: "0 < n" "n dvd blen"
    and e: "\<And>i. i < blen div n \<Longrightarrow> unit_of n i v = unit_of n i w"
  shows "v = w"
proof (rule bit_word_eqI)
  fix k assume "k < LENGTH(32)"
  show "bit v k = bit w k"
  proof (cases "k < 8 * blen")
    case True
    let ?i = "k div (8 * n)" and ?j = "k mod (8 * n)"
    have "?i < blen div n"
      using True n by (auto simp: div_less_iff_less_mult mult.commute mult.left_commute elim!: dvdE)
    then have "bit (unit_of n ?i v) ?j = bit (unit_of n ?i w) ?j"
      using e by simp
    then show ?thesis
      using n(1) by (simp add: bit_unit_of mult_div_mod_eq)
  next
    case False
    then show ?thesis
      by (metis bit_take_bit_iff v w)
  qed
qed

lemma single_unit:
  assumes v: "take_bit (8 * blen) v = v" and w: "take_bit (8 * blen) w = w" and n: "0 < n" "n dvd blen" "blen \<le> 4"
    and i: "i < blen div n" and e: "\<And>j. j < blen div n \<Longrightarrow> j \<noteq> i \<Longrightarrow> unit_of n j v = unit_of n j w"
  shows "w = insert_at n v (n * i) (unit_of n i w)"
proof (rule units_ext [OF w _ n(1,2)])
  have le: "n * (j + 1) \<le> 4" "n * (j + 1) \<le> blen" if "j < blen div n" for j
  proof -
    obtain c where "blen = n * c" using n(2) by (elim dvdE)
    then have "j + 1 \<le> c" using that n(1) by simp
    then show "n * (j + 1) \<le> blen" unfolding \<open>blen = n * c\<close> by (rule mult_le_mono2)
    then show "n * (j + 1) \<le> 4" using n(3) by simp
  qed
  show "take_bit (8 * blen) (insert_at n v (n * i) (unit_of n i w)) = insert_at n v (n * i) (unit_of n i w)"
  proof (rule bit_word_eqI)
    fix k assume "k < LENGTH(32)"
    have "bit v k \<Longrightarrow> k < 8 * blen"
      by (metis bit_take_bit_iff v)
    then show "bit (take_bit (8 * blen) (insert_at n v (n * i) (unit_of n i w))) k = bit (insert_at n v (n * i) (unit_of n i w)) k"
      using le(2) [OF i] by (auto simp: bit_take_bit_iff bit_insert_at)
  qed
  show "unit_of n j w = unit_of n j (insert_at n v (n * i) (unit_of n i w))" if "j < blen div n" for j
    using e [OF that] le(1) [OF i] le(1) [OF that] by (simp add: unit_of_insert_at)
qed

section \<open>The loops over the units\<close>

definition differing :: "nat \<Rightarrow> uint \<Rightarrow> uint \<Rightarrow> nat list \<Rightarrow> nat list" where
  "differing n v w is = filter (\<lambda>i. unit_of n i v \<noteq> unit_of n i w) is"

lemma diff_loop_differing:
  "diff_loop (8 * n) v w is (d, ov, nv) =
     (let fs = differing n v w is
      in (d + length fs, if fs = [] then (ov, nv) else (unit_of n (last fs) v, unit_of n (last fs) w)))"
proof (induction "is" arbitrary: d ov nv)
  case (Cons i js)
  then show ?case
    by (cases "unit_of n i v = unit_of n i w") (simp_all add: differing_def unit_of_def mult.assoc Let_def)
qed (simp add: differing_def)

lemma one_differs:
  "length (differing n v w [0..<c]) = 1 \<longleftrightarrow>
     (\<exists>i < c. differing n v w [0..<c] = [i] \<and> unit_of n i v \<noteq> unit_of n i w \<and> (\<forall>j < c. j \<noteq> i \<longrightarrow> unit_of n j v = unit_of n j w))"
  (is "?L \<longleftrightarrow> ?R")
proof
  assume ?L
  then obtain i where i: "differing n v w [0..<c] = [i]"
    by (auto simp: length_Suc_conv)
  have "set (differing n v w [0..<c]) = {j. j < c \<and> unit_of n j v \<noteq> unit_of n j w}"
    by (auto simp: differing_def)
  then have "{j. j < c \<and> unit_of n j v \<noteq> unit_of n j w} = {i}"
    using i by simp
  then show ?R
    using i by blast
qed auto

lemma filter_eq_single:
  assumes "i < c" and "P i" and "\<And>j. j < c \<Longrightarrow> j \<noteq> i \<Longrightarrow> \<not> P j"
  shows "filter P [0..<c] = [i]"
proof -
  have "[0..<c] = [0..<i] @ i # [Suc i..<c]"
    using assms(1) by (metis less_imp_le_nat upt_add_eq_append upt_conv_Cons le_add_diff_inverse zero_le)
  moreover have "filter P [0..<i] = []" "filter P [Suc i..<c] = []"
    using assms by (auto simp: filter_empty_conv)
  ultimately show ?thesis
    using assms(2) by simp
qed

section \<open>Small differences\<close>

lemma take_bit_le_unat: "unat (take_bit w (of_nat d :: uint)) \<le> d"
  by (simp add: unsigned_take_bit_eq take_bit_nat_less_eq_self unsigned_of_nat)

lemma take_bit_collapse_int:
  "take_bit w (a - take_bit w b) = take_bit w (a - b :: int)"
  "take_bit w (take_bit w a - b) = take_bit w (a - b :: int)"
  "take_bit w (take_bit w a + b) = take_bit w (a + b :: int)"
  using take_bit_diff [of w a "take_bit w b"] take_bit_diff [of w a b] take_bit_diff [of w "take_bit w a" b]
    take_bit_add [of w "take_bit w a" b] take_bit_add [of w a b] by simp_all

lemma take_bit_collapse:
  "take_bit w (a - take_bit w b) = take_bit w (a - b :: uint)"
  "take_bit w (take_bit w a - b) = take_bit w (a - b :: uint)"
  "take_bit w (take_bit w a + b) = take_bit w (a + b :: uint)"
  by (transfer, simp add: take_bit_collapse_int)+

lemma near_sub:
  assumes a: "take_bit w a = a" and b: "take_bit w b = b"
  shows "take_bit w (a - b) \<le> (of_nat ArithMax :: uint) \<longleftrightarrow> (\<exists>d \<le> ArithMax. b = take_bit w (a - of_nat d))" (is "?L \<longleftrightarrow> ?R")
proof
  assume ?L
  let ?d = "unat (take_bit w (a - b))"
  have "take_bit w (a - of_nat ?d) = take_bit w (a - take_bit w (a - b))"
    by simp
  also have "\<dots> = take_bit w (a - (a - b))"
    by (rule take_bit_collapse)
  finally have "b = take_bit w (a - of_nat ?d)"
    using b by simp
  moreover have "?d \<le> ArithMax"
    using \<open>?L\<close> by (simp add: word_le_nat_alt ArithMax_def)
  ultimately show ?R by blast
next
  assume ?R
  then obtain d where d: "d \<le> ArithMax" "b = take_bit w (a - of_nat d)" by blast
  have "take_bit w (a - b) = take_bit w (a - (a - of_nat d))"
    unfolding d(2) by (rule take_bit_collapse)
  then have "unat (take_bit w (a - b)) \<le> d"
    using take_bit_le_unat [of w d] by simp
  then show ?L
    using d(1) by (simp add: word_le_nat_alt ArithMax_def)
qed

text \<open>A change of a unit by at most \<open>ARITH_MAX\<close>, up or down.\<close>

definition arith_step :: "(uint \<Rightarrow> uint) \<Rightarrow> (uint \<Rightarrow> uint) \<Rightarrow> uint \<Rightarrow> uint \<Rightarrow> bool" where
  "arith_step enc dec a b \<longleftrightarrow> (\<exists>d \<le> ArithMax. b = enc (dec a + of_nat d) \<or> b = enc (dec a - of_nat d))"

lemma arith_near_step:
  assumes a: "take_bit w a = a" and b: "take_bit w b = b"
  shows "arith_near w a b \<longleftrightarrow> arith_step (take_bit w) id a b"
proof -
  have "take_bit w (b - a) \<le> (of_nat ArithMax :: uint) \<longleftrightarrow> (\<exists>d \<le> ArithMax. b = take_bit w (a + of_nat d))"
  proof -
    have "a = take_bit w (b - of_nat d) \<longleftrightarrow> b = take_bit w (a + of_nat d)" for d
    proof
      assume "a = take_bit w (b - of_nat d)"
      then have "take_bit w (a + of_nat d) = take_bit w (b - of_nat d + of_nat d)"
        by (simp only: take_bit_collapse)
      then show "b = take_bit w (a + of_nat d)" using b by simp
    next
      assume "b = take_bit w (a + of_nat d)"
      then have "take_bit w (b - of_nat d) = take_bit w (a + of_nat d - of_nat d)"
        by (simp only: take_bit_collapse)
      then show "a = take_bit w (b - of_nat d)" using a by simp
    qed
    then show ?thesis using near_sub [OF b a] by simp
  qed
  then show ?thesis
    using near_sub [OF a b] by (auto simp: arith_near_def arith_step_def)
qed

section \<open>Byte orders\<close>

lemma bit_SWAP16: "bit (SWAP16 x) k \<longleftrightarrow> (if k < 8 then bit x (k + 8) else k < 16 \<and> bit x (k - 8))"
  by (auto simp: SWAP16_def Let_def bit_simps add.commute)

lemma SWAP16_trunc [simp]: "take_bit 16 (SWAP16 x) = SWAP16 x" "SWAP16 (take_bit 16 x) = SWAP16 x"
  by (simp_all add: SWAP16_def Let_def)

lemma SWAP16_involution [simp]: "SWAP16 (SWAP16 x) = take_bit 16 x"
  by (rule bit_word_eqI) (auto simp: bit_SWAP16 bit_simps)

lemma SWAP32_masks:
  "SWAP32 r = push_bit 24 r OR drop_bit 24 r OR (push_bit 8 r AND push_bit 16 (mask 8)) OR (drop_bit 8 r AND push_bit 8 (mask 8))"
  by (simp add: SWAP32_def mask_values push_bit_eq_mult)

lemma bit_SWAP32: "bit (SWAP32 x) k \<longleftrightarrow>
    (if k < 8 then bit x (k + 24) else if k < 16 then bit x (k + 8) else if k < 24 then bit x (k - 8) else k < 32 \<and> bit x (k - 24))"
proof -
  have "bit x j \<Longrightarrow> j < 32" for j using bit_imp_le_length [of x j] by simp
  from this [of "k + 24"] this [of "k + 8"] show ?thesis
    by (auto simp: SWAP32_masks bit_simps add.commute)
qed

lemma SWAP32_involution [simp]: "SWAP32 (SWAP32 x) = x"
  by (rule bit_word_eqI) (auto simp: bit_SWAP32)

lemma take_bit_32 [simp]: "take_bit 32 (x :: uint) = x"
  by (simp add: take_bit_word_eq_self)

section \<open>What the filter recognises\<close>

text \<open>\<open>b\<close> is a result of \<open>AddN\<close> or \<open>SubN\<close> on a unit with value \<open>a\<close>.\<close>

definition unit_arith :: "nat \<Rightarrow> bool \<Rightarrow> uint \<Rightarrow> uint \<Rightarrow> bool" where
  "unit_arith n be a b \<longleftrightarrow>
     (\<exists>d \<le> ArithMax. b = arith_val (+) n a (of_nat d) be \<or> b = arith_val (-) n a (of_nat d) be)"

lemma swap16_near:
  assumes "take_bit 16 b = b"
  shows "arith_near 16 (SWAP16 a) (SWAP16 b) \<longleftrightarrow> unit_arith 2 True a b"
proof -
  have "SWAP16 b = take_bit 16 x \<longleftrightarrow> b = SWAP16 x" for x
    using assms by (metis SWAP16_involution SWAP16_trunc(2))
  then show ?thesis
    by (simp add: arith_near_step arith_step_def unit_arith_def arith_val_def)
qed

lemma swap32_near: "arith_near 32 (SWAP32 a) (SWAP32 b) \<longleftrightarrow> unit_arith 4 True a b"
proof -
  have "SWAP32 b = x \<longleftrightarrow> b = SWAP32 x" for x
    by (metis SWAP32_involution)
  then show ?thesis
    by (simp add: arith_near_step arith_step_def unit_arith_def arith_val_def)
qed

lemma plain_near:
  "take_bit 8 a = a \<Longrightarrow> take_bit 8 b = b \<Longrightarrow> arith_near 8 a b \<longleftrightarrow> unit_arith 1 be a b"
  "take_bit 16 a = a \<Longrightarrow> take_bit 16 b = b \<Longrightarrow> arith_near 16 a b \<longleftrightarrow> unit_arith 2 False a b"
  "arith_near 32 a b \<longleftrightarrow> unit_arith 4 False a b"
  by (simp_all add: arith_near_step arith_step_def unit_arith_def arith_val_def trunc_def)

lemma unit_arith_trunc:
  assumes "n \<in> {1, 2, 4}" and "unit_arith n be a b"
  shows "take_bit (8 * n) b = b"
  using assms by (auto simp: unit_arith_def arith_val_def trunc_def)

text \<open>A unit of \<open>n\<close> bytes of a value of \<open>blen\<close> bytes is changed by an arithmetic operation.\<close>

definition arith_at :: "nat \<Rightarrow> bool \<Rightarrow> nat \<Rightarrow> uint \<Rightarrow> uint \<Rightarrow> bool" where
  "arith_at n be blen old_val new_val \<longleftrightarrow>
     (\<exists>i < blen div n. \<exists>b. unit_arith n be (unit_of n i old_val) b \<and> new_val = insert_at n old_val (n * i) b)"

lemma arith_at_one:
  assumes v: "take_bit (8 * blen) v = v" and w: "take_bit (8 * blen) w = w" and n: "n \<in> {1, 2, 4}" "n dvd blen" "blen \<le> 4"
    and ne: "v \<noteq> w"
  shows "arith_at n be blen v w \<longleftrightarrow>
    (\<exists>i < blen div n. differing n v w [0..<blen div n] = [i] \<and> unit_arith n be (unit_of n i v) (unit_of n i w))"
proof
  assume "arith_at n be blen v w"
  then obtain i b where i: "i < blen div n" and b: "unit_arith n be (unit_of n i v) b" and w': "w = insert_at n v (n * i) b"
    by (auto simp: arith_at_def)
  have n0: "0 < n" using n(1) by auto
  have le: "n * (j + 1) \<le> 4" if "j < blen div n" for j
  proof -
    have "n * (j + 1) \<le> n * (blen div n)" using that by (intro mult_le_mono2) simp
    then show ?thesis using n(2,3) by simp
  qed
  have u: "unit_of n j w = (if j = i then b else unit_of n j v)" if "j < blen div n" for j
    unfolding w' by (rule unit_of_insert_at [OF unit_arith_trunc [OF n(1) b] le [OF i] le [OF that]])
  then have d: "unit_of n i v \<noteq> unit_of n i w"
    using ne units_ext [OF v w n0 n(2)] i by metis
  have "differing n v w [0..<blen div n] = [i]"
    using d u i by (simp add: differing_def filter_eq_single)
  then show "\<exists>i < blen div n. differing n v w [0..<blen div n] = [i] \<and> unit_arith n be (unit_of n i v) (unit_of n i w)"
    using i b u by auto
next
  assume "\<exists>i < blen div n. differing n v w [0..<blen div n] = [i] \<and> unit_arith n be (unit_of n i v) (unit_of n i w)"
  then obtain i where i: "i < blen div n" "differing n v w [0..<blen div n] = [i]" "unit_arith n be (unit_of n i v) (unit_of n i w)"
    by blast
  have "unit_of n j v = unit_of n j w" if "j < blen div n" "j \<noteq> i" for j
    using one_differs [of n v w "blen div n"] i(2) that by auto
  then have "w = insert_at n v (n * i) (unit_of n i w)"
    using single_unit [OF v w _ n(2,3) i(1)] n(1) by auto
  then show "arith_at n be blen v w"
    using i by (auto simp: arith_at_def)
qed

lemma CouldBeArith_unfold:
  assumes "v \<noteq> w"
  shows "CouldBeArith v w blen \<longleftrightarrow>
    (\<exists>i. differing 1 v w [0..<blen] = [i] \<and> unit_arith 1 False (unit_of 1 i v) (unit_of 1 i w)) \<or>
    blen \<noteq> 1 \<and> (\<exists>i. differing 2 v w [0..<blen div 2] = [i] \<and>
      (unit_arith 2 False (unit_of 2 i v) (unit_of 2 i w) \<or> unit_arith 2 True (unit_of 2 i v) (unit_of 2 i w))) \<or>
    blen = 4 \<and> (unit_arith 4 False v w \<or> unit_arith 4 True v w)"
proof -
  have l8: "diff_loop 8 v w [0..<blen] (0, 0, 0) =
      (let fs = differing 1 v w [0..<blen]
       in (length fs, if fs = [] then (0, 0) else (unit_of 1 (last fs) v, unit_of 1 (last fs) w)))"
    using diff_loop_differing [of 1 v w "[0..<blen]" 0 0 0] by (simp add: Let_def)
  have l16: "diff_loop 16 v w [0..<blen div 2] (0, ov, nv) =
      (let fs = differing 2 v w [0..<blen div 2]
       in (length fs, if fs = [] then (ov, nv) else (unit_of 2 (last fs) v, unit_of 2 (last fs) w)))" for ov nv
    using diff_loop_differing [of 2 v w "[0..<blen div 2]" 0 ov nv] by (simp add: Let_def)
  have one: "length fs = 1 \<and> P (last fs) \<longleftrightarrow> (\<exists>i. fs = [i] \<and> P i)" for fs :: "nat list" and P
    by (auto simp: length_Suc_conv)
  have t: "take_bit 8 (unit_of 1 i x) = unit_of 1 i x" "take_bit 16 (unit_of 2 i x) = unit_of 2 i x" for i x
    using unit_of_trunc [of 1 i x] unit_of_trunc [of 2 i x] by simp_all
  define D1 D2 where "D1 = differing 1 v w [0..<blen]" and "D2 = differing 2 v w [0..<blen div 2]"
  have "CouldBeArith v w blen \<longleftrightarrow>
    (length D1 = 1 \<and> arith_near 8 (unit_of 1 (last D1) v) (unit_of 1 (last D1) w)) \<or>
    blen \<noteq> 1 \<and> (length D2 = 1 \<and> (arith_near 16 (unit_of 2 (last D2) v) (unit_of 2 (last D2) w) \<or>
      arith_near 16 (SWAP16 (unit_of 2 (last D2) v)) (SWAP16 (unit_of 2 (last D2) w)))) \<or>
    blen = 4 \<and> (arith_near 32 v w \<or> arith_near 32 (SWAP32 v) (SWAP32 w))"
    using assms unfolding CouldBeArith_def l8 l16 D1_def [symmetric] D2_def [symmetric] Let_def
    by (cases "D1 = []"; cases "D2 = []") auto
  then show ?thesis
    unfolding plain_near(1) [OF t(1) t(1), where be = False] plain_near(2) [OF t(2) t(2)] swap16_near [OF t(2)]
      plain_near(3) [of v w] swap32_near D1_def D2_def
    by (simp only: one [where P = "\<lambda>i. unit_arith 1 False (unit_of 1 i v) (unit_of 1 i w)"]
        one [where P = "\<lambda>i. unit_arith 2 False (unit_of 2 i v) (unit_of 2 i w) \<or> unit_arith 2 True (unit_of 2 i v) (unit_of 2 i w)"])
qed



end
