(* ===== verification/AFL_Coverage.thy ===== *)
theory AFL_Coverage
  imports AFL_Util
begin

text \<open>
  Coverage feedback of AFL: \<open>AFLStateTemplate::HasNewBits\<close> (\<open>templates/afl_state.hpp\<close>), which compares a
  trace with the map of the bits that have not been seen yet and clears the new ones from it.
\<close>

section \<open>The comparison, a word at a time\<close>

text \<open>The word at index \<open>p\<close> of a memory.\<close>

definition word_at :: "nat \<Rightarrow> nat \<Rightarrow> u8 list \<Rightarrow> u8 list result" where
  "word_at width p mem = (if (p + 1) * width \<le> length mem then Inr (take width (drop (p * width) mem)) else Inl Undefined)"

fun new_bits_loop :: "nat \<Rightarrow> nat \<Rightarrow> nat \<Rightarrow> u8 list \<Rightarrow> u8 list \<Rightarrow> nat \<Rightarrow> (nat \<times> u8 list) result" where
  "new_bits_loop width 0 p trace virgin ret = Inr (ret, virgin)"
| "new_bits_loop width (Suc i) p trace virgin ret =
     bindR (word_at width p trace) (\<lambda>cur.
     bindR (word_at width p virgin) (\<lambda>vir.
       if list_ex (\<lambda>c. c \<noteq> 0) cur \<and> list_ex (\<lambda>(c, v). c AND v \<noteq> 0) (zip cur vir) then
         new_bits_loop width i (Suc p) trace
           (take (p * width) virgin @ map2 (\<lambda>c v. v AND NOT c) cur vir @ drop ((p + 1) * width) virgin)
           (if ret < 2 then (if list_ex (\<lambda>(c, v). c \<noteq> 0 \<and> v = 0xff) (zip cur vir) then 2 else 1) else ret)
       else new_bits_loop width i (Suc p) trace virgin ret))"

text \<open>
  The result, the new map, and the flag \<open>bitmap_changed\<close>; the caller says whether the map is the one for
  normal runs.
\<close>

definition HasNewBits :: "nat \<Rightarrow> u8 list \<Rightarrow> u8 list \<Rightarrow> nat \<Rightarrow> bool \<Rightarrow> bool \<Rightarrow> (nat \<times> u8 list \<times> bool) result" where
  "HasNewBits width trace virgin map_size is_virgin_bits bitmap_changed =
     bindR (new_bits_loop width (drop_bit (if width = 4 then 2 else 3) map_size) 0 trace virgin 0) (\<lambda>(ret, virgin').
       Inr (ret, virgin', bitmap_changed \<or> (ret \<noteq> 0 \<and> is_virgin_bits)))"

section \<open>What it computes\<close>

text \<open>
  For a range of bytes: 2 if a byte is hit that has never been hit, 1 if only a hit count is new, 0
  otherwise; the new bits are cleared from the map.
\<close>

definition novelty :: "u8 list \<Rightarrow> u8 list \<Rightarrow> nat \<Rightarrow> nat \<Rightarrow> nat" where
  "novelty trace virgin a b =
     (if \<exists>i. a \<le> i \<and> i < b \<and> trace ! i \<noteq> 0 \<and> virgin ! i = 0xff then 2
      else if \<exists>i. a \<le> i \<and> i < b \<and> trace ! i AND virgin ! i \<noteq> 0 then 1 else 0)"

definition cleared :: "u8 list \<Rightarrow> u8 list \<Rightarrow> nat \<Rightarrow> nat \<Rightarrow> u8 list \<Rightarrow> bool" where
  "cleared trace virgin a b virgin' \<longleftrightarrow>
     length virgin' = length virgin \<and>
     (\<forall>i < length virgin. virgin' ! i = (if a \<le> i \<and> i < b then virgin ! i AND NOT (trace ! i) else virgin ! i))"

lemma full_byte: "(b :: u8) AND 0xff = b"
proof -
  have "b AND mask 8 = b" by (rule bit_word_eqI) (simp add: bit_simps)
  moreover have "mask 8 = (0xff :: u8)" by (simp add: mask_numeral)
  ultimately show ?thesis by metis
qed

lemma disjoint_keep:
  assumes "c AND v = (0 :: u8)"
  shows "v AND NOT c = v"
proof (rule bit_word_eqI)
  fix n assume n: "n < LENGTH(8)"
  have "\<not> bit (c AND v) n" by (simp add: assms)
  then show "bit (v AND NOT c) n = bit v n" using n by (auto simp: bit_simps)
qed

lemma novelty_split:
  assumes "a \<le> b" and "b \<le> c"
  shows "novelty t v a c = max (novelty t v a b) (novelty t v b c)"
proof -
  have "a \<le> i \<and> i < c \<longleftrightarrow> (a \<le> i \<and> i < b) \<or> (b \<le> i \<and> i < c)" for i
    using assms by auto
  then have e: "(\<exists>i. a \<le> i \<and> i < c \<and> P i) \<longleftrightarrow> (\<exists>i. a \<le> i \<and> i < b \<and> P i) \<or> (\<exists>i. b \<le> i \<and> i < c \<and> P i)" for P
    by blast
  have "(if p \<or> q then 2 else if r \<or> s then 1 else 0) =
      max (if p then 2 else if r then 1 else 0) (if q then 2 else if s then 1 else (0 :: nat))" for p q r s
    by simp
  then show ?thesis
    unfolding novelty_def e [where P = "\<lambda>i. t ! i \<noteq> 0 \<and> v ! i = 0xff"] e [where P = "\<lambda>i. t ! i AND v ! i \<noteq> 0"] .
qed

lemma novelty_cong:
  assumes "\<And>i. a \<le> i \<Longrightarrow> i < b \<Longrightarrow> v ! i = v' ! i"
  shows "novelty t v a b = novelty t v' a b"
proof -
  have "(\<exists>i. a \<le> i \<and> i < b \<and> Q i (v ! i)) \<longleftrightarrow> (\<exists>i. a \<le> i \<and> i < b \<and> Q i (v' ! i))" for Q
    using assms by metis
  from this [of "\<lambda>i x. t ! i \<noteq> 0 \<and> x = 0xff"] this [of "\<lambda>i x. t ! i AND x \<noteq> 0"] show ?thesis
    unfolding novelty_def by (simp only:)
qed

lemma word_at_ok: "(p + 1) * width \<le> length mem \<Longrightarrow> word_at width p mem = Inr (map (\<lambda>j. mem ! (p * width + j)) [0..<width])"
  unfolding word_at_def by (auto intro!: nth_equalityI)

lemma ex_word: "(\<exists>j < width. P (p * width + j)) \<longleftrightarrow> (\<exists>i. p * width \<le> i \<and> i < (p + 1) * width \<and> P i)" for p width :: nat
proof
  assume "\<exists>i. p * width \<le> i \<and> i < (p + 1) * width \<and> P i"
  then obtain i where "p * width \<le> i" "i < p * width + width" "P i" by auto
  then show "\<exists>j < width. P (p * width + j)" by (intro exI [of _ "i - p * width"]) auto
next
  assume "\<exists>j < width. P (p * width + j)"
  then obtain j where "j < width" "P (p * width + j)" by blast
  then show "\<exists>i. p * width \<le> i \<and> i < (p + 1) * width \<and> P i" by (intro exI [of _ "p * width + j"]) simp
qed

lemma zip_map_same: "zip (map f xs) (map g xs) = map (\<lambda>x. (f x, g x)) xs"
  by (simp add: zip_map_map zip_same_conv_map)

text \<open>One word: the novelty of the word decides, and in a word without new bits nothing is to be cleared.\<close>

lemma new_bits_step:
  assumes w: "0 < width" and t: "(p + 1) * width \<le> length trace" and v: "(p + 1) * width \<le> length virgin" and ret: "ret \<le> 2"
  shows "\<exists>virgin'. new_bits_loop width (Suc i) p trace virgin ret =
      new_bits_loop width i (Suc p) trace virgin' (max ret (novelty trace virgin (p * width) ((p + 1) * width))) \<and>
    cleared trace virgin (p * width) ((p + 1) * width) virgin'"
proof -
  let ?a = "p * width" and ?b = "(p + 1) * width"
  have nz: "(\<exists>i. ?a \<le> i \<and> i < ?b \<and> trace ! i \<noteq> 0)" if "\<exists>i. ?a \<le> i \<and> i < ?b \<and> trace ! i AND virgin ! i \<noteq> 0"
    using that by (metis and_zero_eq and.commute)
  have full: "\<exists>i. ?a \<le> i \<and> i < ?b \<and> trace ! i AND virgin ! i \<noteq> 0" if "\<exists>i. ?a \<le> i \<and> i < ?b \<and> trace ! i \<noteq> 0 \<and> virgin ! i = 0xff"
    using that by (metis full_byte)
  let ?cur = "map (\<lambda>j. trace ! (?a + j)) [0..<width]" and ?vir = "map (\<lambda>j. virgin ! (?a + j)) [0..<width]"
  have z: "zip ?cur ?vir = map (\<lambda>j. (trace ! (?a + j), virgin ! (?a + j))) [0..<width]"
    by (rule zip_map_same)
  have c1: "list_ex (\<lambda>c. c \<noteq> 0) ?cur \<longleftrightarrow> (\<exists>i. ?a \<le> i \<and> i < ?b \<and> trace ! i \<noteq> 0)"
    unfolding ex_word [symmetric] by (auto simp: list_ex_iff)
  have c2: "list_ex (\<lambda>(c, v). c AND v \<noteq> 0) (zip ?cur ?vir) \<longleftrightarrow> (\<exists>i. ?a \<le> i \<and> i < ?b \<and> trace ! i AND virgin ! i \<noteq> 0)"
    unfolding z ex_word [symmetric] by (auto simp: list_ex_iff)
  have c3: "list_ex (\<lambda>(c, v). c \<noteq> 0 \<and> v = 0xff) (zip ?cur ?vir) \<longleftrightarrow> (\<exists>i. ?a \<le> i \<and> i < ?b \<and> trace ! i \<noteq> 0 \<and> virgin ! i = 0xff)"
    unfolding z ex_word [symmetric] by (auto simp: list_ex_iff)
  have c4: "map2 (\<lambda>c v. v AND NOT c) ?cur ?vir = map (\<lambda>j. virgin ! (?a + j) AND NOT (trace ! (?a + j))) [0..<width]"
    unfolding z by simp
  note step = new_bits_loop.simps(2) [of width i p trace virgin ret, unfolded word_at_ok [OF t] word_at_ok [OF v] bindR_Inr c1 c2 c3 c4]
  show ?thesis
  proof (cases "\<exists>i. ?a \<le> i \<and> i < ?b \<and> trace ! i AND virgin ! i \<noteq> 0")
    case True
    let ?v = "take ?a virgin @ map (\<lambda>j. virgin ! (?a + j) AND NOT (trace ! (?a + j))) [0..<width] @ drop ?b virgin"
    have "cleared trace virgin ?a ?b ?v"
      using v by (auto simp: cleared_def nth_append min_def)
    moreover have "new_bits_loop width (Suc i) p trace virgin ret =
        new_bits_loop width i (Suc p) trace ?v (if ret < 2 then (if \<exists>i. ?a \<le> i \<and> i < ?b \<and> trace ! i \<noteq> 0 \<and> virgin ! i = 0xff then 2 else 1) else ret)"
      unfolding step using True nz [OF True] by (simp only: simp_thms if_True)
    ultimately show ?thesis
      using True ret by (auto simp: novelty_def)
  next
    case False
    then have "cleared trace virgin ?a ?b virgin"
      by (auto simp: cleared_def disjoint_keep)
    moreover have "new_bits_loop width (Suc i) p trace virgin ret = new_bits_loop width i (Suc p) trace virgin ret"
      unfolding step using False by (simp only: simp_thms if_False)
    moreover have "novelty trace virgin ?a ?b = 0"
      using False full by (auto simp: novelty_def)
    ultimately show ?thesis by auto
  qed
qed

lemma cleared_trans:
  assumes "cleared t v a b v1" and "cleared t v1 b c v2" and "a \<le> b" and "b \<le> c"
  shows "cleared t v a c v2"
  using assms by (auto simp: cleared_def)

lemma novelty_empty [simp]: "novelty t v a a = 0"
  unfolding novelty_def by auto

lemma cleared_empty [simp]: "cleared t v a a v"
  unfolding cleared_def by auto

lemma new_bits_loop_ok:
  assumes "0 < width"
  shows "(p + i) * width \<le> length trace \<Longrightarrow> (p + i) * width \<le> length virgin \<Longrightarrow> ret \<le> 2 \<Longrightarrow>
   \<exists>virgin'. new_bits_loop width i p trace virgin ret = Inr (max ret (novelty trace virgin (p * width) ((p + i) * width)), virgin') \<and>
     cleared trace virgin (p * width) ((p + i) * width) virgin'"
proof (induction i arbitrary: p virgin ret)
  case 0
  show ?case by simp
next
  case (Suc i)
  let ?a = "p * width" and ?b = "(p + 1) * width" and ?c = "(p + Suc i) * width"
  have bc: "?a \<le> ?b" "?b \<le> ?c"
    by (simp_all add: mult_le_mono1)
  then have b: "?b \<le> length trace" "?b \<le> length virgin"
    using Suc.prems by linarith+
  obtain v1 where v1: "new_bits_loop width (Suc i) p trace virgin ret = new_bits_loop width i (Suc p) trace v1 (max ret (novelty trace virgin ?a ?b))"
    and cl: "cleared trace virgin ?a ?b v1"
    using new_bits_step [OF assms b Suc.prems(3)] by blast
  have len: "length v1 = length virgin" using cl by (simp add: cleared_def)
  have "novelty trace virgin ?a ?b \<le> 2"
    by (simp add: novelty_def)
  then obtain v2 where v2: "new_bits_loop width i (Suc p) trace v1 (max ret (novelty trace virgin ?a ?b)) =
      Inr (max (max ret (novelty trace virgin ?a ?b)) (novelty trace v1 (Suc p * width) ((Suc p + i) * width)), v2)"
    and cl2: "cleared trace v1 (Suc p * width) ((Suc p + i) * width) v2"
    using Suc.IH [of "Suc p" v1 "max ret (novelty trace virgin ?a ?b)"] Suc.prems len by auto
  have eq: "Suc p * width = ?b" "(Suc p + i) * width = ?c" by simp_all
  have "novelty trace v1 ?b ?c = novelty trace virgin ?b ?c"
    by (rule novelty_cong) (use cl Suc.prems(2) in \<open>auto simp: cleared_def\<close>)
  then have "max (max ret (novelty trace virgin ?a ?b)) (novelty trace v1 ?b ?c) = max ret (novelty trace virgin ?a ?c)"
    using novelty_split [OF bc] by (simp add: max.assoc)
  then show ?case
    using v1 v2 cleared_trans [OF cl cl2 [unfolded eq] bc] unfolding eq by (auto simp del: mult_Suc)
qed

lemma HasNewBits_ok:
  assumes "width = 4 \<or> width = 8" and "width dvd n" and "length trace = n" and "length virgin = n"
  shows "HasNewBits width trace virgin n isv ch =
    Inr (novelty trace virgin 0 n, map2 (\<lambda>t v. v AND NOT t) trace virgin, ch \<or> (novelty trace virgin 0 n \<noteq> 0 \<and> isv))"
proof -
  let ?i = "drop_bit (if width = 4 then 2 else 3) n"
  have e: "(0 + ?i) * width = n" "0 < width"
    using word_count [OF assms(1,2)] assms(1) by auto
  obtain v' where v': "new_bits_loop width ?i 0 trace virgin 0 = Inr (max 0 (novelty trace virgin (0 * width) ((0 + ?i) * width)), v')"
    "cleared trace virgin (0 * width) ((0 + ?i) * width) v'"
    using new_bits_loop_ok [OF e(2), of 0 ?i trace virgin 0] e(1) assms(3,4) by auto
  have "v' = map2 (\<lambda>t v. v AND NOT t) trace virgin"
    using v'(2) assms(3,4) unfolding e(1) by (auto simp: cleared_def intro!: nth_equalityI)
  then show ?thesis
    using v'(1) unfolding HasNewBits_def e(1) by simp
qed

lemma and_cleared:
  "c AND (v AND NOT c) = (0 :: u8)" and "(v AND NOT c) AND NOT c = v AND NOT (c :: u8)"
  by (rule bit_word_eqI; auto simp: bit_simps)+

text \<open>
  C23. \<open>HasNewBits\<close>, which works a machine word at a time and skips words without new bits, returns 2 if
  the trace hits a byte that was never hit before, 1 if only a hit count is new, and 0 otherwise; it clears
  exactly the bits of the trace from the map, so that the same trace brings nothing new afterwards.
\<close>

theorem HasNewBits_exact:
  assumes "width = 4 \<or> width = 8" and "width dvd n" and "length trace = n" and "length virgin = n"
  shows "\<exists>virgin' changed. HasNewBits width trace virgin n isv ch = Inr (novelty trace virgin 0 n, virgin', changed) \<and>
    virgin' = map2 (\<lambda>t v. v AND NOT t) trace virgin \<and> (changed \<longleftrightarrow> ch \<or> (novelty trace virgin 0 n \<noteq> 0 \<and> isv)) \<and>
    HasNewBits width trace virgin' n isv changed = Inr (0, virgin', changed)"
proof -
  let ?v = "map2 (\<lambda>t v. v AND NOT t) trace virgin"
  have v: "?v ! i = virgin ! i AND NOT (trace ! i)" if "i < n" for i
    using that assms(3,4) by simp
  have z: "trace ! i AND ?v ! i = 0" if "i < n" for i
    unfolding v [OF that] by (rule and_cleared)
  then have "trace ! i = 0 \<or> ?v ! i \<noteq> 0xff" if "i < n" for i
    using that full_byte [of "trace ! i"] by metis
  then have "novelty trace ?v 0 n = 0"
    using z unfolding novelty_def by auto
  moreover have "map2 (\<lambda>t v. v AND NOT t) trace ?v = ?v"
    using assms(3,4) by (auto simp: and_cleared intro!: nth_equalityI)
  ultimately show ?thesis
    using HasNewBits_ok [OF assms] HasNewBits_ok [OF assms(1-3), of ?v isv] assms(3,4) by simp
qed

theorem HasNewBits_exact_witness:
  "HasNewBits 4 [0, 1, 2, 0] [255, 255, 253, 255] 4 True False = Inr (2, [255, 254, 253, 255], True)"
proof -
  have "novelty [0, 1, 2, 0] [255, 255, 253, 255] 0 4 = 2"
    unfolding novelty_def by (rule if_P) (rule exI [of _ 1], simp)
  then show ?thesis
    using HasNewBits_exact [of 4 4 "[0, 1, 2, 0]" "[255, 255, 253, 255]" True False] by auto
qed

end
