(* ===== verification/Fuzzuf_ExecInput.thy ===== *)
theory Fuzzuf_ExecInput
  imports AFL_Util
begin

text \<open>
  \<open>OnDiskExecInput\<close> (\<open>exec_input/on_disk_exec_input.cpp\<close>): a test case in a file, of which a copy may be
  loaded. The record keeps the file's content beside the members of the object; opening a file may fail,
  which the predicate \<open>can_open\<close> of the caller says.
\<close>

record OnDiskExecInput =
  in_path :: string
  in_disk :: "u8 list"          \<comment> \<open>the content of the file\<close>
  in_buf :: "u8 list option"    \<comment> \<open>\<open>buf\<close>, with \<open>nullptr\<close> as \<open>None\<close>\<close>
  in_len :: nat                 \<comment> \<open>\<open>len\<close>\<close>
  hardlinked :: bool

text \<open>\<open>CreateOnDisk\<close> refers to a file without reading it: \<open>len\<close> is 0 until the input is loaded.\<close>

definition CreateOnDisk :: "string \<Rightarrow> u8 list \<Rightarrow> OnDiskExecInput" where
  "CreateOnDisk path content = \<lparr>in_path = path, in_disk = content, in_buf = None, in_len = 0, hardlinked = False\<rparr>"

definition GetLen :: "OnDiskExecInput \<Rightarrow> nat" where
  "GetLen inp = in_len inp"

text \<open>Reading through \<open>GetBuf\<close>, which is undefined for an input that is not loaded.\<close>

definition GetInput :: "OnDiskExecInput \<Rightarrow> u8 list result" where
  "GetInput inp =
     (case in_buf inp of None \<Rightarrow> Inl Undefined
      | Some b \<Rightarrow> if in_len inp \<le> length b then Inr (take (in_len inp) b) else Inl Undefined)"

definition open_input :: "(string \<Rightarrow> bool) \<Rightarrow> OnDiskExecInput \<Rightarrow> OnDiskExecInput result" where
  "open_input can_open inp = (if can_open (in_path inp) then Inr inp else Inl (FileError (in_path inp)))"

definition Load :: "(string \<Rightarrow> bool) \<Rightarrow> OnDiskExecInput \<Rightarrow> OnDiskExecInput result" where
  "Load can_open inp =
     bindR (open_input can_open inp) (\<lambda>inp. Inr (inp\<lparr>in_buf := Some (in_disk inp), in_len := u32 (length (in_disk inp))\<rparr>))"

text \<open>\<open>mmap\<close> fails for a length of zero, which ends the fuzzer through \<open>ERROR\<close>.\<close>

definition LoadByMmap :: "(string \<Rightarrow> bool) \<Rightarrow> OnDiskExecInput \<Rightarrow> OnDiskExecInput result" where
  "LoadByMmap can_open inp =
     bindR (open_input can_open inp) (\<lambda>inp.
       if in_disk inp = [] then Inl (Exit 1)
       else Inr (inp\<lparr>in_buf := Some (in_disk inp), in_len := u32 (length (in_disk inp))\<rparr>))"

definition Unload :: "OnDiskExecInput \<Rightarrow> OnDiskExecInput" where
  "Unload inp = inp\<lparr>in_buf := None\<rparr>"

text \<open>A hard link is replaced by a file of its own before it is written.\<close>

definition Save :: "(string \<Rightarrow> bool) \<Rightarrow> OnDiskExecInput \<Rightarrow> OnDiskExecInput result" where
  "Save can_open inp =
     bindR (open_input can_open (inp\<lparr>hardlinked := False\<rparr>)) (\<lambda>inp.
     bindR (GetInput inp) (\<lambda>bytes. Inr (inp\<lparr>in_disk := bytes\<rparr>)))"

definition OverwriteKeepingLoaded :: "(string \<Rightarrow> bool) \<Rightarrow> u8 list \<Rightarrow> OnDiskExecInput \<Rightarrow> OnDiskExecInput result" where
  "OverwriteKeepingLoaded can_open new_buf inp =
     Save can_open (inp\<lparr>in_buf := Some new_buf, in_len := u32 (length new_buf)\<rparr>)"

text \<open>\<open>OverwriteThenUnload\<close> writes the file and drops the copy; it leaves \<open>len\<close> alone.\<close>

definition OverwriteThenUnload :: "(string \<Rightarrow> bool) \<Rightarrow> u8 list \<Rightarrow> OnDiskExecInput \<Rightarrow> OnDiskExecInput result" where
  "OverwriteThenUnload can_open new_buf inp =
     bindR (open_input can_open (inp\<lparr>in_buf := None\<rparr>)) (\<lambda>inp. Inr (inp\<lparr>in_disk := new_buf\<rparr>))"

text \<open>An input is loaded when its copy is the file's content and \<open>len\<close> its length.\<close>

definition loaded :: "OnDiskExecInput \<Rightarrow> bool" where
  "loaded inp \<longleftrightarrow> in_buf inp = Some (in_disk inp) \<and> in_len inp = length (in_disk inp)"

lemma GetInput_loaded: "loaded inp \<Longrightarrow> GetInput inp = Inr (in_disk inp)"
  by (simp add: loaded_def GetInput_def)

lemma Load_loaded:
  "can_open (in_path inp) \<Longrightarrow> length (in_disk inp) < 2 ^ 32 \<Longrightarrow>
   \<exists>inp'. Load can_open inp = Inr inp' \<and> loaded inp' \<and> in_disk inp' = in_disk inp \<and> in_path inp' = in_path inp"
  by (simp add: Load_def open_input_def loaded_def)

lemma OverwriteKeepingLoaded_ok:
  "can_open (in_path inp) \<Longrightarrow> length new < 2 ^ 32 \<Longrightarrow>
   \<exists>inp'. OverwriteKeepingLoaded can_open new inp = Inr inp' \<and> loaded inp' \<and> in_disk inp' = new \<and> in_path inp' = in_path inp"
  by (simp add: OverwriteKeepingLoaded_def Save_def GetInput_def open_input_def loaded_def)

end
