(* ===== verification/AFL_State.thy ===== *)
theory AFL_State
  imports AFL_Coverage AFL_Mutator Fuzzuf_Feedback Fuzzuf_ExecInput Fuzzuf_Files
begin

text \<open>
  The state of AFL (\<open>afl_state.hpp\<close>, \<open>templates/afl_state.hpp\<close>, \<open>afl_testcase.hpp\<close>, \<open>afl_setting.hpp\<close>): the queue of
  test cases, the maps of the coverage that has not been seen, the best test case for every byte of the
  coverage map, and the operations that run a test case, calibrate it, and decide whether it is kept.

  Test cases are shared pointers in the source; the queue only grows, so a position in the queue stands for
  such a pointer. Counters of type \<open>u32\<close> wrap; the statistics of type \<open>u64\<close> are natural numbers. What is
  written only for the status screen (names of stages, times of the last finds) is left out.
\<close>

section \<open>Settings and the world outside\<close>

record AFLSetting =
  out_dir :: string
  exec_timelimit_ms :: nat
  dumb_mode :: bool
  simple_files :: bool
  ignore_finds :: bool

record RunResult =
  r_reason :: PUTExitReasonType
  r_signal :: nat
  r_trace :: "u8 list"

text \<open>The directories under \<open>queue/.state\<close> in which a file marks a property of a test case.\<close>

datatype Marker = DeterministicDone | VariableBehavior | RedundantEdges

text \<open>
  What the state calls but does not own: the executor, whose result may depend on all earlier runs (the
  number of the run is an argument; a timeout of 0 stands for the call without a timeout); the clock, read
  after a number of runs; whether a stop signal has arrived during a run; which files can be opened and
  whether a marker file can be created or removed. \<open>map_size\<close> is \<open>GetMapSize\<close>, which can be specialised for
  a derived fuzzer, and \<open>word_width\<close> is \<open>sizeof(size_t)\<close>.
\<close>

record World =
  map_size :: nat
  word_width :: nat
  run :: "nat \<Rightarrow> u8 list \<Rightarrow> nat \<Rightarrow> RunResult"
  clock_us :: "nat \<Rightarrow> nat"
  interrupted :: "nat \<Rightarrow> bool"
  can_open :: "string \<Rightarrow> bool"
  can_mark :: "Marker \<Rightarrow> string \<Rightarrow> bool \<Rightarrow> bool"

section \<open>Test cases and the state\<close>

record AFLTestcase =
  input :: OnDiskExecInput
  cal_failed :: nat
  trim_done :: bool
  passed_det :: bool
  has_new_cov :: bool
  var_behavior :: bool
  favored :: bool
  fs_redundant :: bool
  bitmap_size :: nat
  fuzz_level :: nat
  exec_cksum :: nat
  exec_us :: nat
  handicap :: nat
  depth :: nat
  trace_mini :: "bool list option"
  tc_ref :: nat

definition AFLTestcase_new :: "OnDiskExecInput \<Rightarrow> AFLTestcase" where
  "AFLTestcase_new inp =
     \<lparr>input = inp, cal_failed = 0, trim_done = False, passed_det = False, has_new_cov = False,
      var_behavior = False, favored = False, fs_redundant = False, bitmap_size = 0, fuzz_level = 0,
      exec_cksum = 0, exec_us = 0, handicap = 0, depth = 0, trace_mini = None, tc_ref = 0\<rparr>"

definition WasFuzzed :: "AFLTestcase \<Rightarrow> bool" where
  "WasFuzzed tc = (0 < fuzz_level tc)"

definition MarkFuzzed :: "AFLTestcase \<Rightarrow> AFLTestcase" where
  "MarkFuzzed tc = tc\<lparr>fuzz_level := 1\<rparr>"

datatype StageVal = STAGE_VAL_NONE | STAGE_VAL_LE | STAGE_VAL_BE

record AFLState =
  setting :: AFLSetting
  case_queue :: "AFLTestcase list"
  top_rated :: "nat option list"
  score_changed :: bool
  virgin_bits :: "u8 list"
  virgin_tmout :: "u8 list"
  virgin_crash :: "u8 list"
  var_bytes :: "u8 list"
  bitmap_changed :: bool
  crash_mode :: PUTExitReasonType
  stop_soon :: bool
  resuming_fuzz :: bool
  fast_cal :: bool
  hang_tmout :: nat
  use_splicing :: bool
  seek_to :: nat
  queued_paths :: nat
  queued_variable :: nat
  queued_discovered :: nat
  queued_favored :: nat
  queued_with_cov :: nat
  pending_not_fuzzed :: nat
  pending_favored :: nat
  cur_skipped_paths :: nat
  cur_depth :: nat
  max_depth :: nat
  var_byte_count :: nat
  current_entry :: nat
  subseq_tmouts :: nat
  total_crashes :: nat
  unique_crashes :: nat
  total_tmouts :: nat
  unique_tmouts :: nat
  unique_hangs :: nat
  total_execs :: nat
  queue_cycle :: nat
  cycles_wo_finds :: nat
  trim_execs :: nat
  bytes_trim_in :: nat
  bytes_trim_out :: nat
  total_cal_us :: nat
  total_cal_cycles :: nat
  total_bitmap_size :: nat
  total_bitmap_entries :: nat
  orig_perf :: nat
  stage_short :: string
  stage_cur_byte :: int
  stage_cur_val :: int
  stage_val_type :: StageVal
  splicing_with :: int
  syncing_party :: string
  syncing_case :: nat
  prev_queued :: nat            \<comment> \<open>the member of \<open>SelectSeed\<close>\<close>
  saved_files :: "(string \<times> u8 list) list"  \<comment> \<open>crashes and hangs on disk\<close>

text \<open>The constructor and the initial values of the members, without a bitmap to start from.\<close>

definition AFLState_new :: "World \<Rightarrow> AFLSetting \<Rightarrow> AFLState" where
  "AFLState_new W st =
     \<lparr>setting = st, case_queue = [], top_rated = replicate (map_size W) None, score_changed = False,
      virgin_bits = replicate (map_size W) 255, virgin_tmout = replicate (map_size W) 255,
      virgin_crash = replicate (map_size W) 255, var_bytes = replicate (map_size W) 0, bitmap_changed = True,
      crash_mode = FAULT_NONE, stop_soon = False, resuming_fuzz = False, fast_cal = False, hang_tmout = 1000,
      use_splicing = False, seek_to = 0, queued_paths = 0, queued_variable = 0, queued_discovered = 0,
      queued_favored = 0, queued_with_cov = 0, pending_not_fuzzed = 0, pending_favored = 0, cur_skipped_paths = 0,
      cur_depth = 0, max_depth = 0, var_byte_count = 0, current_entry = 0, subseq_tmouts = 0, total_crashes = 0,
      unique_crashes = 0, total_tmouts = 0, unique_tmouts = 0, unique_hangs = 0, total_execs = 0, queue_cycle = 0,
      cycles_wo_finds = 0, trim_execs = 0, bytes_trim_in = 0, bytes_trim_out = 0, total_cal_us = 0,
      total_cal_cycles = 0, total_bitmap_size = 0, total_bitmap_entries = 0, orig_perf = 0, stage_short = [],
      stage_cur_byte = 0, stage_cur_val = 0, stage_val_type = STAGE_VAL_NONE, splicing_with = -1,
      syncing_party = [], syncing_case = 0, prev_queued = 0, saved_files = []\<rparr>"

definition u64 :: "nat \<Rightarrow> nat" where
  "u64 x = x mod 2 ^ 64"

definition u64_sub :: "nat \<Rightarrow> nat \<Rightarrow> nat" where
  "u64_sub x y = (x + 2 ^ 64 - y mod 2 ^ 64) mod 2 ^ 64"

text \<open>A change of the test case at a position of the queue.\<close>

definition upd_case :: "nat \<Rightarrow> (AFLTestcase \<Rightarrow> AFLTestcase) \<Rightarrow> AFLState \<Rightarrow> AFLState" where
  "upd_case t f s = s\<lparr>case_queue := (case_queue s)[t := f (case_queue s ! t)]\<rparr>"

section \<open>Marker files\<close>

definition file_name :: "string \<Rightarrow> string" where
  "file_name path = rev (takeWhile (\<lambda>c. c \<noteq> CHR ''/'') (rev path))"

fun marker_dir :: "Marker \<Rightarrow> string" where
  "marker_dir DeterministicDone = ''deterministic_done''"
| "marker_dir VariableBehavior = ''variable_behavior''"
| "marker_dir RedundantEdges = ''redundant_edges''"

definition marker_path :: "AFLState \<Rightarrow> Marker \<Rightarrow> AFLTestcase \<Rightarrow> string" where
  "marker_path s m tc = out_dir (setting s) @ ''/queue/.state/'' @ marker_dir m @ ''/'' @ file_name (in_path (input tc))"

text \<open>\<open>OpenFile\<close> throws when the marker cannot be created; a marker that cannot be removed ends the fuzzer.\<close>

definition write_marker :: "World \<Rightarrow> Marker \<Rightarrow> bool \<Rightarrow> nat \<Rightarrow> AFLState \<Rightarrow> unit result" where
  "write_marker W m val t s =
     (let path = marker_path s m (case_queue s ! t)
      in if can_mark W m path val then Inr () else if val then Inl (FileError path) else Inl (Exit 1))"

definition MarkAsDetDone :: "World \<Rightarrow> nat \<Rightarrow> AFLState \<Rightarrow> AFLState result" where
  "MarkAsDetDone W t s =
     bindR (write_marker W DeterministicDone True t s) (\<lambda>_. Inr (upd_case t (\<lambda>c. c\<lparr>passed_det := True\<rparr>) s))"

definition MarkAsVariable :: "World \<Rightarrow> nat \<Rightarrow> AFLState \<Rightarrow> AFLState result" where
  "MarkAsVariable W t s =
     bindR (write_marker W VariableBehavior True t s) (\<lambda>_. Inr (upd_case t (\<lambda>c. c\<lparr>var_behavior := True\<rparr>) s))"

definition MarkAsRedundant :: "World \<Rightarrow> nat \<Rightarrow> bool \<Rightarrow> AFLState \<Rightarrow> AFLState result" where
  "MarkAsRedundant W t val s =
     (if val = fs_redundant (case_queue s ! t) then Inr s
      else bindR (write_marker W RedundantEdges val t s) (\<lambda>_. Inr (upd_case t (\<lambda>c. c\<lparr>fs_redundant := val\<rparr>) s)))"

section \<open>Running a test case\<close>

record ExitStatusFeedback =
  es_reason :: PUTExitReasonType
  es_signal :: nat

definition RunExecutorWithClassifyCounts ::
  "World \<Rightarrow> u8 list \<Rightarrow> nat \<Rightarrow> AFLState \<Rightarrow> (u8 list \<times> ExitStatusFeedback \<times> AFLState) result" where
  "RunExecutorWithClassifyCounts W buf tmout s =
     (let n = total_execs s; r = run W n buf tmout
      in bindR (ClassifyCounts (word_width W) (r_trace r) (map_size W)) (\<lambda>mem.
           Inr (mem, \<lparr>es_reason = r_reason r, es_signal = r_signal r\<rparr>,
                s\<lparr>total_execs := n + 1, stop_soon := stop_soon s \<or> interrupted W n\<rparr>)))"

text \<open>\<open>HasNewBits\<close> on one of the three maps of the state; the map of normal runs also sets \<open>bitmap_changed\<close>.\<close>

datatype VirginMap = VirginBits | VirginTmout | VirginCrash

fun virgin_map :: "VirginMap \<Rightarrow> AFLState \<Rightarrow> u8 list" where
  "virgin_map VirginBits s = virgin_bits s"
| "virgin_map VirginTmout s = virgin_tmout s"
| "virgin_map VirginCrash s = virgin_crash s"

fun set_virgin_map :: "VirginMap \<Rightarrow> u8 list \<Rightarrow> AFLState \<Rightarrow> AFLState" where
  "set_virgin_map VirginBits v s = s\<lparr>virgin_bits := v\<rparr>"
| "set_virgin_map VirginTmout v s = s\<lparr>virgin_tmout := v\<rparr>"
| "set_virgin_map VirginCrash v s = s\<lparr>virgin_crash := v\<rparr>"

definition check_new_bits :: "World \<Rightarrow> VirginMap \<Rightarrow> u8 list \<Rightarrow> AFLState \<Rightarrow> (nat \<times> AFLState) result" where
  "check_new_bits W m trace s =
     bindR (HasNewBits (word_width W) trace (virgin_map m s) (map_size W) (m = VirginBits) (bitmap_changed s)) (\<lambda>(hnb, v, ch).
       Inr (hnb, set_virgin_map m v (s\<lparr>bitmap_changed := ch\<rparr>)))"

section \<open>The best test case for every byte\<close>

definition fav_factor :: "AFLTestcase \<Rightarrow> nat" where
  "fav_factor tc = u64 (exec_us tc * GetLen (input tc))"

text \<open>The previous winner of a byte loses a reference, and its trace with the last one.\<close>

definition release :: "AFLTestcase \<Rightarrow> AFLTestcase" where
  "release tc =
     (let r = u32_sub (tc_ref tc) 1 in tc\<lparr>tc_ref := r, trace_mini := (if r = 0 then None else trace_mini tc)\<rparr>)"

definition claim :: "nat \<Rightarrow> u8 list \<Rightarrow> AFLTestcase \<Rightarrow> AFLTestcase" where
  "claim n trace tc =
     tc\<lparr>tc_ref := u32 (tc_ref tc + 1),
        trace_mini := (case trace_mini tc of None \<Rightarrow> Some (map (\<lambda>j. trace ! j \<noteq> 0) [0..<n]) | Some b \<Rightarrow> Some b)\<rparr>"

definition win_byte :: "World \<Rightarrow> nat \<Rightarrow> u8 list \<Rightarrow> nat \<Rightarrow> AFLState \<Rightarrow> AFLState" where
  "win_byte W t trace i s =
     upd_case t (claim (map_size W) trace) (s\<lparr>top_rated := (top_rated s)[i := Some t], score_changed := True\<rparr>)"

fun score_loop :: "World \<Rightarrow> nat \<Rightarrow> nat \<Rightarrow> u8 list \<Rightarrow> nat list \<Rightarrow> AFLState \<Rightarrow> AFLState result" where
  "score_loop W t fav trace [] s = Inr s"
| "score_loop W t fav trace (i # is) s =
     bindR (idx_vec trace i) (\<lambda>b.
       if b = 0 then score_loop W t fav trace is s
       else bindR (idx_vec (top_rated s) i) (\<lambda>top.
         case top of None \<Rightarrow> score_loop W t fav trace is (win_byte W t trace i s)
         | Some u \<Rightarrow>
             bindR (idx_vec (case_queue s) u) (\<lambda>c.
               if fav_factor c < fav then score_loop W t fav trace is s
               else score_loop W t fav trace is (win_byte W t trace i (upd_case u release s)))))"

definition UpdateBitmapScoreWithRawTrace :: "World \<Rightarrow> nat \<Rightarrow> u8 list \<Rightarrow> AFLState \<Rightarrow> AFLState result" where
  "UpdateBitmapScoreWithRawTrace W t trace s =
     score_loop W t (fav_factor (case_queue s ! t)) trace [0..<map_size W] s"

section \<open>Calibration\<close>

definition CalCycles :: nat where "CalCycles = 8"
definition CalCyclesLong :: nat where "CalCyclesLong = 40"
definition CalTmoutPerc :: nat where "CalTmoutPerc = 125"
definition CalTmoutAdd :: nat where "CalTmoutAdd = 50"

text \<open>The variables of the calibration loop; \<open>c_abort\<close> stands for the jump to \<open>abort_calibration\<close>.\<close>

record Cal =
  c_state :: AFLState
  c_feed :: "u8 list"
  c_exit :: ExitStatusFeedback
  c_cur :: nat
  c_max :: nat
  c_new_bits :: nat
  c_var :: bool
  c_first :: "u8 list option"
  c_abort :: bool

text \<open>The bytes that differ from the first trace become variable, and then the calibration takes longer.\<close>

definition var_positions :: "nat \<Rightarrow> u8 list \<Rightarrow> u8 list \<Rightarrow> u8 list \<Rightarrow> nat list" where
  "var_positions n var first trace = filter (\<lambda>i. var ! i = 0 \<and> first ! i \<noteq> trace ! i) [0..<n]"

definition mark_var_bytes :: "World \<Rightarrow> u8 list \<Rightarrow> u8 list \<Rightarrow> Cal \<Rightarrow> Cal" where
  "mark_var_bytes W first trace c =
     (let s = c_state c; ps = var_positions (map_size W) (var_bytes s) first trace
      in c\<lparr>c_state := s\<lparr>var_bytes := fold (\<lambda>i v. v[i := 1]) ps (var_bytes s)\<rparr>,
           c_max := (if ps = [] then c_max c else CalCyclesLong), c_var := True\<rparr>)"

text \<open>A trace whose checksum is not the recorded one: the first trace, or a sign of variable behaviour.\<close>

definition cal_compare :: "World \<Rightarrow> nat \<Rightarrow> Cal \<Rightarrow> Cal result" where
  "cal_compare W t c =
     bindR (check_new_bits W VirginBits (c_feed c) (c_state c)) (\<lambda>(hnb, s).
       let c = c\<lparr>c_state := s, c_new_bits := max (c_new_bits c) hnb\<rparr> in
       if exec_cksum (case_queue s ! t) \<noteq> 0 then
         (case c_first c of None \<Rightarrow> Inl Undefined | Some first \<Rightarrow> Inr (mark_var_bytes W first (c_feed c) c))
       else
         Inr (c\<lparr>c_state := upd_case t (\<lambda>tc. tc\<lparr>exec_cksum := CalcCksum32 (c_feed c)\<rparr>) s, c_first := Some (c_feed c)\<rparr>))"

definition cal_step :: "World \<Rightarrow> nat \<Rightarrow> u8 list \<Rightarrow> nat \<Rightarrow> Cal \<Rightarrow> Cal result" where
  "cal_step W t buf tmout c =
     bindR (RunExecutorWithClassifyCounts W buf tmout (c_state c)) (\<lambda>(feed, ex, s).
       let c = c\<lparr>c_state := s, c_feed := feed, c_exit := ex\<rparr> in
       if stop_soon s \<or> es_reason ex \<noteq> crash_mode s then Inr (c\<lparr>c_abort := True\<rparr>)
       else if \<not> dumb_mode (setting s) \<and> c_cur c = 0 \<and> CountBytes feed = 0 then
         Inr (c\<lparr>c_exit := ex\<lparr>es_reason := FAULT_NOINST\<rparr>, c_abort := True\<rparr>)
       else
         bindR (if exec_cksum (case_queue s ! t) \<noteq> CalcCksum32 feed then cal_compare W t c else Inr c) (\<lambda>c.
           Inr (c\<lparr>c_cur := c_cur c + 1\<rparr>)))"

lemma cal_compare_progress:
  assumes "cal_compare W t c = Inr c'"
  shows "c_cur c' = c_cur c \<and> c_max c' \<le> max (c_max c) CalCyclesLong"
proof -
  obtain hnb s where "check_new_bits W VirginBits (c_feed c) (c_state c) = Inr (hnb, s)"
    using assms unfolding cal_compare_def bindR_eq_Inr by auto
  then show ?thesis
    using assms by (auto simp: cal_compare_def mark_var_bytes_def Let_def split: if_splits option.splits)
qed

lemma cal_step_progress:
  assumes "cal_step W t buf tmout c = Inr c'" and "\<not> c_abort c'"
  shows "c_cur c' = c_cur c + 1 \<and> c_max c' \<le> max (c_max c) CalCyclesLong"
proof -
  obtain feed ex s where "RunExecutorWithClassifyCounts W buf tmout (c_state c) = Inr (feed, ex, s)"
    using assms unfolding cal_step_def bindR_eq_Inr by auto
  then show ?thesis
    using assms by (auto simp: cal_step_def Let_def bindR_eq_Inr split: if_splits dest!: cal_compare_progress)
qed

function cal_loop :: "World \<Rightarrow> nat \<Rightarrow> u8 list \<Rightarrow> nat \<Rightarrow> Cal \<Rightarrow> Cal result" where
  "cal_loop W t buf tmout c =
     (if c_cur c < c_max c then
        bindR (cal_step W t buf tmout c) (\<lambda>c'. if c_abort c' then Inr c' else cal_loop W t buf tmout c')
      else Inr c)"
  by pat_completeness auto
termination
  by (relation "measure (\<lambda>(W, t, buf, tmout, c). max (c_max c) CalCyclesLong - c_cur c)")
    (use cal_step_progress in fastforce)+

declare cal_loop.simps [simp del]

definition cal_timeout :: "bool \<Rightarrow> AFLState \<Rightarrow> nat" where
  "cal_timeout from_queue s =
     (let lim = exec_timelimit_ms (setting s)
      in if \<not> from_queue \<or> resuming_fuzz s then max (u32 (lim + CalTmoutAdd)) (u32 (lim * CalTmoutPerc) div 100) else lim)"

text \<open>Before the loop: a test case with a checksum brings the trace of its discovery.\<close>

definition cal_start :: "World \<Rightarrow> nat \<Rightarrow> u8 list \<Rightarrow> ExitStatusFeedback \<Rightarrow> AFLState \<Rightarrow> Cal result" where
  "cal_start W t feed ex s =
     (let s = upd_case t (\<lambda>tc. tc\<lparr>cal_failed := (cal_failed tc + 1) mod 256\<rparr>) s;
          c = \<lparr>c_state = s, c_feed = feed, c_exit = ex, c_cur = 0, c_max = (if fast_cal s then 3 else CalCycles),
               c_new_bits = 0, c_var = False, c_first = None, c_abort = False\<rparr>
      in if exec_cksum (case_queue s ! t) \<noteq> 0 then
           bindR (check_new_bits W VirginBits feed s) (\<lambda>(hnb, s).
             Inr (c\<lparr>c_state := s, c_new_bits := hnb, c_first := Some feed\<rparr>))
         else Inr c)"

text \<open>After a complete loop: the averages, the competition for the bytes, and whether anything was new.\<close>

definition cal_complete :: "World \<Rightarrow> nat \<Rightarrow> nat \<Rightarrow> bool \<Rightarrow> nat \<Rightarrow> Cal \<Rightarrow> Cal result" where
  "cal_complete W t hc first_run start_us c =
     (let s = c_state c; us = u64_sub (clock_us W (total_execs s)) start_us; size = CountBytes (c_feed c);
          s = upd_case t (\<lambda>tc. tc\<lparr>exec_us := us div c_max c, bitmap_size := size, handicap := hc, cal_failed := 0\<rparr>) s;
          s = s\<lparr>total_cal_us := total_cal_us s + us, total_cal_cycles := total_cal_cycles s + c_max c,
                total_bitmap_size := total_bitmap_size s + size, total_bitmap_entries := total_bitmap_entries s + 1\<rparr>
      in bindR (UpdateBitmapScoreWithRawTrace W t (c_feed c) s) (\<lambda>s.
           Inr (c\<lparr>c_state := s,
                  c_exit := (if \<not> dumb_mode (setting s) \<and> first_run \<and> es_reason (c_exit c) = FAULT_NONE \<and> c_new_bits c = 0
                             then (c_exit c)\<lparr>es_reason := FAULT_NOBITS\<rparr> else c_exit c)\<rparr>)))"

text \<open>At the label \<open>abort_calibration\<close>, which a complete calibration reaches as well.\<close>

definition cal_finish :: "World \<Rightarrow> nat \<Rightarrow> Cal \<Rightarrow> AFLState result" where
  "cal_finish W t c =
     (let s = c_state c;
          s = (if c_new_bits c = 2 \<and> \<not> has_new_cov (case_queue s ! t)
               then upd_case t (\<lambda>tc. tc\<lparr>has_new_cov := True\<rparr>) (s\<lparr>queued_with_cov := u32 (queued_with_cov s + 1)\<rparr>) else s)
      in if c_var c then
           let s = s\<lparr>var_byte_count := CountBytes (var_bytes s)\<rparr> in
           if \<not> var_behavior (case_queue s ! t) then
             bindR (MarkAsVariable W t s) (\<lambda>s. Inr (s\<lparr>queued_variable := u32 (queued_variable s + 1)\<rparr>))
           else Inr s
         else Inr s)"

definition CalibrateCaseWithFeedDestroyed ::
  "World \<Rightarrow> nat \<Rightarrow> u8 list \<Rightarrow> u8 list \<Rightarrow> ExitStatusFeedback \<Rightarrow> nat \<Rightarrow> bool \<Rightarrow> AFLState \<Rightarrow>
   (u8 list \<times> ExitStatusFeedback \<times> AFLState) result" where
  "CalibrateCaseWithFeedDestroyed W t buf feed ex hc from_queue s =
     bindR (cal_start W t feed ex s) (\<lambda>c.
       let start_us = clock_us W (total_execs (c_state c)) in
       bindR (cal_loop W t buf (cal_timeout from_queue s) c) (\<lambda>c.
       bindR (if c_abort c then Inr c else cal_complete W t hc (exec_cksum (case_queue s ! t) = 0) start_us c) (\<lambda>c.
       bindR (cal_finish W t c) (\<lambda>s. Inr (c_feed c, c_exit c, s)))))"

section \<open>New test cases\<close>

text \<open>
  \<open>AddToQueue\<close> with the present content of the file; a buffer is written to it, \<open>nullptr\<close> leaves it as it is.
\<close>

definition AddToQueue :: "World \<Rightarrow> string \<Rightarrow> u8 list \<Rightarrow> u8 list option \<Rightarrow> bool \<Rightarrow> AFLState \<Rightarrow> (nat \<times> AFLState) result" where
  "AddToQueue W fn disk buf pd s =
     (let inp = CreateOnDisk fn disk
      in bindR (case buf of None \<Rightarrow> Inr inp | Some b \<Rightarrow> OverwriteThenUnload (can_open W) b inp) (\<lambda>inp.
           let tc = (AFLTestcase_new inp)\<lparr>depth := u32 (cur_depth s + 1), passed_det := pd\<rparr>
           in Inr (length (case_queue s),
                   s\<lparr>max_depth := (if max_depth s < depth tc then u32 (depth tc) else max_depth s),
                     case_queue := case_queue s @ [tc],
                     queued_paths := u32 (queued_paths s + 1),
                     pending_not_fuzzed := u32 (pending_not_fuzzed s + 1),
                     cycles_wo_finds := 0\<rparr>)))"

text \<open>The conversions \<open>%0nu\<close> and \<open>%+d\<close>.\<close>

definition zero_padded :: "nat \<Rightarrow> nat \<Rightarrow> string" where
  "zero_padded w n = replicate (w - length (decimal n)) (CHR ''0'') @ decimal n"

definition signed_decimal :: "int \<Rightarrow> string" where
  "signed_decimal v = (if v < 0 then CHR ''-'' # decimal (nat (- v)) else CHR ''+'' # decimal (nat v))"

definition DescribeOp :: "AFLState \<Rightarrow> nat \<Rightarrow> string" where
  "DescribeOp s hnb =
     (if syncing_party s \<noteq> [] then ''sync:'' @ syncing_party s @ '',src:'' @ zero_padded 6 (syncing_case s)
      else
        ''src:'' @ zero_padded 6 (current_entry s) @
        (if 0 \<le> splicing_with s then ''+'' @ zero_padded 6 (nat (splicing_with s)) else []) @
        '',op:'' @ stage_short s @
        (if 0 \<le> stage_cur_byte s then
           '',pos:'' @ decimal (nat (stage_cur_byte s)) @
           (if stage_val_type s \<noteq> STAGE_VAL_NONE then
              '',val:'' @ (if stage_val_type s = STAGE_VAL_BE then ''be:'' else []) @ signed_decimal (stage_cur_val s)
            else [])
         else '',rep:'' @ decimal (nat (stage_cur_val s mod 2 ^ 32)))) @
     (if hnb = 2 then '',+cov'' else [])"

section \<open>Keeping a test case\<close>

definition KeepUniqueHang :: nat where "KeepUniqueHang = 500"
definition KeepUniqueCrash :: nat where "KeepUniqueCrash = 5000"

text \<open>The file is opened with \<open>O_EXCL\<close>: a path that exists already is an error.\<close>

definition save_unique :: "World \<Rightarrow> string \<Rightarrow> u8 list \<Rightarrow> AFLState \<Rightarrow> AFLState result" where
  "save_unique W fn buf s =
     (if can_open W fn \<and> fn \<notin> fst ` set (saved_files s) then Inr (s\<lparr>saved_files := saved_files s @ [(fn, buf)]\<rparr>)
      else Inl (FileError fn))"

text \<open>Whether the simplified trace has anything new for a map; in dumb mode everything is new.\<close>

definition unique_trace :: "World \<Rightarrow> VirginMap \<Rightarrow> u8 list \<Rightarrow> AFLState \<Rightarrow> (bool \<times> u8 list \<times> AFLState) result" where
  "unique_trace W m feed s =
     (if dumb_mode (setting s) then Inr (True, feed, s)
      else
        bindR (SimplifyTrace (word_width W) feed (map_size W)) (\<lambda>feed.
        bindR (check_new_bits W m feed s) (\<lambda>(res, s). Inr (res \<noteq> 0, feed, s))))"

type_synonym saved = "bool \<times> u8 list \<times> ExitStatusFeedback \<times> AFLState"

definition queue_name :: "AFLState \<Rightarrow> nat \<Rightarrow> string" where
  "queue_name s hnb = out_dir (setting s) @
     (if \<not> simple_files (setting s) then ''/queue/id:'' @ zero_padded 6 (queued_paths s) @ '','' @ DescribeOp s hnb
      else ''/queue/id_'' @ zero_padded 6 (queued_paths s))"

definition hang_name :: "AFLState \<Rightarrow> string" where
  "hang_name s = out_dir (setting s) @
     (if \<not> simple_files (setting s) then ''/hangs/id:'' @ zero_padded 6 (unique_hangs s) @ '','' @ DescribeOp s 0
      else ''/hangs/id_'' @ zero_padded 6 (unique_hangs s))"

definition crash_name :: "AFLState \<Rightarrow> nat \<Rightarrow> string" where
  "crash_name s sig = out_dir (setting s) @
     (if \<not> simple_files (setting s)
      then ''/crashes/id:'' @ zero_padded 6 (unique_crashes s) @ '',sig:'' @ zero_padded 2 sig @ '','' @ DescribeOp s 0
      else ''/hangs/id_'' @ zero_padded 6 (unique_crashes s) @ ''_'' @ zero_padded 2 sig)"

text \<open>At the label \<open>keep_as_crash\<close>.\<close>

definition keep_crash :: "World \<Rightarrow> u8 list \<Rightarrow> bool \<Rightarrow> u8 list \<Rightarrow> ExitStatusFeedback \<Rightarrow> AFLState \<Rightarrow> saved result" where
  "keep_crash W buf keeping feed ex s =
     (let s = s\<lparr>total_crashes := total_crashes s + 1\<rparr>
      in if KeepUniqueCrash \<le> unique_crashes s then Inr (keeping, feed, ex, s)
         else bindR (unique_trace W VirginCrash feed s) (\<lambda>(fresh, feed, s).
           if \<not> fresh then Inr (keeping, feed, ex, s)
           else
             bindR (save_unique W (crash_name s (es_signal ex)) buf (s\<lparr>unique_crashes := unique_crashes s + 1\<rparr>)) (\<lambda>s.
               Inr (keeping, feed, ex, s))))"

definition save_hang :: "World \<Rightarrow> u8 list \<Rightarrow> bool \<Rightarrow> u8 list \<Rightarrow> ExitStatusFeedback \<Rightarrow> AFLState \<Rightarrow> saved result" where
  "save_hang W buf keeping feed ex s =
     bindR (save_unique W (hang_name s) buf (s\<lparr>unique_hangs := unique_hangs s + 1\<rparr>)) (\<lambda>s. Inr (keeping, feed, ex, s))"

definition keep_hang :: "World \<Rightarrow> u8 list \<Rightarrow> bool \<Rightarrow> u8 list \<Rightarrow> ExitStatusFeedback \<Rightarrow> AFLState \<Rightarrow> saved result" where
  "keep_hang W buf keeping feed ex s =
     (let s = s\<lparr>total_tmouts := total_tmouts s + 1\<rparr>
      in if KeepUniqueHang \<le> unique_hangs s then Inr (False, feed, ex, s)
         else bindR (unique_trace W VirginTmout feed s) (\<lambda>(fresh, feed, s).
           if \<not> fresh then Inr (False, feed, ex, s)
           else
             let s = s\<lparr>unique_tmouts := unique_tmouts s + 1\<rparr> in
             if exec_timelimit_ms (setting s) < hang_tmout s then
               bindR (RunExecutorWithClassifyCounts W buf (hang_tmout s) s) (\<lambda>(feed, ex, s).
                 if \<not> stop_soon s \<and> es_reason ex = FAULT_CRASH then keep_crash W buf keeping feed ex s
                 else if stop_soon s \<or> es_reason ex \<noteq> FAULT_TMOUT then Inr (False, feed, ex, s)
                 else save_hang W buf keeping feed ex s)
             else save_hang W buf keeping feed ex s))"

text \<open>The first part of \<open>SaveIfInteresting\<close>: \<open>None\<close> if the trace of a normal run brings nothing new.\<close>

definition keep_in_queue ::
  "World \<Rightarrow> u8 list \<Rightarrow> u8 list \<Rightarrow> ExitStatusFeedback \<Rightarrow> AFLState \<Rightarrow> (saved option \<times> AFLState) result" where
  "keep_in_queue W buf feed ex s =
     bindR (check_new_bits W VirginBits feed s) (\<lambda>(hnb, s).
       if hnb = 0 then
         Inr (None, if crash_mode s = FAULT_CRASH then s\<lparr>total_crashes := total_crashes s + 1\<rparr> else s)
       else
         bindR (AddToQueue W (queue_name s hnb) [] (Some buf) False s) (\<lambda>(t, s).
           let s = (if hnb = 2 then upd_case t (\<lambda>tc. tc\<lparr>has_new_cov := True\<rparr>) (s\<lparr>queued_with_cov := u32 (queued_with_cov s + 1)\<rparr>)
                    else s);
               s = upd_case t (\<lambda>tc. tc\<lparr>exec_cksum := CalcCksum32 feed\<rparr>) s
           in bindR (CalibrateCaseWithFeedDestroyed W t buf feed ex (u32_sub (u32 (queue_cycle s)) 1) False s) (\<lambda>(feed, ex, s).
                if es_reason ex = FAULT_ERROR then Inl (Exit 1) else Inr (Some (True, feed, ex, s), s))))"

definition save_by_reason :: "World \<Rightarrow> u8 list \<Rightarrow> saved \<Rightarrow> saved result" where
  "save_by_reason W buf = (\<lambda>(keeping, feed, ex, s).
     case es_reason ex of
       FAULT_TMOUT \<Rightarrow> keep_hang W buf keeping feed ex s
     | FAULT_CRASH \<Rightarrow> keep_crash W buf keeping feed ex s
     | FAULT_ERROR \<Rightarrow> Inl (Exit 1)
     | _ \<Rightarrow> Inr (keeping, feed, ex, s))"

definition SaveIfInteresting :: "World \<Rightarrow> u8 list \<Rightarrow> u8 list \<Rightarrow> ExitStatusFeedback \<Rightarrow> AFLState \<Rightarrow> saved result" where
  "SaveIfInteresting W buf feed ex s =
     (if es_reason ex = crash_mode s then
        bindR (keep_in_queue W buf feed ex s) (\<lambda>(kept, s).
          case kept of None \<Rightarrow> Inr (False, feed, ex, s) | Some sv \<Rightarrow> save_by_reason W buf sv)
      else save_by_reason W buf (False, feed, ex, s))"

section \<open>The performance score\<close>

text \<open>
  Products with floating-point constants: a natural number is rounded to a double (53 significant bits,
  ties to even), and so is its product with a constant \<open>num / 2 ^ sh\<close>.
\<close>

fun bit_len :: "nat \<Rightarrow> nat" where
  "bit_len n = (if n = 0 then 0 else 1 + bit_len (n div 2))"

declare bit_len.simps [simp del]

definition to_double :: "nat \<Rightarrow> nat" where
  "to_double n =
     (let k = bit_len n - 53; q = n div 2 ^ k; r = n mod 2 ^ k
      in if k = 0 then n else (if 2 ^ (k - 1) < r \<or> (r = 2 ^ (k - 1) \<and> odd q) then q + 1 else q) * 2 ^ k)"

definition scaled_above :: "nat \<Rightarrow> nat \<times> nat \<Rightarrow> nat \<Rightarrow> bool" where
  "scaled_above x c a = (case c of (num, sh) \<Rightarrow> a * 2 ^ sh < to_double (to_double x * num))"

definition scaled_below :: "nat \<Rightarrow> nat \<times> nat \<Rightarrow> nat \<Rightarrow> bool" where
  "scaled_below x c a = (case c of (num, sh) \<Rightarrow> to_double (to_double x * num) < a * 2 ^ sh)"

text \<open>The doubles 0.1 and 0.3; the others are exact.\<close>

definition d_0_1 :: "nat \<times> nat" where "d_0_1 = (3602879701896397, 55)"
definition d_0_3 :: "nat \<times> nat" where "d_0_3 = (5404319552844595, 54)"

definition HavocMaxMult :: nat where "HavocMaxMult = 16"

definition speed_score :: "nat \<Rightarrow> nat \<Rightarrow> nat" where
  "speed_score us avg =
     (if scaled_above us d_0_1 avg then 10
      else if scaled_above us (1, 2) avg then 25
      else if scaled_above us (1, 1) avg then 50
      else if scaled_above us (3, 2) avg then 75
      else if u64 (us * 4) < avg then 300
      else if u64 (us * 3) < avg then 200
      else if u64 (us * 2) < avg then 150
      else 100)"

definition bitmap_score :: "nat \<Rightarrow> nat \<Rightarrow> nat \<Rightarrow> nat" where
  "bitmap_score sz avg score =
     (if scaled_above sz d_0_3 avg then u32 (score * 3)
      else if scaled_above sz (1, 1) avg then u32 (score * 2)
      else if scaled_above sz (3, 2) avg then score * 3 div 2
      else if u32 (sz * 3) < avg then score div 4
      else if u32 (sz * 2) < avg then score div 2
      else if scaled_below sz (3, 1) avg then score * 3 div 4
      else score)"

definition depth_mult :: "nat \<Rightarrow> nat" where
  "depth_mult d = (if d \<le> 3 then 1 else if d \<le> 7 then 2 else if d \<le> 13 then 3 else if d \<le> 25 then 4 else 5)"

definition DoCalcScore :: "nat \<Rightarrow> AFLState \<Rightarrow> (nat \<times> AFLState) result" where
  "DoCalcScore t s =
     (if total_cal_cycles s = 0 \<or> total_bitmap_entries s = 0 then Inl Undefined
      else bindR (idx_vec (case_queue s) t) (\<lambda>tc.
        let score = speed_score (exec_us tc) (u32 (total_cal_us s div total_cal_cycles s));
            score = bitmap_score (bitmap_size tc) (u32 (total_bitmap_size s div total_bitmap_entries s)) score;
            (score, h) = (if 4 \<le> handicap tc then (u32 (score * 4), handicap tc - 4)
                          else if handicap tc \<noteq> 0 then (u32 (score * 2), handicap tc - 1) else (score, handicap tc));
            score = u32 (score * depth_mult (depth tc))
        in Inr (min score (HavocMaxMult * 100), upd_case t (\<lambda>tc. tc\<lparr>handicap := h\<rparr>) s)))"

end
