(* ===== verification/AFL_Routines.thy ===== *)
theory AFL_Routines
  imports AFL_State
begin

text \<open>
  The routines of AFL around the mutations (\<open>templates/afl_other_hierarflow_routines.hpp\<close> and
  \<open>templates/afl_update_hierarflow_routines.hpp\<close>): the choice of the favoured test cases and of the next seed, the
  retry of a calibration, trimming, and what follows every execution. A routine that ends the work on a test
  case says so in its result.
\<close>

section \<open>Favoured test cases\<close>

fun cull_loop :: "nat list \<Rightarrow> bool list \<Rightarrow> AFLState \<Rightarrow> AFLState result" where
  "cull_loop [] has s = Inr s"
| "cull_loop (i # is) has s =
     bindR (idx_vec (top_rated s) i) (\<lambda>top.
       case top of None \<Rightarrow> cull_loop is has s
       | Some t \<Rightarrow>
           if has ! i then cull_loop is has s
           else
             bindR (idx_vec (case_queue s) t) (\<lambda>tc.
               case trace_mini tc of None \<Rightarrow> Inl Undefined
               | Some bits \<Rightarrow>
                   let s = upd_case t (\<lambda>tc. tc\<lparr>favored := True\<rparr>) s;
                       s = s\<lparr>queued_favored := u32 (queued_favored s + 1),
                             pending_favored := (if WasFuzzed tc then pending_favored s else u32 (pending_favored s + 1))\<rparr>
                   in cull_loop is (map2 (\<or>) has bits) s))"

fun redundant_loop :: "World \<Rightarrow> nat list \<Rightarrow> AFLState \<Rightarrow> AFLState result" where
  "redundant_loop W [] s = Inr s"
| "redundant_loop W (t # ts) s =
     bindR (MarkAsRedundant W t (\<not> favored (case_queue s ! t)) s) (\<lambda>s. redundant_loop W ts s)"

definition CullQueue :: "World \<Rightarrow> AFLState \<Rightarrow> AFLState result" where
  "CullQueue W s =
     (if dumb_mode (setting s) \<or> \<not> score_changed s then Inr s
      else
        let s = s\<lparr>score_changed := False, queued_favored := 0, pending_favored := 0,
                  case_queue := map (\<lambda>tc. tc\<lparr>favored := False\<rparr>) (case_queue s)\<rparr>
        in bindR (cull_loop [0..<map_size W] (replicate (map_size W) False) s) (\<lambda>s.
             redundant_loop W [0..<length (case_queue s)] s))"

section \<open>The next seed\<close>

text \<open>
  The part of \<open>SelectSeed\<close> before its successors run; the increment of \<open>current_entry\<close> after them is \<open>next_entry\<close>.
\<close>

definition SelectSeed :: "AFLState \<Rightarrow> (nat \<times> AFLState) result" where
  "SelectSeed s =
     (let s' = (if queue_cycle s = 0 \<or> length (case_queue s) \<le> current_entry s then
                  let s = s\<lparr>queue_cycle := queue_cycle s + 1, current_entry := seek_to s, seek_to := 0, cur_skipped_paths := 0\<rparr>;
                      s = (if queued_paths s = prev_queued s then
                             (if use_splicing s then s\<lparr>cycles_wo_finds := cycles_wo_finds s + 1\<rparr> else s\<lparr>use_splicing := True\<rparr>)
                           else s\<lparr>cycles_wo_finds := 0\<rparr>)
                  in s\<lparr>prev_queued := queued_paths s\<rparr>
                else s)
      in if current_entry s' < length (case_queue s') then Inr (current_entry s', s') else Inl AssertFail)"

definition next_entry :: "AFLState \<Rightarrow> AFLState" where
  "next_entry s = s\<lparr>current_entry := u32 (current_entry s + 1)\<rparr>"

definition SkipToNewProb :: nat where "SkipToNewProb = 99"
definition SkipNfavOldProb :: nat where "SkipNfavOldProb = 95"
definition SkipNfavNewProb :: nat where "SkipNfavNewProb = 75"

text \<open>Whether the test case is skipped.\<close>

definition skip_mut :: "nat \<Rightarrow> AFLState \<Rightarrow> rng \<Rightarrow> (bool \<times> rng) result" where
  "skip_mut t s rs =
     bindR (idx_vec (case_queue s) t) (\<lambda>tc.
       let draw = (\<lambda>prob. bindR (UR 100 rs) (\<lambda>(x, rs). Inr (x < prob, rs))) in
       if ignore_finds (setting s) then Inr (1 < depth tc, rs)
       else if pending_favored s \<noteq> 0 then
         (if WasFuzzed tc \<or> \<not> favored tc then draw SkipToNewProb else Inr (False, rs))
       else if \<not> dumb_mode (setting s) \<and> \<not> favored tc \<and> 10 < queued_paths s then
         (if 1 < queue_cycle s \<and> \<not> WasFuzzed tc then draw SkipNfavNewProb else draw SkipNfavOldProb)
       else Inr (False, rs))"

definition load_case :: "World \<Rightarrow> nat \<Rightarrow> AFLState \<Rightarrow> AFLState result" where
  "load_case W t s =
     bindR (idx_vec (case_queue s) t) (\<lambda>tc.
     bindR (Load (can_open W) (input tc)) (\<lambda>inp. Inr (upd_case t (\<lambda>tc. tc\<lparr>input := inp\<rparr>) s)))"

definition ConsiderSkipMut :: "World \<Rightarrow> nat \<Rightarrow> AFLState \<Rightarrow> rng \<Rightarrow> ((bool \<times> AFLState) \<times> rng) result" where
  "ConsiderSkipMut W t s rs =
     bindR (skip_mut t s rs) (\<lambda>(skip, rs).
       if skip then Inr ((True, s), rs) else bindR (load_case W t s) (\<lambda>s. Inr ((False, s), rs)))"

section \<open>Calibration again, and trimming\<close>

definition CalChances :: nat where "CalChances = 3"

text \<open>The new feedback object is empty; the checksum is reset, so that it is not read.\<close>

definition RetryCalibrate :: "World \<Rightarrow> nat \<Rightarrow> AFLState \<Rightarrow> (bool \<times> AFLState) result" where
  "RetryCalibrate W t s =
     bindR (idx_vec (case_queue s) t) (\<lambda>tc.
       let s = s\<lparr>subseq_tmouts := 0, cur_depth := u32 (depth tc)\<rparr> in
       if cal_failed tc = 0 then Inr (False, s)
       else
         bindR (if cal_failed tc < CalChances then
                  bindR (GetInput (input tc)) (\<lambda>buf.
                  bindR (CalibrateCaseWithFeedDestroyed W t buf [] \<lparr>es_reason = FAULT_NONE, es_signal = 0\<rparr>
                           (u32_sub (u32 (queue_cycle s)) 1) False (upd_case t (\<lambda>tc. tc\<lparr>exec_cksum := 0\<rparr>) s)) (\<lambda>(feed, ex, s).
                    if es_reason ex = FAULT_ERROR then Inl (Exit 1) else Inr (es_reason ex, s)))
                else Inr (FAULT_TMOUT, s)) (\<lambda>(res, s).
           if stop_soon s \<or> res \<noteq> crash_mode s then Inr (True, s\<lparr>cur_skipped_paths := u32 (cur_skipped_paths s + 1)\<rparr>)
           else Inr (False, s)))"

definition TrimMinBytes :: nat where "TrimMinBytes = 4"
definition TrimStartSteps :: nat where "TrimStartSteps = 16"
definition TrimEndSteps :: nat where "TrimEndSteps = 1024"

text \<open>\<open>Util::NextP2\<close>; the argument is a \<open>u32\<close>, so that the 64-bit shift never overflows.\<close>

function next_p2_loop :: "nat \<Rightarrow> nat \<Rightarrow> nat" where
  "next_p2_loop val ret = (if 0 < ret \<and> ret < val then next_p2_loop val (2 * ret) else ret)"
  by pat_completeness auto
termination
  by (relation "measure (\<lambda>(val, ret). val - ret)") auto

declare next_p2_loop.simps [simp del]

definition NextP2 :: "nat \<Rightarrow> nat" where
  "NextP2 val = next_p2_loop val 1"

definition trim_end :: "nat \<Rightarrow> nat" where
  "trim_end l = max (u32 (NextP2 l) div TrimEndSteps) TrimMinBytes"

text \<open>The variables of \<open>DoTrimCase\<close>; \<open>t_clean\<close> is \<open>pers_feed\<close>, present when \<open>needs_write\<close> is set.\<close>

record Trim =
  t_state :: AFLState
  t_end :: nat
  t_clean :: "u8 list option"
  t_fault :: PUTExitReasonType
  t_abort :: bool

text \<open>
  One attempt: the test case without \<open>remove_len\<close> bytes at \<open>pos\<close> is run, and replaces the test case if its
  trace has the recorded checksum.
\<close>

definition trim_try :: "World \<Rightarrow> nat \<Rightarrow> nat \<Rightarrow> nat \<Rightarrow> Trim \<Rightarrow> (bool \<times> Trim) result" where
  "trim_try W t remove_len pos tr =
     bindR (idx_vec (case_queue (t_state tr)) t) (\<lambda>tc.
     bindR (GetInput (input tc)) (\<lambda>buf.
       let avail = min remove_len (GetLen (input tc) - pos); test = take pos buf @ drop (pos + avail) buf in
       bindR (RunExecutorWithClassifyCounts W test 0 (t_state tr)) (\<lambda>(feed, ex, s).
         let s = s\<lparr>trim_execs := trim_execs s + 1\<rparr>; tr = tr\<lparr>t_state := s, t_fault := es_reason ex\<rparr> in
         if stop_soon s \<or> es_reason ex = FAULT_ERROR then Inr (False, tr\<lparr>t_abort := True\<rparr>)
         else if CalcCksum32 feed = exec_cksum tc then
           bindR (OverwriteKeepingLoaded (can_open W) test (input tc)) (\<lambda>inp.
             Inr (True, tr\<lparr>t_state := upd_case t (\<lambda>tc. tc\<lparr>input := inp\<rparr>) s, t_end := trim_end (GetLen inp),
                           t_clean := (case t_clean tr of None \<Rightarrow> Some feed | Some m \<Rightarrow> Some m)\<rparr>))
         else Inr (False, tr))))"

definition case_len :: "nat \<Rightarrow> AFLState \<Rightarrow> nat" where
  "case_len t s = GetLen (input (case_queue s ! t))"

lemma trim_try_shorter:
  assumes "trim_try W t remove_len pos tr = Inr (True, tr')" and "pos < case_len t (t_state tr)" and "0 < remove_len"
  shows "case_len t (t_state tr') < case_len t (t_state tr)"
proof -
  let ?tc = "case_queue (t_state tr) ! t"
  let ?avail = "min remove_len (GetLen (input ?tc) - pos)"
  obtain buf where t: "t < length (case_queue (t_state tr))" and buf: "GetInput (input ?tc) = Inr buf"
    using assms(1) unfolding trim_try_def bindR_eq_Inr idx_vec_def by (auto split: if_splits)
  let ?test = "take pos buf @ drop (pos + ?avail) buf"
  obtain feed ex s where r: "RunExecutorWithClassifyCounts W ?test 0 (t_state tr) = Inr (feed, ex, s)"
    using assms(1) t buf by (auto simp: trim_try_def Let_def bindR_eq_Inr)
  then have q: "case_queue s = case_queue (t_state tr)"
    by (auto simp: RunExecutorWithClassifyCounts_def Let_def bindR_eq_Inr)
  obtain inp where inp: "OverwriteKeepingLoaded (can_open W) ?test (input ?tc) = Inr inp"
    and tr': "t_state tr' = upd_case t (\<lambda>tc. tc\<lparr>input := inp\<rparr>) (s\<lparr>trim_execs := trim_execs s + 1\<rparr>)"
    using assms(1) t buf r by (auto simp: trim_try_def Let_def bindR_eq_Inr split: if_splits)
  have len: "length buf = GetLen (input ?tc)"
    using buf by (auto simp: GetInput_def GetLen_def split: option.splits if_splits)
  have "GetLen inp = u32 (length ?test)"
    using inp by (auto simp: OverwriteKeepingLoaded_def Save_def open_input_def GetLen_def bindR_eq_Inr split: if_splits)
  also have "\<dots> \<le> length ?test"
    by (simp add: u32_def)
  also have "\<dots> < GetLen (input ?tc)"
    using assms(2,3) len by (auto simp: case_len_def)
  finally show ?thesis
    using t by (simp add: tr' case_len_def upd_case_def q)
qed

lemma trim_try_same:
  assumes "trim_try W t remove_len pos tr = Inr (False, tr')"
  shows "case_len t (t_state tr') = case_len t (t_state tr)"
  using assms
  by (auto simp: trim_try_def Let_def bindR_eq_Inr case_len_def RunExecutorWithClassifyCounts_def split: if_splits)

text \<open>
  The two loops. \<open>remove_len\<close> is never zero, since it is at least \<open>TrimMinBytes\<close> whenever a loop is entered; the
  model marks the case in which the source would not end.
\<close>

function trim_inner :: "World \<Rightarrow> nat \<Rightarrow> nat \<Rightarrow> nat \<Rightarrow> Trim \<Rightarrow> Trim result" where
  "trim_inner W t remove_len pos tr =
     (if pos < case_len t (t_state tr) then
        if remove_len = 0 then Inl OutOfFuel
        else bindR (trim_try W t remove_len pos tr) (\<lambda>r.
          if t_abort (snd r) then Inr (snd r)
          else trim_inner W t remove_len (if fst r then pos else pos + remove_len) (snd r))
      else Inr tr)"
  by pat_completeness auto
termination
proof (relation "measure (\<lambda>(W, t, remove_len, pos, tr). case_len t (t_state tr) - pos)", goal_cases)
  case (2 W t remove_len pos tr r)
  obtain removed tr' where r: "r = (removed, tr')" by (cases r)
  show ?case
  proof (cases removed)
    case True
    then show ?thesis
      using 2 trim_try_shorter [of W t remove_len pos tr tr'] by (simp add: r)
  next
    case False
    then show ?thesis
      using 2 trim_try_same [of W t remove_len pos tr tr'] by (simp add: r)
  qed
qed simp

declare trim_inner.simps [simp del]

function trim_outer :: "World \<Rightarrow> nat \<Rightarrow> nat \<Rightarrow> Trim \<Rightarrow> Trim result" where
  "trim_outer W t remove_len tr =
     (if t_end tr \<le> remove_len then
        if remove_len = 0 then Inl OutOfFuel
        else bindR (trim_inner W t remove_len remove_len tr) (\<lambda>tr.
          if t_abort tr then Inr tr else trim_outer W t (remove_len div 2) tr)
      else Inr tr)"
  by pat_completeness auto
termination
  by (relation "measure (\<lambda>(W, t, remove_len, tr). remove_len)") auto

declare trim_outer.simps [simp del]

definition DoTrimCase :: "World \<Rightarrow> nat \<Rightarrow> AFLState \<Rightarrow> (PUTExitReasonType \<times> AFLState) result" where
  "DoTrimCase W t s =
     bindR (idx_vec (case_queue s) t) (\<lambda>tc.
       let l = GetLen (input tc) in
       if l < 5 then Inr (FAULT_NONE, s)
       else
         bindR (trim_outer W t (max (u32 (NextP2 l) div TrimStartSteps) TrimMinBytes)
                  \<lparr>t_state = s\<lparr>bytes_trim_in := bytes_trim_in s + l\<rparr>, t_end = trim_end l, t_clean = None,
                   t_fault = FAULT_NONE, t_abort = False\<rparr>) (\<lambda>tr.
         bindR (case t_clean tr of
                  Some mem \<Rightarrow> if t_abort tr then Inr (t_state tr) else UpdateBitmapScoreWithRawTrace W t mem (t_state tr)
                | None \<Rightarrow> Inr (t_state tr)) (\<lambda>s.
           Inr (t_fault tr, s\<lparr>bytes_trim_out := bytes_trim_out s + case_len t s\<rparr>))))"

definition TrimCase :: "World \<Rightarrow> nat \<Rightarrow> AFLState \<Rightarrow> (bool \<times> AFLState) result" where
  "TrimCase W t s =
     bindR (idx_vec (case_queue s) t) (\<lambda>tc.
       if dumb_mode (setting s) \<or> trim_done tc then Inr (False, s)
       else bindR (DoTrimCase W t s) (\<lambda>(res, s).
         if res = FAULT_ERROR then Inl (Exit 1)
         else if stop_soon s then Inr (True, s\<lparr>cur_skipped_paths := u32 (cur_skipped_paths s + 1)\<rparr>)
         else Inr (False, upd_case t (\<lambda>tc. tc\<lparr>trim_done := True\<rparr>) s)))"

definition CalcScore :: "nat \<Rightarrow> AFLState \<Rightarrow> AFLState result" where
  "CalcScore t s = bindR (DoCalcScore t s) (\<lambda>(score, s). Inr (s\<lparr>orig_perf := score\<rparr>))"

section \<open>After the mutations and after every execution\<close>

definition AbandonEntry :: "nat \<Rightarrow> AFLState \<Rightarrow> AFLState result" where
  "AbandonEntry t s =
     bindR (idx_vec (case_queue s) t) (\<lambda>tc.
       let s = s\<lparr>splicing_with := -1\<rparr>;
           s = (if \<not> stop_soon s \<and> cal_failed tc = 0 \<and> \<not> WasFuzzed tc then
                  let s = upd_case t MarkFuzzed s in
                  s\<lparr>pending_not_fuzzed := u32_sub (pending_not_fuzzed s) 1,
                    pending_favored := (if favored tc then u32_sub (pending_favored s) 1 else pending_favored s)\<rparr>
                else s)
       in Inr (upd_case t (\<lambda>tc. tc\<lparr>input := Unload (input tc)\<rparr>) s))"

definition TmoutLimit :: nat where "TmoutLimit = 250"

text \<open>\<open>NormalUpdate\<close>; the result says whether the work on the test case is to be given up.\<close>

definition NormalUpdate ::
  "World \<Rightarrow> u8 list \<Rightarrow> u8 list \<Rightarrow> ExitStatusFeedback \<Rightarrow> AFLState \<Rightarrow> (bool \<times> u8 list \<times> ExitStatusFeedback \<times> AFLState) result" where
  "NormalUpdate W buf feed ex s =
     (if stop_soon s then Inr (True, feed, ex, s)
      else if es_reason ex = FAULT_TMOUT \<and> TmoutLimit < subseq_tmouts s then
        Inr (True, feed, ex, s\<lparr>subseq_tmouts := u32 (subseq_tmouts s + 1), cur_skipped_paths := u32 (cur_skipped_paths s + 1)\<rparr>)
      else
        let s = s\<lparr>subseq_tmouts := (if es_reason ex = FAULT_TMOUT then u32 (subseq_tmouts s + 1) else 0)\<rparr>
        in bindR (SaveIfInteresting W buf feed ex s) (\<lambda>(keep, feed, ex, s).
             Inr (False, feed, ex, if keep then s\<lparr>queued_discovered := u32 (queued_discovered s + 1)\<rparr> else s)))"

text \<open>\<open>ExecutePUT\<close> with \<open>NormalUpdate\<close> as its successor.\<close>

definition execute_put :: "World \<Rightarrow> u8 list \<Rightarrow> AFLState \<Rightarrow> (bool \<times> AFLState) result" where
  "execute_put W buf s =
     bindR (RunExecutorWithClassifyCounts W buf 0 s) (\<lambda>(feed, ex, s).
     bindR (NormalUpdate W buf feed ex s) (\<lambda>(stop, _, _, s). Inr (stop, s)))"

end
