(* ===== verification/AFL_Stages.thy ===== *)
theory AFL_Stages
  imports AFL_Routines AFL_Mutator_Props
begin

text \<open>
  The deterministic mutation stages of AFL and the dictionary stages (\<open>afl_mutation_hierarflow_routines.hpp\<close> and its
  template file). The calls of a stage's successors are a parameter of the stage, so that the stages can be
  connected as \<open>BuildFuzzFlow\<close> does.

  Finds, cycles and selected blocks are counted for the status screen only and are left out. \<open>stage_cur\<close> and
  \<open>stage_max\<close> are the variables of the loops; executing a test case restores both, so that the loops of the
  model count on their own and write the two members for the updates that read them.
\<close>

section \<open>State and calls\<close>

text \<open>The members of \<open>AFLStateTemplate\<close> that the stages use, beside those of the record \<open>AFLState\<close>.\<close>

record Stages =
  afl :: AFLState
  rand :: rng
  extras :: "AFLDictData list"
  a_extras :: "AFLDictData list"
  auto_changed :: bool
  a_collect :: "u8 list"
  a_len :: nat
  should_construct_auto_dict :: bool
  prev_cksum :: nat
  queue_cur_exec_cksum :: nat
  eff_map :: "u8 list"
  eff_cnt :: nat
  stage_cur :: int
  stage_max :: int
  doing_det :: bool
  skip_deterministic :: bool
  no_arith :: bool
  run_over10m :: bool
  master_id :: nat
  master_max :: nat
  havoc_div :: nat

type_synonym put = "u8 list \<Rightarrow> Stages \<Rightarrow> (bool \<times> Stages) result"
type_synonym work = "Mutator \<Rightarrow> Stages \<Rightarrow> (bool \<times> Mutator \<times> Stages) result"

text \<open>The conversion to \<open>s32\<close>.\<close>

definition s32 :: "int \<Rightarrow> int" where
  "s32 x = (x + 2 ^ 31) mod 2 ^ 32 - 2 ^ 31"

text \<open>A stage or a step ends the work on the test case with \<open>True\<close>.\<close>

definition and_then :: "(bool \<times> Mutator \<times> Stages) result \<Rightarrow> work \<Rightarrow> (bool \<times> Mutator \<times> Stages) result" where
  "and_then r f = bindR r (\<lambda>(stop, m, z). if stop then Inr (True, m, z) else f m z)"

fun for_each :: "('i \<Rightarrow> work) \<Rightarrow> 'i list \<Rightarrow> work" where
  "for_each f [] m z = Inr (False, m, z)"
| "for_each f (i # is) m z = and_then (f i m z) (for_each f is)"

text \<open>\<open>CallSuccessors(mutator.GetBuf(), mutator.GetLen())\<close>.\<close>

definition call_put :: "put \<Rightarrow> work" where
  "call_put put m z = bindR (GetBuf m) (\<lambda>buf. bindR (put buf z) (\<lambda>(stop, z). Inr (stop, m, z)))"

text \<open>The members that name the stage and the change, which \<open>DescribeOp\<close> reads.\<close>

definition label :: "string \<Rightarrow> Stages \<Rightarrow> Stages" where
  "label name z = z\<lparr>afl := (afl z)\<lparr>stage_short := name\<rparr>\<rparr>"

definition at_byte :: "int \<Rightarrow> Stages \<Rightarrow> Stages" where
  "at_byte i z = z\<lparr>afl := (afl z)\<lparr>stage_cur_byte := i\<rparr>\<rparr>"

definition val_type :: "StageVal \<Rightarrow> Stages \<Rightarrow> Stages" where
  "val_type ty z = z\<lparr>afl := (afl z)\<lparr>stage_val_type := ty\<rparr>\<rparr>"

definition cur_val :: "int \<Rightarrow> Stages \<Rightarrow> Stages" where
  "cur_val v z = z\<lparr>afl := (afl z)\<lparr>stage_cur_val := v\<rparr>\<rparr>"

definition progress :: "int \<Rightarrow> int \<Rightarrow> Stages \<Rightarrow> Stages" where
  "progress cur mx z = z\<lparr>stage_cur := cur, stage_max := mx\<rparr>"

definition done_one :: "Stages \<Rightarrow> Stages" where
  "done_one z = z\<lparr>stage_cur := s32 (stage_cur z + 1)\<rparr>"

definition fewer :: "nat \<Rightarrow> Stages \<Rightarrow> Stages" where
  "fewer n z = z\<lparr>stage_max := s32 (stage_max z - int n)\<rparr>"

section \<open>Bit flips\<close>

definition flip_step :: "put \<Rightarrow> nat \<Rightarrow> nat \<Rightarrow> work" where
  "flip_step put width i m z =
     bindR (FlipBit m i width) (\<lambda>m.
     and_then (call_put put m (at_byte (int (i div 8)) (z\<lparr>stage_cur := int i\<rparr>))) (\<lambda>m z.
     bindR (FlipBit m i width) (\<lambda>m. Inr (False, m, z))))"

definition flip1_step :: "put \<Rightarrow> nat \<Rightarrow> work" where
  "flip1_step put i m z =
     flip_step put 1 i m
       (if dumb_mode (setting (afl z)) then z else z\<lparr>should_construct_auto_dict := (i mod 8 = 7)\<rparr>)"

definition BitFlip1WithAutoDictBuild :: "put \<Rightarrow> work" where
  "BitFlip1WithAutoDictBuild put m z =
     (let z = z\<lparr>prev_cksum := queue_cur_exec_cksum z, a_len := 0, a_collect := [], should_construct_auto_dict := False\<rparr>;
          z = label ''flip1'' (progress 0 (s32 (int (u32 (push_bit 3 (len m))))) z)
      in for_each (flip1_step put) [0..<nat (stage_max z)] m z)"

definition bit_flip_width :: "put \<Rightarrow> nat \<Rightarrow> work" where
  "bit_flip_width put width m z =
     (let z = label (''flip'' @ decimal width) (progress 0 (s32 (int (u32 (push_bit 3 (len m))) + 1 - int width)) z)
      in for_each (flip_step put width) [0..<nat (stage_max z)] m z)"

definition BitFlipOther :: "put \<Rightarrow> work" where
  "BitFlipOther put m z = for_each (bit_flip_width put) [2, 4] m z"

section \<open>Byte flips and the effector map\<close>

definition EffMaxPerc :: nat where "EffMaxPerc = 90"
definition EffMinLen :: nat where "EffMinLen = 128"

text \<open>\<open>memchr\<close> for a marked cell among \<open>n\<close> cells of the effector map.\<close>

definition eff_any :: "Stages \<Rightarrow> nat \<Rightarrow> nat \<Rightarrow> bool result" where
  "eff_any z head n = bindR (rd (Some (eff_map z)) head n) (\<lambda>cells. Inr (1 \<in> set cells))"

definition set_cell :: "u8 list \<Rightarrow> nat \<Rightarrow> u8 list result" where
  "set_cell cells i = (if i < length cells then Inr (cells[i := 1]) else Inl Undefined)"

definition eff_init :: "nat \<Rightarrow> Stages \<Rightarrow> Stages result" where
  "eff_init l z =
     bindR (set_cell (replicate (EFF_ALEN l) 0) 0) (\<lambda>cells.
       let last = EFF_APOS (u32_sub l 1) in
       if last \<noteq> 0 then bindR (set_cell cells last) (\<lambda>cells. Inr (z\<lparr>eff_map := cells, eff_cnt := 2\<rparr>))
       else Inr (z\<lparr>eff_map := cells, eff_cnt := 1\<rparr>))"

definition byte_flip1_step :: "put \<Rightarrow> nat \<Rightarrow> work" where
  "byte_flip1_step put i m z =
     bindR (FlipByte m i 1) (\<lambda>m.
     and_then (call_put put m (at_byte (int i) (z\<lparr>stage_cur := int i\<rparr>))) (\<lambda>m z.
     bindR (FlipByte m i 1) (\<lambda>m. Inr (False, m, z))))"

text \<open>A map that is marked almost everywhere is marked everywhere.\<close>

definition eff_finish :: "nat \<Rightarrow> Stages \<Rightarrow> Stages result" where
  "eff_finish l z =
     (let cells = EFF_ALEN l in
      if cells = 0 then Inl Undefined
      else if eff_cnt z \<noteq> cells \<and> EffMaxPerc < u32 (eff_cnt z * 100) div cells
      then Inr (z\<lparr>eff_map := replicate cells 1\<rparr>) else Inr z)"

definition ByteFlip1WithEffMapBuild :: "put \<Rightarrow> work" where
  "ByteFlip1WithEffMapBuild put m z =
     bindR (eff_init (len m) z) (\<lambda>z.
     and_then (for_each (byte_flip1_step put) [0..<len m] m (label ''flip8'' (progress 0 (s32 (int (len m))) z))) (\<lambda>m z.
     bindR (eff_finish (len m) z) (\<lambda>z. Inr (False, m, z))))"

text \<open>The cells of the bytes from \<open>i\<close> to \<open>i + width - 1\<close>.\<close>

definition should_mutate :: "Stages \<Rightarrow> nat \<Rightarrow> nat \<Rightarrow> bool result" where
  "should_mutate z i width =
     (let head = EFF_APOS i; tail = EFF_APOS (u32 (i + width - 1)) in eff_any z head (u32 (u32_sub tail head + 1)))"

definition byte_flip_step :: "put \<Rightarrow> nat \<Rightarrow> nat \<Rightarrow> work" where
  "byte_flip_step put width i m z =
     bindR (should_mutate z i width) (\<lambda>eff.
       if \<not> eff then Inr (False, m, fewer 1 z)
       else
         bindR (FlipByte m i width) (\<lambda>m.
         and_then (call_put put m (at_byte (int i) z)) (\<lambda>m z.
         bindR (FlipByte m i width) (\<lambda>m. Inr (False, m, done_one z)))))"

definition mutable_pos :: "Mutator \<Rightarrow> nat \<Rightarrow> nat" where
  "mutable_pos m width = u32_sub (u32 (len m + 1)) width"

definition byte_flip_width :: "put \<Rightarrow> nat \<Rightarrow> work" where
  "byte_flip_width put width m z =
     for_each (byte_flip_step put width) [0..<mutable_pos m width] m
       (label (''flip'' @ decimal (width * 8)) (progress 0 (s32 (int (mutable_pos m width))) z))"

definition ByteFlipOther :: "put \<Rightarrow> work" where
  "ByteFlipOther put m z =
     (if len m < 2 then Inr (False, m, z)
      else and_then (byte_flip_width put 2 m z) (\<lambda>m z.
        if len m < 4 then Inr (False, m, z) else byte_flip_width put 4 m z))"

section \<open>Arithmetic and interesting values\<close>

text \<open>One change that the filters may reject, its execution, and its undoing.\<close>

definition try_change :: "put \<Rightarrow> nat \<Rightarrow> (bool \<times> Mutator) result \<Rightarrow> (Stages \<Rightarrow> Stages) \<Rightarrow> Stages \<Rightarrow> (bool \<times> Mutator \<times> Stages) result" where
  "try_change put width change mark z =
     bindR change (\<lambda>(changed, m).
       if changed then
         and_then (call_put put m (mark z)) (\<lambda>m z.
         bindR (RestoreOverwrite width m) (\<lambda>m. Inr (False, m, done_one z)))
       else Inr (False, m, fewer 1 z))"

definition arith_step :: "put \<Rightarrow> nat \<Rightarrow> nat \<Rightarrow> nat \<Rightarrow> work" where
  "arith_step put width i j m z =
     and_then (try_change put width (AFL_AddN width m i j False) (cur_val (int j)) (val_type STAGE_VAL_LE z)) (\<lambda>m z.
     and_then (try_change put width (AFL_SubN width m i j False) (cur_val (- int j)) z) (\<lambda>m z.
       if width = 1 then Inr (False, m, z)
       else
         and_then (try_change put width (AFL_AddN width m i j True) (cur_val (int j)) (val_type STAGE_VAL_BE z)) (\<lambda>m z.
         try_change put width (AFL_SubN width m i j True) (cur_val (- int j)) z)))"

definition muts_per_unit :: "nat \<Rightarrow> nat" where
  "muts_per_unit width = (if 2 \<le> width then 4 else 2)"

definition arith_pos :: "put \<Rightarrow> nat \<Rightarrow> nat \<Rightarrow> work" where
  "arith_pos put width i m z =
     bindR (should_mutate z i width) (\<lambda>eff.
       if \<not> eff then Inr (False, m, fewer (muts_per_unit width * ArithMax) z)
       else for_each (arith_step put width i) [1..<ArithMax + 1] m (at_byte (int i) z))"

definition DoArith :: "put \<Rightarrow> nat \<Rightarrow> work" where
  "DoArith put width m z =
     for_each (arith_pos put width) [0..<mutable_pos m width] m
       (label (''arith'' @ decimal (width * 8))
          (progress 0 (s32 (int (u32 (muts_per_unit width * mutable_pos m width * ArithMax)))) z))"

definition Arith :: "put \<Rightarrow> work" where
  "Arith put m z =
     (if no_arith z then Inr (False, m, z)
      else and_then (DoArith put 1 m z) (\<lambda>m z.
        if len m < 2 then Inr (False, m, z)
        else and_then (DoArith put 2 m z) (\<lambda>m z.
          if len m < 4 then Inr (False, m, z) else DoArith put 4 m z)))"

definition interest_step :: "put \<Rightarrow> nat \<Rightarrow> nat \<Rightarrow> nat \<Rightarrow> work" where
  "interest_step put width i j m z =
     and_then (try_change put width (AFL_InterestN width m i j False) (val_type STAGE_VAL_LE)
                 (cur_val (interest_table width ! j) z)) (\<lambda>m z.
       if width = 1 then Inr (False, m, z)
       else try_change put width (AFL_InterestN width m i j True) (val_type STAGE_VAL_BE) z)"

definition num_endians :: "nat \<Rightarrow> nat" where
  "num_endians width = (if width = 1 then 1 else 2)"

definition interest_pos :: "put \<Rightarrow> nat \<Rightarrow> nat \<Rightarrow> work" where
  "interest_pos put width i m z =
     bindR (should_mutate z i width) (\<lambda>eff.
       if \<not> eff then Inr (False, m, fewer (num_endians width * length (interest_table width)) z)
       else for_each (interest_step put width i) [0..<length (interest_table width)] m (at_byte (int i) z))"

definition DoInterest :: "put \<Rightarrow> nat \<Rightarrow> work" where
  "DoInterest put width m z =
     for_each (interest_pos put width) [0..<mutable_pos m width] m
       (label (''int'' @ decimal (width * 8))
          (progress 0 (s32 (int (num_endians width * mutable_pos m width * length (interest_table width)))) z))"

definition Interest :: "put \<Rightarrow> work" where
  "Interest put m z =
     and_then (DoInterest put 1 m z) (\<lambda>m z.
       if no_arith z \<or> len m < 2 then Inr (False, m, z)
       else and_then (DoInterest put 2 m z) (\<lambda>m z.
         if len m < 4 then Inr (False, m, z) else DoInterest put 4 m z))"

section \<open>Dictionaries\<close>

definition MaxDetExtras :: nat where "MaxDetExtras = 200"
definition UseAutoExtras :: nat where "UseAutoExtras = 50"
definition MaxAutoExtras :: nat where "MaxAutoExtras = UseAutoExtras * 10"
definition MaxDictFile :: nat where "MaxDictFile = 128"

text \<open>User entries are skipped at random when there are many.\<close>

definition skip_extra :: "bool \<Rightarrow> Stages \<Rightarrow> (bool \<times> Stages) result" where
  "skip_extra is_auto z =
     (if \<not> is_auto \<and> MaxDetExtras < length (extras z) then
        bindR (UR (u32 (length (extras z))) (rand z)) (\<lambda>(x, rs). Inr (MaxDetExtras \<le> x, z\<lparr>rand := rs\<rparr>))
      else Inr (False, z))"

text \<open>An entry is of no use if it does not fit, is there already, or all its cells are unmarked.\<close>

definition useless_extra :: "nat \<Rightarrow> u8 list \<Rightarrow> Mutator \<Rightarrow> Stages \<Rightarrow> bool result" where
  "useless_extra i tok m z =
     (let sz = u32 (length tok) in
      if u32_sub (len m) i < sz then Inr True
      else bindR (rd (outbuf m) i sz) (\<lambda>old.
        if take sz tok = old then Inr True
        else bindR (eff_any z (EFF_APOS i) (EFF_SPAN_ALEN i sz)) (\<lambda>eff. Inr (\<not> eff))))"

text \<open>The loop over the entries; \<open>last_len\<close> is the length of the entry written last.\<close>

fun dict_loop :: "put \<Rightarrow> bool \<Rightarrow> nat \<Rightarrow> AFLDictData list \<Rightarrow> nat \<Rightarrow> Mutator \<Rightarrow> Stages \<Rightarrow> (bool \<times> nat \<times> Mutator \<times> Stages) result" where
  "dict_loop put is_auto i [] last_len m z = Inr (False, last_len, m, z)"
| "dict_loop put is_auto i (e # es) last_len m z =
     bindR (skip_extra is_auto z) (\<lambda>(skip, z).
     bindR (if skip then Inr True else useless_extra i (data e) m z) (\<lambda>skip.
       if skip then dict_loop put is_auto i es last_len m (fewer 1 z)
       else
         let sz = u32 (length (data e)) in
         bindR (Replace m i (Some (data e)) 0 sz) (\<lambda>m.
         bindR (call_put put m z) (\<lambda>(stop, m, z).
           if stop then Inr (True, sz, m, z) else dict_loop put is_auto i es sz m (done_one z)))))"

definition dict_pos :: "put \<Rightarrow> bool \<Rightarrow> AFLDictData list \<Rightarrow> nat \<Rightarrow> work" where
  "dict_pos put is_auto es i m z =
     bindR (dict_loop put is_auto i es 0 m (at_byte (int i) z)) (\<lambda>(stop, last_len, m, z).
       if stop then Inr (True, m, z)
       else bindR (Replace m i (Some (Mutator.input m)) i last_len) (\<lambda>m. Inr (False, m, z)))"

definition DictOverwrite :: "put \<Rightarrow> bool \<Rightarrow> work" where
  "DictOverwrite put is_auto m z =
     (let ex = (if is_auto then a_extras z else extras z) in
      if ex = [] then Inr (False, m, z)
      else
        let used = (if is_auto then min (u32 (length ex)) UseAutoExtras else u32 (length ex));
            z = label (if is_auto then ''ext_AO'' else ''ext_UO'') (progress 0 (s32 (int (u32 (len m * used)))) z)
        in for_each (dict_pos put is_auto (take used ex)) [0..<len m] m (val_type STAGE_VAL_NONE z))"

text \<open>
  \<open>UserDictInsert\<close>, which \<open>BuildFuzzFlow\<close> creates but does not connect. \<open>ex_tmp\<close> has room for one entry of \<open>MaxDictFile\<close>
  bytes.
\<close>

fun insert_loop :: "put \<Rightarrow> nat \<Rightarrow> AFLDictData list \<Rightarrow> buffer \<Rightarrow> Mutator \<Rightarrow> Stages \<Rightarrow> (bool \<times> buffer \<times> Stages) result" where
  "insert_loop put i [] tmp m z = Inr (False, tmp, z)"
| "insert_loop put i (e # es) tmp m z =
     (let sz = length (data e) in
      if MaxFile < len m + sz then Inr (False, tmp, fewer (length (e # es)) z)
      else
        bindR (wr tmp i (data e)) (\<lambda>tmp.
        bindR (rd (outbuf m) i (u32_sub (len m) i)) (\<lambda>tail.
        bindR (wr tmp (i + sz) tail) (\<lambda>tmp.
        bindR (rd tmp 0 (len m + sz)) (\<lambda>buf.
        bindR (put buf z) (\<lambda>(stop, z).
          if stop then Inr (True, tmp, z) else insert_loop put i es tmp m (done_one z)))))))"

fun insert_pos :: "put \<Rightarrow> AFLDictData list \<Rightarrow> nat list \<Rightarrow> buffer \<Rightarrow> work" where
  "insert_pos put es [] tmp m z = Inr (False, m, z)"
| "insert_pos put es (i # is) tmp m z =
     bindR (insert_loop put i es tmp m (at_byte (int i) z)) (\<lambda>(stop, tmp, z).
       if stop then Inr (True, m, z)
       else
         bindR (rd (outbuf m) i 1) (\<lambda>b.
         bindR (wr tmp i b) (\<lambda>tmp. insert_pos put es is tmp m z)))"

definition UserDictInsert :: "put \<Rightarrow> work" where
  "UserDictInsert put m z =
     (if extras z = [] then Inr (False, m, z)
      else
        insert_pos put (extras z) [0..<len m + 1] (Some (replicate (len m + MaxDictFile) 0)) m
          (label ''ext_UI'' (progress 0 (s32 (int (length (extras z) * (len m + 1)))) z)))"

end
