(* ===== verification/AFL_Fuzz.thy ===== *)
theory AFL_Fuzz
  imports AFL_Stages
begin

text \<open>
  The random stages of AFL, havoc and splicing, the updates of the automatic dictionary and of the effector
  map, and the composition of all routines: \<open>ApplyDetMuts\<close>, \<open>ApplyRandMuts\<close> and one iteration of the fuzzing
  loop as \<open>BuildFuzzFlow\<close> connects it.
\<close>

section \<open>Havoc\<close>

definition HavocCycles :: nat where "HavocCycles = 256"
definition HavocCyclesInit :: nat where "HavocCyclesInit = 1024"
definition HavocMin :: nat where "HavocMin = 16"
definition HavocStackPow2 :: nat where "HavocStackPow2 = 7"
definition SpliceCycles :: nat where "SpliceCycles = 15"
definition SpliceHavoc :: nat where "SpliceHavoc = 32"

text \<open>One round: a random number of stacked operators, and the execution of the result.\<close>

definition havoc_round :: "put \<Rightarrow> nat \<Rightarrow> nat \<Rightarrow> work" where
  "havoc_round put cur mx m z =
     bindR (UR HavocStackPow2 (rand z)) (\<lambda>(k, rs).
       let stacking = 2 ^ (1 + k); z = cur_val (int stacking) (progress (int cur) (int mx) z) in
       bindR (Havoc (AFL_ChooseBlockLen (queue_cycle (afl z)) (run_over10m z)) AFLHavocCaseDistrib no_custom stacking
                (extras z) (a_extras z) m rs) (\<lambda>(m, rs). call_put put m (z\<lparr>rand := rs\<rparr>)))"

text \<open>
  The loop of \<open>DoHavoc\<close>: whenever the queue has grown, the number of rounds is doubled, as long as the
  performance score, doubled with it, is within its limit. Doubling beyond \<open>s32\<close> is undefined.
\<close>

function havoc_rounds :: "put \<Rightarrow> nat \<Rightarrow> nat \<Rightarrow> nat \<Rightarrow> nat \<Rightarrow> work" where
  "havoc_rounds put perf queued cur mx m z =
     (if cur < mx then
        bindR (havoc_round put cur mx m z) (\<lambda>r.
          if fst r then Inr r
          else
            let m = RestoreHavoc (fst (snd r)); z = snd (snd r) in
            if queued_paths (afl z) = queued then havoc_rounds put perf queued (cur + 1) mx m z
            else if perf \<le> HavocMaxMult * 100 then
              (if 2 ^ 31 \<le> 2 * mx then Inl Undefined
               else havoc_rounds put (u32 (perf * 2)) (queued_paths (afl z)) (cur + 1) (2 * mx) m z)
            else havoc_rounds put perf (queued_paths (afl z)) (cur + 1) mx m z)
      else Inr (False, m, z))"
  by pat_completeness auto
termination
  by (relation "measures [\<lambda>(put, perf, queued, cur, mx, m, z). 2 ^ 31 - mx, \<lambda>(put, perf, queued, cur, mx, m, z). mx - cur]") auto

declare havoc_rounds.simps [simp del]

definition DoHavoc :: "put \<Rightarrow> string \<Rightarrow> nat \<Rightarrow> nat \<Rightarrow> work" where
  "DoHavoc put short perf_score multiplier m z =
     (if havoc_div z = 0 then Inl Undefined
      else
        let mx = nat (max (s32 (int (u32 (multiplier * perf_score) div havoc_div z div 100))) (int HavocMin))
        in havoc_rounds put perf_score (queued_paths (afl z)) 0 mx m (at_byte (- 1) (label short z)))"

definition HavocStage :: "put \<Rightarrow> work" where
  "HavocStage put m z =
     DoHavoc put ''havoc'' (orig_perf (afl z)) (if doing_det z then HavocCyclesInit else HavocCycles) m z"

section \<open>Splicing\<close>

text \<open>
  The number of another test case: the loop draws again as long as it draws the current one. A source that
  has run out yields the smallest other number.
\<close>

fun draw_other :: "nat \<Rightarrow> nat \<Rightarrow> rng \<Rightarrow> (nat \<times> rng) result" where
  "draw_other n current [] = Inr (if current = 0 then 1 else 0, [])"
| "draw_other n current (r # rs) =
     bindR (UR n [r]) (\<lambda>(tid, _). if tid = current then draw_other n current rs else Inr (tid, rs))"

text \<open>The first test case from \<open>tid\<close> on that is long enough and not the current one.\<close>

definition splice_target_from :: "nat \<Rightarrow> AFLState \<Rightarrow> nat" where
  "splice_target_from tid s =
     (case filter (\<lambda>u. 2 \<le> GetLen (input (case_queue s ! u)) \<and> u \<noteq> current_entry s) [tid..<length (case_queue s)] of
        [] \<Rightarrow> max tid (length (case_queue s)) | u # _ \<Rightarrow> u)"

definition splice_with :: "World \<Rightarrow> nat \<Rightarrow> put \<Rightarrow> work" where
  "splice_with W tid put m z =
     (let s = (afl z)\<lparr>splicing_with := int tid\<rparr> in
      bindR (load_case W tid s) (\<lambda>s.
      bindR (GetInput (input (case_queue s ! tid))) (\<lambda>target.
      bindR (Splice m target (rand z)) (\<lambda>((success, m), rs).
        let s = upd_case tid (\<lambda>tc. tc\<lparr>input := Unload (input tc)\<rparr>) s; z = z\<lparr>afl := s, rand := rs\<rparr> in
        if \<not> success then Inr (False, m, z)
        else
          and_then (DoHavoc put ''splice'' (orig_perf s) SpliceHavoc m z) (\<lambda>m z. Inr (False, RestoreSplice m, z))))))"

definition splice_round :: "World \<Rightarrow> put \<Rightarrow> nat \<Rightarrow> work" where
  "splice_round W put cycle m z =
     bindR (draw_other (queued_paths (afl z)) (current_entry (afl z)) (rand z)) (\<lambda>(tid, rs).
       let z = z\<lparr>rand := rs\<rparr>; tid = splice_target_from tid (afl z) in
       if tid = length (case_queue (afl z)) then Inr (False, m, z)
       else if length (case_queue (afl z)) < tid then Inl Undefined
       else splice_with W tid put m z)"

text \<open>The condition of the loop is checked before every round.\<close>

definition Splicing :: "World \<Rightarrow> put \<Rightarrow> work" where
  "Splicing W put m z =
     (if \<not> use_splicing (afl z) \<or> ignore_finds (setting (afl z)) then Inr (False, m, z)
      else
        for_each (\<lambda>cycle m z.
            if 1 < queued_paths (afl z) \<and> 1 < length (Mutator.input m) then splice_round W put cycle m z else Inr (False, m, z))
          [1..<SpliceCycles + 1] m z)"

section \<open>The automatic dictionary\<close>

definition MinAutoExtra :: nat where "MinAutoExtra = 3"
definition MaxAutoExtra :: nat where "MaxAutoExtra = 32"

text \<open>
  \<open>std::sort\<close> with the two comparisons of \<open>MaybeAddAuto\<close>: which order equal elements get is not specified, so that the
  two sorts belong to the world outside.
\<close>

record Sorts =
  sort_hits :: "AFLDictData list \<Rightarrow> AFLDictData list"
  sort_sizes :: "AFLDictData list \<Rightarrow> AFLDictData list"

definition to_lower :: "u8 \<Rightarrow> u8" where
  "to_lower b = (if 65 \<le> b \<and> b \<le> 90 then b + 32 else b)"

definition CheckEqualNocase :: "u8 list \<Rightarrow> u8 list \<Rightarrow> bool" where
  "CheckEqualNocase m1 m2 = (map to_lower m1 = map to_lower (take (length m1) m2))"

definition builtin_value :: "u8 list \<Rightarrow> bool" where
  "builtin_value mem =
     (if length mem = 2 then \<exists>v \<in> set interesting_16. of_le mem = trunc 2 (word_of_int v) \<or> of_le mem = SWAP16 (word_of_int v)
      else if length mem = 4 then \<exists>v \<in> set interesting_32. of_le mem = word_of_int v \<or> of_le mem = SWAP32 (word_of_int v)
      else False)"

text \<open>The search among the user's entries, which are taken to be sorted by size.\<close>

definition known_extra :: "AFLDictData list \<Rightarrow> u8 list \<Rightarrow> bool" where
  "known_extra ex mem =
     list_ex (\<lambda>e. CheckEqualNocase (data e) mem)
       (takeWhile (\<lambda>e. length (data e) = length mem) (dropWhile (\<lambda>e. length (data e) < length mem) ex))"

text \<open>The first entry that matches gets a hit.\<close>

fun count_hit :: "u8 list \<Rightarrow> AFLDictData list \<Rightarrow> AFLDictData list option" where
  "count_hit mem [] = None"
| "count_hit mem (e # es) =
     (if length (data e) = length mem \<and> CheckEqualNocase (data e) mem then Some (e\<lparr>hit_cnt := u32 (hit_cnt e + 1)\<rparr> # es)
      else map_option ((#) e) (count_hit mem es))"

definition add_entry :: "u8 list \<Rightarrow> AFLDictData list \<Rightarrow> rng \<Rightarrow> (AFLDictData list \<times> rng) result" where
  "add_entry mem aex rs =
     (if length aex < MaxAutoExtras then Inr (aex @ [\<lparr>data = mem, hit_cnt = 0\<rparr>], rs)
      else
        bindR (UR ((MaxAutoExtras + 1) div 2) rs) (\<lambda>(x, rs).
          let idx = MaxAutoExtras div 2 + x in
          if idx < length aex then Inr (aex[idx := \<lparr>data = mem, hit_cnt = 0\<rparr>], rs) else Inl Undefined))"

definition resort :: "Sorts \<Rightarrow> AFLDictData list \<Rightarrow> AFLDictData list" where
  "resort S aex =
     (let aex = sort_hits S aex; lim = min UseAutoExtras (length aex) in sort_sizes S (take lim aex) @ drop lim aex)"

definition MaybeAddAuto :: "Sorts \<Rightarrow> u8 list \<Rightarrow> Stages \<Rightarrow> Stages result" where
  "MaybeAddAuto S mem z =
     (if MaxAutoExtras = 0 \<or> UseAutoExtras = 0 then Inr z
      else if mem = [] then Inl Undefined
      else if mem = replicate (length mem) (hd mem) \<or> builtin_value mem \<or> known_extra (extras z) mem then Inr z
      else
        let z = z\<lparr>auto_changed := True\<rparr> in
        bindR (case count_hit mem (a_extras z) of Some aex \<Rightarrow> Inr (aex, rand z) | None \<Rightarrow> add_entry mem (a_extras z) (rand z))
          (\<lambda>(aex, rs). Inr (z\<lparr>a_extras := resort S aex, rand := rs\<rparr>)))"

definition maybe_collect :: "Sorts \<Rightarrow> Stages \<Rightarrow> Stages result" where
  "maybe_collect S z =
     (if MinAutoExtra \<le> a_len z \<and> a_len z \<le> MaxAutoExtra then MaybeAddAuto S (a_collect z) z else Inr z)"

text \<open>The next byte of the token; the lowest bit of the byte is flipped at this moment.\<close>

definition collect_byte :: "u8 list \<Rightarrow> Stages \<Rightarrow> Stages result" where
  "collect_byte buf z =
     bindR (if a_len z < MaxAutoExtra
            then bindR (idx_vec buf (nat (stage_cur z) div 8)) (\<lambda>b. Inr (z\<lparr>a_collect := a_collect z @ [b XOR 1]\<rparr>)) else Inr z)
       (\<lambda>z. Inr (z\<lparr>a_len := u32 (a_len z + 1)\<rparr>))"

definition ConstructAutoDict :: "Sorts \<Rightarrow> u8 list \<Rightarrow> u8 list \<Rightarrow> Stages \<Rightarrow> Stages result" where
  "ConstructAutoDict S buf feed z =
     (if \<not> should_construct_auto_dict z then Inr z
      else
        let cksum = CalcCksum32 feed in
        bindR (if stage_cur z = stage_max z - 1 \<and> cksum = prev_cksum z then
                 bindR (collect_byte buf z) (\<lambda>z. maybe_collect S z)
               else if cksum \<noteq> prev_cksum z then
                 bindR (maybe_collect S z) (\<lambda>z. Inr (z\<lparr>a_collect := [], a_len := 0, prev_cksum := cksum\<rparr>))
               else Inr z) (\<lambda>z.
          if cksum \<noteq> queue_cur_exec_cksum z then collect_byte buf z else Inr z))"

section \<open>The effector map\<close>

definition ConstructEffMap :: "u8 list \<Rightarrow> u8 list \<Rightarrow> Stages \<Rightarrow> Stages result" where
  "ConstructEffMap buf feed z =
     (let i = EFF_APOS (nat (stage_cur z)) in
      bindR (idx_vec (eff_map z) i) (\<lambda>cell.
        if cell = 0 \<and> (dumb_mode (setting (afl z)) \<or> length buf < EffMinLen \<or> CalcCksum32 feed \<noteq> queue_cur_exec_cksum z)
        then Inr (z\<lparr>eff_map := (eff_map z)[i := 1], eff_cnt := u32 (eff_cnt z + 1)\<rparr>) else Inr z))"

section \<open>The successors of the stages\<close>

text \<open>\<open>ExecutePUT\<close> with \<open>NormalUpdate\<close> and a second update, which is not called when the first one gives up.\<close>

definition put_with :: "World \<Rightarrow> (u8 list \<Rightarrow> u8 list \<Rightarrow> Stages \<Rightarrow> Stages result) \<Rightarrow> put" where
  "put_with W upd buf z =
     bindR (RunExecutorWithClassifyCounts W buf 0 (afl z)) (\<lambda>(feed, ex, s).
     bindR (NormalUpdate W buf feed ex s) (\<lambda>(stop, feed, ex, s).
       if stop then Inr (True, z\<lparr>afl := s\<rparr>)
       else bindR (upd buf feed (z\<lparr>afl := s\<rparr>)) (\<lambda>z. Inr (False, z))))"

definition put_plain :: "World \<Rightarrow> put" where
  "put_plain W = put_with W (\<lambda>buf feed z. Inr z)"

definition put_auto_dict :: "World \<Rightarrow> Sorts \<Rightarrow> put" where
  "put_auto_dict W S = put_with W (ConstructAutoDict S)"

definition put_eff_map :: "World \<Rightarrow> put" where
  "put_eff_map W = put_with W ConstructEffMap"

section \<open>All stages\<close>

definition det_stages :: "World \<Rightarrow> Sorts \<Rightarrow> work" where
  "det_stages W S m z =
     and_then (BitFlip1WithAutoDictBuild (put_auto_dict W S) m z) (\<lambda>m z.
     and_then (BitFlipOther (put_plain W) m z) (\<lambda>m z.
     and_then (ByteFlip1WithEffMapBuild (put_eff_map W) m z) (\<lambda>m z.
     and_then (ByteFlipOther (put_plain W) m z) (\<lambda>m z.
     and_then (Arith (put_plain W) m z) (\<lambda>m z.
     and_then (Interest (put_plain W) m z) (\<lambda>m z.
     and_then (DictOverwrite (put_plain W) False m z) (\<lambda>m z.
     DictOverwrite (put_plain W) True m z)))))))"

text \<open>The result says whether \<open>AbandonEntry\<close> comes next.\<close>

definition ApplyDetMuts :: "World \<Rightarrow> Sorts \<Rightarrow> nat \<Rightarrow> Stages \<Rightarrow> (bool \<times> Stages) result" where
  "ApplyDetMuts W S t z =
     bindR (idx_vec (case_queue (afl z)) t) (\<lambda>tc.
     bindR (LoadByMmap (can_open W) (input tc)) (\<lambda>inp.
       let z = z\<lparr>afl := upd_case t (\<lambda>tc. tc\<lparr>input := inp\<rparr>) (afl z)\<rparr> in
       if skip_deterministic z \<or> WasFuzzed tc \<or> passed_det tc \<or>
          (master_max z \<noteq> 0 \<and> exec_cksum tc mod master_max z \<noteq> u32_sub (master_id z) 1)
       then Inr (False, z\<lparr>doing_det := False\<rparr>)
       else
         bindR (GetInput inp) (\<lambda>bytes.
         bindR (det_stages W S (Mutator_new bytes)
                  (val_type STAGE_VAL_NONE (z\<lparr>doing_det := True, queue_cur_exec_cksum := exec_cksum tc\<rparr>))) (\<lambda>(stop, m, z).
           if stop then Inr (True, z)
           else if passed_det (case_queue (afl z) ! t) then Inr (False, z)
           else bindR (MarkAsDetDone W t (afl z)) (\<lambda>s. Inr (False, z\<lparr>afl := s\<rparr>))))))"

definition ApplyRandMuts :: "World \<Rightarrow> nat \<Rightarrow> Stages \<Rightarrow> (bool \<times> Stages) result" where
  "ApplyRandMuts W t z =
     bindR (idx_vec (case_queue (afl z)) t) (\<lambda>tc.
     bindR (GetInput (input tc)) (\<lambda>bytes.
     bindR (and_then (HavocStage (put_plain W) (Mutator_new bytes) z) (Splicing W (put_plain W))) (\<lambda>(stop, m, z). Inr (stop, z))))"

text \<open>The routines on the state of AFL, as routines on the whole state.\<close>

definition on_afl :: "(AFLState \<Rightarrow> (bool \<times> AFLState) result) \<Rightarrow> Stages \<Rightarrow> (bool \<times> Stages) result" where
  "on_afl f z = bindR (f (afl z)) (\<lambda>(b, s). Inr (b, z\<lparr>afl := s\<rparr>))"

definition next_unless :: "(bool \<times> Stages) result \<Rightarrow> (Stages \<Rightarrow> (bool \<times> Stages) result) \<Rightarrow> (bool \<times> Stages) result" where
  "next_unless r f = bindR r (\<lambda>(stop, z). if stop then Inr (True, z) else f z)"

text \<open>From \<open>RetryCalibrate\<close> to \<open>ApplyRandMuts\<close>; each of them may continue with \<open>AbandonEntry\<close> at once.\<close>

definition fuzz_case :: "World \<Rightarrow> Sorts \<Rightarrow> nat \<Rightarrow> Stages \<Rightarrow> (bool \<times> Stages) result" where
  "fuzz_case W S t z =
     next_unless (on_afl (RetryCalibrate W t) z) (\<lambda>z.
     next_unless (on_afl (TrimCase W t) z) (\<lambda>z.
     next_unless (on_afl (\<lambda>s. bindR (CalcScore t s) (\<lambda>s. Inr (False, s))) z) (\<lambda>z.
     next_unless (ApplyDetMuts W S t z) (\<lambda>z. ApplyRandMuts W t z))))"

definition OneLoop :: "World \<Rightarrow> Sorts \<Rightarrow> Stages \<Rightarrow> Stages result" where
  "OneLoop W S z =
     bindR (CullQueue W (afl z)) (\<lambda>s.
     bindR (SelectSeed s) (\<lambda>(t, s).
     bindR (ConsiderSkipMut W t s (rand z)) (\<lambda>((skip, s), rs).
       let z = z\<lparr>afl := s, rand := rs\<rparr> in
       if skip then Inr (z\<lparr>afl := next_entry s\<rparr>)
       else
         bindR (fuzz_case W S t z) (\<lambda>(_, z).
         bindR (AbandonEntry t (afl z)) (\<lambda>s. Inr (z\<lparr>afl := next_entry s\<rparr>))))))"

definition ShouldEnd :: "Stages \<Rightarrow> bool" where
  "ShouldEnd z = stop_soon (afl z)"

text \<open>The loop of the command line, for a number of rounds.\<close>

fun fuzz_rounds :: "World \<Rightarrow> Sorts \<Rightarrow> nat \<Rightarrow> Stages \<Rightarrow> Stages result" where
  "fuzz_rounds W S 0 z = Inr z"
| "fuzz_rounds W S (Suc n) z = (if ShouldEnd z then Inr z else bindR (OneLoop W S z) (fuzz_rounds W S n))"

end
