(* ===== verification/AFL_Favored.thy ===== *)
theory AFL_Favored
  imports AFL_Routines
begin

text \<open>
  The competition of the test cases for the bytes of the coverage map (\<open>UpdateBitmapScoreWithRawTrace\<close>) and
  the favoured test cases that \<open>CullQueue\<close> selects from it. The invariant ties the reference counts and the
  kept traces of the test cases to the table of winners.
\<close>

section \<open>The invariant of the winners\<close>

text \<open>What the invariants of the queue depend on in a test case.\<close>

definition core_case :: "AFLTestcase \<Rightarrow> nat \<times> bool list option \<times> nat" where
  "core_case tc = (tc_ref tc, trace_mini tc, fuzz_level tc)"

definition owned :: "nat option list \<Rightarrow> nat \<Rightarrow> nat set" where
  "owned tops t = {i. i < length tops \<and> tops ! i = Some t}"

definition case_ok :: "nat \<Rightarrow> nat option list \<Rightarrow> nat \<Rightarrow> AFLTestcase \<Rightarrow> bool" where
  "case_ok n tops t tc \<longleftrightarrow> tc_ref tc = card (owned tops t) \<and>
     (case trace_mini tc of None \<Rightarrow> tc_ref tc = 0 | Some b \<Rightarrow> length b = n \<and> tc_ref tc \<noteq> 0)"

definition tops_ok :: "World \<Rightarrow> AFLState \<Rightarrow> bool" where
  "tops_ok W s \<longleftrightarrow> length (top_rated s) = map_size W \<and>
     (\<forall>t. Some t \<in> set (top_rated s) \<longrightarrow> t < length (case_queue s)) \<and>
     (\<forall>t < length (case_queue s). case_ok (map_size W) (top_rated s) t (case_queue s ! t))"

lemma owned_subset: "owned tops t \<subseteq> {..<length tops}"
  by (auto simp: owned_def)

lemma finite_owned [simp]: "finite (owned tops t)"
  using owned_subset finite_lessThan by (rule finite_subset)

lemma card_owned_le: "card (owned tops t) \<le> length tops"
  using card_mono [OF finite_lessThan owned_subset, of tops t] by simp

lemma owned_update:
  "i < length tops \<Longrightarrow> owned (tops[i := Some t]) u = (if u = t then insert i (owned tops u) else owned tops u - {i})"
  by (auto simp: owned_def nth_list_update)

lemma case_ok_claim:
  assumes "case_ok n tops t tc" and "i < length tops" and "tops ! i \<noteq> Some t" and "length tops < 2 ^ 32"
  shows "case_ok n (tops[i := Some t]) t (claim n trace tc)"
proof -
  have "card (insert i (owned tops t)) = card (owned tops t) + 1"
    using assms(3) by (simp add: owned_def)
  moreover have "card (insert i (owned tops t)) \<le> length tops"
    using card_owned_le [of "tops[i := Some t]" t] assms(2) by (simp add: owned_update)
  ultimately show ?thesis
    using assms(1,2,4) by (auto simp: case_ok_def claim_def owned_update split: option.splits)
qed

lemma case_ok_release:
  assumes "case_ok n tops u tc" and "i < length tops" and "tops ! i = Some u" and "u \<noteq> t" and "length tops < 2 ^ 32"
  shows "case_ok n (tops[i := Some t]) u (release tc)"
proof -
  have "i \<in> owned tops u"
    using assms(2,3) by (simp add: owned_def)
  then have "card (owned tops u - {i}) = card (owned tops u) - 1" "0 < card (owned tops u)"
    by (simp, metis card_gt_0_iff empty_iff finite_owned)
  moreover have "card (owned tops u) < 2 ^ 32"
    using card_owned_le [of tops u] assms(5) by linarith
  ultimately show ?thesis
    using assms(1,2,4) by (auto simp: case_ok_def release_def owned_update Let_def split: option.splits)
qed

lemma case_ok_again:
  assumes "case_ok n tops t tc" and "i < length tops" and "tops ! i = Some t" and "length tops < 2 ^ 32"
  shows "case_ok n tops t (claim n trace (release tc))"
proof -
  have "i \<in> owned tops t"
    using assms(2,3) by (simp add: owned_def)
  then have "0 < card (owned tops t)"
    by (metis card_gt_0_iff empty_iff finite_owned)
  moreover have "card (owned tops t) < 2 ^ 32"
    using card_owned_le [of tops t] assms(4) by linarith
  ultimately show ?thesis
    using assms(1) by (auto simp: case_ok_def release_def claim_def Let_def split: option.splits)
qed

lemma case_ok_other:
  assumes "case_ok n tops v tc" and "i < length tops" and "tops ! i \<noteq> Some v" and "v \<noteq> t"
  shows "case_ok n (tops[i := Some t]) v tc"
proof -
  have "owned tops v - {i} = owned tops v"
    using assms(3) by (auto simp: owned_def)
  then show ?thesis
    using assms(1,2,4) by (simp add: case_ok_def owned_update)
qed

section \<open>One byte\<close>

text \<open>The test case \<open>t\<close> takes byte \<open>i\<close> from its winner, if there is one.\<close>

definition take_byte :: "World \<Rightarrow> nat \<Rightarrow> u8 list \<Rightarrow> nat \<Rightarrow> AFLState \<Rightarrow> AFLState" where
  "take_byte W t trace i s =
     win_byte W t trace i (case top_rated s ! i of None \<Rightarrow> s | Some u \<Rightarrow> upd_case u release s)"

lemma take_byte_tops [simp]: "top_rated (take_byte W t trace i s) = (top_rated s)[i := Some t]"
  by (simp add: take_byte_def win_byte_def upd_case_def split: option.splits)

lemma take_byte_length [simp]: "length (case_queue (take_byte W t trace i s)) = length (case_queue s)"
  by (simp add: take_byte_def win_byte_def upd_case_def split: option.splits)

lemma take_byte_ok:
  assumes inv: "tops_ok W s" and t: "t < length (case_queue s)" and i: "i < map_size W" and n: "map_size W < 2 ^ 32"
  shows "tops_ok W (take_byte W t trace i s)"
proof -
  let ?tops = "top_rated s" and ?q = "case_queue s" and ?s = "take_byte W t trace i s"
  have len: "length ?tops = map_size W"
    and bound: "\<And>u. Some u \<in> set ?tops \<Longrightarrow> u < length ?q"
    and ok: "\<And>u. u < length ?q \<Longrightarrow> case_ok (map_size W) ?tops u (?q ! u)"
    using inv by (auto simp: tops_ok_def)
  have il: "i < length ?tops" "length ?tops < 2 ^ 32"
    using i n len by auto
  have "case_ok (map_size W) (?tops[i := Some t]) v (case_queue ?s ! v)" if v: "v < length ?q" for v
  proof (cases "?tops ! i")
    case None
    then have "case_queue ?s ! v = (if v = t then claim (map_size W) trace (?q ! v) else ?q ! v)"
      using t v by (simp add: take_byte_def win_byte_def upd_case_def nth_list_update)
    then show ?thesis
      using case_ok_claim [OF ok [OF v] il(1)] case_ok_other [OF ok [OF v] il(1)] None il(2) by auto
  next
    case (Some u)
    have u: "u < length ?q"
      using bound [of u] Some il(1) by (metis nth_mem)
    have e: "case_queue ?s ! v =
        (if v = t then claim (map_size W) trace (if u = t then release (?q ! v) else ?q ! v)
         else if v = u then release (?q ! v) else ?q ! v)"
      using t v u Some by (auto simp: take_byte_def win_byte_def upd_case_def nth_list_update)
    show ?thesis
    proof (cases "u = t")
      case True
      then have same: "?tops[i := Some t] = ?tops"
        using Some list_update_id [of ?tops i] by simp
      show ?thesis
        using case_ok_again [OF ok [OF v] il(1)] ok [OF v] Some True il(2) by (auto simp: e same)
    next
      case False
      then show ?thesis
        using case_ok_claim [OF ok [OF v] il(1)] case_ok_release [OF ok [OF v] il(1)] case_ok_other [OF ok [OF v] il(1)]
          Some il(2) by (auto simp: e)
    qed
  qed
  moreover have "u < length ?q" if "Some u \<in> set (?tops[i := Some t])" for u
    using that set_update_subset_insert [of ?tops i "Some t"] bound t by auto
  ultimately show ?thesis
    using len by (simp add: tops_ok_def)
qed

section \<open>A whole trace\<close>

text \<open>Only the table, the reference counts and the kept traces change.\<close>

definition scored :: "AFLState \<Rightarrow> AFLState \<Rightarrow> bool" where
  "scored s s' \<longleftrightarrow> length (case_queue s') = length (case_queue s) \<and>
     s' = s\<lparr>case_queue := case_queue s', top_rated := top_rated s', score_changed := score_changed s'\<rparr> \<and>
     (\<forall>u < length (case_queue s). case_queue s' ! u =
        (case_queue s ! u)\<lparr>tc_ref := tc_ref (case_queue s' ! u), trace_mini := trace_mini (case_queue s' ! u)\<rparr>)"

lemma scored_refl: "scored s s"
  by (simp add: scored_def)

lemma scored_case_trans:
  fixes a b c :: AFLTestcase
  shows "b = a\<lparr>tc_ref := r, trace_mini := m\<rparr> \<Longrightarrow> c = b\<lparr>tc_ref := r', trace_mini := m'\<rparr> \<Longrightarrow> c = a\<lparr>tc_ref := r', trace_mini := m'\<rparr>"
  by simp

lemma scored_state_trans:
  fixes a b c :: AFLState
  shows "b = a\<lparr>case_queue := q, top_rated := tops, score_changed := x\<rparr> \<Longrightarrow>
    c = b\<lparr>case_queue := q', top_rated := tops', score_changed := x'\<rparr> \<Longrightarrow>
    c = a\<lparr>case_queue := q', top_rated := tops', score_changed := x'\<rparr>"
  by simp

lemma scored_trans:
  assumes a: "scored s s'" and b: "scored s' s''"
  shows "scored s s''"
  unfolding scored_def
proof (intro conjI allI impI)
  show "length (case_queue s'') = length (case_queue s)"
    using a b by (simp add: scored_def)
  show "s'' = s\<lparr>case_queue := case_queue s'', top_rated := top_rated s'', score_changed := score_changed s''\<rparr>"
    using a b scored_state_trans unfolding scored_def by blast
next
  fix u assume u: "u < length (case_queue s)"
  show "case_queue s'' ! u = (case_queue s ! u)\<lparr>tc_ref := tc_ref (case_queue s'' ! u), trace_mini := trace_mini (case_queue s'' ! u)\<rparr>"
    using a b u scored_case_trans unfolding scored_def by metis
qed

lemma fav_factor_score [simp]: "fav_factor (claim n trace tc) = fav_factor tc" "fav_factor (release tc) = fav_factor tc"
  by (simp_all add: fav_factor_def claim_def release_def Let_def)

lemma scored_fav:
  assumes "scored s s'" and "u < length (case_queue s)"
  shows "fav_factor (case_queue s' ! u) = fav_factor (case_queue s ! u)"
proof -
  have "case_queue s' ! u = (case_queue s ! u)\<lparr>tc_ref := tc_ref (case_queue s' ! u), trace_mini := trace_mini (case_queue s' ! u)\<rparr>"
    using assms by (simp add: scored_def)
  then have "fav_factor (case_queue s' ! u) =
      fav_factor ((case_queue s ! u)\<lparr>tc_ref := tc_ref (case_queue s' ! u), trace_mini := trace_mini (case_queue s' ! u)\<rparr>)"
    by (rule arg_cong)
  then show ?thesis by (simp add: fav_factor_def)
qed

lemma take_byte_scored:
  assumes "t < length (case_queue s)" and "\<And>u. top_rated s ! i = Some u \<Longrightarrow> u < length (case_queue s)"
  shows "scored s (take_byte W t trace i s)"
  using assms
  by (auto simp: scored_def take_byte_def win_byte_def upd_case_def nth_list_update claim_def release_def Let_def split: option.splits)

text \<open>Whether a factor beats the present winner of a byte.\<close>

definition beats :: "AFLState \<Rightarrow> nat \<Rightarrow> nat \<Rightarrow> bool" where
  "beats s fav i = (case top_rated s ! i of None \<Rightarrow> True | Some u \<Rightarrow> fav \<le> fav_factor (case_queue s ! u))"

lemma score_loop_step:
  assumes "tops_ok W s" and "i < map_size W" and "length trace = map_size W"
  shows "score_loop W t fav trace (i # is) s =
    score_loop W t fav trace is (if trace ! i \<noteq> 0 \<and> beats s fav i then take_byte W t trace i s else s)"
proof -
  have len: "i < length (top_rated s)" using assms by (simp add: tops_ok_def)
  show ?thesis
  proof (cases "top_rated s ! i")
    case None
    then show ?thesis using assms(2,3) len by (simp add: beats_def take_byte_def)
  next
    case (Some u)
    then have "u < length (case_queue s)"
      using assms(1) len nth_mem [OF len] by (simp add: tops_ok_def)
    then show ?thesis using assms(2,3) len Some by (simp add: beats_def take_byte_def)
  qed
qed

lemma score_loop_result:
  assumes n: "map_size W < 2 ^ 32" and trace: "length trace = map_size W"
  shows "tops_ok W s \<Longrightarrow> t < length (case_queue s) \<Longrightarrow> distinct is \<Longrightarrow> set is \<subseteq> {..<map_size W} \<Longrightarrow>
    \<exists>s'. score_loop W t fav trace is s = Inr s' \<and> tops_ok W s' \<and> scored s s' \<and>
      (\<forall>i < map_size W. top_rated s' ! i =
         (if i \<in> set is \<and> trace ! i \<noteq> 0 \<and> beats s fav i then Some t else top_rated s ! i)) \<and>
      (score_changed s' \<longleftrightarrow> score_changed s \<or> (\<exists>i \<in> set is. trace ! i \<noteq> 0 \<and> beats s fav i))"
proof (induction "is" arbitrary: s)
  case Nil
  then show ?case by (simp add: scored_refl)
next
  case (Cons i is')
  let ?win = "trace ! i \<noteq> 0 \<and> beats s fav i"
  let ?s = "if ?win then take_byte W t trace i s else s"
  have i: "i < map_size W" "i \<notin> set is'" and rest: "distinct is'" "set is' \<subseteq> {..<map_size W}"
    using Cons.prems by auto
  have tops: "length (top_rated s) = map_size W" and bound: "\<And>j u. j < map_size W \<Longrightarrow> top_rated s ! j = Some u \<Longrightarrow> u < length (case_queue s)"
    using Cons.prems(1) by (auto simp: tops_ok_def) (metis nth_mem)
  have sc: "scored s ?s"
    using take_byte_scored [OF Cons.prems(2), of i W trace] bound [OF i(1)] scored_refl [of s] by simp
  have ok: "tops_ok W ?s" "t < length (case_queue ?s)"
    using take_byte_ok [OF Cons.prems(1,2) i(1) n] Cons.prems(1,2) by auto
  have same: "beats ?s fav j = beats s fav j" if "j < map_size W" "j \<noteq> i" for j
    using scored_fav [OF sc] bound [OF that(1)] that(2) by (auto simp: beats_def split: option.splits)
  obtain s' where s': "score_loop W t fav trace is' ?s = Inr s'" "tops_ok W s'" "scored ?s s'"
    and top: "\<And>j. j < map_size W \<Longrightarrow> top_rated s' ! j =
      (if j \<in> set is' \<and> trace ! j \<noteq> 0 \<and> beats ?s fav j then Some t else top_rated ?s ! j)"
    and changed: "score_changed s' \<longleftrightarrow> score_changed ?s \<or> (\<exists>j \<in> set is'. trace ! j \<noteq> 0 \<and> beats ?s fav j)"
    using Cons.IH [OF ok rest] by blast
  have "top_rated s' ! j = (if j \<in> set (i # is') \<and> trace ! j \<noteq> 0 \<and> beats s fav j then Some t else top_rated s ! j)"
    if j: "j < map_size W" for j
    using top [OF j] same [OF j] i tops by (cases "j = i") auto
  moreover have "score_changed s' \<longleftrightarrow> score_changed s \<or> (\<exists>j \<in> set (i # is'). trace ! j \<noteq> 0 \<and> beats s fav j)"
  proof -
    have "(\<exists>j \<in> set is'. trace ! j \<noteq> 0 \<and> beats ?s fav j) \<longleftrightarrow> (\<exists>j \<in> set is'. trace ! j \<noteq> 0 \<and> beats s fav j)"
      using same rest(2) i(2) by (metis lessThan_iff subsetD)
    moreover have "score_changed ?s \<longleftrightarrow> score_changed s \<or> ?win"
      by (simp add: take_byte_def win_byte_def upd_case_def)
    ultimately show ?thesis unfolding changed by auto
  qed
  ultimately show ?case
    using s' scored_trans [OF sc s'(3)] score_loop_step [OF Cons.prems(1) i(1) trace, of t fav is'] by metis
qed

lemma UpdateBitmapScore_result:
  assumes "map_size W < 2 ^ 32" and "length trace = map_size W" and "tops_ok W s" and "t < length (case_queue s)"
  shows "\<exists>s'. UpdateBitmapScoreWithRawTrace W t trace s = Inr s' \<and> tops_ok W s' \<and> scored s s' \<and>
    (\<forall>i < map_size W. top_rated s' ! i =
       (if trace ! i \<noteq> 0 \<and> beats s (fav_factor (case_queue s ! t)) i then Some t else top_rated s ! i)) \<and>
    (score_changed s' \<longleftrightarrow> score_changed s \<or> (\<exists>i < map_size W. trace ! i \<noteq> 0 \<and> beats s (fav_factor (case_queue s ! t)) i))"
proof -
  have "distinct [0..<map_size W]" "set [0..<map_size W] \<subseteq> {..<map_size W}" by auto
  from score_loop_result [OF assms(1-4) this, of "fav_factor (case_queue s ! t)"] show ?thesis
    unfolding UpdateBitmapScoreWithRawTrace_def by (auto simp: Bex_def)
qed

text \<open>
  C20. A test case competes for every byte of the map that its trace hits: it takes exactly the bytes that
  have no winner yet or whose winner is not faster and shorter (the product of its time and its length is
  not smaller); all other bytes keep their winner. Afterwards every test case counts one reference for each
  byte it wins, and it keeps its trace exactly as long as it wins a byte. Nothing else changes.
\<close>

theorem UpdateBitmapScore_competition:
  assumes "map_size W < 2 ^ 32" and "length trace = map_size W" and "tops_ok W s" and "t < length (case_queue s)"
  shows "\<exists>s'. UpdateBitmapScoreWithRawTrace W t trace s = Inr s' \<and> tops_ok W s' \<and> scored s s' \<and>
    (\<forall>i < map_size W. top_rated s' ! i =
       (if trace ! i \<noteq> 0 \<and> beats s (fav_factor (case_queue s ! t)) i then Some t else top_rated s ! i))"
  using UpdateBitmapScore_result [OF assms] by blast

text \<open>A small world: a map of four bytes; the program under test hits the first byte, and the third if the test case is long.\<close>

definition demo_world :: World where
  "demo_world =
     \<lparr>map_size = 4, word_width = 4,
      run = (\<lambda>n buf tmout. \<lparr>r_reason = FAULT_NONE, r_signal = 0, r_trace = [1, 0, if 4 < length buf then 1 else 0, 0]\<rparr>),
      clock_us = (\<lambda>n. 24 * n), interrupted = (\<lambda>n. False), can_open = (\<lambda>p. True), can_mark = (\<lambda>m p v. True)\<rparr>"

definition demo_setting :: AFLSetting where
  "demo_setting = \<lparr>out_dir = ''out'', exec_timelimit_ms = 1000, dumb_mode = False, simple_files = False, ignore_finds = False\<rparr>"

definition demo_case :: "nat \<Rightarrow> u8 list \<Rightarrow> AFLTestcase" where
  "demo_case us bytes =
     (AFLTestcase_new \<lparr>in_path = ''out/queue/id:000000'', in_disk = bytes, in_buf = Some bytes, in_len = length bytes, hardlinked = False\<rparr>)
       \<lparr>exec_us := us\<rparr>"

definition demo_afl :: AFLState where
  "demo_afl = (AFLState_new demo_world demo_setting)
     \<lparr>case_queue := [demo_case 24 [1, 2, 3, 4, 5], demo_case 20 [1, 2]], queued_paths := 2, pending_not_fuzzed := 2\<rparr>"

lemmas demo_afl_simps = demo_afl_def demo_world_def demo_setting_def demo_case_def AFLState_new_def AFLTestcase_new_def

lemma owned_replicate [simp]: "owned (replicate n None) t = {}"
  by (auto simp: owned_def)

lemma tops_ok_fresh:
  assumes "top_rated s = replicate (map_size W) None" and "\<forall>tc \<in> set (case_queue s). tc_ref tc = 0 \<and> trace_mini tc = None"
  shows "tops_ok W s"
  using assms nth_mem by (fastforce simp: tops_ok_def case_ok_def)

lemma demo_afl_tops: "tops_ok demo_world demo_afl"
  by (rule tops_ok_fresh) (simp_all add: demo_afl_simps)

theorem UpdateBitmapScore_competition_witness:
  "\<exists>s'. UpdateBitmapScoreWithRawTrace demo_world 1 [1, 0, 8, 0] demo_afl = Inr s' \<and> top_rated s' = [Some 1, None, Some 1, None]"
proof -
  obtain s' where s': "UpdateBitmapScoreWithRawTrace demo_world 1 [1, 0, 8, 0] demo_afl = Inr s'" "tops_ok demo_world s'"
    and top: "\<forall>i < map_size demo_world. top_rated s' ! i =
      (if [1, 0, 8, 0] ! i \<noteq> (0 :: u8) \<and> beats demo_afl (fav_factor (case_queue demo_afl ! 1)) i then Some 1 else top_rated demo_afl ! i)"
    using UpdateBitmapScore_competition [OF _ _ demo_afl_tops, of "[1, 0, 8, 0]" 1] by (auto simp: demo_afl_simps)
  have "length (top_rated s') = 4"
    using s'(2) by (simp add: tops_ok_def demo_world_def)
  then have "top_rated s' = map ((!) (top_rated s')) [0, 1, 2, 3]"
    using map_nth [of "top_rated s'"] by (simp add: numeral_eq_Suc)
  moreover have "map ((!) (top_rated s')) [0, 1, 2, 3] = [Some 1, None, Some 1, None]"
    using top by (simp add: demo_afl_simps beats_def)
  ultimately show ?thesis using s'(1) by simp
qed

section \<open>A test case that has just been found\<close>

lemma AddToQueue_ok:
  assumes "can_open W fn"
  shows "\<exists>tc s'. AddToQueue W fn disk (Some buf) pd s = Inr (length (case_queue s), s') \<and>
    case_queue s' = case_queue s @ [tc] \<and> tc_ref tc = 0 \<and> trace_mini tc = None \<and> fuzz_level tc = 0 \<and>
    in_disk (input tc) = buf \<and> in_len (input tc) = 0 \<and> top_rated s' = top_rated s"
  using assms
  by (simp add: AddToQueue_def OverwriteThenUnload_def open_input_def CreateOnDisk_def AFLTestcase_new_def Let_def)

lemma tops_ok_append:
  assumes "tops_ok W s" and "case_queue s' = case_queue s @ [tc]" and "tc_ref tc = 0" and "trace_mini tc = None"
    and "top_rated s' = top_rated s"
  shows "tops_ok W s'"
proof -
  have "top_rated s ! i \<noteq> Some (length (case_queue s))" if "i < length (top_rated s)" for i
    using assms(1) nth_mem [OF that] unfolding tops_ok_def by (metis less_irrefl)
  then have "owned (top_rated s) (length (case_queue s)) = {}"
    by (auto simp: owned_def)
  then show ?thesis
    using assms by (auto simp: tops_ok_def case_ok_def nth_append less_Suc_eq)
qed

lemma AddToQueue_eq:
  assumes "AddToQueue W fn disk (Some buf) pd s = Inr (t, s1)"
  shows "can_open W fn" and "t = length (case_queue s)"
proof -
  show "can_open W fn"
  proof (rule ccontr)
    assume "\<not> can_open W fn"
    then have "AddToQueue W fn disk (Some buf) pd s = Inl (FileError fn)"
      by (simp add: AddToQueue_def OverwriteThenUnload_def open_input_def CreateOnDisk_def)
    with assms show False by simp
  qed
  then show "t = length (case_queue s)"
    using AddToQueue_ok [of W fn disk buf pd s] assms by auto
qed

text \<open>
  C21. \<open>AddToQueue\<close> writes a new test case to its file without loading it, so that its length counts as 0
  until it is chosen for fuzzing. The product of time and length that \<open>UpdateBitmapScore\<close> compares is therefore
  0: whatever its run time is and however long it is, a test case that has just been found takes every byte
  that its trace hits from the test case that has won it before.
\<close>

theorem new_case_wins_every_byte:
  assumes "map_size W < 2 ^ 32" and "length trace = map_size W" and "tops_ok W s"
    and "AddToQueue W fn disk (Some buf) pd s = Inr (t, s1)"
  shows "\<exists>s2. UpdateBitmapScoreWithRawTrace W t trace (upd_case t (\<lambda>tc. tc\<lparr>exec_us := us\<rparr>) s1) = Inr s2 \<and>
    (\<forall>i < map_size W. trace ! i \<noteq> 0 \<longrightarrow> top_rated s2 ! i = Some t)"
proof -
  obtain tc s' where add: "AddToQueue W fn disk (Some buf) pd s = Inr (length (case_queue s), s')"
    and s': "case_queue s' = case_queue s @ [tc]" "tc_ref tc = 0" "trace_mini tc = None" "in_len (input tc) = 0"
      "top_rated s' = top_rated s"
    using AddToQueue_ok [OF AddToQueue_eq(1) [OF assms(4)]] by blast
  then have t: "t = length (case_queue s)" "s1 = s'"
    using assms(4) by auto
  let ?s = "upd_case t (\<lambda>tc. tc\<lparr>exec_us := us\<rparr>) s1"
  have q: "case_queue ?s = case_queue s @ [tc\<lparr>exec_us := us\<rparr>]" "top_rated ?s = top_rated s"
    using s' t by (simp_all add: upd_case_def)
  have "tops_ok W ?s"
    by (rule tops_ok_append [OF assms(3) q(1) _ _ q(2)]) (simp_all add: s')
  moreover have "fav_factor (case_queue ?s ! t) = 0"
    using q t s'(4) by (simp add: fav_factor_def GetLen_def u64_def)
  moreover have "beats ?s 0 i" for i
    by (simp add: beats_def split: option.splits)
  ultimately show ?thesis
    using UpdateBitmapScore_result [OF assms(1,2), of ?s t] q t by auto
qed

theorem new_case_wins_every_byte_witness:
  "\<exists>s1 s2. AddToQueue demo_world ''out/queue/id:000002'' [] (Some (replicate 1000 7)) False demo_afl = Inr (2, s1) \<and>
     UpdateBitmapScoreWithRawTrace demo_world 2 [1, 0, 0, 0] (upd_case 2 (\<lambda>tc. tc\<lparr>exec_us := 5000\<rparr>) s1) = Inr s2 \<and>
     top_rated s2 ! 0 = Some 2"
proof -
  have "can_open demo_world ''out/queue/id:000002''" "length (case_queue demo_afl) = 2"
    by (simp_all add: demo_afl_simps)
  then obtain s1 where s1: "AddToQueue demo_world ''out/queue/id:000002'' [] (Some (replicate 1000 7)) False demo_afl = Inr (2, s1)"
    using AddToQueue_ok by metis
  show ?thesis
    using new_case_wins_every_byte [OF _ _ demo_afl_tops s1, of "[1, 0, 0, 0]" 5000] s1 by (auto simp: demo_world_def)
qed

end
