(* ===== verification/AFL_Cull.thy ===== *)
theory AFL_Cull
  imports AFL_Favored
begin

text \<open>
  \<open>CullQueue\<close>: the test cases it marks as favoured cover every byte of the map that has a winner.
\<close>

section \<open>Covered bytes\<close>

text \<open>A byte is covered by a favoured test case that wins it or whose kept trace hits it.\<close>

definition covers :: "AFLState \<Rightarrow> nat \<Rightarrow> nat \<Rightarrow> bool" where
  "covers s i t \<longleftrightarrow> t < length (case_queue s) \<and> favored (case_queue s ! t) \<and>
     (top_rated s ! i = Some t \<or> (\<exists>b. trace_mini (case_queue s ! t) = Some b \<and> b ! i))"

definition covered :: "AFLState \<Rightarrow> nat \<Rightarrow> bool" where
  "covered s i \<longleftrightarrow> (\<exists>t. covers s i t)"

text \<open>The kept trace of every winner hits the bytes it wins; a test case with variable behaviour may violate this.\<close>

definition traces_agree :: "AFLState \<Rightarrow> bool" where
  "traces_agree s \<longleftrightarrow> (\<forall>i < length (top_rated s). \<forall>t b. top_rated s ! i = Some t \<longrightarrow>
     trace_mini (case_queue s ! t) = Some b \<longrightarrow> b ! i)"

definition num_favored :: "AFLState \<Rightarrow> nat" where
  "num_favored s = length (filter favored (case_queue s))"

definition num_pending :: "AFLState \<Rightarrow> nat" where
  "num_pending s = length (filter (\<lambda>tc. favored tc \<and> \<not> WasFuzzed tc) (case_queue s))"

text \<open>The selection changes the flags \<open>favored\<close> and the two counters only.\<close>

definition flagged :: "AFLState \<Rightarrow> AFLState \<Rightarrow> bool" where
  "flagged s s' \<longleftrightarrow> length (case_queue s') = length (case_queue s) \<and>
     s' = s\<lparr>case_queue := case_queue s', queued_favored := queued_favored s', pending_favored := pending_favored s'\<rparr> \<and>
     (\<forall>u < length (case_queue s). (favored (case_queue s ! u) \<longrightarrow> favored (case_queue s' ! u)) \<and>
        case_queue s' ! u = (case_queue s ! u)\<lparr>favored := favored (case_queue s' ! u)\<rparr>)"

lemma flagged_refl: "flagged s s"
  by (simp add: flagged_def)

lemma flagged_state_trans:
  fixes a b c :: AFLState
  shows "b = a\<lparr>case_queue := q, queued_favored := x, pending_favored := y\<rparr> \<Longrightarrow>
    c = b\<lparr>case_queue := q', queued_favored := x', pending_favored := y'\<rparr> \<Longrightarrow>
    c = a\<lparr>case_queue := q', queued_favored := x', pending_favored := y'\<rparr>"
  by simp

lemma flagged_case_trans:
  fixes a b c :: AFLTestcase
  shows "b = a\<lparr>favored := x\<rparr> \<Longrightarrow> c = b\<lparr>favored := x'\<rparr> \<Longrightarrow> c = a\<lparr>favored := x'\<rparr>"
  by simp

lemma flagged_trans:
  assumes a: "flagged s s'" and b: "flagged s' s''"
  shows "flagged s s''"
  unfolding flagged_def
proof (intro conjI allI impI)
  show "length (case_queue s'') = length (case_queue s)"
    using a b by (simp add: flagged_def)
  show "s'' = s\<lparr>case_queue := case_queue s'', queued_favored := queued_favored s'', pending_favored := pending_favored s''\<rparr>"
    using a b flagged_state_trans unfolding flagged_def by blast
next
  fix u assume u: "u < length (case_queue s)"
  show "favored (case_queue s'' ! u)" if "favored (case_queue s ! u)"
    using a b u that by (simp add: flagged_def)
  show "case_queue s'' ! u = (case_queue s ! u)\<lparr>favored := favored (case_queue s'' ! u)\<rparr>"
    using a b u flagged_case_trans unfolding flagged_def by metis
qed

lemma flagged_fields:
  assumes "flagged s s'" and "u < length (case_queue s)"
  shows "trace_mini (case_queue s' ! u) = trace_mini (case_queue s ! u)"
    and "tc_ref (case_queue s' ! u) = tc_ref (case_queue s ! u)"
    and "fuzz_level (case_queue s' ! u) = fuzz_level (case_queue s ! u)"
proof -
  have "case_queue s' ! u = (case_queue s ! u)\<lparr>favored := favored (case_queue s' ! u)\<rparr>"
    using assms by (simp add: flagged_def)
  then obtain x where "case_queue s' ! u = (case_queue s ! u)\<lparr>favored := x\<rparr>" by blast
  then show "trace_mini (case_queue s' ! u) = trace_mini (case_queue s ! u)"
    and "tc_ref (case_queue s' ! u) = tc_ref (case_queue s ! u)"
    and "fuzz_level (case_queue s' ! u) = fuzz_level (case_queue s ! u)" by simp_all
qed

lemma flagged_frame:
  assumes "flagged s s'"
  shows "top_rated s' = top_rated s" and "score_changed s' = score_changed s"
proof -
  obtain q x y where "s' = s\<lparr>case_queue := q, queued_favored := x, pending_favored := y\<rparr>"
    using assms unfolding flagged_def by blast
  then show "top_rated s' = top_rated s" and "score_changed s' = score_changed s" by simp_all
qed

lemma flagged_covers: "flagged s s' \<Longrightarrow> covers s i t \<Longrightarrow> covers s' i t"
  using flagged_fields(1) [of s s' t] flagged_frame [of s s'] by (auto simp: covers_def flagged_def)

lemma flagged_covered: "flagged s s' \<Longrightarrow> covered s i \<Longrightarrow> covered s' i"
  using flagged_covers unfolding covered_def by blast

lemma case_ok_cong:
  "tc_ref c = tc_ref c' \<Longrightarrow> trace_mini c = trace_mini c' \<Longrightarrow> case_ok n tops t c = case_ok n tops t c'"
  by (simp add: case_ok_def split: option.split)

lemma flagged_agree:
  assumes "flagged s s'" and "tops_ok W s"
  shows "tops_ok W s'" and "traces_agree s' \<longleftrightarrow> traces_agree s"
proof -
  have len: "length (case_queue s') = length (case_queue s)" using assms(1) by (simp add: flagged_def)
  have "case_ok n tops u (case_queue s' ! u) = case_ok n tops u (case_queue s ! u)" if "u < length (case_queue s)" for n tops u
    using flagged_fields [OF assms(1) that] by (intro case_ok_cong) simp_all
  then show "tops_ok W s'"
    using assms(2) len by (simp add: tops_ok_def flagged_frame [OF assms(1)])
  have "t < length (case_queue s)" if "i < length (top_rated s)" "top_rated s ! i = Some t" for i t
    using assms(2) that nth_mem [of i "top_rated s"] by (simp add: tops_ok_def)
  then show "traces_agree s' \<longleftrightarrow> traces_agree s"
    using flagged_fields(1) [OF assms(1)] by (auto simp: traces_agree_def flagged_frame [OF assms(1)])
qed

section \<open>The selection\<close>

lemma length_filter_update:
  assumes "i < length xs"
  shows "length (filter P (xs[i := x])) + of_bool (P (xs ! i)) = length (filter P xs) + of_bool (P x)"
  using assms
proof (induction xs arbitrary: i)
  case (Cons y ys)
  then show ?case by (cases i) auto
qed simp

text \<open>One favoured test case is added.\<close>

definition favor :: "nat \<Rightarrow> AFLState \<Rightarrow> AFLState" where
  "favor t s = (upd_case t (\<lambda>tc. tc\<lparr>favored := True\<rparr>) s)
     \<lparr>queued_favored := u32 (queued_favored s + 1),
      pending_favored := (if WasFuzzed (case_queue s ! t) then pending_favored s else u32 (pending_favored s + 1))\<rparr>"

lemma favor_queue [simp]: "case_queue (favor t s) = (case_queue s)[t := (case_queue s ! t)\<lparr>favored := True\<rparr>]"
  by (simp add: favor_def upd_case_def)

lemma favor_flagged: "t < length (case_queue s) \<Longrightarrow> flagged s (favor t s)"
  by (auto simp: flagged_def favor_def upd_case_def nth_list_update)

lemma u32_Suc: "u32 (u32 n + 1) = u32 (n + 1)"
  by (simp add: u32_def mod_Suc_eq)

lemma favor_counts:
  assumes "t < length (case_queue s)" and "\<not> favored (case_queue s ! t)"
    and "queued_favored s = u32 (num_favored s)" and "pending_favored s = u32 (num_pending s)"
  shows "queued_favored (favor t s) = u32 (num_favored (favor t s))" and "pending_favored (favor t s) = u32 (num_pending (favor t s))"
proof -
  have "num_favored (favor t s) = num_favored s + 1"
    using assms(1,2) length_filter_update [OF assms(1), of favored "(case_queue s ! t)\<lparr>favored := True\<rparr>"]
    by (simp add: num_favored_def)
  moreover have "num_pending (favor t s) = num_pending s + of_bool (\<not> WasFuzzed (case_queue s ! t))"
    using assms(1,2) length_filter_update [OF assms(1), of "\<lambda>tc. favored tc \<and> \<not> WasFuzzed tc" "(case_queue s ! t)\<lparr>favored := True\<rparr>"]
    by (simp add: num_pending_def WasFuzzed_def)
  ultimately show "queued_favored (favor t s) = u32 (num_favored (favor t s))" and "pending_favored (favor t s) = u32 (num_pending (favor t s))"
    using assms(3,4) u32_Suc by (simp_all add: favor_def)
qed

text \<open>What the bits collected so far mean.\<close>

definition collected :: "World \<Rightarrow> bool list \<Rightarrow> AFLState \<Rightarrow> bool" where
  "collected W has s \<longleftrightarrow> length has = map_size W \<and> (\<forall>i < map_size W. has ! i \<longrightarrow> covered s i) \<and>
     (\<forall>t < length (case_queue s). favored (case_queue s ! t) \<longrightarrow> Some t \<in> set (top_rated s) \<and>
        (\<forall>b. trace_mini (case_queue s ! t) = Some b \<longrightarrow> (\<forall>i < map_size W. b ! i \<longrightarrow> has ! i)))"

definition counted :: "AFLState \<Rightarrow> bool" where
  "counted s \<longleftrightarrow> queued_favored s = u32 (num_favored s) \<and> pending_favored s = u32 (num_pending s)"

lemma favor_collected:
  assumes col: "collected W has s" and t: "t < length (case_queue s)" and i: "i < map_size W" "top_rated s ! i = Some t"
    and len: "length (top_rated s) = map_size W" and b: "trace_mini (case_queue s ! t) = Some b" "length b = map_size W"
  shows "collected W (map2 (\<or>) has b) (favor t s)"
proof -
  have has: "length has = map_size W" using col by (simp add: collected_def)
  note fl = favor_flagged [OF t]
  have cov: "covered (favor t s) j" if j: "j < map_size W" "map2 (\<or>) has b ! j" for j
  proof (cases "has ! j")
    case True
    then show ?thesis using col j(1) flagged_covered [OF fl] by (simp add: collected_def)
  next
    case False
    then have "b ! j" using j b(2) has by simp
    then have "covers (favor t s) j t" using t b(1) by (simp add: covers_def)
    then show ?thesis unfolding covered_def by blast
  qed
  have mem: "Some t \<in> set (top_rated s)"
    using i len by (metis nth_mem)
  have "Some u \<in> set (top_rated s) \<and> (\<forall>b'. trace_mini (case_queue (favor t s) ! u) = Some b' \<longrightarrow> (\<forall>j < map_size W. b' ! j \<longrightarrow> map2 (\<or>) has b ! j))"
    if u: "u < length (case_queue s)" "favored (case_queue (favor t s) ! u)" for u
    using col u mem b has by (cases "u = t") (auto simp: collected_def)
  then show ?thesis
    using has b(2) cov by (simp add: collected_def flagged_frame(1) [OF fl])
qed

lemma cull_loop_step:
  assumes inv: "tops_ok W s" and i: "i < map_size W" and has: "length has = map_size W"
  shows "cull_loop (i # is) has s = cull_loop is has s \<and> (top_rated s ! i = None \<or> has ! i) \<or>
    (\<exists>t b. cull_loop (i # is) has s = cull_loop is (map2 (\<or>) has b) (favor t s) \<and> \<not> has ! i \<and> top_rated s ! i = Some t \<and>
       t < length (case_queue s) \<and> trace_mini (case_queue s ! t) = Some b \<and> length b = map_size W)"
proof (cases "top_rated s ! i")
  case None
  then show ?thesis using inv i by (simp add: tops_ok_def)
next
  case (Some t)
  have len: "i < length (top_rated s)" using inv i by (simp add: tops_ok_def)
  then have t: "t < length (case_queue s)" and ok: "case_ok (map_size W) (top_rated s) t (case_queue s ! t)"
    using inv Some nth_mem [OF len] by (simp_all add: tops_ok_def)
  have "i \<in> owned (top_rated s) t" using Some len by (simp add: owned_def)
  then have "tc_ref (case_queue s ! t) \<noteq> 0"
    using ok by (auto simp: case_ok_def)
  then obtain b where "trace_mini (case_queue s ! t) = Some b" "length b = map_size W"
    using ok by (auto simp: case_ok_def split: option.splits)
  then show ?thesis
    using Some t len by (auto simp: favor_def upd_case_def Let_def)
qed

lemma cull_loop_result:
  assumes n: "map_size W < 2 ^ 32"
  shows "tops_ok W s \<Longrightarrow> collected W has s \<Longrightarrow> set is \<subseteq> {..<map_size W} \<Longrightarrow>
    \<exists>s' has'. cull_loop is has s = Inr s' \<and> flagged s s' \<and> collected W has' s' \<and>
      (\<forall>i \<in> set is. top_rated s ! i \<noteq> None \<longrightarrow> covered s' i) \<and> (traces_agree s \<longrightarrow> counted s \<longrightarrow> counted s')"
proof (induction "is" arbitrary: s has)
  case Nil
  then show ?case using flagged_refl by auto
next
  case (Cons i is')
  have i: "i < map_size W" and rest: "set is' \<subseteq> {..<map_size W}" using Cons.prems by auto
  have has: "length has = map_size W" using Cons.prems(2) by (simp add: collected_def)
  consider (skip) "cull_loop (i # is') has s = cull_loop is' has s" "top_rated s ! i = None \<or> has ! i"
    | (pick) t b where "cull_loop (i # is') has s = cull_loop is' (map2 (\<or>) has b) (favor t s)" "\<not> has ! i" "top_rated s ! i = Some t"
        "t < length (case_queue s)" "trace_mini (case_queue s ! t) = Some b" "length b = map_size W"
    using cull_loop_step [OF Cons.prems(1) i has, of is'] by blast
  then show ?case
  proof cases
    case skip
    obtain s' has' where s': "cull_loop is' has s = Inr s'" "flagged s s'" "collected W has' s'"
      "\<forall>j \<in> set is'. top_rated s ! j \<noteq> None \<longrightarrow> covered s' j" "traces_agree s \<longrightarrow> counted s \<longrightarrow> counted s'"
      using Cons.IH [OF Cons.prems(1,2) rest] by blast
    have "covered s' i" if "top_rated s ! i \<noteq> None"
      using skip(2) that Cons.prems(2) i flagged_covered [OF s'(2)] by (auto simp: collected_def)
    then show ?thesis using s' skip(1) by auto
  next
    case pick
    let ?s = "favor t s"
    note fl = favor_flagged [OF pick(4)]
    have len: "length (top_rated s) = map_size W" using Cons.prems(1) by (simp add: tops_ok_def)
    obtain s' has' where s': "cull_loop is' (map2 (\<or>) has b) ?s = Inr s'" "flagged ?s s'" "collected W has' s'"
      and cov: "\<forall>j \<in> set is'. top_rated ?s ! j \<noteq> None \<longrightarrow> covered s' j"
      and cnt: "traces_agree ?s \<longrightarrow> counted ?s \<longrightarrow> counted s'"
      using Cons.IH [OF flagged_agree(1) [OF fl Cons.prems(1)] favor_collected [OF Cons.prems(2) pick(4) i pick(3) len pick(5,6)] rest]
      by blast
    have "covers ?s i t"
      using pick(3,4) by (simp add: covers_def flagged_frame [OF fl])
    then have "covered s' i"
      using flagged_covers [OF s'(2)] unfolding covered_def by blast
    moreover have "counted ?s" if "traces_agree s" "counted s"
    proof -
      have "b ! i"
        using that(1) i len pick(3,5) by (simp add: traces_agree_def)
      then have "\<not> favored (case_queue s ! t)"
        using Cons.prems(2) i pick(2,4,5) by (auto simp: collected_def)
      then show ?thesis
        using favor_counts [OF pick(4)] that(2) by (simp add: counted_def)
    qed
    ultimately show ?thesis
      using s' cov cnt pick(1) flagged_trans [OF fl s'(2)] flagged_agree(2) [OF fl Cons.prems(1)] flagged_frame(1) [OF fl]
      by auto
  qed
qed

section \<open>Redundancy markers\<close>

lemma redundant_loop_result:
  assumes "\<And>m p v. can_mark W m p v"
  shows "set ts \<subseteq> {..<length (case_queue s)} \<Longrightarrow> distinct ts \<Longrightarrow>
    \<exists>q. redundant_loop W ts s = Inr (s\<lparr>case_queue := q\<rparr>) \<and> length q = length (case_queue s) \<and>
      (\<forall>u < length q. q ! u = (if u \<in> set ts then (case_queue s ! u)\<lparr>fs_redundant := \<not> favored (case_queue s ! u)\<rparr> else case_queue s ! u))"
proof (induction ts arbitrary: s)
  case Nil
  show ?case by (intro exI [of _ "case_queue s"]) simp
next
  case (Cons t ts)
  let ?tc = "case_queue s ! t"
  let ?s = "s\<lparr>case_queue := (case_queue s)[t := ?tc\<lparr>fs_redundant := \<not> favored ?tc\<rparr>]\<rparr>"
  have t: "t < length (case_queue s)" "t \<notin> set ts" using Cons.prems by auto
  have "MarkAsRedundant W t (\<not> favored ?tc) s = Inr ?s"
  proof (cases "(\<not> favored ?tc) = fs_redundant ?tc")
    case True
    then have "?tc\<lparr>fs_redundant := \<not> favored ?tc\<rparr> = ?tc" by simp
    then have "(case_queue s)[t := ?tc\<lparr>fs_redundant := \<not> favored ?tc\<rparr>] = case_queue s"
      by (metis list_update_id)
    then show ?thesis using True by (simp add: MarkAsRedundant_def)
  next
    case False
    then show ?thesis using assms by (simp add: MarkAsRedundant_def write_marker_def upd_case_def Let_def)
  qed
  then have step: "redundant_loop W (t # ts) s = redundant_loop W ts ?s" by simp
  obtain q where q: "redundant_loop W ts ?s = Inr (?s\<lparr>case_queue := q\<rparr>)" "length q = length (case_queue s)"
    and nth: "\<And>u. u < length q \<Longrightarrow> q ! u = (if u \<in> set ts then (case_queue ?s ! u)\<lparr>fs_redundant := \<not> favored (case_queue ?s ! u)\<rparr> else case_queue ?s ! u)"
    using Cons.IH [of ?s] Cons.prems by auto
  have "q ! u = (if u \<in> set (t # ts) then (case_queue s ! u)\<lparr>fs_redundant := \<not> favored (case_queue s ! u)\<rparr> else case_queue s ! u)"
    if "u < length q" for u
    using nth [OF that] t q(2) that by (cases "u = t") auto
  then show ?case using step q by auto
qed

section \<open>The routine\<close>

lemma CullQueue_result:
  assumes n: "map_size W < 2 ^ 32" and inv: "tops_ok W s" and mark: "\<And>m p v. can_mark W m p v"
    and act: "\<not> dumb_mode (setting s)" "score_changed s"
  shows "\<exists>s1. flagged (s\<lparr>score_changed := False, queued_favored := 0, pending_favored := 0,
        case_queue := map (\<lambda>tc. tc\<lparr>favored := False\<rparr>) (case_queue s)\<rparr>) s1 \<and>
    CullQueue W s = Inr (s1\<lparr>case_queue := map (\<lambda>tc. tc\<lparr>fs_redundant := \<not> favored tc\<rparr>) (case_queue s1)\<rparr>) \<and>
    (\<forall>i < map_size W. top_rated s ! i \<noteq> None \<longrightarrow> covered s1 i) \<and>
    (\<forall>t < length (case_queue s1). favored (case_queue s1 ! t) \<longrightarrow> Some t \<in> set (top_rated s)) \<and>
    (traces_agree s \<longrightarrow> counted s1) \<and> tops_ok W s1"
proof -
  let ?q = "map (\<lambda>tc. tc\<lparr>favored := False\<rparr>) (case_queue s)"
  let ?s = "s\<lparr>score_changed := False, queued_favored := 0, pending_favored := 0, case_queue := ?q\<rparr>"
  have unfav: "\<not> favored (case_queue ?s ! t)" if "t < length (case_queue s)" for t
    using that by simp
  have "case_ok k tops t (?q ! t) = case_ok k tops t (case_queue s ! t)" if "t < length (case_queue s)" for k tops t
    using that by (intro case_ok_cong) simp_all
  then have ok: "tops_ok W ?s" using inv by (simp add: tops_ok_def)
  have agree: "traces_agree s \<longrightarrow> traces_agree ?s"
  proof (rule impI)
    assume ag: "traces_agree s"
    have "t < length (case_queue s)" if "i < length (top_rated s)" "top_rated s ! i = Some t" for i t
      using inv that nth_mem [of i "top_rated s"] by (simp add: tops_ok_def)
    with ag show "traces_agree ?s"
      by (simp add: traces_agree_def)
  qed
  have "filter P ?q = []" if "\<And>tc. \<not> favored tc \<Longrightarrow> \<not> P tc" for P
    using that by (simp add: filter_empty_conv)
  then have "num_favored ?s = 0" "num_pending ?s = 0"
    by (simp_all add: num_favored_def num_pending_def)
  then have cnt: "counted ?s" by (simp add: counted_def)
  have col: "collected W (replicate (map_size W) False) ?s"
    using unfav by (simp add: collected_def)
  have sub: "set [0..<map_size W] \<subseteq> {..<map_size W}" by auto
  obtain s1 has where s1: "cull_loop [0..<map_size W] (replicate (map_size W) False) ?s = Inr s1" "flagged ?s s1" "collected W has s1"
    "\<forall>i \<in> set [0..<map_size W]. top_rated ?s ! i \<noteq> None \<longrightarrow> covered s1 i" "traces_agree ?s \<longrightarrow> counted ?s \<longrightarrow> counted s1"
    using cull_loop_result [OF n ok col sub] by (elim exE conjE) (rule that)
  have sub': "set [0..<length (case_queue s1)] \<subseteq> {..<length (case_queue s1)}" by auto
  obtain q where q: "redundant_loop W [0..<length (case_queue s1)] s1 = Inr (s1\<lparr>case_queue := q\<rparr>)" "length q = length (case_queue s1)"
    "\<And>u. u < length q \<Longrightarrow> q ! u = (case_queue s1 ! u)\<lparr>fs_redundant := \<not> favored (case_queue s1 ! u)\<rparr>"
    using redundant_loop_result [OF mark sub' distinct_upt] by auto
  then have "q = map (\<lambda>tc. tc\<lparr>fs_redundant := \<not> favored tc\<rparr>) (case_queue s1)"
    by (intro nth_equalityI) simp_all
  moreover have "CullQueue W s = redundant_loop W [0..<length (case_queue s1)] s1"
    using act s1(1) by (simp add: CullQueue_def)
  moreover have "top_rated s1 = top_rated s"
    using flagged_frame(1) [OF s1(2)] by simp
  ultimately show ?thesis
    using s1 q(1) agree cnt flagged_agree(1) [OF s1(2) ok] by (auto simp: collected_def)
qed

text \<open>
  C9. \<open>CullQueue\<close> never follows a missing trace, and the test cases it marks as favoured are winners of some
  byte and together cover the map: every byte that any test case has won is won by a favoured test case or
  hit by the kept trace of one. A test case is marked redundant on disk exactly if it is not favoured. If the
  kept trace of every winner hits the bytes it wins, the two counters are the numbers of favoured test cases
  and of those among them that have not been fuzzed.
\<close>

theorem CullQueue_covers:
  assumes "map_size W < 2 ^ 32" and "tops_ok W s" and "\<And>m p v. can_mark W m p v"
    and "\<not> dumb_mode (setting s)" and "score_changed s"
  shows "\<exists>s'. CullQueue W s = Inr s' \<and> tops_ok W s' \<and> \<not> score_changed s' \<and>
    (\<forall>i < map_size W. top_rated s ! i \<noteq> None \<longrightarrow> covered s' i) \<and>
    (\<forall>t < length (case_queue s'). (favored (case_queue s' ! t) \<longrightarrow> Some t \<in> set (top_rated s)) \<and>
       fs_redundant (case_queue s' ! t) = (\<not> favored (case_queue s' ! t))) \<and>
    (traces_agree s \<longrightarrow> queued_favored s' = u32 (num_favored s') \<and> pending_favored s' = u32 (num_pending s'))"
proof -
  let ?mark = "\<lambda>tc. tc\<lparr>fs_redundant := \<not> favored tc\<rparr>"
  obtain s1 where fl: "flagged (s\<lparr>score_changed := False, queued_favored := 0, pending_favored := 0,
        case_queue := map (\<lambda>tc. tc\<lparr>favored := False\<rparr>) (case_queue s)\<rparr>) s1"
    and s1: "CullQueue W s = Inr (s1\<lparr>case_queue := map ?mark (case_queue s1)\<rparr>)"
    and cov: "\<forall>i < map_size W. top_rated s ! i \<noteq> None \<longrightarrow> covered s1 i"
    and fav: "\<forall>t < length (case_queue s1). favored (case_queue s1 ! t) \<longrightarrow> Some t \<in> set (top_rated s)"
    and cnt: "traces_agree s \<longrightarrow> counted s1" and ok: "tops_ok W s1"
    using CullQueue_result [OF assms] by (elim exE conjE) (rule that)
  let ?s = "s1\<lparr>case_queue := map ?mark (case_queue s1)\<rparr>"
  have "covers ?s i t" if "covers s1 i t" for i t
    using that by (simp add: covers_def)
  then have "covered ?s i" if "covered s1 i" for i
    using that unfolding covered_def by blast
  moreover have "num_favored ?s = num_favored s1" "num_pending ?s = num_pending s1"
    by (simp_all add: num_favored_def num_pending_def WasFuzzed_def filter_map o_def)
  moreover have "case_ok k tops t (?mark tc) = case_ok k tops t tc" for k tops t tc
    by (rule case_ok_cong) simp_all
  then have "tops_ok W ?s"
    using ok by (simp add: tops_ok_def)
  moreover have "\<not> score_changed ?s"
    using flagged_frame(2) [OF fl] by simp
  ultimately show ?thesis
    using s1 cov fav cnt by (intro exI [of _ ?s]) (simp add: counted_def)
qed

lemma owned_filter: "owned tops t = set (filter (\<lambda>i. tops ! i = Some t) [0..<length tops])"
  by (auto simp: owned_def)

text \<open>Two test cases win a byte each, and the trace of the first hits both bytes.\<close>

definition demo_tops :: AFLState where
  "demo_tops = demo_afl
     \<lparr>case_queue := [(demo_case 24 [1, 2, 3, 4, 5])\<lparr>tc_ref := 1, trace_mini := Some [True, False, True, False]\<rparr>,
                      (demo_case 20 [1, 2])\<lparr>tc_ref := 1, trace_mini := Some [True, False, True, False]\<rparr>],
      top_rated := [Some 0, None, Some 1, None], score_changed := True\<rparr>"

lemma demo_tops_ok: "tops_ok demo_world demo_tops"
  by (simp add: demo_tops_def tops_ok_def demo_afl_simps case_ok_def owned_filter less_Suc_eq numeral_eq_Suc upt_rec)

theorem CullQueue_covers_witness:
  "\<exists>s'. CullQueue demo_world demo_tops = Inr s' \<and> covered s' 2 \<and> \<not> score_changed s'"
proof -
  have "map_size demo_world < 2 ^ 32" "\<And>m p v. can_mark demo_world m p v" "\<not> dumb_mode (setting demo_tops)" "score_changed demo_tops"
    "top_rated demo_tops ! 2 \<noteq> None" "2 < map_size demo_world"
    by (simp_all add: demo_tops_def demo_afl_simps)
  then show ?thesis
    using CullQueue_covers [OF _ demo_tops_ok] by blast
qed

text \<open>
  Without agreement of the traces the counters are too large: a test case that wins two bytes, of which its
  kept trace hits one, is counted twice.
\<close>

definition demo_variable :: AFLState where
  "demo_variable = demo_afl
     \<lparr>case_queue := [(demo_case 24 [1, 2, 3, 4, 5])\<lparr>tc_ref := 2, trace_mini := Some [True, False, False, False]\<rparr>],
      top_rated := [Some 0, None, Some 0, None], score_changed := True\<rparr>"

lemma cull_counts_twice:
  "\<exists>s'. CullQueue demo_world demo_variable = Inr s' \<and> queued_favored s' = 2 \<and> num_favored s' = 1"
  by (simp add: CullQueue_def demo_variable_def demo_afl_simps upd_case_def Let_def WasFuzzed_def MarkAsRedundant_def
      write_marker_def num_favored_def upt_rec)

end
