(* ===== verification/AFL_Invariant.thy ===== *)
theory AFL_Invariant
  imports AFL_Cull
begin

text \<open>
  The invariant of the AFL state and its preservation by running, calibrating and keeping test cases. Most
  operations leave the part of the state alone that the invariant speaks about, its view.
\<close>

section \<open>The invariant\<close>

text \<open>The documented behaviour of the executor: it delivers a map of the agreed size, and the target can be run.\<close>

definition world_ok :: "World \<Rightarrow> bool" where
  "world_ok W \<longleftrightarrow> 0 < map_size W \<and> map_size W < 2 ^ 32 \<and> (word_width W = 4 \<or> word_width W = 8) \<and> word_width W dvd map_size W \<and>
     (\<forall>n buf tmout. length (r_trace (run W n buf tmout)) = map_size W \<and> r_reason (run W n buf tmout) \<noteq> FAULT_ERROR) \<and>
     (\<forall>p. can_open W p) \<and> (\<forall>m p v. can_mark W m p v)"

definition counts_ok :: "AFLState \<Rightarrow> bool" where
  "counts_ok s \<longleftrightarrow> queued_paths s = u32 (length (case_queue s)) \<and>
     pending_not_fuzzed s = u32 (length (filter (\<lambda>tc. fuzz_level tc = 0) (case_queue s)))"

definition maps_ok :: "World \<Rightarrow> AFLState \<Rightarrow> bool" where
  "maps_ok W s \<longleftrightarrow> length (virgin_bits s) = map_size W \<and> length (virgin_tmout s) = map_size W \<and>
     length (virgin_crash s) = map_size W \<and> length (var_bytes s) = map_size W"

text \<open>The names of the saved crashes and hangs carry numbers below the counters.\<close>

definition crash_path :: "AFLSetting \<Rightarrow> nat \<Rightarrow> string \<Rightarrow> string" where
  "crash_path st n rest = out_dir st @
     (if \<not> simple_files st then ''/crashes/id:'' @ zero_padded 6 n @ '','' @ rest
      else ''/hangs/id_'' @ zero_padded 6 n @ ''_'' @ rest)"

definition hang_path :: "AFLSetting \<Rightarrow> nat \<Rightarrow> string \<Rightarrow> string" where
  "hang_path st n rest = out_dir st @
     (if \<not> simple_files st then ''/hangs/id:'' @ zero_padded 6 n @ '','' @ rest else ''/hangs/id_'' @ zero_padded 6 n)"

definition known_name :: "AFLSetting \<Rightarrow> nat \<Rightarrow> nat \<Rightarrow> string \<Rightarrow> bool" where
  "known_name st crashes hangs fn \<longleftrightarrow>
     (\<exists>n < crashes. \<exists>rest. fn = crash_path st n rest) \<or> (\<exists>n < hangs. \<exists>rest. fn = hang_path st n rest)"

definition names_ok :: "AFLState \<Rightarrow> bool" where
  "names_ok s \<longleftrightarrow> (\<forall>fn \<in> fst ` set (saved_files s). known_name (setting s) (unique_crashes s) (unique_hangs s) fn)"

text \<open>The files of the queue are neither empty nor larger than \<open>MaxFile\<close>.\<close>

definition fits :: "u8 list \<Rightarrow> bool" where
  "fits xs \<longleftrightarrow> 0 < length xs \<and> length xs \<le> MaxFile"

definition inputs_ok :: "AFLState \<Rightarrow> bool" where
  "inputs_ok s \<longleftrightarrow> (\<forall>tc \<in> set (case_queue s). fits (in_disk (input tc)))"

lemma fits_less: "fits xs \<Longrightarrow> length xs < 2 ^ 32"
  by (simp add: fits_def MaxFile_def)

lemma fits_length: "length xs = length ys \<Longrightarrow> fits xs = fits ys"
  by (simp add: fits_def)

definition afl_inv :: "World \<Rightarrow> AFLState \<Rightarrow> bool" where
  "afl_inv W s \<longleftrightarrow> tops_ok W s \<and> counts_ok s \<and> maps_ok W s \<and> names_ok s \<and> inputs_ok s \<and> seek_to s < length (case_queue s)"

text \<open>
  What only ever grows, and the range of the performance score: the score divides by the first two, the
  choice of block lengths by the cycle.
\<close>

definition perf_ok :: "AFLState \<Rightarrow> bool" where
  "perf_ok s \<longleftrightarrow> 2 \<le> orig_perf s \<and> orig_perf s \<le> 1600"

definition pace :: "AFLState \<Rightarrow> AFLState \<Rightarrow> bool" where
  "pace s s' \<longleftrightarrow> total_cal_cycles s \<le> total_cal_cycles s' \<and> total_bitmap_entries s \<le> total_bitmap_entries s' \<and>
     queue_cycle s \<le> queue_cycle s' \<and> (perf_ok s \<longrightarrow> perf_ok s')"

lemma pace_refl [simp]: "pace s s"
  by (simp add: pace_def)

lemma pace_trans: "pace s s' \<Longrightarrow> pace s' s'' \<Longrightarrow> pace s s''"
  by (auto simp: pace_def)

lemma pace_same [simp]:
  assumes "total_cal_cycles s' = total_cal_cycles s" and "total_bitmap_entries s' = total_bitmap_entries s"
    and "queue_cycle s' = queue_cycle s" and "orig_perf s' = orig_perf s"
  shows "pace s s'"
  using assms by (simp add: pace_def perf_ok_def)

lemma pace_updates [simp]:
  "pace s (s'\<lparr>case_queue := v0\<rparr>) = pace s s'"
  "pace s (s'\<lparr>top_rated := v1\<rparr>) = pace s s'"
  "pace s (s'\<lparr>score_changed := v2\<rparr>) = pace s s'"
  "pace s (s'\<lparr>total_execs := v3\<rparr>) = pace s s'"
  "pace s (s'\<lparr>stop_soon := v4\<rparr>) = pace s s'"
  "pace s (s'\<lparr>trim_execs := v5\<rparr>) = pace s s'"
  "pace s (s'\<lparr>bytes_trim_in := v6\<rparr>) = pace s s'"
  "pace s (s'\<lparr>bytes_trim_out := v7\<rparr>) = pace s s'"
  "pace s (s'\<lparr>queued_variable := v8\<rparr>) = pace s s'"
  "pace s (s'\<lparr>subseq_tmouts := v9\<rparr>) = pace s s'"
  "pace s (s'\<lparr>cur_depth := v10\<rparr>) = pace s s'"
  "pace s (s'\<lparr>cur_skipped_paths := v11\<rparr>) = pace s s'"
  "pace s (s'\<lparr>splicing_with := v12\<rparr>) = pace s s'"
  "pace s (s'\<lparr>pending_not_fuzzed := v13\<rparr>) = pace s s'"
  "pace s (s'\<lparr>pending_favored := v14\<rparr>) = pace s s'"
  "pace s (s'\<lparr>queued_favored := v15\<rparr>) = pace s s'"
  "pace s (s'\<lparr>current_entry := v16\<rparr>) = pace s s'"
  "pace s (s'\<lparr>seek_to := v17\<rparr>) = pace s s'"
  by (simp_all add: pace_def perf_ok_def)

text \<open>What the invariant depends on.\<close>

definition case_view :: "AFLTestcase \<Rightarrow> nat \<times> bool list option \<times> nat \<times> nat" where
  "case_view tc = (tc_ref tc, trace_mini tc, fuzz_level tc, length (in_disk (input tc)))"

definition inv_view :: "AFLState \<Rightarrow> _" where
  "inv_view s = (map case_view (case_queue s), top_rated s, queued_paths s, pending_not_fuzzed s,
     (length (virgin_bits s), length (virgin_tmout s), length (virgin_crash s), length (var_bytes s)),
     (setting s, saved_files s, unique_crashes s, unique_hangs s), seek_to s)"

lemma case_view_nth:
  assumes "map case_view q = map case_view q'" and "t < length q"
  shows "case_view (q ! t) = case_view (q' ! t)"
  using assms by (metis length_map nth_map)

lemma case_view_filter:
  "map case_view q = map case_view q' \<Longrightarrow> length (filter (\<lambda>tc. fuzz_level tc = 0) q) = length (filter (\<lambda>tc. fuzz_level tc = 0) q')"
proof (induction q arbitrary: q')
  case (Cons c q)
  then show ?case by (cases q') (auto simp: case_view_def)
qed simp

lemma case_view_inputs:
  assumes "map case_view q = map case_view q'" and "\<forall>tc \<in> set q. fits (in_disk (input tc))"
  shows "\<forall>tc \<in> set q'. fits (in_disk (input tc))"
proof -
  let ?P = "\<lambda>v :: nat \<times> bool list option \<times> nat \<times> nat. 0 < snd (snd (snd v)) \<and> snd (snd (snd v)) \<le> MaxFile"
  have "(\<forall>v \<in> set (map case_view q). ?P v) \<longleftrightarrow> (\<forall>v \<in> set (map case_view q'). ?P v)"
    using assms(1) by simp
  then show ?thesis using assms(2) by (simp add: case_view_def fits_def)
qed

lemma tops_ok_view:
  assumes "map case_view (case_queue s) = map case_view (case_queue s')" and "top_rated s = top_rated s'" and "tops_ok W s"
  shows "tops_ok W s'"
proof -
  have len: "length (case_queue s') = length (case_queue s)"
    using assms(1) by (metis length_map)
  have "case_ok n tops t (case_queue s' ! t) = case_ok n tops t (case_queue s ! t)" if "t < length (case_queue s)" for n tops t
    using case_view_nth [OF assms(1) that] by (intro case_ok_cong) (simp_all add: case_view_def)
  then show ?thesis
    using assms(2,3) len by (simp add: tops_ok_def)
qed

lemma afl_inv_view:
  assumes "inv_view s' = inv_view s" and "afl_inv W s"
  shows "afl_inv W s'"
proof -
  have q: "map case_view (case_queue s) = map case_view (case_queue s')"
    and len: "length (case_queue s') = length (case_queue s)" and top: "top_rated s' = top_rated s"
    using assms(1) by (auto simp: inv_view_def dest: map_eq_imp_length_eq)
  have "tops_ok W s'"
    using tops_ok_view [OF q top [symmetric]] assms(2) by (simp add: afl_inv_def)
  moreover have "counts_ok s'"
    using assms case_view_filter [OF q] len by (simp add: afl_inv_def counts_ok_def inv_view_def)
  moreover have "inputs_ok s'"
    using assms(2) case_view_inputs [OF q] by (simp add: afl_inv_def inputs_ok_def)
  ultimately show ?thesis
    using assms len by (simp add: afl_inv_def maps_ok_def names_ok_def inv_view_def)
qed

lemma upd_case_view:
  assumes "case_view (f (case_queue s ! t)) = case_view (case_queue s ! t)"
  shows "inv_view (upd_case t f s) = inv_view s"
proof -
  have "map case_view ((case_queue s)[t := f (case_queue s ! t)]) = map case_view (case_queue s)"
    using assms by (simp add: map_update) (metis list_update_beyond list_update_id map_update not_le)
  then show ?thesis by (simp add: inv_view_def upd_case_def)
qed

lemma length_upd_case [simp]: "length (case_queue (upd_case t f s)) = length (case_queue s)"
  by (simp add: upd_case_def)

lemma inv_view_length: "inv_view s' = inv_view s \<Longrightarrow> length (case_queue s') = length (case_queue s)"
  by (auto simp: inv_view_def dest: map_eq_imp_length_eq)

end
