(* ===== verification/AFL_Calibrate.thy ===== *)
theory AFL_Calibrate
  imports AFL_Invariant
begin

text \<open>
  Calibration never fails and keeps the invariant of the state, whatever the program under test does.
\<close>

section \<open>Operations that leave the view alone\<close>

text \<open>Bits only ever disappear from the map of what has not been seen.\<close>

definition shrinks :: "u8 list \<Rightarrow> u8 list \<Rightarrow> bool" where
  "shrinks v v' \<longleftrightarrow> length v' = length v \<and> (\<forall>i < length v. v' ! i AND v ! i = v' ! i)"

lemma shrinks_refl [simp]: "shrinks v v"
  by (simp add: shrinks_def)

lemma and_trans: "(c :: u8) AND b = c \<Longrightarrow> b AND a = b \<Longrightarrow> c AND a = c"
  by (metis and.assoc)

lemma shrinks_trans: "shrinks v v' \<Longrightarrow> shrinks v' v'' \<Longrightarrow> shrinks v v''"
  unfolding shrinks_def using and_trans by simp blast

lemma shrinks_clear: "length t = length v \<Longrightarrow> shrinks v (map2 (\<lambda>t v. v AND NOT t) t v)"
  by (simp add: shrinks_def) (metis and.assoc and.commute and.idem)

lemma novelty_cleared:
  assumes "length v = n" and "length t = n" and "shrinks (map2 (\<lambda>t v. v AND NOT t) t v) v'"
  shows "novelty t v' 0 n = 0"
proof -
  have z: "t ! i AND v' ! i = 0" if "i < n" for i
  proof -
    have "v' ! i = v' ! i AND (v ! i AND NOT (t ! i))"
      using assms that by (simp add: shrinks_def)
    then have "t ! i AND v' ! i = v' ! i AND (t ! i AND (v ! i AND NOT (t ! i)))"
      by (metis and.assoc and.commute)
    then show ?thesis by (simp only: and_cleared and_zero_eq)
  qed
  then have "t ! i = 0 \<or> v' ! i \<noteq> 0xff" if "i < n" for i
    using that full_byte [of "t ! i"] by metis
  then show ?thesis
    using z unfolding novelty_def by auto
qed

definition mild :: "AFLState \<Rightarrow> AFLState \<Rightarrow> bool" where
  "mild s s' \<longleftrightarrow> inv_view s' = inv_view s \<and> map input (case_queue s') = map input (case_queue s) \<and>
     shrinks (virgin_bits s) (virgin_bits s') \<and>
     pace s s'"

lemma mild_refl [simp]: "mild s s"
  by (simp add: mild_def)

lemma mild_trans [trans]: "mild s s' \<Longrightarrow> mild s' s'' \<Longrightarrow> mild s s''"
  using shrinks_trans pace_trans by (auto simp: mild_def)

lemma mild_length: "mild s s' \<Longrightarrow> length (case_queue s') = length (case_queue s)"
  using inv_view_length unfolding mild_def by blast

lemma mild_maps: "mild s s' \<Longrightarrow> maps_ok W s' = maps_ok W s"
  by (simp add: mild_def inv_view_def maps_ok_def)

lemma mild_inv: "mild s s' \<Longrightarrow> afl_inv W s \<Longrightarrow> afl_inv W s'"
  using afl_inv_view by (auto simp: mild_def)

lemma mild_upd_case:
  assumes "case_view (f (case_queue s ! t)) = case_view (case_queue s ! t)" and "input (f (case_queue s ! t)) = input (case_queue s ! t)"
  shows "mild s (upd_case t f s)"
proof -
  have "map input ((case_queue s)[t := f (case_queue s ! t)]) = map input (case_queue s)"
    using assms(2) by (simp add: map_update) (metis list_update_beyond list_update_id map_update not_le)
  then show ?thesis
    using upd_case_view [of f s t, OF assms(1)] by (simp add: mild_def upd_case_def)
qed

lemma world_okD:
  assumes "world_ok W"
  shows "map_size W < 2 ^ 32" "word_width W = 4 \<or> word_width W = 8" "word_width W dvd map_size W"
    "length (r_trace (run W n buf tmout)) = map_size W" "r_reason (run W n buf tmout) \<noteq> FAULT_ERROR"
    "can_open W p" "can_mark W m p v"
  using assms by (auto simp: world_ok_def)

text \<open>The results of the two primitives on coverage maps.\<close>

lemma Run_ok:
  assumes "world_ok W"
  shows "\<exists>feed ex n b. RunExecutorWithClassifyCounts W buf tmout s = Inr (feed, ex, s\<lparr>total_execs := n, stop_soon := b\<rparr>) \<and>
    length feed = map_size W \<and> es_reason ex \<noteq> FAULT_ERROR"
proof -
  let ?r = "run W (total_execs s) buf tmout"
  have "ClassifyCounts (word_width W) (r_trace ?r) (map_size W) = Inr (map count_class (r_trace ?r))"
    using coverage_passes [of "word_width W" "map_size W" "r_trace ?r"] world_okD [OF assms] by simp
  then show ?thesis
    using world_okD [OF assms] by (auto simp: RunExecutorWithClassifyCounts_def Let_def)
qed

lemma Run_okE:
  assumes "world_ok W"
  obtains feed ex s' where "RunExecutorWithClassifyCounts W buf tmout s = Inr (feed, ex, s')" "mild s s'"
    "case_queue s' = case_queue s" "length feed = map_size W" "es_reason ex \<noteq> FAULT_ERROR"
  using Run_ok [OF assms, of buf tmout s] that by (auto simp: mild_def inv_view_def)

lemma check_new_bits_eq:
  assumes "world_ok W" and "length (virgin_map m s) = map_size W" and "length trace = map_size W"
  shows "check_new_bits W m trace s = Inr (novelty trace (virgin_map m s) 0 (map_size W),
    set_virgin_map m (map2 (\<lambda>t v. v AND NOT t) trace (virgin_map m s))
      (s\<lparr>bitmap_changed := bitmap_changed s \<or> (novelty trace (virgin_map m s) 0 (map_size W) \<noteq> 0 \<and> m = VirginBits)\<rparr>))"
  using HasNewBits_ok [OF world_okD(2,3) [OF assms(1)] assms(3,2)] by (simp add: check_new_bits_def)

lemma check_new_bitsE:
  assumes "world_ok W" and "maps_ok W s" and "length trace = map_size W"
  obtains s' where "check_new_bits W m trace s = Inr (novelty trace (virgin_map m s) 0 (map_size W), s')" "mild s s'"
    "case_queue s' = case_queue s"
    "virgin_map m s' = map2 (\<lambda>t v. v AND NOT t) trace (virgin_map m s)"
proof -
  have len: "length (virgin_map m s) = map_size W"
    using assms(2) by (cases m) (simp_all add: maps_ok_def)
  show ?thesis
    by (rule that, rule check_new_bits_eq [OF assms(1) len assms(3)])
      (cases m; use assms(2,3) in \<open>simp_all add: mild_def inv_view_def maps_ok_def shrinks_clear\<close>)+
qed

section \<open>The calibration loop\<close>

text \<open>The first trace is present when the test case has a checksum.\<close>

definition cal_ok :: "nat \<Rightarrow> Cal \<Rightarrow> bool" where
  "cal_ok t c \<longleftrightarrow> (exec_cksum (case_queue (c_state c) ! t) \<noteq> 0 \<longrightarrow> c_first c \<noteq> None)"

lemma length_fold_update [simp]: "length (fold (\<lambda>i v. v[i := x]) is xs) = length xs"
  by (induction "is" arbitrary: xs) simp_all

lemma cal_compare_ok:
  assumes "world_ok W" and "maps_ok W (c_state c)" and "length (c_feed c) = map_size W" and "t < length (case_queue (c_state c))"
    and "cal_ok t c"
  shows "\<exists>c'. cal_compare W t c = Inr c' \<and> mild (c_state c) (c_state c') \<and> cal_ok t c' \<and>
    c_feed c' = c_feed c \<and> c_exit c' = c_exit c \<and> c_abort c' = c_abort c"
proof -
  obtain s' where s': "check_new_bits W VirginBits (c_feed c) (c_state c) = Inr (novelty (c_feed c) (virgin_map VirginBits (c_state c)) 0 (map_size W), s')"
    "mild (c_state c) s'" "case_queue s' = case_queue (c_state c)"
    using check_new_bitsE [OF assms(1-3)] by metis
  show ?thesis
  proof (cases "exec_cksum (case_queue s' ! t) = 0")
    case True
    have "mild s' (upd_case t (\<lambda>tc. tc\<lparr>exec_cksum := CalcCksum32 (c_feed c)\<rparr>) s')"
      by (rule mild_upd_case) (simp_all add: case_view_def)
    then show ?thesis
      using True s' mild_trans by (auto simp: cal_compare_def cal_ok_def)
  next
    case False
    then obtain first where first: "c_first c = Some first"
      using assms(5) s'(3) by (auto simp: cal_ok_def)
    have "mild s' (s'\<lparr>var_bytes := fold (\<lambda>i v. v[i := 1]) ps (var_bytes s')\<rparr>)" for ps
      by (simp add: mild_def inv_view_def)
    then show ?thesis
      using False first s' assms(5) mild_trans by (auto simp: cal_compare_def mark_var_bytes_def cal_ok_def Let_def)
  qed
qed

lemma cal_step_ok:
  assumes W: "world_ok W" and maps: "maps_ok W (c_state c)" and t: "t < length (case_queue (c_state c))" and ok: "cal_ok t c"
  shows "\<exists>c'. cal_step W t buf tmout c = Inr c' \<and> mild (c_state c) (c_state c') \<and> cal_ok t c' \<and>
    length (c_feed c') = map_size W \<and> es_reason (c_exit c') \<noteq> FAULT_ERROR"
proof -
  obtain feed ex s where run: "RunExecutorWithClassifyCounts W buf tmout (c_state c) = Inr (feed, ex, s)"
    and s: "mild (c_state c) s" "case_queue s = case_queue (c_state c)" "length feed = map_size W" "es_reason ex \<noteq> FAULT_ERROR"
    using Run_okE [OF W] .
  let ?c = "c\<lparr>c_state := s, c_feed := feed, c_exit := ex\<rparr>"
  have c: "cal_ok t ?c" "maps_ok W (c_state ?c)" "t < length (case_queue (c_state ?c))"
    using ok s maps t mild_maps [OF s(1)] by (simp_all add: cal_ok_def)
  obtain c' where c': "cal_compare W t ?c = Inr c'" "mild s (c_state c')" "cal_ok t c'" "c_feed c' = feed" "c_exit c' = ex"
    using cal_compare_ok [OF W c(2) _ c(3,1)] s(3) by auto
  have "cal_ok t (c'\<lparr>c_cur := n\<rparr>)" "cal_ok t (?c\<lparr>c_cur := n\<rparr>)" "cal_ok t (?c\<lparr>c_abort := b\<rparr>)" "cal_ok t (?c\<lparr>c_exit := e, c_abort := b\<rparr>)" for n b e
    using c(1) c'(3) by (simp_all add: cal_ok_def)
  then show ?thesis
    using c' s mild_trans [OF s(1) c'(2)] by (auto simp: cal_step_def run Let_def)
qed

lemma cal_loop_ok:
  "world_ok W \<Longrightarrow> maps_ok W (c_state c) \<Longrightarrow> t < length (case_queue (c_state c)) \<Longrightarrow> cal_ok t c \<Longrightarrow>
    c_cur c < c_max c \<or> (length (c_feed c) = map_size W \<and> es_reason (c_exit c) \<noteq> FAULT_ERROR) \<Longrightarrow>
    \<exists>c'. cal_loop W t buf tmout c = Inr c' \<and> mild (c_state c) (c_state c') \<and>
      length (c_feed c') = map_size W \<and> es_reason (c_exit c') \<noteq> FAULT_ERROR"
proof (induction W t buf tmout c rule: cal_loop.induct)
  case (1 W t buf tmout c)
  show ?case
  proof (cases "c_cur c < c_max c")
    case False
    then show ?thesis using "1.prems" by (subst cal_loop.simps) auto
  next
    case True
    obtain c' where c': "cal_step W t buf tmout c = Inr c'" "mild (c_state c) (c_state c')" "cal_ok t c'"
      "length (c_feed c') = map_size W" "es_reason (c_exit c') \<noteq> FAULT_ERROR"
      using cal_step_ok [OF "1.prems"(1-4)] by blast
    show ?thesis
    proof (cases "c_abort c'")
      case abort: True
      then show ?thesis using c' True by (subst cal_loop.simps) auto
    next
      case go: False
      have "maps_ok W (c_state c')" "t < length (case_queue (c_state c'))"
        using mild_maps [OF c'(2)] mild_length [OF c'(2)] "1.prems"(2,3) by simp_all
      then obtain c'' where "cal_loop W t buf tmout c' = Inr c''" "mild (c_state c') (c_state c'')"
        "length (c_feed c'') = map_size W" "es_reason (c_exit c'') \<noteq> FAULT_ERROR"
        using "1.IH" [OF True c'(1) go "1.prems"(1)] c' by blast
      then show ?thesis
        using True c'(1) go mild_trans [OF c'(2)] by (subst cal_loop.simps) auto
    qed
  qed
qed

section \<open>A whole calibration\<close>

text \<open>Operations that keep the invariant and the inputs of the queue.\<close>

definition steady :: "World \<Rightarrow> AFLState \<Rightarrow> AFLState \<Rightarrow> bool" where
  "steady W s s' \<longleftrightarrow> (afl_inv W s \<longrightarrow> afl_inv W s') \<and> map input (case_queue s') = map input (case_queue s) \<and>
     shrinks (virgin_bits s) (virgin_bits s') \<and>
     pace s s'"

lemma mild_steady: "mild s s' \<Longrightarrow> steady W s s'"
  using mild_inv by (auto simp: steady_def mild_def)

lemma steady_trans [trans]: "steady W s s' \<Longrightarrow> steady W s' s'' \<Longrightarrow> steady W s s''"
  using shrinks_trans pace_trans by (auto simp: steady_def)

lemma steady_refl: "steady W s s"
  by (simp add: steady_def)

lemma steady_length: "steady W s s' \<Longrightarrow> length (case_queue s') = length (case_queue s)"
  by (metis length_map steady_def)

lemma scored_steady:
  assumes "scored s s'" and "tops_ok W s'"
  shows "steady W s s'"
proof -
  obtain q tops x where s': "s' = s\<lparr>case_queue := q, top_rated := tops, score_changed := x\<rparr>"
    using assms(1) unfolding scored_def by blast
  have len: "length q = length (case_queue s)" and nth: "\<exists>r m. q ! u = (case_queue s ! u)\<lparr>tc_ref := r, trace_mini := m\<rparr>"
    if "u < length (case_queue s)" for u
    using assms(1) that s' unfolding scored_def by auto
  have same: "map g q = map g (case_queue s)" if "\<And>c r m. g (c\<lparr>tc_ref := r, trace_mini := m\<rparr>) = g c" for g :: "AFLTestcase \<Rightarrow> 'b"
    using assms(1) s' nth that by (intro nth_equalityI) (auto simp: scored_def, metis)
  have len': "length q = length (case_queue s)"
    using assms(1) s' by (simp add: scored_def)
  have inp: "map input q = map input (case_queue s)"
    by (rule same) simp
  have "length (filter (\<lambda>n. n = 0) (map fuzz_level q)) = length (filter (\<lambda>n. n = 0) (map fuzz_level (case_queue s)))"
    by (subst same) simp_all
  then have "counts_ok s \<Longrightarrow> counts_ok s'"
    using len' by (simp add: counts_ok_def s' filter_map o_def)
  moreover have "inputs_ok s \<Longrightarrow> inputs_ok s'"
  proof -
    have "(\<forall>i \<in> set (map input q). fits (in_disk i)) \<longleftrightarrow> (\<forall>i \<in> set (map input (case_queue s)). fits (in_disk i))"
      unfolding inp ..
    then show "inputs_ok s \<Longrightarrow> inputs_ok s'" by (simp add: inputs_ok_def s')
  qed
  ultimately show ?thesis
    using assms(2) inp len' by (auto simp: steady_def s' afl_inv_def maps_ok_def names_ok_def)
qed

lemma UpdateBitmapScore_steady:
  assumes "world_ok W" and "length trace = map_size W" and "afl_inv W s" and "t < length (case_queue s)"
  shows "\<exists>s'. UpdateBitmapScoreWithRawTrace W t trace s = Inr s' \<and> steady W s s'"
proof -
  have "tops_ok W s" using assms(3) by (simp add: afl_inv_def)
  then show ?thesis
    using UpdateBitmapScore_result [OF world_okD(1) [OF assms(1)] assms(2) _ assms(4)] scored_steady by blast
qed

lemma cal_complete_ok:
  assumes "world_ok W" and "length (c_feed c) = map_size W" and "afl_inv W (c_state c)" and "t < length (case_queue (c_state c))"
    and "es_reason (c_exit c) \<noteq> FAULT_ERROR"
  shows "\<exists>c'. cal_complete W t hc first_run start_us c = Inr c' \<and> steady W (c_state c) (c_state c') \<and>
    c_feed c' = c_feed c \<and> es_reason (c_exit c') \<noteq> FAULT_ERROR"
proof -
  let ?s0 = "c_state c"
  let ?us = "u64_sub (clock_us W (total_execs ?s0)) start_us" and ?size = "CountBytes (c_feed c)"
  let ?f = "\<lambda>tc. tc\<lparr>exec_us := ?us div c_max c, bitmap_size := ?size, handicap := hc, cal_failed := 0\<rparr>"
  let ?s1 = "upd_case t ?f ?s0"
  let ?s2 = "?s1\<lparr>total_cal_us := total_cal_us ?s1 + ?us, total_cal_cycles := total_cal_cycles ?s1 + c_max c,
      total_bitmap_size := total_bitmap_size ?s1 + ?size, total_bitmap_entries := total_bitmap_entries ?s1 + 1\<rparr>"
  have "mild ?s0 ?s1"
    by (rule mild_upd_case) (simp_all add: case_view_def)
  moreover have "mild ?s1 ?s2"
    by (simp add: mild_def inv_view_def pace_def perf_ok_def)
  ultimately have m: "mild ?s0 ?s2" by (rule mild_trans)
  obtain s' where s': "UpdateBitmapScoreWithRawTrace W t (c_feed c) ?s2 = Inr s'" "steady W ?s2 s'"
    using UpdateBitmapScore_steady [OF assms(1,2) mild_inv [OF m assms(3)], of t] mild_length [OF m] assms(4) by auto
  have "steady W ?s0 s'"
    using mild_steady [OF m] s'(2) by (rule steady_trans)
  then show ?thesis
    using s'(1) assms(5) by (auto simp: cal_complete_def Let_def)
qed

lemma cal_finish_ok:
  assumes "world_ok W"
  shows "\<exists>s'. cal_finish W t c = Inr s' \<and> mild (c_state c) s'"
proof -
  define s where "s = c_state c"
  define s1 where "s1 = (if c_new_bits c = 2 \<and> \<not> has_new_cov (case_queue s ! t)
      then upd_case t (\<lambda>tc. tc\<lparr>has_new_cov := True\<rparr>) (s\<lparr>queued_with_cov := u32 (queued_with_cov s + 1)\<rparr>) else s)"
  define s2 where "s2 = s1\<lparr>var_byte_count := CountBytes (var_bytes s1)\<rparr>"
  define s3 where "s3 = upd_case t (\<lambda>tc. tc\<lparr>var_behavior := True\<rparr>) s2"
  have "mild s (s\<lparr>queued_with_cov := n\<rparr>)" for n
    by (simp add: mild_def inv_view_def)
  moreover have "mild (s\<lparr>queued_with_cov := n\<rparr>) (upd_case t (\<lambda>tc. tc\<lparr>has_new_cov := True\<rparr>) (s\<lparr>queued_with_cov := n\<rparr>))" for n
    by (rule mild_upd_case) (simp_all add: case_view_def)
  ultimately have "mild s (upd_case t (\<lambda>tc. tc\<lparr>has_new_cov := True\<rparr>) (s\<lparr>queued_with_cov := n\<rparr>))" for n
    by (rule mild_trans)
  then have m1: "mild s s1" by (simp add: s1_def)
  have m2: "mild s s2" by (rule mild_trans [OF m1]) (simp add: s2_def mild_def inv_view_def)
  have "mild s2 s3" unfolding s3_def by (rule mild_upd_case) (simp_all add: case_view_def)
  with m2 have "mild s s3" by (rule mild_trans)
  moreover have "mild s3 (s3\<lparr>queued_variable := n\<rparr>)" for n
    by (simp add: mild_def inv_view_def)
  ultimately have m3: "mild s (s3\<lparr>queued_variable := n\<rparr>)" for n
    by (rule mild_trans)
  have "cal_finish W t c =
      Inr (if \<not> c_var c then s1 else if var_behavior (case_queue s2 ! t) then s2
           else s3\<lparr>queued_variable := u32 (queued_variable s3 + 1)\<rparr>)"
    using world_okD(7) [OF assms]
    unfolding cal_finish_def MarkAsVariable_def write_marker_def Let_def s_def [symmetric] s1_def [symmetric] s2_def [symmetric] s3_def [symmetric]
    by simp
  then show ?thesis
    using m1 m2 m3 unfolding s_def by simp
qed

lemma Calibrate_ok:
  assumes W: "world_ok W" and inv: "afl_inv W s" and t: "t < length (case_queue s)"
    and feed: "exec_cksum (case_queue s ! t) \<noteq> 0 \<longrightarrow> length feed = map_size W"
  shows "\<exists>feed' ex' s'. CalibrateCaseWithFeedDestroyed W t buf feed ex hc from_queue s = Inr (feed', ex', s') \<and> steady W s s' \<and>
    length feed' = map_size W \<and> es_reason ex' \<noteq> FAULT_ERROR"
proof -
  let ?s1 = "upd_case t (\<lambda>tc. tc\<lparr>cal_failed := (cal_failed tc + 1) mod 256\<rparr>) s"
  have m1: "mild s ?s1"
    by (rule mild_upd_case) (simp_all add: case_view_def)
  have ck: "exec_cksum (case_queue ?s1 ! t) = exec_cksum (case_queue s ! t)"
    using t by (simp add: upd_case_def)
  have maps: "maps_ok W ?s1"
    using inv mild_maps [OF m1] by (simp add: afl_inv_def)
  obtain c where c: "cal_start W t feed ex s = Inr c" "mild s (c_state c)" "cal_ok t c" "c_cur c < c_max c"
  proof (cases "exec_cksum (case_queue s ! t) = 0")
    case True
    then show ?thesis
      using that m1 ck by (simp add: cal_start_def Let_def cal_ok_def CalCycles_def)
  next
    case False
    then have "length feed = map_size W" using feed by simp
    then obtain s2 where s2: "check_new_bits W VirginBits feed ?s1 = Inr (novelty feed (virgin_map VirginBits ?s1) 0 (map_size W), s2)" "mild ?s1 s2"
      by (rule check_new_bitsE [OF W maps])
    have "mild s s2" using m1 s2(2) by (rule mild_trans)
    then show ?thesis
      using that False ck s2(1) by (simp add: cal_start_def Let_def cal_ok_def CalCycles_def)
  qed
  have "maps_ok W (c_state c)" "t < length (case_queue (c_state c))"
    using inv t mild_maps [OF c(2)] mild_length [OF c(2)] by (simp_all add: afl_inv_def)
  then obtain c1 where c1: "cal_loop W t buf (cal_timeout from_queue s) c = Inr c1" "mild (c_state c) (c_state c1)"
      "length (c_feed c1) = map_size W" "es_reason (c_exit c1) \<noteq> FAULT_ERROR"
    using cal_loop_ok [OF W _ _ c(3)] c(4) by blast
  have m2: "mild s (c_state c1)" using c(2) c1(2) by (rule mild_trans)
  let ?us = "clock_us W (total_execs (c_state c))" and ?first = "exec_cksum (case_queue s ! t) = 0"
  obtain c2 where c2: "(if c_abort c1 then Inr c1 else cal_complete W t hc ?first ?us c1) = Inr c2" "steady W (c_state c1) (c_state c2)"
    "c_feed c2 = c_feed c1" "es_reason (c_exit c2) \<noteq> FAULT_ERROR"
    using cal_complete_ok [OF W c1(3) mild_inv [OF m2 inv] _ c1(4), of t hc ?first ?us] mild_length [OF m2] t c1(4) steady_refl
    by (metis (mono_tags))
  obtain s' where s': "cal_finish W t c2 = Inr s'" "mild (c_state c2) s'"
    using cal_finish_ok [OF W] by blast
  have "steady W s s'"
    using mild_steady [OF m2] c2(2) mild_steady [OF s'(2)] steady_trans by blast
  then show ?thesis
    using c(1) c1 c2 s'(1) by (simp add: CalibrateCaseWithFeedDestroyed_def)
qed

end
