(* ===== verification/AFL_Save.thy ===== *)
theory AFL_Save
  imports AFL_Calibrate
begin

text \<open>
  \<open>SaveIfInteresting\<close>: which test cases are kept, and that keeping them never fails and preserves the
  invariant. The numbers in the names of saved crashes and hangs make these names different.
\<close>

section \<open>Names of saved files\<close>

definition digit :: "char \<Rightarrow> bool" where
  "digit c \<longleftrightarrow> 48 \<le> (of_char c :: nat) \<and> (of_char c :: nat) \<le> 57"

lemma decimal_digits: "c \<in> set (decimal n) \<Longrightarrow> digit c"
proof (induction n rule: decimal.induct)
  case (1 n)
  have "digit (char_of (48 + k))" if "k < 10" for k :: nat
    using that by (simp add: digit_def of_char_of)
  moreover have "n mod 10 < 10" by simp
  ultimately show ?case
    using 1 by (subst (asm) (2) decimal.simps) (auto split: if_splits)
qed

lemma padded_digits: "c \<in> set (zero_padded w n) \<Longrightarrow> digit c"
  using decimal_digits [of c n] by (auto simp: zero_padded_def) (simp add: digit_def)

lemma padded_value: "digits_value (zero_padded w n) = n"
proof -
  have "digits_value (replicate k (CHR ''0'') @ cs) = digits_value cs" for k cs
    by (induction k) simp_all
  then show ?thesis by (simp add: zero_padded_def)
qed

lemma padded_inj:
  assumes "zero_padded w n @ c # xs = zero_padded w m @ d # ys" and "\<not> digit c" and "\<not> digit d"
  shows "n = m"
proof -
  have "takeWhile digit (zero_padded w k @ e # zs) = zero_padded w k" if "\<not> digit e" for k e zs
    using that padded_digits by (simp add: takeWhile_append)
  then have "zero_padded w n = zero_padded w m"
    using assms by metis
  then show ?thesis by (metis padded_value)
qed

lemma name_separators: "\<not> digit (CHR '','')" "\<not> digit (CHR ''_'')"
  by (simp_all add: digit_def)

lemma crash_path_inj:
  assumes "crash_path st n xs = crash_path st m ys"
  shows "n = m"
proof (cases "simple_files st")
  case True
  then have "zero_padded 6 n @ CHR ''_'' # xs = zero_padded 6 m @ CHR ''_'' # ys"
    using assms by (simp add: crash_path_def)
  then show ?thesis using padded_inj name_separators by blast
next
  case False
  then have "zero_padded 6 n @ CHR '','' # xs = zero_padded 6 m @ CHR '','' # ys"
    using assms by (simp add: crash_path_def)
  then show ?thesis using padded_inj name_separators by blast
qed

lemma hang_path_inj:
  assumes "hang_path st n xs = hang_path st m ys"
  shows "n = m"
proof (cases "simple_files st")
  case True
  then have "zero_padded 6 n = zero_padded 6 m"
    using assms by (simp add: hang_path_def)
  then show ?thesis by (metis padded_value)
next
  case False
  then have "zero_padded 6 n @ CHR '','' # xs = zero_padded 6 m @ CHR '','' # ys"
    using assms by (simp add: hang_path_def)
  then show ?thesis using padded_inj name_separators by blast
qed

lemma crash_hang_path: "crash_path st n xs \<noteq> hang_path st m ys"
proof
  assume eq: "crash_path st n xs = hang_path st m ys"
  show False
  proof (cases "simple_files st")
    case True
    then have "zero_padded 6 n @ CHR ''_'' # xs = zero_padded 6 m"
      using eq by (simp add: crash_path_def hang_path_def)
    then have "CHR ''_'' \<in> set (zero_padded 6 m)"
      by (metis in_set_conv_decomp)
    then show False using padded_digits name_separators(2) by blast
  next
    case False
    then show False using eq by (simp add: crash_path_def hang_path_def)
  qed
qed

lemma crash_name_path: "\<exists>rest. crash_name s sig = crash_path (setting s) (unique_crashes s) rest"
  by (cases "simple_files (setting s)") (auto simp: crash_name_def crash_path_def)

lemma hang_name_path: "\<exists>rest. hang_name s = hang_path (setting s) (unique_hangs s) rest"
  by (cases "simple_files (setting s)") (auto simp: hang_name_def hang_path_def)

lemma crash_name_fresh: "names_ok s \<Longrightarrow> crash_name s sig \<notin> fst ` set (saved_files s)"
  using crash_name_path [of s sig] crash_path_inj crash_hang_path unfolding names_ok_def known_name_def by (metis less_irrefl)

lemma hang_name_fresh: "names_ok s \<Longrightarrow> hang_name s \<notin> fst ` set (saved_files s)"
  using hang_name_path [of s] hang_path_inj crash_hang_path unfolding names_ok_def known_name_def by (metis less_irrefl)

lemma known_name_mono: "known_name st c h fn \<Longrightarrow> c \<le> c' \<Longrightarrow> h \<le> h' \<Longrightarrow> known_name st c' h' fn"
  unfolding known_name_def using order_less_le_trans by blast

lemma names_ok_add:
  assumes "names_ok s" and "setting s' = setting s" and "unique_crashes s \<le> unique_crashes s'" and "unique_hangs s \<le> unique_hangs s'"
    and "saved_files s' = saved_files s @ [(fn, buf)]" and "known_name (setting s) (unique_crashes s') (unique_hangs s') fn"
  shows "names_ok s'"
  using assms known_name_mono [OF _ assms(3,4)] by (simp add: names_ok_def)

section \<open>Crashes and hangs\<close>

text \<open>Operations that may add test cases at the end of the queue.\<close>

definition grows :: "World \<Rightarrow> AFLState \<Rightarrow> AFLState \<Rightarrow> bool" where
  "grows W s s' \<longleftrightarrow> (afl_inv W s \<longrightarrow> afl_inv W s') \<and> (\<exists>xs. map input (case_queue s') = map input (case_queue s) @ xs) \<and>
     shrinks (virgin_bits s) (virgin_bits s') \<and> pace s s'"

lemma steady_grows: "steady W s s' \<Longrightarrow> grows W s s'"
  by (simp add: steady_def grows_def)

lemma grows_trans: "grows W s s' \<Longrightarrow> grows W s' s'' \<Longrightarrow> grows W s s''"
  using shrinks_trans pace_trans by (auto simp: grows_def)

lemma grows_length: "grows W s s' \<Longrightarrow> length (case_queue s) \<le> length (case_queue s')"
  unfolding grows_def by (metis le_add1 length_append length_map)

lemma steady_sameI:
  assumes "case_queue s' = case_queue s" and "top_rated s' = top_rated s" and "queued_paths s' = queued_paths s"
    and "pending_not_fuzzed s' = pending_not_fuzzed s" and "seek_to s' \<le> seek_to s"
    and "maps_ok W s \<Longrightarrow> maps_ok W s'" and "virgin_bits s' = virgin_bits s" and "names_ok s \<Longrightarrow> names_ok s'"
    and "pace s s'"
  shows "steady W s s'"
proof -
  have "tops_ok W s' = tops_ok W s" "counts_ok s' = counts_ok s" "inputs_ok s' = inputs_ok s"
    by (simp_all add: tops_ok_def counts_ok_def inputs_ok_def assms)
  then show ?thesis
    using assms by (auto simp: steady_def afl_inv_def)
qed

lemma save_crash_ok:
  assumes "world_ok W" and "afl_inv W s"
  shows "\<exists>s'. save_unique W (crash_name s sig) buf (s\<lparr>unique_crashes := unique_crashes s + 1\<rparr>) = Inr s' \<and> steady W s s'"
proof -
  let ?s = "s\<lparr>unique_crashes := unique_crashes s + 1, saved_files := saved_files s @ [(crash_name s sig, buf)]\<rparr>"
  have names: "names_ok s" using assms(2) by (simp add: afl_inv_def)
  obtain rest where "crash_name s sig = crash_path (setting s) (unique_crashes s) rest"
    using crash_name_path by blast
  then have nn: "names_ok ?s"
    by (intro names_ok_add [OF names]) (auto simp: known_name_def)
  have "steady W s ?s"
    by (rule steady_sameI) (use nn in \<open>simp_all add: maps_ok_def\<close>)
  then show ?thesis
    using crash_name_fresh [OF names] world_okD(6) [OF assms(1)] by (simp add: save_unique_def)
qed

lemma save_hang_ok:
  assumes "world_ok W" and "afl_inv W s"
  shows "\<exists>s'. save_hang W buf keeping feed ex s = Inr (keeping, feed, ex, s') \<and> steady W s s'"
proof -
  let ?s = "s\<lparr>unique_hangs := unique_hangs s + 1, saved_files := saved_files s @ [(hang_name s, buf)]\<rparr>"
  have names: "names_ok s" using assms(2) by (simp add: afl_inv_def)
  obtain rest where "hang_name s = hang_path (setting s) (unique_hangs s) rest"
    using hang_name_path by blast
  then have nn: "names_ok ?s"
    by (intro names_ok_add [OF names]) (auto simp: known_name_def)
  have "steady W s ?s"
    by (rule steady_sameI) (use nn in \<open>simp_all add: maps_ok_def\<close>)
  then show ?thesis
    using hang_name_fresh [OF names] world_okD(6) [OF assms(1)] by (simp add: save_hang_def save_unique_def)
qed

lemma check_steady:
  assumes "world_ok W" and "afl_inv W s" and "length trace = map_size W"
  obtains s' where "check_new_bits W m trace s = Inr (novelty trace (virgin_map m s) 0 (map_size W), s')" "steady W s s'"
    "case_queue s' = case_queue s" "virgin_map m s' = map2 (\<lambda>t v. v AND NOT t) trace (virgin_map m s)"
proof -
  have "maps_ok W s" using assms(2) by (simp add: afl_inv_def)
  then show ?thesis
    using check_new_bitsE [OF assms(1) _ assms(3)] mild_steady that by metis
qed

lemma unique_trace_ok:
  assumes "world_ok W" and "afl_inv W s" and "length feed = map_size W"
  shows "\<exists>fresh feed' s'. unique_trace W m feed s = Inr (fresh, feed', s') \<and> steady W s s' \<and> length feed' = map_size W"
proof (cases "dumb_mode (setting s)")
  case True
  then show ?thesis using assms steady_refl by (auto simp: unique_trace_def)
next
  case False
  have simp: "SimplifyTrace (word_width W) feed (map_size W) = Inr (map hit_mark feed)"
    using coverage_passes [of "word_width W" "map_size W" feed] world_okD [OF assms(1)] assms(3) by simp
  have len: "length (map hit_mark feed) = map_size W" using assms(3) by simp
  obtain s' where "check_new_bits W m (map hit_mark feed) s = Inr (novelty (map hit_mark feed) (virgin_map m s) 0 (map_size W), s')" "steady W s s'"
    using check_steady [OF assms(1,2) len] .
  then show ?thesis using False simp len by (simp add: unique_trace_def)
qed

lemma count_steady: "steady W s (s\<lparr>total_crashes := n\<rparr>)" "steady W s (s\<lparr>total_tmouts := n\<rparr>)" "steady W s (s\<lparr>unique_tmouts := n\<rparr>)"
  by (rule steady_sameI; simp add: maps_ok_def names_ok_def)+

lemma steady_inv: "steady W s s' \<Longrightarrow> afl_inv W s \<Longrightarrow> afl_inv W s'"
  by (simp add: steady_def)

lemma keep_crash_ok:
  assumes W: "world_ok W" and inv: "afl_inv W s" and feed: "length feed = map_size W"
  shows "\<exists>feed' s'. keep_crash W buf keeping feed ex s = Inr (keeping, feed', ex, s') \<and> steady W s s'"
proof -
  let ?s = "s\<lparr>total_crashes := total_crashes s + 1\<rparr>"
  have s: "steady W s ?s" by (rule count_steady)
  obtain fresh feed' s1 where u: "unique_trace W VirginCrash feed ?s = Inr (fresh, feed', s1)" "steady W ?s s1"
    using unique_trace_ok [OF W steady_inv [OF s inv] feed] by blast
  have s1: "steady W s s1" using s u(2) by (rule steady_trans)
  obtain s2 where "save_unique W (crash_name s1 (es_signal ex)) buf (s1\<lparr>unique_crashes := unique_crashes s1 + 1\<rparr>) = Inr s2" "steady W s1 s2"
    using save_crash_ok [OF W steady_inv [OF s1 inv]] by blast
  then show ?thesis
    using u(1) s s1 steady_trans [OF s1] by (simp add: keep_crash_def Let_def)
qed

lemma keep_hang_ok:
  assumes W: "world_ok W" and inv: "afl_inv W s" and feed: "length feed = map_size W"
  shows "\<exists>k feed' ex' s'. keep_hang W buf keeping feed ex s = Inr (k, feed', ex', s') \<and> steady W s s'"
proof -
  let ?s = "s\<lparr>total_tmouts := total_tmouts s + 1\<rparr>"
  have s: "steady W s ?s" by (rule count_steady)
  obtain fresh feed' s1 where u: "unique_trace W VirginTmout feed ?s = Inr (fresh, feed', s1)" "steady W ?s s1"
    using unique_trace_ok [OF W steady_inv [OF s inv] feed] by blast
  define s2 where "s2 = s1\<lparr>unique_tmouts := unique_tmouts s1 + 1\<rparr>"
  have s1: "steady W s s1" using s u(2) by (rule steady_trans)
  have s2: "steady W s s2" unfolding s2_def by (rule steady_trans [OF s1 count_steady(3)])
  obtain feed3 ex3 s3 where run: "RunExecutorWithClassifyCounts W buf (hang_tmout s2) s2 = Inr (feed3, ex3, s3)"
    and s3: "mild s2 s3" "length feed3 = map_size W"
    using Run_okE [OF W] by metis
  have s3': "steady W s s3" using s2 mild_steady [OF s3(1)] by (rule steady_trans)
  obtain feed4 s4 where c: "keep_crash W buf keeping feed3 ex3 s3 = Inr (keeping, feed4, ex3, s4)" "steady W s3 s4"
    using keep_crash_ok [OF W steady_inv [OF s3' inv] s3(2)] by blast
  obtain s5 where h: "save_hang W buf keeping feed3 ex3 s3 = Inr (keeping, feed3, ex3, s5)" "steady W s3 s5"
    using save_hang_ok [OF W steady_inv [OF s3' inv]] by blast
  obtain s6 where h2: "save_hang W buf keeping feed' ex s2 = Inr (keeping, feed', ex, s6)" "steady W s2 s6"
    using save_hang_ok [OF W steady_inv [OF s2 inv]] by blast
  have "keep_hang W buf keeping feed ex s =
     (if KeepUniqueHang \<le> unique_hangs ?s then Inr (False, feed, ex, ?s)
      else if \<not> fresh then Inr (False, feed', ex, s1)
      else if exec_timelimit_ms (setting s2) < hang_tmout s2 then
        (if \<not> stop_soon s3 \<and> es_reason ex3 = FAULT_CRASH then Inr (keeping, feed4, ex3, s4)
         else if stop_soon s3 \<or> es_reason ex3 \<noteq> FAULT_TMOUT then Inr (False, feed3, ex3, s3)
         else Inr (keeping, feed3, ex3, s5))
      else Inr (keeping, feed', ex, s6))"
    unfolding keep_hang_def Let_def u(1) bindR_Inr prod.case s2_def [symmetric] run c(1) h(1) h2(1) by (rule refl)
  then show ?thesis
    using s s1 s3' steady_trans [OF s3' c(2)] steady_trans [OF s3' h(2)] steady_trans [OF s2 h2(2)] by auto
qed

section \<open>New test cases\<close>

lemma AddToQueue_inv:
  assumes W: "world_ok W" and inv: "afl_inv W s" and buf: "fits buf"
  shows "\<exists>inp s'. AddToQueue W fn disk (Some buf) pd s = Inr (length (case_queue s), s') \<and> afl_inv W s' \<and>
    map input (case_queue s') = map input (case_queue s) @ [inp] \<and> in_disk inp = buf \<and> virgin_bits s' = virgin_bits s \<and>
    pace s s'"
proof -
  let ?inp = "(CreateOnDisk fn disk)\<lparr>in_buf := None, in_disk := buf\<rparr>"
  define tc where "tc = (AFLTestcase_new ?inp)\<lparr>depth := u32 (cur_depth s + 1), passed_det := pd\<rparr>"
  define s' where "s' = s\<lparr>max_depth := (if max_depth s < depth tc then u32 (depth tc) else max_depth s),
      case_queue := case_queue s @ [tc], queued_paths := u32 (queued_paths s + 1),
      pending_not_fuzzed := u32 (pending_not_fuzzed s + 1), cycles_wo_finds := 0\<rparr>"
  have tc: "tc_ref tc = 0" "trace_mini tc = None" "fuzz_level tc = 0" "input tc = ?inp"
    by (simp_all add: tc_def AFLTestcase_new_def)
  have add: "AddToQueue W fn disk (Some buf) pd s = Inr (length (case_queue s), s')"
    using world_okD(6) [OF W] by (simp add: AddToQueue_def OverwriteThenUnload_def open_input_def s'_def tc_def CreateOnDisk_def)
  have q: "case_queue s' = case_queue s @ [tc]" "top_rated s' = top_rated s"
    by (simp_all add: s'_def)
  have "tops_ok W s'"
    by (rule tops_ok_append [OF _ q(1) tc(1,2) q(2)]) (use inv in \<open>simp add: afl_inv_def\<close>)
  moreover have "counts_ok s'"
    using inv tc(3) u32_Suc by (simp add: afl_inv_def counts_ok_def s'_def)
  moreover have "inputs_ok s'"
    using inv tc(4) buf by (auto simp: afl_inv_def inputs_ok_def s'_def CreateOnDisk_def)
  ultimately have "afl_inv W s'"
    using inv by (simp add: afl_inv_def maps_ok_def names_ok_def s'_def)
  then show ?thesis
    using add tc(4) by (auto simp: s'_def CreateOnDisk_def)
qed

lemma keep_in_queue_old:
  assumes "world_ok W" and "afl_inv W s" and "length feed = map_size W" and "novelty feed (virgin_bits s) 0 (map_size W) = 0"
  shows "\<exists>s'. keep_in_queue W buf feed ex s = Inr (None, s') \<and> steady W s s' \<and> case_queue s' = case_queue s \<and>
    virgin_bits s' = map2 (\<lambda>t v. v AND NOT t) feed (virgin_bits s)"
proof -
  obtain s' where "check_new_bits W VirginBits feed s = Inr (novelty feed (virgin_map VirginBits s) 0 (map_size W), s')" "steady W s s'"
    "case_queue s' = case_queue s" "virgin_map VirginBits s' = map2 (\<lambda>t v. v AND NOT t) feed (virgin_map VirginBits s)"
    using check_steady [OF assms(1-3)] .
  then show ?thesis
    using assms(4) steady_trans [OF _ count_steady(1)] by (simp add: keep_in_queue_def)
qed

lemma keep_in_queue_new:
  assumes W: "world_ok W" and inv: "afl_inv W s" and feed: "length feed = map_size W"
    and new: "novelty feed (virgin_bits s) 0 (map_size W) \<noteq> 0" and buf: "fits buf"
  shows "\<exists>inp feed' ex' s'. keep_in_queue W buf feed ex s = Inr (Some (True, feed', ex', s'), s') \<and> afl_inv W s' \<and>
    map input (case_queue s') = map input (case_queue s) @ [inp] \<and> in_disk inp = buf \<and>
    shrinks (map2 (\<lambda>t v. v AND NOT t) feed (virgin_bits s)) (virgin_bits s') \<and> pace s s' \<and>
    length feed' = map_size W \<and> es_reason ex' \<noteq> FAULT_ERROR"
proof -
  define hnb where "hnb = novelty feed (virgin_bits s) 0 (map_size W)"
  obtain s1 where s1: "check_new_bits W VirginBits feed s = Inr (hnb, s1)" "steady W s s1" "case_queue s1 = case_queue s"
    "virgin_bits s1 = map2 (\<lambda>t v. v AND NOT t) feed (virgin_bits s)"
    using check_steady [OF W inv feed, of VirginBits] unfolding hnb_def by auto
  obtain inp s2 where s2: "AddToQueue W (queue_name s1 hnb) [] (Some buf) False s1 = Inr (length (case_queue s1), s2)" "afl_inv W s2"
    "map input (case_queue s2) = map input (case_queue s1) @ [inp]" "in_disk inp = buf"
    "virgin_bits s2 = virgin_bits s1" "pace s1 s2"
    using AddToQueue_inv [OF W steady_inv [OF s1(2) inv] buf] by metis
  let ?t = "length (case_queue s1)"
  define s3 where "s3 = (if hnb = 2 then upd_case ?t (\<lambda>tc. tc\<lparr>has_new_cov := True\<rparr>) (s2\<lparr>queued_with_cov := u32 (queued_with_cov s2 + 1)\<rparr>) else s2)"
  define s4 where "s4 = upd_case ?t (\<lambda>tc. tc\<lparr>exec_cksum := CalcCksum32 feed\<rparr>) s3"
  have "mild s2 (s2\<lparr>queued_with_cov := n\<rparr>)" for n
    by (simp add: mild_def inv_view_def)
  moreover have "mild (s2\<lparr>queued_with_cov := n\<rparr>) (upd_case ?t (\<lambda>tc. tc\<lparr>has_new_cov := True\<rparr>) (s2\<lparr>queued_with_cov := n\<rparr>))" for n
    by (rule mild_upd_case) (simp_all add: case_view_def)
  ultimately have "mild s2 (upd_case ?t (\<lambda>tc. tc\<lparr>has_new_cov := True\<rparr>) (s2\<lparr>queued_with_cov := n\<rparr>))" for n
    by (rule mild_trans)
  then have "mild s2 s3" by (simp add: s3_def)
  moreover have "mild s3 s4"
    unfolding s4_def by (rule mild_upd_case) (simp_all add: case_view_def)
  ultimately have s4: "mild s2 s4" by (rule mild_trans)
  have len: "length (case_queue s4) = Suc ?t"
    using s2(3) mild_length [OF s4] by (metis length_append_singleton length_map)
  obtain feed' ex' s5 where s5:
    "CalibrateCaseWithFeedDestroyed W ?t buf feed ex (u32_sub (u32 (queue_cycle s4)) 1) False s4 = Inr (feed', ex', s5)" "steady W s4 s5"
    "length feed' = map_size W" "es_reason ex' \<noteq> FAULT_ERROR"
    using Calibrate_ok [OF W mild_inv [OF s4 s2(2)], of ?t feed buf ex "u32_sub (u32 (queue_cycle s4)) 1" False] len feed by auto
  have "steady W s2 s5" using mild_steady [OF s4] s5(2) by (rule steady_trans)
  moreover have "keep_in_queue W buf feed ex s = Inr (Some (True, feed', ex', s5), s5)"
    unfolding keep_in_queue_def s1(1) bindR_Inr prod.case s2(1) Let_def s3_def [symmetric] s4_def [symmetric] s5(1)
    using new s5(4) by (simp add: hnb_def)
  ultimately show ?thesis
    using s1(2,4) s2 s5(3,4) pace_trans [OF pace_trans] by (auto simp: steady_def)
qed

lemma save_by_reason_ok:
  assumes W: "world_ok W" and inv: "afl_inv W s" and feed: "length feed = map_size W" and ex: "es_reason ex \<noteq> FAULT_ERROR"
  shows "\<exists>k feed' ex' s'. save_by_reason W buf (keeping, feed, ex, s) = Inr (k, feed', ex', s') \<and> steady W s s'"
proof (cases "es_reason ex")
  case FAULT_TMOUT
  then show ?thesis using keep_hang_ok [OF W inv feed] by (simp add: save_by_reason_def)
next
  case FAULT_CRASH
  then show ?thesis using keep_crash_ok [OF W inv feed] by (fastforce simp: save_by_reason_def)
qed (use ex steady_refl in \<open>auto simp: save_by_reason_def\<close>)

lemma SaveIfInteresting_result:
  assumes W: "world_ok W" and inv: "afl_inv W s" and feed: "length feed = map_size W" and ex: "es_reason ex \<noteq> FAULT_ERROR"
    and buf: "fits buf"
  shows "\<exists>k feed' ex' s' xs. SaveIfInteresting W buf feed ex s = Inr (k, feed', ex', s') \<and> grows W s s' \<and>
    map input (case_queue s') = map input (case_queue s) @ xs \<and>
    (if es_reason ex = crash_mode s \<and> novelty feed (virgin_bits s) 0 (map_size W) \<noteq> 0
     then \<exists>inp. xs = [inp] \<and> in_disk inp = buf else xs = []) \<and>
    (es_reason ex = crash_mode s \<longrightarrow> shrinks (map2 (\<lambda>t v. v AND NOT t) feed (virgin_bits s)) (virgin_bits s'))"
proof (cases "es_reason ex = crash_mode s")
  case False
  then show ?thesis
    using save_by_reason_ok [OF W inv feed ex, of buf False] steady_grows by (fastforce simp: SaveIfInteresting_def steady_def)
next
  case normal: True
  show ?thesis
  proof (cases "novelty feed (virgin_bits s) 0 (map_size W) = 0")
    case True
    then show ?thesis
      using keep_in_queue_old [OF W inv feed True, of buf ex] normal steady_grows by (fastforce simp: SaveIfInteresting_def)
  next
    case False
    obtain inp feed1 ex1 s1 where s1: "keep_in_queue W buf feed ex s = Inr (Some (True, feed1, ex1, s1), s1)" "afl_inv W s1"
      "map input (case_queue s1) = map input (case_queue s) @ [inp]" "in_disk inp = buf"
      "pace s s1"
      "length feed1 = map_size W" "es_reason ex1 \<noteq> FAULT_ERROR"
      "shrinks (map2 (\<lambda>t v. v AND NOT t) feed (virgin_bits s)) (virgin_bits s1)"
      using keep_in_queue_new [OF W inv feed False buf] by blast
    obtain k feed2 ex2 s2 where s2: "save_by_reason W buf (True, feed1, ex1, s1) = Inr (k, feed2, ex2, s2)" "steady W s1 s2"
      using save_by_reason_ok [OF W s1(2,6,7)] by blast
    have q: "map input (case_queue s2) = map input (case_queue s) @ [inp]" and inv2: "afl_inv W s2"
      and clear: "shrinks (map2 (\<lambda>t v. v AND NOT t) feed (virgin_bits s)) (virgin_bits s2)"
      using s1(2,3) s2(2) shrinks_trans [OF s1(8)] by (simp_all add: steady_def)
    have "shrinks (virgin_bits s) (virgin_bits s2)"
      using shrinks_clear [of feed "virgin_bits s"] inv feed shrinks_trans [OF _ clear] by (simp add: afl_inv_def maps_ok_def)
    moreover have "pace s s2"
      using s1(5) s2(2) pace_trans by (auto simp: steady_def)
    ultimately have "grows W s s2"
      unfolding grows_def using q inv2 by blast
    then show ?thesis
      using q clear s1(1,4) s2(1) normal False by (simp add: SaveIfInteresting_def)
  qed
qed

text \<open>
  C7. \<open>SaveIfInteresting\<close> decides by coverage alone. If the execution ended the way it should, the test
  case is added to the queue, once, with its bytes in its file, exactly if its trace hits a byte that was
  never hit or hits one in a new number class; afterwards the same trace is never new again. Any other
  execution leaves the queue as it is. Saving never fails as long as files can be written, since the names of
  saved crashes and hangs never repeat, and the invariant of the state holds again.
\<close>

theorem SaveIfInteresting_decides:
  assumes "world_ok W" and "afl_inv W s" and "length feed = map_size W" and "es_reason ex \<noteq> FAULT_ERROR"
    and "fits buf"
  shows "\<exists>k feed' ex' s' xs. SaveIfInteresting W buf feed ex s = Inr (k, feed', ex', s') \<and> afl_inv W s' \<and>
    map input (case_queue s') = map input (case_queue s) @ xs \<and>
    (if es_reason ex = crash_mode s \<and> novelty feed (virgin_bits s) 0 (map_size W) \<noteq> 0
     then \<exists>inp. xs = [inp] \<and> in_disk inp = buf else xs = []) \<and>
    (es_reason ex = crash_mode s \<longrightarrow> novelty feed (virgin_bits s') 0 (map_size W) = 0)"
proof -
  have "length (virgin_bits s) = map_size W"
    using assms(2) by (simp add: afl_inv_def maps_ok_def)
  from novelty_cleared [OF this assms(3)] show ?thesis
    using SaveIfInteresting_result [OF assms] assms(2) unfolding grows_def by blast
qed

lemma demo_world_ok: "world_ok demo_world"
  by (simp add: world_ok_def demo_world_def)

lemma demo_afl_inv: "afl_inv demo_world demo_afl"
proof -
  have "counts_ok demo_afl" "maps_ok demo_world demo_afl" "names_ok demo_afl" "inputs_ok demo_afl" "seek_to demo_afl < length (case_queue demo_afl)"
    by (simp_all add: counts_ok_def maps_ok_def names_ok_def inputs_ok_def fits_def MaxFile_def demo_afl_simps)
  then show ?thesis using demo_afl_tops by (simp add: afl_inv_def)
qed

theorem SaveIfInteresting_decides_witness:
  "\<exists>k feed' ex' s'. SaveIfInteresting demo_world [9] [1, 0, 0, 0] \<lparr>es_reason = FAULT_NONE, es_signal = 0\<rparr> demo_afl = Inr (k, feed', ex', s') \<and>
     length (case_queue s') = 3 \<and> novelty [1, 0, 0, 0] (virgin_bits s') 0 4 = 0"
proof -
  have "novelty [1, 0, 0, 0] (virgin_bits demo_afl) 0 (map_size demo_world) = 2"
    unfolding novelty_def by (rule if_P) (rule exI [of _ 0], simp add: demo_afl_simps)
  moreover have "crash_mode demo_afl = FAULT_NONE" "length (case_queue demo_afl) = 2" "map_size demo_world = 4"
    by (simp_all add: demo_afl_simps)
  ultimately obtain k feed' ex' s' xs where
    "SaveIfInteresting demo_world [9] [1, 0, 0, 0] \<lparr>es_reason = FAULT_NONE, es_signal = 0\<rparr> demo_afl = Inr (k, feed', ex', s')"
    "map input (case_queue s') = map input (case_queue demo_afl) @ xs" "length xs = 1" "novelty [1, 0, 0, 0] (virgin_bits s') 0 4 = 0"
    using SaveIfInteresting_decides [OF demo_world_ok demo_afl_inv, of "[1, 0, 0, 0]" "\<lparr>es_reason = FAULT_NONE, es_signal = 0\<rparr>" "[9]"]
    by (auto simp: fits_def MaxFile_def)
  moreover have "length (case_queue s') = length (map input (case_queue demo_afl) @ xs)"
    using calculation(2) by (metis length_map)
  ultimately show ?thesis
    using \<open>length (case_queue demo_afl) = 2\<close> by auto
qed

end
