(* ===== verification/AFL_Import.thy ===== *)
theory AFL_Import
  imports AFL_Fuzz AFL_Save
begin

text \<open>
  The start of AFL (\<open>templates/afl_state.hpp\<close> and the constructor in \<open>templates/afl_fuzzer.hpp\<close>): the test cases of the input
  directory become the queue (\<open>ReadTestcases\<close>), get their names in the output directory (\<open>PivotInputs\<close>) and are run for the
  first time (\<open>PerformDryRun\<close>). Messages on the terminal, the command line file and the banner are left out.
\<close>

section \<open>The surroundings\<close>

text \<open>What the start reads from outside: the input directory in alphabetic order, members set by the command line, and whether a hard link can be made.\<close>

record DirEntry =
  d_name :: string
  accessible :: bool
  regular :: bool
  content :: "u8 list"
  det_done :: bool

record Launch =
  in_dir :: string
  entries :: "DirEntry list option"   \<comment> \<open>\<open>None\<close> if the directory cannot be scanned\<close>
  shuffle_queue :: bool
  timeout_given :: nat
  skip_crashes :: bool
  can_link :: "string \<Rightarrow> bool"

text \<open>The first position of a substring, \<open>std::string::find\<close>.\<close>

definition find_sub :: "string \<Rightarrow> string \<Rightarrow> nat option" where
  "find_sub pat s = List.find (\<lambda>k. take (length pat) (drop k s) = pat) [0..<length s + 1]"

text \<open>\<open>sscanf\<close> with \<open>%06u\<close>: at most six characters, which may begin with a sign.\<close>

definition is_space :: "char \<Rightarrow> bool" where
  "is_space c = (c = CHR '' '' \<or> (9 \<le> (of_char c :: nat) \<and> (of_char c :: nat) \<le> 13))"

definition scan_number :: "string \<Rightarrow> nat option" where
  "scan_number s =
     (let s = take 6 (dropWhile is_space s);
          neg = (s \<noteq> [] \<and> hd s = CHR ''-'');
          s = (if s \<noteq> [] \<and> (hd s = CHR ''-'' \<or> hd s = CHR ''+'') then tl s else s);
          ds = takeWhile digit s
      in if ds = [] then None else Some (if neg then u32_sub 0 (digits_value ds) else digits_value ds))"

section \<open>Reading the test cases\<close>

fun shuffle_from :: "nat list \<Rightarrow> 'a list \<Rightarrow> rng \<Rightarrow> ('a list \<times> rng) result" where
  "shuffle_from [] ptrs rs = Inr (ptrs, rs)"
| "shuffle_from (i # is) ptrs rs =
     bindR (UR (u32_sub (u32 (length ptrs)) i) rs) (\<lambda>(r, rs).
       let j = u32 (i + r) in
       bindR (idx_vec ptrs i) (\<lambda>a. bindR (idx_vec ptrs j) (\<lambda>b. shuffle_from is (ptrs[i := b, j := a]) rs)))"

definition ShufflePtrs :: "'a list \<Rightarrow> rng \<Rightarrow> ('a list \<times> rng) result" where
  "ShufflePtrs ptrs rs = shuffle_from [0..<u32_sub (u32 (length ptrs)) 2] ptrs rs"

fun read_entries :: "World \<Rightarrow> string \<Rightarrow> DirEntry list \<Rightarrow> AFLState \<Rightarrow> AFLState result" where
  "read_entries W dir [] s = Inr s"
| "read_entries W dir (e # es) s =
     (let fn = dir @ ''/'' @ d_name e in
      if \<not> accessible e then Inl (Exit 1)
      else if \<not> regular e \<or> content e = [] \<or> find_sub ''/README.txt'' fn \<noteq> None then read_entries W dir es s
      else if MaxFile < length (content e) then Inl (Exit 1)
      else bindR (AddToQueue W fn (content e) None (det_done e) s) (\<lambda>(t, s). read_entries W dir es s))"

definition ReadTestcases :: "World \<Rightarrow> Launch \<Rightarrow> AFLState \<Rightarrow> rng \<Rightarrow> (AFLState \<times> rng) result" where
  "ReadTestcases W L s rs =
     (case entries L of None \<Rightarrow> Inl (Exit 1)
      | Some nl \<Rightarrow>
          bindR (if shuffle_queue L \<and> 1 < length nl then ShufflePtrs nl rs else Inr (nl, rs)) (\<lambda>(nl, rs).
          bindR (read_entries W (in_dir L) nl s) (\<lambda>s.
            if queued_paths s = 0 then Inl (Exit 1) else Inr (s, rs))))"

section \<open>Names in the output directory\<close>

definition case_prefix :: "AFLSetting \<Rightarrow> string" where
  "case_prefix st = (if simple_files st then ''id_'' else ''id:'')"

definition resumed :: "AFLSetting \<Rightarrow> nat \<Rightarrow> string \<Rightarrow> bool" where
  "resumed st n rsl \<longleftrightarrow> take 3 rsl = case_prefix st \<and> scan_number (drop 3 rsl) = Some n"

definition pivot_name :: "AFLSetting \<Rightarrow> nat \<Rightarrow> string \<Rightarrow> string" where
  "pivot_name st n rsl =
     out_dir st @ ''/queue/'' @
     (if resumed st n rsl then rsl
      else if \<not> simple_files st then
        ''id:'' @ zero_padded 6 n @ '',orig:'' @ drop (case find_sub '',orig:'' rsl of None \<Rightarrow> 0 | Some pos \<Rightarrow> pos + 6) rsl
      else ''id_'' @ zero_padded 6 n)"

text \<open>The depth of a test case that an earlier run has named.\<close>

definition parent_depth :: "nat \<Rightarrow> string \<Rightarrow> AFLState \<Rightarrow> AFLState" where
  "parent_depth t rsl s =
     (case find_sub '':'' rsl of None \<Rightarrow> s
      | Some pos \<Rightarrow>
          (case scan_number (drop (pos + 1) rsl) of None \<Rightarrow> s
           | Some src \<Rightarrow>
               let s = (if src < length (case_queue s) then upd_case t (\<lambda>tc. tc\<lparr>depth := depth (case_queue s ! src) + 1\<rparr>) s else s);
                   d = depth (case_queue s ! t)
               in if max_depth s < d then s\<lparr>max_depth := u32 d\<rparr> else s))"

text \<open>
  \<open>LinkAndRefer\<close>, or \<open>CopyAndRefer\<close> if no link can be made. Copying reports no error; the input then refers to a file that
  cannot be opened.
\<close>

definition refer :: "Launch \<Rightarrow> string \<Rightarrow> OnDiskExecInput \<Rightarrow> OnDiskExecInput" where
  "refer L nfn inp = inp\<lparr>in_path := nfn, hardlinked := can_link L nfn\<rparr>"

definition pivot_case :: "World \<Rightarrow> Launch \<Rightarrow> nat \<Rightarrow> AFLState \<Rightarrow> AFLState result" where
  "pivot_case W L t s =
     bindR (idx_vec (case_queue s) t) (\<lambda>tc.
       let rsl = file_name (in_path (input tc)); nfn = pivot_name (setting s) t rsl;
           s = (if resumed (setting s) t rsl then parent_depth t rsl (s\<lparr>resuming_fuzz := True\<rparr>) else s);
           s = upd_case t (\<lambda>tc. tc\<lparr>input := refer L nfn (input tc)\<rparr>) s
       in if passed_det tc then MarkAsDetDone W t s else Inr s)"

fun pivot_cases :: "World \<Rightarrow> Launch \<Rightarrow> nat list \<Rightarrow> AFLState \<Rightarrow> AFLState result" where
  "pivot_cases W L [] s = Inr s"
| "pivot_cases W L (t # ts) s = bindR (pivot_case W L t s) (\<lambda>s. pivot_cases W L ts s)"

definition PivotInputs :: "World \<Rightarrow> Launch \<Rightarrow> AFLState \<Rightarrow> AFLState result" where
  "PivotInputs W L s = pivot_cases W L [0..<length (case_queue s)] s"

section \<open>The dry run\<close>

text \<open>What follows from the result of the first calibration: go on, skip the test case, or give up.\<close>

definition dry_verdict :: "Launch \<Rightarrow> PUTExitReasonType \<Rightarrow> PUTExitReasonType \<Rightarrow> bool result" where
  "dry_verdict L mode res =
     (case res of
        FAULT_NONE \<Rightarrow> if mode \<noteq> FAULT_NONE then Inl (Exit 1) else Inr False
      | FAULT_TMOUT \<Rightarrow> if 1 < timeout_given L then Inr True else Inl (Exit 1)
      | FAULT_CRASH \<Rightarrow> if mode = FAULT_CRASH then Inr False else if skip_crashes L then Inr True else Inl (Exit 1)
      | FAULT_ERROR \<Rightarrow> Inl (Exit 1)
      | FAULT_NOINST \<Rightarrow> Inl (Exit 1)
      | FAULT_NOBITS \<Rightarrow> Inr False)"

text \<open>The loop; the result says whether it was interrupted, and counts the test cases that are skipped.\<close>

fun dry_run :: "World \<Rightarrow> Launch \<Rightarrow> nat list \<Rightarrow> nat \<Rightarrow> AFLState \<Rightarrow> (bool \<times> nat \<times> AFLState) result" where
  "dry_run W L [] failures s = Inr (False, failures, s)"
| "dry_run W L (t # ts) failures s =
     bindR (load_case W t s) (\<lambda>s.
     bindR (GetInput (input (case_queue s ! t))) (\<lambda>buf.
     bindR (CalibrateCaseWithFeedDestroyed W t buf [] \<lparr>es_reason = FAULT_NONE, es_signal = 0\<rparr> 0 True s) (\<lambda>(feed, ex, s).
       let s = upd_case t (\<lambda>tc. tc\<lparr>input := Unload (input tc)\<rparr>) s in
       if stop_soon s then Inr (True, failures, s)
       else bindR (dry_verdict L (crash_mode s) (es_reason ex)) (\<lambda>skip.
         if skip then dry_run W L ts (u32 (failures + 1)) (upd_case t (\<lambda>tc. tc\<lparr>cal_failed := CalChances\<rparr>) s)
         else dry_run W L ts failures s))))"

definition PerformDryRun :: "World \<Rightarrow> Launch \<Rightarrow> AFLState \<Rightarrow> AFLState result" where
  "PerformDryRun W L s =
     bindR (dry_run W L [0..<length (case_queue s)] 0 s) (\<lambda>(stopped, failures, s).
       if \<not> stopped \<and> failures \<noteq> 0 \<and> failures = queued_paths s then Inl (Exit 1) else Inr s)"

section \<open>A whole campaign\<close>

definition AFLFuzzer_start :: "World \<Rightarrow> Launch \<Rightarrow> AFLState \<Rightarrow> rng \<Rightarrow> (AFLState \<times> rng) result" where
  "AFLFuzzer_start W L s rs =
     bindR (ReadTestcases W L s rs) (\<lambda>(s, rs).
     bindR (PivotInputs W L s) (\<lambda>s.
     bindR (PerformDryRun W L s) (\<lambda>s. Inr (s, rs))))"

text \<open>The members of the stages before the first iteration, with the dictionary and the random numbers.\<close>

definition Stages_new :: "AFLState \<Rightarrow> AFLDictData list \<Rightarrow> rng \<Rightarrow> Stages" where
  "Stages_new s ex rs =
     \<lparr>afl = s, rand = rs, extras = ex, a_extras = [], auto_changed = False, a_collect = [], a_len = 0,
      should_construct_auto_dict = False, prev_cksum = 0, queue_cur_exec_cksum = 0, eff_map = [], eff_cnt = 0, stage_cur = 0,
      stage_max = 0, doing_det = False, skip_deterministic = False, no_arith = False, run_over10m = False, master_id = 0,
      master_max = 0, havoc_div = 1\<rparr>"

definition campaign :: "World \<Rightarrow> Sorts \<Rightarrow> Launch \<Rightarrow> AFLSetting \<Rightarrow> AFLDictData list \<Rightarrow> nat \<Rightarrow> rng \<Rightarrow> Stages result" where
  "campaign W S L st ex n rs =
     bindR (AFLFuzzer_start W L (AFLState_new W st) rs) (\<lambda>(s, rs). fuzz_rounds W S n (Stages_new s ex rs))"

end
