(* ===== verification/AFL_Undo.thy ===== *)
theory AFL_Undo
  imports AFL_Stages
begin

text \<open>
  The changes of the deterministic stages undo themselves: a second flip, or \<open>RestoreOverwrite\<close>, brings the buffer
  back. On this rest the contracts of the stages: a stage that is not cut short leaves the buffer of
  the mutator as it found it.
\<close>

section \<open>Bits\<close>

text \<open>A mutator whose buffer holds exactly the bytes \<open>xs\<close>.\<close>

definition holds :: "u8 list \<Rightarrow> Mutator \<Rightarrow> bool" where
  "holds xs m \<longleftrightarrow> outbuf m = Some xs \<and> len m = length xs"

lemma GetBuf_holds: "holds xs m \<Longrightarrow> GetBuf m = Inr xs"
  by (simp add: holds_def GetBuf_def)

definition flip_at :: "nat \<Rightarrow> u8 list \<Rightarrow> u8 list" where
  "flip_at bf xs = xs[bf div 8 := xs ! (bf div 8) XOR flip_mask bf]"

text \<open>The \<open>width\<close> bits from \<open>pos\<close> on, counted from the most significant bit of the first byte.\<close>

definition flip_bits :: "nat \<Rightarrow> nat \<Rightarrow> u8 list \<Rightarrow> u8 list" where
  "flip_bits pos width xs = fold (\<lambda>i. flip_at (pos + i)) [0..<width] xs"

lemma length_flip_at [simp]: "length (flip_at bf xs) = length xs"
  by (simp add: flip_at_def)

lemma length_fold_flip [simp]: "length (fold (\<lambda>i. flip_at (pos + i)) is xs) = length xs"
  by (induction "is" arbitrary: xs) simp_all

lemma length_flip_bits [simp]: "length (flip_bits pos width xs) = length xs"
  by (simp add: flip_bits_def)

lemma flip_loop_fold:
  "(\<And>i. i \<in> set is \<Longrightarrow> pos + i < 8 * length xs \<and> pos + i < 2 ^ 32) \<Longrightarrow>
   flip_loop (Some xs) pos is = Inr (Some (fold (\<lambda>i. flip_at (pos + i)) is xs))"
proof (induction "is" arbitrary: xs)
  case (Cons i js)
  then show ?case
    using Cons.IH [of "flip_at (pos + i) xs"] by (simp add: FLIP_BIT_ok flip_at_def)
qed simp

lemma FlipBit_holds:
  assumes "holds xs m" and "pos + width \<le> 8 * length xs" and "length xs \<le> MaxFile"
  shows "FlipBit m pos width = Inr (m\<lparr>outbuf := Some (flip_bits pos width xs)\<rparr>)"
proof -
  have "flip_loop (Some xs) pos [0..<width] = Inr (Some (flip_bits pos width xs))"
    unfolding flip_bits_def by (rule flip_loop_fold) (use assms in \<open>auto simp: MaxFile_def\<close>)
  then show ?thesis using assms(1) by (simp add: FlipBit_def holds_def)
qed

lemma flip_at_commute: "flip_at a (flip_at b xs) = flip_at b (flip_at a xs)"
proof (cases "a div 8 = b div 8")
  case True
  have "(c XOR flip_mask b) XOR flip_mask a = (c XOR flip_mask a) XOR flip_mask b" for c :: u8
    by (metis xor.assoc xor.commute)
  with True show ?thesis
    by (cases "a div 8 < length xs") (simp_all add: flip_at_def not_less list_update_beyond)
next
  case False
  then show ?thesis by (simp add: flip_at_def list_update_swap nth_list_update)
qed

lemma flip_at_twice [simp]: "flip_at a (flip_at a xs) = xs"
  by (cases "a div 8 < length xs") (simp_all add: flip_at_def xor.assoc not_less list_update_beyond)

lemma fold_flip_at: "fold (\<lambda>i. flip_at (pos + i)) is (flip_at a xs) = flip_at a (fold (\<lambda>i. flip_at (pos + i)) is xs)"
proof (induction "is" arbitrary: xs)
  case (Cons i js)
  then show ?case by (simp add: flip_at_commute [of "pos + i" a])
qed simp

lemma fold_flip_twice: "fold (\<lambda>i. flip_at (pos + i)) is (fold (\<lambda>i. flip_at (pos + i)) is xs) = xs"
  by (induction "is" arbitrary: xs) (simp_all add: fold_flip_at)

lemma flip_bits_twice [simp]: "flip_bits pos width (flip_bits pos width xs) = xs"
  by (simp add: flip_bits_def fold_flip_twice)

text \<open>Which bits change.\<close>

lemma bit_flip_mask: "j < 8 \<Longrightarrow> bit (flip_mask bf) j \<longleftrightarrow> bf mod 8 = 7 - j"
proof -
  assume j: "j < 8"
  have m: "bf AND 7 = bf mod 8"
    using take_bit_eq_mask [of 3 bf] by (simp add: mask_eq_exp_minus_1 take_bit_eq_mod)
  have "bit ((2 :: u8) ^ 7) n \<longleftrightarrow> n = 7" for n
    by (simp only: bit_exp_iff) auto
  then have "bit (128 :: u8) n \<longleftrightarrow> n = 7" for n
    by simp
  then have "bit (flip_mask bf) j \<longleftrightarrow> j + bf mod 8 = 7"
    unfolding flip_mask_def m by (simp add: bit_drop_bit_eq) linarith
  then show ?thesis using j by linarith
qed

lemma bit_flip_at:
  assumes "k < length xs" and "j < 8"
  shows "bit (flip_at bf xs ! k) j \<longleftrightarrow> bit (xs ! k) j \<noteq> (bf = 8 * k + (7 - j))"
proof (cases "bf div 8 = k")
  case True
  then have "bf mod 8 = 7 - j \<longleftrightarrow> bf = 8 * k + (7 - j)"
    using assms(2) by (metis add.commute add_left_cancel mult_div_mod_eq)
  then show ?thesis
    using True assms by (simp add: flip_at_def bit_xor_iff bit_flip_mask)
next
  case False
  then have "bf \<noteq> 8 * k + (7 - j)" by auto
  with False show ?thesis by (simp add: flip_at_def)
qed

lemma bit_flip_bits:
  assumes "k < length xs" and "j < 8"
  shows "bit (flip_bits pos width xs ! k) j \<longleftrightarrow> bit (xs ! k) j \<noteq> (pos \<le> 8 * k + (7 - j) \<and> 8 * k + (7 - j) < pos + width)"
proof (induction width)
  case 0
  then show ?case by (simp add: flip_bits_def)
next
  case (Suc width)
  have "flip_bits pos (Suc width) xs = flip_at (pos + width) (flip_bits pos width xs)"
    by (simp add: flip_bits_def)
  then show ?case
    using Suc assms bit_flip_at [of k "flip_bits pos width xs" j "pos + width"] by auto
qed

section \<open>Bytes and words\<close>

lemma bit_of_le: "bit (of_le bs) k \<longleftrightarrow> k < 32 \<and> k div 8 < length bs \<and> bit (bs ! (k div 8)) (k mod 8)"
proof (induction bs arbitrary: k)
  case (Cons b bs)
  show ?case
  proof (cases "k < 8")
    case True
    then show ?thesis by (simp add: bit_or_iff bit_push_bit_iff bit_ucast_iff)
  next
    case False
    have "\<not> bit b k" using False u8_bit [of b k] by auto
    then have "bit (of_le (b # bs)) k \<longleftrightarrow> k < 32 \<and> bit (of_le bs) (k - 8)"
      using False by (auto simp: bit_or_iff bit_push_bit_iff bit_ucast_iff)
    moreover have "k div 8 = Suc ((k - 8) div 8)" "k mod 8 = (k - 8) mod 8"
      using False by (simp_all add: le_div_geq le_mod_geq)
    ultimately show ?thesis
      using Cons [of "k - 8"] by auto
  qed
qed simp

lemma le_bytes_of_le: "length bs \<le> 4 \<Longrightarrow> le_bytes (length bs) (of_le bs) = bs"
proof (rule nth_equalityI)
  fix i assume n: "length bs \<le> 4" and "i < length (le_bytes (length bs) (of_le bs))"
  then have i: "i < length bs" by simp
  have "bit (ucast (drop_bit (8 * i) (of_le bs)) :: u8) j \<longleftrightarrow> bit (bs ! i) j" for j
    using i n u8_bit [of "bs ! i" j] by (auto simp: bit_ucast_iff bit_drop_bit_eq bit_of_le)
  then show "le_bytes (length bs) (of_le bs) ! i = bs ! i"
    using i by (simp add: le_bytes_def bit_eq_iff)
qed simp

lemma of_le_le_bytes: "n \<le> 4 \<Longrightarrow> of_le (le_bytes n v) = take_bit (8 * n) v"
  by (rule bit_eqI) (auto simp: bit_of_le le_bytes_def bit_ucast_iff bit_drop_bit_eq bit_take_bit_iff)

lemma le_bytes_take_bit: "le_bytes n (take_bit (8 * n) v) = le_bytes n v"
  by (auto simp: le_bytes_def bit_eq_iff bit_ucast_iff bit_drop_bit_eq bit_take_bit_iff)

lemma le_bytes_flip: "length bs = n \<Longrightarrow> n \<le> 4 \<Longrightarrow> le_bytes n (of_le bs XOR mask (8 * n)) = map NOT bs"
proof (rule nth_equalityI)
  fix i assume n: "length bs = n" "n \<le> 4" and "i < length (le_bytes n (of_le bs XOR mask (8 * n)))"
  then have i: "i < n" by simp
  have "8 * i + j < 8 * n \<and> (8 * i + j) div 8 = i \<and> (8 * i + j) mod 8 = j" if "j < 8" for j
    using i that by auto
  then have "bit (ucast (drop_bit (8 * i) (of_le bs XOR mask (8 * n))) :: u8) j \<longleftrightarrow> bit (NOT (bs ! i)) j" for j
    using i n by (cases "j < 8") (auto simp: bit_ucast_iff bit_drop_bit_eq bit_xor_iff bit_mask_iff bit_of_le bit_not_iff)
  then have "ucast (drop_bit (8 * i) (of_le bs XOR mask (8 * n))) = NOT (bs ! i)"
    by (intro bit_eqI) blast
  then show "le_bytes n (of_le bs XOR mask (8 * n)) ! i = map NOT bs ! i"
    using i n by (simp add: le_bytes_def)
qed simp

text \<open>The \<open>n\<close> bytes at \<open>pos\<close> replaced.\<close>

definition splice_in :: "nat \<Rightarrow> u8 list \<Rightarrow> u8 list \<Rightarrow> u8 list" where
  "splice_in pos new xs = take pos xs @ new @ drop (pos + length new) xs"

lemma length_splice_in [simp]: "pos + length new \<le> length xs \<Longrightarrow> length (splice_in pos new xs) = length xs"
  by (simp add: splice_in_def)

lemma read_splice_in: "pos + length new \<le> length xs \<Longrightarrow> take (length new) (drop pos (splice_in pos new xs)) = new"
  by (simp add: splice_in_def)

lemma splice_in_twice: "pos + length a \<le> length xs \<Longrightarrow> length a = length b \<Longrightarrow> splice_in pos b (splice_in pos a xs) = splice_in pos b xs"
  by (simp add: splice_in_def)

lemma splice_in_same: "pos + n \<le> length xs \<Longrightarrow> splice_in pos (take n (drop pos xs)) xs = xs"
  by (simp add: splice_in_def) (metis add.commute append_take_drop_id drop_drop)

lemma wr_holds: "outbuf m = Some xs \<Longrightarrow> pos + length new \<le> length xs \<Longrightarrow> wr (outbuf m) pos new = Inr (Some (splice_in pos new xs))"
  by (simp add: splice_in_def)

lemma Overwrite_holds:
  "outbuf m = Some xs \<Longrightarrow> pos + n \<le> length xs \<Longrightarrow> Overwrite n m pos v = Inr (m\<lparr>outbuf := Some (splice_in pos (le_bytes n v) xs)\<rparr>)"
  by (simp add: Overwrite_def splice_in_def)

definition flip_bytes :: "nat \<Rightarrow> nat \<Rightarrow> u8 list \<Rightarrow> u8 list" where
  "flip_bytes pos n xs = splice_in pos (map NOT (take n (drop pos xs))) xs"

lemma length_flip_bytes [simp]: "pos + n \<le> length xs \<Longrightarrow> length (flip_bytes pos n xs) = length xs"
  by (simp add: flip_bytes_def)

lemma flip_bytes_twice:
  assumes "pos + n \<le> length xs"
  shows "flip_bytes pos n (flip_bytes pos n xs) = xs"
proof -
  let ?new = "map NOT (take n (drop pos xs))"
  have l: "length ?new = n" using assms by simp
  have "take n (drop pos (splice_in pos ?new xs)) = ?new"
    using read_splice_in [of pos ?new xs] l assms by simp
  moreover have "map NOT ?new = take n (drop pos xs)"
    by (simp add: comp_def)
  ultimately show ?thesis
    using splice_in_twice [of pos ?new xs "take n (drop pos xs)"] splice_in_same [OF assms] l assms
    by (simp add: flip_bytes_def del: map_map)
qed

lemma FlipByte_holds:
  assumes "holds xs m" and "pos + n \<le> length xs" and "n = 1 \<or> n = 2 \<or> n = 4"
  shows "FlipByte m pos n = Inr (m\<lparr>outbuf := Some (flip_bytes pos n xs)\<rparr>)"
proof -
  have ob: "outbuf m = Some xs" using assms(1) by (simp add: holds_def)
  have l: "length (take n (drop pos xs)) = n" "n \<le> 4" using assms(2,3) by auto
  have "mask 8 = (0xFF :: uint)" "mask 16 = (0xFFFF :: uint)" "mask 32 = (0xFFFFFFFF :: uint)"
    by (simp_all add: mask_eq_exp_minus_1)
  then have "FlipByte m pos n = Overwrite n m pos (of_le (take n (drop pos xs)) XOR mask (8 * n))"
    using assms(2,3) ReadMem_ok [OF ob, of pos n] by (auto simp: FlipByte_def)
  then show ?thesis
    unfolding Overwrite_holds [OF ob assms(2)] le_bytes_flip [OF l] flip_bytes_def .
qed

section \<open>Changes that may be rejected\<close>

text \<open>
  What \<open>AddN\<close>, \<open>SubN\<close> and \<open>InterestN\<close> of the AFL mutator have in common: nothing, or a change of \<open>n\<close> bytes that
  \<open>RestoreOverwrite\<close> undoes.
\<close>

definition undoable :: "nat \<Rightarrow> u8 list \<Rightarrow> (bool \<times> Mutator) result \<Rightarrow> Mutator \<Rightarrow> bool" where
  "undoable n xs r m \<longleftrightarrow> r = Inr (False, m) \<or>
     (\<exists>m' ys. r = Inr (True, m') \<and> holds ys m' \<and> length ys = length xs \<and> Mutator.input m' = Mutator.input m \<and>
        (\<exists>m''. RestoreOverwrite n m' = Inr m'' \<and> holds xs m'' \<and> Mutator.input m'' = Mutator.input m))"

lemma overwrite_if_undoable:
  assumes "holds xs m" and "pos + n \<le> length xs" and "n \<le> 4" and "orig = of_le (take n (drop pos xs))"
  shows "undoable n xs (overwrite_if need n m pos orig r) m"
proof (cases need)
  case True
  let ?bs = "take n (drop pos xs)" and ?ys = "splice_in pos (le_bytes n r) xs"
  let ?m = "m\<lparr>outbuf := Some ?ys, val_for_restore := orig, pos_for_restore := pos\<rparr>"
  have ob: "outbuf m = Some xs" "len m = length xs" using assms(1) by (simp_all add: holds_def)
  have l: "length ?bs = n" "length ?ys = length xs" using assms(2) by simp_all
  have "le_bytes n orig = ?bs"
    using le_bytes_of_le [of ?bs] l(1) assms(3,4) by simp
  then have "RestoreOverwrite n ?m = Inr (?m\<lparr>outbuf := Some xs\<rparr>)"
    using Overwrite_holds [of ?m ?ys pos n orig] splice_in_twice [of pos "le_bytes n r" xs ?bs] splice_in_same [OF assms(2)] assms(2) l
    by (simp add: RestoreOverwrite_def)
  moreover have "overwrite_if need n m pos orig r = Inr (True, ?m)"
    using True Overwrite_holds [OF ob(1) assms(2)] by (simp add: overwrite_if_def)
  moreover have "holds ?ys ?m" "holds xs (?m\<lparr>outbuf := Some xs\<rparr>)" using l(2) ob(2) by (simp_all add: holds_def)
  ultimately show ?thesis
    unfolding undoable_def using l(2) by fastforce
qed (simp add: overwrite_if_def undoable_def)

lemma arith_undoable:
  assumes "holds xs m" and "pos + n \<le> length xs" and "n \<le> 4"
  shows "undoable n xs (AFL_AddN n m pos v be) m" and "undoable n xs (AFL_SubN n m pos v be) m"
proof -
  have "ReadMem n m pos = Inr (of_le (take n (drop pos xs)))"
    using assms(1,2) ReadMem_ok [of m xs pos n] by (simp add: holds_def)
  then show "undoable n xs (AFL_AddN n m pos v be) m" "undoable n xs (AFL_SubN n m pos v be) m"
    using overwrite_if_undoable [OF assms refl] by (simp_all add: AFL_AddN_def AFL_SubN_def Let_def)
qed

lemma interest_undoable:
  assumes "holds xs m" and "pos + n \<le> length xs" and "n \<le> 4" and "idx < length (interest_table n)"
  shows "undoable n xs (AFL_InterestN n m pos idx be) m"
proof -
  have "ReadMem n m pos = Inr (of_le (take n (drop pos xs)))"
    using assms(1,2) ReadMem_ok [of m xs pos n] by (simp add: holds_def)
  moreover have "\<exists>v. interest_val n idx b = Inr v" for b
    using assms(4) by (auto simp: interest_val_def interest_table_def split: if_splits)
  then obtain v v' where "interest_val n idx be = Inr v" "interest_val n idx False = Inr v'"
    by blast
  ultimately show ?thesis
    using overwrite_if_undoable [OF assms(1-3) refl] by (simp add: AFL_InterestN_def Let_def)
qed

end
