(* ===== verification/AFL_Contract.thy ===== *)
theory AFL_Contract
  imports AFL_Undo AFL_Fuzz
begin

text \<open>
  The contract between a mutation stage and its successors. A stage relies on its successors only to keep an
  invariant of the state; from this follows that the stage returns, keeps the invariant, and hands its
  successors only buffers of the length it was given. Unless it is cut short it leaves the buffer of the mutator as
  it found it.
\<close>

section \<open>Rules for work\<close>

text \<open>
  The work returns normally. If it is cut short, \<open>B\<close> holds of the state, otherwise \<open>J\<close>, and \<open>R\<close> of the mutator.
\<close>

definition ends :: "(Stages \<Rightarrow> bool) \<Rightarrow> (Mutator \<Rightarrow> bool) \<Rightarrow> (Stages \<Rightarrow> bool) \<Rightarrow> (bool \<times> Mutator \<times> Stages) result \<Rightarrow> bool" where
  "ends B R J r \<longleftrightarrow> (\<exists>stop m z. r = Inr (stop, m, z) \<and> (if stop then B z else R m \<and> J z))"

lemma ends_Inr [simp]: "ends B R J (Inr (stop, m, z)) \<longleftrightarrow> (if stop then B z else R m \<and> J z)"
  by (simp add: ends_def)

lemma endsE:
  assumes "ends B R J r"
  obtains (stopped) m z where "r = Inr (True, m, z)" "B z" | (finished) m z where "r = Inr (False, m, z)" "R m" "J z"
proof -
  obtain stop m z where "r = Inr (stop, m, z)" "if stop then B z else R m \<and> J z"
    using assms by (auto simp: ends_def)
  then show thesis using that by (cases stop) auto
qed

lemma ends_weaken: "ends B R J r \<Longrightarrow> (\<And>m. R m \<Longrightarrow> R' m) \<Longrightarrow> (\<And>z. J z \<Longrightarrow> J' z) \<Longrightarrow> ends B R' J' r"
  by (erule endsE) simp_all

lemma ends_and_then:
  assumes "ends B R J r" and "\<And>m z. R m \<Longrightarrow> J z \<Longrightarrow> ends B R' K (f m z)"
  shows "ends B R' K (and_then r f)"
  using assms by (elim endsE) (simp_all add: and_then_def)

lemma ends_for_each:
  assumes "\<And>i m z. i \<in> set is \<Longrightarrow> R m \<Longrightarrow> I z \<Longrightarrow> ends B R I (f i m z)" and "R m" and "I z"
  shows "ends B R I (for_each f is m z)"
  using assms
proof (induction "is" arbitrary: m z)
  case (Cons i js)
  show ?case unfolding for_each.simps
    by (rule ends_and_then [OF Cons.prems(1)]) (use Cons in auto)
qed simp

text \<open>The invariant may depend on the number of the round.\<close>

lemma ends_for_each_upt:
  assumes "\<And>i m z. a \<le> i \<Longrightarrow> i < b \<Longrightarrow> R m \<Longrightarrow> I i z \<Longrightarrow> ends B R (I (Suc i)) (f i m z)" and "R m" and "I a z" and "a \<le> b"
  shows "ends B R (I b) (for_each f [a..<b] m z)"
  using assms
proof (induction "b - a" arbitrary: a m z)
  case (Suc k)
  then have "[a..<b] = a # [Suc a..<b]" by (simp add: upt_conv_Cons)
  moreover have "ends B R (I b) (and_then (f a m z) (for_each f [Suc a..<b]))"
    by (rule ends_and_then [OF Suc.prems(1)]) (use Suc in auto)
  ultimately show ?case by simp
qed simp

text \<open>Everything but the members that describe the progress of a stage, and the random numbers.\<close>

definition unmark :: "Stages \<Rightarrow> Stages" where
  "unmark z = z\<lparr>afl := (afl z)\<lparr>stage_short := [], stage_cur_byte := 0, stage_cur_val := 0, stage_val_type := STAGE_VAL_NONE\<rparr>,
     stage_cur := 0, stage_max := 0, should_construct_auto_dict := False, rand := []\<rparr>"

lemma unmark_marks [simp]:
  "unmark (label s z) = unmark z" "unmark (at_byte i z) = unmark z" "unmark (val_type ty z) = unmark z"
  "unmark (cur_val v z) = unmark z" "unmark (progress a b z) = unmark z" "unmark (done_one z) = unmark z"
  "unmark (fewer k z) = unmark z" "unmark (z\<lparr>stage_cur := c\<rparr>) = unmark z"
  "unmark (z\<lparr>should_construct_auto_dict := d\<rparr>) = unmark z" "unmark (z\<lparr>rand := rs\<rparr>) = unmark z"
  by (simp_all add: unmark_def label_def at_byte_def val_type_def cur_val_def progress_def done_one_def fewer_def)

lemma stage_cur_marks [simp]:
  "stage_cur (at_byte i z) = stage_cur z" "stage_cur (label s z) = stage_cur z" "stage_cur (val_type ty z) = stage_cur z"
  "stage_cur (cur_val v z) = stage_cur z"
  by (simp_all add: label_def at_byte_def val_type_def cur_val_def)

text \<open>A mutator made for \<open>inp\<close> whose buffer holds \<open>xs\<close>.\<close>

definition rest :: "u8 list \<Rightarrow> u8 list \<Rightarrow> Mutator \<Rightarrow> bool" where
  "rest inp xs m \<longleftrightarrow> holds xs m \<and> Mutator.input m = inp"

lemma rest_len: "rest inp xs m \<Longrightarrow> len m = length xs"
  by (simp add: rest_def holds_def)

section \<open>One execution\<close>

text \<open>
  What a stage asks of its successors, for buffers of length \<open>n\<close>: from \<open>I\<close>, at the positions \<open>allowed\<close> of the stage, an
  execution returns with \<open>J\<close>, or with \<open>B\<close> and the wish to stop.
\<close>

locale put_contract =
  fixes put :: put and n :: nat and B I J :: "Stages \<Rightarrow> bool" and allowed :: "int \<Rightarrow> bool"
  assumes put_ok: "length buf = n \<Longrightarrow> I z \<Longrightarrow> allowed (stage_cur z) \<Longrightarrow>
      \<exists>stop z'. put buf z = Inr (stop, z') \<and> (if stop then B z' else J z')"
    and marked: "unmark z' = unmark z \<Longrightarrow> I z \<Longrightarrow> I z'" and marked_after: "unmark z' = unmark z \<Longrightarrow> J z \<Longrightarrow> J z'"
    and n_pos: "I z \<Longrightarrow> 0 < n" and n_max: "I z \<Longrightarrow> n \<le> MaxFile"
begin

lemma call_put_ends:
  assumes "holds ys m" and "length ys = n" and "I z" and "allowed (stage_cur z)"
  shows "ends B (\<lambda>m'. m' = m) J (call_put put m z)"
  using put_ok [OF assms(2-4)] GetBuf_holds [OF assms(1)] by (auto simp: call_put_def)

text \<open>A change, an execution, and the change undone.\<close>

lemma undone_ends:
  assumes "change = Inr m'" and "holds ys m'" and "length ys = n" and "I z" and "allowed (stage_cur z)"
    and "\<exists>m''. undo m' = Inr m'' \<and> R m''" and "\<And>z. unmark (after z) = unmark z"
  shows "ends B R J (bindR change (\<lambda>m. and_then (call_put put m z) (\<lambda>m z. bindR (undo m) (\<lambda>m. Inr (False, m, after z)))))"
proof -
  obtain m'' where u: "undo m' = Inr m''" "R m''" using assms(6) by blast
  have "J (after z')" if "J z'" for z' by (rule marked_after [OF assms(7) that])
  then have "ends B R J (and_then (call_put put m' z) (\<lambda>m z. bindR (undo m) (\<lambda>m. Inr (False, m, after z))))"
    by (intro ends_and_then [OF call_put_ends [OF assms(2-5)]]) (use u in simp)
  then show ?thesis by (simp add: assms(1))
qed

lemma flip_step_ends:
  assumes "rest inp xs m" and "length xs = n" and "i + width \<le> 8 * n" and "I z" and "allowed (int i)"
  shows "ends B (rest inp xs) J (flip_step put width i m z)"
proof -
  have m: "holds xs m" using assms(1) by (simp add: rest_def)
  define m' where "m' = m\<lparr>outbuf := Some (flip_bits i width xs)\<rparr>"
  have m': "holds (flip_bits i width xs) m'" using m by (simp add: holds_def m'_def)
  have "FlipBit m i width = Inr m'"
    unfolding m'_def by (rule FlipBit_holds [OF m]) (use assms n_max [OF assms(4)] in auto)
  moreover have "FlipBit m' i width = Inr m"
    using FlipBit_holds [OF m', of i width] assms(2,3) n_max [OF assms(4)] m by (simp add: m'_def holds_def)
  ultimately show ?thesis
    unfolding flip_step_def
    by (intro undone_ends [where after = "\<lambda>z. z", OF _ m']) (use assms marked [OF _ assms(4)] in auto)
qed

lemma byte_flip1_step_ends:
  assumes "rest inp xs m" and "length xs = n" and "i < n" and "I z" and "allowed (int i)"
  shows "ends B (rest inp xs) J (byte_flip1_step put i m z)"
proof -
  have m: "holds xs m" using assms(1) by (simp add: rest_def)
  define m' where "m' = m\<lparr>outbuf := Some (flip_bytes i 1 xs)\<rparr>"
  have m': "holds (flip_bytes i 1 xs) m'" using m assms by (simp add: holds_def m'_def)
  have "FlipByte m i 1 = Inr m'"
    unfolding m'_def by (rule FlipByte_holds [OF m]) (use assms in auto)
  moreover have "FlipByte m' i 1 = Inr m"
    using FlipByte_holds [OF m', of i 1] flip_bytes_twice [of i 1 xs] assms(2,3) m by (simp add: m'_def holds_def)
  ultimately show ?thesis
    unfolding byte_flip1_step_def
    by (intro undone_ends [where after = "\<lambda>z. z", OF _ m']) (use assms marked [OF _ assms(4)] in auto)
qed

end

section \<open>Stages without the effector map\<close>

lemma s32_small: "- 2147483648 \<le> x \<Longrightarrow> x < 2147483648 \<Longrightarrow> s32 x = x"
  by (simp add: s32_def)

lemma bits_small: "l \<le> MaxFile \<Longrightarrow> u32 (push_bit 3 l) = 8 * l"
  by (simp add: MaxFile_def push_bit_eq_mult)

locale put_loop = put_contract put n B I I allowed for put n B I allowed
begin

lemma bit_flip_width_ends:
  assumes "rest inp xs m" and "length xs = n" and "0 < width" and "width \<le> 8" and "I z"
    and "\<And>i. i < 8 * n \<Longrightarrow> allowed (int i)"
  shows "ends B (rest inp xs) I (bit_flip_width put width m z)"
proof -
  define z' where "z' = label (''flip'' @ decimal width) (progress 0 (s32 (int (u32 (push_bit 3 (len m))) + 1 - int width)) z)"
  have "stage_max z' = int (8 * n) + 1 - int width"
    using assms(1,2,4) n_max [OF assms(5)] n_pos [OF assms(5)] rest_len [OF assms(1)]
    by (simp add: z'_def label_def progress_def bits_small s32_small MaxFile_def)
  then have k: "nat (stage_max z') = 8 * n + 1 - width" by (simp add: nat_diff_distrib)
  have "ends B (rest inp xs) I (for_each (flip_step put width) [0..<nat (stage_max z')] m z')"
    by (rule ends_for_each [OF flip_step_ends])
      (use assms k marked [OF _ assms(5)] n_pos [OF assms(5)] in \<open>auto simp: z'_def\<close>)
  then show ?thesis unfolding bit_flip_width_def Let_def z'_def .
qed

lemma BitFlipOther_ends:
  assumes "rest inp xs m" and "length xs = n" and "I z" and "\<And>i. i < 8 * n \<Longrightarrow> allowed (int i)"
  shows "ends B (rest inp xs) I (BitFlipOther put m z)"
  unfolding BitFlipOther_def by (rule ends_for_each [OF bit_flip_width_ends]) (use assms in auto)

lemma byte_flip1_loop_ends:
  assumes "rest inp xs m" and "length xs = n" and "I z" and "\<And>i. i < n \<Longrightarrow> allowed (int i)"
  shows "ends B (rest inp xs) I (for_each (byte_flip1_step put) [0..<n] m z)"
  by (rule ends_for_each [OF byte_flip1_step_ends]) (use assms in auto)

end

section \<open>Stages that consult the effector map\<close>

text \<open>
  The dictionary stages. \<open>covered\<close>: outside the \<open>k\<close> bytes at \<open>i\<close> that were written last the buffer is the original one.
  \<open>ordered\<close>: every entry is at least as long as the entries before it.
\<close>

definition covered :: "u8 list \<Rightarrow> nat \<Rightarrow> nat \<Rightarrow> u8 list \<Rightarrow> bool" where
  "covered inp i k ys \<longleftrightarrow> take i ys = take i inp \<and> drop (i + k) ys = drop (i + k) inp"

definition ordered :: "nat \<Rightarrow> AFLDictData list \<Rightarrow> bool" where
  "ordered k es \<longleftrightarrow> sorted (k # map (\<lambda>e. length (data e)) es) \<and> (\<forall>e \<in> set es. length (data e) < 2 ^ 32)"

lemma ordered_skip: "ordered k (e # es) \<Longrightarrow> ordered k es"
  by (auto simp: ordered_def)

lemma ordered_write: "ordered k (e # es) \<Longrightarrow> ordered (u32 (length (data e))) es \<and> k \<le> u32 (length (data e))"
  by (auto simp: ordered_def)

lemma covered_write:
  assumes "covered inp i k ys" and "k \<le> length new" and "i + length new \<le> length ys"
  shows "covered inp i (length new) (splice_in i new ys)"
proof -
  have "drop (i + length new) ys = drop (length new - k) (drop (i + k) ys)"
    using assms(2) by (simp add: add.commute)
  also have "\<dots> = drop (i + length new) inp"
    using assms(1,2) by (simp add: covered_def add.commute)
  finally have "drop (i + length new) ys = drop (i + length new) inp" .
  moreover have "length (take i ys) = length (take i inp)"
    using assms(1) by (simp only: covered_def)
  then have "i \<le> length inp" using assms(3) by simp
  ultimately show ?thesis
    using assms(1,3) by (simp add: covered_def splice_in_def)
qed

lemma covered_restore:
  assumes "covered inp i k ys" and "length ys = length inp" and "i + k \<le> length inp"
  shows "splice_in i (take k (drop i inp)) ys = inp"
  using assms splice_in_same [OF assms(3)] by (simp add: covered_def splice_in_def)

text \<open>The map has a cell for every eight bytes, and the position of the stage does not matter any more.\<close>

locale mapped = put_loop +
  assumes eff_len: "I z \<Longrightarrow> length (eff_map z) = EFF_ALEN n" and few_extras: "I z \<Longrightarrow> length (extras z) < 2 ^ 31"
    and anywhere: "allowed c"
begin

lemma n_less: "I z \<Longrightarrow> n < 2 ^ 32"
  using n_max [of z] by (simp add: MaxFile_def)

lemma eff_any_ok: "I z \<Longrightarrow> head + k \<le> EFF_ALEN n \<Longrightarrow> \<exists>b. eff_any z head k = Inr b"
  using eff_len [of z] by (simp add: eff_any_def)

lemma should_mutate_ok:
  assumes "I z" and "0 < width" and "i + width \<le> n"
  shows "\<exists>b. should_mutate z i width = Inr b"
proof -
  have s: "u32 (i + width - 1) = i + width - 1" "EFF_APOS i \<le> EFF_APOS (i + width - 1)" "EFF_APOS (i + width - 1) < 2 ^ 31"
    using assms(2,3) n_max [OF assms(1)] by (auto simp: MaxFile_def EFF_APOS_div div_le_mono)
  then have "u32 (u32_sub (EFF_APOS (i + width - 1)) (EFF_APOS i) + 1) = EFF_APOS (i + width - 1) - EFF_APOS i + 1"
    by simp
  moreover have "EFF_APOS (i + width - 1) < EFF_ALEN n"
    by (rule EFF_APOS_less [OF _ n_less [OF assms(1)]]) (use assms(2,3) in simp)
  ultimately show ?thesis
    using eff_any_ok [OF assms(1), of "EFF_APOS i" "EFF_APOS (i + width - 1) - EFF_APOS i + 1"] s
    by (simp add: should_mutate_def Let_def)
qed

lemma mutable_posI: "I z \<Longrightarrow> i < u32_sub (u32 (n + 1)) width \<Longrightarrow> 0 < width \<Longrightarrow> width \<le> n \<Longrightarrow> i + width \<le> n"
  using n_max [of z] by (simp add: MaxFile_def)

lemma byte_flip_step_ends:
  assumes "rest inp xs m" and "length xs = n" and "i + width \<le> n" and "width = 1 \<or> width = 2 \<or> width = 4" and "I z"
  shows "ends B (rest inp xs) I (byte_flip_step put width i m z)"
proof -
  have m: "holds xs m" using assms(1) by (simp add: rest_def)
  define m' where "m' = m\<lparr>outbuf := Some (flip_bytes i width xs)\<rparr>"
  have m': "holds (flip_bytes i width xs) m'" using m assms by (simp add: holds_def m'_def)
  have "FlipByte m i width = Inr m'"
    unfolding m'_def by (rule FlipByte_holds [OF m]) (use assms in auto)
  moreover have "FlipByte m' i width = Inr m"
    using FlipByte_holds [OF m', of i width] flip_bytes_twice [of i width xs] assms m by (simp add: m'_def holds_def)
  ultimately have "ends B (rest inp xs) I (bindR (FlipByte m i width) (\<lambda>m. and_then (call_put put m (at_byte (int i) z))
      (\<lambda>m z. bindR (FlipByte m i width) (\<lambda>m. Inr (False, m, done_one z)))))"
    by (intro undone_ends [where after = done_one, OF _ m']) (use assms marked [OF _ assms(5)] anywhere in auto)
  moreover obtain b where "should_mutate z i width = Inr b"
    using should_mutate_ok [of z width i] assms by auto
  ultimately show ?thesis
    using assms(1) marked [OF _ assms(5), of "fewer 1 z"] by (simp add: byte_flip_step_def)
qed

lemma byte_flip_width_ends:
  assumes "rest inp xs m" and "length xs = n" and "width \<le> n" and "width = 1 \<or> width = 2 \<or> width = 4" and "I z"
  shows "ends B (rest inp xs) I (byte_flip_width put width m z)"
  unfolding byte_flip_width_def mutable_pos_def rest_len [OF assms(1)] assms(2)
proof (rule ends_for_each [OF byte_flip_step_ends])
  show "i + width \<le> n" if "i \<in> set [0..<u32_sub (u32 (n + 1)) width]" for i
    by (rule mutable_posI [OF assms(5)]) (use that assms(3,4) in auto)
qed (use assms marked [OF _ assms(5)] in auto)

lemma ByteFlipOther_ends:
  assumes "rest inp xs m" and "length xs = n" and "I z"
  shows "ends B (rest inp xs) I (ByteFlipOther put m z)"
proof (cases "n < 2")
  case False
  have "ends B (rest inp xs) I (and_then (byte_flip_width put 2 m z) (\<lambda>m z. if len m < 4 then Inr (False, m, z) else byte_flip_width put 4 m z))"
    by (rule ends_and_then [OF byte_flip_width_ends])
      (use assms False byte_flip_width_ends rest_len in \<open>auto simp: not_less\<close>)
  then show ?thesis using False assms(2) rest_len [OF assms(1)] by (simp add: ByteFlipOther_def)
qed (use assms rest_len [OF assms(1)] in \<open>simp add: ByteFlipOther_def\<close>)

lemma try_change_ends:
  assumes "undoable width xs change m" and "rest inp xs m" and "length xs = n" and "I z" and "\<And>z. unmark (mark z) = unmark z"
  shows "ends B (rest inp xs) I (try_change put width change mark z)"
  using assms(1) unfolding undoable_def
proof (elim disjE exE conjE)
  assume "change = Inr (False, m)"
  then show ?thesis using assms(2) marked [OF _ assms(4)] by (simp add: try_change_def)
next
  fix m' ys m''
  assume c: "change = Inr (True, m')" "holds ys m'" "length ys = length xs" "Mutator.input m' = Mutator.input m"
    "RestoreOverwrite width m' = Inr m''" "holds xs m''" "Mutator.input m'' = Mutator.input m"
  have "ends B (rest inp xs) I (bindR (Inr m') (\<lambda>m. and_then (call_put put m (mark z))
      (\<lambda>m z. bindR (RestoreOverwrite width m) (\<lambda>m. Inr (False, m, done_one z)))))"
    by (rule undone_ends [where after = done_one, OF refl c(2)])
      (use c assms(2,3) marked [OF assms(5) assms(4)] anywhere in \<open>auto simp: rest_def\<close>)
  then show ?thesis by (simp add: try_change_def c(1))
qed

lemma arith_step_ends:
  assumes "rest inp xs m" and "length xs = n" and "i + width \<le> n" and "width \<le> 4" and "I z"
  shows "ends B (rest inp xs) I (arith_step put width i j m z)"
proof -
  have once: "ends B (rest inp xs) I (try_change put width (AFL_AddN width m i j be) (cur_val v) z)"
    "ends B (rest inp xs) I (try_change put width (AFL_SubN width m i j be) (cur_val v) z)"
    if "rest inp xs m" "I z" for m z be v
  proof -
    have u: "holds xs m" "i + width \<le> length xs" using that(1) assms(2,3) by (simp_all add: rest_def)
    show "ends B (rest inp xs) I (try_change put width (AFL_AddN width m i j be) (cur_val v) z)"
      by (rule try_change_ends [OF arith_undoable(1) [OF u assms(4)] that(1) assms(2) that(2)]) simp
    show "ends B (rest inp xs) I (try_change put width (AFL_SubN width m i j be) (cur_val v) z)"
      by (rule try_change_ends [OF arith_undoable(2) [OF u assms(4)] that(1) assms(2) that(2)]) simp
  qed
  have typed: "I (val_type ty z)" if "I z" for ty z by (rule marked [OF _ that]) simp
  have both: "ends B (rest inp xs) I (if width = 1 then Inr (False, m, z)
       else and_then (try_change put width (AFL_AddN width m i j True) (cur_val (int j)) (val_type STAGE_VAL_BE z)) (\<lambda>m z.
         try_change put width (AFL_SubN width m i j True) (cur_val (- int j)) z))" if "rest inp xs m" "I z" for m z
  proof (cases "width = 1")
    case False
    show ?thesis unfolding if_not_P [OF False]
      by (rule ends_and_then [OF once(1)], rule that(1), rule typed, rule that(2), rule once(2))
  qed (use that in simp)
  show ?thesis
    unfolding arith_step_def
    by (rule ends_and_then [OF once(1)], rule assms(1), rule typed, rule assms(5), rule ends_and_then [OF once(2) both])
qed

lemma arith_pos_ends:
  assumes "rest inp xs m" and "length xs = n" and "i + width \<le> n" and "0 < width" and "width \<le> 4" and "I z"
  shows "ends B (rest inp xs) I (arith_pos put width i m z)"
proof -
  have "ends B (rest inp xs) I (for_each (arith_step put width i) [1..<ArithMax + 1] m (at_byte (int i) z))"
    by (rule ends_for_each [OF arith_step_ends]) (use assms marked [OF _ assms(6)] in auto)
  moreover obtain b where "should_mutate z i width = Inr b"
    using should_mutate_ok [of z width i] assms by auto
  ultimately show ?thesis
    using assms(1) marked [OF _ assms(6), of "fewer (muts_per_unit width * ArithMax) z"] by (simp add: arith_pos_def)
qed

lemma DoArith_ends:
  assumes "rest inp xs m" and "length xs = n" and "width \<le> n" and "0 < width" and "width \<le> 4" and "I z"
  shows "ends B (rest inp xs) I (DoArith put width m z)"
  unfolding DoArith_def mutable_pos_def rest_len [OF assms(1)] assms(2)
proof (rule ends_for_each [OF arith_pos_ends])
  show "i + width \<le> n" if "i \<in> set [0..<u32_sub (u32 (n + 1)) width]" for i
    by (rule mutable_posI [OF assms(6)]) (use that assms(3,4) in auto)
qed (use assms marked [OF _ assms(6)] in auto)

text \<open>The widths one after the other, as far as the buffer allows.\<close>

lemma wider_ends:
  assumes "rest inp xs m" and "length xs = n" and "I z" and "\<And>m z. rest inp xs m \<Longrightarrow> I z \<Longrightarrow> width \<le> n \<Longrightarrow> ends B (rest inp xs) I (f m z)"
  shows "ends B (rest inp xs) I (if len m < width then Inr (False, m, z) else f m z)"
  using assms rest_len [OF assms(1)] by simp

lemma Arith_ends:
  assumes "rest inp xs m" and "length xs = n" and "I z"
  shows "ends B (rest inp xs) I (Arith put m z)"
proof -
  have "ends B (rest inp xs) I (and_then (DoArith put 1 m z) (\<lambda>m z.
        if len m < 2 then Inr (False, m, z)
        else and_then (DoArith put 2 m z) (\<lambda>m z. if len m < 4 then Inr (False, m, z) else DoArith put 4 m z)))"
    by (intro ends_and_then [OF DoArith_ends] wider_ends DoArith_ends) (use assms n_pos [OF assms(3)] in auto)
  then show ?thesis using assms by (simp add: Arith_def)
qed

lemma interest_step_ends:
  assumes "rest inp xs m" and "length xs = n" and "i + width \<le> n" and "width \<le> 4" and "j < length (interest_table width)" and "I z"
  shows "ends B (rest inp xs) I (interest_step put width i j m z)"
proof -
  have once: "ends B (rest inp xs) I (try_change put width (AFL_InterestN width m i j be) (val_type ty) z)"
    if "rest inp xs m" "I z" for m z be ty
    by (rule try_change_ends [OF interest_undoable]) (use that assms in \<open>auto simp: rest_def\<close>)
  have valued: "I (cur_val v z)" for v by (rule marked [OF _ assms(6)]) simp
  show ?thesis
    unfolding interest_step_def
    by (rule ends_and_then [OF once], rule assms(1), rule valued) (simp add: once)
qed

lemma interest_pos_ends:
  assumes "rest inp xs m" and "length xs = n" and "i + width \<le> n" and "0 < width" and "width \<le> 4" and "I z"
  shows "ends B (rest inp xs) I (interest_pos put width i m z)"
proof -
  have "ends B (rest inp xs) I (for_each (interest_step put width i) [0..<length (interest_table width)] m (at_byte (int i) z))"
    by (rule ends_for_each [OF interest_step_ends]) (use assms marked [OF _ assms(6)] in auto)
  moreover obtain b where "should_mutate z i width = Inr b"
    using should_mutate_ok [of z width i] assms by auto
  ultimately show ?thesis
    using assms(1) marked [OF _ assms(6), of "fewer (num_endians width * length (interest_table width)) z"]
    by (simp add: interest_pos_def)
qed

lemma DoInterest_ends:
  assumes "rest inp xs m" and "length xs = n" and "width \<le> n" and "0 < width" and "width \<le> 4" and "I z"
  shows "ends B (rest inp xs) I (DoInterest put width m z)"
  unfolding DoInterest_def mutable_pos_def rest_len [OF assms(1)] assms(2)
proof (rule ends_for_each [OF interest_pos_ends])
  show "i + width \<le> n" if "i \<in> set [0..<u32_sub (u32 (n + 1)) width]" for i
    by (rule mutable_posI [OF assms(6)]) (use that assms(3,4) in auto)
qed (use assms marked [OF _ assms(6)] in auto)

lemma Interest_ends:
  assumes "rest inp xs m" and "length xs = n" and "I z"
  shows "ends B (rest inp xs) I (Interest put m z)"
proof -
  have "ends B (rest inp xs) I (and_then (DoInterest put 2 m z) (\<lambda>m z. if len m < 4 then Inr (False, m, z) else DoInterest put 4 m z))"
    if "rest inp xs m" "I z" "2 \<le> n" for m z
    by (intro ends_and_then [OF DoInterest_ends] wider_ends DoInterest_ends) (use assms(2) that in auto)
  then have wide: "ends B (rest inp xs) I (if no_arith z \<or> len m < 2 then Inr (False, m, z)
        else and_then (DoInterest put 2 m z) (\<lambda>m z. if len m < 4 then Inr (False, m, z) else DoInterest put 4 m z))"
    if "rest inp xs m" "I z" for m z
    using that rest_len [OF that(1)] assms(2) by simp
  show ?thesis
    unfolding Interest_def by (intro ends_and_then [OF DoInterest_ends] wide) (use assms n_pos [OF assms(3)] in auto)
qed

lemma skip_extra_ok:
  assumes "I z"
  shows "\<exists>b z'. skip_extra is_auto z = Inr (b, z') \<and> I z'"
proof (cases "\<not> is_auto \<and> MaxDetExtras < length (extras z)")
  case True
  then have "0 < u32 (length (extras z))" using few_extras [OF assms] by (auto simp: MaxDetExtras_def)
  then obtain x rs where "UR (u32 (length (extras z))) (rand z) = Inr (x, rs)"
    using UR_ok [of "u32 (length (extras z))" "rand z"] by blast
  then show ?thesis using True marked [OF _ assms, of "z\<lparr>rand := rs\<rparr>"] by (simp add: skip_extra_def)
qed (use assms in \<open>auto simp: skip_extra_def\<close>)

lemma useless_extra_ok:
  assumes "holds ys m" and "length ys = n" and "i < n" and "I z"
  shows "\<exists>b. useless_extra i tok m z = Inr b \<and> (\<not> b \<longrightarrow> i + u32 (length tok) \<le> n)"
proof -
  let ?sz = "u32 (length tok)"
  have m: "outbuf m = Some ys" "len m = n" using assms(1,2) by (simp_all add: holds_def)
  have d: "u32_sub n i = n - i" using assms(3) n_less [OF assms(4)] by simp
  show ?thesis
  proof (cases "n - i < ?sz")
    case True
    then show ?thesis by (intro exI [of _ True]) (simp add: useless_extra_def m d)
  next
    case fits: False
    have r: "rd (outbuf m) i ?sz = Inr (take ?sz (drop i ys))" using fits assms(2,3) by (simp add: m)
    show ?thesis
    proof (cases "take ?sz tok = take ?sz (drop i ys)")
      case True
      then show ?thesis using fits r by (intro exI [of _ True]) (simp add: useless_extra_def m(2) d)
    next
      case False
      then have "0 < ?sz" by (cases "?sz = 0") auto
      then have "EFF_APOS i + EFF_SPAN_ALEN i ?sz \<le> EFF_ALEN n"
        using EFF_SPAN_ALEN_block(2) [of ?sz i n] fits assms(3) n_less [OF assms(4)] by simp
      then obtain b where "eff_any z (EFF_APOS i) (EFF_SPAN_ALEN i ?sz) = Inr b"
        using eff_any_ok [OF assms(4)] by blast
      moreover have "i + ?sz \<le> n" using fits assms(3) by linarith
      ultimately show ?thesis using fits r False by (simp add: useless_extra_def m(2) d)
    qed
  qed
qed

lemma Replace_holds:
  assumes "rest inp ys m" and "length ys = n" and "off + k \<le> length src" and "i + k \<le> n"
  shows "\<exists>m'. Replace m i (Some src) off k = Inr m' \<and> rest inp (splice_in i (take k (drop off src)) ys) m'"
proof -
  have m: "outbuf m = Some ys" "len m = length ys" using assms(1) by (simp_all add: rest_def holds_def)
  have "length (take k (drop off src)) = k" using assms(3) by simp
  then show ?thesis
    using assms wr_holds [OF m(1), of i "take k (drop off src)"] m(2)
    by (simp add: Replace_def rest_def holds_def)
qed

lemma dict_loop_ends:
  assumes "rest inp ys m" and "length ys = n" and "i < n" and "i + k \<le> n" and "I z"
  shows "\<exists>stop k' m' z'. dict_loop put is_auto i es k m z = Inr (stop, k', m', z') \<and>
    (if stop then B z' else I z' \<and> i + k' \<le> n \<and>
      (\<exists>ys'. rest inp ys' m' \<and> length ys' = n \<and> (ordered k es \<longrightarrow> covered inp i k ys \<longrightarrow> covered inp i k' ys')))"
  using assms
proof (induction es arbitrary: k m z ys)
  case Nil
  then show ?case by auto
next
  case (Cons e es)
  let ?sz = "u32 (length (data e))"
  obtain skip z1 where z1: "skip_extra is_auto z = Inr (skip, z1)" "I z1"
    using skip_extra_ok Cons.prems by blast
  have m: "holds ys m" using Cons.prems(1) by (simp add: rest_def)
  obtain b where b: "(if skip then Inr True else useless_extra i (data e) m z1) = Inr b" "\<not> b \<longrightarrow> i + ?sz \<le> n"
    using useless_extra_ok [OF m Cons.prems(2,3) z1(2), of "data e"] by (cases skip) auto
  show ?case
  proof (cases b)
    case True
    have "I (fewer 1 z1)" using marked [OF _ z1(2)] by simp
    then obtain stop k' m' z' where r: "dict_loop put is_auto i es k m (fewer 1 z1) = Inr (stop, k', m', z')"
      "if stop then B z' else I z' \<and> i + k' \<le> n \<and>
        (\<exists>ys'. rest inp ys' m' \<and> length ys' = n \<and> (ordered k es \<longrightarrow> covered inp i k ys \<longrightarrow> covered inp i k' ys'))"
      using Cons.IH [OF Cons.prems(1-4)] by blast
    have "dict_loop put is_auto i (e # es) k m z = Inr (stop, k', m', z')"
      using z1(1) b(1) True r(1) by simp
    then show ?thesis using r(2) ordered_skip [of k e es] by (cases stop) fastforce+
  next
    case False
    define ys1 where "ys1 = splice_in i (take ?sz (data e)) ys"
    have sz: "?sz \<le> length (data e)" "i + ?sz \<le> n" using b False by (simp_all add: u32_def)
    have ys1: "length ys1 = n" using sz Cons.prems(2) by (simp add: ys1_def)
    obtain m1 where m1: "Replace m i (Some (data e)) 0 ?sz = Inr m1" "rest inp ys1 m1"
      using Replace_holds [OF Cons.prems(1,2), of 0 ?sz "data e" i] sz by (auto simp: ys1_def)
    have "holds ys1 m1" using m1(2) by (simp add: rest_def)
    then have "ends B (\<lambda>m'. m' = m1) I (call_put put m1 z1)"
      by (rule call_put_ends [OF _ ys1 z1(2) anywhere])
    then show ?thesis
    proof (cases rule: endsE)
      case (stopped m2 z2)
      have "dict_loop put is_auto i (e # es) k m z = Inr (True, ?sz, m2, z2)"
        using z1(1) b(1) False m1(1) stopped(1) by simp
      then show ?thesis using stopped(2) by (metis (full_types))
    next
      case (finished m2 z2)
      have "I (done_one z2)" using marked [OF _ finished(3)] by simp
      then obtain stop k' m' z' where r: "dict_loop put is_auto i es ?sz m1 (done_one z2) = Inr (stop, k', m', z')"
        "if stop then B z' else I z' \<and> i + k' \<le> n \<and>
          (\<exists>ys'. rest inp ys' m' \<and> length ys' = n \<and> (ordered ?sz es \<longrightarrow> covered inp i ?sz ys1 \<longrightarrow> covered inp i k' ys'))"
        using Cons.IH [OF m1(2) ys1 Cons.prems(3) sz(2)] by blast
      have "dict_loop put is_auto i (e # es) k m z = Inr (stop, k', m', z')"
        using z1(1) b(1) False m1(1) finished(1,2) r(1) by simp
      moreover have "ordered ?sz es \<and> covered inp i ?sz ys1" if "ordered k (e # es)" "covered inp i k ys"
        using ordered_write [OF that(1)] covered_write [OF that(2), of "take ?sz (data e)"] sz Cons.prems(2)
        by (simp add: ys1_def)
      ultimately show ?thesis using r(2) by (cases stop) fastforce+
    qed
  qed
qed

lemma dict_pos_ends:
  assumes "rest inp ys m" and "length ys = n" and "length inp = n" and "i < n" and "I z"
  shows "ends B (\<lambda>m'. \<exists>ys'. rest inp ys' m' \<and> length ys' = n \<and> (ordered 0 es \<and> ys = inp \<longrightarrow> ys' = inp)) I (dict_pos put is_auto es i m z)"
proof -
  have "I (at_byte (int i) z)" using marked [OF _ assms(5)] by simp
  then obtain stop k m' z' where r: "dict_loop put is_auto i es 0 m (at_byte (int i) z) = Inr (stop, k, m', z')"
    "if stop then B z' else I z' \<and> i + k \<le> n \<and>
      (\<exists>ys'. rest inp ys' m' \<and> length ys' = n \<and> (ordered 0 es \<longrightarrow> covered inp i 0 ys \<longrightarrow> covered inp i k ys'))"
    using dict_loop_ends [OF assms(1,2,4)] assms(4) by (metis Nat.add_0_right less_imp_le)
  show ?thesis
  proof (cases stop)
    case False
    then obtain ys' where ys': "rest inp ys' m'" "length ys' = n" "ordered 0 es \<longrightarrow> covered inp i 0 ys \<longrightarrow> covered inp i k ys'"
      "I z'" "i + k \<le> n" using r(2) by auto
    have "Mutator.input m' = inp" using ys'(1) by (simp add: rest_def)
    then obtain m'' where m'': "Replace m' i (Some (Mutator.input m')) i k = Inr m''"
      "rest inp (splice_in i (take k (drop i inp)) ys') m''"
      using Replace_holds [OF ys'(1,2), of i k inp i] ys'(5) assms(3) by auto
    have "splice_in i (take k (drop i inp)) ys' = inp" if "ordered 0 es" "ys = inp"
      by (rule covered_restore) (use that ys' assms(3) in \<open>auto simp: covered_def\<close>)
    then show ?thesis
      using r(1) False m'' ys' assms(3) by (auto simp: dict_pos_def)
  qed (use r in \<open>simp add: dict_pos_def\<close>)
qed

text \<open>The whole stage keeps the length of the buffer, and with an ordered dictionary the buffer.\<close>

lemma DictOverwrite_ends:
  assumes "rest inp ys m" and "length ys = n" and "length inp = n" and "I z"
    and es: "es = (if is_auto then take (min (u32 (length (a_extras z))) UseAutoExtras) (a_extras z) else take (u32 (length (extras z))) (extras z))"
  shows "ends B (\<lambda>m'. \<exists>ys'. rest inp ys' m' \<and> length ys' = n \<and> (ordered 0 es \<and> ys = inp \<longrightarrow> ys' = inp)) I
    (DictOverwrite put is_auto m z)"
proof (cases "(if is_auto then a_extras z else extras z) = []")
  case True
  then show ?thesis using assms(1-4) by (auto simp: DictOverwrite_def)
next
  case False
  define used where "used = (if is_auto then min (u32 (length (a_extras z))) UseAutoExtras else u32 (length (extras z)))"
  define z' where "z' = val_type STAGE_VAL_NONE (label (if is_auto then ''ext_AO'' else ''ext_UO'') (progress 0 (s32 (int (u32 (len m * used)))) z))"
  have "I z'" unfolding z'_def by (rule marked [OF _ assms(4)]) simp
  then have "ends B (\<lambda>m'. \<exists>ys'. rest inp ys' m' \<and> length ys' = n \<and> (ordered 0 es \<and> ys = inp \<longrightarrow> ys' = inp)) I
      (for_each (dict_pos put is_auto es) [0..<len m] m z')"
  proof (intro ends_for_each)
    show "\<exists>ys'. rest inp ys' m \<and> length ys' = n \<and> (ordered 0 es \<and> ys = inp \<longrightarrow> ys' = inp)" using assms(1,2) by blast
  next
    fix i m' z''
    assume i: "i \<in> set [0..<len m]" and m': "\<exists>ys'. rest inp ys' m' \<and> length ys' = n \<and> (ordered 0 es \<and> ys = inp \<longrightarrow> ys' = inp)"
      and z'': "I z''"
    obtain ys' where ys': "rest inp ys' m'" "length ys' = n" "ordered 0 es \<and> ys = inp \<longrightarrow> ys' = inp" using m' by blast
    show "ends B (\<lambda>m'. \<exists>ys'. rest inp ys' m' \<and> length ys' = n \<and> (ordered 0 es \<and> ys = inp \<longrightarrow> ys' = inp)) I
        (dict_pos put is_auto es i m' z'')"
      by (rule ends_weaken [OF dict_pos_ends [OF ys'(1,2) assms(3) _ z'']])
        (use i rest_len [OF assms(1)] assms(2) ys'(3) in auto)
  qed
  moreover have "DictOverwrite put is_auto m z = for_each (dict_pos put is_auto es) [0..<len m] m z'"
    using False by (cases is_auto) (simp_all add: DictOverwrite_def es z'_def used_def Let_def)
  ultimately show ?thesis by simp
qed

end

end
