(* ===== verification/AFL_Splice.thy ===== *)
theory AFL_Splice
  imports AFL_Mutator_Props
begin

text \<open>
  Splicing two test cases: what \<open>Util::LocateDiffs\<close> returns, and what \<open>Mutator::Splice\<close> makes of it.
\<close>

section \<open>The first and the last difference\<close>

lemma locate_snoc:
  "locate_loop pos (ps @ [(a, b)]) acc =
     (let r = locate_loop pos ps acc; k = pos + length ps
      in if a \<noteq> b then (case r of None \<Rightarrow> Some (k, k) | Some (f, l) \<Rightarrow> Some (f, k)) else r)"
  by (induction pos ps acc rule: locate_loop.induct) (auto simp: Let_def split: option.splits)

text \<open>\<open>f\<close> and \<open>l\<close> are the first and the last position below \<open>n\<close> where two lists differ.\<close>

definition diff_bounds :: "nat \<Rightarrow> 'a list \<Rightarrow> 'a list \<Rightarrow> nat \<Rightarrow> nat \<Rightarrow> bool" where
  "diff_bounds n xs ys f l \<longleftrightarrow>
     f \<le> l \<and> l < n \<and> xs ! f \<noteq> ys ! f \<and> xs ! l \<noteq> ys ! l \<and>
     (\<forall>i < f. xs ! i = ys ! i) \<and> (\<forall>i. l < i \<and> i < n \<longrightarrow> xs ! i = ys ! i)"

lemma locate_loop_spec:
  "case locate_loop 0 ps None of
     None \<Rightarrow> \<forall>i < length ps. fst (ps ! i) = snd (ps ! i)
   | Some (f, l) \<Rightarrow> diff_bounds (length ps) (map fst ps) (map snd ps) f l"
proof (induction ps rule: rev_induct)
  case (snoc p ps)
  obtain a b where p: "p = (a, b)" by fastforce
  show ?case
  proof (cases "locate_loop 0 ps None")
    case None
    then show ?thesis
      using snoc by (auto simp: p locate_snoc Let_def diff_bounds_def nth_append less_Suc_eq)
  next
    case (Some fl)
    obtain f l where fl: "fl = (f, l)" by fastforce
    have d: "diff_bounds (length ps) (map fst ps) (map snd ps) f l"
      using snoc Some by (simp add: fl)
    then have "f < length ps" "l < length ps"
      by (auto simp: diff_bounds_def)
    then show ?thesis
      using d by (auto simp: Some fl p locate_snoc Let_def diff_bounds_def nth_append less_Suc_eq)
  qed
qed simp

lemma LocateDiffs_ok:
  assumes "n \<le> length xs" and "n \<le> length ys"
  shows "\<exists>d. LocateDiffs (Some xs) (Some ys) n = Inr d \<and>
    (case d of None \<Rightarrow> take n xs = take n ys | Some (f, l) \<Rightarrow> diff_bounds n xs ys f l)"
proof -
  let ?ps = "zip (take n xs) (take n ys)"
  have "length ?ps = n" "map fst ?ps = take n xs" "map snd ?ps = take n ys"
    using assms by simp_all
  then show ?thesis
    using assms locate_loop_spec [of ?ps]
    by (auto simp: LocateDiffs_def diff_bounds_def list_eq_iff_nth_eq split: option.splits)
qed

section \<open>Splicing\<close>

text \<open>The buffer that \<open>Splice\<close> writes to is large enough, also when it is reused.\<close>

lemma splice_target:
  assumes "buf_ok (splbuf m) (spl_len m)"
  shows "\<exists>sb. (case splbuf m of None \<Rightarrow> Some (replicate n 0)
      | Some b \<Rightarrow> if spl_len m < n then Some (replicate n 0) else Some b) = Some sb \<and> n \<le> length sb"
  using assms by (cases "splbuf m") auto

lemma Splice_done:
  assumes m: "mut_ok m" and ob: "outbuf m = Some ob" and k: "k \<le> len m" "k \<le> length target"
  defines "spl \<equiv> case splbuf m of None \<Rightarrow> Some (replicate (length target) 0)
      | Some b \<Rightarrow> if spl_len m < length target then Some (replicate (length target) 0) else Some b"
  shows "\<exists>sb. bindR (rd (outbuf m) 0 k) (\<lambda>xs. bindR (wr spl 0 xs) (\<lambda>spl.
      bindR (rd (Some target) k (length target - k)) (\<lambda>ys. wr spl k ys))) = Inr (Some sb) \<and>
    length target \<le> length sb \<and> take (length target) sb = take k ob @ drop k target"
proof -
  have len: "len m \<le> length ob" and s: "buf_ok (splbuf m) (spl_len m)"
    using m ob by (auto simp: mut_ok_def)
  obtain sb where sb: "spl = Some sb" "length target \<le> length sb"
    using splice_target [OF s, of "length target"] unfolding spl_def by blast
  show ?thesis
    using sb ob len k by simp
qed

lemma Splice_far:
  assumes m: "mut_ok m" and ob: "outbuf m = Some ob" "len m \<le> length ob" and n: "n = min (len m) (length target)"
    and d: "LocateDiffs (outbuf m) (Some target) n = Inr (Some (f, l))" and far: "2 \<le> l" "f < l" "l < n"
  shows "\<exists>k m' rs'. Splice m target rs = Inr ((True, m'), rs') \<and> f \<le> k \<and> k < l \<and> mut_ok m' \<and>
    GetBuf m' = Inr (take k ob @ drop k target) \<and> mut_ok (RestoreSplice m') \<and> GetBuf (RestoreSplice m') = GetBuf m"
proof -
  obtain x rs' where x: "UR (l - f) rs = Inr (x, rs')" "x < l - f"
    using UR_ok [of "l - f" rs] far(2) by auto
  let ?k = "f + x"
  have k: "?k < l" "?k \<le> len m" "?k \<le> length target"
    using x(2) far(3) n by auto
  obtain sb where sb: "bindR (rd (outbuf m) 0 ?k) (\<lambda>xs. bindR (wr (case splbuf m of None \<Rightarrow> Some (replicate (length target) 0)
        | Some b \<Rightarrow> if spl_len m < length target then Some (replicate (length target) 0) else Some b) 0 xs) (\<lambda>spl.
      bindR (rd (Some target) ?k (length target - ?k)) (\<lambda>ys. wr spl ?k ys))) = Inr (Some sb)"
    "length target \<le> length sb" "take (length target) sb = take ?k ob @ drop ?k target"
    using Splice_done [OF m ob(1) k(2,3)] by blast
  define m' where "m' = m\<lparr>outbuf := Some sb, splbuf := outbuf m, len := length target, spl_len := len m\<rparr>"
  have "Splice m target rs = Inr ((True, m'), rs')"
    using d far x(1) sb(1) unfolding n by (simp add: Splice_def m'_def Let_def result_simps) blast
  moreover have "mut_ok m'" "GetBuf m' = Inr (take ?k ob @ drop ?k target)"
    "mut_ok (RestoreSplice m')" "GetBuf (RestoreSplice m') = GetBuf m"
    using m ob sb by (auto simp: mut_ok_def m'_def GetBuf_def RestoreSplice_def)
  ultimately show ?thesis
    using k(1) by (intro exI [of _ ?k] exI [of _ m'] exI [of _ rs']) simp
qed

lemma splice_differs:
  assumes "diff_bounds n xs ys f l" and "k \<le> l" and "n \<le> length xs" and "n \<le> length ys"
  shows "take n (take k xs @ drop k ys) \<noteq> take n xs"
proof -
  have l: "l < n" "xs ! l \<noteq> ys ! l"
    using assms(1) by (auto simp: diff_bounds_def)
  then have "take n (take k xs @ drop k ys) ! l = ys ! l"
    using assms(2-4) by (auto simp: nth_append)
  then show ?thesis
    using l by (metis nth_take)
qed

lemma Splice_cases:
  assumes m: "mut_ok m" and buf: "GetBuf m = Inr xs" and n: "n = min (len m) (length target)"
  shows "\<exists>b m' rs'. Splice m target rs = Inr ((b, m'), rs') \<and>
    (if b then \<exists>f l k. diff_bounds n xs target f l \<and> 2 \<le> l \<and> f \<le> k \<and> k < l \<and> mut_ok m' \<and>
        GetBuf m' = Inr (take k xs @ drop k target) \<and> take n (take k xs @ drop k target) \<noteq> take n xs \<and>
        mut_ok (RestoreSplice m') \<and> GetBuf (RestoreSplice m') = Inr xs
     else m' = m \<and> (take n xs = take n target \<or> (\<exists>f l. diff_bounds n xs target f l \<and> (l < 2 \<or> f = l))))"
proof -
  obtain ob where ob: "outbuf m = Some ob" "len m \<le> length ob" "xs = take (len m) ob"
    using m buf by (auto simp: mut_ok_def GetBuf_def)
  have "n \<le> length ob" "n \<le> length target"
    using ob(2) n by auto
  then obtain d where d: "LocateDiffs (outbuf m) (Some target) n = Inr d"
    and s: "case d of None \<Rightarrow> take n ob = take n target | Some (f, l) \<Rightarrow> diff_bounds n ob target f l"
    using LocateDiffs_ok [of n ob target] unfolding ob(1) by blast
  have xs: "diff_bounds n ob target f l \<longleftrightarrow> diff_bounds n xs target f l" for f l
    by (auto simp: diff_bounds_def ob(3) n)
  consider (same) "d = None" | (close) f l where "d = Some (f, l)" "l < 2 \<or> f = l"
    | (far) f l where "d = Some (f, l)" "2 \<le> l" "f \<noteq> l"
    by (cases d) force+
  then show ?thesis
  proof cases
    case same
    moreover have "take n xs = take n ob" by (simp add: ob(3) n)
    ultimately show ?thesis using d s by (intro exI [of _ False]) (simp add: Splice_def n [symmetric])
  next
    case close
    then show ?thesis using d s xs by (auto simp: Splice_def n [symmetric])
  next
    case far
    then have b: "diff_bounds n xs target f l" and fl: "f < l" "l < n"
      using s xs by (auto simp: diff_bounds_def)
    obtain k m' rs' where S: "Splice m target rs = Inr ((True, m'), rs')" "f \<le> k" "k < l" "mut_ok m'"
      "GetBuf m' = Inr (take k ob @ drop k target)" "mut_ok (RestoreSplice m')" "GetBuf (RestoreSplice m') = GetBuf m"
      using Splice_far [OF m ob(1,2) n, of f l rs] d far fl by blast
    have "take k xs = take k ob"
      using S(3) fl(2) by (simp add: ob(3) n)
    moreover have "take n (take k xs @ drop k target) \<noteq> take n xs"
      by (rule splice_differs [OF b]) (use S(3) ob n in auto)
    ultimately have "diff_bounds n xs target f l \<and> 2 \<le> l \<and> f \<le> k \<and> k < l \<and> mut_ok m' \<and>
        GetBuf m' = Inr (take k xs @ drop k target) \<and> take n (take k xs @ drop k target) \<noteq> take n xs \<and>
        mut_ok (RestoreSplice m') \<and> GetBuf (RestoreSplice m') = Inr xs"
      using S b far(2) buf by metis
    then show ?thesis
      using S(1) by (intro exI [of _ True] exI [of _ m'] exI [of _ rs']) (simp only: if_True, blast)
  qed
qed

text \<open>
  \<open>Mutator::Splice\<close> never leaves its buffers. It splices only if the two test cases differ in at
  least two positions of their common length, the last of them at 2 or later; the result is the
  beginning of the current buffer followed by the rest of the target, split at or after the first and
  before the last difference, so that it differs from the current buffer and has the length of the target;
  \<open>RestoreSplice\<close> brings the current buffer back. Otherwise nothing changes.
\<close>

theorem Splice_behaviour:
  assumes m: "mut_ok m" and buf: "GetBuf m = Inr xs" and n: "n = min (len m) (length target)"
  shows "\<exists>b m' rs'. Splice m target rs = Inr ((b, m'), rs') \<and>
    (if b then \<exists>f l k. diff_bounds n xs target f l \<and> 2 \<le> l \<and> f \<le> k \<and> k < l \<and> mut_ok m' \<and>
        GetBuf m' = Inr (take k xs @ drop k target) \<and> take n (take k xs @ drop k target) \<noteq> take n xs \<and>
        mut_ok (RestoreSplice m') \<and> GetBuf (RestoreSplice m') = Inr xs
     else m' = m \<and> (take n xs = take n target \<or> (\<exists>f l. diff_bounds n xs target f l \<and> (l < 2 \<or> f = l))))"
  by (rule Splice_cases [OF assms])

theorem Splice_behaviour_witness:
  "\<exists>m' rs'. Splice demo_buffer [1, 7, 3, 8, 5, 6] [] = Inr ((True, m'), rs') \<and> mut_ok m' \<and> GetBuf (RestoreSplice m') = Inr [1, 2, 3, 4, 5]"
proof -
  have buf: "mut_ok demo_buffer" "GetBuf demo_buffer = Inr [1, 2, 3, 4, 5]"
    by (simp_all add: demo_buffer_def Mutator_new_def GetBuf_def mut_ok_def)
  obtain m' rs' where S: "Splice demo_buffer [1, 7, 3, 8, 5, 6] [] = Inr ((True, m'), rs')"
    by (simp add: Splice_def demo_buffer_def Mutator_new_def LocateDiffs_def UR.simps rd_def wr_def)
  then show ?thesis
    using Splice_behaviour [OF buf refl, of "[1, 7, 3, 8, 5, 6]" "[]"] by auto
qed

end
