(* ===== verification/AFL_Trim.thy ===== *)
theory AFL_Trim
  imports AFL_Save "HOL-Library.Sublist"
begin

text \<open>
  Trimming (\<open>DoTrimCase\<close>): the loops end, and what is left of a test case is a part of it that has been run
  and has shown the recorded checksum.
\<close>

section \<open>Changing an input\<close>

lemma afl_inv_upd_input:
  assumes inv: "afl_inv W s" and t: "t < length (case_queue s)" and inp: "fits (in_disk inp)"
  shows "afl_inv W (upd_case t (\<lambda>tc. tc\<lparr>input := inp\<rparr>) s)"
proof -
  let ?s = "upd_case t (\<lambda>tc. tc\<lparr>input := inp\<rparr>) s"
  have nth: "case_queue ?s ! u = (if u = t then (case_queue s ! t)\<lparr>input := inp\<rparr> else case_queue s ! u)" if "u < length (case_queue s)" for u
    using that t by (simp add: upd_case_def nth_list_update)
  have "case_ok n tops u (case_queue ?s ! u) = case_ok n tops u (case_queue s ! u)" if "u < length (case_queue s)" for n tops u
    by (rule case_ok_cong) (simp_all add: nth [OF that])
  moreover have "top_rated ?s = top_rated s"
    by (simp add: upd_case_def)
  ultimately have "tops_ok W ?s"
    using inv by (simp add: afl_inv_def tops_ok_def)
  moreover have "length (filter (\<lambda>tc. fuzz_level tc = 0) (case_queue ?s)) = length (filter (\<lambda>tc. fuzz_level tc = 0) (case_queue s))"
    using length_filter_update [OF t, of "\<lambda>tc. fuzz_level tc = 0" "(case_queue s ! t)\<lparr>input := inp\<rparr>"] by (simp add: upd_case_def)
  then have "counts_ok ?s"
    using inv by (simp add: afl_inv_def counts_ok_def upd_case_def)
  moreover have "set (case_queue ?s) \<subseteq> insert ((case_queue s ! t)\<lparr>input := inp\<rparr>) (set (case_queue s))"
    by (simp add: upd_case_def set_update_subset_insert)
  then have "inputs_ok ?s"
    using inv inp unfolding afl_inv_def inputs_ok_def by auto
  ultimately show ?thesis
    using inv by (simp add: afl_inv_def maps_ok_def names_ok_def upd_case_def)
qed

lemma Run_eq:
  assumes "world_ok W"
  shows "RunExecutorWithClassifyCounts W buf tmout s =
    Inr (map count_class (r_trace (run W (total_execs s) buf tmout)),
         \<lparr>es_reason = r_reason (run W (total_execs s) buf tmout), es_signal = r_signal (run W (total_execs s) buf tmout)\<rparr>,
         s\<lparr>total_execs := total_execs s + 1, stop_soon := stop_soon s \<or> interrupted W (total_execs s)\<rparr>)"
  using coverage_passes [of "word_width W" "map_size W" "r_trace (run W (total_execs s) buf tmout)"] world_okD [OF assms]
  by (simp add: RunExecutorWithClassifyCounts_def Let_def)

section \<open>The loops\<close>

text \<open>The checksum of a run of some bytes.\<close>

definition shows_cksum :: "World \<Rightarrow> u8 list \<Rightarrow> nat \<Rightarrow> bool" where
  "shows_cksum W bytes ck \<longleftrightarrow> (\<exists>n. CalcCksum32 (map count_class (r_trace (run W n bytes 0))) = ck)"

definition trimmed :: "World \<Rightarrow> u8 list \<Rightarrow> nat \<Rightarrow> u8 list \<Rightarrow> bool" where
  "trimmed W orig ck bytes \<longleftrightarrow> subseq bytes orig \<and> take TrimMinBytes bytes = take TrimMinBytes orig \<and>
     (bytes = orig \<or> shows_cksum W bytes ck)"

lemma trimmed_remove:
  assumes "trimmed W orig ck bytes" and "TrimMinBytes \<le> pos" and "pos \<le> length bytes"
    and "shows_cksum W (take pos bytes @ drop (pos + k) bytes) ck"
  shows "trimmed W orig ck (take pos bytes @ drop (pos + k) bytes)"
proof -
  have "suffix (drop (pos + k) bytes) (drop pos bytes)"
    by (metis drop_drop add.commute suffix_drop)
  then have "subseq (take pos bytes @ drop (pos + k) bytes) (take pos bytes @ drop pos bytes)"
    by (intro list_emb_append_mono) (auto dest: suffix_imp_subseq)
  then have "subseq (take pos bytes @ drop (pos + k) bytes) orig"
    using assms(1) subseq_order.trans by (simp add: trimmed_def) blast
  moreover have "take TrimMinBytes (take pos bytes @ drop (pos + k) bytes) = take TrimMinBytes bytes"
    using assms(2,3) by simp
  ultimately show ?thesis
    using assms(1,4) by (simp add: trimmed_def)
qed

text \<open>What holds of the variables throughout, for the state \<open>s0\<close> in which trimming started.\<close>

definition trim_ok :: "World \<Rightarrow> nat \<Rightarrow> AFLState \<Rightarrow> Trim \<Rightarrow> bool" where
  "trim_ok W t s0 tr \<longleftrightarrow> afl_inv W (t_state tr) \<and>
     (\<exists>inp. case_queue (t_state tr) = (case_queue s0)[t := (case_queue s0 ! t)\<lparr>input := inp\<rparr>] \<and> loaded inp \<and>
        trimmed W (in_disk (input (case_queue s0 ! t))) (exec_cksum (case_queue s0 ! t)) (in_disk inp)) \<and>
     (\<forall>m. t_clean tr = Some m \<longrightarrow> length m = map_size W) \<and> TrimMinBytes \<le> t_end tr \<and> t_fault tr \<noteq> FAULT_ERROR \<and>
     pace s0 (t_state tr)"

lemma trim_try_ok:
  assumes W: "world_ok W" and t: "t < length (case_queue s0)" and ok: "trim_ok W t s0 tr"
    and pos: "pos < case_len t (t_state tr)" "TrimMinBytes \<le> pos"
  shows "\<exists>removed tr'. trim_try W t remove_len pos tr = Inr (removed, tr') \<and> trim_ok W t s0 tr'"
proof -
  let ?s = "t_state tr" and ?ck = "exec_cksum (case_queue s0 ! t)"
  obtain inp where q: "case_queue ?s = (case_queue s0)[t := (case_queue s0 ! t)\<lparr>input := inp\<rparr>]" and ld: "loaded inp"
    and tm: "trimmed W (in_disk (input (case_queue s0 ! t))) ?ck (in_disk inp)" and inv: "afl_inv W ?s"
    using ok by (auto simp: trim_ok_def)
  have tc: "case_queue ?s ! t = (case_queue s0 ! t)\<lparr>input := inp\<rparr>" "t < length (case_queue ?s)"
    using q t by simp_all
  have "fits (in_disk (input (case_queue ?s ! t)))"
    using inv nth_mem [OF tc(2)] unfolding afl_inv_def inputs_ok_def by blast
  then have len: "GetLen inp = length (in_disk inp)" "length (in_disk inp) < 2 ^ 32" and fit: "fits (in_disk inp)"
    using ld tc(1) fits_less [of "in_disk inp"] by (simp_all add: loaded_def GetLen_def)
  have pl: "pos < length (in_disk inp)"
    using pos(1) tc len by (simp add: case_len_def)
  let ?avail = "min remove_len (GetLen inp - pos)"
  let ?test = "take pos (in_disk inp) @ drop (pos + ?avail) (in_disk inp)"
  let ?r = "run W (total_execs ?s) ?test 0"
  let ?s1 = "?s\<lparr>total_execs := total_execs ?s + 1, stop_soon := stop_soon ?s \<or> interrupted W (total_execs ?s), trim_execs := trim_execs ?s + 1\<rparr>"
  have ok1: "trim_ok W t s0 (tr\<lparr>t_state := ?s1, t_fault := r_reason ?r\<rparr>)" (is "trim_ok W t s0 ?tr1")
  proof -
    have "afl_inv W ?s1"
      by (rule afl_inv_view [OF _ inv]) (simp add: inv_view_def)
    then show ?thesis
      using ok q ld tm world_okD(5) [OF W] by (auto simp: trim_ok_def)
  qed
  have abort: "trim_ok W t s0 (?tr1\<lparr>t_abort := b\<rparr>)" for b
    using ok1 by (simp add: trim_ok_def)
  obtain inp' where inp': "OverwriteKeepingLoaded (can_open W) ?test inp = Inr inp'" "loaded inp'" "in_disk inp' = ?test"
    using OverwriteKeepingLoaded_ok [of "can_open W" inp ?test] world_okD(6) [OF W] len(2) by fastforce
  have keep: "trim_ok W t s0 (?tr1\<lparr>t_state := upd_case t (\<lambda>tc. tc\<lparr>input := inp'\<rparr>) ?s1, t_end := trim_end (GetLen inp'),
      t_clean := (case t_clean tr of None \<Rightarrow> Some (map count_class (r_trace ?r)) | Some m \<Rightarrow> Some m)\<rparr>)"
    if "CalcCksum32 (map count_class (r_trace ?r)) = ?ck"
  proof -
    have "trimmed W (in_disk (input (case_queue s0 ! t))) ?ck ?test"
      using trimmed_remove [OF tm pos(2)] pl that by (auto simp: shows_cksum_def)
    moreover have "afl_inv W (upd_case t (\<lambda>tc. tc\<lparr>input := inp'\<rparr>) ?s1)"
      by (rule afl_inv_upd_input) (use ok1 tc(2) fit pos(2) pl inp'(3) in \<open>auto simp: trim_ok_def fits_def TrimMinBytes_def\<close>)
    moreover have "case_queue (upd_case t (\<lambda>tc. tc\<lparr>input := inp'\<rparr>) ?s1) = (case_queue s0)[t := (case_queue s0 ! t)\<lparr>input := inp'\<rparr>]"
      using q t by (simp add: upd_case_def)
    ultimately show ?thesis
      using ok1 inp'(2,3) world_okD(4) [OF W] by (auto simp: trim_ok_def trim_end_def upd_case_def split: option.splits)
  qed
  have gi: "GetInput (input (case_queue ?s ! t)) = Inr (in_disk inp)"
    using tc(1) GetInput_loaded [OF ld] by simp
  define kept where "kept = ?tr1\<lparr>t_state := upd_case t (\<lambda>tc. tc\<lparr>input := inp'\<rparr>) ?s1, t_end := trim_end (GetLen inp'),
      t_clean := (case t_clean tr of None \<Rightarrow> Some (map count_class (r_trace ?r)) | Some m \<Rightarrow> Some m)\<rparr>"
  define same where "same = ?tr1"
  define stopped where "stopped = ?tr1\<lparr>t_abort := True\<rparr>"
  have "trim_try W t remove_len pos tr =
      (if stop_soon ?s1 \<or> r_reason ?r = FAULT_ERROR then Inr (False, stopped)
       else if CalcCksum32 (map count_class (r_trace ?r)) = ?ck then Inr (True, kept) else Inr (False, same))"
    using tc gi inp'(1) by (simp add: trim_try_def Run_eq [OF W] Let_def kept_def same_def stopped_def cong: option.case_cong)
  then show ?thesis
    using abort [of True, folded stopped_def] ok1 [folded same_def] keep [folded kept_def] by auto
qed

lemma trim_inner_ok:
  "world_ok W \<Longrightarrow> t < length (case_queue s0) \<Longrightarrow> trim_ok W t s0 tr \<Longrightarrow> TrimMinBytes \<le> pos \<Longrightarrow> TrimMinBytes \<le> remove_len \<Longrightarrow>
   \<exists>tr'. trim_inner W t remove_len pos tr = Inr tr' \<and> trim_ok W t s0 tr'"
proof (induction W t remove_len pos tr rule: trim_inner.induct)
  case (1 W t remove_len pos tr)
  show ?case
  proof (cases "pos < case_len t (t_state tr)")
    case False
    then show ?thesis using "1.prems" by (subst trim_inner.simps) simp
  next
    case True
    have rl: "remove_len \<noteq> 0" using "1.prems"(5) by (simp add: TrimMinBytes_def)
    obtain removed tr' where tr': "trim_try W t remove_len pos tr = Inr (removed, tr')" "trim_ok W t s0 tr'"
      using trim_try_ok [OF "1.prems"(1-3) True "1.prems"(4)] by blast
    show ?thesis
    proof (cases "t_abort tr'")
      case True
      then show ?thesis using \<open>pos < case_len t (t_state tr)\<close> rl tr' by (subst trim_inner.simps) simp
    next
      case False
      have "TrimMinBytes \<le> (if removed then pos else pos + remove_len)" using "1.prems"(4) by simp
      then obtain tr'' where "trim_inner W t remove_len (if removed then pos else pos + remove_len) tr' = Inr tr''" "trim_ok W t s0 tr''"
        using "1.IH" [OF True rl tr'(1)] False "1.prems"(1,2,5) tr'(2) by auto
      then show ?thesis using True rl tr'(1) False by (subst trim_inner.simps) simp
    qed
  qed
qed

lemma trim_outer_ok:
  "world_ok W \<Longrightarrow> t < length (case_queue s0) \<Longrightarrow> trim_ok W t s0 tr \<Longrightarrow>
   \<exists>tr'. trim_outer W t remove_len tr = Inr tr' \<and> trim_ok W t s0 tr'"
proof (induction W t remove_len tr rule: trim_outer.induct)
  case (1 W t remove_len tr)
  show ?case
  proof (cases "t_end tr \<le> remove_len")
    case False
    then show ?thesis using "1.prems" by (subst trim_outer.simps) simp
  next
    case True
    then have rl: "TrimMinBytes \<le> remove_len" "remove_len \<noteq> 0"
      using "1.prems"(3) by (auto simp: trim_ok_def TrimMinBytes_def)
    obtain tr' where tr': "trim_inner W t remove_len remove_len tr = Inr tr'" "trim_ok W t s0 tr'"
      using trim_inner_ok [OF "1.prems" rl(1) rl(1)] by blast
    then show ?thesis
      using True rl(2) "1.IH" [OF True rl(2) tr'(1)] "1.prems"(1,2) by (cases "t_abort tr'"; subst trim_outer.simps) auto
  qed
qed

section \<open>Trimming a test case\<close>

lemma trimmed_refl: "trimmed W orig ck orig"
  by (simp add: trimmed_def)

lemma DoTrimCase_result:
  assumes W: "world_ok W" and inv: "afl_inv W s" and t: "t < length (case_queue s)" and ld: "loaded (input (case_queue s ! t))"
  shows "\<exists>fault s' inp. DoTrimCase W t s = Inr (fault, s') \<and> fault \<noteq> FAULT_ERROR \<and> afl_inv W s' \<and>
    map input (case_queue s') = (map input (case_queue s))[t := inp] \<and> loaded inp \<and>
    trimmed W (in_disk (input (case_queue s ! t))) (exec_cksum (case_queue s ! t)) (in_disk inp) \<and>
    pace s s'"
proof (cases "GetLen (input (case_queue s ! t)) < 5")
  case True
  have "map input (case_queue s) = (map input (case_queue s))[t := input (case_queue s ! t)]"
    by (metis list_update_id map_update)
  then show ?thesis
    using True inv t ld trimmed_refl by (fastforce simp: DoTrimCase_def)
next
  case False
  let ?tc = "case_queue s ! t" let ?l = "GetLen (input ?tc)"
  let ?tr = "\<lparr>t_state = s\<lparr>bytes_trim_in := bytes_trim_in s + ?l\<rparr>, t_end = trim_end ?l, t_clean = None, t_fault = FAULT_NONE, t_abort = False\<rparr>"
  have "afl_inv W (t_state ?tr)"
    by (rule afl_inv_view [OF _ inv]) (simp add: inv_view_def)
  moreover have "\<exists>inp. case_queue s = (case_queue s)[t := ?tc\<lparr>input := inp\<rparr>] \<and> loaded inp \<and>
      trimmed W (in_disk (input ?tc)) (exec_cksum ?tc) (in_disk inp)"
    using ld trimmed_refl by (intro exI [of _ "input ?tc"]) simp
  ultimately have "trim_ok W t s ?tr"
    by (simp add: trim_ok_def trim_end_def)
  then obtain tr where tr: "trim_outer W t (max (u32 (NextP2 ?l) div TrimStartSteps) TrimMinBytes) ?tr = Inr tr" "trim_ok W t s tr"
    using trim_outer_ok [OF W t] by blast
  obtain inp where q: "case_queue (t_state tr) = (case_queue s)[t := ?tc\<lparr>input := inp\<rparr>]" and inp: "loaded inp"
    "trimmed W (in_disk (input ?tc)) (exec_cksum ?tc) (in_disk inp)" and inv1: "afl_inv W (t_state tr)"
    using tr(2) by (auto simp: trim_ok_def)
  obtain s1 where s1: "(case t_clean tr of Some mem \<Rightarrow> if t_abort tr then Inr (t_state tr) else UpdateBitmapScoreWithRawTrace W t mem (t_state tr)
      | None \<Rightarrow> Inr (t_state tr)) = Inr s1" "steady W (t_state tr) s1"
  proof (cases "t_clean tr")
    case None
    then show ?thesis using that steady_refl by simp
  next
    case (Some mem)
    then have "length mem = map_size W" using tr(2) by (simp add: trim_ok_def)
    then show ?thesis
      using UpdateBitmapScore_steady [OF W _ inv1, of mem t] q t Some that steady_refl by (cases "t_abort tr") auto
  qed
  define s2 where "s2 = s1\<lparr>bytes_trim_out := bytes_trim_out s1 + case_len t s1\<rparr>"
  have "DoTrimCase W t s = Inr (t_fault tr, s2)"
    using t False tr(1) s1(1) unfolding DoTrimCase_def s2_def by (simp add: Let_def)
  moreover have "afl_inv W s2"
    by (rule afl_inv_view [OF _ steady_inv [OF s1(2) inv1]]) (simp add: s2_def inv_view_def)
  moreover have "map input (case_queue s2) = (map input (case_queue s))[t := inp]"
    using s1(2) q by (simp add: s2_def steady_def map_update)
  moreover have "pace s s2" "t_fault tr \<noteq> FAULT_ERROR"
    using s1(2) tr(2) pace_trans [OF pace_trans, of s "t_state tr" s1 s2] by (auto simp: s2_def steady_def trim_ok_def)
  ultimately show ?thesis
    using inp by blast
qed

text \<open>
  C8. Trimming ends and keeps the test case sound: what is left is a subsequence of the test case that
  begins with the same four bytes, it is in memory and on disk, and if anything has been removed then exactly
  the bytes that are left have been run and have shown the checksum recorded for the test case. The other
  test cases keep their inputs, and the invariant of the state holds again.
\<close>

theorem DoTrimCase_sound:
  assumes "world_ok W" and "afl_inv W s" and "t < length (case_queue s)" and "loaded (input (case_queue s ! t))"
  shows "\<exists>fault s' inp. DoTrimCase W t s = Inr (fault, s') \<and> afl_inv W s' \<and>
    map input (case_queue s') = (map input (case_queue s))[t := inp] \<and> loaded inp \<and>
    subseq (in_disk inp) (in_disk (input (case_queue s ! t))) \<and> take 4 (in_disk inp) = take 4 (in_disk (input (case_queue s ! t))) \<and>
    (in_disk inp = in_disk (input (case_queue s ! t)) \<or> shows_cksum W (in_disk inp) (exec_cksum (case_queue s ! t)))"
  using DoTrimCase_result [OF assms] unfolding trimmed_def TrimMinBytes_def by blast

theorem DoTrimCase_sound_witness:
  "\<exists>fault s' inp. DoTrimCase demo_world 0 demo_afl = Inr (fault, s') \<and>
     map input (case_queue s') = (map input (case_queue demo_afl))[0 := inp] \<and> take 4 (in_disk inp) = [1, 2, 3, 4]"
proof -
  have "0 < length (case_queue demo_afl)" "loaded (input (case_queue demo_afl ! 0))" "take 4 (in_disk (input (case_queue demo_afl ! 0))) = [1, 2, 3, 4]"
    by (simp_all add: demo_afl_simps loaded_def)
  then show ?thesis
    using DoTrimCase_sound [OF demo_world_ok demo_afl_inv, of 0] by metis
qed

end
