(* ===== verification/AFL_Flow.thy ===== *)
theory AFL_Flow
  imports AFL_Trim
begin

text \<open>
  The fuzzing loop of AFL as a state machine. \<open>BuildFuzzFlow\<close> (\<open>templates/afl_fuzzer.hpp\<close>) connects the routines;
  a phase says which routine comes next. The mutation stages are left open: any sequence of buffers may be
  executed in the phase of mutation, so that the results hold for every stage.
\<close>

section \<open>The performance score\<close>

lemma speed_score_bounds: "10 \<le> speed_score us avg" "speed_score us avg \<le> 300"
  by (simp_all add: speed_score_def)

lemma bitmap_score_bounds:
  assumes "10 \<le> x" and "x \<le> 300"
  shows "2 \<le> bitmap_score sz avg x" and "bitmap_score sz avg x \<le> 900"
  using assms by (auto simp: bitmap_score_def)

lemma depth_mult_bounds: "1 \<le> depth_mult d" "depth_mult d \<le> 5"
  by (simp_all add: depth_mult_def)

lemma DoCalcScore_result:
  assumes "t < length (case_queue s)" and "total_cal_cycles s \<noteq> 0" and "total_bitmap_entries s \<noteq> 0"
  shows "\<exists>score h. DoCalcScore t s = Inr (score, upd_case t (\<lambda>tc. tc\<lparr>handicap := h\<rparr>) s) \<and> 2 \<le> score \<and> score \<le> 1600 \<and>
    h = handicap (case_queue s ! t) - (if 4 \<le> handicap (case_queue s ! t) then 4 else 1)"
proof -
  let ?tc = "case_queue s ! t"
  define sp where "sp = speed_score (exec_us ?tc) (u32 (total_cal_us s div total_cal_cycles s))"
  define b where "b = bitmap_score (bitmap_size ?tc) (u32 (total_bitmap_size s div total_bitmap_entries s)) sp"
  define m where "m = (if 4 \<le> handicap ?tc then 4 else if handicap ?tc \<noteq> 0 then 2 else 1 :: nat)"
  define h where "h = handicap ?tc - (if 4 \<le> handicap ?tc then 4 else 1)"
  have b: "2 \<le> b" "b \<le> 900"
    using bitmap_score_bounds [OF speed_score_bounds] by (simp_all add: b_def sp_def)
  have m: "1 \<le> m" "m \<le> 4" by (simp_all add: m_def)
  have bm: "2 \<le> b * m" "b * m \<le> 3600"
    using b m mult_le_mono [of 2 b 1 m] mult_le_mono [of b 900 m 4] by simp_all
  have d: "2 \<le> b * m * depth_mult (depth ?tc)" "b * m * depth_mult (depth ?tc) \<le> 18000"
    using bm depth_mult_bounds [of "depth ?tc"] mult_le_mono [of 2 "b * m" 1 "depth_mult (depth ?tc)"]
      mult_le_mono [of "b * m" 3600 "depth_mult (depth ?tc)" 5] by simp_all
  have "DoCalcScore t s = Inr (min (u32 (u32 (b * m) * depth_mult (depth ?tc))) 1600, upd_case t (\<lambda>tc. tc\<lparr>handicap := h\<rparr>) s)"
    using assms b by (auto simp: DoCalcScore_def Let_def sp_def [symmetric] b_def [symmetric] m_def h_def HavocMaxMult_def)
  then show ?thesis
    using bm d h_def by simp
qed

text \<open>
  C22. The performance score never overflows: for every test case it is at least 2 and at most 1600, the
  limit that keeps the number of havoc rounds in range, whatever the times and map sizes are; computing it
  lowers the handicap of the test case by four, or by one below that, never below zero, and changes nothing
  else.
\<close>

theorem DoCalcScore_bounds:
  assumes "t < length (case_queue s)" and "total_cal_cycles s \<noteq> 0" and "total_bitmap_entries s \<noteq> 0"
  shows "\<exists>score h. DoCalcScore t s = Inr (score, upd_case t (\<lambda>tc. tc\<lparr>handicap := h\<rparr>) s) \<and> 2 \<le> score \<and> score \<le> 1600 \<and>
    h = handicap (case_queue s ! t) - (if 4 \<le> handicap (case_queue s ! t) then 4 else 1)"
  by (rule DoCalcScore_result [OF assms])

theorem DoCalcScore_bounds_witness:
  "\<exists>score h. DoCalcScore 0 (demo_afl\<lparr>total_cal_cycles := 8, total_bitmap_entries := 1\<rparr>) =
     Inr (score, upd_case 0 (\<lambda>tc. tc\<lparr>handicap := h\<rparr>) (demo_afl\<lparr>total_cal_cycles := 8, total_bitmap_entries := 1\<rparr>)) \<and> 2 \<le> score \<and> score \<le> 1600"
proof -
  have "0 < length (case_queue (demo_afl\<lparr>total_cal_cycles := 8, total_bitmap_entries := 1\<rparr>))"
    by (simp add: demo_afl_simps)
  then show ?thesis
    using DoCalcScore_bounds [of 0 "demo_afl\<lparr>total_cal_cycles := 8, total_bitmap_entries := 1\<rparr>"] by auto
qed

section \<open>The machine\<close>

datatype Phase =
    Idle                \<comment> \<open>between two calls of \<open>OneLoop\<close>\<close>
  | Selected nat        \<comment> \<open>\<open>ConsiderSkipMut\<close> comes next\<close>
  | Loaded nat          \<comment> \<open>\<open>RetryCalibrate\<close>\<close>
  | Calibrated nat      \<comment> \<open>\<open>TrimCase\<close>\<close>
  | Trimmed nat         \<comment> \<open>\<open>CalcScore\<close>\<close>
  | Mutating nat        \<comment> \<open>\<open>ApplyDetMuts\<close> and \<open>ApplyRandMuts\<close>\<close>
  | Abandoning nat      \<comment> \<open>\<open>AbandonEntry\<close>\<close>

inductive flow_step :: "World \<Rightarrow> Phase \<times> AFLState \<Rightarrow> Phase \<times> AFLState \<Rightarrow> bool" for W where
  select: "CullQueue W s = Inr s1 \<Longrightarrow> SelectSeed s1 = Inr (t, s2) \<Longrightarrow> flow_step W (Idle, s) (Selected t, s2)"
| skip_or_load: "ConsiderSkipMut W t s rs = Inr ((skip, s1), rs') \<Longrightarrow>
    flow_step W (Selected t, s) (if skip then (Idle, next_entry s1) else (Loaded t, s1))"
| retry: "RetryCalibrate W t s = Inr (ab, s1) \<Longrightarrow> flow_step W (Loaded t, s) (if ab then Abandoning t else Calibrated t, s1)"
| trim: "TrimCase W t s = Inr (ab, s1) \<Longrightarrow> flow_step W (Calibrated t, s) (if ab then Abandoning t else Trimmed t, s1)"
| score: "CalcScore t s = Inr s1 \<Longrightarrow> flow_step W (Trimmed t, s) (Mutating t, s1)"
| execute: "fits buf \<Longrightarrow> execute_put W buf s = Inr (stop, s1) \<Longrightarrow>
    flow_step W (Mutating t, s) (if stop then Abandoning t else Mutating t, s1)"
| det_done: "MarkAsDetDone W t s = Inr s1 \<Longrightarrow> flow_step W (Mutating t, s) (Mutating t, s1)"
| finish: "flow_step W (Mutating t, s) (Abandoning t, s)"
| abandon: "AbandonEntry t s = Inr s1 \<Longrightarrow> flow_step W (Abandoning t, s) (Idle, next_entry s1)"

inductive_cases flow_stepE:
  "flow_step W (Idle, s) st" "flow_step W (Selected t, s) st" "flow_step W (Loaded t, s) st" "flow_step W (Calibrated t, s) st"
  "flow_step W (Trimmed t, s) st" "flow_step W (Mutating t, s) st" "flow_step W (Abandoning t, s) st"

text \<open>The statistics that the score divides by.\<close>

definition stats_ok :: "AFLState \<Rightarrow> bool" where
  "stats_ok s \<longleftrightarrow> total_cal_cycles s \<noteq> 0 \<and> total_bitmap_entries s \<noteq> 0"

fun phase_ok :: "Phase \<Rightarrow> AFLState \<Rightarrow> bool" where
  "phase_ok Idle s = True"
| "phase_ok (Loaded t) s = (t < length (case_queue s) \<and> loaded (input (case_queue s ! t)))"
| "phase_ok (Calibrated t) s = (t < length (case_queue s) \<and> loaded (input (case_queue s ! t)))"
| "phase_ok (Selected t) s = (t < length (case_queue s))"
| "phase_ok (Trimmed t) s = (t < length (case_queue s))"
| "phase_ok (Mutating t) s = (t < length (case_queue s))"
| "phase_ok (Abandoning t) s = (t < length (case_queue s))"

definition flow_inv :: "World \<Rightarrow> Phase \<times> AFLState \<Rightarrow> bool" where
  "flow_inv W st \<longleftrightarrow> afl_inv W (snd st) \<and> stats_ok (snd st) \<and> phase_ok (fst st) (snd st)"

section \<open>Every routine succeeds and keeps the invariant\<close>

lemma flagged_mild:
  assumes "flagged s s'"
  shows "mild s s'"
proof -
  obtain q x y where s': "s' = s\<lparr>case_queue := q, queued_favored := x, pending_favored := y\<rparr>"
    using assms unfolding flagged_def by blast
  have len: "length q = length (case_queue s)"
    using assms s' by (simp add: flagged_def)
  have nth: "\<exists>b. q ! u = (case_queue s ! u)\<lparr>favored := b\<rparr>" if "u < length (case_queue s)" for u
    using assms that unfolding flagged_def s' by auto
  have same: "map g q = map g (case_queue s)" if "\<And>c b. g (c\<lparr>favored := b\<rparr>) = g c" for g :: "AFLTestcase \<Rightarrow> 'b"
    by (rule nth_equalityI) (use len nth that in \<open>auto, metis\<close>)
  have "map case_view q = map case_view (case_queue s)" "map input q = map input (case_queue s)"
    by (rule same; simp add: case_view_def)+
  then show ?thesis
    by (simp add: mild_def inv_view_def s')
qed

lemma CullQueue_steady:
  assumes W: "world_ok W" and inv: "afl_inv W s"
  shows "\<exists>s'. CullQueue W s = Inr s' \<and> steady W s s'"
proof (cases "dumb_mode (setting s) \<or> \<not> score_changed s")
  case True
  then show ?thesis using steady_refl by (simp add: CullQueue_def)
next
  case False
  let ?s0 = "s\<lparr>score_changed := False, queued_favored := 0, pending_favored := 0,
      case_queue := map (\<lambda>tc. tc\<lparr>favored := False\<rparr>) (case_queue s)\<rparr>"
  have tops: "tops_ok W s" using inv by (simp add: afl_inv_def)
  have act: "\<not> dumb_mode (setting s)" "score_changed s" using False by simp_all
  obtain s1 where s1: "flagged ?s0 s1" "CullQueue W s = Inr (s1\<lparr>case_queue := map (\<lambda>tc. tc\<lparr>fs_redundant := \<not> favored tc\<rparr>) (case_queue s1)\<rparr>)"
    using CullQueue_result [OF world_okD(1) [OF W] tops world_okD(7) [OF W] act] by (elim exE conjE) (rule that)
  have "mild s ?s0"
    by (simp add: mild_def inv_view_def case_view_def)
  moreover have "mild s1 (s1\<lparr>case_queue := map (\<lambda>tc. tc\<lparr>fs_redundant := \<not> favored tc\<rparr>) (case_queue s1)\<rparr>)"
    by (simp add: mild_def inv_view_def case_view_def)
  ultimately show ?thesis
    using s1(2) mild_trans [OF _ mild_trans [OF flagged_mild [OF s1(1)]]] mild_steady by blast
qed

lemma SelectSeed_ok:
  assumes "afl_inv W s"
  shows "\<exists>t s'. SelectSeed s = Inr (t, s') \<and> steady W s s' \<and> t < length (case_queue s')"
proof -
  define s' where "s' = (if queue_cycle s = 0 \<or> length (case_queue s) \<le> current_entry s then
                  let s = s\<lparr>queue_cycle := queue_cycle s + 1, current_entry := seek_to s, seek_to := 0, cur_skipped_paths := 0\<rparr>;
                      s = (if queued_paths s = prev_queued s then
                             (if use_splicing s then s\<lparr>cycles_wo_finds := cycles_wo_finds s + 1\<rparr> else s\<lparr>use_splicing := True\<rparr>)
                           else s\<lparr>cycles_wo_finds := 0\<rparr>)
                  in s\<lparr>prev_queued := queued_paths s\<rparr>
                else s)"
  have "steady W s s'"
    by (rule steady_sameI) (simp_all add: s'_def Let_def maps_ok_def names_ok_def pace_def perf_ok_def)
  moreover have "current_entry s' < length (case_queue s')"
    using assms by (simp add: s'_def Let_def afl_inv_def)
  moreover have "SelectSeed s = (if current_entry s' < length (case_queue s') then Inr (current_entry s', s') else Inl AssertFail)"
    unfolding SelectSeed_def s'_def by (simp only: Let_def)
  ultimately show ?thesis by simp
qed

lemma skip_mut_ok:
  assumes "t < length (case_queue s)"
  shows "\<exists>r. skip_mut t s rs = Inr r"
proof -
  obtain x rs' where "UR 100 rs = Inr (x, rs')" using UR_ok [of 100 rs] by auto
  then show ?thesis using assms by (auto simp: skip_mut_def Let_def)
qed

lemma load_case_ok:
  assumes "world_ok W" and "afl_inv W s" and "t < length (case_queue s)"
  shows "\<exists>s'. load_case W t s = Inr s' \<and> afl_inv W s' \<and> t < length (case_queue s') \<and> loaded (input (case_queue s' ! t)) \<and>
    pace s s'"
proof -
  have len: "fits (in_disk (input (case_queue s ! t)))"
    using assms(2) nth_mem [OF assms(3)] unfolding afl_inv_def inputs_ok_def by blast
  obtain inp where inp: "Load (can_open W) (input (case_queue s ! t)) = Inr inp" "loaded inp" "in_disk inp = in_disk (input (case_queue s ! t))"
    using Load_loaded [of "can_open W" _, OF world_okD(6) [OF assms(1)] fits_less [OF len]] by blast
  have "afl_inv W (upd_case t (\<lambda>tc. tc\<lparr>input := inp\<rparr>) s)"
    by (rule afl_inv_upd_input [OF assms(2,3)]) (use len inp(3) in simp)
  then show ?thesis
    using assms(3) inp by (simp add: load_case_def upd_case_def)
qed

lemma steady_case:
  assumes "steady W s s'" and "t < length (case_queue s)"
  shows "t < length (case_queue s')" and "input (case_queue s' ! t) = input (case_queue s ! t)"
proof -
  have eq: "map input (case_queue s') = map input (case_queue s)" using assms(1) by (simp add: steady_def)
  then show "t < length (case_queue s')" using assms(2) by (metis length_map)
  then show "input (case_queue s' ! t) = input (case_queue s ! t)"
    using eq assms(2) by (metis nth_map)
qed

lemma RetryCalibrate_ok:
  assumes W: "world_ok W" and inv: "afl_inv W s" and t: "t < length (case_queue s)" and ld: "loaded (input (case_queue s ! t))"
  shows "\<exists>ab s'. RetryCalibrate W t s = Inr (ab, s') \<and> steady W s s'"
proof -
  let ?tc = "case_queue s ! t"
  define s1 where "s1 = s\<lparr>subseq_tmouts := 0, cur_depth := u32 (depth ?tc)\<rparr>"
  define s2 where "s2 = upd_case t (\<lambda>tc. tc\<lparr>exec_cksum := 0\<rparr>) s1"
  have m1: "mild s s1" by (simp add: s1_def mild_def inv_view_def)
  have "mild s1 s2" unfolding s2_def by (rule mild_upd_case) (simp_all add: case_view_def)
  with m1 have m2: "mild s s2" by (rule mild_trans)
  have t2: "t < length (case_queue s2)" "exec_cksum (case_queue s2 ! t) = 0"
    using t by (simp_all add: s2_def s1_def upd_case_def)
  obtain feed ex s3 where s3: "CalibrateCaseWithFeedDestroyed W t (in_disk (input ?tc)) [] \<lparr>es_reason = FAULT_NONE, es_signal = 0\<rparr>
      (u32_sub (u32 (queue_cycle s1)) 1) False s2 = Inr (feed, ex, s3)" "steady W s2 s3" "es_reason ex \<noteq> FAULT_ERROR"
    using Calibrate_ok [OF W mild_inv [OF m2 inv] t2(1), of "[]" "in_disk (input ?tc)" "\<lparr>es_reason = FAULT_NONE, es_signal = 0\<rparr>"
        "u32_sub (u32 (queue_cycle s1)) 1" False] t2(2) by auto
  have st3: "steady W s s3" using mild_steady [OF m2] s3(2) by (rule steady_trans)
  have skip: "steady W x (x\<lparr>cur_skipped_paths := n\<rparr>)" for x n
    by (rule mild_steady) (simp add: mild_def inv_view_def)
  have "RetryCalibrate W t s =
     (if cal_failed ?tc = 0 then Inr (False, s1)
      else if cal_failed ?tc < CalChances then
        (if stop_soon s3 \<or> es_reason ex \<noteq> crash_mode s3 then Inr (True, s3\<lparr>cur_skipped_paths := u32 (cur_skipped_paths s3 + 1)\<rparr>) else Inr (False, s3))
      else if stop_soon s1 \<or> FAULT_TMOUT \<noteq> crash_mode s1 then Inr (True, s1\<lparr>cur_skipped_paths := u32 (cur_skipped_paths s1 + 1)\<rparr>) else Inr (False, s1))"
    using t GetInput_loaded [OF ld] s3(1,3)
    unfolding RetryCalibrate_def Let_def s1_def [symmetric] s2_def [symmetric] by (simp add: s1_def [symmetric] s2_def [symmetric])
  then show ?thesis
    using mild_steady [OF m1] st3 steady_trans [OF st3 skip] steady_trans [OF mild_steady [OF m1] skip] by auto
qed

text \<open>What every routine leaves behind.\<close>

definition advances :: "World \<Rightarrow> AFLState \<Rightarrow> AFLState \<Rightarrow> bool" where
  "advances W s s' \<longleftrightarrow> (afl_inv W s \<longrightarrow> afl_inv W s') \<and> pace s s' \<and> length (case_queue s) \<le> length (case_queue s')"

lemma pace_stats: "pace s s' \<Longrightarrow> stats_ok s \<Longrightarrow> stats_ok s'"
  by (simp add: pace_def stats_ok_def)

lemma advances_trans [trans]: "advances W s s' \<Longrightarrow> advances W s' s'' \<Longrightarrow> advances W s s''"
  using pace_trans by (auto simp: advances_def)

lemma grows_advances: "grows W s s' \<Longrightarrow> advances W s s'"
  using grows_length by (auto simp: advances_def grows_def)

lemma steady_advances: "steady W s s' \<Longrightarrow> advances W s s'"
  by (rule grows_advances) (rule steady_grows)

lemma mild_advances: "mild s s' \<Longrightarrow> advances W s s'"
  by (rule steady_advances) (rule mild_steady)

lemma advances_inv:
  assumes "advances W s s'" and "afl_inv W s" and "stats_ok s" and "t < length (case_queue s)"
  shows "afl_inv W s'" and "stats_ok s'" and "t < length (case_queue s')"
  using assms pace_stats by (auto simp: advances_def)

lemma mild_skipped: "mild s (s\<lparr>cur_skipped_paths := n\<rparr>)"
  by (simp add: mild_def inv_view_def)

lemma TrimCase_ok:
  assumes W: "world_ok W" and inv: "afl_inv W s" and t: "t < length (case_queue s)" and ld: "loaded (input (case_queue s ! t))"
  shows "\<exists>ab s'. TrimCase W t s = Inr (ab, s') \<and> advances W s s'"
proof -
  obtain fault s1 inp where d: "DoTrimCase W t s = Inr (fault, s1)" "fault \<noteq> FAULT_ERROR" "afl_inv W s1"
    "map input (case_queue s1) = (map input (case_queue s))[t := inp]"
    "pace s s1"
    using DoTrimCase_result [OF W inv t ld] by (elim exE conjE) (rule that)
  have "length (case_queue s1) = length (case_queue s)"
    using arg_cong [OF d(4), of length] by simp
  then have a: "advances W s s1"
    using d by (auto simp: advances_def)
  have "mild s1 (upd_case t (\<lambda>tc. tc\<lparr>trim_done := True\<rparr>) s1)"
    by (rule mild_upd_case) (simp_all add: case_view_def)
  then show ?thesis
    using t d(1,2) a advances_trans [OF a mild_advances] mild_advances [OF mild_refl] mild_skipped by (auto simp: TrimCase_def)
qed

lemma CalcScore_ok:
  assumes "stats_ok s" and "t < length (case_queue s)"
  shows "\<exists>s'. CalcScore t s = Inr s' \<and> mild s s' \<and> perf_ok s'"
proof -
  obtain x h where d: "DoCalcScore t s = Inr (x, upd_case t (\<lambda>tc. tc\<lparr>handicap := h\<rparr>) s)" "2 \<le> x" "x \<le> 1600"
    using DoCalcScore_result [OF assms(2)] assms(1) unfolding stats_ok_def by blast
  have "mild s (upd_case t (\<lambda>tc. tc\<lparr>handicap := h\<rparr>) s)"
    by (rule mild_upd_case) (simp_all add: case_view_def)
  moreover have "mild y (y\<lparr>orig_perf := x\<rparr>)" for y
    using d(2,3) by (simp add: mild_def inv_view_def pace_def perf_ok_def)
  ultimately show ?thesis
    using d mild_trans by (auto simp: CalcScore_def perf_ok_def)
qed

lemma NormalUpdate_ok:
  assumes W: "world_ok W" and inv: "afl_inv W s" and feed: "length feed = map_size W" and ex: "es_reason ex \<noteq> FAULT_ERROR"
    and buf: "fits buf"
  shows "\<exists>stop feed' ex' s'. NormalUpdate W buf feed ex s = Inr (stop, feed', ex', s') \<and> grows W s s'"
proof -
  define s1 where "s1 = s\<lparr>subseq_tmouts := (if es_reason ex = FAULT_TMOUT then u32 (subseq_tmouts s + 1) else 0)\<rparr>"
  have g: "grows W x (x\<lparr>subseq_tmouts := n, cur_skipped_paths := m\<rparr>)" "grows W x (x\<lparr>subseq_tmouts := n\<rparr>)"
    "grows W x (x\<lparr>queued_discovered := n\<rparr>)" for x n m
    by (rule steady_grows, rule mild_steady, simp add: mild_def inv_view_def)+
  have s1: "grows W s s1" unfolding s1_def by (rule g)
  obtain k feed' ex' s' where r: "SaveIfInteresting W buf feed ex s1 = Inr (k, feed', ex', s')" "grows W s1 s'"
    using SaveIfInteresting_result [OF W _ feed ex buf, of s1] s1 inv unfolding grows_def by (elim exE conjE impE) (auto simp: grows_def)
  have "grows W s s'" using s1 r(2) by (rule grows_trans)
  then show ?thesis
    using r(1) g(1) steady_grows [OF steady_refl] grows_trans [OF _ g(3)]
    unfolding NormalUpdate_def Let_def s1_def [symmetric] by auto
qed

lemma execute_put_ok:
  assumes W: "world_ok W" and inv: "afl_inv W s" and buf: "fits buf"
  shows "\<exists>stop s'. execute_put W buf s = Inr (stop, s') \<and> grows W s s'"
proof -
  obtain feed ex s1 where r: "RunExecutorWithClassifyCounts W buf 0 s = Inr (feed, ex, s1)" "mild s s1"
    "length feed = map_size W" "es_reason ex \<noteq> FAULT_ERROR"
    using Run_okE [OF W] by metis
  obtain stop feed' ex' s' where "NormalUpdate W buf feed ex s1 = Inr (stop, feed', ex', s')" "grows W s1 s'"
    using NormalUpdate_ok [OF W mild_inv [OF r(2) inv] r(3,4) buf] by blast
  then show ?thesis
    using r(1) grows_trans [OF steady_grows [OF mild_steady [OF r(2)]]] by (simp add: execute_put_def)
qed

lemma MarkAsDetDone_ok:
  assumes "world_ok W" and "t < length (case_queue s)"
  shows "\<exists>s'. MarkAsDetDone W t s = Inr s' \<and> mild s s'"
proof -
  have "mild s (upd_case t (\<lambda>tc. tc\<lparr>passed_det := True\<rparr>) s)"
    by (rule mild_upd_case) (simp_all add: case_view_def)
  then show ?thesis
    using assms(2) world_okD(7) [OF assms(1)] by (simp add: MarkAsDetDone_def write_marker_def)
qed

section \<open>The end of the work on a test case\<close>

lemma u32_pred: "1 \<le> n \<Longrightarrow> u32_sub (u32 n) 1 = u32 (n - 1)"
proof -
  assume n: "1 \<le> n"
  have "(4294967295 + n mod 4294967296) mod 4294967296 = (4294967295 + n) mod 4294967296"
    by (rule mod_add_right_eq)
  also have "4294967295 + n = n - 1 + 4294967296" using n by simp
  also have "\<dots> mod 4294967296 = (n - 1) mod 4294967296" by simp
  finally show ?thesis unfolding u32_sub_def u32_def by simp
qed

lemma filter_update_out:
  "t < length xs \<Longrightarrow> P (xs ! t) \<Longrightarrow> \<not> P x \<Longrightarrow> length (filter P (xs[t := x])) + 1 = length (filter P xs)"
proof (induction xs arbitrary: t)
  case (Cons a xs)
  then show ?case by (cases t) auto
qed simp

lemma fuzzed_advances:
  assumes t: "t < length (case_queue s)" and new: "\<not> WasFuzzed (case_queue s ! t)"
  shows "advances W s ((upd_case t MarkFuzzed s)\<lparr>pending_not_fuzzed := u32_sub (pending_not_fuzzed s) 1, pending_favored := p\<rparr>)"
    (is "advances W s ?s'")
proof -
  have q: "case_queue ?s' = (case_queue s)[t := (case_queue s ! t)\<lparr>fuzz_level := 1\<rparr>]"
    by (simp add: upd_case_def MarkFuzzed_def)
  have nth: "case_queue ?s' ! u = (if u = t then (case_queue s ! t)\<lparr>fuzz_level := 1\<rparr> else case_queue s ! u)"
    if "u < length (case_queue s)" for u
    using that t unfolding q by (simp add: nth_list_update)
  have "case_ok n tops u (case_queue ?s' ! u) = case_ok n tops u (case_queue s ! u)" if "u < length (case_queue s)" for n tops u
    unfolding nth [OF that] by (rule case_ok_cong) simp_all
  moreover have "top_rated ?s' = top_rated s"
    by (simp add: upd_case_def)
  ultimately have tops: "tops_ok W ?s' = tops_ok W s"
    by (simp add: tops_ok_def)
  have cnt: "length (filter (\<lambda>tc. fuzz_level tc = 0) (case_queue ?s')) + 1 = length (filter (\<lambda>tc. fuzz_level tc = 0) (case_queue s))"
    unfolding q by (rule filter_update_out [OF t]) (use new in \<open>simp_all add: WasFuzzed_def\<close>)
  have counts: "counts_ok ?s'" if "counts_ok s"
    using that u32_pred [of "length (filter (\<lambda>tc. fuzz_level tc = 0) (case_queue s))"]
    by (simp add: counts_ok_def cnt [symmetric]) (simp add: upd_case_def)
  have inputs: "inputs_ok ?s'" if "inputs_ok s"
    using that nth_mem [OF t] unfolding inputs_ok_def q
    by (auto dest!: set_update_subset_insert [THEN subsetD])
  have "maps_ok W ?s' = maps_ok W s" "names_ok ?s' = names_ok s" "seek_to ?s' = seek_to s" "pace s ?s'"
    by (simp_all add: maps_ok_def names_ok_def upd_case_def)
  then show ?thesis
    using tops counts inputs by (simp add: advances_def afl_inv_def)
qed

lemma unload_advances:
  assumes inv: "afl_inv W s" and t: "t < length (case_queue s)"
  shows "advances W s (upd_case t (\<lambda>tc. tc\<lparr>input := Unload (input tc)\<rparr>) s)"
proof -
  have "upd_case t (\<lambda>tc. tc\<lparr>input := Unload (input tc)\<rparr>) s = upd_case t (\<lambda>tc. tc\<lparr>input := Unload (input (case_queue s ! t))\<rparr>) s"
    by (simp add: upd_case_def)
  moreover have "fits (in_disk (Unload (input (case_queue s ! t))))"
    using inv nth_mem [OF t] by (auto simp: afl_inv_def inputs_ok_def Unload_def)
  ultimately show ?thesis
    using afl_inv_upd_input [OF inv t] by (simp add: advances_def upd_case_def)
qed

lemma AbandonEntry_ok:
  assumes inv: "afl_inv W s" and t: "t < length (case_queue s)"
  shows "\<exists>s'. AbandonEntry t s = Inr s' \<and> advances W s s'"
proof -
  let ?tc = "case_queue s ! t"
  define s1 where "s1 = s\<lparr>splicing_with := -1\<rparr>"
  define s2 where "s2 = (if \<not> stop_soon s1 \<and> cal_failed ?tc = 0 \<and> \<not> WasFuzzed ?tc then
      (upd_case t MarkFuzzed s1)\<lparr>pending_not_fuzzed := u32_sub (pending_not_fuzzed s1) 1,
        pending_favored := (if favored ?tc then u32_sub (pending_favored s1) 1 else pending_favored s1)\<rparr> else s1)"
  have a1: "advances W s s1"
    by (rule mild_advances) (simp add: s1_def mild_def inv_view_def)
  have t1: "t < length (case_queue s1)" "case_queue s1 ! t = ?tc" using t by (simp_all add: s1_def)
  have "advances W s1 s2"
    using fuzzed_advances [OF t1(1)] t1(2) mild_advances [OF mild_refl] by (simp add: s2_def)
  with a1 have a2: "advances W s s2" by (rule advances_trans)
  then have "afl_inv W s2" "t < length (case_queue s2)" using inv t by (auto simp: advances_def)
  then have "advances W s (upd_case t (\<lambda>tc. tc\<lparr>input := Unload (input tc)\<rparr>) s2)"
    using advances_trans [OF a2 unload_advances] by blast
  moreover have "AbandonEntry t s = Inr (upd_case t (\<lambda>tc. tc\<lparr>input := Unload (input tc)\<rparr>) s2)"
    using t by (simp add: AbandonEntry_def Let_def s2_def s1_def upd_case_def)
  ultimately show ?thesis by blast
qed

section \<open>Safety of the machine\<close>

text \<open>The routine that comes next returns normally, whatever it draws and whatever buffer it is given.\<close>

fun no_failure :: "World \<Rightarrow> Phase \<Rightarrow> AFLState \<Rightarrow> bool" where
  "no_failure W Idle s = (\<exists>s1 t s2. CullQueue W s = Inr s1 \<and> SelectSeed s1 = Inr (t, s2))"
| "no_failure W (Selected t) s = (\<forall>rs. \<exists>r. ConsiderSkipMut W t s rs = Inr r)"
| "no_failure W (Loaded t) s = (\<exists>r. RetryCalibrate W t s = Inr r)"
| "no_failure W (Calibrated t) s = (\<exists>r. TrimCase W t s = Inr r)"
| "no_failure W (Trimmed t) s = (\<exists>r. CalcScore t s = Inr r)"
| "no_failure W (Mutating t) s =
     ((\<forall>buf. fits buf \<longrightarrow> (\<exists>r. execute_put W buf s = Inr r)) \<and> (\<exists>r. MarkAsDetDone W t s = Inr r))"
| "no_failure W (Abandoning t) s = (\<exists>r. AbandonEntry t s = Inr r)"

lemma next_entry_mild: "mild s (next_entry s)"
  by (simp add: next_entry_def mild_def inv_view_def)

lemma flow_invI:
  assumes "advances W s s'" and "flow_inv W (ph, s)" and "phase_ok ph' s'"
  shows "flow_inv W (ph', s')"
  using assms pace_stats by (auto simp: flow_inv_def advances_def)

lemma Idle_ok:
  assumes W: "world_ok W" and inv: "flow_inv W (Idle, s)"
  shows "\<exists>s1 t s2. CullQueue W s = Inr s1 \<and> SelectSeed s1 = Inr (t, s2) \<and> flow_inv W (Selected t, s2)"
proof -
  have i: "afl_inv W s" using inv by (simp add: flow_inv_def)
  obtain s1 where s1: "CullQueue W s = Inr s1" "steady W s s1"
    using CullQueue_steady [OF W i] by blast
  obtain t s2 where s2: "SelectSeed s1 = Inr (t, s2)" "steady W s1 s2" "t < length (case_queue s2)"
    using SelectSeed_ok [OF steady_inv [OF s1(2) i]] by blast
  have "flow_inv W (Selected t, s2)"
    by (rule flow_invI [OF steady_advances [OF steady_trans [OF s1(2) s2(2)]] inv]) (use s2(3) in simp)
  then show ?thesis using s1 s2 by blast
qed

lemma Selected_ok:
  assumes W: "world_ok W" and inv: "flow_inv W (Selected t, s)"
  shows "\<exists>skip s1 rs'. ConsiderSkipMut W t s rs = Inr ((skip, s1), rs') \<and>
    flow_inv W (if skip then (Idle, next_entry s1) else (Loaded t, s1))"
proof -
  have i: "afl_inv W s" "stats_ok s" "t < length (case_queue s)" using inv by (simp_all add: flow_inv_def)
  obtain skip rs' where sk: "skip_mut t s rs = Inr (skip, rs')"
    using skip_mut_ok [OF i(3)] by fastforce
  obtain s1 where s1: "load_case W t s = Inr s1" "afl_inv W s1" "t < length (case_queue s1)" "loaded (input (case_queue s1 ! t))"
    "pace s s1"
    using load_case_ok [OF W i(1,3)] by blast
  have "flow_inv W (Idle, next_entry s)"
    by (rule flow_invI [OF mild_advances [OF next_entry_mild] inv]) simp
  moreover have "flow_inv W (Loaded t, s1)"
    using s1 i(2) pace_stats by (auto simp: flow_inv_def)
  ultimately show ?thesis
    using sk s1(1) by (cases skip) (auto simp: ConsiderSkipMut_def)
qed

lemma Loaded_ok:
  assumes W: "world_ok W" and inv: "flow_inv W (Loaded t, s)"
  shows "\<exists>ab s1. RetryCalibrate W t s = Inr (ab, s1) \<and> flow_inv W (if ab then Abandoning t else Calibrated t, s1)"
proof -
  have i: "afl_inv W s" "t < length (case_queue s)" "loaded (input (case_queue s ! t))" using inv by (simp_all add: flow_inv_def)
  obtain ab s1 where s1: "RetryCalibrate W t s = Inr (ab, s1)" "steady W s s1"
    using RetryCalibrate_ok [OF W i] by blast
  have "flow_inv W (if ab then Abandoning t else Calibrated t, s1)"
    by (rule flow_invI [OF steady_advances [OF s1(2)] inv]) (use steady_case [OF s1(2) i(2)] i(3) in simp)
  with s1 show ?thesis by blast
qed

lemma Calibrated_ok:
  assumes W: "world_ok W" and inv: "flow_inv W (Calibrated t, s)"
  shows "\<exists>ab s1. TrimCase W t s = Inr (ab, s1) \<and> flow_inv W (if ab then Abandoning t else Trimmed t, s1)"
proof -
  have i: "afl_inv W s" "t < length (case_queue s)" "loaded (input (case_queue s ! t))" using inv by (simp_all add: flow_inv_def)
  obtain ab s1 where s1: "TrimCase W t s = Inr (ab, s1)" "advances W s s1"
    using TrimCase_ok [OF W i] by blast
  have "flow_inv W (if ab then Abandoning t else Trimmed t, s1)"
    by (rule flow_invI [OF s1(2) inv]) (use s1(2) i(2) in \<open>simp add: advances_def\<close>)
  with s1 show ?thesis by blast
qed

lemma Trimmed_ok:
  assumes inv: "flow_inv W (Trimmed t, s)"
  shows "\<exists>s1. CalcScore t s = Inr s1 \<and> flow_inv W (Mutating t, s1)"
proof -
  obtain s1 where s1: "CalcScore t s = Inr s1" "mild s s1"
    using CalcScore_ok [of s t] inv by (auto simp: flow_inv_def)
  have "flow_inv W (Mutating t, s1)"
    by (rule flow_invI [OF mild_advances [OF s1(2)] inv]) (use mild_length [OF s1(2)] inv in \<open>simp add: flow_inv_def\<close>)
  with s1 show ?thesis by blast
qed

lemma Mutating_ok:
  assumes W: "world_ok W" and inv: "flow_inv W (Mutating t, s)"
  shows "fits buf \<Longrightarrow> \<exists>stop s1. execute_put W buf s = Inr (stop, s1) \<and> flow_inv W (if stop then Abandoning t else Mutating t, s1)"
    and "\<exists>s1. MarkAsDetDone W t s = Inr s1 \<and> flow_inv W (Mutating t, s1)"
    and "flow_inv W (Abandoning t, s)"
proof -
  have i: "afl_inv W s" "t < length (case_queue s)" using inv by (simp_all add: flow_inv_def)
  show "\<exists>stop s1. execute_put W buf s = Inr (stop, s1) \<and> flow_inv W (if stop then Abandoning t else Mutating t, s1)"
    if buf: "fits buf"
  proof -
    obtain stop s1 where s1: "execute_put W buf s = Inr (stop, s1)" "grows W s s1"
      using execute_put_ok [OF W i(1) buf] by blast
    have "flow_inv W (if stop then Abandoning t else Mutating t, s1)"
      by (rule flow_invI [OF grows_advances [OF s1(2)] inv]) (use grows_length [OF s1(2)] i(2) in simp)
    with s1 show ?thesis by blast
  qed
  obtain s1 where s1: "MarkAsDetDone W t s = Inr s1" "mild s s1"
    using MarkAsDetDone_ok [OF W i(2)] by blast
  have "flow_inv W (Mutating t, s1)"
    by (rule flow_invI [OF mild_advances [OF s1(2)] inv]) (use mild_length [OF s1(2)] i(2) in simp)
  with s1 show "\<exists>s1. MarkAsDetDone W t s = Inr s1 \<and> flow_inv W (Mutating t, s1)" by blast
  show "flow_inv W (Abandoning t, s)" using inv by (simp add: flow_inv_def)
qed

lemma Abandoning_ok:
  assumes inv: "flow_inv W (Abandoning t, s)"
  shows "\<exists>s1. AbandonEntry t s = Inr s1 \<and> flow_inv W (Idle, next_entry s1)"
proof -
  obtain s1 where s1: "AbandonEntry t s = Inr s1" "advances W s s1"
    using AbandonEntry_ok [of W s t] inv by (auto simp: flow_inv_def)
  have "flow_inv W (Idle, next_entry s1)"
    by (rule flow_invI [OF advances_trans [OF s1(2) mild_advances [OF next_entry_mild]] inv]) simp
  with s1 show ?thesis by blast
qed

lemma flow_step_inv:
  assumes W: "world_ok W" and step: "flow_step W st st'" and inv: "flow_inv W st"
  shows "flow_inv W st'"
  using step inv
proof (cases rule: flow_step.cases)
  case (select s s1 t s2)
  then show ?thesis using Idle_ok [OF W, of s] inv by auto
next
  case (skip_or_load t s rs skip s1 rs')
  then show ?thesis using Selected_ok [OF W, of t s rs] inv by auto
next
  case (retry t s ab s1)
  then show ?thesis using Loaded_ok [OF W, of t s] inv by auto
next
  case (trim t s ab s1)
  then show ?thesis using Calibrated_ok [OF W, of t s] inv by auto
next
  case (score t s s1)
  then show ?thesis using Trimmed_ok [of W t s] inv by auto
next
  case (execute buf s stop s1 t)
  then show ?thesis using Mutating_ok(1) [OF W, of t s buf] inv by auto
next
  case (det_done t s s1)
  then show ?thesis using Mutating_ok(2) [OF W, of t s] inv by auto
next
  case (finish t s)
  then show ?thesis using Mutating_ok(3) [OF W, of t s] inv by auto
next
  case (abandon t s s1)
  then show ?thesis using Abandoning_ok [of W t s] inv by auto
qed

lemma flow_inv_no_failure:
  assumes W: "world_ok W" and inv: "flow_inv W (ph, s)"
  shows "no_failure W ph s"
proof (cases ph)
  case Idle
  then show ?thesis using Idle_ok [OF W, of s] inv by auto
next
  case (Selected t)
  show ?thesis unfolding Selected no_failure.simps
  proof
    fix rs
    show "\<exists>r. ConsiderSkipMut W t s rs = Inr r" using Selected_ok [OF W, of t s rs] inv Selected by blast
  qed
next
  case (Loaded t)
  then show ?thesis using Loaded_ok [OF W, of t s] inv by auto
next
  case (Calibrated t)
  then show ?thesis using Calibrated_ok [OF W, of t s] inv by auto
next
  case (Trimmed t)
  then show ?thesis using Trimmed_ok [of W t s] inv by auto
next
  case (Mutating t)
  have i: "flow_inv W (Mutating t, s)" using inv Mutating by simp
  have "\<exists>r. execute_put W buf s = Inr r" if "fits buf" for buf
    using Mutating_ok(1) [OF W i that] by blast
  moreover have "\<exists>r. MarkAsDetDone W t s = Inr r" using Mutating_ok(2) [OF W i] by blast
  ultimately show ?thesis unfolding Mutating no_failure.simps by blast
next
  case (Abandoning t)
  then show ?thesis using Abandoning_ok [of W t s] inv by auto
qed

lemma flow_reachable:
  assumes "world_ok W" and "rtranclp (flow_step W) st st'" and "flow_inv W st"
  shows "flow_inv W st'"
  using assms(2,3) flow_step_inv [OF assms(1)] by (induction rule: rtranclp_induct) blast+

text \<open>
  The fuzzing loop of AFL is safe. From every state that satisfies the invariant between two iterations,
  with a calibrated test case, every state that the machine can reach satisfies the invariant: the queue is
  not empty, the table of winners agrees with the reference counts and the kept traces, the counters agree
  with the queue, the maps have their size, the saved crashes and hangs have their numbered names. The routine that comes
  next in such a state never fails: no assertion, no access out of bounds, no division by zero, no error of
  a file as long as the target and the output directory work, whatever the target does on any buffer that the mutations
  produce.
\<close>

theorem afl_flow_safe:
  assumes "world_ok W" and "afl_inv W s0" and "stats_ok s0" and "rtranclp (flow_step W) (Idle, s0) (ph, s)"
  shows "afl_inv W s \<and> stats_ok s \<and> phase_ok ph s \<and> no_failure W ph s"
proof -
  have "flow_inv W (Idle, s0)" using assms(2,3) by (simp add: flow_inv_def)
  then have inv: "flow_inv W (ph, s)" by (rule flow_reachable [OF assms(1,4)])
  then show ?thesis using flow_inv_no_failure [OF assms(1) inv] by (simp add: flow_inv_def)
qed

theorem afl_flow_safe_witness:
  "\<exists>t s. flow_step demo_world (Idle, demo_afl\<lparr>total_cal_cycles := 8, total_bitmap_entries := 1\<rparr>) (Selected t, s) \<and>
     afl_inv demo_world s \<and> no_failure demo_world (Selected t) s"
proof -
  let ?s = "demo_afl\<lparr>total_cal_cycles := 8, total_bitmap_entries := 1\<rparr>"
  have inv: "afl_inv demo_world ?s" "stats_ok ?s"
    by (rule afl_inv_view [OF _ demo_afl_inv]) (simp_all add: inv_view_def stats_ok_def)
  obtain t s where st: "flow_step demo_world (Idle, ?s) (Selected t, s)"
    using afl_flow_safe [OF demo_world_ok inv rtranclp.rtrancl_refl] select by fastforce
  then show ?thesis
    using afl_flow_safe [OF demo_world_ok inv r_into_rtranclp, OF st] by blast
qed

end
