(* ===== verification/AFL_Havoc.thy ===== *)
theory AFL_Havoc
  imports AFL_Contract AFL_Splice AFL_Flow
begin

text \<open>
  The contracts of the random stages. Havoc and splicing execute buffers of any length up to \<open>MaxFile\<close>; havoc restores the buffer
  it was given after every round, splicing after every splice, and the number of rounds stays within bounds although
  it is doubled whenever something new is found.
\<close>

section \<open>Havoc\<close>

locale any_put =
  fixes put :: put and B I :: "Stages \<Rightarrow> bool"
  assumes put_fits: "fits buf \<Longrightarrow> I z \<Longrightarrow> \<exists>stop z'. put buf z = Inr (stop, z') \<and> (if stop then B z' else I z')"
    and remarked: "unmark z' = unmark z \<Longrightarrow> I z \<Longrightarrow> I z'"
    and env: "I z \<Longrightarrow> 0 < queue_cycle (afl z) \<and> dict_ok (extras z) \<and> dict_ok (a_extras z) \<and> perf_ok (afl z) \<and> 0 < havoc_div z"

text \<open>For buffers of one length, this is the contract of the deterministic stages.\<close>

locale sized_put = any_put +
  fixes n :: nat
  assumes sized: "I z \<Longrightarrow> 0 < n \<and> n \<le> MaxFile"

sublocale sized_put \<subseteq> sized: put_loop put n B I "\<lambda>_. True"
proof unfold_locales
  show "\<exists>stop z'. put buf z = Inr (stop, z') \<and> (if stop then B z' else I z')" if "length buf = n" "I z" for buf z
    by (rule put_fits) (use that sized [OF that(2)] in \<open>auto simp: fits_def\<close>)
qed (use remarked sized in auto)

text \<open>Two mutators with the same buffers, apart from the one that havoc works in.\<close>

definition same_bufs :: "Mutator \<Rightarrow> Mutator \<Rightarrow> bool" where
  "same_bufs m0 m \<longleftrightarrow> hav_ok m \<and> outbuf m = outbuf m0 \<and> len m = len m0 \<and> splbuf m = splbuf m0 \<and> spl_len m = spl_len m0 \<and>
     Mutator.input m = Mutator.input m0"

lemma hav_fits:
  assumes "hav_ok m"
  shows "\<exists>xs. GetBuf m = Inr xs \<and> fits xs"
proof -
  from assms obtain ob where "outbuf m = Some ob" "len m \<le> length ob" "0 < len m" "len m \<le> MaxFile"
    by (rule hav_okE)
  then show ?thesis by (auto simp: GetBuf_def fits_def)
qed

context any_put
begin

lemma havoc_round_ends:
  assumes "same_bufs m0 m" and "I z"
  shows "ends B (\<lambda>m'. same_bufs m0 (RestoreHavoc m')) I (havoc_round put cur mx m z)"
proof -
  have m: "hav_ok m" using assms(1) by (simp add: same_bufs_def)
  obtain k rs where k: "UR HavocStackPow2 (rand z) = Inr (k, rs)"
    using UR_ok [of HavocStackPow2 "rand z"] by (auto simp: HavocStackPow2_def)
  define z1 where "z1 = cur_val (int (2 ^ (1 + k))) (progress (int cur) (int mx) z)"
  have "I z1" unfolding z1_def by (rule remarked [OF _ assms(2)]) simp
  note e = env [OF this]
  then obtain cycle where c: "queue_cycle (afl z1) = Suc cycle" by (cases "queue_cycle (afl z1)") auto
  obtain m' rs' where h: "Havoc (AFL_ChooseBlockLen (queue_cycle (afl z1)) (run_over10m z1)) AFLHavocCaseDistrib no_custom (2 ^ (1 + k))
      (extras z1) (a_extras z1) m rs = Inr (m', rs')" "hav_ok m'" "same_bufs m (RestoreHavoc m')"
    using afl_havoc.Havoc_restores [OF m, of "extras z1" "a_extras z1" cycle "run_over10m z1" "2 ^ (1 + k)" rs] e
    unfolding c same_bufs_def by blast
  have s: "same_bufs m0 (RestoreHavoc m')" using h(3) assms(1) by (simp add: same_bufs_def)
  obtain xs where xs: "GetBuf m' = Inr xs" "fits xs" using hav_fits [OF h(2)] by blast
  have "I (z1\<lparr>rand := rs'\<rparr>)" by (rule remarked [OF _ \<open>I z1\<close>]) simp
  then obtain stop z' where "put xs (z1\<lparr>rand := rs'\<rparr>) = Inr (stop, z')" "if stop then B z' else I z'"
    using put_fits [OF xs(2)] by blast
  then have "ends B (\<lambda>m'. same_bufs m0 (RestoreHavoc m')) I (call_put put m' (z1\<lparr>rand := rs'\<rparr>))"
    using xs(1) s by (simp add: call_put_def)
  then show ?thesis
    using k h(1) unfolding havoc_round_def z1_def by simp
qed

text \<open>The number of rounds is at most 16 times the performance score, which is doubled together with it.\<close>

lemma havoc_rounds_result:
  assumes "put' = put" and "same_bufs m0 m" and "I z" and "mx \<le> 16 * perf" and "perf \<le> 3200"
  shows "ends B (same_bufs m0) I (havoc_rounds put' perf queued cur mx m z)"
  using assms
proof (induction put' perf queued cur mx m z rule: havoc_rounds.induct)
  case (1 put' perf queued cur mx m z)
  note unfold = havoc_rounds.simps [of put' perf queued cur mx m z]
  show ?case
  proof (cases "cur < mx")
    case True
    have "ends B (\<lambda>m'. same_bufs m0 (RestoreHavoc m')) I (havoc_round put' cur mx m z)"
      unfolding "1.prems"(1) by (rule havoc_round_ends [OF "1.prems"(2,3)])
    then show ?thesis
    proof (cases rule: endsE)
      case (stopped m' z')
      then show ?thesis unfolding unfold using True by simp
    next
      case (finished m' z')
      let ?m = "RestoreHavoc m'"
      have small: "\<not> 2 ^ 31 \<le> 2 * mx" using "1.prems"(4,5) by simp
      have "ends B (same_bufs m0) I (havoc_rounds put' perf queued' (cur + 1) mx ?m z')"
        if "queued' = queued \<and> queued_paths (afl z') = queued \<or>
          queued' = queued_paths (afl z') \<and> queued_paths (afl z') \<noteq> queued \<and> \<not> perf \<le> HavocMaxMult * 100" for queued'
        using that
      proof (elim disjE conjE)
        assume "queued' = queued" "queued_paths (afl z') = queued"
        then show ?thesis using 1(1) [OF True, of "(False, m', z')" ?m z'] finished "1.prems"(1,4,5) by simp
      next
        assume "queued' = queued_paths (afl z')" "queued_paths (afl z') \<noteq> queued" "\<not> perf \<le> HavocMaxMult * 100"
        then show ?thesis using 1(3) [OF True, of "(False, m', z')" ?m z'] finished "1.prems"(1,4,5) by simp
      qed
      moreover have "ends B (same_bufs m0) I (havoc_rounds put' (u32 (perf * 2)) (queued_paths (afl z')) (cur + 1) (2 * mx) ?m z')"
        if "queued_paths (afl z') \<noteq> queued" "perf \<le> HavocMaxMult * 100"
        using 1(2) [OF True, of "(False, m', z')" ?m z'] that small finished "1.prems"(1,4,5) by (simp add: HavocMaxMult_def)
      ultimately show ?thesis
        unfolding unfold using True finished(1) small by (simp add: Let_def)
    qed
  next
    case False
    then show ?thesis unfolding unfold using "1.prems"(2,3) by simp
  qed
qed

lemmas havoc_rounds_ends = havoc_rounds_result [OF refl]

lemma DoHavoc_ends:
  assumes "same_bufs m0 m" and "I z" and "0 < multiplier" and "multiplier \<le> 1024" and "perf = orig_perf (afl z)"
  shows "ends B (same_bufs m0) I (DoHavoc put short perf multiplier m z)"
proof -
  have perf: "2 \<le> perf" "perf \<le> 1600" using env [OF assms(2)] assms(5) by (simp_all add: perf_ok_def)
  have le: "multiplier * perf \<le> 1024 * perf" using assms(4) by simp
  moreover have "1024 * perf < 2 ^ 31" using perf(2) by simp
  ultimately have "multiplier * perf < 2 ^ 31" by (rule le_less_trans)
  then have u: "u32 (multiplier * perf) = multiplier * perf" by simp
  define q where "q = multiplier * perf div havoc_div z div 100"
  have "q \<le> multiplier * perf div 100" by (simp add: q_def div_le_mono)
  also have "\<dots> \<le> 1024 * perf div 100" by (rule div_le_mono [OF le])
  finally have "q \<le> 16 * perf" by simp
  then have mx: "nat (max (s32 (int q)) (int HavocMin)) \<le> 16 * perf"
    using perf by (simp add: s32_small HavocMin_def)
  have "I (at_byte (- 1) (label short z))" by (rule remarked [OF _ assms(2)]) simp
  then have "ends B (same_bufs m0) I (havoc_rounds put perf (queued_paths (afl z)) 0 (nat (max (s32 (int q)) (int HavocMin))) m
      (at_byte (- 1) (label short z)))"
    using havoc_rounds_ends [OF assms(1)] mx perf(2) by simp
  then show ?thesis using env [OF assms(2)] u by (simp add: DoHavoc_def q_def Let_def)
qed

lemma HavocStage_ends:
  assumes "same_bufs m0 m" and "I z"
  shows "ends B (same_bufs m0) I (HavocStage put m z)"
  unfolding HavocStage_def
  by (rule DoHavoc_ends [OF assms]) (simp_all add: HavocCyclesInit_def HavocCycles_def)

end

section \<open>Splicing\<close>

lemma draw_other_ok: "1 < n \<Longrightarrow> \<exists>tid rs'. draw_other n current rs = Inr (tid, rs') \<and> tid < n"
proof (induction rs)
  case (Cons r rs)
  obtain x rs' where "UR n [r] = Inr (x, rs')" "x < n" using UR_ok [of n "[r]"] Cons.prems by auto
  then show ?case using Cons by simp
qed simp

lemma splice_target_le: "tid \<le> length (case_queue s) \<Longrightarrow> splice_target_from tid s \<le> length (case_queue s)"
proof -
  assume t: "tid \<le> length (case_queue s)"
  let ?us = "filter (\<lambda>u. 2 \<le> GetLen (input (case_queue s ! u)) \<and> u \<noteq> current_entry s) [tid..<length (case_queue s)]"
  show ?thesis
  proof (cases ?us)
    case (Cons u us)
    then have "u \<in> set ?us" by (simp only: list.set_intros)
    then have "u < length (case_queue s)" by (simp only: set_filter set_upt) simp
    then show ?thesis using Cons by (simp add: splice_target_from_def)
  qed (use t in \<open>simp add: splice_target_from_def\<close>)
qed

text \<open>A mutator whose buffer reads \<open>xs\<close>.\<close>

definition reads :: "u8 list \<Rightarrow> Mutator \<Rightarrow> bool" where
  "reads xs m \<longleftrightarrow> mut_ok m \<and> GetBuf m = Inr xs"

lemma reads_hav:
  assumes "reads xs m" and "fits xs"
  shows "hav_ok m"
proof -
  obtain ob where "outbuf m = Some ob" "len m \<le> length ob" using assms(1) by (auto simp: reads_def mut_ok_def)
  then show ?thesis using assms by (auto simp: reads_def hav_ok_def GetBuf_def fits_def)
qed

lemma reads_length: "reads xs m \<Longrightarrow> length xs = len m"
  by (auto simp: reads_def mut_ok_def GetBuf_def)

lemma reads_RestoreSplice:
  assumes "same_bufs m0 m" and "reads xs (RestoreSplice m0)"
  shows "reads xs (RestoreSplice m)"
  using assms by (simp add: same_bufs_def reads_def hav_ok_def mut_ok_def RestoreSplice_def GetBuf_def)

text \<open>What splicing asks for in addition: a test case of the queue can be loaded, and released again.\<close>

locale splice_env = any_put +
  fixes W :: World
  assumes reload: "I z \<Longrightarrow> tid < length (case_queue (afl z)) \<Longrightarrow>
      \<exists>s target. load_case W tid ((afl z)\<lparr>splicing_with := int tid\<rparr>) = Inr s \<and> GetInput (input (case_queue s ! tid)) = Inr target \<and>
        fits target \<and> I (z\<lparr>afl := upd_case tid (\<lambda>tc. tc\<lparr>input := Unload (input tc)\<rparr>) s\<rparr>)"
    and counted: "I z \<Longrightarrow> queued_paths (afl z) \<le> length (case_queue (afl z))"
begin

lemma splice_with_ends:
  assumes "reads xs m" and "fits xs" and "I z" and "tid < length (case_queue (afl z))"
  shows "ends B (reads xs) I (splice_with W tid put m z)"
proof -
  obtain s target where l: "load_case W tid ((afl z)\<lparr>splicing_with := int tid\<rparr>) = Inr s" "GetInput (input (case_queue s ! tid)) = Inr target"
    "fits target" "I (z\<lparr>afl := upd_case tid (\<lambda>tc. tc\<lparr>input := Unload (input tc)\<rparr>) s\<rparr>)"
    using reload [OF assms(3,4)] by blast
  define s1 where "s1 = upd_case tid (\<lambda>tc. tc\<lparr>input := Unload (input tc)\<rparr>) s"
  have m: "mut_ok m" "GetBuf m = Inr xs" using assms(1) by (simp_all add: reads_def)
  obtain b m' rs where S: "Splice m target (rand z) = Inr ((b, m'), rs)"
    "if b then \<exists>f l k. diff_bounds (min (len m) (length target)) xs target f l \<and> 2 \<le> l \<and> f \<le> k \<and> k < l \<and> mut_ok m' \<and>
        GetBuf m' = Inr (take k xs @ drop k target) \<and> take (min (len m) (length target)) (take k xs @ drop k target) \<noteq> take (min (len m) (length target)) xs \<and>
        mut_ok (RestoreSplice m') \<and> GetBuf (RestoreSplice m') = Inr xs
     else m' = m \<and> (take (min (len m) (length target)) xs = take (min (len m) (length target)) target \<or>
       (\<exists>f l. diff_bounds (min (len m) (length target)) xs target f l \<and> (l < 2 \<or> f = l)))"
    using Splice_cases [OF m refl] by blast
  have z1: "I (z\<lparr>afl := s1, rand := rs\<rparr>)"
    by (rule remarked [OF _ l(4)]) (simp add: unmark_def s1_def)
  have eq: "splice_with W tid put m z = (if \<not> b then Inr (False, m', z\<lparr>afl := s1, rand := rs\<rparr>)
      else and_then (DoHavoc put ''splice'' (orig_perf s1) SpliceHavoc m' (z\<lparr>afl := s1, rand := rs\<rparr>)) (\<lambda>m z. Inr (False, RestoreSplice m, z)))"
    using l(1,2) S(1) by (simp add: splice_with_def s1_def Let_def)
  show ?thesis
  proof (cases b)
    case True
    then obtain f d k where k: "diff_bounds (min (len m) (length target)) xs target f d" "k < d" "reads (take k xs @ drop k target) m'"
      "reads xs (RestoreSplice m')"
      using S(2) unfolding reads_def by auto
    have "length (take k xs @ drop k target) = length target"
      using k(1,2) reads_length [OF assms(1)] by (auto simp: diff_bounds_def)
    then have "fits (take k xs @ drop k target)" using l(3) fits_length by blast
    then have "hav_ok m'" using reads_hav [OF k(3)] by blast
    then have "ends B (same_bufs m') I (DoHavoc put ''splice'' (orig_perf s1) SpliceHavoc m' (z\<lparr>afl := s1, rand := rs\<rparr>))"
      by (intro DoHavoc_ends [OF _ z1]) (simp_all add: same_bufs_def SpliceHavoc_def)
    then show ?thesis
      unfolding eq using True ends_and_then reads_RestoreSplice [OF _ k(4)] by (simp add: ends_and_then)
  qed (use eq S(2) assms(1) z1 in simp)
qed

lemma splice_round_ends:
  assumes "reads xs m" and "fits xs" and "I z" and "1 < queued_paths (afl z)"
  shows "ends B (reads xs) I (splice_round W put cycle m z)"
proof -
  obtain tid rs where d: "draw_other (queued_paths (afl z)) (current_entry (afl z)) (rand z) = Inr (tid, rs)" "tid < queued_paths (afl z)"
    using draw_other_ok [OF assms(4)] by blast
  let ?z = "z\<lparr>rand := rs\<rparr>"
  have z: "I ?z" by (rule remarked [OF _ assms(3)]) simp
  have "splice_target_from tid (afl z) \<le> length (case_queue (afl z))"
    by (rule splice_target_le) (use d(2) counted [OF assms(3)] in simp)
  then show ?thesis
    using d(1) assms(1) z splice_with_ends [OF assms(1,2) z, of "splice_target_from tid (afl z)"]
    by (auto simp: splice_round_def Let_def)
qed

lemma Splicing_ends:
  assumes "reads xs m" and "fits xs" and "I z"
  shows "ends B (reads xs) I (Splicing W put m z)"
proof -
  have "ends B (reads xs) I (for_each (\<lambda>cycle m z. if 1 < queued_paths (afl z) \<and> 1 < length (Mutator.input m)
      then splice_round W put cycle m z else Inr (False, m, z)) [1..<SpliceCycles + 1] m z)"
    by (rule ends_for_each) (use assms splice_round_ends in auto)
  then show ?thesis using assms by (simp add: Splicing_def)
qed

end

end
