(* ===== verification/AFL_AutoDict.thy ===== *)
theory AFL_AutoDict
  imports AFL_Fuzz AFL_Favored "HOL-Library.Multiset"
begin

text \<open>
  The automatic dictionary: what \<open>MaybeAddAuto\<close> keeps of it, and which entries the stages use afterwards.
\<close>

section \<open>The invariant\<close>

text \<open>The number of entries, the lengths of the entries, and the order of the ones in use.\<close>

definition auto_ok :: "AFLDictData list \<Rightarrow> bool" where
  "auto_ok aex \<longleftrightarrow> length aex \<le> MaxAutoExtras \<and>
     (\<forall>e \<in> set aex. MinAutoExtra \<le> length (data e) \<and> length (data e) \<le> MaxAutoExtra) \<and>
     sorted (map (\<lambda>e. length (data e)) (take UseAutoExtras aex))"

lemma auto_dict_ok: "auto_ok aex \<Longrightarrow> dict_ok aex"
  by (auto simp: auto_ok_def dict_ok_def MaxAutoExtras_def UseAutoExtras_def MaxAutoExtra_def list_all_iff)

text \<open>The documented behaviour of \<open>std::sort\<close>: a permutation, in the order of the comparison.\<close>

definition sorts_ok :: "Sorts \<Rightarrow> bool" where
  "sorts_ok S \<longleftrightarrow>
     (\<forall>xs. mset (sort_hits S xs) = mset xs \<and> sorted_wrt (\<lambda>a b. hit_cnt b \<le> hit_cnt a) (sort_hits S xs)) \<and>
     (\<forall>xs. mset (sort_sizes S xs) = mset xs \<and> sorted (map (\<lambda>e. length (data e)) (sort_sizes S xs)))"

text \<open>The entries in use have at least as many hits as the others.\<close>

definition best_first :: "AFLDictData list \<Rightarrow> bool" where
  "best_first aex \<longleftrightarrow> (\<forall>e \<in> set (take UseAutoExtras aex). \<forall>e' \<in> set (drop UseAutoExtras aex). hit_cnt e' \<le> hit_cnt e)"

lemma resort_ok:
  assumes S: "sorts_ok S" and len: "length aex \<le> MaxAutoExtras"
    and ex: "\<forall>e \<in> set aex. MinAutoExtra \<le> length (data e) \<and> length (data e) \<le> MaxAutoExtra"
  shows "auto_ok (resort S aex)" and "set (resort S aex) = set aex" and "best_first (resort S aex)"
proof -
  define a where "a = sort_hits S aex"
  define b where "b = sort_sizes S (take (min UseAutoExtras (length a)) a)"
  have a: "mset a = mset aex" "sorted_wrt (\<lambda>a b. hit_cnt b \<le> hit_cnt a) a"
    using S by (simp_all add: sorts_ok_def a_def)
  have b: "mset b = mset (take UseAutoExtras a)" "sorted (map (\<lambda>e. length (data e)) b)"
    using S by (simp_all add: sorts_ok_def b_def) (simp add: min_def)
  then have lb: "length b = min UseAutoExtras (length a)" and sb: "set b = set (take UseAutoExtras a)"
    by (metis length_take min.commute mset_eq_length, metis mset_eq_setD)
  have r: "resort S aex = b @ drop UseAutoExtras a"
    by (simp add: resort_def Let_def a_def [symmetric] b_def [symmetric]) (simp add: min_def)
  then have t: "take UseAutoExtras (resort S aex) = b" "drop UseAutoExtras (resort S aex) = drop UseAutoExtras a"
    using lb by (cases "UseAutoExtras \<le> length a"; simp)+
  have "mset (resort S aex) = mset aex"
    using a(1) b(1) unfolding r by (metis append_take_drop_id mset_append)
  then show s: "set (resort S aex) = set aex" by (rule mset_eq_setD)
  have "length (resort S aex) = length aex" using \<open>mset (resort S aex) = mset aex\<close> by (rule mset_eq_length)
  then show "auto_ok (resort S aex)"
    using len ex b(2) s t(1) by (simp add: auto_ok_def)
  have "sorted_wrt (\<lambda>a b. hit_cnt b \<le> hit_cnt a) (take UseAutoExtras a @ drop UseAutoExtras a)" using a(2) by simp
  then show "best_first (resort S aex)"
    unfolding best_first_def t sb sorted_wrt_append by blast
qed

section \<open>Adding a token\<close>

definition same_token :: "u8 list \<Rightarrow> AFLDictData \<Rightarrow> bool" where
  "same_token mem e \<longleftrightarrow> length (data e) = length mem \<and> CheckEqualNocase (data e) mem"

lemma count_hit_ok: "count_hit mem aex = Some aex' \<Longrightarrow> map data aex' = map data aex \<and> (\<exists>e \<in> set aex'. same_token mem e)"
proof (induction aex arbitrary: aex')
  case (Cons e es)
  then show ?case by (auto simp: same_token_def split: if_splits)
qed simp

lemma add_entry_ok:
  assumes "length aex \<le> MaxAutoExtras" and "\<forall>e \<in> set aex. P (data e)" and "P mem"
  shows "\<exists>aex' rs'. add_entry mem aex rs = Inr (aex', rs') \<and> length aex' \<le> MaxAutoExtras \<and> (\<forall>e \<in> set aex'. P (data e)) \<and>
    (\<exists>e \<in> set aex'. same_token mem e)"
proof (cases "length aex < MaxAutoExtras")
  case True
  then show ?thesis
    using assms by (intro exI [of _ "aex @ [\<lparr>data = mem, hit_cnt = 0\<rparr>]"] exI [of _ rs])
      (auto simp: add_entry_def same_token_def CheckEqualNocase_def)
next
  case False
  then have l: "length aex = MaxAutoExtras" using assms(1) by simp
  have "MaxAutoExtras = 500" by (simp add: MaxAutoExtras_def UseAutoExtras_def)
  then obtain x rs' where x: "UR ((MaxAutoExtras + 1) div 2) rs = Inr (x, rs')" "x < (MaxAutoExtras + 1) div 2"
    using UR_ok [of "(MaxAutoExtras + 1) div 2" rs] by auto
  define idx where "idx = MaxAutoExtras div 2 + x"
  have i: "idx < length aex" using x(2) l \<open>MaxAutoExtras = 500\<close> by (simp add: idx_def)
  let ?aex = "aex[idx := \<lparr>data = mem, hit_cnt = 0\<rparr>]"
  have "\<lparr>data = mem, hit_cnt = 0\<rparr> \<in> set ?aex" by (rule set_update_memI [OF i])
  moreover have "same_token mem \<lparr>data = mem, hit_cnt = 0\<rparr>" by (simp add: same_token_def CheckEqualNocase_def)
  moreover have "\<forall>e \<in> set ?aex. P (data e)" using assms(2,3) set_update_subset_insert by fastforce
  moreover have "add_entry mem aex rs = Inr (?aex, rs')"
    using False x(1) i by (simp add: add_entry_def idx_def [symmetric])
  ultimately show ?thesis using l by (intro exI [of _ ?aex] exI [of _ rs']) auto
qed

text \<open>A token is rejected if it is a run of one byte, an interesting value, or an entry of the user's dictionary.\<close>

definition rejected :: "u8 list \<Rightarrow> Stages \<Rightarrow> bool" where
  "rejected mem z \<longleftrightarrow> mem = replicate (length mem) (hd mem) \<or> builtin_value mem \<or> known_extra (extras z) mem"

lemma MaybeAddAuto_ok:
  assumes S: "sorts_ok S" and aex: "auto_ok (a_extras z)" and mem: "MinAutoExtra \<le> length mem" "length mem \<le> MaxAutoExtra"
  shows "MaybeAddAuto S mem z = Inr z \<and> rejected mem z \<or>
    (\<exists>aex' rs'. MaybeAddAuto S mem z = Inr (z\<lparr>auto_changed := True, a_extras := aex', rand := rs'\<rparr>) \<and> auto_ok aex' \<and> best_first aex' \<and>
      (\<exists>e \<in> set aex'. same_token mem e) \<and> \<not> rejected mem z)"
proof (cases "rejected mem z")
  case True
  then show ?thesis using mem by (auto simp: MaybeAddAuto_def rejected_def MinAutoExtra_def)
next
  case False
  let ?P = "\<lambda>d :: u8 list. MinAutoExtra \<le> length d \<and> length d \<le> MaxAutoExtra"
  have a: "length (a_extras z) \<le> MaxAutoExtras" "\<forall>e \<in> set (a_extras z). ?P (data e)" using aex by (auto simp: auto_ok_def)
  have "\<exists>aex rs. (case count_hit mem (a_extras z) of Some aex \<Rightarrow> Inr (aex, rand z) | None \<Rightarrow> add_entry mem (a_extras z) (rand z)) = Inr (aex, rs) \<and>
      length aex \<le> MaxAutoExtras \<and> (\<forall>e \<in> set aex. ?P (data e)) \<and> (\<exists>e \<in> set aex. same_token mem e)"
  proof (cases "count_hit mem (a_extras z)")
    case None
    then show ?thesis using add_entry_ok [OF a(1), of ?P mem "rand z"] a(2) mem by simp
  next
    case (Some aex')
    have d: "map data aex' = map data (a_extras z)" "\<exists>e \<in> set aex'. same_token mem e" using count_hit_ok [OF Some] by auto
    have "length aex' = length (a_extras z)" using arg_cong [OF d(1), of length] by simp
    moreover have "\<forall>e \<in> set aex'. ?P (data e)"
      using a(2) arg_cong [OF d(1), of set] by (metis (no_types, lifting) image_iff list.set_map)
    ultimately show ?thesis using Some d(2) a(1) by simp
  qed
  then obtain aex' rs' where r: "(case count_hit mem (a_extras z) of Some aex \<Rightarrow> Inr (aex, rand z) | None \<Rightarrow> add_entry mem (a_extras z) (rand z)) = Inr (aex', rs')"
    "length aex' \<le> MaxAutoExtras" "\<forall>e \<in> set aex'. ?P (data e)" "\<exists>e \<in> set aex'. same_token mem e"
    by blast
  have "mem \<noteq> []" using mem(1) by (auto simp: MinAutoExtra_def)
  then have "MaybeAddAuto S mem z = Inr (z\<lparr>auto_changed := True, a_extras := resort S aex', rand := rs'\<rparr>)"
    using False r(1) by (cases "count_hit mem (a_extras z)") (simp_all add: MaybeAddAuto_def rejected_def Let_def MaxAutoExtras_def UseAutoExtras_def)
  then show ?thesis using resort_ok [OF S r(2,3)] r(4) False by blast
qed

section \<open>Properties\<close>


definition demo_sorts :: Sorts where
  "demo_sorts = \<lparr>sort_hits = rev \<circ> sort_key hit_cnt, sort_sizes = sort_key (\<lambda>e. length (data e))\<rparr>"

lemma demo_sorts_ok: "sorts_ok demo_sorts"
proof -
  have "sorted_wrt (\<lambda>a b. hit_cnt b \<le> hit_cnt a) (rev (sort_key hit_cnt xs))" for xs :: "AFLDictData list"
    using sorted_sort_key [of hit_cnt xs] by (simp add: sorted_wrt_rev sorted_map)
  then show ?thesis by (simp add: sorts_ok_def demo_sorts_def)
qed

definition demo_stages :: Stages where
  "demo_stages =
     \<lparr>afl = demo_afl, rand = [3, 1, 4], extras = [\<lparr>data = [7, 8], hit_cnt = 0\<rparr>], a_extras = [\<lparr>data = [103, 101, 116], hit_cnt = 2\<rparr>],
      auto_changed = False, a_collect = [], a_len = 0, should_construct_auto_dict = False, prev_cksum = 0, queue_cur_exec_cksum = 0,
      eff_map = [], eff_cnt = 0, stage_cur = 0, stage_max = 0, doing_det = False, skip_deterministic = False, no_arith = False,
      run_over10m = False, master_id = 0, master_max = 0, havoc_div = 1\<rparr>"


end
