(* ===== verification/AFL_Loop.thy ===== *)
theory AFL_Loop
  imports AFL_Havoc AFL_AutoDict
begin

text \<open>
  The contracts of the successors that \<open>BuildFuzzFlow\<close> gives the stages, and with them the safety of a whole
  iteration of the fuzzing loop: the executions of every stage, the automatic dictionary, the effector map, and
  the routines around them.
\<close>

section \<open>The invariants\<close>

text \<open>Between two iterations, with the dictionary \<open>ex\<close> of the user.\<close>

definition loop_inv :: "World \<Rightarrow> AFLDictData list \<Rightarrow> Stages \<Rightarrow> bool" where
  "loop_inv W ex z \<longleftrightarrow> world_ok W \<and> afl_inv W (afl z) \<and> stats_ok (afl z) \<and> extras z = ex \<and> dict_ok ex \<and> auto_ok (a_extras z) \<and> 0 < havoc_div z"

text \<open>While the test case \<open>t\<close> is mutated; in the deterministic stages its input stays the same.\<close>

definition base :: "World \<Rightarrow> AFLDictData list \<Rightarrow> nat \<Rightarrow> Stages \<Rightarrow> bool" where
  "base W ex t z \<longleftrightarrow> loop_inv W ex z \<and> 0 < queue_cycle (afl z) \<and> perf_ok (afl z) \<and> t < length (case_queue (afl z))"

definition kept :: "World \<Rightarrow> AFLDictData list \<Rightarrow> nat \<Rightarrow> OnDiskExecInput \<Rightarrow> Stages \<Rightarrow> bool" where
  "kept W ex t inp z \<longleftrightarrow> base W ex t z \<and> input (case_queue (afl z) ! t) = inp"

lemma kept_fits: "kept W ex t inp z \<Longrightarrow> fits (in_disk inp)"
  using nth_mem [of t "case_queue (afl z)"]
  by (auto simp: kept_def base_def loop_inv_def afl_inv_def inputs_ok_def)

lemma loop_inv_afl:
  assumes "loop_inv W ex z" and "advances W (afl z) s"
  shows "loop_inv W ex (z\<lparr>afl := s\<rparr>)"
  using assms pace_stats by (auto simp: loop_inv_def advances_def)

lemma base_afl:
  assumes "base W ex t z" and "advances W (afl z) s"
  shows "base W ex t (z\<lparr>afl := s\<rparr>)"
proof -
  have "pace (afl z) s" "length (case_queue (afl z)) \<le> length (case_queue s)" using assms(2) by (simp_all add: advances_def)
  then show ?thesis
    using assms(1) loop_inv_afl [OF _ assms(2)] by (auto simp: base_def pace_def)
qed

lemma kept_afl:
  assumes "kept W ex t inp z" and "grows W (afl z) s"
  shows "kept W ex t inp (z\<lparr>afl := s\<rparr>)"
proof -
  have t: "t < length (case_queue (afl z))" "t < length (case_queue s)"
    using assms(1) grows_length [OF assms(2)] by (simp_all add: kept_def base_def)
  obtain xs where "map input (case_queue s) = map input (case_queue (afl z)) @ xs" using assms(2) by (auto simp: grows_def)
  then have "map input (case_queue s) ! t = map input (case_queue (afl z)) ! t" using t by (simp add: nth_append)
  then show ?thesis
    using assms(1) base_afl [OF _ grows_advances [OF assms(2)]] t by (simp add: kept_def)
qed

text \<open>Marks do not matter.\<close>

lemma unmarkD:
  assumes "unmark z' = unmark z"
  shows "extras z' = extras z" "a_extras z' = a_extras z" "havoc_div z' = havoc_div z" "eff_map z' = eff_map z" "eff_cnt z' = eff_cnt z"
    "a_collect z' = a_collect z" "a_len z' = a_len z" "mild (afl z) (afl z')" "case_queue (afl z') = case_queue (afl z)"
proof -
  show "extras z' = extras z" "a_extras z' = a_extras z" "havoc_div z' = havoc_div z" "eff_map z' = eff_map z" "eff_cnt z' = eff_cnt z"
    "a_collect z' = a_collect z" "a_len z' = a_len z"
    using arg_cong [OF assms, of extras] arg_cong [OF assms, of a_extras] arg_cong [OF assms, of havoc_div] arg_cong [OF assms, of eff_map]
      arg_cong [OF assms, of eff_cnt] arg_cong [OF assms, of a_collect] arg_cong [OF assms, of a_len]
    by (simp_all add: unmark_def)
  have eq: "afl (unmark z') = afl (unmark z)" using assms by simp
  show q: "case_queue (afl z') = case_queue (afl z)"
    using arg_cong [OF eq, of case_queue] by (simp add: unmark_def)
  show "mild (afl z) (afl z')"
    unfolding mild_def q
    using arg_cong [OF eq, of inv_view] arg_cong [OF eq, of total_cal_cycles]
      arg_cong [OF eq, of total_bitmap_entries] arg_cong [OF eq, of queue_cycle]
      arg_cong [OF eq, of orig_perf] arg_cong [OF eq, of virgin_bits]
    by (simp add: unmark_def inv_view_def)
qed

lemma base_marked: "unmark z' = unmark z \<Longrightarrow> base W ex t z \<Longrightarrow> base W ex t z'"
proof -
  assume u: "unmark z' = unmark z" and b: "base W ex t z"
  have "base W ex t (z\<lparr>afl := afl z'\<rparr>)" by (rule base_afl [OF b mild_advances [OF unmarkD(8) [OF u]]])
  then show ?thesis using unmarkD(1-3) [OF u] by (simp add: base_def loop_inv_def)
qed

lemma kept_marked:
  assumes "unmark z' = unmark z" and "kept W ex t inp z"
  shows "kept W ex t inp z'"
  using base_marked [OF assms(1)] unmarkD(9) [OF assms(1)] assms(2) by (simp add: kept_def)

section \<open>Executions\<close>

lemma put_with_cases:
  assumes "base W ex t z" and "fits buf"
  shows "\<exists>stop feed s. put_with W upd buf z = (if stop then Inr (True, z\<lparr>afl := s\<rparr>)
      else bindR (upd buf feed (z\<lparr>afl := s\<rparr>)) (\<lambda>z. Inr (False, z))) \<and> grows W (afl z) s"
proof -
  have W: "world_ok W" and inv: "afl_inv W (afl z)" using assms(1) by (simp_all add: base_def loop_inv_def)
  obtain feed ex s1 where r: "RunExecutorWithClassifyCounts W buf 0 (afl z) = Inr (feed, ex, s1)" "mild (afl z) s1"
    "length feed = map_size W" "es_reason ex \<noteq> FAULT_ERROR"
    using Run_okE [OF W] by metis
  obtain stop feed' ex' s where n: "NormalUpdate W buf feed ex s1 = Inr (stop, feed', ex', s)" "grows W s1 s"
    using NormalUpdate_ok [OF W mild_inv [OF r(2) inv] r(3,4) assms(2)] by blast
  have "grows W (afl z) s" by (rule grows_trans [OF steady_grows [OF mild_steady [OF r(2)]] n(2)])
  then show ?thesis
    using r(1) n(1) by (intro exI [of _ stop] exI [of _ feed'] exI [of _ s]) (simp add: put_with_def)
qed

lemma put_plain_ok:
  assumes "base W ex t z" and "fits buf"
  shows "\<exists>stop s. put_plain W buf z = Inr (stop, z\<lparr>afl := s\<rparr>) \<and> grows W (afl z) s"
proof -
  obtain stop feed s where "put_plain W buf z = (if stop then Inr (True, z\<lparr>afl := s\<rparr>)
      else bindR (Inr (z\<lparr>afl := s\<rparr>)) (\<lambda>z. Inr (False, z)))" "grows W (afl z) s"
    using put_with_cases [OF assms, of "\<lambda>buf feed z. Inr z"] unfolding put_plain_def by blast
  then show ?thesis by (cases stop) auto
qed

lemma base_env: "base W ex t z \<Longrightarrow> 0 < queue_cycle (afl z) \<and> dict_ok (extras z) \<and> dict_ok (a_extras z) \<and> perf_ok (afl z) \<and> 0 < havoc_div z"
  by (simp add: base_def loop_inv_def auto_dict_ok)

lemma plain_base:
  assumes "fits buf" and "base W ex t z"
  shows "\<exists>stop z'. put_plain W buf z = Inr (stop, z') \<and> (if stop then base W ex t z' else base W ex t z')"
  using put_plain_ok [OF assms(2,1)] base_afl [OF assms(2) grows_advances] by fastforce

lemma plain_kept:
  assumes "fits buf" and "kept W ex t inp z"
  shows "\<exists>stop s. put_plain W buf z = Inr (stop, z\<lparr>afl := s\<rparr>) \<and> base W ex t (z\<lparr>afl := s\<rparr>) \<and> kept W ex t inp (z\<lparr>afl := s\<rparr>)"
proof -
  have "base W ex t z" using assms(2) by (simp add: kept_def)
  then obtain stop s where "put_plain W buf z = Inr (stop, z\<lparr>afl := s\<rparr>)" "grows W (afl z) s"
    using put_plain_ok [OF _ assms(1)] by blast
  then show ?thesis using kept_afl [OF assms(2)] by (auto simp: kept_def)
qed

lemma load_case_length: "load_case W t s = Inr s' \<Longrightarrow> length (case_queue s') = length (case_queue s)"
  by (auto simp: load_case_def bindR_eq_Inr)

lemma base_reload:
  assumes "base W ex t z" and tid: "tid < length (case_queue (afl z))"
  shows "\<exists>s target. load_case W tid ((afl z)\<lparr>splicing_with := int tid\<rparr>) = Inr s \<and> GetInput (input (case_queue s ! tid)) = Inr target \<and>
    fits target \<and> base W ex t (z\<lparr>afl := upd_case tid (\<lambda>tc. tc\<lparr>input := Unload (input tc)\<rparr>) s\<rparr>)"
proof -
  define s0 where "s0 = (afl z)\<lparr>splicing_with := int tid\<rparr>"
  have W: "world_ok W" and inv: "afl_inv W (afl z)" using assms(1) by (simp_all add: base_def loop_inv_def)
  have m: "mild (afl z) s0" by (simp add: s0_def mild_def inv_view_def)
  have t0: "tid < length (case_queue s0)" using tid by (simp add: s0_def)
  obtain s where s: "load_case W tid s0 = Inr s" "afl_inv W s" "tid < length (case_queue s)" "loaded (input (case_queue s ! tid))" "pace s0 s"
    using load_case_ok [OF W mild_inv [OF m inv] t0] by blast
  have "advances W s0 s" using s load_case_length [OF s(1)] by (simp add: advances_def)
  then have "advances W (afl z) (upd_case tid (\<lambda>tc. tc\<lparr>input := Unload (input tc)\<rparr>) s)"
    using advances_trans [OF advances_trans [OF mild_advances [OF m]] unload_advances [OF s(2,3)]] by blast
  moreover have "fits (in_disk (input (case_queue s ! tid)))"
    using s(2) nth_mem [OF s(3)] unfolding afl_inv_def inputs_ok_def by blast
  ultimately show ?thesis
    using s(1) GetInput_loaded [OF s(4)] base_afl [OF assms(1)] unfolding s0_def by blast
qed

text \<open>The plain successors: for the random stages, and for the deterministic stages before and after the effector map is built.\<close>

interpretation plain: splice_env "put_plain W" "base W ex t" "base W ex t" W for W ex t
proof unfold_locales
  show "\<exists>stop z'. put_plain W buf z = Inr (stop, z') \<and> (if stop then base W ex t z' else base W ex t z')" if "fits buf" "base W ex t z" for buf z
    using plain_base [OF that] .
  show "base W ex t z'" if "unmark z' = unmark z" "base W ex t z" for z z'
    using base_marked [OF that] .
  show "queued_paths (afl z) \<le> length (case_queue (afl z))" if "base W ex t z" for z
    using that by (simp add: base_def loop_inv_def afl_inv_def counts_ok_def u32_def)
qed (use base_env base_reload in blast)+

interpretation det: sized_put "put_plain W" "base W ex t" "kept W ex t inp" "length (in_disk inp)" for W ex t inp
proof unfold_locales
  show "\<exists>stop z'. put_plain W buf z = Inr (stop, z') \<and> (if stop then base W ex t z' else kept W ex t inp z')"
    if "fits buf" "kept W ex t inp z" for buf z
    using plain_kept [OF that] by fastforce
  show "kept W ex t inp z'" if "unmark z' = unmark z" "kept W ex t inp z" for z z'
    using kept_marked [OF that] .
  show "0 < length (in_disk inp) \<and> length (in_disk inp) \<le> MaxFile" if "kept W ex t inp z" for z
    using kept_fits [OF that] by (simp add: fits_def)
qed (use base_env in \<open>auto simp: kept_def\<close>)

definition charted :: "World \<Rightarrow> AFLDictData list \<Rightarrow> nat \<Rightarrow> OnDiskExecInput \<Rightarrow> Stages \<Rightarrow> bool" where
  "charted W ex t inp z \<longleftrightarrow> kept W ex t inp z \<and> length (eff_map z) = EFF_ALEN (length (in_disk inp))"

lemma chartedD:
  assumes "charted W ex t inp z"
  shows "0 < length (in_disk inp)" "length (in_disk inp) \<le> MaxFile" "length (extras z) < 2147483648"
  using assms kept_fits [of W ex t inp z] by (auto simp: charted_def kept_def base_def loop_inv_def dict_ok_def fits_def)

interpretation chart: mapped "put_plain W" "length (in_disk inp)" "base W ex t" "charted W ex t inp" "\<lambda>_. True" for W ex t inp
proof unfold_locales
  show "\<exists>stop z'. put_plain W buf z = Inr (stop, z') \<and> (if stop then base W ex t z' else charted W ex t inp z')"
    if "length buf = length (in_disk inp)" "charted W ex t inp z" for buf z
  proof -
    have k: "kept W ex t inp z" using that(2) by (simp add: charted_def)
    have "fits buf" using kept_fits [OF k] fits_length [OF that(1)] by simp
    then obtain stop s where "put_plain W buf z = Inr (stop, z\<lparr>afl := s\<rparr>)" "base W ex t (z\<lparr>afl := s\<rparr>)" "kept W ex t inp (z\<lparr>afl := s\<rparr>)"
      using plain_kept [OF _ k] by blast
    then show ?thesis using that(2) by (cases stop) (auto simp: charted_def)
  qed
  show "charted W ex t inp z'" if "unmark z' = unmark z" "charted W ex t inp z" for z z'
    using kept_marked [OF that(1)] unmarkD(4) [OF that(1)] that(2) by (simp add: charted_def)
qed (use chartedD in \<open>auto simp: charted_def\<close>)

section \<open>The effector map\<close>

definition marks :: "u8 list \<Rightarrow> nat" where
  "marks cells = length (filter (\<lambda>c. c = 1) cells)"

lemma marks_le: "marks cells \<le> length cells"
  by (simp add: marks_def)

lemma marks_set:
  assumes "i < length cells" and "cells ! i \<noteq> 1"
  shows "marks (cells[i := 1]) = marks cells + 1"
  using filter_update_out [of i "cells[i := 1]" "\<lambda>c. c = 1" "cells ! i"] assms by (simp add: marks_def)

text \<open>The map of a buffer of length \<open>n\<close>: the first and the last cell are marked from the start.\<close>

definition eff_shape :: "nat \<Rightarrow> u8 list \<Rightarrow> bool" where
  "eff_shape n cells \<longleftrightarrow> length cells = EFF_ALEN n \<and> set cells \<subseteq> {0, 1} \<and> cells ! 0 = 1 \<and> cells ! EFF_APOS (n - 1) = 1"

definition eff_ok :: "nat \<Rightarrow> Stages \<Rightarrow> bool" where
  "eff_ok n z \<longleftrightarrow> eff_shape n (eff_map z) \<and> eff_cnt z = marks (eff_map z)"

lemma EFF_ALEN_small: "n \<le> MaxFile \<Longrightarrow> EFF_ALEN n \<le> 131072"
  by (simp add: EFF_ALEN_ceil MaxFile_def)

lemma eff_shape_set: "eff_shape n cells \<Longrightarrow> i < EFF_ALEN n \<Longrightarrow> eff_shape n (cells[i := 1])"
  by (auto simp: eff_shape_def nth_list_update dest!: set_update_subset_insert [THEN subsetD])

lemma eff_init_ok:
  assumes "0 < n" and "n \<le> MaxFile"
  shows "\<exists>cells k. eff_init n z = Inr (z\<lparr>eff_map := cells, eff_cnt := k\<rparr>) \<and> eff_ok n (z\<lparr>eff_map := cells, eff_cnt := k\<rparr>)"
proof -
  let ?cells = "replicate (EFF_ALEN n) (0 :: u8)"
  have n: "n < 2 ^ 32" using assms(2) by (simp add: MaxFile_def)
  have a: "0 < EFF_ALEN n" "EFF_APOS (n - 1) < EFF_ALEN n"
    using EFF_APOS_less [of "n - 1" n] assms(1) n by (auto simp: MaxFile_def)
  have p: "u32_sub n 1 = n - 1" using assms(1) n by simp
  have m0: "marks ?cells = 0" by (simp add: marks_def)
  then have m1: "marks (?cells[0 := 1]) = 1" using marks_set [of 0 ?cells] a(1) by simp
  show ?thesis
  proof (cases "EFF_APOS (n - 1) = 0")
    case True
    then have "eff_init n z = Inr (z\<lparr>eff_map := ?cells[0 := 1], eff_cnt := 1\<rparr>)"
      unfolding eff_init_def p using a by (simp add: set_cell_def)
    moreover have "eff_shape n (?cells[0 := 1])"
      using a True by (auto simp: eff_shape_def dest!: set_update_subset_insert [THEN subsetD])
    ultimately show ?thesis using m1 by (intro exI [of _ "?cells[0 := 1]"] exI [of _ 1]) (simp add: eff_ok_def)
  next
    case False
    let ?c2 = "?cells[0 := 1, EFF_APOS (n - 1) := 1]"
    have "eff_init n z = Inr (z\<lparr>eff_map := ?c2, eff_cnt := 2\<rparr>)"
      unfolding eff_init_def p using a False by (simp add: set_cell_def)
    moreover have "eff_shape n ?c2"
      using a False by (auto simp: eff_shape_def nth_list_update dest!: set_update_subset_insert [THEN subsetD])
    moreover have "marks ?c2 = 2"
      using marks_set [of "EFF_APOS (n - 1)" "?cells[0 := 1]"] a False m1 by simp
    ultimately show ?thesis by (intro exI [of _ ?c2] exI [of _ 2]) (simp add: eff_ok_def)
  qed
qed

lemma ConstructEffMap_ok:
  assumes "eff_ok n z" and "n \<le> MaxFile" and "nat (stage_cur z) < n"
  shows "\<exists>cells k. ConstructEffMap buf feed z = Inr (z\<lparr>eff_map := cells, eff_cnt := k\<rparr>) \<and> eff_ok n (z\<lparr>eff_map := cells, eff_cnt := k\<rparr>)"
proof -
  let ?i = "EFF_APOS (nat (stage_cur z))"
  have n: "n < 2 ^ 32" using assms(2) by (simp add: MaxFile_def)
  have i: "?i < EFF_ALEN n" by (rule EFF_APOS_less [OF assms(3) n])
  have l: "length (eff_map z) = EFF_ALEN n" using assms(1) by (simp add: eff_ok_def eff_shape_def)
  show ?thesis
  proof (cases "eff_map z ! ?i = 0 \<and> (dumb_mode (setting (afl z)) \<or> length buf < EffMinLen \<or> CalcCksum32 feed \<noteq> queue_cur_exec_cksum z)")
    case True
    let ?c = "(eff_map z)[?i := 1]"
    have m: "marks ?c = marks (eff_map z) + 1" by (rule marks_set) (use True i l in auto)
    then have "eff_cnt z + 1 \<le> 131072"
      using marks_le [of ?c] EFF_ALEN_small [OF assms(2)] l assms(1) by (simp add: eff_ok_def)
    then have "ConstructEffMap buf feed z = Inr (z\<lparr>eff_map := ?c, eff_cnt := eff_cnt z + 1\<rparr>)"
      using True i l by (simp add: ConstructEffMap_def Let_def)
    moreover have "eff_ok n (z\<lparr>eff_map := ?c, eff_cnt := eff_cnt z + 1\<rparr>)"
      using assms(1) m eff_shape_set [OF _ i] by (simp add: eff_ok_def)
    ultimately show ?thesis by blast
  next
    case False
    then have "ConstructEffMap buf feed z = Inr (z\<lparr>eff_map := eff_map z, eff_cnt := eff_cnt z\<rparr>)"
      using i l by (auto simp: ConstructEffMap_def Let_def)
    then show ?thesis using assms(1) by fastforce
  qed
qed

text \<open>After the stage, a map is marked everywhere or in at most \<open>EffMaxPerc\<close> percent of its cells.\<close>

definition eff_done :: "nat \<Rightarrow> u8 list \<Rightarrow> bool" where
  "eff_done n cells \<longleftrightarrow> eff_shape n cells \<and> (cells = replicate (EFF_ALEN n) 1 \<or> marks cells * 100 div EFF_ALEN n \<le> EffMaxPerc)"

lemma eff_finish_ok:
  assumes "eff_ok n z" and "0 < n" and "n \<le> MaxFile"
  shows "\<exists>cells. eff_finish n z = Inr (z\<lparr>eff_map := cells\<rparr>) \<and> eff_done n cells"
proof -
  have n: "n < 2 ^ 32" using assms(3) by (simp add: MaxFile_def)
  have a: "EFF_APOS (n - 1) < EFF_ALEN n" using EFF_APOS_less [of "n - 1" n] assms(2) n by simp
  have e: "eff_shape n (eff_map z)" "eff_cnt z = marks (eff_map z)" "length (eff_map z) = EFF_ALEN n"
    using assms(1) by (simp_all add: eff_ok_def eff_shape_def)
  then have "eff_cnt z * 100 < 2 ^ 31" using marks_le [of "eff_map z"] EFF_ALEN_small [OF assms(3)] by simp
  then have u: "u32 (eff_cnt z * 100) = eff_cnt z * 100" by simp
  show ?thesis
  proof (cases "eff_cnt z \<noteq> EFF_ALEN n \<and> EffMaxPerc < eff_cnt z * 100 div EFF_ALEN n")
    case True
    have "eff_shape n (replicate (EFF_ALEN n) 1)" using a by (auto simp: eff_shape_def)
    then show ?thesis
      using True a u by (intro exI [of _ "replicate (EFF_ALEN n) 1"]) (simp add: eff_finish_def eff_done_def)
  next
    case False
    have "eff_map z = replicate (EFF_ALEN n) 1" if "marks (eff_map z) = EFF_ALEN n"
      using that e(3) unfolding marks_def by (metis (mono_tags, lifting) filter_True length_filter_less nat_neq_iff replicate_eqI)
    then have "eff_done n (eff_map z)" using False e by (auto simp: eff_done_def)
    then show ?thesis
      using False a u by (intro exI [of _ "eff_map z"]) (auto simp: eff_finish_def)
  qed
qed

definition charting :: "World \<Rightarrow> AFLDictData list \<Rightarrow> nat \<Rightarrow> OnDiskExecInput \<Rightarrow> Stages \<Rightarrow> bool" where
  "charting W ex t inp z \<longleftrightarrow> kept W ex t inp z \<and> eff_ok (length (in_disk inp)) z"

lemma kept_eff [simp]:
  "kept W ex t inp (z\<lparr>eff_map := cells, eff_cnt := k\<rparr>) = kept W ex t inp z" "kept W ex t inp (z\<lparr>eff_map := cells\<rparr>) = kept W ex t inp z"
  by (simp_all add: kept_def base_def loop_inv_def)

lemma put_eff_map_ok:
  assumes "length buf = length (in_disk inp)" and "charting W ex t inp z" and "nat (stage_cur z) < length (in_disk inp)"
  shows "\<exists>stop z'. put_eff_map W buf z = Inr (stop, z') \<and> (if stop then base W ex t z' else charting W ex t inp z')"
proof -
  have k: "kept W ex t inp z" "base W ex t z" using assms(2) by (simp_all add: charting_def kept_def)
  then have f: "fits (in_disk inp)" using kept_fits by blast
  then have "fits buf" using fits_length [OF assms(1)] by simp
  then obtain stop feed s where p: "put_eff_map W buf z = (if stop then Inr (True, z\<lparr>afl := s\<rparr>)
      else bindR (ConstructEffMap buf feed (z\<lparr>afl := s\<rparr>)) (\<lambda>z. Inr (False, z)))" "grows W (afl z) s"
    using put_with_cases [OF k(2), of buf ConstructEffMap] unfolding put_eff_map_def by blast
  let ?z = "z\<lparr>afl := s\<rparr>"
  have k': "kept W ex t inp ?z" by (rule kept_afl [OF k(1) p(2)])
  have "eff_ok (length (in_disk inp)) ?z" using assms(2) by (simp add: charting_def eff_ok_def)
  then obtain cells n where "ConstructEffMap buf feed ?z = Inr (?z\<lparr>eff_map := cells, eff_cnt := n\<rparr>)"
    "eff_ok (length (in_disk inp)) (?z\<lparr>eff_map := cells, eff_cnt := n\<rparr>)"
    using ConstructEffMap_ok [of "length (in_disk inp)" ?z buf feed] f assms(3) unfolding fits_def by auto
  then show ?thesis
    using p(1) k' by (cases stop) (auto simp: charting_def kept_def [of W ex t inp ?z])
qed

lemma charting_marked:
  assumes "unmark z' = unmark z" and "charting W ex t inp z"
  shows "charting W ex t inp z'"
  using kept_marked [OF assms(1)] unmarkD(4,5) [OF assms(1)] assms(2) by (simp add: charting_def eff_ok_def)

interpretation effector: put_loop "put_eff_map W" "length (in_disk inp)" "base W ex t" "charting W ex t inp" "\<lambda>c. nat c < length (in_disk inp)" for W ex t inp
proof unfold_locales
  show "0 < length (in_disk inp)" "length (in_disk inp) \<le> MaxFile" if "charting W ex t inp z" for z
    using that kept_fits [of W ex t inp z] by (simp_all add: charting_def fits_def)
qed (use put_eff_map_ok charting_marked in blast)+

lemma ByteFlip1_ends:
  assumes "rest inp' xs m" and "length xs = length (in_disk inp)" and "kept W ex t inp z"
  shows "ends (base W ex t) (rest inp' xs) (\<lambda>z. charted W ex t inp z \<and> eff_done (length xs) (eff_map z)) (ByteFlip1WithEffMapBuild (put_eff_map W) m z)"
proof -
  let ?n = "length (in_disk inp)"
  have f: "0 < ?n" "?n \<le> MaxFile" using kept_fits [OF assms(3)] by (simp_all add: fits_def)
  have len: "len m = ?n" if "rest inp' xs m" for m using rest_len [OF that] assms(2) by simp
  obtain cells k where i: "eff_init ?n z = Inr (z\<lparr>eff_map := cells, eff_cnt := k\<rparr>)" "eff_ok ?n (z\<lparr>eff_map := cells, eff_cnt := k\<rparr>)"
    using eff_init_ok [OF f] by blast
  define z1 where "z1 = label ''flip8'' (progress 0 (s32 (int ?n)) (z\<lparr>eff_map := cells, eff_cnt := k\<rparr>))"
  have "charting W ex t inp (z\<lparr>eff_map := cells, eff_cnt := k\<rparr>)" using i(2) assms(3) by (simp add: charting_def)
  then have z1: "charting W ex t inp z1" by (rule charting_marked [rotated]) (simp add: z1_def)
  have "ends (base W ex t) (rest inp' xs) (charting W ex t inp) (for_each (byte_flip1_step (put_eff_map W)) [0..<?n] m z1)"
    by (rule effector.byte_flip1_loop_ends [OF assms(1,2) z1]) simp
  then have "ends (base W ex t) (rest inp' xs) (\<lambda>z. charted W ex t inp z \<and> eff_done (length xs) (eff_map z))
      (and_then (for_each (byte_flip1_step (put_eff_map W)) [0..<?n] m z1) (\<lambda>m z. bindR (eff_finish (len m) z) (\<lambda>z. Inr (False, m, z))))"
  proof (rule ends_and_then)
    fix m z assume m: "rest inp' xs m" and z: "charting W ex t inp z"
    obtain cells where c: "eff_finish ?n z = Inr (z\<lparr>eff_map := cells\<rparr>)" "eff_done ?n cells"
      using eff_finish_ok [OF _ f, of z] z by (auto simp: charting_def)
    then show "ends (base W ex t) (rest inp' xs) (\<lambda>z. charted W ex t inp z \<and> eff_done (length xs) (eff_map z)) (bindR (eff_finish (len m) z) (\<lambda>z. Inr (False, m, z)))"
      using m z assms(2) by (simp add: len [OF m] charting_def charted_def eff_done_def eff_shape_def)
  qed
  then show ?thesis
    using i(1) by (simp add: ByteFlip1WithEffMapBuild_def len [OF assms(1)] z1_def)
qed

section \<open>The automatic dictionary\<close>

text \<open>The token that is being collected: at most \<open>k\<close> bytes so far, of which the first \<open>MaxAutoExtra\<close> are stored.\<close>

definition gathering :: "World \<Rightarrow> AFLDictData list \<Rightarrow> nat \<Rightarrow> OnDiskExecInput \<Rightarrow> nat \<Rightarrow> Stages \<Rightarrow> bool" where
  "gathering W ex t inp k z \<longleftrightarrow> kept W ex t inp z \<and> length (a_collect z) = min (a_len z) MaxAutoExtra \<and> a_len z \<le> k"

lemma gathering_mono: "gathering W ex t inp k z \<Longrightarrow> k \<le> k' \<Longrightarrow> gathering W ex t inp k' z"
  by (simp add: gathering_def)

lemma kept_collect [simp]:
  "kept W ex t inp (z\<lparr>a_collect := c, a_len := k, prev_cksum := p\<rparr>) = kept W ex t inp z"
  "kept W ex t inp (z\<lparr>a_collect := c\<rparr>) = kept W ex t inp z" "kept W ex t inp (z\<lparr>a_len := k\<rparr>) = kept W ex t inp z"
  by (simp_all add: kept_def base_def loop_inv_def)

lemma collect_byte_ok:
  assumes "gathering W ex t inp k z" and "k < 2 ^ 31" and "nat (stage_cur z) div 8 < length buf"
  shows "\<exists>z'. collect_byte buf z = Inr z' \<and> gathering W ex t inp (k + 1) z' \<and> stage_cur z' = stage_cur z"
proof (cases "a_len z < MaxAutoExtra")
  case True
  let ?z = "z\<lparr>a_collect := a_collect z @ [buf ! (nat (stage_cur z) div 8) XOR 1], a_len := a_len z + 1\<rparr>"
  have "collect_byte buf z = Inr ?z" using True assms by (simp add: collect_byte_def gathering_def)
  moreover have "kept W ex t inp ?z" using assms(1) by (simp add: gathering_def kept_def base_def loop_inv_def)
  ultimately show ?thesis using True assms(1) by (simp add: gathering_def)
next
  case False
  then show ?thesis using assms(1,2) by (simp add: collect_byte_def gathering_def)
qed

lemma maybe_collect_ok:
  assumes "sorts_ok S" and "gathering W ex t inp k z"
  shows "\<exists>z'. maybe_collect S z = Inr z' \<and> gathering W ex t inp k z' \<and> stage_cur z' = stage_cur z"
proof (cases "MinAutoExtra \<le> a_len z \<and> a_len z \<le> MaxAutoExtra")
  case True
  have aex: "auto_ok (a_extras z)" using assms(2) by (simp add: gathering_def kept_def base_def loop_inv_def)
  have l: "length (a_collect z) = a_len z" using assms(2) True by (simp add: gathering_def)
  have k: "gathering W ex t inp k (z\<lparr>auto_changed := True, a_extras := aex, rand := rs\<rparr>)" if "auto_ok aex" for aex rs
    using assms(2) that by (simp add: gathering_def kept_def base_def loop_inv_def)
  from MaybeAddAuto_ok [OF assms(1) aex, of "a_collect z"] l True
  consider "MaybeAddAuto S (a_collect z) z = Inr z" |
    aex rs where "MaybeAddAuto S (a_collect z) z = Inr (z\<lparr>auto_changed := True, a_extras := aex, rand := rs\<rparr>)" "auto_ok aex"
    by auto
  then show ?thesis
    by cases (use True assms(2) k in \<open>simp_all add: maybe_collect_def\<close>)
qed (use assms(2) in \<open>auto simp: maybe_collect_def\<close>)

lemma ConstructAutoDict_ok:
  assumes S: "sorts_ok S" and g: "gathering W ex t inp k z" and k: "k + 1 < 2 ^ 31" and pos: "nat (stage_cur z) div 8 < length buf"
  shows "\<exists>z'. ConstructAutoDict S buf feed z = Inr z' \<and> gathering W ex t inp (k + 2) z'"
proof (cases "should_construct_auto_dict z")
  case True
  define cksum where "cksum = CalcCksum32 feed"
  let ?r = "if stage_cur z = stage_max z - 1 \<and> cksum = prev_cksum z then bindR (collect_byte buf z) (\<lambda>z. maybe_collect S z)
    else if cksum \<noteq> prev_cksum z then bindR (maybe_collect S z) (\<lambda>z. Inr (z\<lparr>a_collect := [], a_len := 0, prev_cksum := cksum\<rparr>)) else Inr z"
  have "\<exists>z'. ?r = Inr z' \<and> gathering W ex t inp (k + 1) z' \<and> stage_cur z' = stage_cur z"
  proof -
    obtain z1 where z1: "collect_byte buf z = Inr z1" "gathering W ex t inp (k + 1) z1" "stage_cur z1 = stage_cur z"
      using collect_byte_ok [OF g _ pos] k by auto
    obtain z2 where z2: "maybe_collect S z1 = Inr z2" "gathering W ex t inp (k + 1) z2" "stage_cur z2 = stage_cur z1"
      using maybe_collect_ok [OF S z1(2)] by blast
    obtain z3 where z3: "maybe_collect S z = Inr z3" "gathering W ex t inp k z3" "stage_cur z3 = stage_cur z"
      using maybe_collect_ok [OF S g] by blast
    have "gathering W ex t inp (k + 1) (z3\<lparr>a_collect := [], a_len := 0, prev_cksum := cksum\<rparr>)"
      using z3(2) by (simp add: gathering_def)
    then show ?thesis using z1 z2 z3 gathering_mono [OF g, of "k + 1"] by simp
  qed
  then obtain z' where z': "?r = Inr z'" "gathering W ex t inp (k + 1) z'" "stage_cur z' = stage_cur z" by blast
  obtain z'' where "collect_byte buf z' = Inr z''" "gathering W ex t inp (k + 1 + 1) z''"
    using collect_byte_ok [OF z'(2)] k pos z'(3) by auto
  then show ?thesis
    using True z' gathering_mono [OF z'(2), of "k + 2"] by (simp add: ConstructAutoDict_def cksum_def [symmetric] Let_def)
qed (use gathering_mono [OF g, of "k + 2"] in \<open>simp add: ConstructAutoDict_def\<close>)

definition collecting :: "World \<Rightarrow> Sorts \<Rightarrow> AFLDictData list \<Rightarrow> nat \<Rightarrow> OnDiskExecInput \<Rightarrow> nat \<Rightarrow> Stages \<Rightarrow> bool" where
  "collecting W S ex t inp i z \<longleftrightarrow> gathering W ex t inp (2 * i) z \<and> sorts_ok S \<and> i \<le> 8 * length (in_disk inp)"

lemma collecting_kept: "collecting W S ex t inp i z \<Longrightarrow> kept W ex t inp z"
  by (simp add: collecting_def gathering_def)

lemma put_auto_dict_ok:
  assumes "length buf = length (in_disk inp)" and "collecting W S ex t inp i z" and "stage_cur z = int i" and "i < 8 * length (in_disk inp)"
  shows "\<exists>stop z'. put_auto_dict W S buf z = Inr (stop, z') \<and> (if stop then base W ex t z' else collecting W S ex t inp (Suc i) z')"
proof -
  have k: "kept W ex t inp z" "base W ex t z" using collecting_kept [OF assms(2)] by (simp_all add: kept_def)
  have f: "fits (in_disk inp)" by (rule kept_fits [OF k(1)])
  then have "fits buf" using fits_length [OF assms(1)] by simp
  then obtain stop feed s where p: "put_auto_dict W S buf z = (if stop then Inr (True, z\<lparr>afl := s\<rparr>)
      else bindR (ConstructAutoDict S buf feed (z\<lparr>afl := s\<rparr>)) (\<lambda>z. Inr (False, z)))" "grows W (afl z) s"
    using put_with_cases [OF k(2), of buf "ConstructAutoDict S"] unfolding put_auto_dict_def by blast
  let ?z = "z\<lparr>afl := s\<rparr>"
  have k': "kept W ex t inp ?z" by (rule kept_afl [OF k(1) p(2)])
  have "gathering W ex t inp (2 * i) ?z" using assms(2) k' by (simp add: collecting_def gathering_def)
  moreover have "2 * i + 1 < 2 ^ 31" using assms(4) f by (simp add: fits_def MaxFile_def)
  moreover have "nat (stage_cur ?z) div 8 < length buf" using assms(1,3,4) by simp
  moreover have "sorts_ok S" using assms(2) by (simp add: collecting_def)
  ultimately obtain z' where "ConstructAutoDict S buf feed ?z = Inr z'" "gathering W ex t inp (2 * i + 2) z'"
    using ConstructAutoDict_ok [of S W ex t inp "2 * i" ?z buf feed] by blast
  then show ?thesis
    using p(1) k' assms(2,4) by (cases stop) (auto simp: collecting_def kept_def [of W ex t inp ?z])
qed

lemma collecting_marked:
  assumes "unmark z' = unmark z" and "collecting W S ex t inp i z"
  shows "collecting W S ex t inp i z'"
  using kept_marked [OF assms(1)] unmarkD(6,7) [OF assms(1)] assms(2) by (simp add: collecting_def gathering_def)

interpretation auto_dict: put_contract "put_auto_dict W S" "length (in_disk inp)" "base W ex t" "collecting W S ex t inp i" "collecting W S ex t inp (Suc i)"
    "\<lambda>c. c = int i \<and> i < 8 * length (in_disk inp)" for W S ex t inp i
proof unfold_locales
  show "0 < length (in_disk inp)" "length (in_disk inp) \<le> MaxFile" if "collecting W S ex t inp i z" for z
    using kept_fits [OF collecting_kept [OF that]] by (simp_all add: fits_def)
qed (use put_auto_dict_ok collecting_marked in blast)+

lemma BitFlip1_ends:
  assumes "rest inp' xs m" and "length xs = length (in_disk inp)" and "kept W ex t inp z" and "sorts_ok S"
  shows "ends (base W ex t) (rest inp' xs) (kept W ex t inp) (BitFlip1WithAutoDictBuild (put_auto_dict W S) m z)"
proof -
  let ?n = "length (in_disk inp)"
  have f: "0 < ?n" "?n \<le> MaxFile" using kept_fits [OF assms(3)] by (simp_all add: fits_def)
  define z0 where "z0 = z\<lparr>prev_cksum := queue_cur_exec_cksum z, a_len := 0, a_collect := [], should_construct_auto_dict := False\<rparr>"
  define z1 where "z1 = label ''flip1'' (progress 0 (s32 (int (u32 (push_bit 3 (len m))))) z0)"
  have "kept W ex t inp z0" using assms(3) by (simp add: z0_def kept_def base_def loop_inv_def)
  then have "collecting W S ex t inp 0 z0" using assms(4) by (simp add: collecting_def gathering_def z0_def)
  then have z1: "collecting W S ex t inp 0 z1" by (rule collecting_marked [rotated]) (simp add: z1_def)
  have "stage_max z1 = int (8 * ?n)"
    using f rest_len [OF assms(1)] assms(2) by (simp add: z1_def label_def progress_def bits_small s32_small MaxFile_def)
  then have k: "nat (stage_max z1) = 8 * ?n" by simp
  have step: "ends (base W ex t) (rest inp' xs) (collecting W S ex t inp (Suc i)) (flip1_step (put_auto_dict W S) i m z)"
    if "i < 8 * ?n" "rest inp' xs m" "collecting W S ex t inp i z" for i m z
  proof -
    have "collecting W S ex t inp i (if dumb_mode (setting (afl z)) then z else z\<lparr>should_construct_auto_dict := (i mod 8 = 7)\<rparr>)"
      using that(3) collecting_marked [OF _ that(3)] by simp
    then show ?thesis
      unfolding flip1_step_def by (rule auto_dict.flip_step_ends [OF that(2) assms(2), rotated]) (use that(1) in auto)
  qed
  have "ends (base W ex t) (rest inp' xs) (collecting W S ex t inp (8 * ?n)) (for_each (flip1_step (put_auto_dict W S)) [0..<8 * ?n] m z1)"
    by (rule ends_for_each_upt) (use step assms(1) z1 in auto)
  then have "ends (base W ex t) (rest inp' xs) (kept W ex t inp) (for_each (flip1_step (put_auto_dict W S)) [0..<8 * ?n] m z1)"
    by (rule ends_weaken) (use collecting_kept in auto)
  then show ?thesis
    unfolding BitFlip1WithAutoDictBuild_def Let_def z0_def [symmetric] z1_def [symmetric] k .
qed

section \<open>All deterministic stages\<close>

text \<open>The buffer afterwards: it has its length, and if the user's dictionary is ordered by length it is the original one.\<close>

definition restored :: "AFLDictData list \<Rightarrow> u8 list \<Rightarrow> Mutator \<Rightarrow> bool" where
  "restored ex bytes m \<longleftrightarrow> (\<exists>ys. rest bytes ys m \<and> length ys = length bytes \<and> (ordered 0 ex \<longrightarrow> ys = bytes))"

lemma auto_ordered: "auto_ok aex \<Longrightarrow> ordered 0 (take (min (u32 (length aex)) UseAutoExtras) aex)"
proof -
  assume a: "auto_ok aex"
  then have "take (min (u32 (length aex)) UseAutoExtras) aex = take UseAutoExtras aex"
    by (simp add: auto_ok_def MaxAutoExtras_def UseAutoExtras_def min_def)
  then show ?thesis
    using a by (force simp: ordered_def auto_ok_def MaxAutoExtra_def dest: in_set_takeD)
qed

lemma charted_kept: "charted W ex t inp z \<Longrightarrow> kept W ex t inp z"
  by (simp add: charted_def)

lemma DictOverwrite_restored:
  assumes "restored ex bytes m" and "charted W ex t inp z" and "bytes = in_disk inp"
  shows "ends (base W ex t) (restored ex bytes) (charted W ex t inp) (DictOverwrite (put_plain W) is_auto m z)"
proof -
  obtain ys where ys: "rest bytes ys m" "length ys = length bytes" "ordered 0 ex \<longrightarrow> ys = bytes" using assms(1) by (auto simp: restored_def)
  define es where "es = (if is_auto then take (min (u32 (length (a_extras z))) UseAutoExtras) (a_extras z) else take (u32 (length (extras z))) (extras z))"
  have e: "extras z = ex" "dict_ok ex" "auto_ok (a_extras z)"
    using assms(2) by (simp_all add: charted_def kept_def base_def loop_inv_def)
  have "ordered 0 es" if "ordered 0 ex"
    using that auto_ordered [OF e(3)] e(1,2) by (auto simp: es_def dict_ok_def)
  then show ?thesis
    unfolding restored_def
    by (intro ends_weaken [OF chart.DictOverwrite_ends [OF ys(1) _ _ assms(2) es_def]]) (use ys assms(3) in auto)
qed

lemma det_stages_ends:
  assumes "kept W ex t inp z" and "sorts_ok S" and "bytes = in_disk inp" and "rest bytes bytes m"
  shows "ends (base W ex t) (restored ex bytes) (charted W ex t inp) (det_stages W S m z)"
  unfolding det_stages_def
proof (intro ends_and_then)
  have l: "length bytes = length (in_disk inp)" by (simp add: assms(3))
  show "ends (base W ex t) (rest bytes bytes) (kept W ex t inp) (BitFlip1WithAutoDictBuild (put_auto_dict W S) m z)"
    by (rule BitFlip1_ends [OF assms(4) l assms(1,2)])
  fix m z assume m: "rest bytes bytes m"
  show "ends (base W ex t) (rest bytes bytes) (kept W ex t inp) (BitFlipOther (put_plain W) m z)" if "kept W ex t inp z"
    by (rule det.sized.BitFlipOther_ends [OF m l that]) simp
  show "ends (base W ex t) (rest bytes bytes) (charted W ex t inp) (ByteFlip1WithEffMapBuild (put_eff_map W) m z)" if "kept W ex t inp z"
    by (rule ends_weaken [OF ByteFlip1_ends [OF m l that]]) simp_all
  show "ends (base W ex t) (rest bytes bytes) (charted W ex t inp) (ByteFlipOther (put_plain W) m z)" if "charted W ex t inp z"
    by (rule chart.ByteFlipOther_ends [OF m l that])
  show "ends (base W ex t) (rest bytes bytes) (charted W ex t inp) (Arith (put_plain W) m z)" if "charted W ex t inp z"
    by (rule chart.Arith_ends [OF m l that])
  show "ends (base W ex t) (restored ex bytes) (charted W ex t inp) (Interest (put_plain W) m z)" if "charted W ex t inp z"
    by (rule ends_weaken [OF chart.Interest_ends [OF m l that]]) (auto simp: restored_def)
next
  fix m z assume "restored ex bytes m" "charted W ex t inp z"
  then show "ends (base W ex t) (restored ex bytes) (charted W ex t inp) (DictOverwrite (put_plain W) False m z)"
    "ends (base W ex t) (restored ex bytes) (charted W ex t inp) (DictOverwrite (put_plain W) True m z)"
    using DictOverwrite_restored assms(3) by blast+
qed

end
