(* ===== verification/AFL_OneLoop.thy ===== *)
theory AFL_OneLoop
  imports AFL_Loop
begin

text \<open>
  The composition of all components of AFL: from a state that satisfies the invariant, one iteration of the fuzzing loop, and so
  every number of iterations, returns normally and keeps the invariant.
\<close>

section \<open>One iteration of the fuzzing loop\<close>

lemma ApplyDetMuts_ok:
  assumes b: "base W ex t z" and S: "sorts_ok S"
  shows "\<exists>stop z'. ApplyDetMuts W S t z = Inr (stop, z') \<and> base W ex t z' \<and> (\<not> stop \<longrightarrow> loaded (input (case_queue (afl z') ! t)))"
proof -
  have W: "world_ok W" and inv: "afl_inv W (afl z)" and t: "t < length (case_queue (afl z))"
    using b by (simp_all add: base_def loop_inv_def)
  let ?tc = "case_queue (afl z) ! t"
  have f: "fits (in_disk (input ?tc))" using inv nth_mem [OF t] unfolding afl_inv_def inputs_ok_def by blast
  then have "in_disk (input ?tc) \<noteq> []" by (auto simp: fits_def)
  define inp where "inp = (input ?tc)\<lparr>in_buf := Some (in_disk (input ?tc)), in_len := length (in_disk (input ?tc))\<rparr>"
  have inp: "LoadByMmap (can_open W) (input ?tc) = Inr inp" "loaded inp" "in_disk inp = in_disk (input ?tc)"
    using f fits_less [OF f] world_okD(6) [OF W] \<open>in_disk (input ?tc) \<noteq> []\<close>
    by (simp_all add: LoadByMmap_def open_input_def inp_def loaded_def)
  define s where "s = upd_case t (\<lambda>tc. tc\<lparr>input := inp\<rparr>) (afl z)"
  have "afl_inv W s" unfolding s_def by (rule afl_inv_upd_input [OF inv t]) (use f inp(3) in simp)
  then have "advances W (afl z) s" by (simp add: advances_def s_def upd_case_def)
  then have bs: "base W ex t (z\<lparr>afl := s\<rparr>)" by (rule base_afl [OF b])
  have it: "input (case_queue s ! t) = inp" using t by (simp add: s_def upd_case_def)
  show ?thesis
  proof (cases "skip_deterministic z \<or> WasFuzzed ?tc \<or> passed_det ?tc \<or>
      (master_max z \<noteq> 0 \<and> exec_cksum ?tc mod master_max z \<noteq> u32_sub (master_id z) 1)")
    case True
    then have "ApplyDetMuts W S t z = Inr (False, z\<lparr>afl := s, doing_det := False\<rparr>)"
      using t inp(1) by (simp add: ApplyDetMuts_def s_def Let_def)
    moreover have "base W ex t (z\<lparr>afl := s, doing_det := False\<rparr>)" using bs by (simp add: base_def loop_inv_def)
    ultimately show ?thesis using it inp(2) by auto
  next
    case False
    let ?bytes = "in_disk inp"
    define z1 where "z1 = val_type STAGE_VAL_NONE (z\<lparr>afl := s, doing_det := True, queue_cur_exec_cksum := exec_cksum ?tc\<rparr>)"
    have "kept W ex t inp (z\<lparr>afl := s, doing_det := True, queue_cur_exec_cksum := exec_cksum ?tc\<rparr>)"
      using bs it by (simp add: kept_def base_def loop_inv_def)
    then have z1: "kept W ex t inp z1" by (rule kept_marked [rotated]) (simp add: z1_def)
    have eq: "ApplyDetMuts W S t z = bindR (det_stages W S (Mutator_new ?bytes) z1) (\<lambda>(stop, m, z).
           if stop then Inr (True, z)
           else if passed_det (case_queue (afl z) ! t) then Inr (False, z)
           else bindR (MarkAsDetDone W t (afl z)) (\<lambda>s. Inr (False, z\<lparr>afl := s\<rparr>)))"
      using False t inp(1) GetInput_loaded [OF inp(2)] by (auto simp: ApplyDetMuts_def s_def z1_def Let_def)
    have "ends (base W ex t) (restored ex ?bytes) (charted W ex t inp) (det_stages W S (Mutator_new ?bytes) z1)"
      by (rule det_stages_ends [OF z1 S refl]) (simp add: rest_def holds_def Mutator_new_def)
    then show ?thesis
    proof (cases rule: endsE)
      case (stopped m z')
      then show ?thesis using eq by auto
    next
      case (finished m z')
      have k: "kept W ex t inp z'" "base W ex t z'" "t < length (case_queue (afl z'))"
        using charted_kept [OF finished(3)] by (simp_all add: kept_def base_def)
      obtain s' where s': "MarkAsDetDone W t (afl z') = Inr s'" "mild (afl z') s'"
        using MarkAsDetDone_ok [OF W k(3)] by blast
      have "kept W ex t inp (z'\<lparr>afl := s'\<rparr>)" by (rule kept_afl [OF k(1) steady_grows [OF mild_steady [OF s'(2)]]])
      then show ?thesis
        using eq finished(1) s'(1) k inp(2) by (auto simp: kept_def)
    qed
  qed
qed

lemma ApplyRandMuts_ok:
  assumes b: "base W ex t z" and ld: "loaded (input (case_queue (afl z) ! t))"
  shows "\<exists>stop z'. ApplyRandMuts W t z = Inr (stop, z') \<and> base W ex t z'"
proof -
  let ?bytes = "in_disk (input (case_queue (afl z) ! t))"
  let ?m = "Mutator_new ?bytes"
  have t: "t < length (case_queue (afl z))" and inv: "afl_inv W (afl z)" using b by (simp_all add: base_def loop_inv_def)
  have f: "fits ?bytes" using inv nth_mem [OF t] unfolding afl_inv_def inputs_ok_def by blast
  have m: "reads ?bytes ?m" by (simp add: reads_def Mutator_new_def mut_ok_def GetBuf_def)
  have "same_bufs ?m ?m" using reads_hav [OF m f] by (simp add: same_bufs_def)
  then have h: "ends (base W ex t) (same_bufs ?m) (base W ex t) (HavocStage (put_plain W) ?m z)"
    by (rule plain.HavocStage_ends [OF _ b])
  have "reads ?bytes m" if "same_bufs ?m m" for m
    using that m by (simp add: same_bufs_def reads_def hav_ok_def GetBuf_def)
  then have "ends (base W ex t) (reads ?bytes) (base W ex t) (and_then (HavocStage (put_plain W) ?m z) (Splicing W (put_plain W)))"
    by (intro ends_and_then [OF h] plain.Splicing_ends [OF _ f]) auto
  then show ?thesis
    by (rule endsE) (use t GetInput_loaded [OF ld] in \<open>auto simp: ApplyRandMuts_def\<close>)
qed

text \<open>Before the mutations: the performance score of the test case is not known yet.\<close>

definition ready :: "World \<Rightarrow> AFLDictData list \<Rightarrow> nat \<Rightarrow> Stages \<Rightarrow> bool" where
  "ready W ex t z \<longleftrightarrow> loop_inv W ex z \<and> 0 < queue_cycle (afl z) \<and> t < length (case_queue (afl z))"

lemma ready_afl: "ready W ex t z \<Longrightarrow> advances W (afl z) s \<Longrightarrow> ready W ex t (z\<lparr>afl := s\<rparr>)"
  using loop_inv_afl by (auto simp: ready_def advances_def pace_def)

lemma readyD:
  assumes "ready W ex t z"
  shows "world_ok W" "afl_inv W (afl z)" "stats_ok (afl z)" "t < length (case_queue (afl z))"
  using assms by (simp_all add: ready_def loop_inv_def)

lemma next_unless_ok:
  assumes "\<exists>stop z'. r = Inr (stop, z') \<and> ready W ex t z' \<and> (\<not> stop \<longrightarrow> P z')"
    and "\<And>z. ready W ex t z \<Longrightarrow> P z \<Longrightarrow> \<exists>stop z'. f z = Inr (stop, z') \<and> ready W ex t z'"
  shows "\<exists>stop z'. next_unless r f = Inr (stop, z') \<and> ready W ex t z'"
proof -
  obtain stop z' where "r = Inr (stop, z')" "ready W ex t z'" "\<not> stop \<longrightarrow> P z'" using assms(1) by blast
  then show ?thesis using assms(2) [of z'] by (cases stop) (auto simp: next_unless_def)
qed

lemma base_ready: "base W ex t z \<Longrightarrow> ready W ex t z"
  by (simp add: base_def ready_def)

lemma fuzz_case_ok:
  assumes "ready W ex t z" and "loaded (input (case_queue (afl z) ! t))" and S: "sorts_ok S"
  shows "\<exists>stop z'. fuzz_case W S t z = Inr (stop, z') \<and> ready W ex t z'"
  unfolding fuzz_case_def
proof (intro next_unless_ok)
  note r = readyD [OF assms(1)]
  obtain ab s where s: "RetryCalibrate W t (afl z) = Inr (ab, s)" "steady W (afl z) s"
    using RetryCalibrate_ok [OF r(1,2,4) assms(2)] by blast
  show "\<exists>stop z'. on_afl (RetryCalibrate W t) z = Inr (stop, z') \<and> ready W ex t z' \<and> (\<not> stop \<longrightarrow> loaded (input (case_queue (afl z') ! t)))"
    using s(1) ready_afl [OF assms(1) steady_advances [OF s(2)]] steady_case(2) [OF s(2) r(4)] assms(2) by (simp add: on_afl_def)
next
  fix z assume z: "ready W ex t z"
  note r = readyD [OF z]
  show "\<exists>stop z'. on_afl (TrimCase W t) z = Inr (stop, z') \<and> ready W ex t z' \<and> (\<not> stop \<longrightarrow> True)" if ld: "loaded (input (case_queue (afl z) ! t))"
  proof -
    obtain ab s where "TrimCase W t (afl z) = Inr (ab, s)" "advances W (afl z) s"
      using TrimCase_ok [OF r(1,2,4) ld] by blast
    then show ?thesis using ready_afl [OF z] by (simp add: on_afl_def)
  qed
  obtain s where s: "CalcScore t (afl z) = Inr s" "mild (afl z) s" "perf_ok s"
    using CalcScore_ok [OF r(3,4)] by blast
  have "ready W ex t (z\<lparr>afl := s\<rparr>)" by (rule ready_afl [OF z mild_advances [OF s(2)]])
  then show "\<exists>stop z'. on_afl (\<lambda>s. bindR (CalcScore t s) (\<lambda>s. Inr (False, s))) z = Inr (stop, z') \<and> ready W ex t z' \<and> (\<not> stop \<longrightarrow> base W ex t z')"
    using s by (auto simp: on_afl_def base_def ready_def)
  show "\<exists>stop z'. ApplyDetMuts W S t z = Inr (stop, z') \<and> ready W ex t z' \<and>
      (\<not> stop \<longrightarrow> base W ex t z' \<and> loaded (input (case_queue (afl z') ! t)))" if "base W ex t z"
    using ApplyDetMuts_ok [OF that S] base_ready by blast
  show "\<exists>stop z'. ApplyRandMuts W t z = Inr (stop, z') \<and> ready W ex t z'"
    if "base W ex t z \<and> loaded (input (case_queue (afl z) ! t))"
    using ApplyRandMuts_ok [of W ex t z] that base_ready by blast
qed

lemma SelectSeed_cycle: "SelectSeed s = Inr (t, s') \<Longrightarrow> 0 < queue_cycle s'"
  by (auto simp: SelectSeed_def Let_def split: if_splits)

lemma OneLoop_ok:
  assumes inv: "loop_inv W ex z" and S: "sorts_ok S"
  shows "\<exists>z'. OneLoop W S z = Inr z' \<and> loop_inv W ex z'"
proof -
  have W: "world_ok W" and i: "afl_inv W (afl z)" using inv by (simp_all add: loop_inv_def)
  obtain s1 where s1: "CullQueue W (afl z) = Inr s1" "steady W (afl z) s1"
    using CullQueue_steady [OF W i] by blast
  obtain t s2 where s2: "SelectSeed s1 = Inr (t, s2)" "steady W s1 s2" "t < length (case_queue s2)"
    using SelectSeed_ok [OF steady_inv [OF s1(2) i]] by blast
  have a2: "advances W (afl z) s2" by (rule steady_advances [OF steady_trans [OF s1(2) s2(2)]])
  have inv2: "ready W ex t (z\<lparr>afl := s2\<rparr>)"
    using loop_inv_afl [OF inv a2] SelectSeed_cycle [OF s2(1)] s2(3) by (simp add: ready_def)
  obtain skip rs where sk: "skip_mut t s2 (rand z) = Inr (skip, rs)" using skip_mut_ok [OF s2(3), of "rand z"] by fastforce
  obtain s3 where s3: "load_case W t s2 = Inr s3" "afl_inv W s3" "loaded (input (case_queue s3 ! t))" "pace s2 s3"
    using load_case_ok [OF W _ s2(3)] readyD(2) [OF inv2] by auto
  have "advances W s2 s3" using s3 load_case_length [OF s3(1)] by (simp add: advances_def)
  then have inv3: "ready W ex t (z\<lparr>afl := s3, rand := rs\<rparr>)"
    using ready_afl [OF inv2, of s3] by (simp add: ready_def loop_inv_def)
  have nxt: "loop_inv W ex (z'\<lparr>afl := next_entry s\<rparr>)" if "loop_inv W ex z'" "advances W (afl z') s" for z' s
    by (rule loop_inv_afl [OF that(1) advances_trans [OF that(2) mild_advances [OF next_entry_mild]]])
  show ?thesis
  proof (cases skip)
    case True
    have "loop_inv W ex (z\<lparr>rand := rs\<rparr>)" using inv by (simp add: loop_inv_def)
    then have "loop_inv W ex (z\<lparr>rand := rs\<rparr>\<lparr>afl := next_entry s2\<rparr>)" by (rule nxt) (use a2 in simp)
    then show ?thesis
      using s1(1) s2(1) sk True by (simp add: OneLoop_def ConsiderSkipMut_def)
  next
    case False
    obtain stop z4 where z4: "fuzz_case W S t (z\<lparr>afl := s3, rand := rs\<rparr>) = Inr (stop, z4)" "ready W ex t z4"
      using fuzz_case_ok [OF inv3 _ S] s3(3) by auto
    obtain s5 where s5: "AbandonEntry t (afl z4) = Inr s5" "advances W (afl z4) s5"
      using AbandonEntry_ok [OF readyD(2) [OF z4(2)] readyD(4) [OF z4(2)]] by blast
    have "loop_inv W ex (z4\<lparr>afl := next_entry s5\<rparr>)" by (rule nxt [OF _ s5(2)]) (use z4(2) in \<open>simp add: ready_def\<close>)
    then show ?thesis
      using s1(1) s2(1) sk False s3(1) z4(1) s5(1) by (simp add: OneLoop_def ConsiderSkipMut_def Let_def)
  qed
qed

lemma fuzz_rounds_ok:
  assumes "sorts_ok S"
  shows "loop_inv W ex z \<Longrightarrow> \<exists>z'. fuzz_rounds W S n z = Inr z' \<and> loop_inv W ex z'"
proof (induction n arbitrary: z)
  case (Suc n)
  obtain z1 where "OneLoop W S z = Inr z1" "loop_inv W ex z1" using OneLoop_ok [OF Suc.prems assms] by blast
  then show ?case using Suc by simp
qed simp

section \<open>Properties\<close>

text \<open>
  The whole fuzzer of AFL is safe. Whatever the target does, whatever numbers the random source yields, from a state
  that satisfies the invariant every number of iterations of the fuzzing loop returns: culling, the choice of a seed,
  calibration, trimming, the score, all deterministic stages with the automatic dictionary and the effector map, havoc and
  splicing never access a buffer out of bounds, divide by zero, double the rounds of havoc beyond their type or fail an assertion, and the invariant
  holds again: of the queue and its winners, the counters, the maps, the names of the saved files, and the automatic
  dictionary. The dictionary of the user stays as it is.
\<close>

theorem afl_fuzzer_safe:
  assumes "world_ok W" and "sorts_ok S" and "afl_inv W (afl z)" and "stats_ok (afl z)" and "dict_ok (extras z)" and "auto_ok (a_extras z)"
    and "0 < havoc_div z"
  shows "\<exists>z'. fuzz_rounds W S n z = Inr z' \<and> afl_inv W (afl z') \<and> stats_ok (afl z') \<and> auto_ok (a_extras z') \<and> extras z' = extras z"
  using fuzz_rounds_ok [OF assms(2), of W "extras z" z n] assms by (auto simp: loop_inv_def)

lemma demo_loop_inv: "loop_inv demo_world (extras demo_stages)
    (demo_stages\<lparr>afl := demo_afl\<lparr>total_cal_cycles := 8, total_bitmap_entries := 1\<rparr>\<rparr>)"
proof -
  have "afl_inv demo_world (demo_afl\<lparr>total_cal_cycles := 8, total_bitmap_entries := 1\<rparr>)"
    by (rule afl_inv_view [OF _ demo_afl_inv]) (simp add: inv_view_def)
  then show ?thesis
    using demo_world_ok
    by (simp add: loop_inv_def stats_ok_def demo_stages_def dict_ok_def auto_ok_def MaxAutoExtras_def UseAutoExtras_def MinAutoExtra_def MaxAutoExtra_def)
qed

theorem afl_fuzzer_safe_witness:
  "\<exists>z'. fuzz_rounds demo_world demo_sorts 1000 (demo_stages\<lparr>afl := demo_afl\<lparr>total_cal_cycles := 8, total_bitmap_entries := 1\<rparr>\<rparr>) = Inr z' \<and>
     afl_inv demo_world (afl z') \<and> auto_ok (a_extras z')"
proof -
  let ?z = "demo_stages\<lparr>afl := demo_afl\<lparr>total_cal_cycles := 8, total_bitmap_entries := 1\<rparr>\<rparr>"
  have "world_ok demo_world" "afl_inv demo_world (afl ?z)" "stats_ok (afl ?z)" "dict_ok (extras ?z)" "auto_ok (a_extras ?z)" "0 < havoc_div ?z"
    using demo_loop_inv by (simp_all add: loop_inv_def)
  then show ?thesis using afl_fuzzer_safe [OF _ demo_sorts_ok, of demo_world ?z 1000] by blast
qed

end
