(* ===== verification/AFL_Start.thy ===== *)
theory AFL_Start
  imports AFL_Import AFL_OneLoop
begin

text \<open>
  The start of AFL leaves a state from which the fuzzing loop can go on, or ends the fuzzer with an error message; together
  with the loop this is the safety of a whole campaign.
\<close>

section \<open>Reading the test cases\<close>

lemma shuffle_from_ok:
  assumes "length ptrs < 2 ^ 32" and "\<forall>i \<in> set is. i < length ptrs"
  shows "\<exists>ptrs' rs'. shuffle_from is ptrs rs = Inr (ptrs', rs') \<and> mset ptrs' = mset ptrs"
  using assms
proof (induction "is" arbitrary: ptrs rs)
  case (Cons i "is")
  have i: "i < length ptrs" using Cons.prems(2) by simp
  then have n: "u32_sub (u32 (length ptrs)) i = length ptrs - i"
    using Cons.prems(1) by simp
  obtain r rs' where r: "UR (length ptrs - i) rs = Inr (r, rs')" "r < length ptrs - i"
    using UR_ok [of "length ptrs - i" rs] i by auto
  have j: "i + r < length ptrs" "u32 (i + r) = i + r"
    using r(2) Cons.prems(1) by (simp_all add: u32_def)
  have "mset (ptrs[i := ptrs ! (i + r), i + r := ptrs ! i]) = mset ptrs"
    using j(1) i by (rule mset_swap)
  moreover obtain ptrs' rs'' where "shuffle_from is (ptrs[i := ptrs ! (i + r), i + r := ptrs ! i]) rs' = Inr (ptrs', rs'')"
    "mset ptrs' = mset (ptrs[i := ptrs ! (i + r), i + r := ptrs ! i])"
    using Cons.IH [of "ptrs[i := ptrs ! (i + r), i + r := ptrs ! i]" rs'] Cons.prems by auto
  ultimately show ?case
    using n r i j by (simp add: idx_vec_def)
qed simp

lemma ShufflePtrs_ok:
  assumes "2 \<le> length ptrs" and "length ptrs < 2 ^ 32"
  shows "\<exists>ptrs' rs'. ShufflePtrs ptrs rs = Inr (ptrs', rs') \<and> mset ptrs' = mset ptrs"
proof -
  have "u32_sub (u32 (length ptrs)) 2 = length ptrs - 2"
    using assms by simp
  moreover have "\<exists>ptrs' rs'. shuffle_from [0..<length ptrs - 2] ptrs rs = Inr (ptrs', rs') \<and> mset ptrs' = mset ptrs"
    by (rule shuffle_from_ok [OF assms(2)]) auto
  ultimately show ?thesis by (simp add: ShufflePtrs_def)
qed


text \<open>The state while the queue grows: like the invariant of AFL, but the queue may still be empty.\<close>

definition young :: "World \<Rightarrow> AFLState \<Rightarrow> bool" where
  "young W s \<longleftrightarrow> tops_ok W s \<and> counts_ok s \<and> maps_ok W s \<and> names_ok s \<and> inputs_ok s \<and> seek_to s = 0 \<and>
     crash_mode s = FAULT_NONE \<and> (\<forall>tc \<in> set (case_queue s). exec_cksum tc = 0)"

lemma AFLState_new_young: "young W (AFLState_new W st)"
  by (simp add: young_def AFLState_new_def tops_ok_fresh counts_ok_def maps_ok_def names_ok_def inputs_ok_def u32_def)

lemma AddToQueue_young:
  assumes "young W s" and "fits disk"
  shows "\<exists>s'. AddToQueue W fn disk None pd s = Inr (length (case_queue s), s') \<and> young W s' \<and> length (case_queue s') = length (case_queue s) + 1"
proof -
  define tc where "tc = (AFLTestcase_new (CreateOnDisk fn disk))\<lparr>depth := u32 (cur_depth s + 1), passed_det := pd\<rparr>"
  define s' where "s' = s\<lparr>max_depth := (if max_depth s < depth tc then u32 (depth tc) else max_depth s),
      case_queue := case_queue s @ [tc], queued_paths := u32 (queued_paths s + 1),
      pending_not_fuzzed := u32 (pending_not_fuzzed s + 1), cycles_wo_finds := 0\<rparr>"
  have tc: "tc_ref tc = 0" "trace_mini tc = None" "fuzz_level tc = 0" "exec_cksum tc = 0" "in_disk (input tc) = disk"
    by (simp_all add: tc_def AFLTestcase_new_def CreateOnDisk_def)
  have add: "AddToQueue W fn disk None pd s = Inr (length (case_queue s), s')"
    by (simp add: AddToQueue_def s'_def tc_def)
  have q: "case_queue s' = case_queue s @ [tc]" "top_rated s' = top_rated s"
    by (simp_all add: s'_def)
  have "tops_ok W s'"
    by (rule tops_ok_append [OF _ q(1) tc(1,2) q(2)]) (use assms(1) in \<open>simp add: young_def\<close>)
  moreover have "counts_ok s'"
    using assms(1) tc(3) u32_Suc by (simp add: young_def counts_ok_def s'_def)
  ultimately have "young W s'"
    using assms tc(4,5) by (auto simp: young_def maps_ok_def names_ok_def inputs_ok_def s'_def)
  then show ?thesis
    using add q(1) by simp
qed

lemma read_entries_ok:
  assumes "young W s"
  shows "read_entries W dir es s = Inl (Exit 1) \<or>
    (\<exists>s'. read_entries W dir es s = Inr s' \<and> young W s' \<and> length (case_queue s') \<le> length (case_queue s) + length es)"
  using assms
proof (induction es arbitrary: s)
  case (Cons e es)
  let ?fn = "dir @ ''/'' @ d_name e"
  define skip where "skip = (\<not> regular e \<or> content e = [] \<or> find_sub ''/README.txt'' ?fn \<noteq> None)"
  have step: "read_entries W dir (e # es) s =
    (if \<not> accessible e then Inl (Exit 1) else if skip then read_entries W dir es s else if MaxFile < length (content e) then Inl (Exit 1)
     else bindR (AddToQueue W ?fn (content e) None (det_done e) s) (\<lambda>(t, s). read_entries W dir es s))"
    by (simp only: read_entries.simps Let_def skip_def)
  have "\<not> skip \<Longrightarrow> content e \<noteq> []" by (auto simp: skip_def)
  then consider "\<not> accessible e" | "accessible e" "skip" | "accessible e" "\<not> skip" "MaxFile < length (content e)"
    | "accessible e" "\<not> skip" "fits (content e)"
    by (fastforce simp: fits_def)
  then show ?case
  proof cases
    case 2
    then show ?thesis using Cons.IH [OF Cons.prems] step by auto
  next
    case 4
    obtain s' where s': "AddToQueue W ?fn (content e) None (det_done e) s = Inr (length (case_queue s), s')" "young W s'"
      "length (case_queue s') = length (case_queue s) + 1"
      using AddToQueue_young [OF Cons.prems 4(3)] by blast
    have "read_entries W dir (e # es) s = read_entries W dir es s'"
      using 4 s'(1) step by (simp add: fits_def)
    then show ?thesis using Cons.IH [OF s'(2)] s'(3) by auto
  qed (use step in simp_all)
qed simp

text \<open>A queue that is not empty, and whose test cases have not been run.\<close>

definition seeded :: "World \<Rightarrow> AFLState \<Rightarrow> bool" where
  "seeded W s \<longleftrightarrow> afl_inv W s \<and> crash_mode s = FAULT_NONE \<and> (\<forall>k \<in> set (map exec_cksum (case_queue s)). k = 0)"

lemma young_seeded: "young W s \<Longrightarrow> queued_paths s \<noteq> 0 \<Longrightarrow> seeded W s"
  by (auto simp: young_def seeded_def afl_inv_def counts_ok_def u32_def)

lemma ReadTestcases_ok:
  assumes s: "young W s" and few: "\<And>nl. entries L = Some nl \<Longrightarrow> length nl < 2 ^ 31"
  shows "ReadTestcases W L s rs = Inl (Exit 1) \<or>
    (\<exists>nl s' rs'. entries L = Some nl \<and> ReadTestcases W L s rs = Inr (s', rs') \<and> seeded W s' \<and> length (case_queue s') \<le> length (case_queue s) + length nl)"
proof (cases "entries L")
  case (Some nl)
  have "length nl < 2 ^ 31" using few [OF Some] .
  then obtain nl' rs' where nl': "(if shuffle_queue L \<and> 1 < length nl then ShufflePtrs nl rs else Inr (nl, rs)) = Inr (nl', rs')" "mset nl' = mset nl"
    using ShufflePtrs_ok [of nl rs] by (cases "shuffle_queue L \<and> 1 < length nl") auto
  have "ReadTestcases W L s rs = bindR (read_entries W (in_dir L) nl' s) (\<lambda>s. if queued_paths s = 0 then Inl (Exit 1) else Inr (s, rs'))"
    using nl'(1) Some by (simp add: ReadTestcases_def)
  moreover have "length nl' = length nl" using mset_eq_length [OF nl'(2)] .
  ultimately show ?thesis
    using read_entries_ok [OF s, of "in_dir L" nl'] young_seeded Some by (elim disjE exE conjE) auto
qed (simp add: ReadTestcases_def)

section \<open>Names in the output directory\<close>

text \<open>What naming the test cases leaves alone.\<close>

definition quiet :: "AFLState \<Rightarrow> AFLState \<Rightarrow> bool" where
  "quiet s s' \<longleftrightarrow> inv_view s' = inv_view s \<and> map exec_cksum (case_queue s') = map exec_cksum (case_queue s) \<and> crash_mode s' = crash_mode s"

lemma quiet_refl: "quiet s s"
  by (simp add: quiet_def)

lemma quiet_trans: "quiet s s' \<Longrightarrow> quiet s' s'' \<Longrightarrow> quiet s s''"
  by (simp add: quiet_def)

lemma quiet_length: "quiet s s' \<Longrightarrow> length (case_queue s') = length (case_queue s)"
  unfolding quiet_def using inv_view_length by blast

lemma quiet_seeded: "quiet s s' \<Longrightarrow> seeded W s \<Longrightarrow> seeded W s'"
  using afl_inv_view [of s' s W] unfolding quiet_def seeded_def by metis

lemma map_upd_case: "g (f (case_queue s ! t)) = g (case_queue s ! t) \<Longrightarrow> map g (case_queue (upd_case t f s)) = map g (case_queue s)"
  by (simp add: upd_case_def map_update) (metis list_update_beyond list_update_id map_update not_le)

lemma quiet_upd_case:
  assumes "case_view (f (case_queue s ! t)) = case_view (case_queue s ! t)" and "exec_cksum (f (case_queue s ! t)) = exec_cksum (case_queue s ! t)"
  shows "quiet s (upd_case t f s)"
  using upd_case_view [of f s t, OF assms(1)] map_upd_case [of exec_cksum f s t, OF assms(2)] by (simp add: quiet_def) (simp add: upd_case_def)

lemma parent_depth_quiet: "quiet s (parent_depth t rsl s)"
proof -
  have "quiet s (upd_case t (\<lambda>tc. tc\<lparr>depth := d\<rparr>) s)" for d
    by (rule quiet_upd_case) (simp_all add: case_view_def)
  moreover have "quiet s' (s'\<lparr>max_depth := n\<rparr>)" for s' :: AFLState and n
    by (simp add: quiet_def inv_view_def)
  ultimately have "quiet s (upd_case t (\<lambda>tc. tc\<lparr>depth := d\<rparr>) s)" "quiet s (s\<lparr>max_depth := n\<rparr>)"
    "quiet s ((upd_case t (\<lambda>tc. tc\<lparr>depth := d\<rparr>) s)\<lparr>max_depth := n\<rparr>)" for d n
    using quiet_trans by blast+
  then show ?thesis
    using quiet_refl by (simp add: parent_depth_def Let_def split: option.split)
qed

text \<open>The first colon of a name that an earlier run has given is the one of its own number.\<close>

lemma find_sub_prefix: "find_sub '':'' (''id:'' @ cs) = Some 2"
proof -
  have "length (''id:'' @ cs) + 1 = length cs + 4" by simp
  then have "[0..<length (''id:'' @ cs) + 1] = [0, 1] @ 2 # [3..<length cs + 4]"
    using upt_conv_Cons [of 0 "length cs + 4"] upt_conv_Cons [of 1 "length cs + 4"] upt_conv_Cons [of 2 "length cs + 4"]
    by (simp only:) (simp del: upt_Suc add: numeral_3_eq_3 numeral_2_eq_2)
  then show ?thesis by (simp add: find_sub_def)
qed

lemma pivot_case_ok:
  assumes "world_ok W" and "t < length (case_queue s)"
  shows "\<exists>s'. pivot_case W L t s = Inr s' \<and> quiet s s'"
proof -
  define rsl where "rsl = file_name (in_path (input (case_queue s ! t)))"
  define s1 where "s1 = (if resumed (setting s) t rsl then parent_depth t rsl (s\<lparr>resuming_fuzz := True\<rparr>) else s)"
  define s2 where "s2 = upd_case t (\<lambda>tc. tc\<lparr>input := refer L (pivot_name (setting s) t rsl) (input tc)\<rparr>) s1"
  have "quiet s (s\<lparr>resuming_fuzz := True\<rparr>)" by (simp add: quiet_def inv_view_def)
  then have "quiet s s1"
    unfolding s1_def using parent_depth_quiet quiet_trans quiet_refl by auto
  moreover have "quiet s1 s2"
    unfolding s2_def by (rule quiet_upd_case) (simp_all add: case_view_def refer_def)
  moreover have "quiet s2 (upd_case t (\<lambda>tc. tc\<lparr>passed_det := True\<rparr>) s2)"
    by (rule quiet_upd_case) (simp_all add: case_view_def)
  moreover have "pivot_case W L t s = (if passed_det (case_queue s ! t) then Inr (upd_case t (\<lambda>tc. tc\<lparr>passed_det := True\<rparr>) s2) else Inr s2)"
    using assms(2) world_okD(7) [OF assms(1)]
    unfolding pivot_case_def MarkAsDetDone_def write_marker_def Let_def idx_vec_in [OF assms(2)] bindR_Inr
      rsl_def [symmetric] s1_def [symmetric] s2_def [symmetric] by simp
  ultimately show ?thesis using quiet_trans by (metis (full_types))
qed

lemma pivot_cases_ok:
  assumes "world_ok W"
  shows "\<forall>t \<in> set ts. t < length (case_queue s) \<Longrightarrow> \<exists>s'. pivot_cases W L ts s = Inr s' \<and> quiet s s'"
proof (induction ts arbitrary: s)
  case (Cons t ts)
  obtain s1 where s1: "pivot_case W L t s = Inr s1" "quiet s s1"
    using pivot_case_ok [OF assms, of t s L] Cons.prems by auto
  then show ?case
    using Cons.IH [of s1] Cons.prems quiet_length [OF s1(2)] quiet_trans by auto
qed (simp add: quiet_refl)

lemma PivotInputs_ok: "world_ok W \<Longrightarrow> \<exists>s'. PivotInputs W L s = Inr s' \<and> quiet s s'"
  unfolding PivotInputs_def by (rule pivot_cases_ok) simp_all

text \<open>
  When a run is resumed, the depth of a test case should become the depth of its parent plus one. The search for the
  parent's number finds the colon of \<open>id:\<close>, however, so that the number is the one of the test case itself: whatever its
  parent is, its depth grows by one.
\<close>

theorem resumed_case_is_its_own_parent:
  assumes "\<not> simple_files (setting s)" and "resumed (setting s) t rsl" and "t < length (case_queue s)"
  shows "depth (case_queue (parent_depth t rsl s) ! t) = depth (case_queue s ! t) + 1"
proof -
  have p: "take 3 rsl = ''id:''" and n: "scan_number (drop 3 rsl) = Some t"
    using assms(1,2) by (simp_all add: resumed_def case_prefix_def)
  have "rsl = ''id:'' @ drop 3 rsl" using append_take_drop_id [of 3 rsl] unfolding p by simp
  then have "find_sub '':'' rsl = Some 2" using find_sub_prefix by metis
  then show ?thesis
    using n assms(3) by (simp add: parent_depth_def Let_def upd_case_def)
qed

theorem resumed_case_is_its_own_parent_witness:
  "depth (case_queue (parent_depth 1 ''id:000001,src:000000,op:flip1'' demo_afl) ! 1) = depth (case_queue demo_afl ! 1) + 1"
proof -
  have "resumed (setting demo_afl) 1 ''id:000001,src:000000,op:flip1''"
    by (simp add: demo_afl_simps resumed_def case_prefix_def scan_number_def is_space_def digit_def Let_def)
  then show ?thesis
    using resumed_case_is_its_own_parent [of demo_afl 1] by (simp add: demo_afl_simps)
qed

section \<open>The dry run\<close>

text \<open>A calibration of the test case \<open>t\<close> leaves the checksums of the others alone.\<close>

definition calm :: "nat \<Rightarrow> AFLState \<Rightarrow> AFLState \<Rightarrow> bool" where
  "calm t s s' \<longleftrightarrow> crash_mode s' = crash_mode s \<and> setting s' = setting s \<and> (\<exists>k. map exec_cksum (case_queue s') = (map exec_cksum (case_queue s))[t := k])"

lemma calm_same: "crash_mode s' = crash_mode s \<Longrightarrow> setting s' = setting s \<Longrightarrow> map exec_cksum (case_queue s') = map exec_cksum (case_queue s) \<Longrightarrow> calm t s s'"
  unfolding calm_def by (metis list_update_id)

lemma calm_refl [simp]: "calm t s s"
  by (simp add: calm_same)

lemma calm_trans: "calm t s s' \<Longrightarrow> calm t s' s'' \<Longrightarrow> calm t s s''"
  by (auto simp: calm_def)

lemma calm_upd: "exec_cksum (f (case_queue s ! u)) = exec_cksum (case_queue s ! u) \<Longrightarrow> calm t s (upd_case u f s)"
  by (rule calm_same) (simp add: upd_case_def, simp add: upd_case_def, rule map_upd_case)

lemma calm_upd_own: "calm t s (upd_case t f s)"
  by (auto simp: calm_def upd_case_def map_update)

lemma calm_other:
  assumes "calm t s s'" and "u \<noteq> t" and "u < length (case_queue s)"
  shows "exec_cksum (case_queue s' ! u) = exec_cksum (case_queue s ! u)"
proof -
  obtain k where k: "map exec_cksum (case_queue s') = (map exec_cksum (case_queue s))[t := k]"
    using assms(1) by (auto simp: calm_def)
  then have "length (case_queue s') = length (case_queue s)" by (metis length_list_update length_map)
  then have "exec_cksum (case_queue s' ! u) = map exec_cksum (case_queue s') ! u" using assms(3) by simp
  then show ?thesis using k assms(2,3) by simp
qed

lemma Run_calm:
  assumes "RunExecutorWithClassifyCounts W buf tmout s = Inr (feed, ex, s')"
  shows "calm t s s' \<and> case_queue s' = case_queue s \<and> es_reason ex = r_reason (run W (total_execs s) buf tmout)"
  using assms by (auto simp: RunExecutorWithClassifyCounts_def Let_def bindR_eq_Inr intro!: calm_same)

lemma check_new_bits_calm:
  assumes "check_new_bits W m trace s = Inr (hnb, s')"
  shows "calm t s s' \<and> stop_soon s' = stop_soon s"
  using assms by (cases m) (auto simp: check_new_bits_def bindR_eq_Inr intro!: calm_same)

lemma win_byte_calm: "calm u s (win_byte W t trace i s)"
proof -
  have "calm u s (s\<lparr>top_rated := tops, score_changed := True\<rparr>)" for tops
    by (rule calm_same) simp_all
  moreover have "calm u s' (upd_case t (claim n trace) s')" for s' n
    by (rule calm_upd) (simp add: claim_def)
  ultimately show ?thesis unfolding win_byte_def using calm_trans by blast
qed

lemma score_loop_calm: "score_loop W t fav trace is s = Inr s' \<Longrightarrow> calm u s s' \<and> stop_soon s' = stop_soon s \<and> stats_ok s' = stats_ok s"
proof (induction "is" arbitrary: s)
  case (Cons i "is")
  have rel: "calm u s (upd_case v release s)" for v
    by (rule calm_upd) (simp add: release_def Let_def)
  have "stop_soon (win_byte W t trace i x) = stop_soon x" "stop_soon (upd_case v release s) = stop_soon s"
    "stats_ok (win_byte W t trace i x) = stats_ok x" "stats_ok (upd_case v release s) = stats_ok s" for x v
    by (simp_all add: win_byte_def upd_case_def stats_ok_def)
  moreover obtain x where "score_loop W t fav trace is x = Inr s'"
    "x = s \<or> x = win_byte W t trace i s \<or> (\<exists>v. x = win_byte W t trace i (upd_case v release s))"
    using Cons.prems by (auto simp: bindR_eq_Inr split: if_splits option.splits)
  ultimately show ?case
    using Cons.IH [of x] win_byte_calm [of u s W t trace i] win_byte_calm [of u _ W t trace i] rel calm_trans by metis
qed simp

text \<open>How the calibration loop ends: after all its rounds, or at a stop signal or a failure of the program under test.\<close>

definition executor_ok :: "World \<Rightarrow> bool" where
  "executor_ok W \<longleftrightarrow> (\<forall>n buf tmout. r_reason (run W n buf tmout) \<in> {FAULT_NONE, FAULT_TMOUT, FAULT_CRASH})"

definition ended :: "Cal \<Rightarrow> bool" where
  "ended c \<longleftrightarrow> (if c_abort c then stop_soon (c_state c) \<or> es_reason (c_exit c) \<notin> {FAULT_NONE, FAULT_NOBITS} else 0 < c_max c)"

lemma cal_compare_calm:
  assumes "cal_compare W t c = Inr c'"
  shows "calm t (c_state c) (c_state c') \<and> c_abort c' = c_abort c \<and> (0 < c_max c \<longrightarrow> 0 < c_max c')"
proof -
  obtain hnb s where s: "check_new_bits W VirginBits (c_feed c) (c_state c) = Inr (hnb, s)"
    using assms unfolding cal_compare_def bindR_eq_Inr by auto
  have c: "calm t (c_state c) s" using check_new_bits_calm [OF s] by blast
  moreover have "calm t s (upd_case t (\<lambda>tc. tc\<lparr>exec_cksum := k\<rparr>) s)" for k by (rule calm_upd_own)
  moreover have "calm t s (s\<lparr>var_bytes := v\<rparr>)" for v by (rule calm_same) simp_all
  ultimately have "calm t (c_state c) (upd_case t (\<lambda>tc. tc\<lparr>exec_cksum := k\<rparr>) s)" "calm t (c_state c) (s\<lparr>var_bytes := v\<rparr>)" for k v
    using calm_trans by blast+
  then show ?thesis
    using assms s c by (auto simp: cal_compare_def mark_var_bytes_def Let_def CalCyclesLong_def split: if_splits option.splits)
qed

lemma cal_step_calm:
  assumes "executor_ok W" and "cal_step W t buf tmout c = Inr c'" and "crash_mode (c_state c) = FAULT_NONE" and "0 < c_max c" and "\<not> c_abort c"
  shows "calm t (c_state c) (c_state c') \<and> ended c'"
proof -
  obtain feed ex s where run: "RunExecutorWithClassifyCounts W buf tmout (c_state c) = Inr (feed, ex, s)"
    using assms(2) unfolding cal_step_def bindR_eq_Inr by auto
  have s: "calm t (c_state c) s" "es_reason ex \<in> {FAULT_NONE, FAULT_TMOUT, FAULT_CRASH}"
    using Run_calm [OF run, of t] assms(1) unfolding executor_ok_def by simp_all
  have "crash_mode s = FAULT_NONE" using s(1) assms(3) by (simp add: calm_def)
  note s = s this
  have "calm t (c_state c) (c_state d) \<and> \<not> c_abort d \<and> 0 < c_max d"
    if "cal_compare W t (c\<lparr>c_state := s, c_feed := feed, c_exit := ex\<rparr>) = Inr d" for d
    using cal_compare_calm [OF that] calm_trans [OF s(1)] assms(4,5) by auto
  then show ?thesis
    using assms(2,4,5) s run by (auto simp: cal_step_def Let_def ended_def bindR_eq_Inr split: if_splits)
qed

lemma cal_loop_calm:
  "executor_ok W \<Longrightarrow> cal_loop W t buf tmout c = Inr c' \<Longrightarrow> crash_mode (c_state c) = FAULT_NONE \<Longrightarrow> 0 < c_max c \<Longrightarrow> \<not> c_abort c \<Longrightarrow>
    calm t (c_state c) (c_state c') \<and> ended c'"
proof (induction W t buf tmout c rule: cal_loop.induct)
  case (1 W t buf tmout c)
  show ?case
  proof (cases "c_cur c < c_max c")
    case False
    then show ?thesis using "1.prems" by (simp add: cal_loop.simps [of W t buf tmout c] ended_def)
  next
    case True
    then obtain d where d: "cal_step W t buf tmout c = Inr d"
      using "1.prems"(2) unfolding cal_loop.simps [of W t buf tmout c] by (auto simp: bindR_eq_Inr)
    have st: "calm t (c_state c) (c_state d)" "ended d"
      using cal_step_calm [OF "1.prems"(1) d "1.prems"(3-5)] by simp_all
    show ?thesis
    proof (cases "c_abort d")
      case abort: True
      then show ?thesis using "1.prems"(2) True d st by (simp add: cal_loop.simps [of W t buf tmout c])
    next
      case go: False
      have "crash_mode (c_state d) = FAULT_NONE" "0 < c_max d" "cal_loop W t buf tmout d = Inr c'"
        using st go "1.prems"(2,3) True d by (simp_all add: cal_loop.simps [of W t buf tmout c] calm_def ended_def)
      then show ?thesis
        using "1.IH" [OF True d go "1.prems"(1)] go calm_trans [OF st(1)] by blast
    qed
  qed
qed


lemma cal_complete_calm:
  assumes "cal_complete W t hc first_run us c = Inr c'" and "0 < c_max c"
  shows "calm t (c_state c) (c_state c') \<and> stop_soon (c_state c') = stop_soon (c_state c) \<and> stats_ok (c_state c')"
proof -
  define s1 where "s1 = upd_case t (\<lambda>tc. tc\<lparr>exec_us := u64_sub (clock_us W (total_execs (c_state c))) us div c_max c, bitmap_size := CountBytes (c_feed c),
      handicap := hc, cal_failed := 0\<rparr>) (c_state c)"
  define s2 where "s2 = s1\<lparr>total_cal_us := total_cal_us s1 + u64_sub (clock_us W (total_execs (c_state c))) us, total_cal_cycles := total_cal_cycles s1 + c_max c,
      total_bitmap_size := total_bitmap_size s1 + CountBytes (c_feed c), total_bitmap_entries := total_bitmap_entries s1 + 1\<rparr>"
  obtain s' where s': "UpdateBitmapScoreWithRawTrace W t (c_feed c) s2 = Inr s'" "c_state c' = s'"
    using assms(1) unfolding cal_complete_def Let_def s1_def [symmetric] s2_def [symmetric] bindR_eq_Inr by auto
  have "calm t s2 s' \<and> stop_soon s' = stop_soon s2 \<and> stats_ok s' = stats_ok s2"
    by (rule score_loop_calm [OF s'(1) [unfolded UpdateBitmapScoreWithRawTrace_def]])
  moreover have "calm t (c_state c) s1" unfolding s1_def by (rule calm_upd_own)
  moreover have "calm t s1 s2" unfolding s2_def by (rule calm_same) simp_all
  moreover have "stop_soon s2 = stop_soon (c_state c)" "stats_ok s2" using assms(2) by (simp_all add: s2_def s1_def upd_case_def stats_ok_def)
  ultimately show ?thesis using s'(2) calm_trans by blast
qed

lemma cal_finish_calm:
  assumes "cal_finish W t c = Inr s'"
  shows "calm t (c_state c) s' \<and> stop_soon s' = stop_soon (c_state c) \<and> stats_ok s' = stats_ok (c_state c)"
proof -
  define s1 where "s1 = (if c_new_bits c = 2 \<and> \<not> has_new_cov (case_queue (c_state c) ! t)
      then upd_case t (\<lambda>tc. tc\<lparr>has_new_cov := True\<rparr>) ((c_state c)\<lparr>queued_with_cov := u32 (queued_with_cov (c_state c) + 1)\<rparr>) else c_state c)"
  define s2 where "s2 = s1\<lparr>var_byte_count := CountBytes (var_bytes s1)\<rparr>"
  define s3 where "s3 = upd_case t (\<lambda>tc. tc\<lparr>var_behavior := True\<rparr>) s2"
  have s1: "calm t (c_state c) s1" "stop_soon s1 = stop_soon (c_state c)" "stats_ok s1 = stats_ok (c_state c)"
    unfolding s1_def using calm_trans [OF calm_same calm_upd_own, of "(c_state c)\<lparr>queued_with_cov := n\<rparr>" "c_state c" for n]
    by (auto simp: upd_case_def stats_ok_def)
  have s2: "calm t s1 s2" "stop_soon s2 = stop_soon s1" "stats_ok s2 = stats_ok s1"
    by (simp_all add: s2_def calm_same stats_ok_def)
  have s3: "calm t s2 (s3\<lparr>queued_variable := n\<rparr>)" "stop_soon s3 = stop_soon s2" "stats_ok s3 = stats_ok s2" for n
    unfolding s3_def using calm_trans [OF calm_upd_own calm_same] by (auto simp: upd_case_def stats_ok_def)
  have "s' = s1 \<or> s' = s2 \<or> s' = s3\<lparr>queued_variable := u32 (queued_variable s3 + 1)\<rparr>"
    using assms unfolding cal_finish_def MarkAsVariable_def Let_def s1_def [symmetric] s2_def [symmetric] s3_def [symmetric]
    by (auto simp: bindR_eq_Inr split: if_splits)
  moreover have "calm t (c_state c) s2" "calm t (c_state c) (s3\<lparr>queued_variable := n\<rparr>)" for n
    using s1(1) s2(1) s3(1) calm_trans by blast+
  moreover have "stats_ok (s3\<lparr>queued_variable := n\<rparr>) = stats_ok s3" for n by (simp add: stats_ok_def)
  ultimately show ?thesis using s1 s2 s3 by auto
qed

lemma Calibrate_calm:
  assumes W: "executor_ok W" and cal: "CalibrateCaseWithFeedDestroyed W t buf feed ex hc from_queue s = Inr (feed', ex', s')"
    and s: "crash_mode s = FAULT_NONE" "exec_cksum (case_queue s ! t) = 0" "t < length (case_queue s)"
  shows "calm t s s' \<and> (\<not> stop_soon s' \<and> es_reason ex' \<in> {FAULT_NONE, FAULT_NOBITS} \<longrightarrow> stats_ok s')"
proof -
  obtain c us first c1 c2 where c: "cal_start W t feed ex s = Inr c" and c1: "cal_loop W t buf (cal_timeout from_queue s) c = Inr c1"
    and c2: "(if c_abort c1 then Inr c1 else cal_complete W t hc first us c1) = Inr c2" and fin: "cal_finish W t c2 = Inr s'" "c_exit c2 = ex'"
    using cal unfolding CalibrateCaseWithFeedDestroyed_def by (auto simp: bindR_eq_Inr Let_def)
  have c0: "calm t s (c_state c)" "0 < c_max c" "\<not> c_abort c"
    using c s(2,3) calm_upd_own by (auto simp: cal_start_def Let_def upd_case_def CalCycles_def calm_def map_update split: if_splits)
  have l: "calm t (c_state c) (c_state c1)" "ended c1"
    using cal_loop_calm [OF W c1 _ c0(2,3)] c0(1) s(1) by (simp_all add: calm_def)
  have f: "calm t (c_state c2) s'" "stop_soon s' = stop_soon (c_state c2)" "stats_ok s' = stats_ok (c_state c2)"
    using cal_finish_calm [OF fin(1)] by simp_all
  show ?thesis
  proof (cases "c_abort c1")
    case True
    then have "c2 = c1" using c2 by simp
    moreover have "calm t s (c_state c1)" using c0(1) l(1) by (rule calm_trans)
    ultimately show ?thesis using True l(2) f fin(2) calm_trans by (simp add: ended_def) blast
  next
    case False
    then have "calm t (c_state c1) (c_state c2)" "stats_ok (c_state c2)"
      using c2 l(2) cal_complete_calm by (auto simp: ended_def)
    then show ?thesis using l(1) f c0(1) calm_trans by blast
  qed
qed

text \<open>The test cases before the present one are done; the others have not been run.\<close>

definition dry_inv :: "World \<Rightarrow> nat list \<Rightarrow> nat \<Rightarrow> AFLState \<Rightarrow> bool" where
  "dry_inv W ts failures s \<longleftrightarrow> afl_inv W s \<and> crash_mode s = FAULT_NONE \<and> distinct ts \<and> length (case_queue s) < 2 ^ 32 \<and>
     (\<forall>t \<in> set ts. t < length (case_queue s) \<and> exec_cksum (case_queue s ! t) = 0) \<and>
     (stats_ok s \<or> failures + length ts = length (case_queue s))"

lemma dry_verdict_ok:
  assumes "dry_verdict L FAULT_NONE res = Inr skip" and "res \<noteq> FAULT_ERROR"
  shows "skip \<or> res \<in> {FAULT_NONE, FAULT_NOBITS}"
  using assms by (cases res) (auto simp: dry_verdict_def split: if_splits)

lemma dry_verdict_exit: "dry_verdict L mode res = Inl e \<Longrightarrow> e = Exit 1"
  by (cases res) (auto simp: dry_verdict_def split: if_splits)

lemma calm_length: "calm t s s' \<Longrightarrow> length (case_queue s') = length (case_queue s)"
  unfolding calm_def by (metis length_list_update length_map)

lemma load_case_calm:
  assumes "load_case W t s = Inr s'"
  shows "calm t s s' \<and> exec_cksum (case_queue s' ! t) = exec_cksum (case_queue s ! t) \<and> stats_ok s' = stats_ok s"
proof -
  obtain inp where s': "s' = upd_case t (\<lambda>tc. tc\<lparr>input := inp\<rparr>) s" "t < length (case_queue s)"
    using assms by (auto simp: load_case_def bindR_eq_Inr idx_vec_def split: if_splits)
  then show ?thesis using calm_upd_own by (simp add: stats_ok_def) (simp add: upd_case_def)
qed

lemma dry_inv_next:
  assumes "dry_inv W (t # ts) failures s" and "calm t s s'" and "afl_inv W s'" and "stats_ok s' \<or> failures' + length ts = length (case_queue s')"
  shows "dry_inv W ts failures' s'"
proof -
  have len: "length (case_queue s') = length (case_queue s)" using calm_length [OF assms(2)] .
  moreover have "exec_cksum (case_queue s' ! u) = 0" if "u \<in> set ts" for u
    using that assms(1) calm_other [OF assms(2), of u] by (auto simp: dry_inv_def)
  moreover have "crash_mode s' = FAULT_NONE" using assms(1,2) by (simp add: dry_inv_def calm_def)
  ultimately show ?thesis
    using assms(1,3,4) by (auto simp: dry_inv_def)
qed

text \<open>One round of the dry run up to the verdict.\<close>

lemma dry_round:
  assumes W: "world_ok W" "executor_ok W" and i: "dry_inv W (t # ts) failures s"
  obtains s1 buf feed ex s2 where "load_case W t s = Inr s1" "GetInput (input (case_queue s1 ! t)) = Inr buf"
    "CalibrateCaseWithFeedDestroyed W t buf [] \<lparr>es_reason = FAULT_NONE, es_signal = 0\<rparr> 0 True s1 = Inr (feed, ex, s2)"
    "calm t s s2" "afl_inv W s2" "stats_ok s \<longrightarrow> stats_ok s2" "es_reason ex \<noteq> FAULT_ERROR"
    "\<not> stop_soon s2 \<and> es_reason ex \<in> {FAULT_NONE, FAULT_NOBITS} \<longrightarrow> stats_ok s2"
proof -
  have inv: "afl_inv W s" and t: "t < length (case_queue s)" and ck: "exec_cksum (case_queue s ! t) = 0" and mode: "crash_mode s = FAULT_NONE"
    using i by (simp_all add: dry_inv_def)
  obtain s1 where s1: "load_case W t s = Inr s1" "afl_inv W s1" "t < length (case_queue s1)" "loaded (input (case_queue s1 ! t))"
    using load_case_ok [OF W(1) inv t] by blast
  have l: "calm t s s1" "exec_cksum (case_queue s1 ! t) = 0" "stats_ok s1 = stats_ok s" "crash_mode s1 = FAULT_NONE"
    using load_case_calm [OF s1(1)] ck mode by (simp_all add: calm_def)
  let ?buf = "in_disk (input (case_queue s1 ! t))" and ?ex = "\<lparr>es_reason = FAULT_NONE, es_signal = 0\<rparr>"
  obtain feed ex s2 where s2: "CalibrateCaseWithFeedDestroyed W t ?buf [] ?ex 0 True s1 = Inr (feed, ex, s2)" "steady W s1 s2" "es_reason ex \<noteq> FAULT_ERROR"
    using Calibrate_ok [OF W(1) s1(2,3), of "[]" ?buf ?ex 0 True] l(2) by auto
  have c: "calm t s1 s2" "\<not> stop_soon s2 \<and> es_reason ex \<in> {FAULT_NONE, FAULT_NOBITS} \<longrightarrow> stats_ok s2"
    using Calibrate_calm [OF W(2) s2(1) l(4,2) s1(3)] by simp_all
  show ?thesis
  proof (rule that [OF s1(1) GetInput_loaded [OF s1(4)] s2(1) calm_trans [OF l(1) c(1)] steady_inv [OF s2(2) s1(2)] _ s2(3) c(2)])
    show "stats_ok s \<longrightarrow> stats_ok s2" using l(3) s2(2) pace_stats by (auto simp: steady_def)
  qed
qed

lemma dry_upd:
  assumes "calm t s s'" and "afl_inv W s'" and "case_view (f (case_queue s' ! t)) = case_view (case_queue s' ! t)"
  shows "calm t s (upd_case t f s')" "afl_inv W (upd_case t f s')" "stats_ok (upd_case t f s') = stats_ok s'" "stop_soon (upd_case t f s') = stop_soon s'"
    "crash_mode (upd_case t f s') = crash_mode s'" "length (case_queue (upd_case t f s')) = length (case_queue s')"
  using calm_trans [OF assms(1) calm_upd_own] afl_inv_view [OF upd_case_view [of f s' t, OF assms(3)] assms(2)]
  by (simp_all add: stats_ok_def) (simp_all add: upd_case_def)

lemma dry_run_ok:
  assumes W: "world_ok W" "executor_ok W"
  shows "dry_inv W ts failures s \<Longrightarrow> dry_run W L ts failures s = Inl (Exit 1) \<or>
    (\<exists>stopped failures' s'. dry_run W L ts failures s = Inr (stopped, failures', s') \<and> afl_inv W s' \<and> length (case_queue s') = length (case_queue s) \<and>
       (if stopped then stop_soon s' else stats_ok s' \<or> failures' = length (case_queue s')))"
proof (induction ts arbitrary: failures s)
  case (Cons t ts)
  obtain s1 buf feed ex s2 where r: "load_case W t s = Inr s1" "GetInput (input (case_queue s1 ! t)) = Inr buf"
    "CalibrateCaseWithFeedDestroyed W t buf [] \<lparr>es_reason = FAULT_NONE, es_signal = 0\<rparr> 0 True s1 = Inr (feed, ex, s2)"
    "calm t s s2" "afl_inv W s2" "stats_ok s \<longrightarrow> stats_ok s2" "es_reason ex \<noteq> FAULT_ERROR"
    "\<not> stop_soon s2 \<and> es_reason ex \<in> {FAULT_NONE, FAULT_NOBITS} \<longrightarrow> stats_ok s2"
    using dry_round [OF W Cons.prems] .
  define s3 where "s3 = upd_case t (\<lambda>tc. tc\<lparr>input := Unload (input tc)\<rparr>) s2"
  define s4 where "s4 = upd_case t (\<lambda>tc. tc\<lparr>cal_failed := CalChances\<rparr>) s3"
  have s3: "calm t s s3" "afl_inv W s3" "stats_ok s3 = stats_ok s2" "stop_soon s3 = stop_soon s2" "crash_mode s3 = FAULT_NONE"
    "length (case_queue s3) = length (case_queue s)"
    unfolding s3_def using dry_upd [OF r(4,5), of "\<lambda>tc. tc\<lparr>input := Unload (input tc)\<rparr>"] Cons.prems r(4) calm_length [OF r(4)]
    by (simp_all add: case_view_def Unload_def dry_inv_def calm_def)
  have s4: "calm t s s4" "afl_inv W s4" "stats_ok s4 = stats_ok s3" "length (case_queue s4) = length (case_queue s)"
    unfolding s4_def using dry_upd [OF s3(1,2), of "\<lambda>tc. tc\<lparr>cal_failed := CalChances\<rparr>"] s3(6) by (simp_all add: case_view_def)
  have step: "dry_run W L (t # ts) failures s = (if stop_soon s3 then Inr (True, failures, s3)
      else bindR (dry_verdict L FAULT_NONE (es_reason ex)) (\<lambda>skip. if skip then dry_run W L ts (u32 (failures + 1)) s4 else dry_run W L ts failures s3))"
    unfolding dry_run.simps r(1-3) bindR_Inr prod.case Let_def s4_def s3_def [symmetric] s3(5) ..
  consider "stop_soon s3" | "\<not> stop_soon s3" "dry_verdict L FAULT_NONE (es_reason ex) = Inl (Exit 1)"
    | "\<not> stop_soon s3" "dry_verdict L FAULT_NONE (es_reason ex) = Inr True" | "\<not> stop_soon s3" "dry_verdict L FAULT_NONE (es_reason ex) = Inr False"
    using dry_verdict_exit by (metis (full_types) old.sum.exhaust)
  then show ?case
  proof cases
    case 1
    have "dry_run W L (t # ts) failures s = Inr (True, failures, s3)" unfolding step using 1 by simp
    then show ?thesis using 1 s3(2,6) by auto
  next
    case 3
    have "dry_inv W ts (u32 (failures + 1)) s4"
      by (rule dry_inv_next [OF Cons.prems s4(1,2)]) (use Cons.prems r(6) s3 s4 in \<open>auto simp: dry_inv_def\<close>)
    then show ?thesis using Cons.IH [of "u32 (failures + 1)" s4] step 3 s4(4) by simp
  next
    case 4
    then have "stats_ok s3" using dry_verdict_ok [OF 4(2) r(7)] r(8) s3(3,4) by auto
    then have "dry_inv W ts failures s3"
      using dry_inv_next [OF Cons.prems s3(1,2)] by blast
    then show ?thesis using Cons.IH [of failures s3] step 4 s3(6) by simp
  qed (simp add: step del: dry_run.simps)
qed (auto simp: dry_inv_def)

lemma PerformDryRun_ok:
  assumes W: "world_ok W" "executor_ok W" and s: "seeded W s" and len: "length (case_queue s) < 2 ^ 32"
  shows "PerformDryRun W L s = Inl (Exit 1) \<or> (\<exists>s'. PerformDryRun W L s = Inr s' \<and> afl_inv W s' \<and> (stop_soon s' \<or> stats_ok s'))"
proof -
  have "dry_inv W [0..<length (case_queue s)] 0 s"
    using s len by (auto simp: seeded_def dry_inv_def)
  then consider "dry_run W L [0..<length (case_queue s)] 0 s = Inl (Exit 1)"
    | stopped failures s' where "dry_run W L [0..<length (case_queue s)] 0 s = Inr (stopped, failures, s')" "afl_inv W s'"
        "length (case_queue s') = length (case_queue s)" "if stopped then stop_soon s' else stats_ok s' \<or> failures = length (case_queue s')"
    using dry_run_ok [OF W, of _ 0 s L] by blast
  then show ?thesis
  proof cases
    case (2 stopped failures s')
    have "queued_paths s' = length (case_queue s')" "0 < length (case_queue s')"
      using 2(2,3) len by (auto simp: afl_inv_def counts_ok_def u32_def)
    then show ?thesis using 2 by (auto simp: PerformDryRun_def split: if_splits)
  qed (simp add: PerformDryRun_def)
qed

section \<open>A whole campaign\<close>

lemma AFLFuzzer_start_ok:
  assumes W: "world_ok W" "executor_ok W" and few: "\<And>nl. entries L = Some nl \<Longrightarrow> length nl < 2 ^ 31"
  shows "AFLFuzzer_start W L (AFLState_new W st) rs = Inl (Exit 1) \<or>
    (\<exists>s rs'. AFLFuzzer_start W L (AFLState_new W st) rs = Inr (s, rs') \<and> afl_inv W s \<and> (stop_soon s \<or> stats_ok s))"
proof -
  consider "ReadTestcases W L (AFLState_new W st) rs = Inl (Exit 1)"
    | nl s1 rs1 where "entries L = Some nl" "ReadTestcases W L (AFLState_new W st) rs = Inr (s1, rs1)" "seeded W s1" "length (case_queue s1) \<le> length nl"
    using ReadTestcases_ok [of W "AFLState_new W st" L rs, OF AFLState_new_young few] by (auto simp: AFLState_new_def)
  then show ?thesis
  proof cases
    case (2 nl s1 rs1)
    obtain s2 where s2: "PivotInputs W L s1 = Inr s2" "quiet s1 s2"
      using PivotInputs_ok [OF W(1)] by blast
    have "seeded W s2" "length (case_queue s2) < 2 ^ 32"
      using quiet_seeded [OF s2(2) 2(3)] quiet_length [OF s2(2)] 2(4) few [OF 2(1)] by simp_all
    then show ?thesis
      using PerformDryRun_ok [OF W, of s2 L] 2(2) s2(1) unfolding AFLFuzzer_start_def by auto
  qed (simp add: AFLFuzzer_start_def)
qed

text \<open>
  C2. A campaign of AFL, from the input directory through any number of rounds: the fuzzer ends with an error message before
  the first round, or every round returns, without an exception and without undefined behaviour, and the invariant of the
  state holds at the end. In particular the performance score never divides by zero, because a dry run that is not interrupted
  and lets the fuzzer go on has calibrated a test case.
\<close>

theorem campaign_safe:
  assumes "world_ok W" and "executor_ok W" and "sorts_ok S" and "dict_ok ex" and "\<And>nl. entries L = Some nl \<Longrightarrow> length nl < 2 ^ 31"
  shows "AFLFuzzer_start W L (AFLState_new W st) rs = Inl (Exit 1) \<and> campaign W S L st ex n rs = Inl (Exit 1) \<or>
    (\<exists>z. campaign W S L st ex n rs = Inr z \<and> afl_inv W (afl z) \<and> (stop_soon (afl z) \<or> stats_ok (afl z)) \<and> auto_ok (a_extras z) \<and> extras z = ex)"
proof -
  consider "AFLFuzzer_start W L (AFLState_new W st) rs = Inl (Exit 1)"
    | s rs' where "AFLFuzzer_start W L (AFLState_new W st) rs = Inr (s, rs')" "afl_inv W s" "stop_soon s \<or> stats_ok s"
    using AFLFuzzer_start_ok [OF assms(1,2,5)] by blast
  then show ?thesis
  proof cases
    case (2 s rs')
    let ?z = "Stages_new s ex rs'"
    have z: "afl ?z = s" "extras ?z = ex" "auto_ok (a_extras ?z)" "0 < havoc_div ?z"
      by (simp_all add: Stages_new_def auto_ok_def)
    have run: "campaign W S L st ex n rs = fuzz_rounds W S n ?z"
      using 2(1) by (simp add: campaign_def)
    show ?thesis
    proof (cases "stop_soon s")
      case True
      then have "fuzz_rounds W S n ?z = Inr ?z" using z(1) by (cases n) (simp_all add: ShouldEnd_def)
      then show ?thesis using run z 2(2) True by auto
    next
      case False
      then have "loop_inv W ex ?z" using 2 z assms(1,4) by (simp add: loop_inv_def)
      then show ?thesis
        using fuzz_rounds_ok [OF assms(3), of W ex ?z n] run by (auto simp: loop_inv_def)
    qed
  qed (simp add: campaign_def)
qed

section \<open>A start that succeeds\<close>

text \<open>A program under test that neither crashes nor hangs and is instrumented, and no stop signal.\<close>

definition friendly :: "World \<Rightarrow> AFLSetting \<Rightarrow> bool" where
  "friendly W st \<longleftrightarrow> (\<forall>n buf tmout. r_reason (run W n buf tmout) = FAULT_NONE \<and> \<not> interrupted W n \<and>
     (dumb_mode st \<or> (\<exists>b \<in> set (r_trace (run W n buf tmout)). b \<noteq> 0)))"

lemma friendly_executor: "friendly W st \<Longrightarrow> executor_ok W"
  by (simp add: friendly_def executor_ok_def)

definition clean :: "Cal \<Rightarrow> bool" where
  "clean c \<longleftrightarrow> \<not> c_abort c \<and> es_reason (c_exit c) = FAULT_NONE \<and> \<not> stop_soon (c_state c) \<and> crash_mode (c_state c) = FAULT_NONE"

lemma CountBytes_classified: "\<exists>b \<in> set trace. b \<noteq> 0 \<Longrightarrow> CountBytes (map count_class trace) \<noteq> 0"
  by (auto simp: CountBytes_filter filter_empty_conv count_class_def)

lemma cal_compare_clean:
  assumes "cal_compare W t c = Inr c'" and "clean c"
  shows "clean c'"
proof -
  obtain hnb s where s: "check_new_bits W VirginBits (c_feed c) (c_state c) = Inr (hnb, s)"
    using assms(1) unfolding cal_compare_def bindR_eq_Inr by auto
  have "\<not> stop_soon s" "crash_mode s = FAULT_NONE"
    using check_new_bits_calm [OF s, of t] assms(2) by (simp_all add: clean_def calm_def)
  then show ?thesis
    using assms s by (auto simp: cal_compare_def mark_var_bytes_def Let_def clean_def upd_case_def split: if_splits option.splits)
qed

lemma cal_step_clean:
  assumes W: "world_ok W" "friendly W (setting (c_state c))" and step: "cal_step W t buf tmout c = Inr c'"
    and c: "\<not> c_abort c" "\<not> stop_soon (c_state c)" "crash_mode (c_state c) = FAULT_NONE"
  shows "clean c' \<and> setting (c_state c') = setting (c_state c)"
proof -
  let ?r = "run W (total_execs (c_state c)) buf tmout"
  define s where "s = (c_state c)\<lparr>total_execs := total_execs (c_state c) + 1, stop_soon := False\<rparr>"
  define d where "d = c\<lparr>c_state := s, c_feed := map count_class (r_trace ?r), c_exit := \<lparr>es_reason = FAULT_NONE, es_signal = r_signal ?r\<rparr>\<rparr>"
  have "ClassifyCounts (word_width W) (r_trace ?r) (map_size W) = Inr (map count_class (r_trace ?r))"
    using coverage_passes [of "word_width W" "map_size W" "r_trace ?r"] world_okD [OF W(1)] by simp
  then have run: "RunExecutorWithClassifyCounts W buf tmout (c_state c) = Inr (c_feed d, c_exit d, s)"
    using W(2) c(2) by (simp add: RunExecutorWithClassifyCounts_def Let_def friendly_def s_def d_def)
  have "dumb_mode (setting (c_state c)) \<or> (\<exists>b \<in> set (r_trace ?r). b \<noteq> 0)"
    using W(2) unfolding friendly_def by blast
  then have nonzero: "dumb_mode (setting s) \<or> CountBytes (c_feed d) \<noteq> 0"
    unfolding d_def s_def by (rule disj_forward) (simp_all add: CountBytes_classified)
  have d: "clean d" "setting s = setting (c_state c)" "\<not> stop_soon s" "crash_mode s = FAULT_NONE" "es_reason (c_exit d) = FAULT_NONE"
    using c by (simp_all add: d_def s_def clean_def)
  have dd: "c\<lparr>c_state := s, c_feed := c_feed d, c_exit := c_exit d\<rparr> = d" by (simp add: d_def)
  have eq: "cal_step W t buf tmout c =
      bindR (if exec_cksum (case_queue s ! t) \<noteq> CalcCksum32 (c_feed d) then cal_compare W t d else Inr d) (\<lambda>c. Inr (c\<lparr>c_cur := c_cur c + 1\<rparr>))"
    unfolding cal_step_def run bindR_Inr prod.case Let_def dd using nonzero d(3-5) by auto
  obtain e where e: "(if exec_cksum (case_queue s ! t) \<noteq> CalcCksum32 (c_feed d) then cal_compare W t d else Inr d) = Inr e"
    "c' = e\<lparr>c_cur := c_cur e + 1\<rparr>"
    using step unfolding eq bindR_eq_Inr by auto
  have "clean e" "setting (c_state e) = setting (c_state d)"
    using e(1) d(1) cal_compare_clean [of W t d e] cal_compare_calm [of W t d e] by (auto simp: calm_def split: if_splits)
  then show ?thesis using e(2) d(2) by (simp add: clean_def d_def)
qed

lemma cal_loop_clean:
  "world_ok W \<Longrightarrow> friendly W (setting (c_state c)) \<Longrightarrow> cal_loop W t buf tmout c = Inr c' \<Longrightarrow> c_cur c < c_max c \<or> clean c \<Longrightarrow>
    \<not> c_abort c \<Longrightarrow> \<not> stop_soon (c_state c) \<Longrightarrow> crash_mode (c_state c) = FAULT_NONE \<Longrightarrow> clean c'"
proof (induction W t buf tmout c rule: cal_loop.induct)
  case (1 W t buf tmout c)
  show ?case
  proof (cases "c_cur c < c_max c")
    case False
    then show ?thesis using "1.prems" by (simp add: cal_loop.simps [of W t buf tmout c])
  next
    case True
    then obtain d where d: "cal_step W t buf tmout c = Inr d"
      using "1.prems"(3) unfolding cal_loop.simps [of W t buf tmout c] by (auto simp: bindR_eq_Inr)
    have cl: "clean d" "setting (c_state d) = setting (c_state c)"
      using cal_step_clean [OF "1.prems"(1,2) d "1.prems"(5-7)] by simp_all
    then have go: "\<not> c_abort d" "\<not> stop_soon (c_state d)" "crash_mode (c_state d) = FAULT_NONE" by (simp_all add: clean_def)
    have "cal_loop W t buf tmout d = Inr c'"
      using "1.prems"(3) True d go(1) by (simp add: cal_loop.simps [of W t buf tmout c])
    then show ?thesis
      using "1.IH" [OF True d go(1) "1.prems"(1)] "1.prems"(2) cl go by simp
  qed
qed

lemma Calibrate_clean:
  assumes W: "world_ok W" "friendly W (setting s)" and cal: "CalibrateCaseWithFeedDestroyed W t buf feed ex hc from_queue s = Inr (feed', ex', s')"
    and s: "crash_mode s = FAULT_NONE" "exec_cksum (case_queue s ! t) = 0" "t < length (case_queue s)" "\<not> stop_soon s"
  shows "\<not> stop_soon s' \<and> es_reason ex' \<in> {FAULT_NONE, FAULT_NOBITS}"
proof -
  obtain c us first c1 c2 where c: "cal_start W t feed ex s = Inr c" and c1: "cal_loop W t buf (cal_timeout from_queue s) c = Inr c1"
    and c2: "(if c_abort c1 then Inr c1 else cal_complete W t hc first us c1) = Inr c2" and fin: "cal_finish W t c2 = Inr s'" "c_exit c2 = ex'"
    using cal unfolding CalibrateCaseWithFeedDestroyed_def by (auto simp: bindR_eq_Inr Let_def)
  have c0: "c_cur c < c_max c" "\<not> c_abort c" "\<not> stop_soon (c_state c)" "crash_mode (c_state c) = FAULT_NONE" "setting (c_state c) = setting s" "0 < c_max c"
    using c s by (auto simp: cal_start_def Let_def upd_case_def CalCycles_def split: if_splits)
  have cl: "clean c1"
    using cal_loop_clean [OF W(1) _ c1 _ c0(2-4)] W(2) c0(1,5) by simp
  have "ended c1"
    using cal_loop_calm [OF friendly_executor [OF W(2)] c1 c0(4,6,2)] by simp
  then have comp: "cal_complete W t hc first us c1 = Inr c2" and "0 < c_max c1"
    using c2 cl by (simp_all add: clean_def ended_def)
  then have "\<not> stop_soon (c_state c2)"
    using cal_complete_calm [OF comp] cl by (simp add: clean_def)
  moreover have "es_reason (c_exit c2) \<in> {FAULT_NONE, FAULT_NOBITS}"
    using comp cl by (auto simp: cal_complete_def Let_def bindR_eq_Inr clean_def split: if_splits)
  ultimately show ?thesis
    using cal_finish_calm [OF fin(1)] fin(2) by simp
qed

lemma dry_run_succeeds:
  assumes W: "world_ok W" "friendly W st"
  shows "dry_inv W ts failures s \<Longrightarrow> \<not> stop_soon s \<Longrightarrow> setting s = st \<Longrightarrow> ts \<noteq> [] \<or> stats_ok s \<Longrightarrow>
    \<exists>s'. dry_run W L ts failures s = Inr (False, failures, s') \<and> afl_inv W s' \<and> length (case_queue s') = length (case_queue s) \<and>
      \<not> stop_soon s' \<and> stats_ok s'"
proof (induction ts arbitrary: s)
  case (Cons t ts)
  obtain s1 buf feed ex s2 where r: "load_case W t s = Inr s1" "GetInput (input (case_queue s1 ! t)) = Inr buf"
    "CalibrateCaseWithFeedDestroyed W t buf [] \<lparr>es_reason = FAULT_NONE, es_signal = 0\<rparr> 0 True s1 = Inr (feed, ex, s2)"
    "calm t s s2" "afl_inv W s2" "stats_ok s \<longrightarrow> stats_ok s2" "es_reason ex \<noteq> FAULT_ERROR"
    "\<not> stop_soon s2 \<and> es_reason ex \<in> {FAULT_NONE, FAULT_NOBITS} \<longrightarrow> stats_ok s2"
    using dry_round [OF W(1) friendly_executor [OF W(2)] Cons.prems(1)] .
  have l: "calm t s s1" "exec_cksum (case_queue s1 ! t) = 0" "t < length (case_queue s1)" "\<not> stop_soon s1"
    using load_case_calm [OF r(1)] calm_length [of t s s1] Cons.prems(1,2) r(1)
    by (auto simp: dry_inv_def load_case_def bindR_eq_Inr upd_case_def)
  have "crash_mode s1 = FAULT_NONE" "friendly W (setting s1)"
    using l(1) Cons.prems(1,3) W(2) by (simp_all add: calm_def dry_inv_def)
  then have c: "\<not> stop_soon s2" "es_reason ex \<in> {FAULT_NONE, FAULT_NOBITS}" "stats_ok s2"
    using Calibrate_clean [OF W(1) _ r(3) _ l(2-4)] r(8) by simp_all
  define s3 where "s3 = upd_case t (\<lambda>tc. tc\<lparr>input := Unload (input tc)\<rparr>) s2"
  have s3: "calm t s s3" "afl_inv W s3" "stats_ok s3" "\<not> stop_soon s3" "crash_mode s3 = FAULT_NONE" "length (case_queue s3) = length (case_queue s)" "setting s3 = st"
    unfolding s3_def using dry_upd [OF r(4,5), of "\<lambda>tc. tc\<lparr>input := Unload (input tc)\<rparr>"] c(1,3) Cons.prems r(4) calm_length [OF r(4)]
    by (simp_all add: case_view_def Unload_def dry_inv_def calm_def)
  have "dry_verdict L FAULT_NONE (es_reason ex) = Inr False"
    using c(2) by (auto simp: dry_verdict_def)
  then have "dry_run W L (t # ts) failures s = dry_run W L ts failures s3"
    unfolding dry_run.simps r(1-3) bindR_Inr prod.case Let_def s3_def [symmetric] s3(5) using s3(4) by simp
  moreover have "dry_inv W ts failures s3"
    using dry_inv_next [OF Cons.prems(1) s3(1,2)] s3(3) by blast
  ultimately show ?case
    using Cons.IH [of s3] s3 by simp
qed (simp add: dry_inv_def)

text \<open>The entries of the input directory that become test cases.\<close>

definition usable :: "string \<Rightarrow> DirEntry \<Rightarrow> bool" where
  "usable dir e \<longleftrightarrow> regular e \<and> content e \<noteq> [] \<and> find_sub ''/README.txt'' (dir @ ''/'' @ d_name e) = None"

lemma read_entries_succeeds:
  assumes "young W s" and "\<forall>e \<in> set es. accessible e \<and> (usable dir e \<longrightarrow> length (content e) \<le> MaxFile)"
  shows "\<exists>s'. read_entries W dir es s = Inr s' \<and> young W s' \<and> length (case_queue s') = length (case_queue s) + length (filter (usable dir) es) \<and>
    stop_soon s' = stop_soon s \<and> setting s' = setting s"
  using assms
proof (induction es arbitrary: s)
  case (Cons e es)
  have step: "read_entries W dir (e # es) s = (if \<not> usable dir e then read_entries W dir es s
     else bindR (AddToQueue W (dir @ ''/'' @ d_name e) (content e) None (det_done e) s) (\<lambda>(t, s). read_entries W dir es s))"
    using Cons.prems(2) by (auto simp: Let_def usable_def)
  show ?case
  proof (cases "usable dir e")
    case False
    then show ?thesis using Cons.IH [of s] Cons.prems step by simp
  next
    case True
    have "fits (content e)" using True Cons.prems(2) by (simp add: usable_def fits_def)
    then obtain s' where s': "AddToQueue W (dir @ ''/'' @ d_name e) (content e) None (det_done e) s = Inr (length (case_queue s), s')" "young W s'"
      "length (case_queue s') = length (case_queue s) + 1"
      using AddToQueue_young [OF Cons.prems(1)] by blast
    have "stop_soon s' = stop_soon s" "setting s' = setting s"
      using s'(1) by (auto simp: AddToQueue_def Let_def)
    then show ?thesis using Cons.IH [OF s'(2)] Cons.prems(2) step s' True by auto
  qed
qed simp

lemma usable_mset: "mset xs = mset ys \<Longrightarrow> length (filter P xs) = length (filter P ys)"
  by (metis mset_filter size_mset)

lemma pivot_keeps_stop: "pivot_cases W L ts s = Inr s' \<Longrightarrow> stop_soon s' = stop_soon s"
proof (induction ts arbitrary: s)
  case (Cons t ts)
  obtain s1 where s1: "pivot_case W L t s = Inr s1" "pivot_cases W L ts s1 = Inr s'"
    using Cons.prems by (auto simp: bindR_eq_Inr)
  have "stop_soon (parent_depth t rsl x) = stop_soon x" for rsl and x :: AFLState
    by (simp add: parent_depth_def Let_def upd_case_def split: option.split)
  then have "stop_soon s1 = stop_soon s"
    using s1(1) by (auto simp: pivot_case_def Let_def MarkAsDetDone_def bindR_eq_Inr upd_case_def split: if_splits)
  then show ?case using Cons.IH [OF s1(2)] by simp
qed simp

lemma AFLFuzzer_starts:
  assumes "world_ok W" and "friendly W st" and "entries L = Some nl" and "length nl < 2 ^ 31"
    and "\<forall>e \<in> set nl. accessible e \<and> (usable (in_dir L) e \<longrightarrow> length (content e) \<le> MaxFile)" and "\<exists>e \<in> set nl. usable (in_dir L) e"
  shows "\<exists>s rs'. AFLFuzzer_start W L (AFLState_new W st) rs = Inr (s, rs') \<and> afl_inv W s \<and> stats_ok s \<and> \<not> stop_soon s \<and>
    length (case_queue s) = length (filter (usable (in_dir L)) nl)"
proof -
  obtain nl' rs' where nl': "(if shuffle_queue L \<and> 1 < length nl then ShufflePtrs nl rs else Inr (nl, rs)) = Inr (nl', rs')" "mset nl' = mset nl"
    using assms(4) ShufflePtrs_ok [of nl rs] by (cases "shuffle_queue L \<and> 1 < length nl") auto
  let ?n = "length (filter (usable (in_dir L)) nl)"
  obtain s1 where s1: "read_entries W (in_dir L) nl' (AFLState_new W st) = Inr s1" "young W s1" "length (case_queue s1) = ?n" "\<not> stop_soon s1" "setting s1 = st"
    using read_entries_succeeds [OF AFLState_new_young, of nl' "in_dir L" W st] assms(5) mset_eq_setD [OF nl'(2)] usable_mset [OF nl'(2)]
    by (auto simp: AFLState_new_def)
  have n: "0 < ?n" "?n < 2 ^ 31"
    using assms(6) le_less_trans [OF length_filter_le assms(4)] by (auto simp: filter_empty_conv)
  then have q: "queued_paths s1 \<noteq> 0" using s1(2,3) by (simp add: young_def counts_ok_def u32_def)
  have read: "ReadTestcases W L (AFLState_new W st) rs = Inr (s1, rs')"
    using nl'(1) s1(1) q assms(3) by (simp add: ReadTestcases_def)
  obtain s2 where s2: "PivotInputs W L s1 = Inr s2" "quiet s1 s2"
    using PivotInputs_ok [OF assms(1)] by blast
  have seed: "seeded W s2" "length (case_queue s2) = ?n" "\<not> stop_soon s2" "setting s2 = st"
    using quiet_seeded [OF s2(2) young_seeded [OF s1(2) q]] quiet_length [OF s2(2)] s1(3-5) pivot_keeps_stop [OF s2(1) [unfolded PivotInputs_def]] s2(2)
    by (simp_all add: quiet_def inv_view_def)
  then have "dry_inv W [0..<?n] 0 s2"
    using n by (auto simp: seeded_def dry_inv_def)
  then obtain s3 where "dry_run W L [0..<?n] 0 s2 = Inr (False, 0, s3)" "afl_inv W s3" "length (case_queue s3) = ?n" "\<not> stop_soon s3" "stats_ok s3"
    using dry_run_succeeds [OF assms(1,2), of "[0..<?n]" 0 s2 L] seed n(1) by auto
  then show ?thesis
    using read s2(1) seed(2) by (auto simp: AFLFuzzer_start_def PerformDryRun_def)
qed

definition demo_launch :: Launch where
  "demo_launch =
     \<lparr>in_dir = ''in'',
      entries = Some [\<lparr>d_name = ''.'', accessible = True, regular = False, content = [], det_done = False\<rparr>,
                      \<lparr>d_name = ''seed'', accessible = True, regular = True, content = [1, 2, 3, 4, 5], det_done = False\<rparr>],
      shuffle_queue = True, timeout_given = 0, skip_crashes = False, can_link = (\<lambda>p. True)\<rparr>"

lemma demo_friendly: "friendly demo_world demo_setting"
  by (simp add: friendly_def demo_world_def)

lemma demo_usable: "filter (usable (in_dir demo_launch)) (the (entries demo_launch)) = [the (entries demo_launch) ! 1]"
  by code_simp

lemma demo_entries:
  "entries demo_launch = Some (the (entries demo_launch))" "length (the (entries demo_launch)) < 2 ^ 31"
  "\<forall>e \<in> set (the (entries demo_launch)). accessible e \<and> (usable (in_dir demo_launch) e \<longrightarrow> length (content e) \<le> MaxFile)"
  "\<exists>e \<in> set (the (entries demo_launch)). usable (in_dir demo_launch) e"
proof -
  have "set (filter (usable (in_dir demo_launch)) (the (entries demo_launch))) = {the (entries demo_launch) ! 1}"
    unfolding demo_usable by simp
  then show "\<exists>e \<in> set (the (entries demo_launch)). usable (in_dir demo_launch) e" by auto
qed (simp_all add: demo_launch_def MaxFile_def)

theorem campaign_safe_witness:
  "\<exists>z. campaign demo_world demo_sorts demo_launch demo_setting [] 1000 [5, 6, 7] = Inr z \<and> afl_inv demo_world (afl z)"
proof -
  have few: "\<And>nl. entries demo_launch = Some nl \<Longrightarrow> length nl < 2 ^ 31" and d: "dict_ok []"
    by (auto simp: demo_launch_def dict_ok_def)
  have "AFLFuzzer_start demo_world demo_launch (AFLState_new demo_world demo_setting) [5, 6, 7] \<noteq> Inl (Exit 1)"
    using AFLFuzzer_starts [OF demo_world_ok demo_friendly demo_entries] by (metis Inr_not_Inl)
  then show ?thesis
    using campaign_safe [where W = demo_world and ex = "[]" and L = demo_launch and st = demo_setting and rs = "[5, 6, 7]" and n = 1000,
        OF demo_world_ok friendly_executor [OF demo_friendly] demo_sorts_ok d few] by blast
qed



end
