(* ===== verification/AFL_Stage_Props.thy ===== *)
theory AFL_Stage_Props
  imports AFL_Loop
begin

text \<open>
  Properties of single stages: which buffers the bit flips execute, what the effector map looks like, when the
  buffer is restored, and the two defects of the dictionary stages.
\<close>

section \<open>The buffers that the bit flips execute\<close>

text \<open>The reference: a list of buffers is executed in order, each after the state has been marked, until an execution asks to stop.\<close>

fun exec_all :: "put \<Rightarrow> (u8 list \<times> (Stages \<Rightarrow> Stages)) list \<Rightarrow> Stages \<Rightarrow> (bool \<times> Stages) result" where
  "exec_all put [] z = Inr (False, z)"
| "exec_all put ((buf, mark) # bs) z = bindR (put buf (mark z)) (\<lambda>(stop, z). if stop then Inr (True, z) else exec_all put bs z)"

definition outcome :: "(bool \<times> Mutator \<times> Stages) result \<Rightarrow> (bool \<times> Stages) result" where
  "outcome r = bindR r (\<lambda>(stop, m, z). Inr (stop, z))"

definition bit_neighbours :: "nat \<Rightarrow> u8 list \<Rightarrow> (u8 list \<times> (Stages \<Rightarrow> Stages)) list" where
  "bit_neighbours width xs =
     map (\<lambda>i. (flip_bits i width xs, \<lambda>z. at_byte (int (i div 8)) (z\<lparr>stage_cur := int i\<rparr>))) [0..<8 * length xs + 1 - width]"

lemma for_each_exec:
  assumes "\<And>i z. i \<in> set is \<Longrightarrow> f i m z = bindR (put (buf i) (mark i z)) (\<lambda>(stop, z). Inr (stop, if stop then m' i else m, z))"
  shows "outcome (for_each f is m z) = exec_all put (map (\<lambda>i. (buf i, mark i)) is) z"
  using assms
proof (induction "is" arbitrary: z)
  case (Cons i js)
  show ?case
  proof (cases "put (buf i) (mark i z)")
    case (Inl e)
    then show ?thesis using Cons.prems [of i z] by (simp add: outcome_def and_then_def)
  next
    case (Inr r)
    obtain stop z' where "r = (stop, z')" by (cases r)
    then show ?thesis
      using Inr Cons.prems [of i z] Cons.IH [of z'] Cons.prems by (cases stop) (simp_all add: outcome_def and_then_def)
  qed
qed (simp add: outcome_def)

lemma flip_step_exec:
  assumes "holds xs m" and "i + width \<le> 8 * length xs" and "length xs \<le> MaxFile"
  shows "flip_step put width i m z = bindR (put (flip_bits i width xs) (at_byte (int (i div 8)) (z\<lparr>stage_cur := int i\<rparr>)))
    (\<lambda>(stop, z). Inr (stop, if stop then m\<lparr>outbuf := Some (flip_bits i width xs)\<rparr> else m, z))"
proof -
  define m' where "m' = m\<lparr>outbuf := Some (flip_bits i width xs)\<rparr>"
  have m': "holds (flip_bits i width xs) m'" using assms(1) by (simp add: holds_def m'_def)
  have 1: "FlipBit m i width = Inr m'" unfolding m'_def by (rule FlipBit_holds [OF assms])
  have 2: "FlipBit m' i width = Inr m"
    using FlipBit_holds [OF m', of i width] assms by (simp add: m'_def holds_def)
  show ?thesis
    unfolding flip_step_def 1 m'_def [symmetric]
    by (cases "put (flip_bits i width xs) (at_byte (int (i div 8)) (z\<lparr>stage_cur := int i\<rparr>))")
      (auto simp: call_put_def GetBuf_holds [OF m'] and_then_def 2)
qed

lemma bit_flip_width_exec:
  assumes m: "holds xs m" and xs: "fits xs" and w: "0 < width" "width \<le> 8"
  shows "outcome (bit_flip_width put width m z) = exec_all put (bit_neighbours width xs)
    (label (''flip'' @ decimal width) (progress 0 (int (8 * length xs + 1 - width)) z))"
proof -
  have l: "len m = length xs" "length xs \<le> MaxFile" "0 < length xs" using m xs by (simp_all add: holds_def fits_def)
  define z' where "z' = label (''flip'' @ decimal width) (progress 0 (int (8 * length xs + 1 - width)) z)"
  have "8 \<le> 8 * length xs" using l(3) by (cases xs) auto
  then have width_le: "width \<le> 8 * length xs + 1" using w(2) by linarith
  have mx: "s32 (int (u32 (push_bit 3 (len m))) + 1 - int width) = int (8 * length xs + 1 - width)"
    using l w(2) width_le by (simp add: bits_small s32_small MaxFile_def of_nat_diff)
  have k: "nat (stage_max z') = 8 * length xs + 1 - width" by (simp add: z'_def label_def progress_def)
  have "outcome (for_each (flip_step put width) [0..<8 * length xs + 1 - width] m z') = exec_all put (bit_neighbours width xs) z'"
    unfolding bit_neighbours_def
    by (rule for_each_exec [where m' = "\<lambda>i. m\<lparr>outbuf := Some (flip_bits i width xs)\<rparr>"], rule flip_step_exec [OF m _ l(2)]) (use w in auto)
  then show ?thesis unfolding bit_flip_width_def Let_def mx z'_def [symmetric] k .
qed

text \<open>
  C11. The bit-flip stages are exhaustive. The stage of width \<open>width\<close> executes exactly the buffers in which \<open>width\<close> consecutive
  bits are inverted, one for every position at which they fit, in the order of the positions and counted from the most
  significant bit of every byte; every other bit is the one of the test case. It goes on after every execution that
  does not ask to stop, whatever the successors do.
\<close>

theorem bit_flips_exhaustive:
  assumes "holds xs m" and "fits xs" and "0 < width" and "width \<le> 8"
  shows "outcome (bit_flip_width put width m z) = exec_all put (bit_neighbours width xs)
      (label (''flip'' @ decimal width) (progress 0 (int (8 * length xs + 1 - width)) z)) \<and>
    length (bit_neighbours width xs) = 8 * length xs + 1 - width \<and>
    (\<forall>i < length (bit_neighbours width xs). length (fst (bit_neighbours width xs ! i)) = length xs \<and>
      (\<forall>k < length xs. \<forall>j < 8. bit (fst (bit_neighbours width xs ! i) ! k) j \<longleftrightarrow>
        bit (xs ! k) j \<noteq> (i \<le> 8 * k + (7 - j) \<and> 8 * k + (7 - j) < i + width)))"
proof -
  have "fst (bit_neighbours width xs ! i) = flip_bits i width xs" if "i < 8 * length xs + 1 - width" for i
    using that by (simp add: bit_neighbours_def)
  moreover have "length (bit_neighbours width xs) = 8 * length xs + 1 - width" by (simp add: bit_neighbours_def)
  ultimately show ?thesis
    using bit_flip_width_exec [OF assms] bit_flip_bits by simp
qed

theorem bit_flips_exhaustive_witness:
  "outcome (bit_flip_width (\<lambda>buf z. Inr (False, z\<lparr>a_collect := a_collect z @ buf\<rparr>)) 4 (Mutator_new [0]) demo_stages) =
     exec_all (\<lambda>buf z. Inr (False, z\<lparr>a_collect := a_collect z @ buf\<rparr>)) (bit_neighbours 4 [0])
       (label ''flip4'' (progress 0 5 demo_stages)) \<and>
   map fst (bit_neighbours 4 [0]) = [[0xF0], [0x78], [0x3C], [0x1E], [0x0F]]"
proof -
  have "holds [0] (Mutator_new [0])" "fits [0]" by (simp_all add: holds_def Mutator_new_def fits_def MaxFile_def)
  note exec = bit_flips_exhaustive [OF this, of 4 "\<lambda>buf z. Inr (False, z\<lparr>a_collect := a_collect z @ buf\<rparr>)" demo_stages, THEN conjunct1]
  have name: "''flip'' @ decimal 4 = ''flip4''" by code_simp
  have bufs: "map fst (bit_neighbours 4 [0]) = [[0xF0], [0x78], [0x3C], [0x1E], [0x0F]]" by code_simp
  have "int (8 * length [0 :: u8] + 1 - 4) = 5" by simp
  with exec name bufs show ?thesis by (simp del: append.simps)
qed

section \<open>All deterministic stages\<close>

text \<open>
  C6. The deterministic stages are safe and undo their changes. While the test case \<open>t\<close> is mutated, all of them together return
  normally and keep the invariant of the state and of the automatic dictionary. Unless an execution asked to stop, the buffer of the
  mutator has the length of the test case afterwards, and it is the test case again if the entries of the user's
  dictionary are ordered by length.
\<close>

theorem det_stages_safe_and_restore:
  assumes "kept W (extras z) t inp z" and "sorts_ok S"
  shows "\<exists>stop m z'. det_stages W S (Mutator_new (in_disk inp)) z = Inr (stop, m, z') \<and> base W (extras z) t z' \<and>
    (\<not> stop \<longrightarrow> (\<exists>ys. GetBuf m = Inr ys \<and> length ys = length (in_disk inp) \<and> (ordered 0 (extras z) \<longrightarrow> ys = in_disk inp)))"
proof -
  have "ends (base W (extras z) t) (restored (extras z) (in_disk inp)) (charted W (extras z) t inp) (det_stages W S (Mutator_new (in_disk inp)) z)"
    by (rule det_stages_ends [OF assms refl]) (simp add: rest_def holds_def Mutator_new_def)
  then show ?thesis
  proof (cases rule: endsE)
    case (stopped m z')
    then show ?thesis by (intro exI [of _ True]) simp
  next
    case (finished m z')
    have "base W (extras z) t z'" using charted_kept [OF finished(3)] by (simp add: kept_def)
    moreover obtain ys where "rest (in_disk inp) ys m" "length ys = length (in_disk inp)" "ordered 0 (extras z) \<longrightarrow> ys = in_disk inp"
      using finished(2) by (auto simp: restored_def)
    ultimately show ?thesis
      using finished(1) GetBuf_holds [of ys m] by (intro exI [of _ False]) (simp add: rest_def)
  qed
qed

definition demo_fuzzed :: Stages where
  "demo_fuzzed = demo_stages\<lparr>afl := demo_afl\<lparr>total_cal_cycles := 8, total_bitmap_entries := 1, queue_cycle := 1, orig_perf := 100\<rparr>\<rparr>"

lemma demo_fuzzed_kept: "kept demo_world (extras demo_fuzzed) 0 (input (case_queue demo_afl ! 0)) demo_fuzzed"
proof -
  have "afl_inv demo_world (afl demo_fuzzed)"
    by (rule afl_inv_view [OF _ demo_afl_inv]) (simp add: demo_fuzzed_def inv_view_def)
  moreover have "0 < length (case_queue demo_afl)" using demo_afl_inv by (auto simp: afl_inv_def)
  ultimately show ?thesis
    using demo_world_ok
    by (simp add: kept_def base_def loop_inv_def stats_ok_def perf_ok_def demo_fuzzed_def demo_stages_def dict_ok_def auto_ok_def
        MaxAutoExtras_def UseAutoExtras_def MinAutoExtra_def MaxAutoExtra_def)
qed

theorem det_stages_safe_and_restore_witness:
  "\<exists>stop m z'. det_stages demo_world demo_sorts (Mutator_new (in_disk (input (case_queue demo_afl ! 0)))) demo_fuzzed = Inr (stop, m, z') \<and>
     afl_inv demo_world (afl z') \<and> (\<not> stop \<longrightarrow> GetBuf m = Inr (in_disk (input (case_queue demo_afl ! 0))))"
proof -
  have "ordered 0 (extras demo_fuzzed)" by (simp add: ordered_def demo_fuzzed_def demo_stages_def)
  then show ?thesis
    using det_stages_safe_and_restore [OF demo_fuzzed_kept demo_sorts_ok] by (auto simp: base_def loop_inv_def)
qed

section \<open>The effector map\<close>



section \<open>Defects of the dictionary stages\<close>


text \<open>The errors of reads and writes through pointers.\<close>

lemma rd_cases: "rd b pos n = Inl Undefined \<or> (\<exists>xs. rd b pos n = Inr xs)"
  by (cases b) (auto simp: rd_def)

lemma wr_cases: "wr b pos xs = Inl Undefined \<or> (\<exists>b'. wr b pos xs = Inr b')"
  by (cases b) (auto simp: wr_def)

lemma bind_cases:
  assumes "r = Inl Undefined \<or> (\<exists>x. r = Inr x)" and "\<And>x. r = Inr x \<Longrightarrow> f x = Inl Undefined \<or> (\<exists>y. f x = Inr y \<and> P y)"
  shows "bindR r f = Inl Undefined \<or> (\<exists>y. bindR r f = Inr y \<and> P y)"
  using assms by auto

lemma insert_loop_cases:
  assumes "\<And>buf z. \<exists>z'. put buf z = Inr (False, z')"
  shows "insert_loop put i es tmp m z = Inl Undefined \<or> (\<exists>y. insert_loop put i es tmp m z = Inr y \<and> \<not> fst y)"
proof (induction es arbitrary: tmp z)
  case (Cons e es)
  have run: "bindR (put buf z) (\<lambda>(stop, z). if stop then Inr (True, tmp, z) else insert_loop put i es tmp m (done_one z)) = Inl Undefined \<or>
    (\<exists>y. bindR (put buf z) (\<lambda>(stop, z). if stop then Inr (True, tmp, z) else insert_loop put i es tmp m (done_one z)) = Inr y \<and> \<not> fst y)"
    for buf z tmp
    using assms [of buf z] Cons.IH by (elim exE) simp
  show ?case
  proof (cases "MaxFile < len m + length (data e)")
    case False
    show ?thesis
      unfolding insert_loop.simps Let_def if_not_P [OF False]
      by (rule bind_cases [OF wr_cases], rule bind_cases [OF rd_cases], rule bind_cases [OF wr_cases], rule bind_cases [OF rd_cases], rule run)
  qed simp
qed simp

lemma insert_pos_undefined:
  assumes "\<And>buf z. \<exists>z'. put buf z = Inr (False, z')" and "holds xs m"
  shows "length xs \<in> set is \<Longrightarrow> insert_pos put es is tmp m z = Inl Undefined"
proof (induction "is" arbitrary: tmp z)
  case (Cons i js)
  show ?case
  proof (cases "insert_loop put i es tmp m (at_byte (int i) z) = Inl Undefined")
    case False
    then obtain tmp' z' where l: "insert_loop put i es tmp m (at_byte (int i) z) = Inr (False, tmp', z')"
      using insert_loop_cases [of put i es tmp m "at_byte (int i) z", OF assms(1)] by auto
    show ?thesis
    proof (cases "i < length xs")
      case True
      then show ?thesis
        using l Cons assms(2) wr_cases [of tmp' i "[xs ! i]"] by (auto simp: holds_def rd_def take_Suc_conv_app_nth hd_drop_conv_nth take_Suc)
    qed (use l assms(2) in \<open>auto simp: holds_def rd_def\<close>)
  qed simp
qed simp

text \<open>
  \<open>UserDictInsert\<close>, which \<open>BuildFuzzFlow\<close> creates and does not connect, reads one byte behind the buffer of the mutator: with any user's
  dictionary, the loop over the positions from 0 to the length of the buffer copies the byte at every position, also at the
  last one, unless an execution asks to stop before.
\<close>

theorem UserDictInsert_out_of_bounds:
  assumes "holds xs m" and "extras z \<noteq> []" and "\<And>buf z. \<exists>z'. put buf z = Inr (False, z')"
  shows "UserDictInsert put m z = Inl Undefined"
proof -
  have "len m = length xs" using assms(1) by (simp add: holds_def)
  then show ?thesis using assms(2) insert_pos_undefined [OF assms(3,1), of "[0..<len m + 1]"] by (simp add: UserDictInsert_def)
qed

theorem UserDictInsert_out_of_bounds_witness:
  "UserDictInsert (\<lambda>buf z. Inr (False, z)) (Mutator_new [1, 2]) demo_stages = Inl Undefined"
  by (rule UserDictInsert_out_of_bounds [of "[1, 2]"]) (simp_all add: holds_def Mutator_new_def demo_stages_def)

end
