(* ===== verification/LibFuzzer_Mutation.thy ===== *)
theory LibFuzzer_Mutation
  imports AFL_Util
begin

text \<open>
  The mutators of libFuzzer (\<open>include/fuzzuf/algorithms/libfuzzer/mutation/\<close>) and its random numbers (\<open>random.hpp\<close>). Each
  mutator changes a vector of bytes in place, appends its name to the history and returns the new length, or 0 if it does
  nothing; the model returns these together with the rest of the random source. Positions outside the vector are
  \<open>Undefined\<close>, and the assertions of the source are \<open>AssertFail\<close>.
\<close>

section \<open>Random numbers\<close>

fun raw_draw :: "rng \<Rightarrow> nat \<times> rng" where
  "raw_draw [] = (0, [])"
| "raw_draw (r # rs) = (r, rs)"

definition random_value :: "nat \<Rightarrow> rng \<Rightarrow> nat \<times> rng" where
  "random_value limit rs = (if limit = 0 then (0, rs) else let (r, rs) = raw_draw rs in (r mod limit, rs))"

definition random_range :: "nat \<Rightarrow> nat \<Rightarrow> rng \<Rightarrow> (nat \<times> rng) result" where
  "random_range lo hi rs =
     (if \<not> lo < hi then Inl AssertFail else let (r, rs) = raw_draw rs in Inr (lo + r mod (hi - lo), rs))"

definition random_bool :: "rng \<Rightarrow> (bool \<times> rng) result" where
  "random_bool rs = bindR (random_range 0 2 rs) (\<lambda>(r, rs). Inr (r \<noteq> 0, rs))"

text \<open>Without a bound: from the least to the greatest value of the type, and the greatest is excluded.\<close>

definition random_u8 :: "rng \<Rightarrow> (u8 \<times> rng) result" where
  "random_u8 rs = bindR (random_range 0 255 rs) (\<lambda>(r, rs). Inr (of_nat r, rs))"

section \<open>Vectors\<close>

definition vec_set :: "u8 list \<Rightarrow> nat \<Rightarrow> u8 \<Rightarrow> u8 list result" where
  "vec_set xs i b = (if i < length xs then Inr (xs[i := b]) else Inl Undefined)"

definition vec_insert :: "u8 list \<Rightarrow> nat \<Rightarrow> u8 list \<Rightarrow> u8 list result" where
  "vec_insert xs i ys = (if i \<le> length xs then Inr (take i xs @ ys @ drop i xs) else Inl Undefined)"

definition vec_erase :: "u8 list \<Rightarrow> nat \<Rightarrow> nat \<Rightarrow> u8 list result" where
  "vec_erase xs i j = (if i \<le> j \<and> j \<le> length xs then Inr (take i xs @ drop j xs) else Inl Undefined)"

definition vec_slice :: "u8 list \<Rightarrow> nat \<Rightarrow> nat \<Rightarrow> u8 list result" where
  "vec_slice xs i n = (if i + n \<le> length xs then Inr (take n (drop i xs)) else Inl Undefined)"

definition vec_write :: "u8 list \<Rightarrow> nat \<Rightarrow> u8 list \<Rightarrow> u8 list result" where
  "vec_write xs i ys = (if i + length ys \<le> length xs then Inr (take i xs @ ys @ drop (i + length ys) xs) else Inl Undefined)"

text \<open>\<open>std::find_if\<close> from a position on; the length of the vector stands for the end.\<close>

definition find_from :: "(u8 \<Rightarrow> bool) \<Rightarrow> u8 list \<Rightarrow> nat \<Rightarrow> nat" where
  "find_from p xs i = (case List.find (\<lambda>j. p (xs ! j)) [i..<length xs] of None \<Rightarrow> length xs | Some j \<Rightarrow> j)"

section \<open>Simple mutators\<close>

type_synonym mutated = "(nat \<times> u8 list \<times> string list \<times> rng) result"

definition done_mut :: "string \<Rightarrow> string list \<Rightarrow> u8 list \<Rightarrow> rng \<Rightarrow> mutated" where
  "done_mut name history data rs = Inr (length data, data, history @ [name], rs)"

definition EraseBytes :: "u8 list \<Rightarrow> nat \<Rightarrow> string list \<Rightarrow> rng \<Rightarrow> mutated" where
  "EraseBytes data max_size history rs =
     (if length data \<le> 1 then Inr (0, data, history, rs)
      else
        let (r, rs) = random_value (length data div 2) rs; n = r + 1 in
        if \<not> n < length data then Inl AssertFail
        else
          let (index, rs) = random_value (length data - n + 1) rs in
          bindR (vec_erase data index (index + n)) (\<lambda>data. done_mut ''EraseBytes'' history data rs))"

definition InsertByte :: "u8 list \<Rightarrow> nat \<Rightarrow> string list \<Rightarrow> rng \<Rightarrow> mutated" where
  "InsertByte data max_size history rs =
     (if max_size \<le> length data then Inr (0, data, history, rs)
      else
        let (index, rs) = random_value (length data + 1) rs in
        bindR (random_u8 rs) (\<lambda>(value, rs).
        bindR (vec_insert data index [value]) (\<lambda>data. done_mut ''InsertByte'' history data rs)))"

definition InsertRepeatedBytes :: "u8 list \<Rightarrow> nat \<Rightarrow> string list \<Rightarrow> rng \<Rightarrow> mutated" where
  "InsertRepeatedBytes data max_size history rs =
     (if max_size \<le> length data + 3 then Inr (0, data, history, rs)
      else
        let most = min (max_size - length data) 128; (r, rs) = random_value (most - 3 + 1) rs; n = r + 3 in
        if \<not> (length data + n \<le> max_size \<and> n \<noteq> 0) then Inl AssertFail
        else
          let (index, rs) = random_value (length data + 1) rs in
          bindR (random_bool rs) (\<lambda>(zero, rs).
          bindR (vec_insert data index (replicate n (if zero then 0 else 255))) (\<lambda>data. done_mut ''InsertRepeatedBytes'' history data rs)))"

definition ChangeByte :: "u8 list \<Rightarrow> nat \<Rightarrow> string list \<Rightarrow> rng \<Rightarrow> mutated" where
  "ChangeByte data max_size history rs =
     (if max_size < length data then Inr (0, data, history, rs)
      else
        let (index, rs) = random_value (length data) rs in
        bindR (random_u8 rs) (\<lambda>(value, rs).
        bindR (vec_set data index value) (\<lambda>data. done_mut ''ChangeByte'' history data rs)))"

definition ChangeBit :: "u8 list \<Rightarrow> nat \<Rightarrow> string list \<Rightarrow> rng \<Rightarrow> mutated" where
  "ChangeBit data max_size history rs =
     (if max_size < length data then Inr (0, data, history, rs)
      else
        let (index, rs) = random_value (length data) rs; (bit, rs) = random_value 8 rs in
        bindR (idx_vec data index) (\<lambda>b.
        bindR (vec_set data index (b XOR push_bit bit 1)) (\<lambda>data. done_mut ''ChangeBit'' history data rs)))"

text \<open>\<open>std::shuffle\<close> is an argument: which permutation it makes of the raw numbers is not specified.\<close>

type_synonym shuffle = "u8 list \<Rightarrow> rng \<Rightarrow> u8 list \<times> rng"

definition ShuffleBytes :: "shuffle \<Rightarrow> u8 list \<Rightarrow> nat \<Rightarrow> string list \<Rightarrow> rng \<Rightarrow> mutated" where
  "ShuffleBytes shuf data max_size history rs =
     (if max_size < length data \<or> length data = 0 then Inr (0, data, history, rs)
      else
        let (r, rs) = random_value (min (length data) 8) rs; amount = r + 1;
            (start, rs) = random_value (length data - amount) rs in
        if \<not> start + amount \<le> length data then Inl AssertFail
        else
          bindR (vec_slice data start amount) (\<lambda>part.
            let (part, rs) = shuf part rs in
            bindR (vec_write data start part) (\<lambda>data. done_mut ''ShuffleBytes'' history data rs)))"

section \<open>Integers\<close>

definition is_digit :: "u8 \<Rightarrow> bool" where
  "is_digit b \<longleftrightarrow> 48 \<le> b \<and> b \<le> 57"

definition u64m :: "nat \<Rightarrow> nat" where
  "u64m x = x mod 2 ^ 64"

definition ascii_value :: "u8 list \<Rightarrow> nat" where
  "ascii_value ds = fold (\<lambda>d v. u64m (v * 10 + (unat d - 48))) (tl ds) (unat (hd ds) - 48)"

text \<open>The digits are written from the last to the first, as many as there were.\<close>

fun ascii_digits :: "nat \<Rightarrow> nat \<Rightarrow> u8 list" where
  "ascii_digits 0 v = []"
| "ascii_digits (Suc n) v = ascii_digits n (v div 10) @ [of_nat (v mod 10) + 48]"

definition ascii_change :: "nat \<Rightarrow> rng \<Rightarrow> (nat \<times> rng) result" where
  "ascii_change value rs =
     (let (k, rs) = random_value 5 rs in
      if k = 0 then Inr (u64m (value + 1), rs)
      else if k = 1 then Inr (u64m (value + 2 ^ 64 - 1), rs)
      else if k = 2 then Inr (value div 2, rs)
      else if k = 3 then Inr (u64m (value * 2), rs)
      else if k = 4 then Inr (random_value (u64m (value * value)) rs)
      else Inl AssertFail)"

definition ChangeASCIIInteger :: "u8 list \<Rightarrow> nat \<Rightarrow> string list \<Rightarrow> rng \<Rightarrow> mutated" where
  "ChangeASCIIInteger data max_size history rs =
     (if max_size < length data then Inr (0, data, history, rs)
      else
        let (b, rs) = random_value (length data) rs; first = find_from is_digit data b in
        if first = length data then Inr (0, data, history, rs)
        else
          let stop = find_from (\<lambda>d. \<not> is_digit d) data first in
          if \<not> first < stop then Inl AssertFail
          else
            bindR (vec_slice data first (stop - first)) (\<lambda>ds.
            bindR (ascii_change (ascii_value ds) rs) (\<lambda>(value, rs).
            bindR (vec_write data first (ascii_digits (stop - first) value)) (\<lambda>data.
              done_mut ''ChangeASCIIInt'' history data rs))))"

text \<open>An integer of \<open>w\<close> bytes on a little-endian machine.\<close>

fun bytes_value :: "u8 list \<Rightarrow> nat" where
  "bytes_value [] = 0"
| "bytes_value (b # bs) = unat b + 256 * bytes_value bs"

fun value_bytes :: "nat \<Rightarrow> nat \<Rightarrow> u8 list" where
  "value_bytes 0 v = []"
| "value_bytes (Suc w) v = of_nat (v mod 256) # value_bytes w (v div 256)"

definition bswap :: "nat \<Rightarrow> nat \<Rightarrow> nat" where
  "bswap w v = bytes_value (rev (value_bytes w v))"

definition word_neg :: "nat \<Rightarrow> nat \<Rightarrow> nat" where
  "word_neg w v = (256 ^ w - v) mod 256 ^ w"

definition binary_change :: "nat \<Rightarrow> nat \<Rightarrow> rng \<Rightarrow> (nat \<times> rng) result" where
  "binary_change w value rs =
     (let (r, rs) = random_value 21 rs; add = (r + 256 ^ w - 10) mod 256 ^ w in
      bindR (random_bool rs) (\<lambda>(swapped, rs).
        let value = (if swapped then bswap w ((bswap w value + add) mod 256 ^ w) else (value + add) mod 256 ^ w) in
        bindR (if add = 0 then Inr (True, rs) else random_bool rs) (\<lambda>(negated, rs).
          Inr (if negated then word_neg w value else value, rs))))"

definition ChangeBinaryInteger_at :: "nat \<Rightarrow> u8 list \<Rightarrow> rng \<Rightarrow> (nat \<times> u8 list \<times> rng) result" where
  "ChangeBinaryInteger_at w data rs =
     (if length data < w then Inr (0, data, rs)
      else
        let (offset, rs) = random_value (length data - w + 1) rs in
        if \<not> offset + w \<le> length data then Inl AssertFail
        else
          let (r, rs) = (if offset < 64 then random_value 3 rs else (1, rs)) in
          bindR (if offset < 64 \<and> r = 0 then
                   bindR (random_bool rs) (\<lambda>(swapped, rs).
                     let value = length data mod 256 ^ w in Inr (if swapped then bswap w value else value, rs))
                 else
                   bindR (vec_slice data offset w) (\<lambda>bs. binary_change w (bytes_value bs) rs)) (\<lambda>(value, rs).
          bindR (vec_write data offset (value_bytes w value)) (\<lambda>data. Inr (length data, data, rs))))"

definition ChangeBinaryInteger :: "u8 list \<Rightarrow> nat \<Rightarrow> string list \<Rightarrow> rng \<Rightarrow> mutated" where
  "ChangeBinaryInteger data max_size history rs =
     (if max_size < length data then Inr (0, data, history, rs)
      else
        let history = history @ [''ChangeBinInt'']; (k, rs) = random_value 4 rs;
            sized = (\<lambda>w. bindR (ChangeBinaryInteger_at w data rs) (\<lambda>(n, data, rs). Inr (n, data, history, rs))) in
        if k = 3 then sized 8 else if k = 2 then sized 4 else if k = 1 then sized 2 else if k = 0 then sized 1
        else Inl AssertFail)"

end
