(* ===== verification/LibFuzzer_Parts.thy ===== *)
theory LibFuzzer_Parts
  imports LibFuzzer_Mutation
begin

text \<open>
  The mutators of libFuzzer that combine parts of inputs (\<open>mutation/utils.hpp\<close>, \<open>copy_part.hpp\<close>, \<open>crossover.hpp\<close>), use a
  dictionary (\<open>dictionary.hpp\<close>), work under a mask (\<open>mask.hpp\<close>) or make the input printable (\<open>to_ascii.hpp\<close>).
\<close>

section \<open>Copying within a vector\<close>

text \<open>\<open>std::copy\<close> and \<open>std::copy_backward\<close> of \<open>n\<close> elements, one element after the other.\<close>

definition copy_elem :: "nat \<Rightarrow> nat \<Rightarrow> nat \<Rightarrow> u8 list \<Rightarrow> u8 list" where
  "copy_elem src dst i xs = xs[dst + i := xs ! (src + i)]"

definition copy_forward :: "nat \<Rightarrow> nat \<Rightarrow> nat \<Rightarrow> u8 list \<Rightarrow> u8 list" where
  "copy_forward src dst n xs = fold (copy_elem src dst) [0..<n] xs"

definition copy_backward :: "nat \<Rightarrow> nat \<Rightarrow> nat \<Rightarrow> u8 list \<Rightarrow> u8 list" where
  "copy_backward src dst n xs = fold (copy_elem src dst) (rev [0..<n]) xs"

text \<open>\<open>CopySelf\<close> on the ranges from \<open>b1\<close> to \<open>e1\<close> and from \<open>b2\<close> to \<open>e2\<close> of one vector.\<close>

definition CopySelf :: "nat \<Rightarrow> nat \<Rightarrow> nat \<Rightarrow> nat \<Rightarrow> u8 list \<Rightarrow> u8 list result" where
  "CopySelf b1 e1 b2 e2 xs =
     (let (b1, e1) = (if e1 < b1 then (e1, b1) else (b1, e1)); (b2, e2) = (if e2 < b2 then (e2, b2) else (b2, e2));
          from_size = e1 - b1; to_size = e2 - b2;
          e2 = (if from_size < to_size then b2 + from_size else e2);
          e1 = (if to_size < from_size then b1 + to_size else e1)
      in if length xs < e1 \<or> length xs < e2 then Inl Undefined
         else if b2 = e2 then Inr xs
         else if b1 = b2 then Inr xs
         else if e1 \<le> b2 \<or> e2 \<le> b1 \<or> b2 < b1 then Inr (copy_forward b1 b2 (e1 - b1) xs)
         else Inr (copy_backward b1 b2 (e1 - b1) xs))"

text \<open>
  \<open>CopyPartOf\<close> and \<open>InsertPartOf\<close>. If the two ranges are the same vector, \<open>overlap\<close> holds and the first argument is equal
  to the second.
\<close>

definition CopyPartOf :: "u8 list \<Rightarrow> u8 list \<Rightarrow> bool \<Rightarrow> rng \<Rightarrow> (nat \<times> u8 list \<times> rng) result" where
  "CopyPartOf from to overlap rs =
     (let (to_beg, rs) = random_value (length to) rs; (r, rs) = random_value (length to - to_beg) rs; copy_size = r + 1 in
      if \<not> to_beg + copy_size \<le> length to then Inl AssertFail
      else
        let copy_size = min copy_size (length from); (from_beg, rs) = random_value (length from - copy_size + 1) rs in
        if \<not> from_beg + copy_size \<le> length from then Inl AssertFail
        else
          bindR (if overlap then CopySelf from_beg (from_beg + copy_size) to_beg (to_beg + copy_size) to
                 else bindR (vec_slice from from_beg copy_size) (\<lambda>part. vec_write to to_beg part)) (\<lambda>result.
            Inr (length to, result, rs)))"

definition InsertPartOf :: "u8 list \<Rightarrow> u8 list \<Rightarrow> bool \<Rightarrow> nat \<Rightarrow> rng \<Rightarrow> (nat \<times> u8 list \<times> rng) result" where
  "InsertPartOf from to overlap max_size rs =
     (if max_size \<le> length to then Inr (0, to, rs)
      else
        let (r, rs) = random_value (min (max_size - length to) (length from)) rs; copy_size = r + 1;
            (from_beg, rs) = random_value (length from - copy_size + 1) rs in
        if \<not> from_beg + copy_size \<le> length from then Inl AssertFail
        else
          let (pos, rs) = random_value (length to + 1) rs in
          if \<not> pos + copy_size \<le> max_size then Inl AssertFail
          else
            bindR (vec_slice (if overlap then to else from) from_beg copy_size) (\<lambda>temp.
            bindR (vec_insert to pos temp) (\<lambda>result. Inr (length to + copy_size, result, rs))))"

definition CopyPart :: "u8 list \<Rightarrow> nat \<Rightarrow> string list \<Rightarrow> rng \<Rightarrow> mutated" where
  "CopyPart data max_size history rs =
     (if max_size < length data \<or> length data = 0 then Inr (0, data, history, rs)
      else
        bindR (if length data = max_size then Inr (True, rs) else random_bool rs) (\<lambda>(copy, rs).
        bindR (if copy then CopyPartOf data data True rs else InsertPartOf data data True max_size rs) (\<lambda>(_, data, rs).
          done_mut ''CopyPart'' history data rs)))"

section \<open>Crossover\<close>

text \<open>
  The loop takes chunks from the two inputs in turns. Its variables are the rest of each input, what has been written, and
  the source.
\<close>

definition take_chunk :: "nat \<Rightarrow> u8 list \<Rightarrow> u8 list \<Rightarrow> rng \<Rightarrow> u8 list \<times> u8 list \<times> rng" where
  "take_chunk max_size rest out rs =
     (if rest \<noteq> [] \<and> length out \<noteq> max_size then
        let (r, rs) = random_value (min (max_size - length out) (length rest)) rs; extra = r + 1
        in (drop extra rest, out @ take extra rest, rs)
      else (rest, out, rs))"

lemma take_chunk_decreases:
  assumes "take_chunk m xs out rs = (xs', out', rs')"
  shows "length xs' + length out' \<le> length xs + length out" and "length xs' \<le> length xs"
    and "xs \<noteq> [] \<Longrightarrow> length out \<noteq> m \<Longrightarrow> length xs' < length xs"
  using assms by (auto simp: take_chunk_def Let_def split: if_splits prod.splits)

function crossover_loop :: "nat \<Rightarrow> u8 list \<Rightarrow> u8 list \<Rightarrow> u8 list \<Rightarrow> rng \<Rightarrow> u8 list \<times> rng" where
  "crossover_loop max_size xs ys out rs =
     (if (xs \<noteq> [] \<or> ys \<noteq> []) \<and> length out \<noteq> max_size then
        let (xs', out', rs') = take_chunk max_size xs out rs; (ys', out'', rs'') = take_chunk max_size ys out' rs'
        in crossover_loop max_size xs' ys' out'' rs''
      else (out, rs))"
  by pat_completeness auto
termination
proof (relation "measure (\<lambda>(max_size, xs, ys, out, rs). length xs + length ys)", goal_cases)
  case (2 max_size xs ys out rs chunk1 xs' p1 out' rs' chunk2 ys' p2 out'' rs'')
  have c1: "take_chunk max_size xs out rs = (xs', out', rs')" and c2: "take_chunk max_size ys out' rs' = (ys', out'', rs'')"
    using 2 by simp_all
  have ne: "xs \<noteq> [] \<or> ys \<noteq> []" "length out \<noteq> max_size" using 2(1) by simp_all
  have "length xs' \<le> length xs" "length ys' \<le> length ys"
    using take_chunk_decreases(2) [OF c1] take_chunk_decreases(2) [OF c2] by simp_all
  moreover have "xs \<noteq> [] \<Longrightarrow> length xs' < length xs"
    using take_chunk_decreases(3) [OF c1 _ ne(2)] by blast
  moreover have "length ys' < length ys" if "xs = []"
  proof -
    have "out' = out" using c1 that by (simp add: take_chunk_def)
    then show ?thesis using take_chunk_decreases(3) [OF c2] ne that by blast
  qed
  ultimately have "length xs' + length ys' < length xs + length ys" by (cases "xs = []") auto
  then show ?case by simp
qed simp

declare crossover_loop.simps [simp del]

definition Crossover_chunks :: "u8 list \<Rightarrow> u8 list \<Rightarrow> nat \<Rightarrow> rng \<Rightarrow> (nat \<times> u8 list \<times> rng) result" where
  "Crossover_chunks r1 r2 max_size rs =
     (if r1 = [] \<and> r2 = [] then Inl AssertFail
      else
        let (r, rs) = random_value max_size rs; (out, rs) = crossover_loop (r + 1) r1 r2 [] rs in
        Inr (length out, out, rs))"

text \<open>The second input is a vector of its own, so that the ranges do not overlap.\<close>

definition Crossover :: "u8 list \<Rightarrow> nat \<Rightarrow> string list \<Rightarrow> u8 list \<Rightarrow> rng \<Rightarrow> mutated" where
  "Crossover data max_size history crossover_with rs =
     (if max_size < length data \<or> length data = 0 \<or> length crossover_with = 0 then Inr (0, data, history, rs)
      else
        let (k, rs) = random_value 3 rs in
        bindR (if k = 0 then Crossover_chunks data crossover_with max_size rs
               else if k = 1 then
                 bindR (InsertPartOf crossover_with data False max_size rs) (\<lambda>(n, data, rs).
                   if n = 0 then CopyPartOf crossover_with data False rs else Inr (n, data, rs))
               else if k = 2 then CopyPartOf crossover_with data False rs
               else Inl AssertFail) (\<lambda>(new_size, data, rs).
          if \<not> (0 < new_size \<and> new_size \<le> max_size) then Inl AssertFail
          else done_mut ''CrossOver'' history data rs))"

section \<open>Dictionaries\<close>

text \<open>The hash of an entry is left out: it only speeds up the comparison of words.\<close>

record DictionaryEntry =
  word :: "u8 list"
  position_hint :: "nat option"
  use_count :: nat
  success_count :: nat

definition ApplyDictionaryEntry :: "u8 list \<Rightarrow> DictionaryEntry \<Rightarrow> nat \<Rightarrow> rng \<Rightarrow> (nat \<times> u8 list \<times> rng) result" where
  "ApplyDictionaryEntry data e max_size rs =
     (let w = word e; size = length data; hinted = (case position_hint e of None \<Rightarrow> False | Some h \<Rightarrow> h + length w < size) in
      bindR (if hinted then random_bool rs else Inr (False, rs)) (\<lambda>(use_hint, rs).
      bindR (random_bool rs) (\<lambda>(ins, rs).
        if ins then
          if max_size < size + length w then Inr (0, data, rs)
          else
            let (index, rs) = (if use_hint then (the (position_hint e), rs) else random_value (size + 1) rs) in
            bindR (vec_insert data index w) (\<lambda>data. Inr (length data, data, rs))
        else
          if size < length w then Inr (0, data, rs)
          else
            let (index, rs) = (if use_hint then (the (position_hint e), rs) else random_value (size + 1 - length w) rs) in
            bindR (vec_write data index w) (\<lambda>data. Inr (length data, data, rs)))))"

text \<open>
  The history of the chosen entries holds pointers to them: to entries of the dictionary that was loaded at the start, or of
  the persistent one that grows while fuzzing.
\<close>

datatype dict_ref = ManualEntry nat | PersistentEntry nat

definition AddWordFromDictionary ::
  "(nat \<Rightarrow> dict_ref) \<Rightarrow> DictionaryEntry list \<Rightarrow> u8 list \<Rightarrow> nat \<Rightarrow> dict_ref list \<Rightarrow> rng \<Rightarrow>
   (nat \<times> u8 list \<times> DictionaryEntry list \<times> dict_ref list \<times> rng) result" where
  "AddWordFromDictionary ptr dict data max_size chosen rs =
     (if max_size < length data \<or> dict = [] then Inr (0, data, dict, chosen, rs)
      else
        let (k, rs) = random_value (length dict) rs in
        bindR (ApplyDictionaryEntry data (dict ! k) max_size rs) (\<lambda>(n, data, rs).
          if n = 0 then Inr (0, data, dict, chosen, rs)
          else Inr (n, data, dict[k := (dict ! k)\<lparr>use_count := use_count (dict ! k) + 1\<rparr>], chosen @ [ptr k], rs)))"

definition Dictionary ::
  "(nat \<Rightarrow> dict_ref) \<Rightarrow> DictionaryEntry list \<Rightarrow> dict_ref list \<Rightarrow> u8 list \<Rightarrow> nat \<Rightarrow> string list \<Rightarrow> rng \<Rightarrow>
   (nat \<times> u8 list \<times> string list \<times> DictionaryEntry list \<times> dict_ref list \<times> rng) result" where
  "Dictionary ptr dict chosen data max_size history rs =
     bindR (AddWordFromDictionary ptr dict data max_size chosen rs) (\<lambda>(n, data, dict, chosen, rs).
       Inr (n, data, history @ [''Dict''], dict, chosen, rs))"

text \<open>
  \<open>UpdateDictionary\<close>: the chosen entries are counted as successful, copied, and the copies with new words added to the
  persistent dictionary, a vector of fixed capacity.
\<close>

definition dictionary_capacity :: nat where
  "dictionary_capacity = 2 ^ 14"

definition add_word :: "DictionaryEntry \<Rightarrow> DictionaryEntry list \<Rightarrow> DictionaryEntry list result" where
  "add_word e dict =
     (if \<exists>v \<in> set dict. word v = word e then Inr dict
      else if dictionary_capacity \<le> length dict then Inl (RuntimeError ''bad_alloc'')
      else Inr (dict @ [e\<lparr>use_count := 0, success_count := 0\<rparr>]))"

fun add_words :: "DictionaryEntry list \<Rightarrow> DictionaryEntry list \<Rightarrow> DictionaryEntry list result" where
  "add_words [] dict = Inr dict"
| "add_words (e # es) dict = bindR (add_word e dict) (add_words es)"

definition succeed :: "DictionaryEntry list \<Rightarrow> nat \<Rightarrow> (DictionaryEntry \<times> DictionaryEntry list) result" where
  "succeed dict k =
     bindR (idx_vec dict k) (\<lambda>e.
       let e = e\<lparr>success_count := success_count e + 1\<rparr> in
       if word e = [] then Inl AssertFail else Inr (e, dict[k := e]))"

fun count_success ::
  "dict_ref list \<Rightarrow> DictionaryEntry list \<Rightarrow> DictionaryEntry list \<Rightarrow>
   (DictionaryEntry list \<times> DictionaryEntry list \<times> DictionaryEntry list) result" where
  "count_success [] manual persistent = Inr ([], manual, persistent)"
| "count_success (ManualEntry k # ps) manual persistent =
     bindR (succeed manual k) (\<lambda>(e, manual).
     bindR (count_success ps manual persistent) (\<lambda>(es, manual, persistent). Inr (e # es, manual, persistent)))"
| "count_success (PersistentEntry k # ps) manual persistent =
     bindR (succeed persistent k) (\<lambda>(e, persistent).
     bindR (count_success ps manual persistent) (\<lambda>(es, manual, persistent). Inr (e # es, manual, persistent)))"

definition UpdateDictionary ::
  "dict_ref list \<Rightarrow> DictionaryEntry list \<Rightarrow> DictionaryEntry list \<Rightarrow> (DictionaryEntry list \<times> DictionaryEntry list) result" where
  "UpdateDictionary chosen manual persistent =
     bindR (count_success chosen manual persistent) (\<lambda>(copies, manual, persistent).
     bindR (add_words copies persistent) (\<lambda>persistent. Inr (manual, persistent)))"

section \<open>Masks and printable inputs\<close>

definition Mask :: "u8 list \<Rightarrow> u8 list \<Rightarrow> u8 list" where
  "Mask data ms = map snd (filter (\<lambda>p. fst p \<noteq> 0) (zip ms data))"

text \<open>The three loops of \<open>Unmask\<close>, one after the other.\<close>

fun unmask_loop :: "u8 list \<Rightarrow> u8 list \<Rightarrow> u8 list \<Rightarrow> u8 list" where
  "unmask_loop src [] data = data"
| "unmask_loop src (m # ms) [] = []"
| "unmask_loop [] (m # ms) (d # ds) = (if m = 0 then d # unmask_loop [] ms ds else unmask_loop [] ms ds)"
| "unmask_loop (s # src) (m # ms) (d # ds) = (if m \<noteq> 0 then s # unmask_loop src ms ds else d # unmask_loop (s # src) ms ds)"

definition Unmask :: "u8 list \<Rightarrow> u8 list \<Rightarrow> u8 list \<Rightarrow> u8 list result" where
  "Unmask src ms data = (if \<not> length ms \<le> length data then Inl AssertFail else Inr (unmask_loop src ms data))"

definition to_ascii_byte :: "u8 \<Rightarrow> u8" where
  "to_ascii_byte x =
     (let y = x AND 127; space = (y = 32 \<or> (9 \<le> y \<and> y \<le> 13)); printable = (32 \<le> y \<and> y < 127)
      in if \<not> space \<and> \<not> printable then 32 else y)"

definition ToASCII :: "u8 list \<Rightarrow> bool \<times> u8 list" where
  "ToASCII data = (list_ex (\<lambda>x. to_ascii_byte x \<noteq> x) data, map to_ascii_byte data)"

end
