(* ===== verification/LibFuzzer_Corpus.thy ===== *)
theory LibFuzzer_Corpus
  imports LibFuzzer_Parts Fuzzuf_Feedback
begin

text \<open>
  The corpus of libFuzzer: execution results (\<open>state/input_info.hpp\<close>, \<open>input_info.cpp\<close>), the state (\<open>state/state.hpp\<close>), the
  features of an execution (\<open>feature/\<close>) and the corpus with its inputs (\<open>corpus/\<close>, \<open>executor/collect_features.hpp\<close>,
  \<open>executor/add_to_corpus.hpp\<close>). Floating-point numbers are a type parameter with their operations in a record.
\<close>

section \<open>Floating-point numbers\<close>

record 'f floats =
  f_of_nat :: "nat \<Rightarrow> 'f"
  f_add :: "'f \<Rightarrow> 'f \<Rightarrow> 'f"
  f_sub :: "'f \<Rightarrow> 'f \<Rightarrow> 'f"
  f_mul :: "'f \<Rightarrow> 'f \<Rightarrow> 'f"
  f_div :: "'f \<Rightarrow> 'f \<Rightarrow> 'f"
  f_log :: "'f \<Rightarrow> 'f"
  f_to_nat :: "'f \<Rightarrow> nat"
  f_nonzero :: "'f \<Rightarrow> bool"
  f_pos :: "'f \<Rightarrow> bool"

text \<open>\<open>lflog\<close>: the position of the highest bit; the builtin it uses is undefined at 0.\<close>

fun high_bit :: "nat \<Rightarrow> nat" where
  "high_bit x = (if x < 2 then 0 else Suc (high_bit (x div 2)))"

declare high_bit.simps [simp del]

definition lflog :: "nat \<Rightarrow> nat result" where
  "lflog x = (if x = 0 then Inl Undefined else Inr (high_bit x))"

section \<open>Execution results\<close>

record 'f InputInfo =
  info_id :: nat
  enabled :: bool
  time_of_unit :: nat
  features_count :: nat
  executed_mutations_count :: nat
  never_reduce :: bool
  may_delete_file :: bool
  has_focus_function :: bool
  reduced :: bool
  needs_energy_update :: bool
  energy :: 'f
  sum_incidence :: 'f
  unique_feature_set :: "nat list"
  feature_freqs :: "(nat \<times> nat) list"
  status :: PUTExitReasonType
  signal :: nat
  weight :: 'f
  found_unique_features :: nat
  added_to_corpus :: bool
  sha1 :: string
  name :: string
  input_size :: nat

definition new_InputInfo :: "'f floats \<Rightarrow> 'f InputInfo" where
  "new_InputInfo F =
     \<lparr>info_id = 0, enabled = False, time_of_unit = 0, features_count = 0, executed_mutations_count = 0, never_reduce = False,
      may_delete_file = False, has_focus_function = False, reduced = False, needs_energy_update = False, energy = f_of_nat F 0,
      sum_incidence = f_of_nat F 0, unique_feature_set = [], feature_freqs = [], status = FAULT_NONE, signal = 0,
      weight = f_of_nat F 0, found_unique_features = 0, added_to_corpus = False, sha1 = [], name = [], input_size = 0\<rparr>"

text \<open>\<open>std::lower_bound\<close> for the pair of an index and 0 in the vector, which is ordered by the index.\<close>

definition freq_position :: "nat \<Rightarrow> (nat \<times> nat) list \<Rightarrow> nat" where
  "freq_position index fs = length (takeWhile (\<lambda>p. fst p < index) fs)"

definition freq_found :: "nat \<Rightarrow> (nat \<times> nat) list \<Rightarrow> bool" where
  "freq_found index fs = (let l = freq_position index fs in l < length fs \<and> fst (fs ! l) = index)"

definition delete_feature_freq :: "nat \<Rightarrow> 'f InputInfo \<Rightarrow> bool \<times> 'f InputInfo" where
  "delete_feature_freq index info =
     (let fs = feature_freqs info; l = freq_position index fs in
      if fs = [] then (False, info)
      else if freq_found index fs then (True, info\<lparr>feature_freqs := take l fs @ drop (Suc l) fs\<rparr>)
      else (False, info))"

definition updateFeatureFrequency :: "nat \<Rightarrow> 'f InputInfo \<Rightarrow> 'f InputInfo" where
  "updateFeatureFrequency index info =
     (let info = info\<lparr>needs_energy_update := True\<rparr>; fs = feature_freqs info; l = freq_position index fs in
      if fs = [] then info\<lparr>feature_freqs := [(index, 1)]\<rparr>
      else if freq_found index fs then info\<lparr>feature_freqs := fs[l := (index, (snd (fs ! l) + 1) mod 2 ^ 16)]\<rparr>
      else info\<lparr>feature_freqs := take l fs @ (index, 1) # drop l fs\<rparr>)"

definition perf_score :: "nat \<Rightarrow> nat \<Rightarrow> nat" where
  "perf_score time average =
     (if average * 10 < time then 10 else if average * 4 < time then 25 else if average * 2 < time then 50
      else if average * 4 < time * 3 then 75 else if time * 4 < average then 300 else if time * 3 < average then 200
      else if time * 2 < average then 150 else 100)"

definition updateEnergy :: "'f floats \<Rightarrow> nat \<Rightarrow> bool \<Rightarrow> nat \<Rightarrow> 'f InputInfo \<Rightarrow> 'f InputInfo" where
  "updateEnergy F global_number_of_features scale_per_exec_time average info =
     (let z = f_of_nat F 0;
          (e, s) = fold (\<lambda>(_, incidence) (e, s).
            let local = f_of_nat F (incidence + 1) in (f_sub F e (f_mul F local (f_log F local)), f_add F s local))
            (feature_freqs info) (z, z);
          s = f_add F s (f_sub F (f_of_nat F global_number_of_features) (f_of_nat F (length (feature_freqs info))));
          abd = f_of_nat F (executed_mutations_count info + 1);
          e = f_sub F e (f_mul F abd (f_log F abd)); s = f_add F s abd;
          e = (if f_nonzero F s then f_add F (f_div F e s) (f_log F s) else e);
          e = (if scale_per_exec_time then f_mul F e (f_of_nat F (perf_score (time_of_unit info) average)) else e)
      in info\<lparr>enabled := True, energy := e, sum_incidence := s\<rparr>)"

section \<open>The state\<close>

record Config =
  entropic_enabled :: bool
  number_of_rarest_features :: nat
  feature_frequency_threshold :: nat
  scale_per_exec_time :: bool
  reduce_depth :: bool
  use_counters :: bool
  shrink :: bool
  reduce_inputs :: bool

text \<open>The distribution is kept by its weights: the intervals are always the numbers from 0 on.\<close>

record 'f State =
  config :: Config
  corpus_distribution :: "'f list"
  distribution_needs_update :: bool
  rare_features :: "nat list"
  freq_of_most_abundant_rare_feature :: nat
  global_feature_freqs :: "nat list"
  mutations_count :: nat
  added_features_count :: nat
  updated_features_count :: nat
  input_sizes_per_feature :: "nat list"
  smallest_element_per_feature :: "nat list"

definition new_State :: "Config \<Rightarrow> nat \<Rightarrow> 'f State" where
  "new_State conf feature_set_size =
     \<lparr>config = conf, corpus_distribution = [], distribution_needs_update = True, rare_features = [],
      freq_of_most_abundant_rare_feature = 0, global_feature_freqs = replicate feature_set_size 0, mutations_count = 0,
      added_features_count = 0, updated_features_count = 0, input_sizes_per_feature = replicate feature_set_size 0,
      smallest_element_per_feature = replicate feature_set_size 0\<rparr>"

text \<open>
  The inputs are kept in memory, or in a file that \<open>OverwriteThenUnload\<close> has written and unloaded. Every input gets the
  next number as its identifier.
\<close>

datatype stored = OnMemory "u8 list" | OnDisk string "u8 list"

record 'f FullCorpus =
  inputs :: "nat \<rightharpoonup> stored"
  next_id :: nat
  corpus :: "'f InputInfo list"

section \<open>Features\<close>

definition CounterToFeature :: "u8 \<Rightarrow> nat result" where
  "CounterToFeature counter =
     (if counter = 0 then Inl AssertFail
      else Inr (if 128 \<le> counter then 7 else if 32 \<le> counter then 6 else if 16 \<le> counter then 5 else if 8 \<le> counter then 4
                else if 4 \<le> counter then 3 else if 3 \<le> counter then 2 else if 2 \<le> counter then 1 else 0))"

text \<open>
  \<open>ForEachNonZeroByte\<close> gives the calls of its callback, each with the distance from the beginning and the byte. The bytes
  before the first aligned address are read one by one, then words of eight bytes, then the bytes that are left.
\<close>

fun scan_bytes :: "nat \<Rightarrow> u8 list \<Rightarrow> (nat \<times> u8) list" where
  "scan_bytes i [] = []"
| "scan_bytes i (b # bs) = (if b \<noteq> 0 then (i, b) # scan_bytes (Suc i) bs else scan_bytes (Suc i) bs)"

primrec scan_bundle :: "nat \<Rightarrow> nat \<Rightarrow> nat \<Rightarrow> (nat \<times> u8) list" where
  "scan_bundle 0 i bundle = []"
| "scan_bundle (Suc n) i bundle =
     (let v = of_nat (bundle mod 256) in (if v \<noteq> 0 then [(i, v)] else []) @ scan_bundle n (Suc i) (bundle div 256))"

fun scan_words :: "nat \<Rightarrow> u8 list \<Rightarrow> (nat \<times> u8) list" where
  "scan_words i bs =
     (if 8 \<le> length bs then
        let bundle = bytes_value (take 8 bs) in
        (if bundle \<noteq> 0 then scan_bundle 8 i bundle else []) @ scan_words (i + 8) (drop 8 bs)
      else scan_bytes i bs)"

declare scan_words.simps [simp del]

definition ForEachNonZeroByte :: "nat \<Rightarrow> u8 list \<Rightarrow> (nat \<times> u8) list" where
  "ForEachNonZeroByte address data =
     (let n = min ((8 - address mod 8) mod 8) (length data) in scan_bytes 0 (take n data) @ scan_words n (drop n data))"

text \<open>The feature of a byte, in the arithmetic of 32 bits, and the features of a coverage map in the order of the calls.\<close>

definition feature_of :: "bool \<Rightarrow> nat \<Rightarrow> nat \<times> u8 \<Rightarrow> nat result" where
  "feature_of counters first_feature c =
     (case c of (index, counter) \<Rightarrow>
        if counters then bindR (CounterToFeature counter) (\<lambda>k. Inr ((first_feature * 8 + index * 8 + k) mod 2 ^ 32))
        else Inr ((first_feature + index) mod 2 ^ 32))"

section \<open>Corpus\<close>

definition modify_corpus :: "nat \<Rightarrow> ('f InputInfo \<Rightarrow> 'f InputInfo) \<Rightarrow> 'f FullCorpus \<Rightarrow> 'f FullCorpus" where
  "modify_corpus k f c = c\<lparr>corpus := (corpus c)[k := f (corpus c ! k)]\<rparr>"

definition erase_input :: "nat \<Rightarrow> 'f FullCorpus \<Rightarrow> 'f FullCorpus" where
  "erase_input i c = c\<lparr>inputs := (inputs c)(i := None)\<rparr>"

definition cleared_info :: "'f floats \<Rightarrow> 'f InputInfo \<Rightarrow> 'f InputInfo" where
  "cleared_info F info = (new_InputInfo F)\<lparr>info_id := info_id info, needs_energy_update := False\<rparr>"

definition deleteInput :: "'f floats \<Rightarrow> nat \<Rightarrow> 'f State \<times> 'f FullCorpus \<Rightarrow> ('f State \<times> 'f FullCorpus) result" where
  "deleteInput F index sc =
     (case sc of (st, c) \<Rightarrow>
        if \<not> index < length (corpus c) then Inl Undefined
        else Inr (st\<lparr>distribution_needs_update := True\<rparr>, modify_corpus index (cleared_info F) (erase_input (info_id (corpus c ! index)) c)))"

text \<open>\<open>AddRareFeature\<close>: the loop over the rare features for the most and the second most abundant one and the place of the first.\<close>

definition abundant_step :: "nat list \<Rightarrow> nat list \<Rightarrow> nat \<Rightarrow> nat \<times> nat \<times> nat \<Rightarrow> nat \<times> nat \<times> nat" where
  "abundant_step freqs rare i acc =
     (case acc of (a, b, del) \<Rightarrow> if freqs ! a \<le> freqs ! (rare ! i) then (rare ! i, a, i) else (a, b, del))"

definition most_abundant :: "nat list \<Rightarrow> nat list \<Rightarrow> nat \<times> nat \<times> nat" where
  "most_abundant freqs rare = fold (abundant_step freqs rare) [0..<length rare] (rare ! 0, rare ! 0, 0)"

definition forget_feature :: "nat \<Rightarrow> 'f InputInfo \<Rightarrow> 'f InputInfo" where
  "forget_feature index info =
     (case delete_feature_freq index info of (deleted, info) \<Rightarrow> if deleted then info\<lparr>needs_energy_update := True\<rparr> else info)"

function drop_rare :: "'f State \<times> 'f FullCorpus \<Rightarrow> ('f State \<times> 'f FullCorpus) result" where
  "drop_rare (st, c) =
     (let rare = rare_features st; freqs = global_feature_freqs st in
      if number_of_rarest_features (config st) < length rare \<and>
         feature_frequency_threshold (config st) < freq_of_most_abundant_rare_feature st then
        if \<not> list_all (\<lambda>i. i < length freqs) rare then Inl Undefined
        else
          let (a, b, del) = most_abundant freqs rare in
          drop_rare (st\<lparr>rare_features := butlast (rare[del := last rare]), freq_of_most_abundant_rare_feature := freqs ! b\<rparr>,
                     c\<lparr>corpus := map (forget_feature a) (corpus c)\<rparr>)
      else Inr (st, c))"
  by pat_completeness auto
termination
  by (relation "measure (\<lambda>(st, c). length (rare_features st))") auto

declare drop_rare.simps [simp del]

definition smooth :: "'f floats \<Rightarrow> nat \<Rightarrow> 'f InputInfo \<Rightarrow> 'f InputInfo result" where
  "smooth F index info =
     (if \<not> enabled info then Inr info
      else
        let info = snd (delete_feature_freq index info) in
        if f_pos F (energy info) then
          let s = f_add F (sum_incidence info) (f_of_nat F 1) in
          bindR (lflog (f_to_nat F s)) (\<lambda>l.
            Inr (info\<lparr>sum_incidence := s, energy := f_add F (energy info) (f_div F (f_of_nat F l) s)\<rparr>))
        else Inr info)"

definition AddRareFeature :: "'f floats \<Rightarrow> nat \<Rightarrow> 'f State \<times> 'f FullCorpus \<Rightarrow> ('f State \<times> 'f FullCorpus) result" where
  "AddRareFeature F index sc =
     bindR (drop_rare sc) (\<lambda>(st, c).
       if \<not> index < length (global_feature_freqs st) then Inl Undefined
       else
         bindR (mapR (smooth F index) (corpus c)) (\<lambda>infos.
           Inr (st\<lparr>rare_features := rare_features st @ [index], global_feature_freqs := (global_feature_freqs st)[index := 0],
                   distribution_needs_update := True\<rparr>, c\<lparr>corpus := infos\<rparr>)))"

text \<open>\<open>AddFeature\<close>: the owner of the feature loses it, and is deleted with its last feature.\<close>

definition lose_feature :: "'f floats \<Rightarrow> nat \<Rightarrow> 'f State \<times> 'f FullCorpus \<Rightarrow> ('f State \<times> 'f FullCorpus) result" where
  "lose_feature F old_index sc =
     (case sc of (st, c) \<Rightarrow>
        if \<not> old_index < length (corpus c) then Inl Undefined
        else
          let testcase = corpus c ! old_index in
          if \<not> enabled testcase then Inr (st, c)
          else if features_count testcase = 0 then Inl AssertFail
          else
            let c = modify_corpus old_index (\<lambda>t. t\<lparr>features_count := features_count t - 1\<rparr>) c in
            if features_count testcase = 1 then deleteInput F old_index (st, c) else Inr (st, c))"

definition AddFeature ::
  "'f floats \<Rightarrow> nat \<Rightarrow> nat \<Rightarrow> bool \<Rightarrow> 'f State \<times> 'f FullCorpus \<Rightarrow> (bool \<times> 'f State \<times> 'f FullCorpus) result" where
  "AddFeature F index new_size shrinks sc =
     (case sc of (st, c) \<Rightarrow>
        if new_size = 0 then Inl AssertFail
        else if length (input_sizes_per_feature st) = 0 then Inl Undefined
        else
          let index = index mod length (input_sizes_per_feature st); old_size = input_sizes_per_feature st ! index in
          if old_size = 0 \<or> (shrinks \<and> new_size < old_size) then
            bindR (if 0 < old_size then
                     bindR (idx_vec (smallest_element_per_feature st) index) (\<lambda>old_index. lose_feature F old_index (st, c))
                   else
                     let st = st\<lparr>added_features_count := added_features_count st + 1\<rparr> in
                     if entropic_enabled (config st) then AddRareFeature F index (st, c) else Inr (st, c)) (\<lambda>(st, c).
              if \<not> index < length (smallest_element_per_feature st) then Inl Undefined
              else
                Inr (True, st\<lparr>updated_features_count := updated_features_count st + 1,
                              smallest_element_per_feature := (smallest_element_per_feature st)[index := length (corpus c) mod 2 ^ 32],
                              input_sizes_per_feature := (input_sizes_per_feature st)[index := new_size]\<rparr>, c))
          else Inr (False, st, c))"

definition UpdateFeatureFrequency :: "nat \<Rightarrow> 'f State \<times> 'f InputInfo \<Rightarrow> ('f State \<times> 'f InputInfo) result" where
  "UpdateFeatureFrequency index si =
     (case si of (st, info) \<Rightarrow>
        if length (global_feature_freqs st) = 0 then Inl Undefined
        else
          let index32 = index mod length (global_feature_freqs st); freq = global_feature_freqs st ! index32 in
          if freq = 65535 then Inr (st, info)
          else
            let st = st\<lparr>global_feature_freqs := (global_feature_freqs st)[index32 := freq + 1]\<rparr> in
            if freq_of_most_abundant_rare_feature st < freq \<or> index32 \<notin> set (rare_features st) then Inr (st, info)
            else
              let st = (if freq = freq_of_most_abundant_rare_feature st
                        then st\<lparr>freq_of_most_abundant_rare_feature := freq_of_most_abundant_rare_feature st + 1\<rparr> else st)
              in Inr (st, updateFeatureFrequency index info))"

section \<open>Collecting features\<close>

text \<open>
  \<open>executor::CollectFeatures\<close>. The callback keeps the set of the features that were added and the number of those that the
  result already had; \<open>std::binary_search\<close> is on a sorted vector.
\<close>

record 'f Collecting =
  col_state :: "'f State"
  col_corpus :: "'f FullCorpus"
  col_info :: "'f InputInfo"
  col_unique :: "nat list"
  col_found :: nat

definition collect_feature :: "'f floats \<Rightarrow> nat \<Rightarrow> nat \<Rightarrow> 'f Collecting \<Rightarrow> 'f Collecting result" where
  "collect_feature F len f s =
     (let conf = config (col_state s) in
      bindR (AddFeature F f (len mod 2 ^ 32) (shrink conf) (col_state s, col_corpus s)) (\<lambda>(added, st, c).
      bindR (if entropic_enabled conf then UpdateFeatureFrequency f (st, col_info s) else Inr (st, col_info s)) (\<lambda>(st, info).
        Inr (s\<lparr>col_state := st, col_corpus := c, col_info := info,
               col_unique := (if added then col_unique s @ [f] else col_unique s),
               col_found := (if reduce_inputs conf \<and> \<not> never_reduce info \<and> f \<in> set (unique_feature_set info)
                             then col_found s + 1 else col_found s)\<rparr>))))"

fun collect_features :: "'f floats \<Rightarrow> nat \<Rightarrow> nat \<Rightarrow> (nat \<times> u8) list \<Rightarrow> 'f Collecting \<Rightarrow> 'f Collecting result" where
  "collect_features F len offset [] s = Inr s"
| "collect_features F len offset (x # xs) s =
     bindR (feature_of (use_counters (config (col_state s))) offset x) (\<lambda>f.
     bindR (collect_feature F len f s) (collect_features F len offset xs))"

definition CollectFeatures ::
  "'f floats \<Rightarrow> nat \<Rightarrow> u8 list \<Rightarrow> u8 list \<Rightarrow> nat \<Rightarrow> 'f State \<times> 'f FullCorpus \<times> 'f InputInfo \<Rightarrow>
   ('f State \<times> 'f FullCorpus \<times> 'f InputInfo) result" where
  "CollectFeatures F address data cov offset sci =
     (case sci of (st, c, info) \<Rightarrow>
        bindR (collect_features F (length data) offset (ForEachNonZeroByte address cov)
          \<lparr>col_state = st, col_corpus = c, col_info = info, col_unique = [], col_found = 0\<rparr>) (\<lambda>s.
          Inr (col_state s, col_corpus s,
               (col_info s)\<lparr>found_unique_features := col_found s,
                            features_count := updated_features_count (col_state s) - updated_features_count st,
                            unique_feature_set := col_unique s\<rparr>)))"

section \<open>Adding to the corpus\<close>

text \<open>
  The hash of the contents is an argument, and so is the address of the coverage map above. A new element goes to the end of
  the sequence if its identifier is new.
\<close>

definition insert_corpus :: "'f InputInfo \<Rightarrow> 'f FullCorpus \<Rightarrow> 'f FullCorpus" where
  "insert_corpus info c = (if \<exists>e \<in> set (corpus c). info_id e = info_id info then c else c\<lparr>corpus := corpus c @ [info]\<rparr>)"

definition find_corpus :: "('f InputInfo \<Rightarrow> bool) \<Rightarrow> 'f FullCorpus \<Rightarrow> nat option" where
  "find_corpus p c = List.find (\<lambda>k. p (corpus c ! k)) [0..<length (corpus c)]"

definition create_input :: "bool \<Rightarrow> string \<Rightarrow> u8 list \<Rightarrow> 'f FullCorpus \<Rightarrow> nat \<times> 'f FullCorpus" where
  "create_input persistent path data c =
     (next_id c, c\<lparr>inputs := (inputs c)(next_id c \<mapsto> (if persistent then OnDisk path data else OnMemory data)),
                   next_id := next_id c + 1\<rparr>)"

definition named :: "(u8 list \<Rightarrow> string) \<Rightarrow> u8 list \<Rightarrow> 'f InputInfo \<Rightarrow> 'f InputInfo" where
  "named hash data info =
     info\<lparr>sha1 := hash data, input_size := length data, name := (if name info = [] then hash data else name info)\<rparr>"

definition corpus_AddToCorpus ::
  "'f floats \<Rightarrow> (u8 list \<Rightarrow> string) \<Rightarrow> u8 list \<Rightarrow> bool \<Rightarrow> string \<Rightarrow> 'f FullCorpus \<times> 'f InputInfo \<Rightarrow> ('f FullCorpus \<times> 'f InputInfo) result" where
  "corpus_AddToCorpus F hash data persistent path_prefix ci =
     (case ci of (c, info) \<Rightarrow>
        if data = [] then Inl AssertFail
        else if \<not> length (corpus c) < 2 ^ 32 - 1 then Inl AssertFail
        else
          let info = named hash data info; existing = find_corpus (\<lambda>e. name e = name info) c;
              c = (case existing of None \<Rightarrow> c | Some k \<Rightarrow> erase_input (info_id (corpus c ! k)) c);
              (i, c) = create_input persistent (path_prefix @ ''/'' @ name info) data c;
              info = info\<lparr>info_id := i, unique_feature_set := sort (unique_feature_set info)\<rparr>
          in case existing of
               None \<Rightarrow> Inr (insert_corpus info c, info)
             | Some k \<Rightarrow>
                 let info = info\<lparr>reduced := True\<rparr>;
                     c = modify_corpus k (cleared_info F) (erase_input (info_id (corpus c ! k)) c)
                 in Inr (insert_corpus info c, info))"

definition replaceCorpus ::
  "(u8 list \<Rightarrow> string) \<Rightarrow> u8 list \<Rightarrow> bool \<Rightarrow> string \<Rightarrow> 'f FullCorpus \<times> 'f InputInfo \<Rightarrow> ('f FullCorpus \<times> 'f InputInfo) result" where
  "replaceCorpus hash data persistent path_prefix ci =
     (case ci of (c, info) \<Rightarrow>
        if data = [] then Inl AssertFail
        else if \<not> length (corpus c) < 2 ^ 32 - 1 then Inl AssertFail
        else
          let info = named hash data info; old_id = info_id info; existing = find_corpus (\<lambda>e. info_id e = old_id) c;
              c = (if existing = None then c else erase_input old_id c);
              (i, c) = create_input persistent (path_prefix @ ''/'' @ name info) data c;
              info = info\<lparr>info_id := i, unique_feature_set := sort (unique_feature_set info)\<rparr>
          in case existing of
               None \<Rightarrow> Inr (insert_corpus info c, info)
             | Some k \<Rightarrow> let info = info\<lparr>reduced := True\<rparr> in Inr (modify_corpus k (\<lambda>_. info) c, info))"

definition maximal_energy :: "'f floats \<Rightarrow> bool \<Rightarrow> bool \<Rightarrow> 'f State \<Rightarrow> 'f InputInfo \<Rightarrow> 'f InputInfo" where
  "maximal_energy F force may_delete st info =
     (let n = length (rare_features st) in
      info\<lparr>never_reduce := force, may_delete_file := may_delete, has_focus_function := False, needs_energy_update := False,
           energy := (if n = 0 then f_of_nat F 1 else f_log F (f_of_nat F n)), sum_incidence := f_of_nat F n\<rparr>)"

definition AddToCorpus ::
  "'f floats \<Rightarrow> (u8 list \<Rightarrow> string) \<Rightarrow> u8 list \<Rightarrow> bool \<Rightarrow> bool \<Rightarrow> bool \<Rightarrow> bool \<Rightarrow> string \<Rightarrow> 'f State \<times> 'f FullCorpus \<times> 'f InputInfo \<Rightarrow>
   (bool \<times> 'f State \<times> 'f FullCorpus \<times> 'f InputInfo) result" where
  "AddToCorpus F hash data force may_delete persistent strict_match path_prefix sci =
     (case sci of (st, c, info) \<Rightarrow>
        if features_count info \<noteq> 0 \<or> force then
          let info = (maximal_energy F force may_delete st info)\<lparr>added_to_corpus := features_count info \<noteq> 0\<rparr> in
          bindR (corpus_AddToCorpus F hash data persistent path_prefix (c, info)) (\<lambda>(c, info).
            Inr (True, st\<lparr>distribution_needs_update := True\<rparr>, c, info))
        else if enabled info \<and> found_unique_features info \<noteq> 0 \<and> found_unique_features info = length (unique_feature_set info) \<and>
                length data < input_size info \<and>
                (\<not> strict_match \<or> (case find_corpus (\<lambda>e. info_id e = info_id info) c of
                   None \<Rightarrow> False | Some k \<Rightarrow> unique_feature_set (corpus c ! k) = unique_feature_set info)) then
          let info = (maximal_energy F force may_delete st info)\<lparr>added_to_corpus := True\<rparr> in
          bindR (replaceCorpus hash data persistent path_prefix (c, info)) (\<lambda>(c, info). Inr (True, st, c, info))
        else Inr (False, st, c, info\<lparr>added_to_corpus := False\<rparr>))"

end
