(* ===== verification/LibFuzzer_Loop.thy ===== *)
theory LibFuzzer_Loop
  imports LibFuzzer_Corpus
begin

text \<open>
  The schedule of libFuzzer (\<open>select_seed.hpp\<close>), its flow (\<open>create.hpp\<close> with the nodes of \<open>hierarflow/\<close>) and the fuzzer
  (\<open>algorithms/libfuzzer/fuzzer.cpp\<close>). The variables that the nodes share are one record, together with what the nodes own:
  the dictionary loaded at the start, the target and the files with the solutions.
\<close>

section \<open>What the fuzzer is given\<close>

record Observation =
  exit_reason :: PUTExitReasonType
  exit_signal :: nat
  elapsed :: nat
  afl_feedback :: "u8 list"
  bb_feedback :: "u8 list"
  feedback_address :: nat

text \<open>
  The floating-point numbers, the hash of \<open>ToSerializedSha1\<close>, \<open>std::shuffle\<close>, the draw from a
  \<open>std::piecewise_constant_distribution\<close> with the given weights, and the executor with the target.
\<close>

record ('f, 'w) Platform =
  floats :: "'f floats"
  hash :: "u8 list \<Rightarrow> string"
  shuf :: shuffle
  draw :: "'f list \<Rightarrow> rng \<Rightarrow> nat \<times> rng"
  put :: "'w \<Rightarrow> u8 list \<Rightarrow> Observation \<times> 'w"

record FuzzerCreateInfo =
  input_dir :: string
  output_dir :: string
  mutation_depth :: nat
  max_mutation_retry_count :: nat
  max_mutation_factor :: nat
  do_crossover :: bool
  only_ascii :: bool
  use_afl_coverage :: bool
  sparse_energy_updates :: nat
  crashed_only :: bool
  max_input_length :: nat
  len_control :: nat
  merge :: bool
  crossover_uniform_dist :: bool
  total_cycles :: int

record ('f, 'w) Variables =
  lf_state :: "'f State"
  lf_corpus :: "'f FullCorpus"
  lf_rng :: rng
  lf_input :: "u8 list"
  lf_crossover :: "u8 list"
  max_input_size :: nat
  mutation_history :: "string list"
  persistent_auto_dict :: "DictionaryEntry list"
  dict_history :: "dict_ref list"
  exec_result :: "'f InputInfo"
  lf_coverage :: "u8 list"
  coverage_address :: nat
  run_count :: nat
  last_corpus_update_run :: nat
  manual_dictionary :: "DictionaryEntry list"
  target :: 'w
  solutions :: "(string \<times> u8 list) list"

section \<open>Schedule\<close>

definition vanilla_weight :: "'f floats \<Rightarrow> nat \<Rightarrow> 'f InputInfo \<Rightarrow> 'f" where
  "vanilla_weight F i info =
     (if features_count info \<noteq> 0 then f_of_nat F ((i + 1) * (if has_focus_function info then 1000 else 1)) else f_of_nat F 0)"

definition GenerateVanillaSchedule :: "'f floats \<Rightarrow> 'f FullCorpus \<Rightarrow> 'f list \<times> 'f FullCorpus" where
  "GenerateVanillaSchedule F c =
     (let ws = map (\<lambda>(i, info). vanilla_weight F i info) (enumerate 0 (corpus c))
      in (ws, c\<lparr>corpus := map (\<lambda>(w, info). info\<lparr>weight := w\<rparr>) (zip ws (corpus c))\<rparr>))"

definition refresh_energy :: "'f floats \<Rightarrow> 'f State \<Rightarrow> nat \<Rightarrow> 'f InputInfo \<Rightarrow> 'f InputInfo" where
  "refresh_energy F st average info =
     (if enabled info \<and> needs_energy_update info \<and> f_nonzero F (energy info)
      then updateEnergy F (length (rare_features st)) (scale_per_exec_time (config st)) average (info\<lparr>needs_energy_update := False\<rparr>)
      else info)"

definition entropic_weight :: "'f floats \<Rightarrow> 'f State \<Rightarrow> nat \<Rightarrow> nat \<Rightarrow> 'f InputInfo \<Rightarrow> 'f" where
  "entropic_weight F st factor n info =
     (if features_count info = 0 then f_of_nat F 0
      else if mutations_count st div n < executed_mutations_count info div factor then f_of_nat F 0
      else energy info)"

text \<open>The result also says whether some weight is positive; a factor of 0 divides by zero unless no entry has a feature.\<close>

definition GenerateEntropicSchedule ::
  "'f floats \<Rightarrow> 'f State \<Rightarrow> nat \<Rightarrow> 'f FullCorpus \<Rightarrow> (bool \<times> 'f list \<times> 'f FullCorpus) result" where
  "GenerateEntropicSchedule F st factor c =
     (if \<not> entropic_enabled (config st) then Inr (False, [], c)
      else
        let n = length (corpus c) in
        if n = 0 then Inl Undefined
        else
          let average = sum_list (map time_of_unit (corpus c)) div n;
              infos = map (refresh_energy F st average) (corpus c) in
          if factor = 0 \<and> (\<exists>e \<in> set infos. features_count e \<noteq> 0) then Inl Undefined
          else
            let ws = map (entropic_weight F st factor n) infos
            in Inr (\<exists>w \<in> set ws. f_pos F w, ws, c\<lparr>corpus := map (\<lambda>(w, info). info\<lparr>weight := w\<rparr>) (zip ws infos)\<rparr>))"

definition UpdateDistribution ::
  "'f floats \<Rightarrow> nat \<Rightarrow> nat \<Rightarrow> 'f State \<times> 'f FullCorpus \<times> rng \<Rightarrow> (bool \<times> 'f State \<times> 'f FullCorpus \<times> rng) result" where
  "UpdateDistribution F sparse factor scr =
     (case scr of (st, c, rs) \<Rightarrow>
        let (r, rs) = (if \<not> distribution_needs_update st \<and> entropic_enabled (config st) then random_value sparse rs else (0, rs)) in
        if \<not> distribution_needs_update st \<and> (\<not> entropic_enabled (config st) \<or> r \<noteq> 0) then Inr (False, st, c, rs)
        else
          let st = st\<lparr>distribution_needs_update := False\<rparr> in
          if corpus c = [] then Inl AssertFail
          else
            bindR (if entropic_enabled (config st) then GenerateEntropicSchedule F st factor c else Inr (False, [], c)) (\<lambda>(entropic, ws, c).
              let (ws, c) = (if entropic then (ws, c) else GenerateVanillaSchedule F c);
                  ws = (if \<exists>w \<in> set ws. f_nonzero F w then ws else map (\<lambda>_. f_of_nat F 1) ws)
              in Inr (True, st\<lparr>corpus_distribution := ws\<rparr>, c, rs)))"

text \<open>What \<open>GetBuf\<close> and \<open>GetLen\<close> give: an input that was unloaded has no buffer and length 0.\<close>

definition stored_bytes :: "stored \<Rightarrow> u8 list" where
  "stored_bytes s = (case s of OnMemory bs \<Rightarrow> bs | OnDisk _ _ \<Rightarrow> [])"

definition lf_SelectSeed ::
  "('f, 'w) Platform \<Rightarrow> bool \<Rightarrow> 'f State \<Rightarrow> 'f FullCorpus \<Rightarrow> rng \<Rightarrow> (u8 list \<times> 'f InputInfo \<times> rng) result" where
  "lf_SelectSeed P uniform_dist st c rs =
     (let (index, rs) = (if uniform_dist then random_value (length (corpus c)) rs else draw P (corpus_distribution st) rs) in
      if \<not> index < length (corpus c) then Inl AssertFail
      else
        let e = corpus c ! index; info = (new_InputInfo (floats P))\<lparr>executed_mutations_count := executed_mutations_count e\<rparr> in
        if enabled e then
          case inputs c (info_id e) of None \<Rightarrow> Inl Undefined | Some s \<Rightarrow> Inr (stored_bytes s, info, rs)
        else Inr ([], info, rs))"

section \<open>Mutation\<close>

type_synonym ('f, 'w) node = "('f, 'w) Variables \<Rightarrow> ('f, 'w) Variables result"

definition mutator_node :: "(u8 list \<Rightarrow> nat \<Rightarrow> string list \<Rightarrow> rng \<Rightarrow> mutated) \<Rightarrow> ('f, 'w) node" where
  "mutator_node m v =
     bindR (m (lf_input v) (max_input_size v) (mutation_history v) (lf_rng v)) (\<lambda>(_, data, history, rs).
       Inr (v\<lparr>lf_input := data, mutation_history := history, lf_rng := rs\<rparr>))"

definition crossover_node :: "('f, 'w) node" where
  "crossover_node v = mutator_node (\<lambda>data max_size history. Crossover data max_size history (lf_crossover v)) v"

definition static_dict_node :: "('f, 'w) node" where
  "static_dict_node v =
     bindR (Dictionary ManualEntry (manual_dictionary v) (dict_history v) (lf_input v) (max_input_size v) (mutation_history v) (lf_rng v))
       (\<lambda>(_, data, history, dict, chosen, rs).
       Inr (v\<lparr>lf_input := data, mutation_history := history, manual_dictionary := dict, dict_history := chosen, lf_rng := rs\<rparr>))"

definition dynamic_dict_node :: "('f, 'w) node" where
  "dynamic_dict_node v =
     bindR (Dictionary PersistentEntry (persistent_auto_dict v) (dict_history v) (lf_input v) (max_input_size v) (mutation_history v) (lf_rng v))
       (\<lambda>(_, data, history, dict, chosen, rs).
       Inr (v\<lparr>lf_input := data, mutation_history := history, persistent_auto_dict := dict, dict_history := chosen, lf_rng := rs\<rparr>))"

text \<open>\<open>createMutator\<close>: one of the mutators is called at random, then the input is made printable if that is asked for.\<close>

definition mutators :: "('f, 'w) Platform \<Rightarrow> FuzzerCreateInfo \<Rightarrow> ('f, 'w) node list" where
  "mutators P ci =
     [mutator_node EraseBytes, mutator_node InsertByte, mutator_node InsertRepeatedBytes, mutator_node ChangeByte,
      mutator_node ChangeBit, mutator_node (ShuffleBytes (shuf P)), mutator_node ChangeASCIIInteger,
      mutator_node ChangeBinaryInteger, mutator_node CopyPart] @
     (if do_crossover ci then [crossover_node] else []) @ [static_dict_node, dynamic_dict_node]"

definition RandomCall :: "('f, 'w) node list \<Rightarrow> ('f, 'w) node" where
  "RandomCall nodes v =
     (if nodes = [] then Inr v
      else let (n, rs) = random_value (length nodes) (lf_rng v) in (nodes ! n) (v\<lparr>lf_rng := rs\<rparr>))"

definition createMutator :: "('f, 'w) Platform \<Rightarrow> FuzzerCreateInfo \<Rightarrow> ('f, 'w) node" where
  "createMutator P ci v =
     bindR (RandomCall (mutators P ci) v) (\<lambda>v. Inr (if only_ascii ci then v\<lparr>lf_input := snd (ToASCII (lf_input v))\<rparr> else v))"

primrec repeat_until_mutated :: "('f, 'w) node \<Rightarrow> nat \<Rightarrow> nat \<Rightarrow> ('f, 'w) node" where
  "repeat_until_mutated f expected 0 v = Inr v"
| "repeat_until_mutated f expected (Suc c) v =
     bindR (f v) (\<lambda>v. if expected \<le> length (mutation_history v) then Inr v else repeat_until_mutated f expected c v)"

definition RepeatUntilMutated :: "('f, 'w) node \<Rightarrow> nat \<Rightarrow> nat \<Rightarrow> ('f, 'w) node" where
  "RepeatUntilMutated f expected most v = repeat_until_mutated f (length (mutation_history v) + expected) most v"

section \<open>Execution and feedback\<close>

definition Execute :: "('f, 'w) Platform \<Rightarrow> bool \<Rightarrow> ('f, 'w) node" where
  "Execute P afl_coverage v =
     (let (obs, w) = put P (target v) (lf_input v) in
      Inr (v\<lparr>target := w,
             exec_result := (exec_result v)\<lparr>enabled := True, time_of_unit := elapsed obs, status := exit_reason obs,
               signal := exit_signal obs, added_to_corpus := False, found_unique_features := 0\<rparr>,
             lf_coverage := (if afl_coverage then afl_feedback obs else bb_feedback obs),
             coverage_address := feedback_address obs\<rparr>))"

definition collect_node :: "('f, 'w) Platform \<Rightarrow> ('f, 'w) node" where
  "collect_node P v =
     bindR (CollectFeatures (floats P) (coverage_address v) (lf_input v) (lf_coverage v) 0 (lf_state v, lf_corpus v, exec_result v))
       (\<lambda>(st, c, info). Inr (v\<lparr>lf_state := st, lf_corpus := c, exec_result := info\<rparr>))"

definition add_node :: "('f, 'w) Platform \<Rightarrow> FuzzerCreateInfo \<Rightarrow> bool \<Rightarrow> bool \<Rightarrow> bool \<Rightarrow> bool \<Rightarrow> ('f, 'w) node" where
  "add_node P ci force may_delete persistent strict_match v =
     bindR (AddToCorpus (floats P) (hash P) (lf_input v) force may_delete persistent strict_match (output_dir ci)
              (lf_state v, lf_corpus v, exec_result v))
       (\<lambda>(_, st, c, info). Inr (v\<lparr>lf_state := st, lf_corpus := c, exec_result := info\<rparr>))"

definition createExecuteAndFeedback ::
  "('f, 'w) Platform \<Rightarrow> FuzzerCreateInfo \<Rightarrow> bool \<Rightarrow> bool \<Rightarrow> bool \<Rightarrow> bool \<Rightarrow> ('f, 'w) node" where
  "createExecuteAndFeedback P ci force may_delete persistent strict_match v =
     bindR (Execute P (use_afl_coverage ci) (v\<lparr>lf_coverage := []\<rparr>)) (\<lambda>v.
     bindR (collect_node P v) (add_node P ci force may_delete persistent strict_match))"

definition corpus_AddToSolution :: "(u8 list \<Rightarrow> string) \<Rightarrow> string \<Rightarrow> ('f, 'w) node" where
  "corpus_AddToSolution h path_prefix v =
     (if lf_input v = [] then Inl AssertFail
      else
        let info = named h (lf_input v) (exec_result v) in
        Inr (v\<lparr>exec_result := info, solutions := solutions v @ [(path_prefix @ ''/'' @ name info, lf_input v)]\<rparr>))"

definition AddToSolution :: "(u8 list \<Rightarrow> string) \<Rightarrow> bool \<Rightarrow> string \<Rightarrow> ('f, 'w) node" where
  "AddToSolution h crashed path_prefix v =
     (if added_to_corpus (exec_result v) \<and> (\<not> crashed \<or> status (exec_result v) \<noteq> FAULT_NONE) then corpus_AddToSolution h path_prefix v
      else Inr v)"

definition IfNewCoverage :: "('f, 'w) node \<Rightarrow> ('f, 'w) node" where
  "IfNewCoverage f v = (if added_to_corpus (exec_result v) then f v else Inr v)"

section \<open>One run\<close>

definition choose_node :: "('f, 'w) Platform \<Rightarrow> ('f, 'w) node" where
  "choose_node P v =
     bindR (lf_SelectSeed P False (lf_state v) (lf_corpus v) (lf_rng v)) (\<lambda>(data, info, rs).
       Inr (v\<lparr>lf_input := data, exec_result := info, lf_rng := rs\<rparr>))"

definition choose_crossover_node :: "('f, 'w) Platform \<Rightarrow> FuzzerCreateInfo \<Rightarrow> ('f, 'w) node" where
  "choose_crossover_node P ci v =
     bindR (lf_SelectSeed P (crossover_uniform_dist ci) (lf_state v) (lf_corpus v) (lf_rng v)) (\<lambda>(data, info, rs).
       Inr (v\<lparr>lf_crossover := data, exec_result := info, lf_rng := rs\<rparr>))"

definition IncrementMutationsCount :: "('f, 'w) node" where
  "IncrementMutationsCount v =
     Inr (v\<lparr>lf_state := (lf_state v)\<lparr>mutations_count := mutations_count (lf_state v) + 1\<rparr>,
            exec_result := (exec_result v)\<lparr>executed_mutations_count := executed_mutations_count (exec_result v) + 1\<rparr>\<rparr>)"

definition update_dict_node :: "('f, 'w) node" where
  "update_dict_node v =
     bindR (UpdateDictionary (dict_history v) (manual_dictionary v) (persistent_auto_dict v)) (\<lambda>(manual, persistent).
       Inr (v\<lparr>manual_dictionary := manual, persistent_auto_dict := persistent\<rparr>))"

definition new_coverage_node :: "('f, 'w) Platform \<Rightarrow> FuzzerCreateInfo \<Rightarrow> ('f, 'w) node" where
  "new_coverage_node P ci v =
     bindR (update_dict_node v) (\<lambda>v.
     bindR (AddToSolution (hash P) (crashed_only ci) (output_dir ci) v) (\<lambda>v.
       Inr (v\<lparr>last_corpus_update_run := run_count v\<rparr>)))"

definition local_body :: "('f, 'w) Platform \<Rightarrow> FuzzerCreateInfo \<Rightarrow> ('f, 'w) node" where
  "local_body P ci v =
     bindR (RepeatUntilMutated (createMutator P ci) 1 (mutation_depth ci) (v\<lparr>mutation_history := [], dict_history := []\<rparr>)) (\<lambda>v.
     bindR (IncrementMutationsCount v) (\<lambda>v.
     bindR (createExecuteAndFeedback P ci False True False False v) (\<lambda>v.
     bindR (IfNewCoverage (new_coverage_node P ci) v) (\<lambda>v.
       Inr (v\<lparr>run_count := run_count v + 1\<rparr>)))))"

primrec RepeatUntilNewCoverage :: "('f, 'w) node \<Rightarrow> nat \<Rightarrow> ('f, 'w) node" where
  "RepeatUntilNewCoverage f 0 v = Inr v"
| "RepeatUntilNewCoverage f (Suc c) v =
     bindR (f v) (\<lambda>v.
       if added_to_corpus (exec_result v) \<or> (reduce_depth (config (lf_state v)) \<and> found_unique_features (exec_result v) = 0) then Inr v
       else RepeatUntilNewCoverage f c v)"

definition distribution_node :: "('f, 'w) Platform \<Rightarrow> FuzzerCreateInfo \<Rightarrow> ('f, 'w) node" where
  "distribution_node P ci v =
     bindR (UpdateDistribution (floats P) (sparse_energy_updates ci) (max_mutation_factor ci) (lf_state v, lf_corpus v, lf_rng v))
       (\<lambda>(_, st, c, rs). Inr (v\<lparr>lf_state := st, lf_corpus := c, lf_rng := rs\<rparr>))"

definition UpdateMaxLength :: "nat \<Rightarrow> nat \<Rightarrow> ('f, 'w) node" where
  "UpdateMaxLength max_length control v =
     (if \<not> max_input_size v < max_length then Inr v
      else
        bindR (lflog (max_input_size v)) (\<lambda>l.
          if control * l < u64m (run_count v + 2 ^ 64 - last_corpus_update_run v) then
            Inr (v\<lparr>max_input_size := min max_length (max_input_size v + l), last_corpus_update_run := run_count v\<rparr>)
          else Inr v))"

definition createRunone :: "('f, 'w) Platform \<Rightarrow> FuzzerCreateInfo \<Rightarrow> ('f, 'w) node" where
  "createRunone P ci v =
     bindR (choose_crossover_node P ci v) (\<lambda>v.
     bindR (choose_node P v) (\<lambda>v.
     bindR (RepeatUntilNewCoverage (local_body P ci) (max_mutation_retry_count ci) v) (\<lambda>v.
     bindR (distribution_node P ci v) (\<lambda>v.
       if len_control ci \<noteq> 0 then UpdateMaxLength (max_input_length ci) (len_control ci) v else Inr v))))"

section \<open>The fuzzer\<close>

primrec ForEachStaticData :: "u8 list list \<Rightarrow> ('f, 'w) node \<Rightarrow> ('f, 'w) node" where
  "ForEachStaticData [] f v = Inr v"
| "ForEachStaticData (d # ds) f v = bindR (f (v\<lparr>lf_input := d\<rparr>)) (ForEachStaticData ds f)"

definition createInitialize :: "('f, 'w) Platform \<Rightarrow> FuzzerCreateInfo \<Rightarrow> u8 list list \<Rightarrow> bool \<Rightarrow> ('f, 'w) node" where
  "createInitialize P ci initial_inputs strict_match v =
     bindR (ForEachStaticData initial_inputs (createExecuteAndFeedback P ci True True False strict_match) v) (\<lambda>v.
     bindR (if merge ci then IfNewCoverage (AddToSolution (hash P) False (input_dir ci)) v else Inr v)
       (distribution_node P ci))"

definition CalcMaxLength :: "u8 list list \<Rightarrow> nat" where
  "CalcMaxLength ds = min (fold (\<lambda>d m. max (length d) m) ds 4096) (2 ^ 20)"

text \<open>
  \<open>loadInitialInputs\<close> on the contents of the files, in the order after the optional shuffle. The set of inputs is a hash
  table over their identifiers, so the order in which it is traversed is an argument.
\<close>

definition loadInitialInputs ::
  "bool \<Rightarrow> (u8 list list \<Rightarrow> u8 list list) \<Rightarrow> FuzzerCreateInfo \<Rightarrow> u8 list list \<Rightarrow> (u8 list list \<times> FuzzerCreateInfo) result" where
  "loadInitialInputs prefer_small order ci files =
     (let files = (if prefer_small then sort_key length files else files) in
      if [] \<in> set files then Inl AssertFail
      else
        let ds = order (if files = [] then [[43]] else files) in
        Inr (ds, if max_input_length ci = 0 then ci\<lparr>max_input_length := CalcMaxLength ds\<rparr> else ci))"

definition new_Variables ::
  "('f, 'w) Platform \<Rightarrow> FuzzerCreateInfo \<Rightarrow> Config \<Rightarrow> nat \<Rightarrow> DictionaryEntry list \<Rightarrow> nat \<Rightarrow> rng \<Rightarrow> 'w \<Rightarrow> ('f, 'w) Variables" where
  "new_Variables P ci conf feature_set_size manual first_id rs w =
     \<lparr>lf_state = new_State conf feature_set_size, lf_corpus = \<lparr>inputs = Map.empty, next_id = first_id, corpus = []\<rparr>, lf_rng = rs,
      lf_input = [], lf_crossover = [], max_input_size = (if len_control ci \<noteq> 0 then 4 else max_input_length ci), mutation_history = [],
      persistent_auto_dict = [], dict_history = [], exec_result = new_InputInfo (floats P), lf_coverage = [], coverage_address = 0,
      run_count = 0, last_corpus_update_run = 0, manual_dictionary = manual, target = w, solutions = []\<rparr>"

definition LibFuzzer ::
  "('f, 'w) Platform \<Rightarrow> FuzzerCreateInfo \<Rightarrow> Config \<Rightarrow> nat \<Rightarrow> DictionaryEntry list \<Rightarrow> nat \<Rightarrow> u8 list list \<Rightarrow> rng \<Rightarrow> 'w \<Rightarrow> ('f, 'w) Variables result" where
  "LibFuzzer P ci conf feature_set_size manual first_id initial_inputs rs w =
     createInitialize P ci initial_inputs False (new_Variables P ci conf feature_set_size manual first_id rs w)"

text \<open>\<open>OneLoop\<close>, with the flag that says whether the fuzzer has ended, and the loop of the main program.\<close>

definition lf_OneLoop :: "('f, 'w) Platform \<Rightarrow> FuzzerCreateInfo \<Rightarrow> bool \<times> ('f, 'w) Variables \<Rightarrow> (bool \<times> ('f, 'w) Variables) result" where
  "lf_OneLoop P ci s =
     (case s of (ended, v) \<Rightarrow>
        if ended then Inr (ended, v)
        else bindR (createRunone P ci v) (\<lambda>v. Inr (0 \<le> total_cycles ci \<and> total_cycles ci \<le> int (run_count v), v)))"

primrec lf_loops :: "('f, 'w) Platform \<Rightarrow> FuzzerCreateInfo \<Rightarrow> nat \<Rightarrow> bool \<times> ('f, 'w) Variables \<Rightarrow> (bool \<times> ('f, 'w) Variables) result" where
  "lf_loops P ci 0 s = Inr s"
| "lf_loops P ci (Suc n) s = bindR (lf_OneLoop P ci s) (lf_loops P ci n)"

end
