(* ===== verification/LibFuzzer_Corpus_Props.thy ===== *)
theory LibFuzzer_Corpus_Props
  imports LibFuzzer_Corpus
begin

text \<open>
  Properties of the corpus of libFuzzer: the scan of a coverage map, the frequencies of features as a map, and which entry of
  the corpus owns which feature.
\<close>

section \<open>Scanning a coverage map\<close>

lemma scan_bytes_append: "scan_bytes i (xs @ ys) = scan_bytes i xs @ scan_bytes (i + length xs) ys"
  by (induction xs arbitrary: i) simp_all

lemma scan_bundle_bytes: "scan_bundle (length bs) i (bytes_value bs) = scan_bytes i bs"
proof (induction bs arbitrary: i)
  case (Cons b bs)
  have "unat b < 256" using u8_less [of b] by simp
  then have "(unat b + 256 * bytes_value bs) mod 256 = unat b" "(unat b + 256 * bytes_value bs) div 256 = bytes_value bs" by simp_all
  then show ?case using Cons.IH by (simp add: Let_def)
qed simp

lemma bytes_value_0: "bytes_value bs = 0 \<Longrightarrow> scan_bytes i bs = []"
  by (induction bs arbitrary: i) (simp_all add: unat_eq_0)

lemma scan_words_bytes: "scan_words i bs = scan_bytes i bs"
proof (induction i bs rule: scan_words.induct)
  case (1 i bs)
  show ?case
  proof (cases "8 \<le> length bs")
    case True
    then have len: "length (take 8 bs) = 8" by simp
    have "scan_words i bs = scan_bytes i (take 8 bs) @ scan_bytes (i + length (take 8 bs)) (drop 8 bs)"
      using True 1 [OF True refl] scan_bundle_bytes [of "take 8 bs" i] bytes_value_0 [of "take 8 bs" i]
      by (subst scan_words.simps) (simp add: Let_def len)
    then show ?thesis by (simp only: scan_bytes_append [symmetric] append_take_drop_id)
  next
    case False
    then show ?thesis by (subst scan_words.simps) simp
  qed
qed

lemma scan_bytes_filter: "scan_bytes i bs = filter (\<lambda>(k, b). b \<noteq> 0) (enumerate i bs)"
  by (induction bs arbitrary: i) simp_all

lemma ForEachNonZeroByte_scan: "ForEachNonZeroByte address data = scan_bytes 0 data"
proof -
  let ?n = "min ((8 - address mod 8) mod 8) (length data)"
  have len: "length (take ?n data) = ?n" by simp
  have "ForEachNonZeroByte address data = scan_bytes 0 (take ?n data) @ scan_bytes (0 + length (take ?n data)) (drop ?n data)"
    unfolding ForEachNonZeroByte_def Let_def scan_words_bytes len by simp
  then show ?thesis by (simp only: scan_bytes_append [symmetric] append_take_drop_id)
qed

text \<open>
  C25. Scanning a coverage map word by word, from any address, calls back for exactly the non-zero bytes, each once, with its
  position, in the order of the map.
\<close>

theorem ForEachNonZeroByte_bytewise:
  "ForEachNonZeroByte address data = filter (\<lambda>(i, b). b \<noteq> 0) (enumerate 0 data)"
  by (simp only: ForEachNonZeroByte_scan scan_bytes_filter)

lemma ForEachNonZeroByte_nonzero: "(i, b) \<in> set (ForEachNonZeroByte address data) \<Longrightarrow> b \<noteq> 0"
  by (simp only: ForEachNonZeroByte_scan scan_bytes_filter) auto

lemma feature_of_ok: "snd x \<noteq> 0 \<Longrightarrow> \<exists>f. feature_of counters offset x = Inr f"
  by (cases x) (simp add: feature_of_def CounterToFeature_def)

section \<open>Frequencies\<close>

text \<open>The frequencies of an execution result are ordered by the feature, each feature at most once.\<close>

definition freqs_sorted :: "(nat \<times> nat) list \<Rightarrow> bool" where
  "freqs_sorted fs \<longleftrightarrow> sorted_wrt (<) (map fst fs)"

lemma freq_split:
  "take (freq_position i fs) fs = takeWhile (\<lambda>p. fst p < i) fs" "drop (freq_position i fs) fs = dropWhile (\<lambda>p. fst p < i) fs"
  unfolding freq_position_def by (simp_all add: takeWhile_eq_take [symmetric] dropWhile_eq_drop [symmetric])

lemma freq_found_iff:
  "freq_found i fs \<longleftrightarrow> (\<exists>n rest. dropWhile (\<lambda>p. fst p < i) fs = (i, n) # rest)"
proof -
  let ?d = "dropWhile (\<lambda>p. fst p < i) fs" let ?l = "freq_position i fs"
  have d: "drop ?l fs = ?d" by (rule freq_split)
  show ?thesis
  proof (cases ?d)
    case Nil
    then have "\<not> ?l < length fs" using d by (metis drop_eq_Nil not_less)
    then show ?thesis unfolding Nil by (simp add: freq_found_def)
  next
    case (Cons p ps)
    then have l: "?l < length fs" using d by (metis drop_eq_Nil list.distinct(1) not_le_imp_less)
    then have "fs ! ?l = p" using d Cons by (metis Cons_nth_drop_Suc list.inject)
    then show ?thesis using Cons l by (cases p) (auto simp: freq_found_def)
  qed
qed

lemma freqs_sorted_after:
  assumes "freqs_sorted fs" and "p \<in> set (dropWhile (\<lambda>p. fst p < i) fs)"
  shows "i \<le> fst p"
  using assms
proof (induction fs)
  case (Cons q qs)
  then show ?case by (cases "fst q < i") (auto simp: freqs_sorted_def)
qed simp

lemma takeWhile_less: "p \<in> set (takeWhile (\<lambda>p. fst p < (i :: nat)) fs) \<Longrightarrow> fst p < i"
  by (auto dest: set_takeWhileD)

lemma freqs_map_of:
  assumes "freqs_sorted fs"
  shows "map_of fs i = (case dropWhile (\<lambda>p. fst p < i) fs of [] \<Rightarrow> None | (k, n) # _ \<Rightarrow> if k = i then Some n else None)"
  using assms
proof (induction fs)
  case (Cons p ps)
  have ps: "freqs_sorted ps" using Cons.prems by (simp add: freqs_sorted_def)
  show ?case
  proof (cases "fst p < i")
    case True
    then show ?thesis using Cons.IH [OF ps] by (cases p) simp
  next
    case False
    have "\<forall>q \<in> set ps. fst p < fst q" using Cons.prems by (auto simp: freqs_sorted_def)
    then have "i \<notin> fst ` set ps" using False by force
    then have "map_of ps i = None" by (simp add: map_of_eq_None_iff)
    then show ?thesis using False by (cases p) auto
  qed
qed simp

lemma freqs_sorted_append:
  "freqs_sorted (xs @ ys) \<longleftrightarrow> freqs_sorted xs \<and> freqs_sorted ys \<and> (\<forall>x \<in> set xs. \<forall>y \<in> set ys. fst x < fst y)"
  by (auto simp: freqs_sorted_def sorted_wrt_append)

lemma freqs_sorted_Cons: "freqs_sorted (x # xs) \<longleftrightarrow> freqs_sorted xs \<and> (\<forall>y \<in> set xs. fst x < fst y)"
  by (auto simp: freqs_sorted_def)

text \<open>The three ways in which an ordered vector is changed at the position of a feature.\<close>

lemma freqs_change:
  fixes fs :: "(nat \<times> nat) list" and i :: nat
  assumes "freqs_sorted fs"
  defines "xs \<equiv> takeWhile (\<lambda>p. fst p < i) fs"
  shows "freq_found i fs \<Longrightarrow> \<exists>n ys. fs = xs @ (i, n) # ys \<and> freq_position i fs = length xs \<and> map_of fs i = Some n \<and>
      i \<notin> fst ` set xs \<and> i \<notin> fst ` set ys \<and> freqs_sorted (xs @ ys)"
    and "\<not> freq_found i fs \<Longrightarrow> \<exists>ys. fs = xs @ ys \<and> freq_position i fs = length xs \<and> map_of fs i = None \<and> i \<notin> fst ` set xs \<and> i \<notin> fst ` set ys \<and>
      (\<forall>y \<in> set ys. i < fst y)"
proof -
  let ?d = "dropWhile (\<lambda>p. fst p < i) fs"
  have fs: "fs = xs @ ?d" by (simp add: xs_def)
  have pos: "freq_position i fs = length xs" by (simp add: freq_position_def xs_def)
  have less: "\<forall>x \<in> set xs. fst x < i" unfolding xs_def using takeWhile_less by blast
  then have notin: "i \<notin> fst ` set xs" by fastforce
  have sorted: "freqs_sorted (xs @ ?d)" using assms(1) fs by simp
  show "\<exists>n ys. fs = xs @ (i, n) # ys \<and> freq_position i fs = length xs \<and> map_of fs i = Some n \<and> i \<notin> fst ` set xs \<and> i \<notin> fst ` set ys \<and>
    freqs_sorted (xs @ ys)" if found: "freq_found i fs"
  proof -
    obtain n ys where d: "?d = (i, n) # ys" using found unfolding freq_found_iff by blast
    have "\<forall>y \<in> set ys. i < fst y" "freqs_sorted (xs @ ys)"
      using sorted unfolding d by (auto simp: freqs_sorted_append freqs_sorted_Cons)
    moreover have "i \<notin> fst ` set ys" using calculation(1) by fastforce
    moreover have "map_of fs i = Some n" using freqs_map_of [OF assms(1), of i] d by simp
    moreover have "fs = xs @ (i, n) # ys" using fs d by simp
    ultimately show ?thesis using pos notin by blast
  qed
  show "\<exists>ys. fs = xs @ ys \<and> freq_position i fs = length xs \<and> map_of fs i = None \<and> i \<notin> fst ` set xs \<and> i \<notin> fst ` set ys \<and> (\<forall>y \<in> set ys. i < fst y)"
    if "\<not> freq_found i fs"
  proof -
    have none: "map_of fs i = None"
      using freqs_map_of [OF assms(1), of i] that by (auto simp: freq_found_iff split: list.splits)
    then have "i \<notin> fst ` set fs" by (simp add: map_of_eq_None_iff)
    moreover have "set ?d \<subseteq> set fs" by (rule set_dropWhileD [THEN subsetI])
    ultimately have "i \<notin> fst ` set ?d" by blast
    moreover have "\<forall>y \<in> set ?d. i \<le> fst y" using freqs_sorted_after [OF assms(1)] by blast
    ultimately have "\<forall>y \<in> set ?d. i < fst y" by (metis imageI le_neq_implies_less)
    then show ?thesis using fs pos none notin \<open>i \<notin> fst ` set ?d\<close> by blast
  qed
qed

lemma map_of_middle: "i \<notin> fst ` set xs \<Longrightarrow> map_of (xs @ (i, n) # ys) = (map_of (xs @ ys))(i \<mapsto> n)"
  by (induction xs) (auto simp: fun_upd_twist simp del: map_of_append)

text \<open>
  C24. The vectors of frequencies implement a map from features to counters. \<open>updateFeatureFrequency\<close> keeps the vector ordered and
  increments the counter of the feature in 16 bits, starting at 1, and \<open>delete_feature_freq\<close> keeps it ordered, removes the feature and says
  whether it was there.
\<close>

theorem feature_freqs_refine_map:
  assumes "freqs_sorted (feature_freqs info)"
  shows "freqs_sorted (feature_freqs (updateFeatureFrequency i info)) \<and>
    map_of (feature_freqs (updateFeatureFrequency i info)) =
      (map_of (feature_freqs info))(i \<mapsto> (case map_of (feature_freqs info) i of None \<Rightarrow> 1 | Some n \<Rightarrow> (n + 1) mod 2 ^ 16)) \<and>
    (case delete_feature_freq i info of (deleted, info') \<Rightarrow>
       freqs_sorted (feature_freqs info') \<and> map_of (feature_freqs info') = (map_of (feature_freqs info))(i := None) \<and>
       (deleted \<longleftrightarrow> i \<in> dom (map_of (feature_freqs info))))"
proof (cases "freq_found i (feature_freqs info)")
  case True
  define fs where "fs = feature_freqs info"
  obtain n xs ys where fs: "fs = xs @ (i, n) # ys" "freq_position i fs = length xs" "map_of fs i = Some n"
    "i \<notin> fst ` set xs" "i \<notin> fst ` set ys" "freqs_sorted (xs @ ys)"
    using freqs_change(1) [OF assms True] unfolding fs_def by blast
  have ne: "fs \<noteq> []" using fs(1) by simp
  let ?n = "(n + 1) mod 2 ^ 16"
  have upd: "feature_freqs (updateFeatureFrequency i info) = xs @ (i, ?n) # ys"
    using True fs(1,2) ne by (simp add: updateFeatureFrequency_def Let_def fs_def [symmetric] nth_append)
  have del: "delete_feature_freq i info = (True, info\<lparr>feature_freqs := xs @ ys\<rparr>)"
    using True fs(1,2) ne by (simp add: delete_feature_freq_def Let_def fs_def [symmetric])
  have "freqs_sorted (xs @ (i, ?n) # ys)"
    using assms fs(1) by (auto simp: freqs_sorted_append freqs_sorted_Cons fs_def [symmetric])
  moreover have "map_of (xs @ (i, ?n) # ys) = (map_of fs)(i \<mapsto> ?n)"
    using fs(1,4) by (simp add: map_of_middle del: map_of_append)
  moreover have "map_of (xs @ ys) = (map_of fs)(i := None)"
  proof -
    have "i \<notin> fst ` set (xs @ ys)" using fs(4,5) by auto
    then have "map_of (xs @ ys) i = None" by (simp only: map_of_eq_None_iff not_False_eq_True)
    then show ?thesis using fs(1,4) by (simp add: map_of_middle fun_upd_idem del: map_of_append)
  qed
  ultimately show ?thesis using upd del fs(3,6) by (simp add: fs_def [symmetric] dom_def)
next
  case False
  define fs where "fs = feature_freqs info"
  obtain xs ys where fs: "fs = xs @ ys" "freq_position i fs = length xs" "map_of fs i = None" "i \<notin> fst ` set xs" "\<forall>y \<in> set ys. i < fst y"
    and less: "\<forall>x \<in> set xs. fst x < i"
    using freqs_change(2) [OF assms False] takeWhile_less unfolding fs_def by blast
  have upd: "feature_freqs (updateFeatureFrequency i info) = xs @ (i, 1) # ys"
    using False fs(1,2) by (cases "fs = []") (simp_all add: updateFeatureFrequency_def Let_def fs_def [symmetric])
  have del: "delete_feature_freq i info = (False, info)"
    using False by (simp add: delete_feature_freq_def Let_def fs_def [symmetric])
  have "freqs_sorted (xs @ (i, 1) # ys)"
    using assms fs(1,5) less by (auto simp: freqs_sorted_append freqs_sorted_Cons fs_def [symmetric])
  moreover have "map_of (xs @ (i, 1) # ys) = (map_of fs)(i \<mapsto> 1)"
    using fs(1,4) by (simp add: map_of_middle del: map_of_append)
  moreover have "(map_of fs)(i := None) = map_of fs" using fs(3) by (simp add: fun_upd_idem)
  ultimately show ?thesis using upd del fs(3) assms by (simp add: fs_def [symmetric] dom_def)
qed

text \<open>Natural numbers as an instance of the floating-point operations, for concrete runs.\<close>

definition nat_floats :: "nat floats" where
  "nat_floats = \<lparr>f_of_nat = (\<lambda>n. n), f_add = (+), f_sub = (-), f_mul = (*), f_div = (div), f_log = high_bit, f_to_nat = (\<lambda>n. n),
     f_nonzero = (\<lambda>n. n \<noteq> 0), f_pos = (\<lambda>n. 0 < n)\<rparr>"

theorem feature_freqs_refine_map_witness:
  "map_of (feature_freqs (updateFeatureFrequency 5 ((new_InputInfo nat_floats)\<lparr>feature_freqs := [(3, 1), (5, 65535), (9, 2)]\<rparr>))) 5 = Some 0"
proof -
  let ?info = "(new_InputInfo nat_floats)\<lparr>feature_freqs := [(3, 1), (5, 65535), (9, 2)]\<rparr>"
  have "freqs_sorted (feature_freqs ?info)" by (simp add: freqs_sorted_def)
  from feature_freqs_refine_map [OF this, of 5]
  have m: "map_of (feature_freqs (updateFeatureFrequency 5 ?info)) =
    (map_of (feature_freqs ?info))(5 \<mapsto> (case map_of (feature_freqs ?info) 5 of None \<Rightarrow> 1 | Some n \<Rightarrow> (n + 1) mod 2 ^ 16))" by blast
  show ?thesis unfolding m by simp
qed

end
