(* ===== verification/LibFuzzer_Owners.thy ===== *)
theory LibFuzzer_Owners
  imports LibFuzzer_Corpus_Props
begin

text \<open>
  Which entry of the corpus owns which feature. The count of features of an enabled entry is the number of features that refer
  to it, so that the assertion of \<open>AddFeature\<close> holds and an entry is deleted exactly with its last feature; between collecting
  the features of an execution and adding the execution to the corpus, its features refer to the place it will get.
\<close>

section \<open>The invariant\<close>

definition owned_features :: "'f State \<Rightarrow> nat \<Rightarrow> nat set" where
  "owned_features st k = {i. i < length (input_sizes_per_feature st) \<and> input_sizes_per_feature st ! i \<noteq> 0 \<and> smallest_element_per_feature st ! i = k}"

text \<open>\<open>p\<close> features refer to the place behind the entries, all for an input of length \<open>n\<close>.\<close>

definition feat_inv :: "'f State \<Rightarrow> 'f InputInfo list \<Rightarrow> nat \<Rightarrow> nat \<Rightarrow> bool" where
  "feat_inv st es p n \<longleftrightarrow>
     0 < length (input_sizes_per_feature st) \<and> length (smallest_element_per_feature st) = length (input_sizes_per_feature st) \<and>
     (\<forall>i < length (input_sizes_per_feature st). input_sizes_per_feature st ! i \<noteq> 0 \<longrightarrow> smallest_element_per_feature st ! i \<le> length es) \<and>
     card (owned_features st (length es)) = p \<and> (\<forall>i \<in> owned_features st (length es). input_sizes_per_feature st ! i = n) \<and>
     (\<forall>k < length es. features_count (es ! k) = (if enabled (es ! k) then card (owned_features st k) else 0))"

text \<open>Every enabled entry has its input, which is not empty, in memory; identifiers and names are unique.\<close>

definition has_input :: "(nat \<rightharpoonup> stored) \<Rightarrow> 'f InputInfo \<Rightarrow> bool" where
  "has_input ins e \<longleftrightarrow> (\<exists>bs. ins (info_id e) = Some (OnMemory bs) \<and> bs \<noteq> [] \<and> length bs < 2 ^ 32)"

definition store_ok :: "(nat \<rightharpoonup> stored) \<Rightarrow> nat \<Rightarrow> 'f InputInfo list \<Rightarrow> bool" where
  "store_ok ins n es \<longleftrightarrow>
     distinct (map info_id es) \<and> (\<forall>e \<in> set es. info_id e < n \<and> (enabled e \<longrightarrow> has_input ins e) \<and> (enabled e \<longleftrightarrow> name e \<noteq> [])) \<and>
     distinct (filter (\<lambda>s. s \<noteq> []) (map name es))"

definition store_inv :: "'f FullCorpus \<Rightarrow> bool" where
  "store_inv c \<longleftrightarrow> store_ok (inputs c) (next_id c) (corpus c)"

lemma finite_owned_features [simp]: "finite (owned_features st k)"
  by (simp add: owned_features_def)

lemma owned_features_cong:
  "input_sizes_per_feature st' = input_sizes_per_feature st \<Longrightarrow> smallest_element_per_feature st' = smallest_element_per_feature st \<Longrightarrow>
   owned_features st' k = owned_features st k"
  by (simp add: owned_features_def)

lemma feat_inv_cong:
  assumes "input_sizes_per_feature st' = input_sizes_per_feature st" and "smallest_element_per_feature st' = smallest_element_per_feature st"
    and "map features_count es' = map features_count es" and "map enabled es' = map enabled es"
  shows "feat_inv st' es' p n \<longleftrightarrow> feat_inv st es p n"
proof -
  have len: "length es' = length es" using assms(3) by (metis length_map)
  have "features_count (es' ! k) = features_count (es ! k) \<and> enabled (es' ! k) = enabled (es ! k)" if "k < length es" for k
    using assms(3,4) len that by (metis nth_map)
  then show ?thesis using len by (simp add: feat_inv_def owned_features_cong [OF assms(1,2)] assms(1,2))
qed

section \<open>Losing a feature\<close>

definition after_loss :: "'f floats \<Rightarrow> 'f InputInfo \<Rightarrow> 'f InputInfo" where
  "after_loss F e =
     (if \<not> enabled e then e else if features_count e = 1 then cleared_info F e else e\<lparr>features_count := features_count e - 1\<rparr>)"

lemma cleared_simps [simp]:
  "info_id (cleared_info F e) = info_id e" "enabled (cleared_info F e) = False" "features_count (cleared_info F e) = 0" "name (cleared_info F e) = []"
  by (simp_all add: cleared_info_def new_InputInfo_def)

lemma cleared_features_count [simp]: "cleared_info F (e\<lparr>features_count := k\<rparr>) = cleared_info F e"
  by (simp add: cleared_info_def)

lemma after_loss_simps [simp]:
  "info_id (after_loss F e) = info_id e"
  "enabled (after_loss F e) = (enabled e \<and> features_count e \<noteq> 1)"
  "name (after_loss F e) = (if enabled e \<and> features_count e = 1 then [] else name e)"
  by (simp_all add: after_loss_def split: if_splits)

lemma lose_feature_eq:
  assumes "k < length (corpus c)" and "enabled (corpus c ! k) \<Longrightarrow> features_count (corpus c ! k) \<noteq> 0"
  shows "lose_feature F k (st, c) =
    (let e = corpus c ! k; dead = (enabled e \<and> features_count e = 1) in
     Inr (if dead then st\<lparr>distribution_needs_update := True\<rparr> else st,
          c\<lparr>corpus := (corpus c)[k := after_loss F e], inputs := (if dead then (inputs c)(info_id e := None) else inputs c)\<rparr>))"
proof -
  define e where "e = corpus c ! k"
  note e = e_def [symmetric]
  consider "\<not> enabled e" | "enabled e" "features_count e = 1" | "enabled e" "features_count e \<noteq> 0" "features_count e \<noteq> 1"
    using assms(2) by (auto simp: e)
  then show ?thesis
  proof cases
    case 1
    then have "(corpus c)[k := after_loss F e] = corpus c" by (simp add: after_loss_def e_def)
    then show ?thesis using 1 assms(1) by (simp add: lose_feature_def Let_def e)
  next
    case 2
    let ?c = "modify_corpus k (\<lambda>t. t\<lparr>features_count := features_count t - 1\<rparr>) c"
    have c: "corpus ?c ! k = e\<lparr>features_count := features_count e - 1\<rparr>" "length (corpus ?c) = length (corpus c)"
      using assms(1) by (simp_all add: modify_corpus_def e)
    have "deleteInput F k (st, ?c) =
      Inr (st\<lparr>distribution_needs_update := True\<rparr>, c\<lparr>corpus := (corpus c)[k := cleared_info F e], inputs := (inputs c)(info_id e := None)\<rparr>)"
      using assms(1) c by (simp add: deleteInput_def modify_corpus_def erase_input_def)
    then show ?thesis using 2 assms(1) by (simp add: lose_feature_def after_loss_def Let_def e)
  next
    case 3
    then show ?thesis using assms(1) by (simp add: lose_feature_def Let_def e modify_corpus_def after_loss_def)
  qed
qed

lemma map_update_same: "k < length xs \<Longrightarrow> f y = f (xs ! k) \<Longrightarrow> map f (xs[k := y]) = map f xs"
  by (simp add: map_update) (metis list_update_id map_update)

lemma distinct_filter_update:
  assumes "distinct (filter P (map f xs))" and "k < length xs" and "f y = f (xs ! k) \<or> \<not> P (f y)"
  shows "distinct (filter P (map f (xs[k := y])))"
proof -
  have xs: "xs = take k xs @ xs ! k # drop (Suc k) xs" using assms(2) by (rule id_take_nth_drop)
  have upd: "xs[k := y] = take k xs @ y # drop (Suc k) xs" using assms(2) by (rule upd_conv_take_nth_drop)
  have "distinct (filter P (map f (take k xs @ xs ! k # drop (Suc k) xs)))" using assms(1) xs by simp
  then have "distinct (filter P (map f (take k xs @ drop (Suc k) xs)))" by (auto split: if_splits)
  then have "\<not> P (f y) \<Longrightarrow> ?thesis" unfolding upd by simp
  moreover have "f y = f (xs ! k) \<Longrightarrow> ?thesis" using assms(1) map_update_same [OF assms(2), of f y] by simp
  ultimately show ?thesis using assms(3) by blast
qed

lemma distinct_id_other:
  "distinct (map f xs) \<Longrightarrow> j < length xs \<Longrightarrow> k < length xs \<Longrightarrow> j \<noteq> k \<Longrightarrow> f (xs ! j) \<noteq> f (xs ! k)"
  by (metis length_map nth_eq_iff_index_eq nth_map)

text \<open>An entry of the corpus is changed, or emptied together with its input.\<close>

lemma store_ok_update:
  assumes "store_ok ins n es" and "k < length es" and "info_id e' = info_id (es ! k)"
    and "(name e' = name (es ! k) \<and> enabled e' = enabled (es ! k) \<and> ins' = ins) \<or>
      (name e' = [] \<and> \<not> enabled e' \<and> (\<forall>i. i \<noteq> info_id e' \<longrightarrow> ins' i = ins i))"
  shows "store_ok ins' n (es[k := e'])"
proof -
  have dist: "distinct (map info_id es)" and all: "\<And>e. e \<in> set es \<Longrightarrow> info_id e < n \<and> (enabled e \<longrightarrow> has_input ins e) \<and> (enabled e \<longleftrightarrow> name e \<noteq> [])"
    and names: "distinct (filter (\<lambda>s. s \<noteq> []) (map name es))"
    using assms(1) unfolding store_ok_def by auto
  have "info_id e < n \<and> (enabled e \<longrightarrow> has_input ins' e) \<and> (enabled e \<longleftrightarrow> name e \<noteq> [])" if e: "e \<in> set (es[k := e'])" for e
  proof -
    obtain j where j: "j < length es" "e = es[k := e'] ! j" using e by (metis in_set_conv_nth length_list_update)
    show ?thesis
    proof (cases "j = k")
      case True
      then have "e = e'" using j by simp
      then show ?thesis using all [OF nth_mem [OF assms(2)]] assms(3,4) by (auto simp: has_input_def)
    next
      case False
      then have ej: "e = es ! j" using j by simp
      have "info_id e \<noteq> info_id e'" using distinct_id_other [OF dist j(1) assms(2) False] assms(3) ej by simp
      then have "ins' (info_id e) = ins (info_id e)" using assms(4) by auto
      then show ?thesis using all [OF nth_mem [OF j(1)]] ej by (simp add: has_input_def)
    qed
  qed
  moreover have "distinct (filter (\<lambda>s. s \<noteq> []) (map name (es[k := e'])))"
    by (rule distinct_filter_update [OF names assms(2)]) (use assms(4) in auto)
  moreover have "map info_id (es[k := e']) = map info_id es" using assms(2,3) by (rule map_update_same)
  ultimately show ?thesis using dist unfolding store_ok_def by simp
qed

lemma store_ok_loss:
  assumes "store_ok ins n es" and "k < length es"
  shows "store_ok (if enabled (es ! k) \<and> features_count (es ! k) = 1 then ins(info_id (es ! k) := None) else ins) n (es[k := after_loss F (es ! k)])"
  using assms by (rule store_ok_update) (auto simp: after_loss_def)

text \<open>The features after the owner of feature \<open>i\<close> has lost it to the place behind the entries.\<close>

lemma owned_features_move:
  assumes "i < length (input_sizes_per_feature st)" and "length (smallest_element_per_feature st) = length (input_sizes_per_feature st)" and "n \<noteq> 0"
    and "input_sizes_per_feature st' = (input_sizes_per_feature st)[i := n]" and "smallest_element_per_feature st' = (smallest_element_per_feature st)[i := N]"
  shows "owned_features st' k = (if k = N then insert i (owned_features st k) else owned_features st k - {i})"
  using assms by (auto simp: owned_features_def nth_list_update)

lemma feat_inv_move:
  assumes inv: "feat_inv st es p n" and i: "i < length (input_sizes_per_feature st)" and n: "n \<noteq> 0"
    and old: "input_sizes_per_feature st ! i = 0 \<or> n < input_sizes_per_feature st ! i"
    and sizes: "input_sizes_per_feature st' = (input_sizes_per_feature st)[i := n]"
    and smallest: "smallest_element_per_feature st' = (smallest_element_per_feature st)[i := length es]"
  shows "feat_inv st' (if input_sizes_per_feature st ! i = 0 then es
    else es[smallest_element_per_feature st ! i := after_loss F (es ! (smallest_element_per_feature st ! i))]) (p + 1) n"
proof -
  let ?N = "length es" let ?old = "smallest_element_per_feature st ! i"
  let ?es = "if input_sizes_per_feature st ! i = 0 then es else es[?old := after_loss F (es ! ?old)]"
  have len: "length (smallest_element_per_feature st) = length (input_sizes_per_feature st)" and pos: "0 < length (input_sizes_per_feature st)"
    and le: "\<And>j. j < length (input_sizes_per_feature st) \<Longrightarrow> input_sizes_per_feature st ! j \<noteq> 0 \<Longrightarrow> smallest_element_per_feature st ! j \<le> ?N"
    and p: "card (owned_features st ?N) = p" and same: "\<And>j. j \<in> owned_features st ?N \<Longrightarrow> input_sizes_per_feature st ! j = n"
    and count: "\<And>k. k < ?N \<Longrightarrow> features_count (es ! k) = (if enabled (es ! k) then card (owned_features st k) else 0)"
    using inv unfolding feat_inv_def by auto
  note own = owned_features_move [OF i len n sizes smallest]
  have fresh: "i \<notin> owned_features st ?N" using same [of i] old n i by (auto simp: owned_features_def)
  have old_less: "?old < ?N" "i \<in> owned_features st ?old" if "input_sizes_per_feature st ! i \<noteq> 0"
    using that le [OF i] fresh i by (auto simp: owned_features_def le_less)
  have cnt: "features_count (?es ! k) = (if enabled (?es ! k) then card (owned_features st' k) else 0)" if k: "k < ?N" for k
  proof (cases "input_sizes_per_feature st ! i \<noteq> 0 \<and> k = ?old")
    case True
    then have card: "card (owned_features st' k) = card (owned_features st k) - 1" using own [of k] k old_less by simp
    have "card (owned_features st k) \<noteq> 0" using True old_less(2) by auto
    then have "enabled (es ! k) \<Longrightarrow> features_count (es ! k) = card (owned_features st k) \<and> card (owned_features st k) \<noteq> 0" using count [OF k] by simp
    then show ?thesis using True k count [OF k] card by (auto simp: after_loss_def)
  next
    case False
    then have "i \<notin> owned_features st k" by (auto simp: owned_features_def)
    then have "owned_features st' k = owned_features st k" using own [of k] k by simp
    moreover have "?es ! k = es ! k" using False by (auto simp: nth_list_update)
    ultimately show ?thesis using count [OF k] by simp
  qed
  have "card (owned_features st' ?N) = p + 1" using own [of ?N] p fresh by simp
  moreover have "\<forall>j \<in> owned_features st' ?N. input_sizes_per_feature st' ! j = n" using own [of ?N] same i by (auto simp: sizes nth_list_update)
  moreover have "\<forall>j < length (input_sizes_per_feature st'). input_sizes_per_feature st' ! j \<noteq> 0 \<longrightarrow> smallest_element_per_feature st' ! j \<le> ?N"
    using le len i by (auto simp: sizes smallest nth_list_update)
  moreover have "length ?es = ?N" by simp
  ultimately show ?thesis using cnt pos len unfolding feat_inv_def by (simp add: sizes smallest)
qed

section \<open>Collecting features\<close>

lemma owner_exists:
  assumes "feat_inv st es p n" and "i < length (input_sizes_per_feature st)" and "n < input_sizes_per_feature st ! i"
  shows "smallest_element_per_feature st ! i < length es \<and>
    (enabled (es ! (smallest_element_per_feature st ! i)) \<longrightarrow> features_count (es ! (smallest_element_per_feature st ! i)) \<noteq> 0)"
proof -
  let ?k = "smallest_element_per_feature st ! i"
  have own: "i \<in> owned_features st ?k" using assms(2,3) by (simp add: owned_features_def)
  have "?k \<le> length es" using assms unfolding feat_inv_def by fastforce
  moreover have "?k \<noteq> length es" using assms own unfolding feat_inv_def by auto
  ultimately have k: "?k < length es" by simp
  have "card (owned_features st ?k) \<noteq> 0" using own by auto
  then show ?thesis using k assms(1) unfolding feat_inv_def by auto
qed

lemma AddFeature_inv:
  assumes inv: "feat_inv st (corpus c) p n" "store_inv c" and plain: "\<not> entropic_enabled (config st)" and n: "n \<noteq> 0"
    and small: "length (corpus c) < 2 ^ 32"
  obtains b st' c' where "AddFeature F f n s (st, c) = Inr (b, st', c')" "feat_inv st' (corpus c') (p + of_bool b) n" "store_inv c'"
    "config st' = config st" "updated_features_count st' = updated_features_count st + of_bool b" "length (corpus c') = length (corpus c)"
    "\<not> b \<Longrightarrow> st' = st \<and> c' = c" "next_id c' = next_id c" "name ` set (corpus c') \<subseteq> insert [] (name ` set (corpus c))"
proof -
  define i where "i = f mod length (input_sizes_per_feature st)"
  define k where "k = smallest_element_per_feature st ! i"
  define old where "old = input_sizes_per_feature st ! i"
  define N where "N = length (corpus c)"
  have pos: "0 < length (input_sizes_per_feature st)" and len: "length (smallest_element_per_feature st) = length (input_sizes_per_feature st)"
    using inv(1) by (simp_all add: feat_inv_def)
  have i: "i < length (input_sizes_per_feature st)" using pos by (simp add: i_def)
  have N: "N mod 2 ^ 32 = N" using small by (simp add: N_def)
  have start: "AddFeature F f n s (st, c) =
    (if old = 0 \<or> (s \<and> n < old) then
       bindR (if 0 < old then lose_feature F k (st, c) else Inr (st\<lparr>added_features_count := added_features_count st + 1\<rparr>, c)) (\<lambda>(st, c).
         if \<not> i < length (smallest_element_per_feature st) then Inl Undefined
         else Inr (True, st\<lparr>updated_features_count := updated_features_count st + 1,
                smallest_element_per_feature := (smallest_element_per_feature st)[i := length (corpus c) mod 2 ^ 32],
                input_sizes_per_feature := (input_sizes_per_feature st)[i := n]\<rparr>, c))
     else Inr (False, st, c))"
    using n pos plain i len by (simp add: AddFeature_def Let_def i_def [symmetric] old_def [symmetric] k_def [symmetric])
  consider (new) "old = 0" | (shorter) "0 < old" "s" "n < old" | (known) "old \<noteq> 0" "\<not> (s \<and> n < old)" by linarith
  then show thesis
  proof cases
    case known
    then have "\<not> (old = 0 \<or> (s \<and> n < old))" by blast
    then have "AddFeature F f n s (st, c) = Inr (False, st, c)" using start by (simp only: if_False)
    then show thesis by (rule that) (use inv in auto)
  next
    case new
    let ?st = "st\<lparr>added_features_count := added_features_count st + 1, updated_features_count := updated_features_count st + 1,
      smallest_element_per_feature := (smallest_element_per_feature st)[i := N], input_sizes_per_feature := (input_sizes_per_feature st)[i := n]\<rparr>"
    have run: "AddFeature F f n s (st, c) = Inr (True, ?st, c)" using start new i len N by (simp add: N_def [symmetric])
    have fi: "feat_inv ?st (corpus c) (p + 1) n"
      using feat_inv_move [OF inv(1) i n, of ?st F] new by (simp add: old_def [symmetric] N_def)
    show thesis by (rule that [OF run]) (use fi inv(2) in auto)
  next
    case shorter
    let ?e = "corpus c ! k" let ?dead = "enabled ?e \<and> features_count ?e = 1"
    let ?c = "c\<lparr>corpus := (corpus c)[k := after_loss F ?e], inputs := (if ?dead then (inputs c)(info_id ?e := None) else inputs c)\<rparr>"
    let ?st = "(if ?dead then st\<lparr>distribution_needs_update := True\<rparr> else st)\<lparr>updated_features_count := updated_features_count st + 1,
      smallest_element_per_feature := (smallest_element_per_feature st)[i := N], input_sizes_per_feature := (input_sizes_per_feature st)[i := n]\<rparr>"
    have own: "k < length (corpus c) \<and> (enabled ?e \<longrightarrow> features_count ?e \<noteq> 0)"
      using owner_exists [OF inv(1) i] shorter(3) by (simp add: old_def k_def)
    then have "lose_feature F k (st, c) = Inr (if ?dead then st\<lparr>distribution_needs_update := True\<rparr> else st, ?c)"
      using lose_feature_eq [of k c F st] by (simp add: Let_def)
    then have run: "AddFeature F f n s (st, c) = Inr (True, ?st, ?c)"
      using start shorter i len N by (simp add: N_def [symmetric])
    have fi: "feat_inv ?st (corpus ?c) (p + 1) n"
      using feat_inv_move [OF inv(1) i n, of ?st F] shorter by (simp add: old_def [symmetric] k_def [symmetric] N_def)
    have "store_inv ?c" using store_ok_loss [OF inv(2) [unfolded store_inv_def], of k F] own by (simp add: store_inv_def)
    moreover have "name ` set (corpus ?c) \<subseteq> insert [] (name ` set (corpus c))"
      using own set_update_subset_insert [of "corpus c" k "after_loss F ?e"] by (auto dest!: subsetD split: if_splits)
    ultimately show thesis by (intro that [OF run]) (use fi in simp_all)
  qed
qed

text \<open>
  While the features of an execution are collected: as many features were added as are remembered, and nothing has changed
  unless some feature was added.
\<close>

definition collecting_inv :: "'f State \<Rightarrow> 'f FullCorpus \<Rightarrow> 'f InputInfo \<Rightarrow> nat \<Rightarrow> 'f Collecting \<Rightarrow> bool" where
  "collecting_inv st c info n s \<longleftrightarrow>
     feat_inv (col_state s) (corpus (col_corpus s)) (length (col_unique s)) n \<and> store_inv (col_corpus s) \<and>
     config (col_state s) = config st \<and> updated_features_count (col_state s) = updated_features_count st + length (col_unique s) \<and>
     length (corpus (col_corpus s)) = length (corpus c) \<and> next_id (col_corpus s) = next_id c \<and> col_info s = info \<and>
     (col_unique s = [] \<longrightarrow> col_state s = st \<and> col_corpus s = c) \<and> name ` set (corpus (col_corpus s)) \<subseteq> insert [] (name ` set (corpus c))"

lemma collect_feature_inv:
  assumes "collecting_inv st c info (n mod 2 ^ 32) s" and "\<not> entropic_enabled (config st)" and "n mod 2 ^ 32 \<noteq> 0" and "length (corpus c) < 2 ^ 32"
  obtains s' where "collect_feature F n f s = Inr s'" "collecting_inv st c info (n mod 2 ^ 32) s'"
proof -
  define n' where "n' = n mod 2 ^ 32"
  note inv = assms(1) [unfolded collecting_inv_def n'_def [symmetric]]
  have plain: "\<not> entropic_enabled (config (col_state s))" using inv assms(2) by simp
  obtain b st' c' where add: "AddFeature F f n' (shrink (config (col_state s))) (col_state s, col_corpus s) = Inr (b, st', c')"
    "feat_inv st' (corpus c') (length (col_unique s) + of_bool b) n'" "store_inv c'" "config st' = config (col_state s)"
    "updated_features_count st' = updated_features_count (col_state s) + of_bool b" "length (corpus c') = length (corpus (col_corpus s))"
    "\<not> b \<Longrightarrow> st' = col_state s \<and> c' = col_corpus s" "next_id c' = next_id (col_corpus s)"
    "name ` set (corpus c') \<subseteq> insert [] (name ` set (corpus (col_corpus s)))"
    by (rule AddFeature_inv [of "col_state s" "col_corpus s" "length (col_unique s)" n' F f "shrink (config (col_state s))"])
      (use inv plain assms(3,4) in \<open>simp_all add: n'_def\<close>)
  let ?s = "s\<lparr>col_state := st', col_corpus := c', col_info := col_info s, col_unique := (if b then col_unique s @ [f] else col_unique s),
    col_found := (if reduce_inputs (config (col_state s)) \<and> \<not> never_reduce (col_info s) \<and> f \<in> set (unique_feature_set (col_info s))
      then col_found s + 1 else col_found s)\<rparr>"
  have "collect_feature F n f s = Inr ?s"
    using plain unfolding collect_feature_def Let_def n'_def [symmetric] add(1) by simp
  moreover have "collecting_inv st c info n' ?s"
  proof -
    have "name ` set (corpus c') \<subseteq> insert [] (name ` set (corpus c))" using add(9) inv by blast
    then show ?thesis unfolding collecting_inv_def using add(1-8) inv by (cases b) simp_all
  qed
  ultimately show thesis using that unfolding n'_def by blast
qed

lemma collect_features_inv:
  assumes "collecting_inv st c info (n mod 2 ^ 32) s" and "\<not> entropic_enabled (config st)" and "n mod 2 ^ 32 \<noteq> 0" and "length (corpus c) < 2 ^ 32"
    and "\<forall>x \<in> set xs. snd x \<noteq> 0"
  shows "\<exists>s'. collect_features F n offset xs s = Inr s' \<and> collecting_inv st c info (n mod 2 ^ 32) s'"
  using assms(1,5)
proof (induction xs arbitrary: s)
  case (Cons x xs)
  obtain f where f: "feature_of (use_counters (config (col_state s))) offset x = Inr f" using feature_of_ok [of x "use_counters (config (col_state s))" offset] Cons.prems(2) by auto
  obtain s1 where s1: "collect_feature F n f s = Inr s1" "collecting_inv st c info (n mod 2 ^ 32) s1"
    by (rule collect_feature_inv [OF Cons.prems(1) assms(2-4)])
  from Cons.IH [OF s1(2)] Cons.prems(2) f s1(1) show ?case by simp
qed simp

lemma CollectFeatures_inv:
  assumes "feat_inv st (corpus c) 0 m" and "store_inv c" and "\<not> entropic_enabled (config st)" and "length data mod 2 ^ 32 \<noteq> 0"
    and "length (corpus c) < 2 ^ 32"
  obtains st' c' u found where
    "CollectFeatures F address data cov offset (st, c, info) =
       Inr (st', c', info\<lparr>found_unique_features := found, features_count := length u, unique_feature_set := u\<rparr>)"
    "feat_inv st' (corpus c') (length u) (length data mod 2 ^ 32)" "store_inv c'" "config st' = config st"
    "length (corpus c') = length (corpus c)" "next_id c' = next_id c" "u = [] \<longrightarrow> st' = st \<and> c' = c"
    "name ` set (corpus c') \<subseteq> insert [] (name ` set (corpus c))"
proof -
  define n where "n = length data mod 2 ^ 32"
  let ?s = "\<lparr>col_state = st, col_corpus = c, col_info = info, col_unique = [], col_found = 0\<rparr>"
  have "owned_features st (length (corpus c)) = {}" using assms(1) by (simp add: feat_inv_def)
  then have "feat_inv st (corpus c) 0 n" using assms(1) unfolding feat_inv_def by simp
  then have "collecting_inv st c info n ?s" using assms(2) unfolding collecting_inv_def by auto
  moreover have "\<forall>x \<in> set (ForEachNonZeroByte address cov). snd x \<noteq> 0" using ForEachNonZeroByte_nonzero by fastforce
  ultimately obtain s' where s': "collect_features F (length data) offset (ForEachNonZeroByte address cov) ?s = Inr s'" "collecting_inv st c info n s'"
    using collect_features_inv [of st c info "length data" ?s "ForEachNonZeroByte address cov" F offset] assms(3-5) unfolding n_def by blast
  have "CollectFeatures F address data cov offset (st, c, info) = Inr (col_state s', col_corpus s',
      info\<lparr>found_unique_features := col_found s', features_count := length (col_unique s'), unique_feature_set := col_unique s'\<rparr>)"
    using s' by (simp add: CollectFeatures_def collecting_inv_def)
  then show thesis by (rule that) (use s'(2) in \<open>simp_all add: collecting_inv_def n_def\<close>)
qed

section \<open>Adding to the corpus\<close>

lemma feat_inv_append:
  assumes "feat_inv st es p n" and "length es' = length es"
    and "\<And>k. k < length es \<Longrightarrow> es' ! k = es ! k \<or> (\<not> enabled (es' ! k) \<and> features_count (es' ! k) = 0)"
    and "enabled e" and "features_count e = p"
  shows "feat_inv st (es' @ [e]) 0 m"
proof -
  have le: "\<And>i. i < length (input_sizes_per_feature st) \<Longrightarrow> input_sizes_per_feature st ! i \<noteq> 0 \<Longrightarrow> smallest_element_per_feature st ! i \<le> length es"
    and p: "card (owned_features st (length es)) = p"
    and count: "\<And>k. k < length es \<Longrightarrow> features_count (es ! k) = (if enabled (es ! k) then card (owned_features st k) else 0)"
    using assms(1) unfolding feat_inv_def by auto
  have "owned_features st (Suc (length es)) = {}" using le by (force simp: owned_features_def)
  moreover have "features_count ((es' @ [e]) ! k) = (if enabled ((es' @ [e]) ! k) then card (owned_features st k) else 0)" if k: "k < Suc (length es)" for k
  proof (cases "k = length es")
    case True
    then have "(es' @ [e]) ! k = e" using assms(2) by (metis nth_append_length)
    then show ?thesis using True assms(4,5) p by simp
  next
    case False
    then have "k < length es" "(es' @ [e]) ! k = es' ! k" using k assms(2) by (simp_all add: nth_append)
    then show ?thesis using count [of k] assms(3) [of k] by auto
  qed
  moreover have "\<forall>i < length (input_sizes_per_feature st). input_sizes_per_feature st ! i \<noteq> 0 \<longrightarrow> smallest_element_per_feature st ! i \<le> Suc (length es)"
    using le by (simp add: le_SucI)
  ultimately show ?thesis using assms(1,2) unfolding feat_inv_def by simp
qed

lemma store_ok_append:
  assumes "store_ok ins n es" and "info_id e = n" and "enabled e" and "name e \<noteq> []" and "name e \<notin> name ` set es" and "data \<noteq> []" and "length data < 2 ^ 32"
  shows "store_ok (ins(n \<mapsto> OnMemory data)) (n + 1) (es @ [e])"
proof -
  have "\<forall>x \<in> set es. info_id x < n \<and> (enabled x \<longrightarrow> has_input ins x) \<and> (enabled x \<longleftrightarrow> name x \<noteq> [])" using assms(1) by (simp add: store_ok_def)
  then have "\<forall>x \<in> set es. info_id x < n + 1 \<and> (enabled x \<longrightarrow> has_input (ins(n \<mapsto> OnMemory data)) x) \<and> (enabled x \<longleftrightarrow> name x \<noteq> [])"
    by (auto simp: has_input_def)
  moreover have "has_input (ins(n \<mapsto> OnMemory data)) e" using assms(2,6,7) by (simp add: has_input_def)
  moreover have "n \<notin> info_id ` set es" using assms(1) by (auto simp: store_ok_def)
  ultimately show ?thesis using assms unfolding store_ok_def by (auto simp: image_iff)
qed

lemma find_corpus_Some: "find_corpus q c = Some k \<Longrightarrow> k < length (corpus c) \<and> q (corpus c ! k)"
  unfolding find_corpus_def find_Some_iff by (auto simp: nth_append)

lemma find_corpus_None: "find_corpus q c = None \<Longrightarrow> e \<in> set (corpus c) \<Longrightarrow> \<not> q e"
  unfolding find_corpus_def find_None_iff by (metis atLeastLessThan_iff in_set_conv_nth set_upt zero_le)

text \<open>The entries before the new one: an older entry of the same name is emptied.\<close>

definition older :: "'f floats \<Rightarrow> string \<Rightarrow> 'f FullCorpus \<Rightarrow> 'f InputInfo list" where
  "older F nm c = (case find_corpus (\<lambda>e. name e = nm) c of None \<Rightarrow> corpus c | Some k \<Rightarrow> (corpus c)[k := cleared_info F (corpus c ! k)])"

definition added_info :: "(u8 list \<Rightarrow> string) \<Rightarrow> u8 list \<Rightarrow> 'f FullCorpus \<Rightarrow> 'f InputInfo \<Rightarrow> 'f InputInfo" where
  "added_info h data c info =
     (let info = named h data info in
      info\<lparr>info_id := next_id c, unique_feature_set := sort (unique_feature_set info),
           reduced := (if find_corpus (\<lambda>e. name e = name info) c = None then reduced info else True)\<rparr>)"

lemma older_nth:
  "length (older F nm c) = length (corpus c)"
  "k < length (corpus c) \<Longrightarrow> older F nm c ! k = corpus c ! k \<or> older F nm c ! k = cleared_info F (corpus c ! k)"
  by (auto simp: older_def split: option.splits) (metis nth_list_update_eq nth_list_update_neq)

lemma older_subset: "name ` set (older F nm c) \<subseteq> insert [] (name ` set (corpus c))"
  using set_update_subset_insert by (fastforce simp: older_def split: option.splits)

lemma older_names:
  assumes "store_inv c" and "nm \<noteq> []"
  shows "nm \<notin> name ` set (older F nm c)"
proof (cases "find_corpus (\<lambda>e. name e = nm) c")
  case None
  then show ?thesis using find_corpus_None [OF None] by (auto simp: older_def)
next
  case (Some k)
  then have k: "k < length (corpus c)" "name (corpus c ! k) = nm" using find_corpus_Some by blast+
  have dist: "distinct (filter (\<lambda>s. s \<noteq> []) (map name (corpus c)))" using assms(1) by (simp add: store_inv_def store_ok_def)
  have "filter (\<lambda>s. s \<noteq> []) (map name (corpus c)) = filter (\<lambda>s. s \<noteq> []) (map name (take k (corpus c))) @ nm #
      filter (\<lambda>s. s \<noteq> []) (map name (drop (Suc k) (corpus c)))"
    using k assms(2) by (subst id_take_nth_drop [OF k(1)]) simp
  then have "nm \<notin> name ` set (take k (corpus c))" "nm \<notin> name ` set (drop (Suc k) (corpus c))" using dist assms(2) by auto
  then show ?thesis using Some k assms(2) by (auto simp: older_def upd_conv_take_nth_drop)
qed

lemma corpus_AddToCorpus_eq:
  assumes "store_inv c" and "data \<noteq> []" and "length (corpus c) < 2 ^ 32 - 1" and nm: "nm = name (named h data info)"
  shows "\<exists>ins. corpus_AddToCorpus F h data False path (c, info) =
      Inr (c\<lparr>corpus := older F nm c @ [added_info h data c info], inputs := ins(next_id c \<mapsto> OnMemory data), next_id := next_id c + 1\<rparr>, added_info h data c info) \<and>
    store_ok ins (next_id c) (older F nm c)"
proof -
  have fresh: "\<forall>e \<in> set (corpus c). info_id e \<noteq> next_id c" using assms(1) by (auto simp: store_inv_def store_ok_def)
  have store: "store_ok (inputs c) (next_id c) (corpus c)" using assms(1) by (simp add: store_inv_def)
  have guard: "\<not> (data = [])" "length (corpus c) < 2 ^ 32 - 1" using assms(2,3) by simp_all
  show ?thesis
  proof (cases "find_corpus (\<lambda>e. name e = nm) c")
    case None
    have "corpus_AddToCorpus F h data False path (c, info) =
      Inr (c\<lparr>corpus := older F nm c @ [added_info h data c info], inputs := (inputs c)(next_id c \<mapsto> OnMemory data), next_id := next_id c + 1\<rparr>, added_info h data c info)"
      using None fresh unfolding corpus_AddToCorpus_def prod.case Let_def nm
      by (simp only: guard if_False if_True not_True_eq_False) (simp add: create_input_def insert_corpus_def older_def added_info_def Let_def)
    moreover have "store_ok (inputs c) (next_id c) (older F nm c)" using store None by (simp add: older_def)
    ultimately show ?thesis by blast
  next
    case (Some k)
    then have k: "k < length (corpus c)" using find_corpus_Some by blast
    define e where "e = corpus c ! k"
    have idk: "info_id e \<noteq> next_id c" using fresh k by (simp add: e_def)
    let ?ins = "(inputs c)(info_id e := None)"
    have fresh': "\<forall>x \<in> set ((corpus c)[k := cleared_info F e]). info_id x \<noteq> next_id c"
      using fresh k idk by (metis cleared_simps(1) in_set_conv_nth length_list_update nth_list_update)
    have "corpus_AddToCorpus F h data False path (c, info) =
      Inr (c\<lparr>corpus := older F nm c @ [added_info h data c info], inputs := ?ins(next_id c \<mapsto> OnMemory data), next_id := next_id c + 1\<rparr>, added_info h data c info)"
      using Some fresh' idk unfolding corpus_AddToCorpus_def prod.case Let_def nm
      by (simp only: guard if_False if_True not_True_eq_False)
        (simp add: create_input_def insert_corpus_def older_def added_info_def Let_def modify_corpus_def erase_input_def e_def [symmetric] fun_upd_twist)
    moreover have "store_ok ?ins (next_id c) ((corpus c)[k := cleared_info F e])"
      by (rule store_ok_update [OF store k]) (simp_all add: e_def)
    ultimately show ?thesis using Some by (auto simp: older_def e_def)
  qed
qed

lemma corpus_AddToCorpus_inv:
  assumes "feat_inv st (corpus c) p n" and "store_inv c" and "data \<noteq> []" and "length data < 2 ^ 32" and "length (corpus c) < 2 ^ 32 - 1"
    and "enabled info" and "features_count info = p" and "h data \<noteq> []"
  obtains c' where "corpus_AddToCorpus F h data False path (c, info) = Inr (c', added_info h data c info)"
    "corpus c' = older F (name (named h data info)) c @ [added_info h data c info]" "feat_inv st (corpus c') 0 m" "store_inv c'"
proof -
  let ?nm = "name (named h data info)" let ?e = "added_info h data c info"
  obtain ins where run: "corpus_AddToCorpus F h data False path (c, info) =
      Inr (c\<lparr>corpus := older F ?nm c @ [?e], inputs := ins(next_id c \<mapsto> OnMemory data), next_id := next_id c + 1\<rparr>, ?e)"
    and store: "store_ok ins (next_id c) (older F ?nm c)"
    using corpus_AddToCorpus_eq [OF assms(2,3,5) refl, where h = h and info = info and F = F and path = path] by blast
  have nm: "?nm \<noteq> []" using assms(8) by (simp add: named_def)
  have e: "info_id ?e = next_id c" "enabled ?e" "name ?e = ?nm" "features_count ?e = p"
    using assms(6,7) by (simp_all add: added_info_def Let_def named_def)
  have "feat_inv st (older F ?nm c @ [?e]) 0 m"
  proof (rule feat_inv_append [OF assms(1)])
    show "length (older F ?nm c) = length (corpus c)" by (rule older_nth(1))
    show "older F ?nm c ! k = corpus c ! k \<or> (\<not> enabled (older F ?nm c ! k) \<and> features_count (older F ?nm c ! k) = 0)" if "k < length (corpus c)" for k
      using older_nth(2) [OF that, of F ?nm] by auto
  qed (use e in simp_all)
  moreover have "store_ok (ins(next_id c \<mapsto> OnMemory data)) (next_id c + 1) (older F ?nm c @ [?e])"
    by (rule store_ok_append [OF store]) (use e nm assms(3,4) older_names [OF assms(2) nm] in simp_all)
  ultimately show thesis by (intro that [OF run]) (simp_all add: store_inv_def)
qed

lemma maximal_energy_simps [simp]:
  "enabled (maximal_energy F force d st info) = enabled info" "features_count (maximal_energy F force d st info) = features_count info"
  "name (maximal_energy F force d st info) = name info" "name (named h data (maximal_energy F force d st info)) = name (named h data info)"
  by (simp_all add: maximal_energy_def Let_def named_def)

text \<open>
  One execution, from its coverage to the corpus. \<open>found\<close> are the features that were added; the last entry of the corpus is the
  execution if there are any, or if it is added in any case.
\<close>

lemma feedback_inv:
  assumes "feat_inv st (corpus c) 0 m" and "store_inv c" and "\<not> entropic_enabled (config st)" and "data \<noteq> []" and "length data < 2 ^ 32"
    and "length (corpus c) < 2 ^ 32 - 1" and "enabled info" and "h data \<noteq> []"
  obtains st1 c1 info1 b st' c' info' and found :: "nat list" where
    "CollectFeatures F address data cov offset (st, c, info) = Inr (st1, c1, info1)"
    "AddToCorpus F h data force may_delete False strict path (st1, c1, info1) = Inr (b, st', c', info')"
    "feat_inv st' (corpus c') 0 m" "store_inv c'" "config st' = config st" "enabled info'" "features_count info' = length found"
    "added_to_corpus info' \<longleftrightarrow> found \<noteq> []" "name info' = (if found \<noteq> [] \<or> force then name (named h data info) else name info)"
    "found = [] \<and> \<not> force \<longrightarrow> st' = st \<and> c' = c"
    "found \<noteq> [] \<or> force \<longrightarrow> distribution_needs_update st' \<and> length (corpus c') = length (corpus c) + 1 \<and> last (corpus c') = info'"
    "force \<and> found = [] \<longrightarrow> corpus c' = older F (name (named h data info)) c @ [info']"
    "found \<noteq> [] \<or> force \<longrightarrow> (\<exists>es. corpus c' = es @ [info'] \<and> length es = length (corpus c) \<and> name ` set es \<subseteq> insert [] (name ` set (corpus c)) - {name info'})"
proof -
  have len: "length data mod 2 ^ 32 = length data" "length data mod 2 ^ 32 \<noteq> 0" "length (corpus c) < 2 ^ 32" using assms(4-6) by simp_all
  obtain st1 c1 u fnd where col: "CollectFeatures F address data cov offset (st, c, info) =
       Inr (st1, c1, info\<lparr>found_unique_features := fnd, features_count := length u, unique_feature_set := u\<rparr>)"
    "feat_inv st1 (corpus c1) (length u) (length data mod 2 ^ 32)" "store_inv c1" "config st1 = config st"
    "length (corpus c1) = length (corpus c)" "next_id c1 = next_id c" "u = [] \<longrightarrow> st1 = st \<and> c1 = c"
    "name ` set (corpus c1) \<subseteq> insert [] (name ` set (corpus c))"
    by (rule CollectFeatures_inv [where F = F and address = address and cov = cov and offset = offset and info = info, OF assms(1-3) len(2,3)])
  define info1 where "info1 = info\<lparr>found_unique_features := fnd, features_count := length u, unique_feature_set := u\<rparr>"
  have i1: "enabled info1" "features_count info1 = length u" "unique_feature_set info1 = u" "found_unique_features info1 = fnd" "name info1 = name info"
    using assms(7) by (simp_all add: info1_def)
  note col' = col(1) [folded info1_def]
  show thesis
  proof (cases "u \<noteq> [] \<or> force")
    case True
    define info2 where "info2 = (maximal_energy F force may_delete st1 info1)\<lparr>added_to_corpus := features_count info1 \<noteq> 0\<rparr>"
    have i2: "enabled info2" "features_count info2 = length u" "added_to_corpus info2 \<longleftrightarrow> u \<noteq> []" "name (named h data info2) = name (named h data info)"
      using i1 by (simp_all add: info2_def named_def)
    have small: "length (corpus c1) < 2 ^ 32 - 1" using assms(6) col(5) by simp
    obtain c' where c': "corpus_AddToCorpus F h data False path (c1, info2) = Inr (c', added_info h data c1 info2)"
      "corpus c' = older F (name (named h data info2)) c1 @ [added_info h data c1 info2]" "feat_inv st1 (corpus c') 0 m" "store_inv c'"
      by (rule corpus_AddToCorpus_inv [where F = F and path = path and h = h, OF col(2,3) assms(4,5) small i2(1,2) assms(8)])
    let ?st = "st1\<lparr>distribution_needs_update := True\<rparr>" let ?info = "added_info h data c1 info2"
    have run: "AddToCorpus F h data force may_delete False strict path (st1, c1, info1) = Inr (True, ?st, c', ?info)"
      using True i1(2) c'(1) unfolding AddToCorpus_def prod.case Let_def info2_def [symmetric] by simp
    have nm: "name (named h data info) \<noteq> []" using assms(8) by (simp add: named_def)
    have info: "enabled ?info" "features_count ?info = length u" "added_to_corpus ?info \<longleftrightarrow> u \<noteq> []" "name ?info = name (named h data info)"
      using i2 by (simp_all add: added_info_def Let_def named_def)
    have "feat_inv ?st (corpus c') 0 m" using c'(3) by (simp cong: feat_inv_cong)
    moreover have "name ` set (older F (name (named h data info2)) c1) \<subseteq> insert [] (name ` set (corpus c)) - {name ?info}"
      unfolding info(4) i2(4) using older_names [OF col(3) nm, of F] older_subset [of F "name (named h data info)" c1] col(8) by blast
    ultimately show thesis
      using True col(4,5,7) c'(2,4) info i2(4) older_nth(1) [of F "name (named h data info)" c1] by (intro that [OF col' run, of u]) auto
  next
    case False
    then have u: "u = []" "\<not> force" by simp_all
    have run: "AddToCorpus F h data force may_delete False strict path (st1, c1, info1) = Inr (False, st1, c1, info1\<lparr>added_to_corpus := False\<rparr>)"
      using u i1 by (auto simp: AddToCorpus_def)
    show thesis
      using u col(3-7) assms(1) i1 by (intro that [OF col' run, of "[]"]) simp_all
  qed
qed

section \<open>Replacing an entry\<close>

text \<open>The counter of updates grows exactly with the features that are remembered, in either mode.\<close>

lemma drop_rare_updated: "drop_rare sc = Inr (st', c') \<Longrightarrow> updated_features_count st' = updated_features_count (fst sc)"
proof (induction sc arbitrary: st' c' rule: drop_rare.induct)
  case (1 st c)
  show ?case
  proof (cases "number_of_rarest_features (config st) < length (rare_features st) \<and>
      feature_frequency_threshold (config st) < freq_of_most_abundant_rare_feature st")
    case True
    obtain a b del where m: "most_abundant (global_feature_freqs st) (rare_features st) = (a, b, del)"
      by (cases "most_abundant (global_feature_freqs st) (rare_features st)")
    have all: "list_all (\<lambda>i. i < length (global_feature_freqs st)) (rare_features st)"
      using "1.prems" True by (subst (asm) drop_rare.simps) (simp add: Let_def split: if_splits)
    have run: "drop_rare (st\<lparr>rare_features := butlast ((rare_features st)[del := last (rare_features st)]),
          freq_of_most_abundant_rare_feature := global_feature_freqs st ! b\<rparr>, c\<lparr>corpus := map (forget_feature a) (corpus c)\<rparr>) = Inr (st', c')"
      using "1.prems" True all m by (subst (asm) drop_rare.simps) (simp add: Let_def)
    have nall: "\<not> \<not> list_all (\<lambda>i. i < length (global_feature_freqs st)) (rare_features st)" using all by simp
    show ?thesis using "1.IH" [OF refl refl True nall m [symmetric] refl refl run] by simp
  next
    case False
    then have "drop_rare (st, c) = Inr (st, c)" by (subst drop_rare.simps) (simp only: Let_def if_False)
    then show ?thesis using "1.prems" by simp
  qed
qed

lemma AddRareFeature_updated:
  "AddRareFeature F i (st, c) = Inr (st', c') \<Longrightarrow> updated_features_count st' = updated_features_count st"
  unfolding AddRareFeature_def using drop_rare_updated [of "(st, c)"] by (auto simp: result_simps split: if_splits)

lemma lose_feature_updated: "lose_feature F k (st, c) = Inr (st', c') \<Longrightarrow> updated_features_count st' = updated_features_count st"
  unfolding lose_feature_def deleteInput_def Let_def by (auto split: if_splits)

lemma AddFeature_updated:
  "AddFeature F f n s (st, c) = Inr (b, st', c') \<Longrightarrow> updated_features_count st' = updated_features_count st + of_bool b"
  unfolding AddFeature_def Let_def
  by (auto simp: result_simps split: if_splits dest!: AddRareFeature_updated lose_feature_updated)

lemma UpdateFeatureFrequency_updated:
  "UpdateFeatureFrequency f (st, info) = Inr (st', info') \<Longrightarrow> updated_features_count st' = updated_features_count st"
  unfolding UpdateFeatureFrequency_def Let_def by (auto split: if_splits)

lemma collect_feature_updated:
  assumes "collect_feature F n f s = Inr s'"
  shows "updated_features_count (col_state s') + length (col_unique s) = updated_features_count (col_state s) + length (col_unique s')"
proof -
  obtain x where x: "AddFeature F f (n mod 2 ^ 32) (shrink (config (col_state s))) (col_state s, col_corpus s) = Inr x"
    using assms unfolding collect_feature_def Let_def bindR_eq_Inr by blast
  obtain b st c where b: "x = (b, st, c)" by (cases x)
  define q where "q = (if entropic_enabled (config (col_state s)) then UpdateFeatureFrequency f (st, col_info s) else Inr (st, col_info s))"
  note run = assms [unfolded collect_feature_def Let_def x b bindR_Inr prod.case q_def [symmetric]]
  obtain st1 info1 where q: "q = Inr (st1, info1)" using run by (cases q) auto
  have "updated_features_count st1 = updated_features_count st"
    using q UpdateFeatureFrequency_updated [of f st "col_info s" st1 info1] unfolding q_def by (simp split: if_splits)
  moreover have "col_state s' = st1" "col_unique s' = (if b then col_unique s @ [f] else col_unique s)"
    using run unfolding q bindR_Inr prod.case by auto
  ultimately show ?thesis using AddFeature_updated [OF x [unfolded b]] by simp
qed

lemma collect_features_updated:
  assumes "collect_features F n offset xs s = Inr s'"
  shows "updated_features_count (col_state s') + length (col_unique s) = updated_features_count (col_state s) + length (col_unique s')"
  using assms
proof (induction xs arbitrary: s)
  case (Cons x xs)
  obtain f s1 where f: "collect_feature F n f s = Inr s1" "collect_features F n offset xs s1 = Inr s'"
    using Cons.prems by (auto simp: result_simps)
  show ?case using collect_feature_updated [OF f(1)] Cons.IH [OF f(2)] by linarith
qed simp



end
