(* ===== verification/LibFuzzer_Mutation_Props.thy ===== *)
theory LibFuzzer_Mutation_Props
  imports LibFuzzer_Parts
begin

text \<open>
  Properties of the mutators of libFuzzer: on an input that is not empty every mutator returns, without a failed assertion
  and without an access outside a vector, and its result is not empty and not longer than permitted.
\<close>

section \<open>Random numbers\<close>

lemma random_valueE:
  obtains r rs' where "random_value n rs = (r, rs')" "0 < n \<Longrightarrow> r < n" "n = 0 \<Longrightarrow> r = 0"
proof (cases "n = 0")
  case True
  then show ?thesis using that [of 0 rs] by (simp add: random_value_def)
next
  case False
  then show ?thesis using that [of "fst (raw_draw rs) mod n" "snd (raw_draw rs)"] by (simp add: random_value_def split_beta)
qed

lemma random_bool_ok: "\<exists>b rs'. random_bool rs = Inr (b, rs')"
  by (cases "raw_draw rs") (simp add: random_bool_def random_range_def)

lemma random_u8_ok: "\<exists>b rs'. random_u8 rs = Inr (b, rs') \<and> b \<noteq> 255"
proof (cases "raw_draw rs")
  case (Pair r rs')
  have "unat (of_nat (r mod 255) :: u8) = r mod 255" by (simp add: unat_of_nat)
  then have "(of_nat (r mod 255) :: u8) \<noteq> 255"
    using mod_less_divisor [of 255 r] by (auto dest: arg_cong [of _ _ unat])
  then show ?thesis using Pair by (simp add: random_u8_def random_range_def)
qed

section \<open>The contract of a mutator\<close>

definition lf_mut_ok :: "u8 list \<Rightarrow> nat \<Rightarrow> string list \<Rightarrow> mutated \<Rightarrow> bool" where
  "lf_mut_ok data m h res \<longleftrightarrow> (\<exists>n data' h' rs'. res = Inr (n, data', h', rs') \<and> data' \<noteq> [] \<and> length data' \<le> max m (length data) \<and>
     (n = 0 \<longrightarrow> data' = data) \<and> (n \<noteq> 0 \<longrightarrow> n = length data') \<and> (n = 0 \<and> h' = h \<or> (\<exists>name. h' = h @ [name])))"

lemma lf_mut_ok_none: "data \<noteq> [] \<Longrightarrow> lf_mut_ok data m h (Inr (0, data, h, rs))"
  by (simp add: lf_mut_ok_def)

lemma lf_mut_ok_done: "data' \<noteq> [] \<Longrightarrow> length data' \<le> max m (length data) \<Longrightarrow> lf_mut_ok data m h (done_mut name h data' rs)"
  by (simp add: lf_mut_ok_def done_mut_def)

lemma vec_ok:
  "i < length xs \<Longrightarrow> vec_set xs i b = Inr (xs[i := b])"
  "i \<le> length xs \<Longrightarrow> vec_insert xs i ys = Inr (take i xs @ ys @ drop i xs)"
  "i \<le> j \<Longrightarrow> j \<le> length xs \<Longrightarrow> vec_erase xs i j = Inr (take i xs @ drop j xs)"
  "i + n \<le> length xs \<Longrightarrow> vec_slice xs i n = Inr (take n (drop i xs))"
  "i + length ys \<le> length xs \<Longrightarrow> vec_write xs i ys = Inr (take i xs @ ys @ drop (i + length ys) xs)"
  by (simp_all add: vec_set_def vec_insert_def vec_erase_def vec_slice_def vec_write_def)

lemma EraseBytes_ok:
  assumes "data \<noteq> []"
  shows "lf_mut_ok data m h (EraseBytes data m h rs)"
proof (cases "length data \<le> 1")
  case True
  then show ?thesis using lf_mut_ok_none [OF assms] by (simp add: EraseBytes_def)
next
  case False
  obtain r rs1 where r: "random_value (length data div 2) rs = (r, rs1)" "0 < length data div 2 \<Longrightarrow> r < length data div 2"
    using random_valueE [of "length data div 2" rs] by metis
  then have n: "r + 1 < length data" using False by simp
  obtain i rs2 where i: "random_value (length data - (r + 1) + 1) rs1 = (i, rs2)" "i < length data - (r + 1) + 1"
    by (rule random_valueE [of "length data - (r + 1) + 1" rs1]) simp
  have e: "vec_erase data i (i + (r + 1)) = Inr (take i data @ drop (i + (r + 1)) data)"
    by (rule vec_ok) (use i(2) n in simp_all)
  have len: "length (take i data @ drop (i + (r + 1)) data) = length data - (r + 1)"
    using i(2) n by simp
  then have "take i data @ drop (i + (r + 1)) data \<noteq> []"
    using n by (metis length_0_conv less_nat_zero_code zero_less_diff)
  moreover have "EraseBytes data m h rs = done_mut ''EraseBytes'' h (take i data @ drop (i + (r + 1)) data) rs2"
    using False r(1) n i(1) e by (simp add: EraseBytes_def Let_def)
  ultimately show ?thesis
    using lf_mut_ok_done [of "take i data @ drop (i + (r + 1)) data" m data h] len by simp
qed

lemma InsertByte_ok:
  assumes "data \<noteq> []"
  shows "lf_mut_ok data m h (InsertByte data m h rs)"
proof (cases "m \<le> length data")
  case True
  then show ?thesis using lf_mut_ok_none [OF assms] by (simp add: InsertByte_def)
next
  case False
  obtain i rs1 where i: "random_value (length data + 1) rs = (i, rs1)" "i < length data + 1"
    by (rule random_valueE [of "length data + 1" rs]) simp
  obtain b rs2 where "random_u8 rs1 = Inr (b, rs2)" using random_u8_ok by blast
  then have "InsertByte data m h rs = done_mut ''InsertByte'' h (take i data @ [b] @ drop i data) rs2"
    using False i by (simp add: InsertByte_def vec_ok Let_def)
  then show ?thesis using lf_mut_ok_done [of "take i data @ [b] @ drop i data" m data h] False by simp
qed

lemma InsertRepeatedBytes_ok:
  assumes "data \<noteq> []"
  shows "lf_mut_ok data m h (InsertRepeatedBytes data m h rs)"
proof (cases "m \<le> length data + 3")
  case True
  then show ?thesis using lf_mut_ok_none [OF assms] by (simp add: InsertRepeatedBytes_def)
next
  case False
  let ?most = "min (m - length data) 128"
  obtain r rs1 where r: "random_value (?most - 3 + 1) rs = (r, rs1)" "r < ?most - 3 + 1"
    by (rule random_valueE [of "?most - 3 + 1" rs]) simp
  obtain i rs2 where i: "random_value (length data + 1) rs1 = (i, rs2)" "i < length data + 1"
    by (rule random_valueE [of "length data + 1" rs1]) simp
  obtain z rs3 where z: "random_bool rs2 = Inr (z, rs3)" using random_bool_ok by blast
  let ?new = "take i data @ replicate (r + 3) (if z then 0 else 255) @ drop i data"
  have n: "length data + (r + 3) \<le> m" using r(2) False by simp
  have "InsertRepeatedBytes data m h rs = done_mut ''InsertRepeatedBytes'' h ?new rs3"
    using False r(1) i z n by (simp add: InsertRepeatedBytes_def vec_ok Let_def)
  then show ?thesis using lf_mut_ok_done [of ?new m data h] n i(2) by simp
qed

lemma ChangeByte_ok:
  assumes "data \<noteq> []"
  shows "lf_mut_ok data m h (ChangeByte data m h rs)"
proof (cases "m < length data")
  case True
  then show ?thesis using lf_mut_ok_none [OF assms] by (simp add: ChangeByte_def)
next
  case False
  obtain i rs1 where i: "random_value (length data) rs = (i, rs1)" "i < length data"
    using assms by (metis length_greater_0_conv random_valueE)
  obtain b rs2 where "random_u8 rs1 = Inr (b, rs2)" using random_u8_ok by blast
  then have "ChangeByte data m h rs = done_mut ''ChangeByte'' h (data[i := b]) rs2"
    using False i by (simp add: ChangeByte_def vec_ok Let_def)
  then show ?thesis using lf_mut_ok_done [of "data[i := b]" m data h] assms by simp
qed

lemma ChangeBit_ok:
  assumes "data \<noteq> []"
  shows "lf_mut_ok data m h (ChangeBit data m h rs)"
proof (cases "m < length data")
  case True
  then show ?thesis using lf_mut_ok_none [OF assms] by (simp add: ChangeBit_def)
next
  case False
  obtain i rs1 where i: "random_value (length data) rs = (i, rs1)" "i < length data"
    using assms by (metis length_greater_0_conv random_valueE)
  obtain k rs2 where "random_value 8 rs1 = (k, rs2)" by (rule random_valueE)
  then have "ChangeBit data m h rs = done_mut ''ChangeBit'' h (data[i := data ! i XOR push_bit k 1]) rs2"
    using False i by (simp add: ChangeBit_def vec_ok Let_def)
  then show ?thesis using lf_mut_ok_done [of "data[i := data ! i XOR push_bit k 1]" m data h] assms by simp
qed

text \<open>The documented behaviour of \<open>std::shuffle\<close>: a permutation.\<close>

definition shuffle_ok :: "shuffle \<Rightarrow> bool" where
  "shuffle_ok shuf \<longleftrightarrow> (\<forall>xs rs. mset (fst (shuf xs rs)) = mset xs)"

lemma ShuffleBytes_eq:
  assumes "shuffle_ok shuf" and "data \<noteq> []" and "length data \<le> m"
  shows "\<exists>i n part rs'. ShuffleBytes shuf data m h rs = done_mut ''ShuffleBytes'' h (take i data @ part @ drop (i + n) data) rs' \<and>
    i + n \<le> length data \<and> n \<le> 8 \<and> mset part = mset (take n (drop i data))"
proof -
  obtain r rs1 where r: "random_value (min (length data) 8) rs = (r, rs1)" "r < min (length data) 8"
    using assms(2) by (metis length_greater_0_conv min_less_iff_conj random_valueE zero_less_numeral)
  obtain i rs2 where i: "random_value (length data - (r + 1)) rs1 = (i, rs2)"
    "0 < length data - (r + 1) \<Longrightarrow> i < length data - (r + 1)" "length data - (r + 1) = 0 \<Longrightarrow> i = 0"
    using random_valueE [of "length data - (r + 1)" rs1] by metis
  have le: "i + (r + 1) \<le> length data" using i(2,3) r(2) by (cases "length data - (r + 1) = 0") auto
  obtain part rs3 where part: "shuf (take (r + 1) (drop i data)) rs2 = (part, rs3)" by (cases "shuf (take (r + 1) (drop i data)) rs2")
  have ms: "mset part = mset (take (r + 1) (drop i data))"
    using assms(1) part by (metis fst_conv shuffle_ok_def)
  have pl: "length part = r + 1" using mset_eq_length [OF ms] le by simp
  have "ShuffleBytes shuf data m h rs = done_mut ''ShuffleBytes'' h (take i data @ part @ drop (i + (r + 1)) data) rs3"
    using assms r(1) i(1) le part pl unfolding ShuffleBytes_def Let_def by (simp add: vec_ok)
  then show ?thesis using le ms r(2) by (intro exI [of _ i] exI [of _ "r + 1"]) auto
qed

lemma ShuffleBytes_ok:
  assumes "shuffle_ok shuf" and "data \<noteq> []"
  shows "lf_mut_ok data m h (ShuffleBytes shuf data m h rs)"
proof (cases "m < length data")
  case True
  then show ?thesis using lf_mut_ok_none [OF assms(2)] by (simp add: ShuffleBytes_def)
next
  case False
  then obtain i n part rs' where s: "ShuffleBytes shuf data m h rs = done_mut ''ShuffleBytes'' h (take i data @ part @ drop (i + n) data) rs'"
    "i + n \<le> length data" "mset part = mset (take n (drop i data))"
    using ShuffleBytes_eq [OF assms, of m h rs] by auto
  have "length (take i data @ part @ drop (i + n) data) = length data"
    using s(2) mset_eq_length [OF s(3)] by simp
  then show ?thesis
    using s(1) lf_mut_ok_done [of "take i data @ part @ drop (i + n) data" m data h] assms(2) by (metis length_0_conv max.cobounded2)
qed

section \<open>Integers\<close>

lemma find_from_bounds:
  assumes "i \<le> length xs"
  shows "i \<le> find_from p xs i" "find_from p xs i \<le> length xs"
    "find_from p xs i < length xs \<Longrightarrow> p (xs ! find_from p xs i)"
    "\<And>j. i \<le> j \<Longrightarrow> j < find_from p xs i \<Longrightarrow> \<not> p (xs ! j)"
proof -
  have "i \<le> find_from p xs i \<and> find_from p xs i \<le> length xs \<and> (find_from p xs i < length xs \<longrightarrow> p (xs ! find_from p xs i)) \<and>
    (\<forall>j. i \<le> j \<and> j < find_from p xs i \<longrightarrow> \<not> p (xs ! j))"
  proof (cases "List.find (\<lambda>j. p (xs ! j)) [i..<length xs]")
    case None
    then have "find_from p xs i = length xs" by (simp add: find_from_def)
    then show ?thesis using None assms by (auto simp: find_None_iff)
  next
    case (Some k)
    then obtain l where l: "l < length xs - i" "k = i + l" "p (xs ! k)" "\<forall>j < l. \<not> p (xs ! (i + j))"
      by (auto simp: find_Some_iff)
    have "\<not> p (xs ! j)" if "i \<le> j" "j < k" for j
      using l(2,4) that by (metis add_diff_inverse_nat diff_less_mono2 le_add_diff_inverse less_diff_conv2 nat_add_left_cancel_less)
    then show ?thesis using Some l by (auto simp: find_from_def)
  qed
  then show "i \<le> find_from p xs i" "find_from p xs i \<le> length xs"
    "find_from p xs i < length xs \<Longrightarrow> p (xs ! find_from p xs i)"
    "\<And>j. i \<le> j \<Longrightarrow> j < find_from p xs i \<Longrightarrow> \<not> p (xs ! j)" by blast+
qed

lemma length_ascii_digits [simp]: "length (ascii_digits n v) = n"
  by (induction n v rule: ascii_digits.induct) simp_all

lemma ascii_change_ok: "\<exists>v rs'. ascii_change value rs = Inr (v, rs')"
proof -
  obtain k rs1 where "random_value 5 rs = (k, rs1)" "k < 5"
    by (rule random_valueE [of 5 rs]) simp
  then show ?thesis by (cases "random_value (u64m (value * value)) rs1") (auto simp: ascii_change_def Let_def)
qed

text \<open>What \<open>ChangeASCIIInteger\<close> does: the first number at or after a random position gets new digits, as many as before.\<close>

lemma ChangeASCIIInteger_cases:
  assumes "length data \<le> m"
  shows "(\<exists>rs'. ChangeASCIIInteger data m h rs = Inr (0, data, h, rs')) \<or>
    (\<exists>i j v rs1 rs'. i < j \<and> j \<le> length data \<and> (\<forall>k. i \<le> k \<and> k < j \<longrightarrow> is_digit (data ! k)) \<and> (j < length data \<longrightarrow> \<not> is_digit (data ! j)) \<and>
      ascii_change (ascii_value (take (j - i) (drop i data))) rs1 = Inr (v, rs') \<and>
      ChangeASCIIInteger data m h rs = done_mut ''ChangeASCIIInt'' h (take i data @ ascii_digits (j - i) v @ drop j data) rs')"
proof -
  obtain b rs1 where b: "random_value (length data) rs = (b, rs1)" "b \<le> length data"
    using random_valueE [of "length data" rs] by (metis bot_nat_0.extremum less_imp_le not_gr_zero)
  define i where "i = find_from is_digit data b"
  note f = find_from_bounds [OF b(2), where p = is_digit, folded i_def]
  show ?thesis
  proof (cases "i = length data")
    case True
    then show ?thesis using assms b(1) by (simp add: ChangeASCIIInteger_def i_def)
  next
    case False
    define j where "j = find_from (\<lambda>d. \<not> is_digit d) data i"
    have i: "i < length data" "is_digit (data ! i)" using False f(2,3) by simp_all
    note g = find_from_bounds [OF f(2), where p = "\<lambda>d. \<not> is_digit d", folded j_def]
    have j: "i < j" using g(1,2,3) i by (metis le_neq_implies_less)
    obtain v rs2 where v: "ascii_change (ascii_value (take (j - i) (drop i data))) rs1 = Inr (v, rs2)"
      using ascii_change_ok by blast
    have "ChangeASCIIInteger data m h rs = done_mut ''ChangeASCIIInt'' h (take i data @ ascii_digits (j - i) v @ drop j data) rs2"
      using assms b(1) False j g(2) v unfolding ChangeASCIIInteger_def Let_def
      by (simp add: i_def [symmetric] j_def [symmetric] vec_ok)
    then show ?thesis using j g v by (intro disjI2 exI [of _ i] exI [of _ j] exI [of _ v] exI [of _ rs1] exI [of _ rs2]) auto
  qed
qed

lemma ChangeASCIIInteger_ok:
  assumes "data \<noteq> []"
  shows "lf_mut_ok data m h (ChangeASCIIInteger data m h rs)"
proof (cases "m < length data")
  case True
  then show ?thesis using lf_mut_ok_none [OF assms] by (simp add: ChangeASCIIInteger_def)
next
  case False
  then consider rs' where "ChangeASCIIInteger data m h rs = Inr (0, data, h, rs')"
    | i j v rs' where "i < j" "j \<le> length data"
      "ChangeASCIIInteger data m h rs = done_mut ''ChangeASCIIInt'' h (take i data @ ascii_digits (j - i) v @ drop j data) rs'"
    using ChangeASCIIInteger_cases [of data m h rs] by (metis not_less)
  then show ?thesis
  proof cases
    case 1
    then show ?thesis using lf_mut_ok_none [OF assms] by simp
  next
    case (2 i j v rs')
    then have "length (take i data @ ascii_digits (j - i) v @ drop j data) = length data" by simp
    then show ?thesis
      using 2(3) lf_mut_ok_done [of "take i data @ ascii_digits (j - i) v @ drop j data" m data h] assms by (metis length_0_conv max.cobounded2)
  qed
qed

lemma length_value_bytes [simp]: "length (value_bytes w v) = w"
  by (induction w v rule: value_bytes.induct) simp_all

lemma binary_change_ok: "\<exists>v rs'. binary_change w value rs = Inr (v, rs')"
proof -
  obtain r rs1 where r: "random_value 21 rs = (r, rs1)" by (cases "random_value 21 rs")
  obtain b rs2 where b: "random_bool rs1 = Inr (b, rs2)" using random_bool_ok by blast
  obtain c rs3 where "random_bool rs2 = Inr (c, rs3)" using random_bool_ok by blast
  then show ?thesis using r b by (simp add: binary_change_def Let_def)
qed

lemma ChangeBinaryInteger_at_ok:
  "\<exists>n data' rs'. ChangeBinaryInteger_at w data rs = Inr (n, data', rs') \<and> length data' = length data \<and> (n = 0 \<longrightarrow> data' = data \<or> data = []) \<and> (n \<noteq> 0 \<longrightarrow> n = length data)"
proof (cases "length data < w")
  case False
  obtain i rs1 where i: "random_value (length data - w + 1) rs = (i, rs1)" "i < length data - w + 1"
    by (rule random_valueE [of "length data - w + 1" rs]) simp
  have le: "i + w \<le> length data" using i(2) False by simp
  obtain r rs2 where r: "(if i < 64 then random_value 3 rs1 else (1, rs1)) = (r, rs2)" by (cases "if i < 64 then random_value 3 rs1 else (1, rs1)")
  obtain b rs3 where b: "random_bool rs2 = Inr (b, rs3)" using random_bool_ok by blast
  obtain v' rs4 where v': "binary_change w (bytes_value (take w (drop i data))) rs2 = Inr (v', rs4)" using binary_change_ok by blast
  have "\<exists>v rs'. (if i < 64 \<and> r = 0 then bindR (random_bool rs2) (\<lambda>(swapped, rs). let value = length data mod 256 ^ w in Inr (if swapped then bswap w value else value, rs))
      else bindR (vec_slice data i w) (\<lambda>bs. binary_change w (bytes_value bs) rs2)) = Inr (v, rs')"
    using b v' le by (simp add: vec_ok Let_def)
  then obtain v rs' where v: "(if i < 64 \<and> r = 0 then bindR (random_bool rs2) (\<lambda>(swapped, rs). let value = length data mod 256 ^ w in Inr (if swapped then bswap w value else value, rs))
      else bindR (vec_slice data i w) (\<lambda>bs. binary_change w (bytes_value bs) rs2)) = Inr (v, rs')" by blast
  have "ChangeBinaryInteger_at w data rs = Inr (length data, take i data @ value_bytes w v @ drop (i + w) data, rs')"
    using False i(1) le unfolding ChangeBinaryInteger_at_def Let_def
    by (simp only: i(1) r prod.case v [unfolded Let_def] bindR_Inr if_False not_True_eq_False) (use le in \<open>simp add: vec_ok\<close>)
  then show ?thesis using le by auto
qed (simp add: ChangeBinaryInteger_at_def)

lemma ChangeBinaryInteger_ok:
  assumes "data \<noteq> []"
  shows "lf_mut_ok data m h (ChangeBinaryInteger data m h rs)"
proof (cases "m < length data")
  case True
  then show ?thesis using lf_mut_ok_none [OF assms] by (simp add: ChangeBinaryInteger_def)
next
  case False
  obtain k rs1 where k: "random_value 4 rs = (k, rs1)" "k < 4"
    by (rule random_valueE [of 4 rs]) simp
  let ?w = "if k = 3 then 8 else if k = 2 then 4 else if k = 1 then 2 else 1"
  obtain n data' rs' where c: "ChangeBinaryInteger_at ?w data rs1 = Inr (n, data', rs')" "length data' = length data"
    "n = 0 \<longrightarrow> data' = data \<or> data = []" "n \<noteq> 0 \<longrightarrow> n = length data"
    using ChangeBinaryInteger_at_ok by blast
  have "ChangeBinaryInteger data m h rs = Inr (n, data', h @ [''ChangeBinInt''], rs')"
    using False k c(1) unfolding ChangeBinaryInteger_def Let_def by (auto split: if_splits)
  then show ?thesis using c assms by (auto simp: lf_mut_ok_def)
qed

section \<open>Copying within a vector\<close>

lemma length_copy_elem [simp]: "length (copy_elem src dst i xs) = length xs"
  by (simp add: copy_elem_def)

lemma length_fold_copy [simp]: "length (fold (copy_elem src dst) is xs) = length xs"
  by (induction "is" arbitrary: xs) simp_all

lemma copy_forward_nth:
  assumes "dst < src \<or> src + n \<le> dst" and "src + n \<le> length xs" and "dst + n \<le> length xs" and "k < length xs"
  shows "copy_forward src dst n xs ! k = (if dst \<le> k \<and> k < dst + n then xs ! (src + (k - dst)) else xs ! k)"
  using assms
proof (induction n arbitrary: k)
  case (Suc n)
  have step: "copy_forward src dst (Suc n) xs = copy_elem src dst n (copy_forward src dst n xs)"
    by (simp add: copy_forward_def)
  have IH: "copy_forward src dst n xs ! k = (if dst \<le> k \<and> k < dst + n then xs ! (src + (k - dst)) else xs ! k)" if "k < length xs" for k
    using Suc.IH [of k] Suc.prems that by linarith
  have "copy_forward src dst n xs ! (src + n) = xs ! (src + n)"
    using IH [of "src + n"] Suc.prems(1,2) by auto
  then show ?case
    using IH [OF Suc.prems(4)] Suc.prems unfolding step by (auto simp: copy_elem_def nth_list_update copy_forward_def)
qed (auto simp: copy_forward_def)

lemma copy_backward_nth:
  assumes "src < dst" and "src + n \<le> length xs" and "dst + n \<le> length xs" and "k < length xs"
  shows "copy_backward src dst n xs ! k = (if dst \<le> k \<and> k < dst + n then xs ! (src + (k - dst)) else xs ! k)"
  using assms
proof (induction n arbitrary: xs)
  case (Suc n)
  have step: "copy_backward src dst (Suc n) xs = copy_backward src dst n (copy_elem src dst n xs)"
    by (simp add: copy_backward_def)
  have IH: "copy_backward src dst n (copy_elem src dst n xs) ! k =
    (if dst \<le> k \<and> k < dst + n then copy_elem src dst n xs ! (src + (k - dst)) else copy_elem src dst n xs ! k)"
    by (rule Suc.IH) (use Suc.prems in simp_all)
  show ?case
    using Suc.prems unfolding step IH by (auto simp: copy_elem_def nth_list_update)
qed (auto simp: copy_backward_def)

text \<open>
  The two directions make \<open>CopySelf\<close> independent of how the ranges overlap: the result is as if the source were copied away
  first.
\<close>

lemma CopySelf_snapshot:
  assumes "src + n \<le> length xs" and "dst + n \<le> length xs"
  shows "CopySelf src (src + n) dst (dst + n) xs = Inr (take dst xs @ take n (drop src xs) @ drop (dst + n) xs)"
proof -
  let ?new = "take dst xs @ take n (drop src xs) @ drop (dst + n) xs"
  have nth: "?new ! k = (if dst \<le> k \<and> k < dst + n then xs ! (src + (k - dst)) else xs ! k)" if "k < length xs" for k
  proof -
    have "length (take dst xs) = dst" "length (take n (drop src xs)) = n" using assms by simp_all
    moreover have "k \<ge> dst + n \<Longrightarrow> drop (dst + n) xs ! (k - (dst + n)) = xs ! k" using assms by simp
    ultimately show ?thesis using assms that by (auto simp: nth_append)
  qed
  have len: "length ?new = length xs" using assms by simp
  have fwd: "dst < src \<or> src + n \<le> dst \<Longrightarrow> copy_forward src dst n xs = ?new"
    using copy_forward_nth [OF _ assms] nth len by (intro nth_equalityI) (simp_all add: copy_forward_def)
  have bwd: "src < dst \<Longrightarrow> copy_backward src dst n xs = ?new"
    using copy_backward_nth [OF _ assms] nth len by (intro nth_equalityI) (simp_all add: copy_backward_def)
  have same: "src = dst \<or> n = 0 \<Longrightarrow> ?new = xs"
    using nth len by (intro nth_equalityI) auto
  show ?thesis
    using assms fwd bwd same by (simp add: CopySelf_def Let_def) auto
qed

lemma CopyPartOf_ok:
  assumes "to \<noteq> []" and "from \<noteq> []" and "overlap \<Longrightarrow> from = to"
  shows "\<exists>i k n rs'. CopyPartOf from to overlap rs = Inr (length to, take i to @ take n (drop k from) @ drop (i + n) to, rs') \<and>
    0 < n \<and> i + n \<le> length to \<and> k + n \<le> length from"
proof -
  obtain i rs1 where i: "random_value (length to) rs = (i, rs1)" "i < length to"
    using assms(1) by (metis length_greater_0_conv random_valueE)
  obtain r rs2 where r: "random_value (length to - i) rs1 = (r, rs2)" "r < length to - i"
    using i(2) by (metis random_valueE zero_less_diff)
  let ?n = "min (r + 1) (length from)"
  obtain k rs3 where k: "random_value (length from - ?n + 1) rs2 = (k, rs3)" "k < length from - ?n + 1"
    by (rule random_valueE [of "length from - ?n + 1" rs2]) simp
  have b: "0 < ?n" "i + ?n \<le> length to" "k + ?n \<le> length from" "i + (r + 1) \<le> length to"
    using assms(2) r(2) k(2) by auto
  have "(if overlap then CopySelf k (k + ?n) i (i + ?n) to else bindR (vec_slice from k ?n) (\<lambda>part. vec_write to i part)) =
    Inr (take i to @ take ?n (drop k from) @ drop (i + ?n) to)"
    using b(2,3) assms(3) CopySelf_snapshot [of k ?n to i] by (cases overlap) (simp_all add: vec_ok)
  then have "CopyPartOf from to overlap rs = Inr (length to, take i to @ take ?n (drop k from) @ drop (i + ?n) to, rs3)"
    using i(1) r(1) k(1) b unfolding CopyPartOf_def Let_def by (simp only: prod.case bindR_Inr) simp
  then show ?thesis using b by blast
qed

lemma InsertPartOf_ok:
  assumes "from \<noteq> []" and "overlap \<Longrightarrow> from = to" and "length to < m"
  shows "\<exists>i k n rs'. InsertPartOf from to overlap m rs = Inr (length to + n, take i to @ take n (drop k from) @ drop i to, rs') \<and>
    0 < n \<and> i \<le> length to \<and> k + n \<le> length from \<and> length to + n \<le> m"
proof -
  have pos: "0 < min (m - length to) (length from)" using assms(1,3) by simp
  obtain r rs1 where r: "random_value (min (m - length to) (length from)) rs = (r, rs1)" "r < min (m - length to) (length from)"
    using pos by (metis random_valueE)
  obtain k rs2 where k: "random_value (length from - (r + 1) + 1) rs1 = (k, rs2)" "k < length from - (r + 1) + 1"
    by (rule random_valueE [of "length from - (r + 1) + 1" rs1]) simp
  obtain i rs3 where i: "random_value (length to + 1) rs2 = (i, rs3)" "i < length to + 1"
    by (rule random_valueE [of "length to + 1" rs2]) simp
  have b: "k + (r + 1) \<le> length from" "i \<le> length to" "length to + (r + 1) \<le> m" "i + (r + 1) \<le> m"
    using r(2) k(2) i(2) by auto
  have "vec_slice (if overlap then to else from) k (r + 1) = Inr (take (r + 1) (drop k from))"
    using b(1) assms(2) by (cases overlap) (simp_all add: vec_ok)
  then have "InsertPartOf from to overlap m rs = Inr (length to + (r + 1), take i to @ take (r + 1) (drop k from) @ drop i to, rs3)"
    using assms(3) r(1) k(1) i(1) b unfolding InsertPartOf_def Let_def by (simp add: vec_ok)
  then show ?thesis using b by (intro exI [of _ i] exI [of _ k] exI [of _ "r + 1"]) auto
qed

lemma CopyPart_ok:
  assumes "data \<noteq> []"
  shows "lf_mut_ok data m h (CopyPart data m h rs)"
proof (cases "m < length data")
  case True
  then show ?thesis using lf_mut_ok_none [OF assms] by (simp add: CopyPart_def)
next
  case False
  obtain c rs1 where c: "(if length data = m then Inr (True, rs) else random_bool rs) = Inr (c, rs1)" "length data = m \<Longrightarrow> c"
    using random_bool_ok [of rs] by (cases "length data = m") auto
  have "\<exists>n data' rs'. (if c then CopyPartOf data data True rs1 else InsertPartOf data data True m rs1) = Inr (n, data', rs') \<and>
    data' \<noteq> [] \<and> length data' \<le> max m (length data)"
  proof (cases c)
    case True
    then show ?thesis using CopyPartOf_ok [OF assms assms, of True rs1] assms by fastforce
  next
    case f: False
    then have "length data < m" using False c(2) by (metis le_neq_implies_less not_less)
    then show ?thesis using f InsertPartOf_ok [OF assms, of True data m rs1] assms by fastforce
  qed
  then obtain n data' rs' where "(if c then CopyPartOf data data True rs1 else InsertPartOf data data True m rs1) = Inr (n, data', rs')"
    "data' \<noteq> []" "length data' \<le> max m (length data)" by blast
  then show ?thesis
    using False assms c(1) lf_mut_ok_done [of data' m data h] by (simp add: CopyPart_def)
qed

end
