(* ===== verification/LibFuzzer_Parts_Props.thy ===== *)
theory LibFuzzer_Parts_Props
  imports LibFuzzer_Mutation_Props
begin

text \<open>
  Properties of the mutators that combine inputs: what a crossover is made of, the dictionary, masks, numbers in texts.
\<close>

section \<open>Crossover\<close>

lemma take_chunk_result:
  assumes "take_chunk m xs out rs = (xs', out', rs')" and "length out \<le> m"
  shows "\<exists>a. xs' = drop a xs \<and> out' = out @ take a xs \<and> a \<le> length xs \<and> length out + a \<le> m \<and> (xs \<noteq> [] \<and> length out \<noteq> m \<longrightarrow> 0 < a)"
proof (cases "xs \<noteq> [] \<and> length out \<noteq> m")
  case True
  obtain r rs1 where r: "random_value (min (m - length out) (length xs)) rs = (r, rs1)" "r < min (m - length out) (length xs)"
    using True assms(2) by (metis diff_is_0_eq le_antisym length_greater_0_conv min_less_iff_conj not_gr_zero random_valueE)
  then show ?thesis
    using assms True by (intro exI [of _ "r + 1"]) (auto simp: take_chunk_def Let_def)
next
  case False
  then show ?thesis using assms by (intro exI [of _ 0]) (auto simp: take_chunk_def)
qed

lemma shuffles_prepend: "z \<in> shuffles xs ys \<Longrightarrow> ws @ z \<in> shuffles (ws @ xs) ys"
  by (induction ws) (simp_all add: Cons_in_shuffles_leftI)

lemma shuffles_prepend_both:
  assumes "w \<in> shuffles (take a (drop a0 xs)) (take b (drop b0 ys))"
  shows "take a0 xs @ take b0 ys @ w \<in> shuffles (take (a0 + a) xs) (take (b0 + b) ys)"
proof -
  have "w \<in> shuffles (take b (drop b0 ys)) (take a (drop a0 xs))" using assms shuffles_commutes by metis
  from shuffles_prepend [OF this, of "take b0 ys"]
  have "take b0 ys @ w \<in> shuffles (take a (drop a0 xs)) (take (b0 + b) ys)"
    using shuffles_commutes by (metis take_add)
  from shuffles_prepend [OF this, of "take a0 xs"] show ?thesis by (simp add: take_add)
qed

lemma crossover_loop_result:
  "length out \<le> m \<Longrightarrow> \<exists>a b w rs'. crossover_loop m xs ys out rs = (out @ w, rs') \<and> w \<in> shuffles (take a xs) (take b ys) \<and>
    length (out @ w) = min m (length out + length xs + length ys)"
proof (induction m xs ys out rs rule: crossover_loop.induct)
  case (1 m xs ys out rs)
  show ?case
  proof (cases "(xs \<noteq> [] \<or> ys \<noteq> []) \<and> length out \<noteq> m")
    case False
    then have "crossover_loop m xs ys out rs = (out @ [], rs)" by (subst crossover_loop.simps) auto
    moreover have "[] \<in> shuffles (take 0 xs) (take 0 ys)" by simp
    moreover have "length (out @ []) = min m (length out + length xs + length ys)"
      using False "1.prems" by auto
    ultimately show ?thesis by blast
  next
    case True
    obtain xs' out1 rs1 where c1: "take_chunk m xs out rs = (xs', out1, rs1)" by (cases "take_chunk m xs out rs")
    obtain ys' out2 rs2 where c2: "take_chunk m ys out1 rs1 = (ys', out2, rs2)" by (cases "take_chunk m ys out1 rs1")
    obtain a0 where a0: "xs' = drop a0 xs" "out1 = out @ take a0 xs" "a0 \<le> length xs" "length out + a0 \<le> m"
      using take_chunk_result [OF c1 "1.prems"] by blast
    then have l1: "length out1 \<le> m" by simp
    obtain b0 where b0: "ys' = drop b0 ys" "out2 = out1 @ take b0 ys" "b0 \<le> length ys" "length out1 + b0 \<le> m"
      using take_chunk_result [OF c2 l1] by blast
    have l2: "length out2 \<le> m" using b0 by simp
    obtain a b w rs' where w: "crossover_loop m xs' ys' out2 rs2 = (out2 @ w, rs')" "w \<in> shuffles (take a xs') (take b ys')"
      "length (out2 @ w) = min m (length out2 + length xs' + length ys')"
      using "1.IH" [OF True refl c1 [symmetric] refl refl c2 [symmetric] refl l2] by blast
    have "crossover_loop m xs ys out rs = (out @ (take a0 xs @ take b0 ys @ w), rs')"
      using True c1 c2 w(1) a0(2) b0(2) by (subst crossover_loop.simps) (simp add: Let_def)
    moreover have "take a0 xs @ take b0 ys @ w \<in> shuffles (take (a0 + a) xs) (take (b0 + b) ys)"
      using w(2) unfolding a0(1) b0(1) by (rule shuffles_prepend_both)
    moreover have "length (out @ (take a0 xs @ take b0 ys @ w)) = min m (length out + length xs + length ys)"
      using w(3) a0 b0 by simp
    ultimately show ?thesis by blast
  qed
qed

text \<open>
  C26. The chunks of a crossover: the result is an interleaving of a prefix of the first and a prefix of the second input, is
  not empty and not longer than permitted, and uses both inputs up unless it has reached its length.
\<close>

theorem Crossover_chunks_interleave:
  assumes "r1 \<noteq> [] \<or> r2 \<noteq> []" and "0 < max_size"
  shows "\<exists>n out a b m rs'. Crossover_chunks r1 r2 max_size rs = Inr (n, out, rs') \<and> n = length out \<and> out \<noteq> [] \<and> out \<in> shuffles (take a r1) (take b r2) \<and>
    0 < m \<and> m \<le> max_size \<and> n = min m (length r1 + length r2)"
proof -
  obtain r rs1 where r: "random_value max_size rs = (r, rs1)" "r < max_size"
    using assms(2) by (metis random_valueE)
  obtain a b w rs' where w: "crossover_loop (r + 1) r1 r2 [] rs1 = ([] @ w, rs')" "w \<in> shuffles (take a r1) (take b r2)"
    "length ([] @ w) = min (r + 1) (length [] + length r1 + length r2)"
    using crossover_loop_result [of "[]" "r + 1" r1 r2 rs1] by auto
  have "0 < length r1 + length r2" using assms(1) by auto
  then have "0 < length w" using w(3) by simp
  then have "w \<noteq> []" by simp
  then show ?thesis
    using assms(1) r w by (intro exI [of _ "length w"] exI [of _ w] exI [of _ a] exI [of _ b] exI [of _ "r + 1"] exI [of _ rs'])
      (auto simp: Crossover_chunks_def Let_def)
qed

theorem Crossover_chunks_interleave_witness:
  "\<exists>n out rs'. Crossover_chunks [1, 2, 3] [4, 5] 4 [3, 1, 0, 0, 0] = Inr (n, out, rs') \<and> out \<noteq> []"
  using Crossover_chunks_interleave [of "[1, 2, 3]" "[4, 5]" 4 "[3, 1, 0, 0, 0]"] by auto

lemma Crossover_ok:
  assumes "data \<noteq> []"
  shows "lf_mut_ok data m h (Crossover data m h other rs)"
proof (cases "m < length data \<or> other = []")
  case True
  then show ?thesis using lf_mut_ok_none [OF assms] by (auto simp: Crossover_def)
next
  case False
  then have m: "length data \<le> m" "0 < m" "other \<noteq> []" using assms by (auto intro: less_le_trans [of 0 "length data"])
  obtain k rs1 where k: "random_value 3 rs = (k, rs1)" "k < 3" by (rule random_valueE [of 3 rs]) simp
  have copy: "\<exists>data' rs'. CopyPartOf other data False rs2 = Inr (length data, data', rs') \<and> length data' = length data" for rs2
    using CopyPartOf_ok [OF assms m(3), of False rs2] by fastforce
  have insert: "\<exists>n data' rs'. InsertPartOf other data False m rs1 = Inr (n, data', rs') \<and> n = length data' \<and> 0 < n \<and> n \<le> m" if "length data < m"
    using InsertPartOf_ok [OF m(3), of False data m rs1] that by fastforce
  have "\<exists>n data' rs'. (if k = 0 then Crossover_chunks data other m rs1
      else if k = 1 then bindR (InsertPartOf other data False m rs1) (\<lambda>(n, data, rs). if n = 0 then CopyPartOf other data False rs else Inr (n, data, rs))
      else if k = 2 then CopyPartOf other data False rs1 else Inl AssertFail) = Inr (n, data', rs') \<and> 0 < n \<and> n \<le> m \<and> n = length data'"
  proof -
    consider "k = 0" | "k = 1" "length data < m" | "k = 1" "length data = m" | "k = 2" using k(2) m(1) by linarith
    then show ?thesis
    proof cases
      case 1
      obtain r rs2 where r: "random_value m rs1 = (r, rs2)" "r < m" using m(2) by (metis random_valueE)
      obtain a b w rs' where "crossover_loop (r + 1) data other [] rs2 = ([] @ w, rs')" "length ([] @ w) = min (r + 1) (length [] + length data + length other)"
        using crossover_loop_result [of "[]" "r + 1" data other rs2] by auto
      then show ?thesis using 1 r assms by (auto simp: Crossover_chunks_def Let_def)
    next
      case 2
      then show ?thesis using insert by auto
    next
      case 3
      then show ?thesis using copy [of rs1] m by (auto simp: InsertPartOf_def)
    next
      case 4
      then show ?thesis using copy [of rs1] m assms by auto
    qed
  qed
  then obtain n data' rs' where r: "(if k = 0 then Crossover_chunks data other m rs1
      else if k = 1 then bindR (InsertPartOf other data False m rs1) (\<lambda>(n, data, rs). if n = 0 then CopyPartOf other data False rs else Inr (n, data, rs))
      else if k = 2 then CopyPartOf other data False rs1 else Inl AssertFail) = Inr (n, data', rs')" "0 < n" "n \<le> m" "n = length data'"
    by blast
  have "Crossover data m h other rs = done_mut ''CrossOver'' h data' rs'"
    using False assms k(1) r unfolding Crossover_def Let_def by (simp only: prod.case) simp
  then show ?thesis using lf_mut_ok_done [of data' m data h] r by auto
qed

section \<open>Dictionaries\<close>

lemma ApplyDictionaryEntry_ok:
  assumes "data \<noteq> []"
  shows "\<exists>n data' rs'. ApplyDictionaryEntry data e m rs = Inr (n, data', rs') \<and> data' \<noteq> [] \<and> length data' \<le> max m (length data) \<and>
    (n = 0 \<longrightarrow> data' = data) \<and> (n \<noteq> 0 \<longrightarrow> n = length data')"
proof -
  let ?hinted = "case position_hint e of None \<Rightarrow> False | Some h \<Rightarrow> h + length (word e) < length data"
  obtain u rs1 where u: "(if ?hinted then random_bool rs else Inr (False, rs)) = Inr (u, rs1)" "u \<Longrightarrow> ?hinted"
    using random_bool_ok [of rs] by (cases ?hinted) auto
  obtain c rs2 where c: "random_bool rs1 = Inr (c, rs2)" using random_bool_ok by blast
  have hint: "the (position_hint e) + length (word e) < length data" if u using u(2) [OF that] by (cases "position_hint e") auto
  have start: "ApplyDictionaryEntry data e m rs = (if c then
        if m < length data + length (word e) then Inr (0, data, rs2)
        else let (index, rs) = (if u then (the (position_hint e), rs2) else random_value (length data + 1) rs2) in
          bindR (vec_insert data index (word e)) (\<lambda>data. Inr (length data, data, rs))
      else
        if length data < length (word e) then Inr (0, data, rs2)
        else let (index, rs) = (if u then (the (position_hint e), rs2) else random_value (length data + 1 - length (word e)) rs2) in
          bindR (vec_write data index (word e)) (\<lambda>data. Inr (length data, data, rs)))"
    unfolding ApplyDictionaryEntry_def Let_def u(1) bindR_Inr prod.case c ..
  obtain i rs3 where i: "(if u then (the (position_hint e), rs2) else random_value (length data + 1) rs2) = (i, rs3)" "i \<le> length data"
    using hint random_valueE [of "length data + 1" rs2] by (cases u) (fastforce, metis Suc_eq_plus1 less_Suc_eq_le zero_less_Suc)
  obtain j rs4 where j: "(if u then (the (position_hint e), rs2) else random_value (length data + 1 - length (word e)) rs2) = (j, rs4)"
    "length (word e) \<le> length data \<Longrightarrow> j + length (word e) \<le> length data"
  proof (cases u)
    case True
    then show ?thesis using that hint by simp
  next
    case False
    then show ?thesis
      using that random_valueE [of "length data + 1 - length (word e)" rs2] by (smt (verit) Nat.le_diff_conv2 add.commute diff_Suc_1 less_Suc_eq_le less_diff_conv plus_1_eq_Suc zero_less_diff)
  qed
  show ?thesis
  proof (cases c)
    case True
    then show ?thesis using start i assms by (auto simp: vec_ok)
  next
    case False
    then show ?thesis using start j assms by (auto simp: vec_ok)
  qed
qed

lemma Dictionary_ok:
  assumes "data \<noteq> []"
  shows "\<exists>n data' dict' chosen' rs'. Dictionary ptr dict chosen data m h rs = Inr (n, data', h @ [''Dict''], dict', chosen', rs') \<and> data' \<noteq> [] \<and>
    length data' \<le> max m (length data) \<and> (n = 0 \<longrightarrow> data' = data \<and> dict' = dict \<and> chosen' = chosen) \<and> (n \<noteq> 0 \<longrightarrow> n = length data') \<and>
    map word dict' = map word dict \<and> set chosen' \<subseteq> set chosen \<union> ptr ` {..<length dict}"
proof (cases "m < length data \<or> dict = []")
  case True
  then show ?thesis using assms by (auto simp: Dictionary_def AddWordFromDictionary_def)
next
  case False
  obtain k rs1 where k: "random_value (length dict) rs = (k, rs1)" "k < length dict"
    using False by (metis length_greater_0_conv random_valueE)
  obtain n data' rs' where a: "ApplyDictionaryEntry data (dict ! k) m rs1 = Inr (n, data', rs')" "data' \<noteq> []" "length data' \<le> max m (length data)"
    "n = 0 \<longrightarrow> data' = data" "n \<noteq> 0 \<longrightarrow> n = length data'"
    using ApplyDictionaryEntry_ok [OF assms, of "dict ! k" m rs1] by blast
  let ?e = "(dict ! k)\<lparr>use_count := use_count (dict ! k) + 1\<rparr>"
  have "map word (dict[k := ?e]) = map word dict"
    by (simp add: map_update) (metis k(2) list_update_id map_update)
  then show ?thesis
    using False k a by (auto simp: Dictionary_def AddWordFromDictionary_def Let_def)
qed

section \<open>Masks\<close>

lemma Mask_simps [simp]:
  "Mask data [] = []" "Mask [] ms = []" "Mask (d # ds) (m # ms) = (if m \<noteq> 0 then d # Mask ds ms else Mask ds ms)"
  by (simp_all add: Mask_def)

lemma unmask_mask: "length ms \<le> length data \<Longrightarrow> unmask_loop (Mask data ms) ms data = data"
proof (induction ms arbitrary: data)
  case (Cons m ms)
  obtain d ds where d: "data = d # ds" using Cons.prems by (cases data) auto
  then have IH: "unmask_loop (Mask ds ms) ms ds = ds" using Cons by simp
  then show ?case by (cases "Mask ds ms") (auto simp: d)
qed simp

lemma mask_unmask:
  assumes "length ms \<le> length data" and "length src = length (Mask data ms)"
  shows "Mask (unmask_loop src ms data) ms = src \<and> length (unmask_loop src ms data) = length data \<and>
    (\<forall>i < length data. length ms \<le> i \<or> ms ! i = 0 \<longrightarrow> unmask_loop src ms data ! i = data ! i)"
  using assms
proof (induction ms arbitrary: src data)
  case (Cons m ms)
  obtain d ds where d: "data = d # ds" using Cons.prems by (cases data) auto
  show ?case
  proof (cases "m = 0")
    case True
    have IH: "Mask (unmask_loop src ms ds) ms = src \<and> length (unmask_loop src ms ds) = length ds \<and>
      (\<forall>i < length ds. length ms \<le> i \<or> ms ! i = 0 \<longrightarrow> unmask_loop src ms ds ! i = ds ! i)"
      by (rule Cons.IH) (use Cons.prems True d in simp_all)
    have "unmask_loop src (m # ms) data = d # unmask_loop src ms ds"
      using True d by (cases src) simp_all
    then show ?thesis using IH True d by (auto simp: nth_Cons split: nat.splits)
  next
    case False
    then obtain s src' where s: "src = s # src'" "length src' = length (Mask ds ms)"
      using Cons.prems(2) d by (cases src) auto
    have IH: "Mask (unmask_loop src' ms ds) ms = src' \<and> length (unmask_loop src' ms ds) = length ds \<and>
      (\<forall>i < length ds. length ms \<le> i \<or> ms ! i = 0 \<longrightarrow> unmask_loop src' ms ds ! i = ds ! i)"
      by (rule Cons.IH) (use Cons.prems d s in simp_all)
    then show ?thesis using False d s by (auto simp: nth_Cons split: nat.splits)
  qed
qed (cases src, simp_all)

text \<open>
  C28. Mutating under a mask: putting the masked bytes back unchanged gives the input back, and putting back other bytes of
  the same number changes exactly the masked positions: a second masking reads these bytes, every other byte and the length
  are as before.
\<close>

theorem Mask_Unmask_roundtrip:
  assumes "length ms \<le> length data" and "length src = length (Mask data ms)"
  shows "Unmask (Mask data ms) ms data = Inr data \<and>
    (\<exists>data'. Unmask src ms data = Inr data' \<and> Mask data' ms = src \<and> length data' = length data \<and>
       (\<forall>i < length data. length ms \<le> i \<or> ms ! i = 0 \<longrightarrow> data' ! i = data ! i))"
  using unmask_mask [OF assms(1)] mask_unmask [OF assms] assms by (simp add: Unmask_def)

theorem Mask_Unmask_roundtrip_witness:
  "\<exists>data'. Unmask [8, 9] [1, 0, 1] [1, 2, 3, 4] = Inr data' \<and> Mask data' [1, 0, 1] = [8, 9] \<and> data' ! 1 = 2 \<and> data' ! 3 = 4"
proof -
  have "length [1, 0, 1 :: u8] \<le> length [1, 2, 3, 4 :: u8]" "length [8, 9 :: u8] = length (Mask [1, 2, 3, 4] [1, 0, 1])" by simp_all
  from Mask_Unmask_roundtrip [OF this] obtain data' where d: "Unmask [8, 9] [1, 0, 1] [1, 2, 3, 4] = Inr data'" "Mask data' [1, 0, 1] = [8, 9]"
    "\<forall>i < length [1, 2, 3, 4 :: u8]. length [1, 0, 1 :: u8] \<le> i \<or> [1, 0, 1 :: u8] ! i = 0 \<longrightarrow> data' ! i = [1, 2, 3, 4] ! i" by blast
  have "data' ! 1 = 2" "data' ! 3 = 4" using d(3) [rule_format, of 1] d(3) [rule_format, of 3] by simp_all
  then show ?thesis using d(1,2) by blast
qed

section \<open>Numbers in texts\<close>

text \<open>The number that a sequence of digits denotes.\<close>

definition dec_value :: "u8 list \<Rightarrow> nat" where
  "dec_value ds = foldl (\<lambda>v d. 10 * v + (unat d - 48)) 0 ds"

lemma dec_value_snoc: "dec_value (ds @ [d]) = 10 * dec_value ds + (unat d - 48)"
  by (simp add: dec_value_def)

lemma dec_value_digits: "dec_value (ascii_digits n v) = v mod 10 ^ n"
proof (induction n arbitrary: v)
  case (Suc n)
  have "unat (of_nat (v mod 10) + 48 :: u8) = v mod 10 + 48"
    using mod_less_divisor [of 10 v] by (simp add: unat_word_ariths unat_of_nat)
  then have "dec_value (ascii_digits (Suc n) v) = 10 * (v div 10 mod 10 ^ n) + v mod 10"
    using Suc by (simp add: dec_value_snoc)
  then show ?case by (simp add: mod_mult2_eq)
qed (simp add: dec_value_def)

lemma fold_u64m: "fold (\<lambda>d v. u64m (v * 10 + (unat (d :: u8) - 48))) ds v mod 2 ^ 64 = foldl (\<lambda>v d. 10 * v + (unat d - 48)) v ds mod 2 ^ 64"
proof (induction ds arbitrary: v)
  case (Cons d ds)
  have "foldl (\<lambda>v d. 10 * v + (unat (d :: u8) - 48)) v ds mod 2 ^ 64 = foldl (\<lambda>v d. 10 * v + (unat d - 48)) w ds mod 2 ^ 64"
    if "v mod 2 ^ 64 = w mod 2 ^ 64" for v w :: nat
    using that
  proof (induction ds arbitrary: v w)
    case (Cons d ds)
    have "(10 * v + (unat d - 48)) mod 2 ^ 64 = (10 * w + (unat d - 48)) mod 2 ^ 64"
      using Cons.prems by (intro mod_add_cong mod_mult_cong refl)
    from Cons.IH [OF this] show ?case by (simp only: foldl_Cons)
  qed simp
  moreover have "u64m (v * 10 + (unat d - 48)) mod 2 ^ 64 = (10 * v + (unat d - 48)) mod 2 ^ 64"
    by (simp add: u64m_def mult.commute)
  ultimately have "foldl (\<lambda>v d. 10 * v + (unat (d :: u8) - 48)) (u64m (v * 10 + (unat d - 48))) ds mod 2 ^ 64 =
      foldl (\<lambda>v d. 10 * v + (unat d - 48)) (10 * v + (unat d - 48)) ds mod 2 ^ 64"
    by blast
  then show ?case using Cons.IH [of "u64m (v * 10 + (unat d - 48))"] by simp
qed simp

lemma fold_u64m_less: "v < 2 ^ 64 \<Longrightarrow> fold (\<lambda>d v. u64m (v * 10 + (unat (d :: u8) - 48))) ds v < 2 ^ 64"
  by (induction ds arbitrary: v) (simp_all add: u64m_def)

lemma ascii_value_dec:
  assumes "ds \<noteq> []"
  shows "ascii_value ds = dec_value ds mod 2 ^ 64"
proof -
  obtain d ds' where d: "ds = d # ds'" using assms by (cases ds) auto
  have "unat d - 48 < 2 ^ 64" using u8_less [of d] by simp
  from fold_u64m_less [OF this, of ds'] fold_u64m [of ds' "unat d - 48"] show ?thesis
    by (simp add: d ascii_value_def dec_value_def)
qed

lemma ascii_change_cases:
  assumes "ascii_change x rs = Inr (v, rs')"
  shows "v = (x + 1) mod 2 ^ 64 \<or> v = (x + 2 ^ 64 - 1) mod 2 ^ 64 \<or> v = x div 2 \<or> v = 2 * x mod 2 ^ 64 \<or> v < x * x mod 2 ^ 64 \<or> v = 0"
proof -
  obtain k rs1 where k: "random_value 5 rs = (k, rs1)" "k < 5" by (rule random_valueE [of 5 rs]) simp
  obtain q rs2 where q: "random_value (u64m (x * x)) rs1 = (q, rs2)" "0 < u64m (x * x) \<Longrightarrow> q < u64m (x * x)" "u64m (x * x) = 0 \<Longrightarrow> q = 0"
    using random_valueE [of "u64m (x * x)" rs1] by metis
  have "q < x * x mod 2 ^ 64 \<or> q = 0"
    by (cases "u64m (x * x) = 0") (use q(2,3) in \<open>simp_all add: u64m_def\<close>)
  then show ?thesis
    using assms k q(1) by (auto simp: ascii_change_def Let_def u64m_def mult.commute split: if_splits)
qed



end
