(* ===== verification/LibFuzzer_Loop_Props.thy ===== *)
theory LibFuzzer_Loop_Props
  imports LibFuzzer_Loop LibFuzzer_Owners LibFuzzer_Parts_Props
begin

text \<open>
  The flow of libFuzzer is safe: no assertion fails and nothing is accessed outside a container, in the default mode without
  entropic schedule, as long as some entry of the corpus has a feature. The contract of a node of the flow is a locale.
\<close>

section \<open>Nodes\<close>

locale lf_node =
  fixes f :: "('f, 'w) node" and inv :: "('f, 'w) Variables \<Rightarrow> bool"
  assumes f_ok: "inv v \<Longrightarrow> \<exists>v'. f v = Inr v' \<and> inv v'"
begin

lemma repeat_ok: "inv v \<Longrightarrow> \<exists>v'. repeat_until_mutated f expected n v = Inr v' \<and> inv v'"
proof (induction n arbitrary: v)
  case (Suc n)
  obtain v1 where v1: "f v = Inr v1" "inv v1" using f_ok [OF Suc.prems] by blast
  then show ?case using Suc.IH [OF v1(2)] by auto
qed simp

lemma RepeatUntilMutated_ok: "inv v \<Longrightarrow> \<exists>v'. RepeatUntilMutated f expected n v = Inr v' \<and> inv v'"
  unfolding RepeatUntilMutated_def by (rule repeat_ok)

end

text \<open>A node that is repeated until it has added something to the corpus: only then may it leave its invariant.\<close>

locale lf_retry =
  fixes f :: "('f, 'w) node" and inv :: "('f, 'w) Variables \<Rightarrow> bool" and post :: "('f, 'w) Variables \<Rightarrow> bool"
  assumes f_ok: "inv v \<Longrightarrow> \<exists>v'. f v = Inr v' \<and> post v' \<and> (\<not> added_to_corpus (exec_result v') \<longrightarrow> inv v')"
    and inv_post: "inv v \<Longrightarrow> post v"
begin

lemma RepeatUntilNewCoverage_ok: "inv v \<Longrightarrow> \<exists>v'. RepeatUntilNewCoverage f n v = Inr v' \<and> post v'"
proof (induction n arbitrary: v)
  case 0
  then show ?case using inv_post by simp
next
  case (Suc n)
  obtain v1 where v1: "f v = Inr v1" "post v1" "\<not> added_to_corpus (exec_result v1) \<longrightarrow> inv v1" using f_ok [OF Suc.prems] by blast
  then show ?case using Suc.IH [of v1] by auto
qed

end

section \<open>Mutation\<close>

text \<open>The dictionaries: every persistent word is one of the loaded words, none of which is empty.\<close>

definition lf_dict_ok :: "('f, 'w) Variables \<Rightarrow> bool" where
  "lf_dict_ok v \<longleftrightarrow> length (manual_dictionary v) \<le> dictionary_capacity \<and> (\<forall>e \<in> set (manual_dictionary v). word e \<noteq> []) \<and>
     distinct (map word (persistent_auto_dict v)) \<and> word ` set (persistent_auto_dict v) \<subseteq> word ` set (manual_dictionary v)"

definition refs_ok :: "('f, 'w) Variables \<Rightarrow> bool" where
  "refs_ok v \<longleftrightarrow> set (dict_history v) \<subseteq> ManualEntry ` {..<length (manual_dictionary v)} \<union> PersistentEntry ` {..<length (persistent_auto_dict v)}"

text \<open>What a mutation leaves alone.\<close>

definition same_run :: "('f, 'w) Variables \<Rightarrow> ('f, 'w) Variables \<Rightarrow> bool" where
  "same_run v0 v \<longleftrightarrow> lf_state v = lf_state v0 \<and> lf_corpus v = lf_corpus v0 \<and> exec_result v = exec_result v0 \<and> max_input_size v = max_input_size v0 \<and>
     run_count v = run_count v0 \<and> last_corpus_update_run v = last_corpus_update_run v0 \<and> solutions v = solutions v0 \<and> target v = target v0"

definition mut_inv :: "('f, 'w) Platform \<Rightarrow> ('f, 'w) Variables \<Rightarrow> ('f, 'w) Variables \<Rightarrow> bool" where
  "mut_inv P v0 v \<longleftrightarrow> shuffle_ok (shuf P) \<and> lf_input v \<noteq> [] \<and> length (lf_input v) < 2 ^ 32 \<and> max_input_size v < 2 ^ 32 \<and> lf_dict_ok v \<and> refs_ok v \<and> same_run v0 v"

lemma mutator_node_ok:
  assumes "mut_inv P v0 v" and "\<And>m h rs. lf_mut_ok (lf_input v) m h (mut (lf_input v) m h rs)"
  shows "\<exists>v'. mutator_node mut v = Inr v' \<and> mut_inv P v0 v'"
proof -
  obtain n data h rs where run: "mut (lf_input v) (max_input_size v) (mutation_history v) (lf_rng v) = Inr (n, data, h, rs)"
    and data: "data \<noteq> []" "length data \<le> max (max_input_size v) (length (lf_input v))"
    using assms(2) [of "max_input_size v" "mutation_history v" "lf_rng v"] unfolding lf_mut_ok_def by blast
  have "length data < 2 ^ 32" using data(2) assms(1) unfolding mut_inv_def max_def by (auto split: if_splits intro: le_less_trans)
  then show ?thesis
    using assms(1) run data(1) by (simp add: mutator_node_def mut_inv_def lf_dict_ok_def refs_ok_def same_run_def)
qed

lemma static_dict_node_ok:
  assumes "mut_inv P v0 v"
  shows "\<exists>v'. static_dict_node v = Inr v' \<and> mut_inv P v0 v'"
proof -
  have ne: "lf_input v \<noteq> []" using assms by (simp add: mut_inv_def)
  obtain n data dict chosen rs where run: "Dictionary ManualEntry (manual_dictionary v) (dict_history v) (lf_input v) (max_input_size v) (mutation_history v) (lf_rng v) =
      Inr (n, data, mutation_history v @ [''Dict''], dict, chosen, rs)"
    and data: "data \<noteq> []" "length data \<le> max (max_input_size v) (length (lf_input v))"
    and words: "map word dict = map word (manual_dictionary v)" and refs: "set chosen \<subseteq> set (dict_history v) \<union> ManualEntry ` {..<length (manual_dictionary v)}"
    using Dictionary_ok [OF ne, of ManualEntry "manual_dictionary v" "dict_history v" "max_input_size v" "mutation_history v" "lf_rng v"] by (elim exE conjE) (rule that)
  have len: "length data < 2 ^ 32" using data(2) assms unfolding mut_inv_def max_def by (auto split: if_splits intro: le_less_trans)
  have d: "length dict = length (manual_dictionary v)" "word ` set dict = word ` set (manual_dictionary v)"
    using map_eq_imp_length_eq [OF words] arg_cong [OF words, of set] by simp_all
  have "[] \<notin> word ` set (manual_dictionary v)" using assms unfolding mut_inv_def lf_dict_ok_def by auto
  then have "[] \<notin> word ` set dict" by (simp only: d(2) not_False_eq_True)
  then have "\<forall>e \<in> set dict. word e \<noteq> []" by force
  then show ?thesis
    using assms run data(1) len d refs by (auto simp: static_dict_node_def mut_inv_def lf_dict_ok_def refs_ok_def same_run_def)
qed

lemma dynamic_dict_node_ok:
  assumes "mut_inv P v0 v"
  shows "\<exists>v'. dynamic_dict_node v = Inr v' \<and> mut_inv P v0 v'"
proof -
  have ne: "lf_input v \<noteq> []" using assms by (simp add: mut_inv_def)
  obtain n data dict chosen rs where run: "Dictionary PersistentEntry (persistent_auto_dict v) (dict_history v) (lf_input v) (max_input_size v) (mutation_history v) (lf_rng v) =
      Inr (n, data, mutation_history v @ [''Dict''], dict, chosen, rs)"
    and data: "data \<noteq> []" "length data \<le> max (max_input_size v) (length (lf_input v))"
    and words: "map word dict = map word (persistent_auto_dict v)" and refs: "set chosen \<subseteq> set (dict_history v) \<union> PersistentEntry ` {..<length (persistent_auto_dict v)}"
    using Dictionary_ok [OF ne, of PersistentEntry "persistent_auto_dict v" "dict_history v" "max_input_size v" "mutation_history v" "lf_rng v"] by (elim exE conjE) (rule that)
  have len: "length data < 2 ^ 32" using data(2) assms unfolding mut_inv_def max_def by (auto split: if_splits intro: le_less_trans)
  have d: "length dict = length (persistent_auto_dict v)" "word ` set dict = word ` set (persistent_auto_dict v)"
    using map_eq_imp_length_eq [OF words] arg_cong [OF words, of set] by simp_all
  show ?thesis
    using assms run data(1) len d refs words by (auto simp: dynamic_dict_node_def mut_inv_def lf_dict_ok_def refs_ok_def same_run_def)
qed

lemma mutators_ok:
  assumes "mut_inv P v0 v" and "m \<in> set (mutators P ci)"
  shows "\<exists>v'. m v = Inr v' \<and> mut_inv P v0 v'"
proof -
  have ne: "lf_input v \<noteq> []" and sh: "shuffle_ok (shuf P)" using assms(1) by (simp_all add: mut_inv_def)
  note node = mutator_node_ok [OF assms(1)]
  have crossover: "\<exists>v'. crossover_node v = Inr v' \<and> mut_inv P v0 v'"
    unfolding crossover_node_def by (rule node) (rule Crossover_ok [OF ne])
  consider "m = mutator_node EraseBytes" | "m = mutator_node InsertByte" | "m = mutator_node InsertRepeatedBytes" | "m = mutator_node ChangeByte"
    | "m = mutator_node ChangeBit" | "m = mutator_node (ShuffleBytes (shuf P))" | "m = mutator_node ChangeASCIIInteger"
    | "m = mutator_node ChangeBinaryInteger" | "m = mutator_node CopyPart" | "m = crossover_node" | "m = static_dict_node" | "m = dynamic_dict_node"
    using assms(2) unfolding mutators_def by (auto split: if_splits)
  then show ?thesis
  proof cases
    case 10
    then show ?thesis using crossover by simp
  next
    case 11
    then show ?thesis using static_dict_node_ok [OF assms(1)] by simp
  next
    case 12
    then show ?thesis using dynamic_dict_node_ok [OF assms(1)] by simp
  qed (simp_all add: node ne sh EraseBytes_ok InsertByte_ok InsertRepeatedBytes_ok ChangeByte_ok ChangeBit_ok ShuffleBytes_ok ChangeASCIIInteger_ok
      ChangeBinaryInteger_ok CopyPart_ok)
qed

lemma mut_inv_rng: "mut_inv P v0 (v\<lparr>lf_rng := rs\<rparr>) = mut_inv P v0 v"
  by (simp add: mut_inv_def lf_dict_ok_def refs_ok_def same_run_def)

lemma createMutator_ok:
  assumes "mut_inv P v0 v"
  shows "\<exists>v'. createMutator P ci v = Inr v' \<and> mut_inv P v0 v'"
proof -
  let ?ms = "mutators P ci"
  have ne: "?ms \<noteq> []" by (simp add: mutators_def)
  obtain k rs where k: "random_value (length ?ms) (lf_rng v) = (k, rs)" "k < length ?ms"
    using ne by (metis length_greater_0_conv random_valueE)
  obtain v1 where v1: "(?ms ! k) (v\<lparr>lf_rng := rs\<rparr>) = Inr v1" "mut_inv P v0 v1"
    using mutators_ok [of P v0 "v\<lparr>lf_rng := rs\<rparr>" "?ms ! k" ci] assms k(2) by (auto simp: mut_inv_rng)
  have "RandomCall ?ms v = Inr v1" using ne k(1) v1(1) by (simp add: RandomCall_def)
  moreover have "mut_inv P v0 (v1\<lparr>lf_input := snd (ToASCII (lf_input v1))\<rparr>)"
    using v1(2) by (simp add: mut_inv_def lf_dict_ok_def refs_ok_def same_run_def ToASCII_def)
  ultimately show ?thesis using v1(2) by (simp add: createMutator_def)
qed

interpretation mutation: lf_node "createMutator P ci" "mut_inv P v0" for P ci v0
  by unfold_locales (rule createMutator_ok)

section \<open>Dictionaries\<close>

lemma succeed_ok:
  assumes "k < length dict" and "word (dict ! k) \<noteq> []"
  shows "\<exists>e. succeed dict k = Inr (e, dict[k := e]) \<and> word e = word (dict ! k) \<and> map word (dict[k := e]) = map word dict"
  using assms by (intro exI [of _ "(dict ! k)\<lparr>success_count := success_count (dict ! k) + 1\<rparr>"]) (simp add: succeed_def Let_def map_update_same)

lemma count_success_ok:
  assumes "set ps \<subseteq> ManualEntry ` {..<length manual} \<union> PersistentEntry ` {..<length persistent}"
    and "[] \<notin> word ` set manual" and "[] \<notin> word ` set persistent"
  shows "\<exists>es manual' persistent'. count_success ps manual persistent = Inr (es, manual', persistent') \<and> map word manual' = map word manual \<and>
    map word persistent' = map word persistent \<and> word ` set es \<subseteq> word ` set manual \<union> word ` set persistent"
  using assms
proof (induction ps arbitrary: manual persistent)
  case (Cons r ps)
  show ?case
  proof (cases r)
    case (ManualEntry k)
    have "k < length manual" using Cons.prems(1) ManualEntry by auto
    moreover have "word (manual ! k) \<noteq> []" using calculation Cons.prems(2) by (metis imageI nth_mem)
    ultimately have k: "k < length manual" "word (manual ! k) \<noteq> []" by simp_all
    obtain e where e: "succeed manual k = Inr (e, manual[k := e])" "word e = word (manual ! k)" "map word (manual[k := e]) = map word manual"
      using succeed_ok [OF k] by blast
    have words: "word ` set (manual[k := e]) = word ` set manual" using arg_cong [OF e(3), of set] by simp
    have "\<exists>es manual' persistent'. count_success ps (manual[k := e]) persistent = Inr (es, manual', persistent') \<and> map word manual' = map word (manual[k := e]) \<and>
      map word persistent' = map word persistent \<and> word ` set es \<subseteq> word ` set (manual[k := e]) \<union> word ` set persistent"
      by (rule Cons.IH) (use Cons.prems words in simp_all)
    then show ?thesis using ManualEntry e words k(1) by auto
  next
    case (PersistentEntry k)
    have "k < length persistent" using Cons.prems(1) PersistentEntry by auto
    moreover have "word (persistent ! k) \<noteq> []" using calculation Cons.prems(3) by (metis imageI nth_mem)
    ultimately have k: "k < length persistent" "word (persistent ! k) \<noteq> []" by simp_all
    obtain e where e: "succeed persistent k = Inr (e, persistent[k := e])" "word e = word (persistent ! k)" "map word (persistent[k := e]) = map word persistent"
      using succeed_ok [OF k] by blast
    have words: "word ` set (persistent[k := e]) = word ` set persistent" using arg_cong [OF e(3), of set] by simp
    have "\<exists>es manual' persistent'. count_success ps manual (persistent[k := e]) = Inr (es, manual', persistent') \<and> map word manual' = map word manual \<and>
      map word persistent' = map word (persistent[k := e]) \<and> word ` set es \<subseteq> word ` set manual \<union> word ` set (persistent[k := e])"
      by (rule Cons.IH) (use Cons.prems words in simp_all)
    then show ?thesis using PersistentEntry e words k(1) by auto
  qed
qed simp

lemma add_words_ok:
  assumes "distinct (map word dict)" and "word ` set dict \<subseteq> W" and "word ` set es \<subseteq> W" and "finite W" and "card W \<le> dictionary_capacity"
  shows "\<exists>dict'. add_words es dict = Inr dict' \<and> distinct (map word dict') \<and> word ` set dict' \<subseteq> W"
  using assms(1-3)
proof (induction es arbitrary: dict)
  case (Cons e es)
  show ?case
  proof (cases "\<exists>v \<in> set dict. word v = word e")
    case True
    then show ?thesis using Cons by (simp add: add_word_def)
  next
    case False
    then have new: "word e \<notin> word ` set dict" by auto
    have len: "length dict = card (word ` set dict)" using distinct_card [OF Cons.prems(1)] by simp
    have "word ` set dict \<subset> W" using new Cons.prems(2,3) by auto
    then have "card (word ` set dict) < card W" by (rule psubset_card_mono [OF assms(4)])
    then have "length dict < dictionary_capacity" using len assms(5) by linarith
    then have "add_word e dict = Inr (dict @ [e\<lparr>use_count := 0, success_count := 0\<rparr>])" using False by (simp add: add_word_def)
    moreover have "\<exists>dict'. add_words es (dict @ [e\<lparr>use_count := 0, success_count := 0\<rparr>]) = Inr dict' \<and> distinct (map word dict') \<and> word ` set dict' \<subseteq> W"
      by (rule Cons.IH) (use Cons.prems new in simp_all)
    ultimately show ?thesis by simp
  qed
qed simp

lemma UpdateDictionary_ok:
  assumes "lf_dict_ok v" and "refs_ok v"
  shows "\<exists>manual persistent. UpdateDictionary (dict_history v) (manual_dictionary v) (persistent_auto_dict v) = Inr (manual, persistent) \<and>
    lf_dict_ok (v\<lparr>manual_dictionary := manual, persistent_auto_dict := persistent\<rparr>)"
proof -
  define W where "W = word ` set (manual_dictionary v)"
  have d: "length (manual_dictionary v) \<le> dictionary_capacity" "[] \<notin> W" "distinct (map word (persistent_auto_dict v))" "word ` set (persistent_auto_dict v) \<subseteq> W"
    using assms(1) unfolding lf_dict_ok_def W_def by auto
  have ne: "[] \<notin> word ` set (persistent_auto_dict v)" using d(2,4) by blast
  obtain es manual persistent where c: "count_success (dict_history v) (manual_dictionary v) (persistent_auto_dict v) = Inr (es, manual, persistent)"
    "map word manual = map word (manual_dictionary v)" "map word persistent = map word (persistent_auto_dict v)" "word ` set es \<subseteq> W \<union> word ` set (persistent_auto_dict v)"
    using count_success_ok [OF assms(2) [unfolded refs_ok_def] d(2) [unfolded W_def] ne] unfolding W_def [symmetric] by (elim exE conjE) (rule that)
  have words: "length manual = length (manual_dictionary v)" "word ` set manual = W" "word ` set persistent = word ` set (persistent_auto_dict v)"
    using map_eq_imp_length_eq [OF c(2)] arg_cong [OF c(2), of set] arg_cong [OF c(3), of set] by (simp_all add: W_def)
  have "card W \<le> dictionary_capacity" using d(1) card_image_le [of "set (manual_dictionary v)" word] card_length [of "manual_dictionary v"] by (simp add: W_def)
  then have "\<exists>dict'. add_words es persistent = Inr dict' \<and> distinct (map word dict') \<and> word ` set dict' \<subseteq> W"
    by (intro add_words_ok) (use c(3,4) d(3,4) words W_def in auto)
  then obtain dict' where a: "add_words es persistent = Inr dict'" "distinct (map word dict')" "word ` set dict' \<subseteq> W" by blast
  have "\<forall>e \<in> set manual. word e \<noteq> []" using words(2) d(2) by force
  then show ?thesis using c(1) a words d(1) by (intro exI [of _ manual] exI [of _ dict']) (simp add: UpdateDictionary_def lf_dict_ok_def)
qed

section \<open>Execution and feedback\<close>

text \<open>
  What is assumed of the platform: hashes are not empty, \<open>std::shuffle\<close> permutes, the conversion of a number to floating point is
  positive exactly if the number is, and a draw with non-negative weights, not all zero, gives a place with a positive weight.
\<close>

definition floats_ok :: "'f floats \<Rightarrow> bool" where
  "floats_ok F \<longleftrightarrow> (\<forall>n. (f_nonzero F (f_of_nat F n) \<longleftrightarrow> n \<noteq> 0) \<and> (f_pos F (f_of_nat F n) \<longleftrightarrow> n \<noteq> 0))"

definition draw_ok :: "('f, 'w) Platform \<Rightarrow> bool" where
  "draw_ok P \<longleftrightarrow> (\<forall>ws rs. (\<exists>w \<in> set ws. f_nonzero (floats P) w) \<and> (\<forall>w \<in> set ws. f_nonzero (floats P) w \<longrightarrow> f_pos (floats P) w) \<longrightarrow>
     fst (draw P ws rs) < length ws \<and> f_nonzero (floats P) (ws ! fst (draw P ws rs)))"

definition platform_ok :: "('f, 'w) Platform \<Rightarrow> bool" where
  "platform_ok P \<longleftrightarrow> (\<forall>data. hash P data \<noteq> []) \<and> shuffle_ok (shuf P) \<and> floats_ok (floats P) \<and> draw_ok P"

definition lf_base :: "('f, 'w) Platform \<Rightarrow> FuzzerCreateInfo \<Rightarrow> ('f, 'w) Variables \<Rightarrow> bool" where
  "lf_base P ci v \<longleftrightarrow> platform_ok P \<and> \<not> entropic_enabled (config (lf_state v)) \<and> feat_inv (lf_state v) (corpus (lf_corpus v)) 0 0 \<and>
     store_inv (lf_corpus v) \<and> lf_dict_ok v \<and> max_input_size v < 2 ^ 32 \<and> max_input_length ci < 2 ^ 32 \<and> (len_control ci \<noteq> 0 \<longrightarrow> 0 < max_input_size v)"

definition input_ok :: "u8 list \<Rightarrow> bool" where
  "input_ok data \<longleftrightarrow> data \<noteq> [] \<and> length data < 2 ^ 32"

text \<open>What an execution leaves alone.\<close>

definition same_input :: "('f, 'w) Variables \<Rightarrow> ('f, 'w) Variables \<Rightarrow> bool" where
  "same_input v v' \<longleftrightarrow> lf_input v' = lf_input v \<and> max_input_size v' = max_input_size v \<and> dict_history v' = dict_history v \<and>
     manual_dictionary v' = manual_dictionary v \<and> persistent_auto_dict v' = persistent_auto_dict v \<and> run_count v' = run_count v \<and>
     last_corpus_update_run v' = last_corpus_update_run v \<and> solutions v' = solutions v"

lemma execute_feedback_ok:
  assumes base: "lf_base P ci v" and input: "input_ok (lf_input v)" and room: "length (corpus (lf_corpus v)) < 2 ^ 32 - 1"
  obtains v' and found :: "nat list" where "createExecuteAndFeedback P ci force may_delete False strict v = Inr v'" "lf_base P ci v'" "same_input v v'"
    "added_to_corpus (exec_result v') \<longleftrightarrow> found \<noteq> []" "features_count (exec_result v') = length found"
    "name (exec_result v') = (if found \<noteq> [] \<or> force then name (named (hash P) (lf_input v) (exec_result v)) else name (exec_result v))"
    "found = [] \<and> \<not> force \<longrightarrow> lf_state v' = lf_state v \<and> lf_corpus v' = lf_corpus v"
    "found \<noteq> [] \<or> force \<longrightarrow> distribution_needs_update (lf_state v') \<and> length (corpus (lf_corpus v')) = length (corpus (lf_corpus v)) + 1 \<and>
       last (corpus (lf_corpus v')) = exec_result v'"
    "found \<noteq> [] \<or> force \<longrightarrow> (\<exists>es. corpus (lf_corpus v') = es @ [exec_result v'] \<and> length es = length (corpus (lf_corpus v)) \<and>
       name ` set es \<subseteq> insert [] (name ` set (corpus (lf_corpus v))) - {name (exec_result v')})"
proof -
  obtain obs w where put: "put P (target v) (lf_input v) = (obs, w)" by (cases "put P (target v) (lf_input v)")
  define info where "info = (exec_result v)\<lparr>enabled := True, time_of_unit := elapsed obs, status := exit_reason obs,
    signal := exit_signal obs, added_to_corpus := False, found_unique_features := 0\<rparr>"
  define cov where "cov = (if use_afl_coverage ci then afl_feedback obs else bb_feedback obs)"
  define v1 where "v1 = v\<lparr>target := w, exec_result := info, lf_coverage := cov, coverage_address := feedback_address obs\<rparr>"
  have exec: "Execute P (use_afl_coverage ci) (v\<lparr>lf_coverage := []\<rparr>) = Inr v1"
    using put by (simp add: Execute_def Let_def v1_def info_def cov_def)
  have b: "feat_inv (lf_state v) (corpus (lf_corpus v)) 0 0" "store_inv (lf_corpus v)" "\<not> entropic_enabled (config (lf_state v))" "lf_input v \<noteq> []"
    "length (lf_input v) < 2 ^ 32" "hash P (lf_input v) \<noteq> []"
    using base input by (simp_all add: lf_base_def platform_ok_def input_ok_def)
  have en: "enabled info" by (simp add: info_def)
  obtain st1 c1 info1 b' st' c' info' and found :: "nat list" where fb:
    "CollectFeatures (floats P) (feedback_address obs) (lf_input v) cov 0 (lf_state v, lf_corpus v, info) = Inr (st1, c1, info1)"
    "AddToCorpus (floats P) (hash P) (lf_input v) force may_delete False strict (output_dir ci) (st1, c1, info1) = Inr (b', st', c', info')"
    "feat_inv st' (corpus c') 0 0" "store_inv c'" "config st' = config (lf_state v)" "enabled info'" "features_count info' = length found"
    "added_to_corpus info' \<longleftrightarrow> found \<noteq> []" "name info' = (if found \<noteq> [] \<or> force then name (named (hash P) (lf_input v) info) else name info)"
    "found = [] \<and> \<not> force \<longrightarrow> st' = lf_state v \<and> c' = lf_corpus v"
    "found \<noteq> [] \<or> force \<longrightarrow> distribution_needs_update st' \<and> length (corpus c') = length (corpus (lf_corpus v)) + 1 \<and> last (corpus c') = info'"
    "force \<and> found = [] \<longrightarrow> corpus c' = older (floats P) (name (named (hash P) (lf_input v) info)) (lf_corpus v) @ [info']"
    "found \<noteq> [] \<or> force \<longrightarrow> (\<exists>es. corpus c' = es @ [info'] \<and> length es = length (corpus (lf_corpus v)) \<and>
       name ` set es \<subseteq> insert [] (name ` set (corpus (lf_corpus v))) - {name info'})"
    by (rule feedback_inv [where F = "floats P" and address = "feedback_address obs" and cov = cov and offset = 0 and force = force and
        may_delete = may_delete and strict = strict and path = "output_dir ci" and h = "hash P", OF b(1-5) room en b(6)])
  let ?v = "v1\<lparr>lf_state := st', lf_corpus := c', exec_result := info'\<rparr>"
  have run: "createExecuteAndFeedback P ci force may_delete False strict v = Inr ?v"
    using fb(1,2) unfolding createExecuteAndFeedback_def exec by (simp add: collect_node_def add_node_def v1_def)
  have names: "name info = name (exec_result v)" "name (named (hash P) (lf_input v) info) = name (named (hash P) (lf_input v) (exec_result v))"
    by (simp_all add: info_def named_def)
  have fields: "exec_result ?v = info'" "lf_state ?v = st'" "lf_corpus ?v = c'" by simp_all
  have base': "lf_base P ci ?v" using base fb(3-5) by (simp add: lf_base_def v1_def lf_dict_ok_def)
  have same: "same_input v ?v" by (simp add: same_input_def v1_def)
  show thesis
    by (rule that [OF run base' same, of found], unfold fields names [symmetric]) (rule fb(8) fb(7) fb(9) fb(10) fb(11) fb(13))+
qed

section \<open>The local loop\<close>

definition live :: "('f, 'w) Variables \<Rightarrow> bool" where
  "live v \<longleftrightarrow> (\<exists>e \<in> set (corpus (lf_corpus v)). features_count e \<noteq> 0)"

text \<open>The distribution gives a positive weight to some entry, and only to entries with features.\<close>

definition dist_ok :: "'f floats \<Rightarrow> ('f, 'w) Variables \<Rightarrow> bool" where
  "dist_ok F v \<longleftrightarrow> (let ws = corpus_distribution (lf_state v) in
     length ws = length (corpus (lf_corpus v)) \<and> (\<exists>w \<in> set ws. f_nonzero F w) \<and> (\<forall>w \<in> set ws. f_nonzero F w \<longrightarrow> f_pos F w) \<and>
     (\<forall>k < length ws. f_nonzero F (ws ! k) \<longrightarrow> features_count (corpus (lf_corpus v) ! k) \<noteq> 0))"

definition loop_post :: "('f, 'w) Platform \<Rightarrow> FuzzerCreateInfo \<Rightarrow> nat \<Rightarrow> nat \<Rightarrow> ('f, 'w) Variables \<Rightarrow> bool" where
  "loop_post P ci n r v \<longleftrightarrow> lf_base P ci v \<and> length (corpus (lf_corpus v)) \<le> n + 1 \<and> live v \<and>
     (distribution_needs_update (lf_state v) \<or> dist_ok (floats P) v) \<and> r \<le> run_count v"

definition lf_loop_inv :: "('f, 'w) Platform \<Rightarrow> FuzzerCreateInfo \<Rightarrow> nat \<Rightarrow> nat \<Rightarrow> ('f, 'w) Variables \<Rightarrow> bool" where
  "lf_loop_inv P ci n r v \<longleftrightarrow> loop_post P ci n r v \<and> length (corpus (lf_corpus v)) \<le> n \<and> n < 2 ^ 32 - 1 \<and> input_ok (lf_input v)"

lemma mutation_ok:
  assumes "lf_base P ci v" and "input_ok (lf_input v)"
  obtains v' where "RepeatUntilMutated (createMutator P ci) 1 (mutation_depth ci) (v\<lparr>mutation_history := [], dict_history := []\<rparr>) = Inr v'"
    "input_ok (lf_input v')" "lf_dict_ok v'" "refs_ok v'" "same_run v v'"
proof -
  let ?v = "v\<lparr>mutation_history := [], dict_history := []\<rparr>"
  have "mut_inv P v ?v"
    using assms by (simp add: mut_inv_def lf_base_def platform_ok_def input_ok_def lf_dict_ok_def refs_ok_def same_run_def)
  from mutation.RepeatUntilMutated_ok [OF this, of ci 1 "mutation_depth ci"]
  obtain v' where v': "RepeatUntilMutated (createMutator P ci) 1 (mutation_depth ci) ?v = Inr v'" "mut_inv P v v'" by blast
  show thesis by (rule that [OF v'(1)]) (use v'(2) in \<open>simp_all add: mut_inv_def input_ok_def\<close>)
qed

lemma lf_base_cong:
  assumes "lf_base P ci v" and "lf_corpus v' = lf_corpus v" and "input_sizes_per_feature (lf_state v') = input_sizes_per_feature (lf_state v)"
    and "smallest_element_per_feature (lf_state v') = smallest_element_per_feature (lf_state v)" and "config (lf_state v') = config (lf_state v)"
    and "lf_dict_ok v'" and "max_input_size v' = max_input_size v"
  shows "lf_base P ci v'"
  using assms feat_inv_cong [OF assms(3,4) refl refl, of "corpus (lf_corpus v)" 0 0] by (simp add: lf_base_def)

lemma new_coverage_ok:
  assumes "lf_base P ci v" and "input_ok (lf_input v)" and "refs_ok v"
  obtains v' where "IfNewCoverage (new_coverage_node P ci) v = Inr v'" "lf_base P ci v'" "lf_input v' = lf_input v" "lf_state v' = lf_state v"
    "lf_corpus v' = lf_corpus v" "run_count v' = run_count v" "added_to_corpus (exec_result v') \<longleftrightarrow> added_to_corpus (exec_result v)"
proof (cases "added_to_corpus (exec_result v)")
  case False
  then show thesis using assms(1) by (intro that [of v]) (simp_all add: IfNewCoverage_def)
next
  case True
  have "lf_dict_ok v" using assms(1) by (simp add: lf_base_def)
  then obtain manual persistent where d: "UpdateDictionary (dict_history v) (manual_dictionary v) (persistent_auto_dict v) = Inr (manual, persistent)"
    "lf_dict_ok (v\<lparr>manual_dictionary := manual, persistent_auto_dict := persistent\<rparr>)"
    using UpdateDictionary_ok [of v] assms(3) by blast
  let ?v = "v\<lparr>manual_dictionary := manual, persistent_auto_dict := persistent\<rparr>"
  have "lf_input ?v \<noteq> []" using assms(2) by (simp add: input_ok_def)
  then have "\<exists>info sols. AddToSolution (hash P) (crashed_only ci) (output_dir ci) ?v = Inr (?v\<lparr>exec_result := info, solutions := sols\<rparr>) \<and> added_to_corpus info"
  proof (cases "crashed_only ci \<and> status (exec_result v) = FAULT_NONE")
    case no_crash: True
    then show ?thesis using True by (intro exI [of _ "exec_result v"] exI [of _ "solutions v"]) (simp add: AddToSolution_def)
  next
    case False
    let ?info = "named (hash P) (lf_input v) (exec_result v)"
    have "added_to_corpus ?info" using True by (simp add: named_def)
    moreover have "AddToSolution (hash P) (crashed_only ci) (output_dir ci) ?v =
        Inr (?v\<lparr>exec_result := ?info, solutions := solutions v @ [(output_dir ci @ ''/'' @ name ?info, lf_input v)]\<rparr>)"
      using True False \<open>lf_input ?v \<noteq> []\<close> by (auto simp: AddToSolution_def corpus_AddToSolution_def Let_def)
    ultimately show ?thesis by blast
  qed
  then obtain info sols where s: "AddToSolution (hash P) (crashed_only ci) (output_dir ci) ?v = Inr (?v\<lparr>exec_result := info, solutions := sols\<rparr>)" "added_to_corpus info"
    by blast
  let ?w = "?v\<lparr>exec_result := info, solutions := sols, last_corpus_update_run := run_count v\<rparr>"
  have run: "IfNewCoverage (new_coverage_node P ci) v = Inr ?w"
    using True d(1) s(1) by (simp add: IfNewCoverage_def new_coverage_node_def update_dict_node_def)
  have "lf_base P ci ?w" by (rule lf_base_cong [OF assms(1)]) (use d(2) in \<open>simp_all add: lf_dict_ok_def\<close>)
  then show thesis by (rule that [OF run]) (use s(2) True in simp_all)
qed

lemma local_body_ok:
  assumes inv: "lf_loop_inv P ci n r v"
  shows "\<exists>v'. local_body P ci v = Inr v' \<and> loop_post P ci n (r + 1) v' \<and> (\<not> added_to_corpus (exec_result v') \<longrightarrow> lf_loop_inv P ci n (r + 1) v')"
proof -
  have base: "lf_base P ci v" and input: "input_ok (lf_input v)" and lv: "live v" and dist: "distribution_needs_update (lf_state v) \<or> dist_ok (floats P) v"
    and room: "length (corpus (lf_corpus v)) \<le> n" "n < 2 ^ 32 - 1" and r: "r \<le> run_count v"
    using inv by (simp_all add: lf_loop_inv_def loop_post_def)
  obtain v1 where v1: "RepeatUntilMutated (createMutator P ci) 1 (mutation_depth ci) (v\<lparr>mutation_history := [], dict_history := []\<rparr>) = Inr v1"
    "input_ok (lf_input v1)" "lf_dict_ok v1" "refs_ok v1" "same_run v v1"
    by (rule mutation_ok [OF base input])
  define v2 where "v2 = v1\<lparr>lf_state := (lf_state v1)\<lparr>mutations_count := mutations_count (lf_state v1) + 1\<rparr>,
    exec_result := (exec_result v1)\<lparr>executed_mutations_count := executed_mutations_count (exec_result v1) + 1\<rparr>\<rparr>"
  have inc: "IncrementMutationsCount v1 = Inr v2" by (simp add: IncrementMutationsCount_def v2_def)
  have same: "lf_corpus v2 = lf_corpus v" "corpus_distribution (lf_state v2) = corpus_distribution (lf_state v)" "run_count v2 = run_count v"
    "distribution_needs_update (lf_state v2) = distribution_needs_update (lf_state v)"
    using v1(5) by (simp_all add: v2_def same_run_def)
  have base2: "lf_base P ci v2"
    by (rule lf_base_cong [OF base]) (use v1(3,5) in \<open>simp_all add: v2_def same_run_def lf_dict_ok_def\<close>)
  have input2: "input_ok (lf_input v2)" and refs2: "refs_ok v2" using v1(2,4) by (simp_all add: v2_def refs_ok_def)
  have room2: "length (corpus (lf_corpus v2)) < 2 ^ 32 - 1" using room same(1) by simp
  obtain v3 and found :: "nat list" where v3: "createExecuteAndFeedback P ci False True False False v2 = Inr v3" "lf_base P ci v3" "same_input v2 v3"
    "added_to_corpus (exec_result v3) \<longleftrightarrow> found \<noteq> []" "features_count (exec_result v3) = length found"
    "found = [] \<and> \<not> False \<longrightarrow> lf_state v3 = lf_state v2 \<and> lf_corpus v3 = lf_corpus v2"
    "found \<noteq> [] \<or> False \<longrightarrow> distribution_needs_update (lf_state v3) \<and> length (corpus (lf_corpus v3)) = length (corpus (lf_corpus v2)) + 1 \<and>
       last (corpus (lf_corpus v3)) = exec_result v3"
    by (rule execute_feedback_ok [OF base2 input2 room2, of False True False])
  have input3: "input_ok (lf_input v3)" and refs3: "refs_ok v3" using input2 refs2 v3(3) by (simp_all add: same_input_def refs_ok_def)
  obtain v4 where v4: "IfNewCoverage (new_coverage_node P ci) v3 = Inr v4" "lf_base P ci v4" "lf_input v4 = lf_input v3" "lf_state v4 = lf_state v3"
    "lf_corpus v4 = lf_corpus v3" "run_count v4 = run_count v3" "added_to_corpus (exec_result v4) \<longleftrightarrow> added_to_corpus (exec_result v3)"
    by (rule new_coverage_ok [OF v3(2) input3 refs3])
  let ?v = "v4\<lparr>run_count := run_count v4 + 1\<rparr>"
  have run: "local_body P ci v = Inr ?v" using v1(1) inc v3(1) v4(1) by (simp add: local_body_def)
  have base5: "lf_base P ci ?v" by (rule lf_base_cong [OF v4(2)]) (use v4(2) in \<open>simp_all add: lf_base_def lf_dict_ok_def\<close>)
  have count: "r + 1 \<le> run_count ?v" using r v4(6) v3(3) same(3) by (simp add: same_input_def)
  show ?thesis
  proof (cases "found = []")
    case True
    then have c: "lf_corpus ?v = lf_corpus v" "corpus_distribution (lf_state ?v) = corpus_distribution (lf_state v)"
      "distribution_needs_update (lf_state ?v) = distribution_needs_update (lf_state v)"
      using v3(6) v4(4,5) same by simp_all
    then have "loop_post P ci n (r + 1) ?v" using base5 count lv dist room(1) by (simp add: loop_post_def live_def dist_ok_def Let_def)
    then have "lf_loop_inv P ci n (r + 1) ?v" using c room input3 v4(3) by (simp add: lf_loop_inv_def)
    then show ?thesis using run by (auto simp: lf_loop_inv_def)
  next
    case False
    then have c: "distribution_needs_update (lf_state ?v)" "length (corpus (lf_corpus ?v)) = length (corpus (lf_corpus v)) + 1"
      "last (corpus (lf_corpus ?v)) = exec_result v3" "added_to_corpus (exec_result ?v)"
      using v3(4,7) v4(4,5,7) same(1) by simp_all
    then have "corpus (lf_corpus ?v) \<noteq> []" by auto
    then have "exec_result v3 \<in> set (corpus (lf_corpus ?v))" using c(3) by (metis last_in_set)
    then have "live ?v" unfolding live_def using v3(5) False by (metis length_0_conv)
    then have "loop_post P ci n (r + 1) ?v" using base5 count c room(1) by (simp add: loop_post_def)
    then show ?thesis using run c(4) by auto
  qed
qed

interpretation local_loop: lf_retry "local_body P ci" "lf_loop_inv P ci n r" "loop_post P ci n r" for P ci n r
proof
  show "\<exists>v'. local_body P ci v = Inr v' \<and> loop_post P ci n r v' \<and> (\<not> added_to_corpus (exec_result v') \<longrightarrow> lf_loop_inv P ci n r v')"
    if "lf_loop_inv P ci n r v" for v :: "('a, 'b) Variables"
    using local_body_ok [OF that] by (auto simp: lf_loop_inv_def loop_post_def)
  show "lf_loop_inv P ci n r v \<Longrightarrow> loop_post P ci n r v" for v :: "('a, 'b) Variables" by (simp add: lf_loop_inv_def)
qed

end
