(* ===== verification/LibFuzzer_Campaign.thy ===== *)
theory LibFuzzer_Campaign
  imports LibFuzzer_Loop_Props
begin

text \<open>
  Whole runs of libFuzzer: choosing inputs, the schedule, the start and the loop of the main program, and two errors of the
  start that the model shows.
\<close>

section \<open>Choosing and scheduling\<close>

lemma entry_with_features:
  assumes "lf_base P ci v" and "k < length (corpus (lf_corpus v))" and "features_count (corpus (lf_corpus v) ! k) \<noteq> 0"
  shows "enabled (corpus (lf_corpus v) ! k)"
  using assms unfolding lf_base_def feat_inv_def by (metis (mono_tags))

lemma lf_SelectSeed_entry:
  assumes "lf_base P ci v" and "k < length (corpus (lf_corpus v))"
    and "(if uniform then random_value (length (corpus (lf_corpus v))) rs else draw P (corpus_distribution (lf_state v)) rs) = (k, rs')"
  shows "\<exists>data info. lf_SelectSeed P uniform (lf_state v) (lf_corpus v) rs = Inr (data, info, rs') \<and>
    (enabled (corpus (lf_corpus v) ! k) \<longrightarrow> input_ok data)"
proof (cases "enabled (corpus (lf_corpus v) ! k)")
  case True
  then have "has_input (inputs (lf_corpus v)) (corpus (lf_corpus v) ! k)"
    using assms(1,2) unfolding lf_base_def store_inv_def store_ok_def by (metis nth_mem)
  then obtain bs where bs: "inputs (lf_corpus v) (info_id (corpus (lf_corpus v) ! k)) = Some (OnMemory bs)" "bs \<noteq> []" "length bs < 2 ^ 32"
    unfolding has_input_def by blast
  then show ?thesis using assms(2) True unfolding lf_SelectSeed_def assms(3) Let_def by (simp add: stored_bytes_def input_ok_def)
next
  case False
  then show ?thesis using assms(2) unfolding lf_SelectSeed_def assms(3) Let_def by simp
qed

lemma draw_index:
  assumes "lf_base P ci v" and "dist_ok (floats P) v"
  obtains k rs' where "draw P (corpus_distribution (lf_state v)) rs = (k, rs')" "k < length (corpus (lf_corpus v))" "enabled (corpus (lf_corpus v) ! k)"
proof -
  let ?ws = "corpus_distribution (lf_state v)" let ?k = "fst (draw P ?ws rs)"
  have "?k < length ?ws \<and> f_nonzero (floats P) (?ws ! ?k)"
    using assms unfolding lf_base_def platform_ok_def draw_ok_def dist_ok_def Let_def by blast
  then have "?k < length (corpus (lf_corpus v))" "features_count (corpus (lf_corpus v) ! ?k) \<noteq> 0"
    using assms(2) unfolding dist_ok_def Let_def by auto
  then show thesis by (intro that [of ?k "snd (draw P ?ws rs)"]) (simp_all add: entry_with_features [OF assms(1)])
qed

lemma choose_ok:
  assumes "lf_base P ci v" and "dist_ok (floats P) v" and "live v"
  obtains v' where "bindR (choose_crossover_node P ci v) (choose_node P) = Inr v'" "input_ok (lf_input v')" "lf_state v' = lf_state v" "lf_corpus v' = lf_corpus v"
    "manual_dictionary v' = manual_dictionary v" "persistent_auto_dict v' = persistent_auto_dict v" "max_input_size v' = max_input_size v" "run_count v' = run_count v"
proof -
  have ne: "0 < length (corpus (lf_corpus v))" using assms(3) unfolding live_def by (auto simp: length_pos_if_in_set)
  obtain j rs1 where j: "(if crossover_uniform_dist ci then random_value (length (corpus (lf_corpus v))) (lf_rng v)
      else draw P (corpus_distribution (lf_state v)) (lf_rng v)) = (j, rs1)" "j < length (corpus (lf_corpus v))"
    using ne random_valueE [of "length (corpus (lf_corpus v))" "lf_rng v"] draw_index [OF assms(1,2), of "lf_rng v"]
    by (cases "crossover_uniform_dist ci") (simp_all, metis+)
  obtain other info where o: "lf_SelectSeed P (crossover_uniform_dist ci) (lf_state v) (lf_corpus v) (lf_rng v) = Inr (other, info, rs1)"
    using lf_SelectSeed_entry [OF assms(1) j(2,1)] by blast
  obtain k rs2 where k: "draw P (corpus_distribution (lf_state v)) rs1 = (k, rs2)" "k < length (corpus (lf_corpus v))" "enabled (corpus (lf_corpus v) ! k)"
    by (rule draw_index [OF assms(1,2)])
  obtain data info2 where d: "lf_SelectSeed P False (lf_state v) (lf_corpus v) rs1 = Inr (data, info2, rs2)" "input_ok data"
    using lf_SelectSeed_entry [OF assms(1) k(2), of False rs1 rs2] k(1,3) by auto
  have run: "bindR (choose_crossover_node P ci v) (choose_node P) =
      Inr (v\<lparr>lf_crossover := other, exec_result := info2, lf_rng := rs2, lf_input := data\<rparr>)"
    using o d(1) by (simp add: choose_crossover_node_def choose_node_def)
  show thesis by (rule that [OF run]) (use d(2) in simp_all)
qed

lemma weights_nth:
  "length (fst (GenerateVanillaSchedule F c)) = length (corpus c)"
  "k < length (corpus c) \<Longrightarrow> fst (GenerateVanillaSchedule F c) ! k = vanilla_weight F k (corpus c ! k)"
  by (simp_all add: GenerateVanillaSchedule_def Let_def nth_enumerate_eq)

lemma vanilla_corpus:
  assumes "(ws, c') = GenerateVanillaSchedule F c"
  shows "inputs c' = inputs c" "next_id c' = next_id c" "map features_count (corpus c') = map features_count (corpus c)" "map enabled (corpus c') = map enabled (corpus c)"
    "map info_id (corpus c') = map info_id (corpus c)" "map name (corpus c') = map name (corpus c)"
proof -
  have ws: "length ws = length (corpus c)" using weights_nth(1) [of F c] assms [symmetric] by simp
  have c': "c' = c\<lparr>corpus := map (\<lambda>(w, info). info\<lparr>weight := w\<rparr>) (zip ws (corpus c))\<rparr>"
    using assms by (simp add: GenerateVanillaSchedule_def Let_def)
  have "map g (map (\<lambda>(w, info). info\<lparr>weight := w\<rparr>) (zip ws (corpus c))) = map g (corpus c)"
    if "\<And>w info. g (info\<lparr>weight := w\<rparr>) = g info" for g :: "'a InputInfo \<Rightarrow> 'b"
    using ws that by (intro nth_equalityI) simp_all
  note keep = this
  show "inputs c' = inputs c" "next_id c' = next_id c" by (simp_all add: c')
  show "map features_count (corpus c') = map features_count (corpus c)" unfolding c' using keep [of features_count] by simp
  show "map enabled (corpus c') = map enabled (corpus c)" unfolding c' using keep [of enabled] by simp
  show "map info_id (corpus c') = map info_id (corpus c)" unfolding c' using keep [of info_id] by simp
  show "map name (corpus c') = map name (corpus c)" unfolding c' using keep [of name] by simp
qed

lemma map_eq_nth: "map f xs = map f ys \<Longrightarrow> k < length ys \<Longrightarrow> f (xs ! k) = f (ys ! k)"
  using map_eq_imp_length_eq [of f xs f ys] nth_map [of k xs f] nth_map [of k ys f] by simp

lemma store_ok_cong:
  fixes es es' :: "'f InputInfo list"
  assumes "store_ok ins n es" and "map info_id es' = map info_id es" and "map name es' = map name es" and "map enabled es' = map enabled es"
  shows "store_ok ins n es'"
proof -
  have len: "length es' = length es" by (rule map_eq_imp_length_eq [OF assms(2)])
  have "info_id e < n \<and> (enabled e \<longrightarrow> has_input ins e) \<and> (enabled e \<longleftrightarrow> name e \<noteq> [])" if e: "e \<in> set es'" for e
  proof -
    obtain k where k: "k < length es" "e = es' ! k" using e len by (auto simp: in_set_conv_nth)
    have "info_id e = info_id (es ! k)" "name e = name (es ! k)" "enabled e = enabled (es ! k)"
      unfolding k(2) using map_eq_nth [OF assms(2) k(1)] map_eq_nth [OF assms(3) k(1)] map_eq_nth [OF assms(4) k(1)] by simp_all
    moreover have "es ! k \<in> set es" using k(1) by simp
    ultimately show ?thesis using assms(1) unfolding store_ok_def has_input_def by auto
  qed
  then show ?thesis using assms unfolding store_ok_def by simp
qed

lemma distribution_ok:
  assumes base: "lf_base P ci v" and lv: "live v" and dist: "distribution_needs_update (lf_state v) \<or> dist_ok (floats P) v"
  obtains v' where "distribution_node P ci v = Inr v'" "lf_base P ci v'" "live v'" "dist_ok (floats P) v'"
    "length (corpus (lf_corpus v')) = length (corpus (lf_corpus v))" "run_count v' = run_count v" "max_input_size v' = max_input_size v"
proof (cases "distribution_needs_update (lf_state v)")
  case False
  have "distribution_node P ci v = Inr v"
    using False base by (simp add: distribution_node_def UpdateDistribution_def lf_base_def)
  then show thesis by (rule that) (use base lv dist False in simp_all)
next
  case True
  let ?F = "floats P"
  obtain ws c where wc: "(ws, c) = GenerateVanillaSchedule ?F (lf_corpus v)" by (metis surj_pair)
  note same = vanilla_corpus [OF wc]
  have len: "length (corpus c) = length (corpus (lf_corpus v))" by (rule map_eq_imp_length_eq [OF same(3)])
  have ws: "length ws = length (corpus (lf_corpus v))" "\<And>k. k < length ws \<Longrightarrow> ws ! k = vanilla_weight ?F k (corpus (lf_corpus v) ! k)"
    using weights_nth [where F = ?F and c = "lf_corpus v"] wc [symmetric] by simp_all
  have fl: "floats_ok ?F" and plain: "\<not> entropic_enabled (config (lf_state v))" using base by (simp_all add: lf_base_def platform_ok_def)
  have nz: "f_nonzero ?F (ws ! k) \<longleftrightarrow> features_count (corpus (lf_corpus v) ! k) \<noteq> 0" "f_nonzero ?F (ws ! k) \<longrightarrow> f_pos ?F (ws ! k)" if "k < length ws" for k
    using fl unfolding ws(2) [OF that] floats_ok_def vanilla_weight_def by simp_all
  obtain k where k: "k < length ws" "features_count (corpus (lf_corpus v) ! k) \<noteq> 0" using lv ws(1) unfolding live_def by (metis in_set_conv_nth)
  then have some: "\<exists>w \<in> set ws. f_nonzero ?F w" using nz(1) by (metis nth_mem)
  have ne: "corpus (lf_corpus v) \<noteq> []" using lv by (auto simp: live_def)
  let ?st = "(lf_state v)\<lparr>distribution_needs_update := False, corpus_distribution := ws\<rparr>"
  let ?v = "v\<lparr>lf_state := ?st, lf_corpus := c\<rparr>"
  have run: "distribution_node P ci v = Inr ?v"
    using True plain ne some wc [symmetric] by (simp add: distribution_node_def UpdateDistribution_def Let_def)
  have counts: "features_count (corpus c ! j) = features_count (corpus (lf_corpus v) ! j)" if "j < length ws" for j
    using map_eq_nth [OF same(3)] ws(1) that by simp
  have dist': "dist_ok ?F ?v"
    unfolding dist_ok_def Let_def using ws(1) len some nz counts by (auto simp: in_set_conv_nth)
  have "live ?v" unfolding live_def using k counts ws(1) len by (metis Variables.select_convs(2) Variables.surjective Variables.update_convs(1,2) nth_mem)
  moreover have "lf_base P ci ?v"
  proof -
    have "feat_inv ?st (corpus c) 0 0 = feat_inv (lf_state v) (corpus (lf_corpus v)) 0 0" by (rule feat_inv_cong) (use same(3,4) in simp_all)
    moreover have "store_ok (inputs c) (next_id c) (corpus c)"
      using store_ok_cong [OF _ same(5,6,4), of "inputs c" "next_id c"] base same(1,2) by (simp add: lf_base_def store_inv_def)
    ultimately show ?thesis using base by (simp add: lf_base_def store_inv_def lf_dict_ok_def)
  qed
  ultimately show thesis by (intro that [OF run]) (use dist' len in simp_all)
qed

section \<open>One run\<close>

definition lf_inv :: "('f, 'w) Platform \<Rightarrow> FuzzerCreateInfo \<Rightarrow> nat \<Rightarrow> ('f, 'w) Variables \<Rightarrow> bool" where
  "lf_inv P ci n v \<longleftrightarrow> lf_base P ci v \<and> length (corpus (lf_corpus v)) \<le> n \<and> live v \<and> dist_ok (floats P) v"

lemma UpdateMaxLength_ok:
  assumes "lf_inv P ci n v" and "len_control ci \<noteq> 0"
  shows "\<exists>v'. UpdateMaxLength (max_input_length ci) (len_control ci) v = Inr v' \<and> lf_inv P ci n v' \<and> run_count v' = run_count v"
proof -
  have pos: "0 < max_input_size v" and lim: "max_input_length ci < 2 ^ 32" using assms by (simp_all add: lf_inv_def lf_base_def)
  then obtain l where l: "lflog (max_input_size v) = Inr l" by (simp add: lflog_def)
  let ?v = "v\<lparr>max_input_size := min (max_input_length ci) (max_input_size v + l), last_corpus_update_run := run_count v\<rparr>"
  have "lf_inv P ci n ?v" if "max_input_size v < max_input_length ci"
  proof -
    have "min (max_input_length ci) (max_input_size v + l) < 2 ^ 32" "0 < min (max_input_length ci) (max_input_size v + l)"
      using lim pos that by auto
    then show ?thesis using assms(1) unfolding lf_inv_def lf_base_def lf_dict_ok_def live_def dist_ok_def Let_def by simp
  qed
  then show ?thesis using assms(1) l by (cases "max_input_size v < max_input_length ci") (auto simp: UpdateMaxLength_def)
qed

lemma local_loop_count:
  assumes "lf_loop_inv P ci n (run_count v) v"
  shows "\<exists>v'. RepeatUntilNewCoverage (local_body P ci) m v = Inr v' \<and> loop_post P ci n (run_count v + of_bool (0 < m)) v'"
proof (cases m)
  case 0
  then show ?thesis using local_loop.RepeatUntilNewCoverage_ok [OF assms, of 0] by simp
next
  case (Suc k)
  obtain v1 where v1: "local_body P ci v = Inr v1" "loop_post P ci n (run_count v + 1) v1"
    "\<not> added_to_corpus (exec_result v1) \<longrightarrow> lf_loop_inv P ci n (run_count v + 1) v1"
    using local_body_ok [OF assms] by blast
  then show ?thesis using Suc local_loop.RepeatUntilNewCoverage_ok [of P ci n "run_count v + 1" v1 k] by auto
qed

lemma createRunone_ok:
  assumes "lf_inv P ci n v" and "n < 2 ^ 32 - 1"
  shows "\<exists>v'. createRunone P ci v = Inr v' \<and> lf_inv P ci (n + 1) v' \<and> run_count v + of_bool (0 < max_mutation_retry_count ci) \<le> run_count v'"
proof -
  have base: "lf_base P ci v" "dist_ok (floats P) v" "live v" "length (corpus (lf_corpus v)) \<le> n" using assms(1) by (simp_all add: lf_inv_def)
  obtain v1 where v1: "bindR (choose_crossover_node P ci v) (choose_node P) = Inr v1" "input_ok (lf_input v1)" "lf_state v1 = lf_state v" "lf_corpus v1 = lf_corpus v"
    "manual_dictionary v1 = manual_dictionary v" "persistent_auto_dict v1 = persistent_auto_dict v" "max_input_size v1 = max_input_size v" "run_count v1 = run_count v"
    by (rule choose_ok [OF base(1-3)])
  have "lf_base P ci v1" by (rule lf_base_cong [OF base(1)]) (use base(1) v1 in \<open>simp_all add: lf_base_def lf_dict_ok_def\<close>)
  then have "lf_loop_inv P ci n (run_count v1) v1"
    using base v1 assms(2) by (simp add: lf_loop_inv_def loop_post_def live_def dist_ok_def Let_def)
  from local_loop_count [OF this, of "max_mutation_retry_count ci"]
  obtain v2 where v2: "RepeatUntilNewCoverage (local_body P ci) (max_mutation_retry_count ci) v1 = Inr v2"
    "loop_post P ci n (run_count v1 + of_bool (0 < max_mutation_retry_count ci)) v2" by blast
  then have p2: "lf_base P ci v2" "live v2" "distribution_needs_update (lf_state v2) \<or> dist_ok (floats P) v2" by (simp_all add: loop_post_def)
  obtain v3 where v3: "distribution_node P ci v2 = Inr v3" "lf_base P ci v3" "live v3" "dist_ok (floats P) v3"
    "length (corpus (lf_corpus v3)) = length (corpus (lf_corpus v2))" "run_count v3 = run_count v2" "max_input_size v3 = max_input_size v2"
    by (rule distribution_ok [OF p2])
  have inv3: "lf_inv P ci (n + 1) v3" using v3 v2(2) by (simp add: lf_inv_def loop_post_def)
  have count: "run_count v + of_bool (0 < max_mutation_retry_count ci) \<le> run_count v3" using v2(2) v3(6) v1(8) by (simp add: loop_post_def)
  have "bindR (choose_crossover_node P ci v) (\<lambda>v. bindR (choose_node P v) g) = bindR (Inr v1) g" for g :: "('a, 'b) node"
    using v1(1) by (simp only: bindR_assoc [symmetric])
  then have run: "createRunone P ci v = (if len_control ci \<noteq> 0 then UpdateMaxLength (max_input_length ci) (len_control ci) v3 else Inr v3)"
    unfolding createRunone_def using v2(1) v3(1) by simp
  show ?thesis
  proof (cases "len_control ci \<noteq> 0")
    case True
    then show ?thesis using run UpdateMaxLength_ok [OF inv3] count by auto
  next
    case False
    then show ?thesis using run inv3 count by auto
  qed
qed

section \<open>The start\<close>

text \<open>What is assumed of the configuration: the default schedule, a set of features, limits within 32 bits, and a dictionary without empty words.\<close>

definition lf_config_ok :: "FuzzerCreateInfo \<Rightarrow> Config \<Rightarrow> nat \<Rightarrow> DictionaryEntry list \<Rightarrow> bool" where
  "lf_config_ok ci conf feature_set_size manual \<longleftrightarrow> \<not> entropic_enabled conf \<and> 0 < feature_set_size \<and> max_input_length ci < 2 ^ 32 \<and>
     length manual \<le> dictionary_capacity \<and> list_all (\<lambda>e. word e \<noteq> []) manual"

lemma new_Variables_base:
  fixes P :: "('f, 'w) Platform"
  assumes "platform_ok P" and "lf_config_ok ci conf feature_set_size manual"
  shows "lf_base P ci (new_Variables P ci conf feature_set_size manual first_id rs w)"
proof -
  have "feat_inv (new_State conf feature_set_size) ([] :: 'f InputInfo list) 0 0"
    using assms(2) by (simp add: feat_inv_def new_State_def owned_features_def lf_config_ok_def)
  then show ?thesis
    using assms by (simp add: lf_base_def new_Variables_def store_inv_def store_ok_def lf_dict_ok_def lf_config_ok_def list_all_iff new_State_def)
qed

text \<open>While the initial inputs are run: only the entry of the last one is enabled, and the execution result keeps the name of the first.\<close>

definition start_inv :: "('f, 'w) Platform \<Rightarrow> FuzzerCreateInfo \<Rightarrow> nat \<Rightarrow> ('f, 'w) Variables \<Rightarrow> bool" where
  "start_inv P ci k v \<longleftrightarrow> lf_base P ci v \<and> length (corpus (lf_corpus v)) = k \<and> distribution_needs_update (lf_state v) \<and>
     solutions v = [] \<and> (k \<noteq> 0 \<longrightarrow> input_ok (lf_input v)) \<and> (k \<noteq> 0 \<longrightarrow> (\<exists>es. corpus (lf_corpus v) = es @ [exec_result v] \<and> (\<forall>e \<in> set es. name e = []) \<and> name (exec_result v) \<noteq> [] \<and>
        (added_to_corpus (exec_result v) \<longleftrightarrow> features_count (exec_result v) \<noteq> 0)))"

lemma start_step:
  assumes inv: "start_inv P ci k v" and input: "input_ok d" and room: "k < 2 ^ 32 - 1"
  shows "\<exists>v'. createExecuteAndFeedback P ci True True False strict (v\<lparr>lf_input := d\<rparr>) = Inr v' \<and> start_inv P ci (k + 1) v'"
proof -
  let ?v = "v\<lparr>lf_input := d\<rparr>"
  have base: "lf_base P ci ?v" using inv by (simp add: start_inv_def lf_base_def lf_dict_ok_def)
  have i: "input_ok (lf_input ?v)" "length (corpus (lf_corpus ?v)) < 2 ^ 32 - 1" using input room inv by (simp_all add: start_inv_def)
  obtain v' and found :: "nat list" where v': "createExecuteAndFeedback P ci True True False strict ?v = Inr v'" "lf_base P ci v'" "same_input ?v v'"
    "added_to_corpus (exec_result v') \<longleftrightarrow> found \<noteq> []" "features_count (exec_result v') = length found"
    "name (exec_result v') = (if found \<noteq> [] \<or> True then name (named (hash P) (lf_input ?v) (exec_result ?v)) else name (exec_result ?v))"
    "found \<noteq> [] \<or> True \<longrightarrow> distribution_needs_update (lf_state v') \<and> length (corpus (lf_corpus v')) = length (corpus (lf_corpus ?v)) + 1 \<and>
       last (corpus (lf_corpus v')) = exec_result v'"
    "found \<noteq> [] \<or> True \<longrightarrow> (\<exists>es. corpus (lf_corpus v') = es @ [exec_result v'] \<and> length es = length (corpus (lf_corpus ?v)) \<and>
       name ` set es \<subseteq> insert [] (name ` set (corpus (lf_corpus ?v))) - {name (exec_result v')})"
    by (rule execute_feedback_ok [OF base i, of True True strict])
  have hash: "hash P d \<noteq> []" using base by (simp add: lf_base_def platform_ok_def)
  have nm: "name (exec_result v') \<noteq> []" "name (exec_result v) \<noteq> [] \<Longrightarrow> name (exec_result v') = name (exec_result v)"
    using v'(6) hash by (simp_all add: named_def)
  obtain es where es: "corpus (lf_corpus v') = es @ [exec_result v']" "name ` set es \<subseteq> insert [] (name ` set (corpus (lf_corpus v))) - {name (exec_result v')}"
    using v'(8) by auto
  have old: "name ` set (corpus (lf_corpus v)) \<subseteq> {[], name (exec_result v')}"
  proof (cases "k = 0")
    case True
    then show ?thesis using inv by (simp add: start_inv_def)
  next
    case False
    then show ?thesis using inv nm(2) unfolding start_inv_def by auto
  qed
  have "\<forall>e \<in> set es. name e = []" using es(2) old by blast
  then have "start_inv P ci (k + 1) v'" using v' es(1) nm(1) inv input by (simp add: start_inv_def same_input_def)
  then show ?thesis using v'(1) by blast
qed

lemma start_loop:
  assumes "start_inv P ci k v" and "\<forall>d \<in> set ds. input_ok d" and "k + length ds \<le> 2 ^ 32 - 1"
  shows "\<exists>v'. ForEachStaticData ds (createExecuteAndFeedback P ci True True False strict) v = Inr v' \<and> start_inv P ci (k + length ds) v'"
  using assms
proof (induction ds arbitrary: k v)
  case (Cons d ds)
  obtain v1 where v1: "createExecuteAndFeedback P ci True True False strict (v\<lparr>lf_input := d\<rparr>) = Inr v1" "start_inv P ci (k + 1) v1"
    using start_step [OF Cons.prems(1), of d strict] Cons.prems(2,3) by auto
  then show ?case using Cons.IH [OF v1(2)] Cons.prems(2,3) by auto
qed simp

lemma distribution_start:
  assumes "lf_base P ci v" and "distribution_needs_update (lf_state v)" and "corpus (lf_corpus v) \<noteq> []"
  obtains v' where "distribution_node P ci v = Inr v'" "map enabled (corpus (lf_corpus v')) = map enabled (corpus (lf_corpus v))"
    "exec_result v' = exec_result v" "run_count v' = run_count v" "solutions v' = solutions v"
proof -
  obtain ws c where wc: "(ws, c) = GenerateVanillaSchedule (floats P) (lf_corpus v)" by (metis surj_pair)
  obtain ws' where "distribution_node P ci v = Inr (v\<lparr>lf_state := (lf_state v)\<lparr>distribution_needs_update := False, corpus_distribution := ws'\<rparr>, lf_corpus := c\<rparr>)"
    using assms wc [symmetric] by (simp add: distribution_node_def UpdateDistribution_def Let_def lf_base_def)
  then show thesis by (rule that) (simp_all add: vanilla_corpus(4) [OF wc])
qed

lemma merge_solution:
  assumes "start_inv P ci k v" and "k \<noteq> 0"
  obtains info sols where "(if merge ci then IfNewCoverage (AddToSolution (hash P) False (input_dir ci)) v else Inr v) = Inr (v\<lparr>exec_result := info, solutions := sols\<rparr>)"
    "added_to_corpus info = added_to_corpus (exec_result v)" "length sols \<le> length (solutions v) + 1"
proof -
  have ne: "lf_input v \<noteq> []" using assms by (simp add: start_inv_def input_ok_def)
  show thesis
  proof (cases "merge ci \<and> added_to_corpus (exec_result v)")
    case True
    let ?info = "named (hash P) (lf_input v) (exec_result v)"
    have "(if merge ci then IfNewCoverage (AddToSolution (hash P) False (input_dir ci)) v else Inr v) =
        Inr (v\<lparr>exec_result := ?info, solutions := solutions v @ [(input_dir ci @ ''/'' @ name ?info, lf_input v)]\<rparr>)"
      using True ne by (simp add: IfNewCoverage_def AddToSolution_def corpus_AddToSolution_def Let_def)
    then show thesis by (rule that) (simp_all add: named_def)
  next
    case False
    then have "(if merge ci then IfNewCoverage (AddToSolution (hash P) False (input_dir ci)) v else Inr v) =
        Inr (v\<lparr>exec_result := exec_result v, solutions := solutions v\<rparr>)" by (auto simp: IfNewCoverage_def)
    then show thesis by (rule that) simp_all
  qed
qed

lemma LibFuzzer_start:
  assumes "platform_ok P" and "lf_config_ok ci conf feature_set_size manual" and "ds \<noteq> []" and "\<forall>d \<in> set ds. input_ok d" and "length ds \<le> 2 ^ 32 - 1"
  obtains v0 v where "LibFuzzer P ci conf feature_set_size manual first_id ds rs w = Inr v" "start_inv P ci (length ds) v0"
    "map enabled (corpus (lf_corpus v)) = map enabled (corpus (lf_corpus v0))" "added_to_corpus (exec_result v) \<longleftrightarrow> added_to_corpus (exec_result v0)"
    "length (solutions v) \<le> 1" "added_to_corpus (exec_result v) \<longrightarrow> lf_inv P ci (length ds) v"
proof -
  let ?new = "new_Variables P ci conf feature_set_size manual first_id rs w"
  have new: "start_inv P ci 0 ?new"
    using new_Variables_base [OF assms(1,2)] by (simp add: start_inv_def) (simp add: new_Variables_def new_State_def)
  have "\<exists>v'. ForEachStaticData ds (createExecuteAndFeedback P ci True True False False) ?new = Inr v' \<and> start_inv P ci (0 + length ds) v'"
    by (rule start_loop [OF new assms(4)]) (use assms(5) in simp)
  then obtain v0 where v0: "ForEachStaticData ds (createExecuteAndFeedback P ci True True False False) ?new = Inr v0" "start_inv P ci (length ds) v0"
    by auto
  have k: "length ds \<noteq> 0" using assms(3) by simp
  obtain info sols where m: "(if merge ci then IfNewCoverage (AddToSolution (hash P) False (input_dir ci)) v0 else Inr v0) = Inr (v0\<lparr>exec_result := info, solutions := sols\<rparr>)"
    "added_to_corpus info = added_to_corpus (exec_result v0)" "length sols \<le> length (solutions v0) + 1"
    by (rule merge_solution [OF v0(2) k])
  define v1 where "v1 = v0\<lparr>exec_result := info, solutions := sols\<rparr>"
  have base: "lf_base P ci v1" and needs: "distribution_needs_update (lf_state v1)" and len: "length (corpus (lf_corpus v1)) = length ds"
    using v0(2) by (simp_all add: start_inv_def v1_def lf_base_def lf_dict_ok_def)
  have ne: "corpus (lf_corpus v1) \<noteq> []" using len k by auto
  obtain v where v: "distribution_node P ci v1 = Inr v" "map enabled (corpus (lf_corpus v)) = map enabled (corpus (lf_corpus v1))"
    "exec_result v = exec_result v1" "run_count v = run_count v1" "solutions v = solutions v1"
    by (rule distribution_start [OF base needs ne])
  have run: "LibFuzzer P ci conf feature_set_size manual first_id ds rs w = Inr v"
    using v0(1) m(1) v(1) by (simp add: LibFuzzer_def createInitialize_def v1_def)
  have live: "lf_inv P ci (length ds) v" if added: "added_to_corpus (exec_result v)"
  proof -
    have "features_count (exec_result v0) \<noteq> 0" "exec_result v0 \<in> set (corpus (lf_corpus v1))"
      using v0(2) k added m(2) v(3) unfolding start_inv_def v1_def by auto
    then have lv: "live v1" unfolding live_def by blast
    obtain v' where v': "distribution_node P ci v1 = Inr v'" "lf_base P ci v'" "live v'" "dist_ok (floats P) v'" "length (corpus (lf_corpus v')) = length (corpus (lf_corpus v1))"
      by (rule distribution_ok [OF base lv disjI1 [OF needs]])
    then show ?thesis using v(1) len by (simp add: lf_inv_def)
  qed
  show thesis
    by (rule that [OF run v0(2)]) (use v m(2,3) v0(2) live in \<open>simp_all add: v1_def start_inv_def\<close>)
qed

section \<open>The campaign\<close>

lemma lf_loops_ended: "lf_loops P ci n (True, v) = Inr (True, v)"
  by (induction n) (simp_all add: lf_OneLoop_def)

lemma lf_loops_ok:
  assumes "lf_inv P ci k v" and "k + n \<le> 2 ^ 32 - 1"
  shows "\<exists>e v'. lf_loops P ci n (False, v) = Inr (e, v') \<and>
    (if e then 0 \<le> total_cycles ci \<and> total_cycles ci \<le> int (run_count v') else run_count v + n * of_bool (0 < max_mutation_retry_count ci) \<le> run_count v' \<and>
       (n \<noteq> 0 \<longrightarrow> \<not> (0 \<le> total_cycles ci \<and> total_cycles ci \<le> int (run_count v'))))"
  using assms
proof (induction n arbitrary: k v)
  case (Suc n)
  obtain v1 where v1: "createRunone P ci v = Inr v1" "lf_inv P ci (k + 1) v1" "run_count v + of_bool (0 < max_mutation_retry_count ci) \<le> run_count v1"
    using createRunone_ok [OF Suc.prems(1)] Suc.prems(2) by auto
  show ?case
  proof (cases "0 \<le> total_cycles ci \<and> total_cycles ci \<le> int (run_count v1)")
    case True
    then show ?thesis using v1(1) by (intro exI [of _ True] exI [of _ v1]) (simp add: lf_OneLoop_def lf_loops_ended)
  next
    case False
    then have step: "lf_OneLoop P ci (False, v) = Inr (False, v1)" using v1(1) by (auto simp: lf_OneLoop_def)
    obtain e v' where r: "lf_loops P ci n (False, v1) = Inr (e, v')"
      "if e then 0 \<le> total_cycles ci \<and> total_cycles ci \<le> int (run_count v') else run_count v1 + n * of_bool (0 < max_mutation_retry_count ci) \<le> run_count v' \<and>
         (n \<noteq> 0 \<longrightarrow> \<not> (0 \<le> total_cycles ci \<and> total_cycles ci \<le> int (run_count v')))"
      using Suc.IH [OF v1(2)] Suc.prems(2) by auto
    show ?thesis
    proof (cases e)
      case True
      then show ?thesis using step r by (intro exI [of _ True] exI [of _ v']) simp
    next
      case not_ended: False
      have "\<not> (0 \<le> total_cycles ci \<and> total_cycles ci \<le> int (run_count v'))"
        using not_ended r False by (cases n) simp_all
      then show ?thesis using step r not_ended v1(3) by (auto split: if_splits)
    qed
  qed
qed (intro exI [of _ False], simp)

text \<open>
  C4. libFuzzer without the entropic schedule is safe: for every behaviour of the target and every random source, the start on
  non-empty inputs returns, and if the last of them has a feature that is new, every number of loops returns: no assertion
  fails, no vector is read or written outside its bounds, the entry that is drawn has its input, and the count of features
  of an entry never becomes negative.
\<close>

theorem lf_campaign_safe:
  assumes "platform_ok P" and "lf_config_ok ci conf feature_set_size manual" and "ds \<noteq> []" and "\<forall>d \<in> set ds. input_ok d"
    and "length ds + n \<le> 2 ^ 32 - 1"
  shows "\<exists>v. LibFuzzer P ci conf feature_set_size manual first_id ds rs w = Inr v \<and>
    (added_to_corpus (exec_result v) \<longrightarrow> (\<exists>s. lf_loops P ci n (False, v) = Inr s))"
proof -
  have "length ds \<le> 2 ^ 32 - 1" using assms(5) by simp
  then obtain v0 v where v: "LibFuzzer P ci conf feature_set_size manual first_id ds rs w = Inr v"
    "added_to_corpus (exec_result v) \<longrightarrow> lf_inv P ci (length ds) v"
    by (rule LibFuzzer_start [OF assms(1-4)])
  then show ?thesis using lf_loops_ok [OF _ assms(5)] by blast
qed

text \<open>A platform for concrete runs: the first entry with a weight is drawn, and every input covers the same edge.\<close>

definition demo_platform :: "(nat, nat) Platform" where
  "demo_platform = \<lparr>floats = nat_floats, hash = (\<lambda>data. CHR ''h'' # map (\<lambda>b. char_of (unat b)) data), shuf = (\<lambda>xs rs. (xs, rs)),
     draw = (\<lambda>ws rs. (case List.find (\<lambda>i. ws ! i \<noteq> 0) [0..<length ws] of None \<Rightarrow> 0 | Some i \<Rightarrow> i, rs)),
     put = (\<lambda>w data. (\<lparr>exit_reason = FAULT_NONE, exit_signal = 0, elapsed = 1, afl_feedback = [0, 1], bb_feedback = [], feedback_address = 0\<rparr>, w + 1))\<rparr>"

definition demo_info :: FuzzerCreateInfo where
  "demo_info = \<lparr>input_dir = ''in'', output_dir = ''out'', mutation_depth = 5, max_mutation_retry_count = 2, max_mutation_factor = 20, do_crossover = True,
     only_ascii = False, use_afl_coverage = True, sparse_energy_updates = 100, crashed_only = True, max_input_length = 4096, len_control = 100,
     merge = False, crossover_uniform_dist = False, total_cycles = 0\<rparr>"

definition demo_config :: Config where
  "demo_config = \<lparr>entropic_enabled = False, number_of_rarest_features = 0, feature_frequency_threshold = 0, scale_per_exec_time = False,
     reduce_depth = False, use_counters = False, shrink = False, reduce_inputs = False\<rparr>"

lemma demo_ok: "platform_ok demo_platform" "lf_config_ok demo_info demo_config 4 []" "input_ok [43]" "input_ok [44]"
proof -
  have "draw_ok demo_platform"
    unfolding draw_ok_def
  proof (intro allI impI, elim conjE)
    fix ws :: "nat list" and rs assume "\<exists>w \<in> set ws. f_nonzero (floats demo_platform) w"
    then have "\<exists>i < length ws. ws ! i \<noteq> 0" by (auto simp: demo_platform_def nat_floats_def in_set_conv_nth)
    then have "List.find (\<lambda>i. ws ! i \<noteq> 0) [0..<length ws] \<noteq> None" by (auto simp: find_None_iff)
    then obtain i where i: "List.find (\<lambda>i. ws ! i \<noteq> 0) [0..<length ws] = Some i" by blast
    then have "i < length ws" "ws ! i \<noteq> 0" by (auto simp: find_Some_iff)
    then show "fst (draw demo_platform ws rs) < length ws \<and> f_nonzero (floats demo_platform) (ws ! fst (draw demo_platform ws rs))"
      using i by (simp add: demo_platform_def nat_floats_def)
  qed
  then show "platform_ok demo_platform"
    by (simp add: platform_ok_def floats_ok_def shuffle_ok_def) (simp add: demo_platform_def nat_floats_def)
  show "lf_config_ok demo_info demo_config 4 []" by (simp add: lf_config_ok_def demo_info_def demo_config_def dictionary_capacity_def)
  show "input_ok [43]" "input_ok [44]" by (simp_all add: input_ok_def)
qed

text \<open>The definitions that a concrete start unfolds; on \<open>demo_platform\<close> a single input is added to the corpus with a feature.\<close>

lemmas demo_defs = demo_platform_def demo_info_def demo_config_def nat_floats_def new_InputInfo_def new_State_def

lemmas start_defs = LibFuzzer_def createInitialize_def new_Variables_def createExecuteAndFeedback_def Execute_def collect_node_def add_node_def
  CollectFeatures_def ForEachNonZeroByte_scan feature_of_def collect_feature_def AddFeature_def AddToCorpus_def corpus_AddToCorpus_def
  maximal_energy_def named_def find_corpus_def create_input_def insert_corpus_def modify_corpus_def erase_input_def cleared_info_def

lemma bindR_weak_cong: "m = m' \<Longrightarrow> bindR m f = bindR m' f"
  by simp

lemma distribution_node_result:
  "distribution_node P ci v = Inr v' \<Longrightarrow> exec_result v' = exec_result v"
  by (auto simp: distribution_node_def bindR_eq_Inr)

lemma demo_total: "demo_info\<lparr>total_cycles := 0\<rparr> = demo_info"
  by (simp add: demo_info_def)

lemma demo_start:
  assumes "LibFuzzer demo_platform (demo_info\<lparr>total_cycles := t\<rparr>) demo_config 4 [] 1 [[43]] rs 0 = Inr v"
  shows "added_to_corpus (exec_result v)"
proof -
  let ?ci = "demo_info\<lparr>total_cycles := t\<rparr>"
  obtain v1 where v1: "ForEachStaticData [[43]] (createExecuteAndFeedback demo_platform ?ci True True False False)
      (new_Variables demo_platform ?ci demo_config 4 [] 1 rs 0) = Inr v1" "added_to_corpus (exec_result v1)"
    by (simp add: demo_defs start_defs Let_def cong: bindR_weak_cong)
  then have "distribution_node demo_platform ?ci v1 = Inr v"
    using assms by (simp add: LibFuzzer_def createInitialize_def) (simp add: demo_info_def)
  then show ?thesis using distribution_node_result v1(2) by metis
qed

theorem lf_campaign_safe_witness:
  "\<exists>v s. LibFuzzer demo_platform demo_info demo_config 4 [] 1 [[43]] [3, 1, 4, 1, 5] 0 = Inr v \<and>
    added_to_corpus (exec_result v) \<and> lf_loops demo_platform demo_info 1000 (False, v) = Inr s"
proof -
  have "\<exists>v. LibFuzzer demo_platform demo_info demo_config 4 [] 1 [[43]] [3, 1, 4, 1, 5] 0 = Inr v \<and>
      (added_to_corpus (exec_result v) \<longrightarrow> (\<exists>s. lf_loops demo_platform demo_info 1000 (False, v) = Inr s))"
    by (rule lf_campaign_safe [OF demo_ok(1,2)]) (simp_all add: demo_ok(3))
  then show ?thesis using demo_start [of 0] by (auto simp: demo_total)
qed



text \<open>
  C30. The start of libFuzzer keeps only the last initial input. The execution result that is reused for all of them keeps the
  name it got from the first, and an entry of the corpus with the name of a new one is emptied. With the option to merge,
  at most one input is written, since the node that writes them comes after the loop over the inputs.
\<close>

theorem lf_start_keeps_last_input:
  assumes "platform_ok P" and "lf_config_ok ci conf feature_set_size manual" and "ds \<noteq> []" and "\<forall>d \<in> set ds. input_ok d" and "length ds \<le> 2 ^ 32 - 1"
  shows "\<exists>v. LibFuzzer P ci conf feature_set_size manual first_id ds rs w = Inr v \<and> length (corpus (lf_corpus v)) = length ds \<and>
    (\<forall>k. k + 1 < length ds \<longrightarrow> \<not> enabled (corpus (lf_corpus v) ! k)) \<and> length (solutions v) \<le> 1"
proof -
  obtain v0 v where v: "LibFuzzer P ci conf feature_set_size manual first_id ds rs w = Inr v" "start_inv P ci (length ds) v0"
    "map enabled (corpus (lf_corpus v)) = map enabled (corpus (lf_corpus v0))" "length (solutions v) \<le> 1"
    by (rule LibFuzzer_start [OF assms])
  obtain es where es: "corpus (lf_corpus v0) = es @ [exec_result v0]" "\<forall>e \<in> set es. name e = []" "length (corpus (lf_corpus v0)) = length ds"
    using v(2) assms(3) unfolding start_inv_def by auto
  have len: "length (corpus (lf_corpus v)) = length ds" using map_eq_imp_length_eq [OF v(3)] es(3) by simp
  have off: "\<not> enabled e" if "e \<in> set es" for e
    using v(2) es(1,2) that unfolding start_inv_def lf_base_def store_inv_def store_ok_def by auto
  have "\<not> enabled (corpus (lf_corpus v) ! k)" if k: "k + 1 < length ds" for k
  proof -
    have "k < length es" using k es(1,3) by simp
    then have "\<not> enabled (corpus (lf_corpus v0) ! k)" using off es(1) by (simp add: nth_append)
    then show ?thesis using map_eq_nth [OF v(3), of k] k es(3) by simp
  qed
  then show ?thesis using v(1,4) len by blast
qed

theorem lf_start_keeps_last_input_witness:
  "\<exists>v. LibFuzzer demo_platform demo_info demo_config 4 [] 1 [[43], [44]] [] 0 = Inr v \<and> \<not> enabled (corpus (lf_corpus v) ! 0)"
proof -
  have ds: "[[43], [44 :: u8]] \<noteq> []" "\<forall>d \<in> set [[43], [44]]. input_ok d" "length [[43], [44 :: u8]] \<le> 2 ^ 32 - 1" using demo_ok(3,4) by simp_all
  show ?thesis using lf_start_keeps_last_input [OF demo_ok(1,2) ds, of 1 "[]" 0] by auto
qed

section \<open>An emptied entry\<close>

lemma ChangeByte_empty: "ChangeByte [] m h rs = Inl Undefined"
  using random_u8_ok [of rs] by (auto simp: ChangeByte_def random_value_def vec_set_def)

lemma empty_input_undefined:
  assumes "lf_input v = []" and "mutation_depth ci \<noteq> 0" and "random_value (length (mutators P ci)) (lf_rng v) = (3, rs)"
  shows "local_body P ci v = Inl Undefined"
proof -
  let ?v = "v\<lparr>mutation_history := [], dict_history := []\<rparr>"
  have m: "mutators P ci ! 3 = mutator_node ChangeByte" "mutators P ci \<noteq> []" by (simp_all add: mutators_def)
  have "createMutator P ci ?v = Inl Undefined"
    unfolding createMutator_def RandomCall_def using assms(1,3) m by (simp add: mutator_node_def ChangeByte_empty)
  then show ?thesis using assms(2) by (cases "mutation_depth ci") (simp_all add: local_body_def RepeatUntilMutated_def)
qed

lemma emptied_entry_undefined:
  assumes "lf_SelectSeed P (crossover_uniform_dist ci) (lf_state v) (lf_corpus v) (lf_rng v) = Inr (other, info, rs1)"
    and "lf_SelectSeed P False (lf_state v) (lf_corpus v) rs1 = Inr ([], info2, rs2)"
    and "random_value (length (mutators P ci)) rs2 = (3, rs)" and "mutation_depth ci \<noteq> 0" and "max_mutation_retry_count ci \<noteq> 0"
  shows "lf_OneLoop P ci (False, v) = Inl Undefined"
proof -
  let ?v = "v\<lparr>lf_crossover := other, lf_input := [], exec_result := info2, lf_rng := rs2\<rparr>"
  have "local_body P ci ?v = Inl Undefined" by (rule empty_input_undefined) (use assms(3,4) in simp_all)
  then show ?thesis
    using assms(1,2,5) by (cases "max_mutation_retry_count ci") (simp_all add: lf_OneLoop_def createRunone_def choose_crossover_node_def choose_node_def)
qed


end
