(* ===== verification/Spec2Isabelle.thy ===== *)
theory Spec2Isabelle
  imports Nautilus_Grammar AFL_Arith AFL_Start AFL_Stage_Props LibFuzzer_Campaign
begin

text \<open>
  A verification library for fuzzuf, a framework of fuzzers written in C++ (paths below are relative to
  \<open>src/\<close>).

  \<^bold>\<open>The program.\<close> A fuzzer runs a program under test on many inputs and keeps the inputs that reach new code. In
  fuzzuf an algorithm is a set of routines connected by a flow graph (HierarFlow); an executor runs the
  program and delivers feedback, a coverage map and an exit status. Three algorithms are modelled here.
  Nautilus (\<open>algorithms/nautilus\<close>) generates texts of a context-free grammar as trees, mutates and minimises
  the trees, and keeps a queue indexed by coverage bits. AFL (\<open>include/fuzzuf/algorithms/afl\<close>) mutates byte
  strings, and its templates are the base of several other fuzzers of the repository (AFLFast, IJON, DIE).
  libFuzzer (\<open>include/fuzzuf/algorithms/libfuzzer\<close>) also mutates byte strings; it turns coverage into features, keeps for every
  feature the smallest input that has it, and chooses inputs by weights.

  \<^bold>\<open>Conventions.\<close> \<open>Fuzzuf_Prelude\<close> holds the error type and the result type (an exception, a failed assertion, a
  call of \<open>exit\<close> and undefined behaviour such as an access out of bounds are values, so that \<open>Inr\<close> means
  that the code returned normally), checked vector access and the random source: a list of raw numbers, from
  which each draw takes one. Objects are records, and every operation returns the changed record. Integers
  keep their width where the code depends on it: \<open>u32\<close> and \<open>u64\<close> reduce modulo the word size, bytes and the
  words of the mutators are machine words. Loops are structural recursion or have a termination proof; where
  the source might not end, the model is a \<open>partial_function\<close> or has fuel, and the theorems show that a
  result is reached.

  \<^bold>\<open>Shared parts.\<close> \<open>Fuzzuf_Random\<close> is \<open>utils/random.hpp\<close>, with the alias method of
  \<open>WalkerDiscreteDistribution\<close>: the table it builds has exactly the requested weights. \<open>Fuzzuf_Files\<close> has the
  file helpers of \<open>utils/common.cpp\<close>, \<open>Fuzzuf_Feedback\<close> the exit reasons and the checksum of a coverage map
  (\<open>feedback/\<close>, \<open>Util::Hash32\<close>), \<open>Fuzzuf_ExecInput\<close> the inputs on disk (\<open>exec_input/on_disk_exec_input.cpp\<close>).

  \<^bold>\<open>Nautilus.\<close> \<open>Nautilus_Rule\<close> and \<open>Nautilus_Context\<close> are \<open>grammartec/rule.cpp\<close> and \<open>context.cpp\<close>;
  \<open>Nautilus_Derivation\<close> and \<open>Nautilus_Ready\<close> show that \<open>CalcMinLen\<close> computes least derivation sizes, when it succeeds, and that
  \<open>CalcNumOptions\<close> reaches a fixpoint. \<open>Nautilus_Tree\<close> (\<open>tree.cpp\<close>) and \<open>Nautilus_Tree_Props\<close> relate the flat
  trees to derivation trees: sizes and parents are recovered, replacing a subtree is again a derivation, the
  unparser ends and writes the yield. \<open>Nautilus_Generate\<close> is the random generation, \<open>Nautilus_Recursion\<close> is
  \<open>recursion_info.cpp\<close>, \<open>Nautilus_ChunkStore\<close> is \<open>chunkstore.cpp\<close>, \<open>Nautilus_Mutator\<close> and its properties are
  \<open>mutator.cpp\<close>: every mutation that reaches a tester is a derivation, and minimisation ends and keeps what
  the tester checks. \<open>Nautilus_Queue\<close> is \<open>fuzzer/queue.cpp\<close>, \<open>Nautilus_State\<close> is \<open>fuzzer/state.cpp\<close> with the
  routines of the flow, \<open>Nautilus_Loop_Props\<close> shows that the fuzzing loop never fails and that the program
  under test only sees texts of the grammar, and \<open>Nautilus_Grammar\<close> is \<open>fuzzer/fuzzer.cpp\<close> from the JSON
  grammar on, where the results for a whole run are stated.

  \<^bold>\<open>AFL, buffers.\<close> \<open>AFL_Util\<close> is \<open>afl_util.hpp\<close> and \<open>.cpp\<close>: the effector map, \<open>ClassifyCounts\<close> and
  \<open>SimplifyTrace\<close> on words, equal to their byte-wise meaning. \<open>AFL_Mutator\<close> has the classes \<open>Mutator\<close>
  (\<open>mutator/mutator.hpp\<close>) and \<open>AFLMutatorTemplate\<close> (\<open>afl_mutator.hpp\<close>) on bounded memories;
  \<open>AFL_Mutator_Props\<close> shows that \<open>Havoc\<close> stays within its allocations for every sequence of operators and
  that \<open>RestoreHavoc\<close> undoes it, \<open>AFL_Splice\<close> the same for \<open>Splice\<close>. \<open>AFL_Dedup\<close> and \<open>AFL_Arith\<close> characterise the filters
  that avoid repeated deterministic mutations. \<open>AFL_Coverage\<close> is \<open>HasNewBits\<close>, equal to a byte-wise
  specification.

  \<^bold>\<open>AFL, state.\<close> \<open>AFL_State\<close> is \<open>templates/afl_state.hpp\<close>: a test case is a position in the queue
  \<open>case_queue\<close>; the record \<open>World\<close> stands for the executor (whose answers may depend on all earlier runs), the
  clock, the stop signal and the file system. \<open>AFL_Routines\<close> has the routines of
  \<open>templates/afl_other_hierarflow_routines.hpp\<close> and \<open>NormalUpdate\<close>. \<open>AFL_Favored\<close> and \<open>AFL_Cull\<close> show the
  competition for the bytes of the map: reference counts and kept traces agree with the table of winners,
  and the favoured test cases cover every byte with a winner. \<open>AFL_Invariant\<close> states the invariant \<open>afl_inv\<close>;
  \<open>AFL_Calibrate\<close>, \<open>AFL_Save\<close> and \<open>AFL_Trim\<close> show that calibration, saving and trimming never fail and keep
  it, what is kept in the queue, and that trimming ends and only removes bytes. \<open>AFL_Flow\<close> puts the routines together as
  \<open>BuildFuzzFlow\<close> (\<open>templates/afl_fuzzer.hpp\<close>) does, as a step relation, and shows that no reachable step fails.

  \<^bold>\<open>AFL, stages.\<close> \<open>AFL_Stages\<close> has the deterministic stages and the dictionary stages
  (\<open>afl_mutation_hierarflow_routines.hpp\<close> and its template file), with the calls of their successors as an argument, and the record \<open>Stages\<close>
  of the members they use. \<open>AFL_Fuzz\<close> has havoc and splicing, the updates \<open>ConstructAutoDict\<close> and \<open>ConstructEffMap\<close>
  (\<open>templates/afl_update_hierarflow_routines.hpp\<close>), \<open>ApplyDetMuts\<close>, \<open>ApplyRandMuts\<close>, and the composition of everything in \<open>OneLoop\<close>.
  \<open>AFL_Undo\<close> shows that the changes of the stages can be undone. \<open>AFL_Contract\<close> and \<open>AFL_Havoc\<close> state what a stage asks of its
  successors as locales and prove every stage once: it returns, keeps the invariant, executes only buffers of admissible length
  and restores the buffer. \<open>AFL_AutoDict\<close> shows what the automatic dictionary contains. \<open>AFL_Loop\<close> interprets the locales on the
  three kinds of successors that \<open>BuildFuzzFlow\<close> connects, \<open>AFL_OneLoop\<close> concludes that the whole fuzzer is safe for every number of
  iterations, and \<open>AFL_Stage_Props\<close> has properties of single stages: which buffers the bit flips execute, the effector
  map, and two defects of the dictionary stages.

  \<^bold>\<open>AFL, start.\<close> \<open>AFL_Import\<close> has the start of the fuzzer (\<open>ReadTestcases\<close>, \<open>PivotInputs\<close> and \<open>PerformDryRun\<close> of
  \<open>templates/afl_state.hpp\<close>, called by the constructor in \<open>templates/afl_fuzzer.hpp\<close>) and the whole campaign as \<open>main\<close>
  (\<open>cli/cli_entry_point.cpp\<close>) runs it; the record \<open>Launch\<close> has the input directory and the options that the start reads.
  \<open>AFL_Start\<close> shows that a campaign either ends with an error message before its first round or never fails, that it does
  start and run on a program without faults, and how a resumed run computes depths.

  \<^bold>\<open>libFuzzer, data.\<close> \<open>LibFuzzer_Mutation\<close> and \<open>LibFuzzer_Parts\<close> are the mutators of \<open>mutation/\<close>, the random numbers of \<open>random.hpp\<close> and
  the dictionaries of \<open>dictionary.hpp\<close>; copies within one vector are made element by element in the order of the source.
  \<open>LibFuzzer_Mutation_Props\<close> states the contract of a mutator (it returns, respects the maximal length and keeps the history)
  and proves it for every one, \<open>LibFuzzer_Parts_Props\<close> says what crossover, the change of numbers in texts and the masks compute.
  \<open>LibFuzzer_Corpus\<close> has the execution results (\<open>input_info.cpp\<close>), the state, the features (\<open>feature/\<close>) and the corpus (\<open>corpus/\<close>,
  \<open>executor/\<close>); floating-point numbers are a type parameter with their operations in the record \<open>floats\<close>. \<open>LibFuzzer_Corpus_Props\<close>
  shows that the vectors of frequencies implement a map and that scanning a coverage map by words is scanning it by bytes.
  \<open>LibFuzzer_Owners\<close> has the invariant of the corpus: the count of features of an entry is the number of features that belong to
  it, so an entry is deleted exactly with its last feature; it also shows that no entry is ever replaced.

  \<^bold>\<open>libFuzzer, flow.\<close> \<open>LibFuzzer_Loop\<close> is \<open>select_seed.hpp\<close>, \<open>create.hpp\<close> with the nodes of \<open>hierarflow/\<close>, and \<open>algorithms/libfuzzer/fuzzer.cpp\<close>. A node is a
  function on the record \<open>Variables\<close>, and siblings are called one after the other; the record \<open>Platform\<close> stands for the
  executor with the target, the hash, \<open>std::shuffle\<close>, the draw from the distribution and the floating-point numbers.
  \<open>LibFuzzer_Loop_Props\<close> states what a node of the mutation loop and of the loop over the executions keeps as locales, which are
  interpreted on the nodes of \<open>createRunone\<close>. \<open>LibFuzzer_Campaign\<close> concludes that a campaign is safe once the last initial input has
  brought a new feature, that it ends at its limit of runs, and how the start loses all initial inputs but the last. The
  entropic schedule is modelled; the safety of a campaign is proved for the default schedule without it.

  \<^bold>\<open>Hypotheses.\<close> Theorems about a run of AFL assume \<open>world_ok\<close>: the executor delivers a map of the agreed size and
  does not report that the target cannot be executed, and files can be opened; the safety of the whole fuzzer also assumes \<open>sorts_ok\<close>,
  the contract of \<open>std::sort\<close>, and \<open>executor_ok\<close>: the executor itself reports only success, a timeout or a crash. Those about Nautilus assume the
  corresponding contract of its environment. Those about libFuzzer assume \<open>platform_ok\<close>: \<open>std::shuffle\<close> permutes, the hash of an input is not empty, the
  distribution draws an index with a weight other than zero, and a natural number converts to a floating-point number that is positive
  exactly if it is not 0. \<open>lf_config_ok\<close>
  states the ranges of the options, \<open>input_ok\<close> that an input is not empty and shorter than \<open>2 ^ 32\<close>. These contracts are satisfied by the
  concrete environments of the witnesses.

  \<^bold>\<open>Fuel.\<close> The grammar fixpoints of Nautilus take a bound on the rounds, and the theorems show that the bound suffices for
  every grammar; the unparser and the minimisers are partial functions that are shown to be defined. The loops of AFL
  have termination proofs: calibration runs at most \<open>CalCyclesLong\<close> more rounds, each successful trimming step
  shortens the test case, and the rounds of havoc are doubled at most as often as the performance score allows. \<open>fuzz_rounds\<close> runs the
  endless loop of the command line for a number of rounds, \<open>lf_loops\<close> the one of libFuzzer, whose loops over mutations and executions
  are bounded by the options.

  \<^bold>\<open>Not modelled.\<close> The executors (processes, pipes, shared memory), the status screens and statistics files, the
  command line, the Python bindings and the tools are input and output. The 64-bit statistics of AFL are
  natural numbers: they do not wrap within the life of a machine. The counters of finds and
  executions per stage, which only the screen shows, are left out, and so are the nodes of libFuzzer that print and trace, the parsers of its
  options and dictionary files, and its nodes that no flow of libFuzzer connects. Identifiers and counters of libFuzzer with 64 bits are
  natural numbers. The fuzzers derived from AFL, Nezha and VUzzer are left for later.
\<close>

end
